(* ===== verification/Prelude.thy ===== *)
theory Prelude
  imports Main "HOL-Library.Word"
begin

text \<open>
  Shared vocabulary of the development: bytes and little-endian byte strings (the order in
  which the C code stores multi-byte fields and reads its own integers through byte
  pointers), C characters as bytes, and generic facts on words and lists that several
  components use.
\<close>

unbundle bit_operations_syntax

section \<open>Theorem collections\<close>

named_theorems bytes_simps \<open>conversions between characters, bytes and words\<close>

section \<open>Bytes and little-endian words\<close>

type_synonym byte = "8 word"

definition le_bytes :: "nat \<Rightarrow> 'a::len word \<Rightarrow> byte list" where
  "le_bytes n w = map (\<lambda>i. ucast (drop_bit (8 * i) w)) [0..<n]"

fun of_le :: "byte list \<Rightarrow> 'a::len word" where
  "of_le [] = 0"
| "of_le (b # bs) = ucast b OR push_bit 8 (of_le bs)"

lemma length_le_bytes [simp]: "length (le_bytes n w) = n"
  by (simp add: le_bytes_def)

lemma bit_of_le:
  "bit (of_le bs :: 'a::len word) n \<longleftrightarrow>
     n < LENGTH('a) \<and> n div 8 < length bs \<and> bit (bs ! (n div 8)) (n mod 8)"
proof (induction bs arbitrary: n)
  case Nil
  then show ?case by simp
next
  case (Cons b bs)
  show ?case
  proof (cases "n < 8")
    case True
    then show ?thesis by (auto simp: bit_or_iff bit_push_bit_iff bit_ucast_iff)
  next
    case False
    then obtain m where m: "n = m + 8" by (metis add.commute le_Suc_ex not_less)
    have "\<not> bit b n" using False by (simp add: bit_word.rep_eq not_less)
    then have d: "(m + 8) div 8 = Suc (m div 8)" by simp
    from \<open>\<not> bit b n\<close> show ?thesis
      by (auto simp: bit_or_iff bit_push_bit_iff bit_ucast_iff m Cons.IH d)
  qed
qed

lemma of_le_le_bytes: "8 * n = LENGTH('a) \<Longrightarrow> of_le (le_bytes n w) = (w :: 'a::len word)"
  by (rule bit_eqI) (auto simp: bit_of_le le_bytes_def bit_ucast_iff bit_drop_bit_eq)

lemma le_bytes_inj:
  "8 * n = LENGTH('a) \<Longrightarrow> le_bytes n v = le_bytes n w \<Longrightarrow> v = (w :: 'a::len word)"
  by (metis of_le_le_bytes)

lemma le_bytes_of_le:
  assumes "length bs = n" "8 * n = LENGTH('a)"
  shows "le_bytes n (of_le bs :: 'a::len word) = bs"
proof (rule nth_equalityI)
  fix i assume "i < length (le_bytes n (of_le bs :: 'a word))"
  then have i: "i < n" by simp
  show "le_bytes n (of_le bs :: 'a word) ! i = bs ! i"
  proof (rule bit_eqI)
    fix k assume "possible_bit TYPE(8 word) k"
    then have k: "k < 8" by simp
    have "8 * i + k < 8 * n" using i k by linarith
    moreover have "(8 * i + k) div 8 = i" "(8 * i + k) mod 8 = k" using k by auto
    ultimately show "bit (le_bytes n (of_le bs :: 'a word) ! i) k = bit (bs ! i) k"
      using i k assms
      by (simp add: le_bytes_def bit_ucast_iff bit_drop_bit_eq bit_of_le)
  qed
qed (simp add: assms)

section \<open>Characters as bytes\<close>

definition byte_of_char :: "char \<Rightarrow> byte" where
  "byte_of_char c = word_of_nat (of_char c)"

definition char_of_byte :: "byte \<Rightarrow> char" where
  "char_of_byte b = char_of (unat b)"

lemma char_of_byte_of_char [simp, bytes_simps]: "char_of_byte (byte_of_char c) = c"
  by (simp add: char_of_byte_def byte_of_char_def unat_of_nat)

lemma byte_of_char_of_byte [simp, bytes_simps]: "byte_of_char (char_of_byte b) = b"
proof -
  have "(of_char (char_of (unat b) :: char) :: nat) = unat b"
    using unsigned_less[of b, where 'a = nat] by simp
  then show ?thesis by (simp add: char_of_byte_def byte_of_char_def)
qed

lemma byte_of_char_inj [simp]: "byte_of_char c = byte_of_char d \<longleftrightarrow> c = d"
  by (metis char_of_byte_of_char)

lemma map_char_of_byte_of_char [simp, bytes_simps]:
  "map char_of_byte (map byte_of_char cs) = cs"
  by (induction cs) simp_all

lemma map_byte_of_char_of_byte [simp, bytes_simps]:
  "map byte_of_char (map char_of_byte bs) = bs"
  by (induction bs) simp_all

lemma byte_of_char_NUL [simp]: "byte_of_char (CHR 0x00) = 0"
  by (simp add: byte_of_char_def)

lemma byte_of_char_zero [simp]: "byte_of_char c = 0 \<longleftrightarrow> c = CHR 0x00"
  by (metis byte_of_char_inj byte_of_char_NUL)

section \<open>Exclusive or\<close>

lemma word_xor_right_cancel [simp]:
  fixes a b c :: "'a::len word"
  shows "a XOR c = b XOR c \<longleftrightarrow> a = b"
  by (metis xor.assoc xor.right_neutral xor_self_eq)

lemma word_xor_left_cancel [simp]:
  fixes a b c :: "'a::len word"
  shows "c XOR a = c XOR b \<longleftrightarrow> a = b"
  by (metis word_xor_right_cancel xor.commute)

lemma word_xor_middle:
  fixes a b c :: "'a::len word"
  shows "(a XOR b) XOR (b XOR c) = a XOR c"
  by (simp add: xor.assoc flip: xor.assoc[of b b c])

lemma word_xor_twice [simp]:
  fixes a k :: "'a::len word"
  shows "(a XOR k) XOR k = a"
  by (simp add: xor.assoc)

section \<open>Machine integers\<close>

lemma word_less_succ:
  fixes x :: "'a::len word"
  assumes "x \<noteq> - 1"
  shows "x < x + 1"
proof -
  have "1 + x \<noteq> 0" using assms by (metis add.commute eq_neg_iff_add_eq_0)
  then have "unat (x + 1) = Suc (unat x)" by (metis add.commute unatSuc)
  then show ?thesis by (simp add: word_less_nat_alt)
qed

end
