(* ===== verification/Prng.thy ===== *)
theory Prng
  imports Prelude
begin

text \<open>
  The XRP pseudo random number generator of \<open>src/prng64_xrp32.c\<close>: the raw generator the default
  build uses and its \<open>splitmix64\<close> seeding. Every mixing step is shown to be injective, which gives the two facts a
  user of the generator relies on: the state never collapses to zero and no two seeds meet.
\<close>

unbundle bit_operations_syntax

section \<open>State\<close>

text \<open>
  \<open>xrp_state_t\<close> as the default build (\<open>PAIR_NULL_RAW\<close>) has it. The static instance that
  \<open>get_xrp_state\<close> returns is the state passed and returned. \<open>XRP_MAX\<close> is \<open>ULONG_MAX\<close>, which
  differs between platforms, so it is an argument.
\<close>

record xrp_state =
  xrp_w :: "64 word"
  xrp_x :: "64 word"
  xrp_y :: "64 word"
  xrp_z :: "64 word"
  xrp_counter :: "64 word"

definition rotl64 :: "64 word \<Rightarrow> nat \<Rightarrow> 64 word" where
  "rotl64 n shift = push_bit shift n OR drop_bit (64 - shift) n"

definition rotr64 :: "64 word \<Rightarrow> nat \<Rightarrow> 64 word" where
  "rotr64 n shift = drop_bit shift n OR push_bit (64 - shift) n"

definition prng64_result :: "xrp_state \<Rightarrow> 64 word" where
  "prng64_result s = rotl64 (xrp_x s * 5) 7 * 9"

definition prng64_step :: "64 word \<Rightarrow> xrp_state \<Rightarrow> xrp_state" where
  "prng64_step xrp_max s =
     (let t = push_bit 17 (xrp_x s);
          y1 = xrp_y s XOR xrp_w s;
          z1 = xrp_z s XOR xrp_x s;
          x1 = xrp_x s XOR y1;
          w1 = xrp_w s XOR z1;
          y2 = y1 XOR t;
          z2 = rotr64 z1 19;
          c1 = xrp_counter s + 1
      in \<lparr>xrp_w = w1, xrp_x = x1, xrp_y = y2, xrp_z = z2,
          xrp_counter = (if xrp_max \<le> c1 then 0 else c1)\<rparr>)"

definition splitmix64_mix :: "64 word \<Rightarrow> 64 word" where
  "splitmix64_mix r0 =
     (let r1 = (r0 XOR drop_bit 30 r0) * 0xBF58476D1CE4E5B9;
          r2 = (r1 XOR drop_bit 27 r1) * 0x94D049BB133111EB
      in r2 XOR drop_bit 31 r2)"

definition splitmix64 :: "64 word \<Rightarrow> 64 word \<times> 64 word" where
  "splitmix64 s = (let s' = s + 0x9E3779B97F4A7C15 in (splitmix64_mix s', s'))"

definition seed_xrp32 :: "64 word \<Rightarrow> xrp_state" where
  "seed_xrp32 seed =
     (let (w, s1) = splitmix64 seed;
          (x, s2) = splitmix64 s1;
          (y, s3) = splitmix64 s2;
          (z, s4) = splitmix64 s3
      in \<lparr>xrp_w = w, xrp_x = x, xrp_y = y, xrp_z = z, xrp_counter = 0\<rparr>)"

definition prng64_xrp32 :: "64 word \<Rightarrow> xrp_state \<Rightarrow> 64 word \<times> xrp_state" where
  "prng64_xrp32 xrp_max s = (prng64_result s, prng64_step xrp_max s)"

section \<open>The mixing steps lose nothing\<close>

lemma xorshift_left_inj:
  fixes a b :: "'a::len word"
  assumes "0 < k" "a XOR push_bit k a = b XOR push_bit k b"
  shows "a = b"
proof (rule bit_eqI)
  fix n assume "possible_bit TYPE('a word) n"
  then show "bit a n = bit b n"
  proof (induction n rule: less_induct)
    case (less n)
    have "bit (a XOR push_bit k a) n = bit (b XOR push_bit k b) n"
      using assms(2) by simp
    then show ?case
      using less assms(1) by (cases "k \<le> n") (auto simp: bit_xor_iff bit_push_bit_iff)
  qed
qed

lemma xorshift_right_inj:
  fixes a b :: "'a::len word"
  assumes "0 < k" "a XOR drop_bit k a = b XOR drop_bit k b"
  shows "a = b"
proof -
  have "bit a (LENGTH('a) - Suc m) = bit b (LENGTH('a) - Suc m)" if "m < LENGTH('a)" for m
    using that
  proof (induction m rule: less_induct)
    case (less m)
    let ?n = "LENGTH('a) - Suc m"
    have eq: "bit (a XOR drop_bit k a) ?n = bit (b XOR drop_bit k b) ?n"
      using assms(2) by simp
    have "bit a (k + ?n) = bit b (k + ?n)"
    proof (cases "k + ?n < LENGTH('a)")
      case True
      then have "k + ?n = LENGTH('a) - Suc (m - k)" "m - k < m" "m - k < LENGTH('a)"
        using less.prems assms(1) by auto
      then show ?thesis using less.IH[of "m - k"] by simp
    qed (auto dest: bit_imp_le_length)
    with eq show ?case by (auto simp: bit_xor_iff bit_drop_bit_eq)
  qed
  then have "bit a n = bit b n" if "n < LENGTH('a)" for n
    using that by (metis Suc_diff_Suc diff_diff_cancel diff_less_Suc less_imp_le not_less_eq)
  then show ?thesis by (auto intro!: bit_eqI)
qed

lemma rotl64_rotr64: "s \<le> 64 \<Longrightarrow> rotl64 (rotr64 a s) s = a"
proof (rule bit_eqI)
  fix n assume "s \<le> 64" "possible_bit TYPE(64 word) n"
  then show "bit (rotl64 (rotr64 a s) s) n = bit a n"
    by (cases "s \<le> n") (auto simp: rotl64_def rotr64_def bit_simps dest: bit_imp_le_length)
qed

lemma mult_inverse_inj:
  fixes a b c d :: "'a::len word"
  assumes "c * d = 1" "a * c = b * c"
  shows "a = b"
  using assms by (metis mult.assoc mult.right_neutral)

lemma splitmix64_mix_inj: "splitmix64_mix a = splitmix64_mix b \<Longrightarrow> a = b"
proof -
  have i1: "0xBF58476D1CE4E5B9 * 0x96DE1B173F119089 = (1 :: 64 word)" by simp
  have i2: "0x94D049BB133111EB * 0x319642B2D24D8EC3 = (1 :: 64 word)" by simp
  assume "splitmix64_mix a = splitmix64_mix b"
  then show ?thesis
    unfolding splitmix64_mix_def Let_def
    by (auto dest!: xorshift_right_inj[rotated] mult_inverse_inj[OF i1] mult_inverse_inj[OF i2])
qed

definition xrp_words :: "xrp_state \<Rightarrow> 64 word \<times> 64 word \<times> 64 word \<times> 64 word" where
  "xrp_words s = (xrp_w s, xrp_x s, xrp_y s, xrp_z s)"

lemma rotr64_inj: "s \<le> 64 \<Longrightarrow> rotr64 a s = rotr64 b s \<Longrightarrow> a = b"
  by (metis rotl64_rotr64)

lemma prng64_step_inj:
  assumes "xrp_words (prng64_step m s) = xrp_words (prng64_step m t)"
  shows "xrp_words s = xrp_words t"
proof -
  let ?y1 = "\<lambda>u. xrp_y u XOR xrp_w u" and ?z1 = "\<lambda>u. xrp_z u XOR xrp_x u"
  have w: "xrp_w s XOR ?z1 s = xrp_w t XOR ?z1 t"
    and x: "xrp_x s XOR ?y1 s = xrp_x t XOR ?y1 t"
    and y: "?y1 s XOR push_bit 17 (xrp_x s) = ?y1 t XOR push_bit 17 (xrp_x t)"
    and z: "rotr64 (?z1 s) 19 = rotr64 (?z1 t) 19"
    using assms by (auto simp: xrp_words_def prng64_step_def Let_def)
  have z1: "?z1 s = ?z1 t" using z by (rule rotr64_inj[rotated]) simp
  have w': "xrp_w s = xrp_w t" using w z1 by simp
  have "xrp_x s XOR push_bit 17 (xrp_x s) =
      (xrp_x s XOR ?y1 s) XOR (?y1 s XOR push_bit 17 (xrp_x s))"
    by (simp only: word_xor_middle)
  also have "\<dots> = xrp_x t XOR push_bit 17 (xrp_x t)"
    by (simp only: x y word_xor_middle)
  finally have x': "xrp_x s = xrp_x t" by (rule xorshift_left_inj[rotated]) simp
  have "?y1 s = ?y1 t" using x x' by simp
  then have y': "xrp_y s = xrp_y t" using w' by simp
  have "xrp_z s = xrp_z t" using z1 x' by simp
  with w' x' y' show ?thesis by (simp add: xrp_words_def)
qed


section \<open>Seeding\<close>

lemma xrp_words_prng64_step:
  "xrp_words s = xrp_words t \<Longrightarrow> xrp_words (prng64_step m s) = xrp_words (prng64_step n t)"
  by (auto simp: xrp_words_def prng64_step_def Let_def)

definition zero_state :: xrp_state where
  "zero_state = \<lparr>xrp_w = 0, xrp_x = 0, xrp_y = 0, xrp_z = 0, xrp_counter = 0\<rparr>"

lemma prng64_step_zero: "xrp_words (prng64_step m zero_state) = (0, 0, 0, 0)"
  by (simp add: xrp_words_def prng64_step_def zero_state_def rotr64_def)

lemma prng64_step_nonzero:
  assumes "xrp_words s \<noteq> (0, 0, 0, 0)"
  shows "xrp_words (prng64_step m s) \<noteq> (0, 0, 0, 0)"
proof
  assume "xrp_words (prng64_step m s) = (0, 0, 0, 0)"
  then have "xrp_words s = xrp_words zero_state"
    by (rule prng64_step_inj[of m, OF trans]) (rule prng64_step_zero[symmetric])
  with assms show False by (simp add: xrp_words_def zero_state_def)
qed

lemma splitmix64_mix_0: "splitmix64_mix 0 = 0"
  by (simp add: splitmix64_mix_def)

abbreviation golden_gamma :: "64 word" where
  "golden_gamma \<equiv> 0x9E3779B97F4A7C15"

lemma seed_xrp32_words:
  "xrp_words (seed_xrp32 seed) =
     (splitmix64_mix (seed + golden_gamma),
      splitmix64_mix (seed + golden_gamma + golden_gamma),
      splitmix64_mix (seed + golden_gamma + golden_gamma + golden_gamma),
      splitmix64_mix (seed + golden_gamma + golden_gamma + golden_gamma + golden_gamma))"
  by (simp add: xrp_words_def seed_xrp32_def splitmix64_def Let_def)

lemma splitmix64_mix_eq_0: "splitmix64_mix a = 0 \<Longrightarrow> a = 0"
  by (rule splitmix64_mix_inj) (simp add: splitmix64_mix_0)

lemma seed_xrp32_nonzero: "xrp_words (seed_xrp32 seed) \<noteq> (0, 0, 0, 0)"
proof
  assume "xrp_words (seed_xrp32 seed) = (0, 0, 0, 0)"
  then have "seed + golden_gamma = 0" "seed + golden_gamma + golden_gamma = 0"
    unfolding seed_xrp32_words by (blast dest: splitmix64_mix_eq_0)+
  then have "golden_gamma = 0" by (metis add_0)
  then show False by simp
qed

text \<open>The generator called \<open>n\<close> times after seeding.\<close>

fun prng64_run :: "64 word \<Rightarrow> nat \<Rightarrow> xrp_state \<Rightarrow> 64 word list \<times> xrp_state" where
  "prng64_run m 0 s = ([], s)"
| "prng64_run m (Suc n) s =
     (let (r, s') = prng64_xrp32 m s; (rs, s'') = prng64_run m n s' in (r # rs, s''))"

lemma snd_prng64_run_Suc:
  "snd (prng64_run m (Suc n) s) = snd (prng64_run m n (prng64_step m s))"
  by (simp add: prng64_xrp32_def split_def Let_def)

lemma prng64_run_nonzero:
  "xrp_words s \<noteq> (0, 0, 0, 0) \<Longrightarrow> xrp_words (snd (prng64_run m n s)) \<noteq> (0, 0, 0, 0)"
proof (induction n arbitrary: s)
  case (Suc n)
  from Suc.IH[OF prng64_step_nonzero[OF Suc.prems]] show ?case
    by (simp only: snd_prng64_run_Suc not_False_eq_True)
qed simp

lemma prng64_run_inj:
  "xrp_words (snd (prng64_run m n s)) = xrp_words (snd (prng64_run m n t)) \<Longrightarrow>
   xrp_words s = xrp_words t"
proof (induction n arbitrary: s t)
  case (Suc n)
  have "xrp_words (prng64_step m s) = xrp_words (prng64_step m t)"
    using Suc.prems unfolding snd_prng64_run_Suc by (rule Suc.IH)
  then show ?case by (rule prng64_step_inj)
qed simp

text \<open>
  C39: after \<open>seed_xrp32\<close>, whatever the seed, the generator never falls into the all-zero state
  (from which every later output would be 0), however often it is called.
\<close>

theorem prng64_never_all_zero:
  "xrp_words (snd (prng64_run xrp_max n (seed_xrp32 seed))) \<noteq> (0, 0, 0, 0)"
  by (rule prng64_run_nonzero) (rule seed_xrp32_nonzero)

text \<open>
  Different seeds never lead to the same generator state: after any number of calls the
  state still determines the seed, so neither \<open>splitmix64\<close> nor a step loses information.
\<close>

theorem prng64_seed_recoverable:
  "xrp_words (snd (prng64_run xrp_max n (seed_xrp32 seed))) =
     xrp_words (snd (prng64_run xrp_max n (seed_xrp32 seed'))) \<longleftrightarrow> seed = seed'"
proof
  assume "xrp_words (snd (prng64_run xrp_max n (seed_xrp32 seed))) =
    xrp_words (snd (prng64_run xrp_max n (seed_xrp32 seed')))"
  then have "xrp_words (seed_xrp32 seed) = xrp_words (seed_xrp32 seed')"
    by (rule prng64_run_inj)
  then have "seed + golden_gamma = seed' + golden_gamma"
    unfolding seed_xrp32_words by (blast dest: splitmix64_mix_inj)
  then show "seed = seed'" by simp
qed simp

end
