(* ===== verification/XrpTable.thy ===== *)
theory XrpTable
  imports Prng "HOL-Library.Multiset"
begin

text \<open>
  The \<open>PAIR_TOY_TEST\<close> build of \<open>src/prng64_xrp32.c\<close>: the raw generator followed by a byte
  substitution through a 256 entry table that every call shuffles. The table only ever changes by
  swaps, so it keeps the multiset of the table \<open>seed_xrp32\<close> starts from.
\<close>

unbundle bit_operations_syntax

section \<open>The table and its operations\<close>

definition xrp32_canonical_table :: "byte list" where
  "xrp32_canonical_table =
   [92, 6, 85, 150, 36, 23, 112, 164, 135, 207, 169, 5, 26, 64, 165, 219,
    61, 20, 68, 89, 130, 63, 52, 102, 24, 229, 132, 245, 80, 216, 195, 115,
    90, 168, 156, 203, 177, 120, 2, 190, 188, 7, 100, 185, 174, 243, 162, 10,
    237, 18, 253, 225, 8, 208, 172, 244, 255, 126, 101, 79, 145, 235, 228, 121,
    123, 251, 67, 250, 161, 0, 107, 97, 241, 111, 181, 82, 249, 33, 69, 55,
    59, 153, 29, 9, 213, 167, 84, 93, 30, 46, 94, 75, 151, 114, 73, 222,
    197, 96, 210, 45, 16, 227, 248, 201, 51, 152, 252, 125, 81, 206, 215, 186,
    39, 158, 178, 187, 131, 136, 1, 49, 50, 17, 141, 91, 47, 129, 60, 99,
    154, 35, 86, 171, 105, 34, 38, 200, 147, 58, 77, 118, 173, 246, 76, 254,
    133, 232, 196, 144, 198, 124, 53, 4, 108, 74, 223, 234, 134, 230, 157, 139,
    189, 205, 199, 128, 176, 19, 221, 236, 127, 192, 231, 70, 233, 88, 146, 44,
    183, 201, 22, 83, 13, 214, 116, 109, 159, 32, 95, 226, 140, 220, 57, 12,
    221, 31, 209, 182, 143, 92, 149, 184, 148, 62, 113, 65, 37, 27, 106, 166,
    3, 14, 204, 72, 21, 41, 56, 66, 28, 193, 40, 217, 25, 54, 179, 117,
    238, 87, 240, 155, 180, 170, 242, 212, 191, 163, 78, 218, 137, 194, 175, 110,
    43, 119, 224, 71, 122, 142, 42, 160, 104, 48, 247, 103, 15, 11, 138, 239]"

definition swap_entries :: "byte list \<Rightarrow> byte \<Rightarrow> byte \<Rightarrow> byte list" where
  "swap_entries t i j = t[unat i := t ! unat j, unat j := t ! unat i]"

definition shuffle8bytes :: "64 word \<Rightarrow> 64 word \<Rightarrow> byte list \<Rightarrow> byte list" where
  "shuffle8bytes a b t =
     fold (\<lambda>i t. swap_entries t (le_bytes 8 a ! i) (le_bytes 8 b ! i)) [0..<8] t"

definition get_word :: "64 word \<Rightarrow> byte list \<Rightarrow> 64 word" where
  "get_word w t = of_le (map (\<lambda>n. t ! unat n) (le_bytes 8 w))"

definition pearson32 :: "64 word list \<Rightarrow> byte list \<Rightarrow> 64 word" where
  "pearson32 ws t = fold (\<lambda>w h. get_word (h XOR w) t) ws 0"

record toy_state = xrp_state +
  xrp_table :: "byte list"

definition raw_step :: "64 word \<Rightarrow> toy_state \<Rightarrow> toy_state" where
  "raw_step xrp_max s =
     (let r = prng64_step xrp_max (xrp_state.truncate s)
      in s\<lparr>xrp_w := xrp_w r, xrp_x := xrp_x r, xrp_y := xrp_y r, xrp_z := xrp_z r,
           xrp_counter := xrp_counter r\<rparr>)"

definition prng64_toy :: "64 word \<Rightarrow> toy_state \<Rightarrow> 64 word \<times> toy_state" where
  "prng64_toy xrp_max s =
     (let result = prng64_result (xrp_state.truncate s);
          s1 = raw_step xrp_max s;
          s2 = s1\<lparr>xrp_table := shuffle8bytes (xrp_z s1) result (xrp_table s1)\<rparr>
      in (pearson32 [result, xrp_x s2, xrp_y s2, xrp_z s2] (xrp_table s2), s2))"

text \<open>
  \<open>shuffle8bytes(prng64_xrp32(), prng64_xrp32())\<close>: C leaves the order of the two calls open, so
  \<open>left_first\<close> says which argument is evaluated first.
\<close>

definition shuffle_twice :: "64 word \<Rightarrow> bool \<Rightarrow> toy_state \<Rightarrow> toy_state" where
  "shuffle_twice xrp_max left_first s =
     (let (r1, s1) = prng64_toy xrp_max s; (r2, s2) = prng64_toy xrp_max s1
      in s2\<lparr>xrp_table :=
           (if left_first then shuffle8bytes r1 r2 else shuffle8bytes r2 r1) (xrp_table s2)\<rparr>)"

definition seed_toy :: "64 word \<Rightarrow> bool \<Rightarrow> 64 word \<Rightarrow> toy_state" where
  "seed_toy xrp_max left_first seed =
     (let r = seed_xrp32 seed;
          s0 = \<lparr>xrp_w = xrp_w r, xrp_x = xrp_x r, xrp_y = xrp_y r, xrp_z = xrp_z r,
                xrp_counter = 0, xrp_table = xrp32_canonical_table\<rparr>;
          (r1, s1) = prng64_toy xrp_max s0;
          s2 = s1\<lparr>xrp_table := shuffle8bytes seed (rotr64 r1 32) (xrp_table s1)\<rparr>;
          (r2, s3) = prng64_toy xrp_max s2;
          s4 = s3\<lparr>xrp_table := shuffle8bytes seed (rotl64 r2 32) (xrp_table s3)\<rparr>
      in (shuffle_twice xrp_max left_first ^^ (32 + unat (seed mod 32))) s4)"

section \<open>Shuffling keeps the entries\<close>

lemma mset_swap_entries: "length t = 256 \<Longrightarrow> mset (swap_entries t i j) = mset t"
proof -
  assume t: "length t = 256"
  have "unat i < length t" "unat j < length t"
    using unsigned_less[of i, where 'a = nat] unsigned_less[of j, where 'a = nat] t by simp_all
  then show ?thesis by (simp add: swap_entries_def mset_swap)
qed

lemma length_swap_entries [simp]: "length (swap_entries t i j) = length t"
  by (simp add: swap_entries_def)

lemma mset_swaps:
  "length t = 256 \<Longrightarrow> mset (fold (\<lambda>i t. swap_entries t (f i) (g i)) is t) = mset t"
  by (induction "is" arbitrary: t) (simp_all add: mset_swap_entries)

lemma mset_shuffle8bytes: "length t = 256 \<Longrightarrow> mset (shuffle8bytes a b t) = mset t"
  unfolding shuffle8bytes_def by (rule mset_swaps)

definition table_ok :: "toy_state \<Rightarrow> bool" where
  "table_ok s \<longleftrightarrow> mset (xrp_table s) = mset xrp32_canonical_table"

lemma length_canonical: "length xrp32_canonical_table = 256"
  by (simp add: xrp32_canonical_table_def)

lemma table_ok_length: "table_ok s \<Longrightarrow> length (xrp_table s) = 256"
  by (metis table_ok_def length_canonical size_mset)

lemma table_ok_shuffle:
  "table_ok s \<Longrightarrow> table_ok (s\<lparr>xrp_table := shuffle8bytes a b (xrp_table s)\<rparr>)"
  using table_ok_length[of s] by (simp add: table_ok_def mset_shuffle8bytes)

lemma table_ok_raw: "table_ok s \<Longrightarrow> table_ok (raw_step m s)"
  by (simp add: table_ok_def raw_step_def Let_def)

lemma table_ok_prng: "table_ok s \<Longrightarrow> table_ok (snd (prng64_toy m s))"
  using table_ok_shuffle[OF table_ok_raw[of s m]] by (simp add: prng64_toy_def Let_def)

lemma table_ok_twice: "table_ok s \<Longrightarrow> table_ok (shuffle_twice m lf s)"
  unfolding shuffle_twice_def Let_def split_def
  by (cases lf) (simp_all add: table_ok_shuffle table_ok_prng)

lemma table_ok_iterate: "table_ok s \<Longrightarrow> table_ok ((shuffle_twice m lf ^^ n) s)"
  by (induction n) (simp_all add: table_ok_twice)

lemma table_ok_seed: "table_ok (seed_toy m lf seed)"
  unfolding seed_toy_def Let_def split_def
  by (intro table_ok_iterate table_ok_shuffle table_ok_prng) (simp add: table_ok_def)

lemma canonical_not_distinct: "\<not> distinct xrp32_canonical_table"
proof
  assume d: "distinct xrp32_canonical_table"
  have "xrp32_canonical_table ! 166 = xrp32_canonical_table ! 192"
    by (simp add: xrp32_canonical_table_def)
  with d show False by (simp add: nth_eq_iff_index_eq length_canonical)
qed

lemma table_ok_not_distinct: "table_ok s \<Longrightarrow> \<not> distinct (xrp_table s)"
  by (metis table_ok_def canonical_not_distinct mset_eq_imp_distinct_iff)

fun toy_run :: "64 word \<Rightarrow> nat \<Rightarrow> toy_state \<Rightarrow> toy_state" where
  "toy_run m 0 s = s"
| "toy_run m (Suc n) s = toy_run m n (snd (prng64_toy m s))"

lemma table_ok_run: "table_ok s \<Longrightarrow> table_ok (toy_run m n s)"
  by (induction n arbitrary: s) (simp_all add: table_ok_prng)

text \<open>
  In the toy build the substitution table never holds 256 distinct bytes, whatever the seed,
  the order of evaluation and the number of calls: the canonical table repeats entries and every
  later table is a permutation of it. The header requires distinct entries.
\<close>

theorem toy_table_never_a_permutation:
  "\<not> distinct (xrp_table (toy_run xrp_max n (seed_toy xrp_max left_first seed))) \<and>
   mset (xrp_table (toy_run xrp_max n (seed_toy xrp_max left_first seed))) =
     mset xrp32_canonical_table"
  using table_ok_run[OF table_ok_seed] table_ok_not_distinct table_ok_def by metis

end
