(* ===== verification/ChaCha.thy ===== *)
theory ChaCha
  imports Prelude
begin

text \<open>
  The ChaCha20 keystream of the \<open>PAIR_STREAM_CIPHER\<close> build of \<open>src/prng64_xrp32.c\<close>, on a
  little-endian host (the code reads its 32-bit keystream words through a byte pointer), and the
  contract of a byte-wise stream cipher, which it implements.
\<close>

unbundle bit_operations_syntax

section \<open>The interface of a stream cipher\<close>

text \<open>
  \<open>next_byte\<close> yields one keystream byte and the advanced context; \<open>crypt\<close> combines a byte string
  with the keystream, byte by byte. Everything a user of the cipher needs follows.
\<close>

locale stream_cipher =
  fixes next_byte :: "'c \<Rightarrow> byte \<times> 'c"
    and crypt :: "'c \<Rightarrow> byte list \<Rightarrow> 'c \<times> byte list"
  assumes crypt_Nil: "crypt c [] = (c, [])"
    and crypt_Cons: "crypt c (b # bs) =
          (let (k, c1) = next_byte c; (c2, bs') = crypt c1 bs in (c2, (b XOR k) # bs'))"
begin

lemma length_crypt: "length (snd (crypt c bs)) = length bs"
  by (induction bs arbitrary: c) (simp_all add: crypt_Nil crypt_Cons split_def Let_def)

lemma crypt_append:
  "crypt c (as @ bs) =
     (let (c1, as') = crypt c as; (c2, bs') = crypt c1 bs in (c2, as' @ bs'))"
  by (induction as arbitrary: c) (simp_all add: crypt_Nil crypt_Cons split_def Let_def)

lemma fst_crypt_length:
  "length as = length bs \<Longrightarrow> fst (crypt c as) = fst (crypt c bs)"
  by (induction as bs arbitrary: c rule: list_induct2)
     (simp_all add: crypt_Nil crypt_Cons split_def Let_def)

lemma crypt_crypt: "snd (crypt c (snd (crypt c bs))) = bs"
  by (induction bs arbitrary: c) (simp_all add: crypt_Nil crypt_Cons split_def Let_def)

end

section \<open>Words in memory\<close>

definition rotl32 :: "32 word \<Rightarrow> nat \<Rightarrow> 32 word" where
  "rotl32 x n = push_bit n x OR drop_bit (32 - n) x"

definition load32 :: "byte list \<Rightarrow> nat \<Rightarrow> 32 word" where
  "load32 p off = of_le (take 4 (drop off p))"

section \<open>The context\<close>

record chacha20_context =
  keystream32 :: "32 word list"
  position :: nat
  cc_key :: "byte list"
  cc_nonce :: "byte list"
  cc_counter :: "64 word"
  cc_state :: "32 word list"

definition magic_constant :: "byte list" where
  "magic_constant = map byte_of_char ''expand 32-byte k''"

definition chacha20_init_block ::
  "chacha20_context \<Rightarrow> byte list \<Rightarrow> byte list \<Rightarrow> chacha20_context" where
  "chacha20_init_block ctx key nonce = ctx\<lparr>
     cc_key := take 32 key,
     cc_nonce := take 12 nonce,
     cc_state :=
       [load32 magic_constant 0, load32 magic_constant 4,
        load32 magic_constant 8, load32 magic_constant 12,
        load32 key 0, load32 key 4, load32 key 8, load32 key 12,
        load32 key 16, load32 key 20, load32 key 24, load32 key 28,
        0, load32 nonce 0, load32 nonce 4, load32 nonce 8]\<rparr>"

definition chacha20_block_set_counter :: "chacha20_context \<Rightarrow> 64 word \<Rightarrow> chacha20_context" where
  "chacha20_block_set_counter ctx counter = ctx\<lparr>cc_state := (cc_state ctx)
     [12 := ucast counter,
      13 := load32 (cc_nonce ctx) 0 + ucast (drop_bit 32 counter)]\<rparr>"

definition quarterround :: "nat \<Rightarrow> nat \<Rightarrow> nat \<Rightarrow> nat \<Rightarrow> 32 word list \<Rightarrow> 32 word list" where
  "quarterround a b c d x0 =
     (let x1 = x0[a := x0 ! a + x0 ! b];
          x2 = x1[d := rotl32 (x1 ! d XOR x1 ! a) 16];
          x3 = x2[c := x2 ! c + x2 ! d];
          x4 = x3[b := rotl32 (x3 ! b XOR x3 ! c) 12];
          x5 = x4[a := x4 ! a + x4 ! b];
          x6 = x5[d := rotl32 (x5 ! d XOR x5 ! a) 8];
          x7 = x6[c := x6 ! c + x6 ! d]
      in x7[b := rotl32 (x7 ! b XOR x7 ! c) 7])"

definition double_round :: "32 word list \<Rightarrow> 32 word list" where
  "double_round x =
     quarterround 3 4 9 14 (quarterround 2 7 8 13 (quarterround 1 6 11 12 (quarterround 0 5 10 15
    (quarterround 3 7 11 15 (quarterround 2 6 10 14 (quarterround 1 5 9 13
    (quarterround 0 4 8 12 x)))))))"

definition chacha20_block_next :: "chacha20_context \<Rightarrow> chacha20_context" where
  "chacha20_block_next ctx =
     (let rounds = (double_round ^^ 10) (cc_state ctx);
          c0 = cc_state ctx ! 12 + 1;
          state1 = (cc_state ctx)[12 := c0];
          state2 = (if c0 = 0 then state1[13 := state1 ! 13 + 1] else state1)
      in ctx\<lparr>keystream32 := map2 (+) rounds (cc_state ctx), cc_state := state2\<rparr>)"

definition chacha20_init_context ::
  "byte list \<Rightarrow> byte list \<Rightarrow> 64 word \<Rightarrow> chacha20_context" where
  "chacha20_init_context key nonce counter =
     (let zero = \<lparr>keystream32 = replicate 16 0, position = 0, cc_key = replicate 32 0,
                  cc_nonce = replicate 12 0, cc_counter = 0, cc_state = replicate 16 0\<rparr>;
          ctx1 = chacha20_init_block zero key nonce;
          ctx2 = chacha20_block_set_counter ctx1 counter
      in ctx2\<lparr>cc_counter := counter, position := 64\<rparr>)"

text \<open>\<open>keystream8\<close>: the keystream words read through a byte pointer.\<close>

definition keystream8 :: "chacha20_context \<Rightarrow> byte list" where
  "keystream8 ctx = concat (map (le_bytes 4) (keystream32 ctx))"

text \<open>One round of the loop of \<open>chacha20_xor\<close>, without the exclusive or.\<close>

definition chacha20_next_byte :: "chacha20_context \<Rightarrow> byte \<times> chacha20_context" where
  "chacha20_next_byte ctx =
     (let ctx1 = (if 64 \<le> position ctx then (chacha20_block_next ctx)\<lparr>position := 0\<rparr> else ctx)
      in (keystream8 ctx1 ! position ctx1, ctx1\<lparr>position := position ctx1 + 1\<rparr>))"

fun chacha20_xor :: "chacha20_context \<Rightarrow> byte list \<Rightarrow> chacha20_context \<times> byte list" where
  "chacha20_xor ctx [] = (ctx, [])"
| "chacha20_xor ctx (b # bs) =
     (let (k, ctx1) = chacha20_next_byte ctx;
          (ctx2, bs') = chacha20_xor ctx1 bs
      in (ctx2, (b XOR k) # bs'))"

interpretation chacha: stream_cipher chacha20_next_byte chacha20_xor
  by unfold_locales simp_all

section \<open>Well-formed contexts\<close>

definition ctx_ok :: "chacha20_context \<Rightarrow> bool" where
  "ctx_ok ctx \<longleftrightarrow> length (cc_state ctx) = 16 \<and> length (keystream32 ctx) = 16 \<and> position ctx \<le> 64"

lemma length_quarterround [simp]: "length (quarterround a b c d x) = length x"
  by (simp add: quarterround_def Let_def)

lemma length_double_round [simp]: "length (double_round x) = length x"
  by (simp add: double_round_def)

lemma length_double_rounds [simp]: "length ((double_round ^^ n) x) = length x"
  by (induction n) simp_all

lemma ctx_ok_init: "ctx_ok (chacha20_init_context key nonce counter)"
  by (simp add: ctx_ok_def chacha20_init_context_def chacha20_init_block_def
      chacha20_block_set_counter_def)

lemma ctx_ok_next: "ctx_ok ctx \<Longrightarrow> ctx_ok (snd (chacha20_next_byte ctx))"
  by (auto simp: ctx_ok_def chacha20_next_byte_def chacha20_block_next_def Let_def)

lemma ctx_ok_xor: "ctx_ok ctx \<Longrightarrow> ctx_ok (fst (chacha20_xor ctx bs))"
  by (induction bs arbitrary: ctx) (auto simp: split_def Let_def dest: ctx_ok_next)

lemma length_keystream8: "ctx_ok ctx \<Longrightarrow> length (keystream8 ctx) = 64"
  by (simp add: keystream8_def ctx_ok_def length_concat comp_def sum_list_triv)

lemma ctx_ok_length: "ctx_ok ctx \<Longrightarrow> length (cc_state ctx) = 16"
  by (simp add: ctx_ok_def)

section \<open>The block counter\<close>

text \<open>Words 12 and 13 of the state, read as one 64-bit counter.\<close>

definition block_counter :: "chacha20_context \<Rightarrow> 64 word" where
  "block_counter ctx = ucast (cc_state ctx ! 13) * 4294967296 + ucast (cc_state ctx ! 12)"

lemma ucast_Suc_32: "x + 1 \<noteq> 0 \<Longrightarrow> (ucast (x + 1 :: 32 word) :: 64 word) = ucast x + 1"
proof -
  assume "x + 1 \<noteq> 0"
  then have "unat (x + 1) = Suc (unat x)"
    by (metis add.commute unatSuc)
  then have "(word_of_nat (unat (x + 1)) :: 64 word) = word_of_nat (unat x) + 1" by simp
  then show ?thesis by simp
qed

lemma ucast_wrap_32: "x + 1 = 0 \<Longrightarrow> (ucast (x :: 32 word) :: 64 word) = 4294967295"
proof -
  assume "x + 1 = 0"
  then have "x = - 1" by (metis eq_neg_iff_add_eq_0)
  also have "(- 1 :: 32 word) = 4294967295" by simp
  finally show ?thesis by simp
qed

lemma two_word_counter:
  fixes lo hi :: "32 word"
  shows "ucast (if lo + 1 = 0 then hi + 1 else hi) * 4294967296 + ucast (lo + 1) =
    (ucast hi * 4294967296 + ucast lo + 1 :: 64 word)"
proof (cases "lo + 1 = 0")
  case True
  have "ucast (hi + 1) * 4294967296 = (ucast hi * 4294967296 + 4294967296 :: 64 word)"
  proof (cases "hi + 1 = 0")
    case True
    show ?thesis by (simp add: True ucast_wrap_32[OF True])
  next
    case False
    show ?thesis unfolding ucast_Suc_32[OF False] by (simp add: algebra_simps)
  qed
  with True show ?thesis by (simp add: ucast_wrap_32)
qed (simp add: ucast_Suc_32)

lemma block_counter_next:
  assumes "length (cc_state ctx) = 16"
  shows "block_counter (chacha20_block_next ctx) = block_counter ctx + 1"
  using assms two_word_counter[of "cc_state ctx ! 12" "cc_state ctx ! 13"]
  by (auto simp: block_counter_def chacha20_block_next_def Let_def)

text \<open>
  C30: encrypting and then decrypting with a context initialised from the same key, nonce and
  counter gives the text back, and the keystream position a text leaves depends on its length
  only, not on its bytes.
\<close>

theorem chacha20_decrypts:
  "snd (chacha20_xor (chacha20_init_context key nonce counter)
     (snd (chacha20_xor (chacha20_init_context key nonce counter) msg))) = msg \<and>
   length (snd (chacha20_xor (chacha20_init_context key nonce counter) msg)) = length msg \<and>
   fst (chacha20_xor ctx msg) = fst (chacha20_xor ctx (replicate (length msg) 0))"
  using chacha.fst_crypt_length[of msg "replicate (length msg) 0" ctx]
  by (simp add: chacha.crypt_crypt chacha.length_crypt)

section \<open>The cipher by its specification\<close>

text \<open>
  The reference is ChaCha as it is published: a block of 16 words from the constants, the key, a 64-bit
  block number and the nonce; ten times a round of the four columns and one of the four diagonals; the
  words added to the first ones and written out in little-endian order. This program adds the high half of
  the block number to the first word of the nonce.
\<close>

definition spec_quarter :: "32 word \<times> 32 word \<times> 32 word \<times> 32 word \<Rightarrow> 32 word \<times> 32 word \<times> 32 word \<times> 32 word" where
  "spec_quarter w =
     (let (a, b, c, d) = w;
          a = a + b; d = word_rotl 16 (d XOR a);
          c = c + d; b = word_rotl 12 (b XOR c);
          a = a + b; d = word_rotl 8 (d XOR a);
          c = c + d; b = word_rotl 7 (b XOR c)
      in (a, b, c, d))"

text \<open>Four quarter rounds, on the columns of the matrix whose rows are given.\<close>

definition spec_columns :: "32 word list list \<Rightarrow> 32 word list list" where
  "spec_columns rows =
     (let qs = map (\<lambda>j. spec_quarter (rows ! 0 ! j, rows ! 1 ! j, rows ! 2 ! j, rows ! 3 ! j)) [0..<4]
      in [map (\<lambda>(a, b, c, d). a) qs, map (\<lambda>(a, b, c, d). b) qs, map (\<lambda>(a, b, c, d). c) qs, map (\<lambda>(a, b, c, d). d) qs])"

text \<open>Turning row \<open>i\<close> by \<open>i\<close> places makes the diagonals columns.\<close>

definition spec_double :: "32 word list list \<Rightarrow> 32 word list list" where
  "spec_double rows =
     (let turned = map (\<lambda>i. rotate i (spec_columns rows ! i)) [0..<4]
      in map (\<lambda>i. rotate (4 - i) (spec_columns turned ! i)) [0..<4])"

definition spec_matrix :: "byte list \<Rightarrow> byte list \<Rightarrow> 64 word \<Rightarrow> 32 word list list" where
  "spec_matrix key nonce n =
     [[0x61707865, 0x3320646e, 0x79622d32, 0x6b206574],
      map (\<lambda>i. of_le (take 4 (drop (4 * i) key))) [0..<4],
      map (\<lambda>i. of_le (take 4 (drop (4 * i) key))) [4..<8],
      [ucast n, of_le (take 4 nonce) + ucast (drop_bit 32 n), of_le (take 4 (drop 4 nonce)), of_le (take 4 (drop 8 nonce))]]"

definition spec_block :: "byte list \<Rightarrow> byte list \<Rightarrow> 64 word \<Rightarrow> byte list" where
  "spec_block key nonce n =
     (let m = spec_matrix key nonce n
      in concat (map (le_bytes 4) (map2 (+) (concat ((spec_double ^^ 10) m)) (concat m))))"

lemma rotl32_rotl: "0 < n \<Longrightarrow> n < 32 \<Longrightarrow> rotl32 x n = word_rotl n x"
proof (rule bit_word_eqI)
  fix k assume n: "0 < n" "n < 32" and k: "k < LENGTH(32)"
  show "bit (rotl32 x n) k = bit (word_rotl n x) k"
  proof (cases "n \<le> k")
    case True
    then have "(k + (32 - n)) mod 32 = k - n" using k n by (simp add: mod_if)
    then show ?thesis using True k n
      by (auto simp: rotl32_def bit_word_rotl_iff bit_or_iff bit_push_bit_iff bit_drop_bit_eq dest: bit_imp_le_length)
  next
    case False
    then show ?thesis using k n
      by (auto simp: rotl32_def bit_word_rotl_iff bit_or_iff bit_push_bit_iff bit_drop_bit_eq mod_if add.commute[of k 32])
  qed
qed

lemma quarterround_spec:
  assumes "distinct [a, b, c, d]" "a < length x" "b < length x" "c < length x" "d < length x"
    "spec_quarter (x ! a, x ! b, x ! c, x ! d) = (a', b', c', d')"
  shows "quarterround a b c d x = x[a := a', b := b', c := c', d := d']"
proof (rule nth_equalityI)
  show "length (quarterround a b c d x) = length (x[a := a', b := b', c := c', d := d'])" by simp
  fix i assume "i < length (quarterround a b c d x)"
  then show "quarterround a b c d x ! i = x[a := a', b := b', c := c', d := d'] ! i"
    using assms by (auto simp: quarterround_def spec_quarter_def Let_def nth_list_update rotl32_rotl)
qed

lemma four: "[0..<4] = [0, 1, 2, 3 :: nat]" by (simp add: upt_rec)

lemma spec_columns_eq:
  assumes "spec_quarter (x0, x4, x8, x12) = (y0, y4, y8, y12)" "spec_quarter (x1, x5, x9, x13) = (y1, y5, y9, y13)"
    "spec_quarter (x2, x6, x10, x14) = (y2, y6, y10, y14)" "spec_quarter (x3, x7, x11, x15) = (y3, y7, y11, y15)"
  shows "spec_columns [[x0, x1, x2, x3], [x4, x5, x6, x7], [x8, x9, x10, x11], [x12, x13, x14, x15]] =
    [[y0, y1, y2, y3], [y4, y5, y6, y7], [y8, y9, y10, y11], [y12, y13, y14, y15]]"
  using assms by (simp add: spec_columns_def four Let_def)

lemma double_round_spec:
  "\<exists>rows. spec_double [[x0, x1, x2, x3], [x4, x5, x6, x7], [x8, x9, x10, x11], [x12, x13, x14, x15]] = rows \<and>
     length rows = 4 \<and> (\<forall>r\<in>set rows. length r = 4) \<and>
     concat rows = double_round [x0, x1, x2, x3, x4, x5, x6, x7, x8, x9, x10, x11, x12, x13, x14, x15]"
proof -
  obtain y0 y4 y8 y12 where q0: "spec_quarter (x0, x4, x8, x12) = (y0, y4, y8, y12)" by (metis surj_pair)
  obtain y1 y5 y9 y13 where q1: "spec_quarter (x1, x5, x9, x13) = (y1, y5, y9, y13)" by (metis surj_pair)
  obtain y2 y6 y10 y14 where q2: "spec_quarter (x2, x6, x10, x14) = (y2, y6, y10, y14)" by (metis surj_pair)
  obtain y3 y7 y11 y15 where q3: "spec_quarter (x3, x7, x11, x15) = (y3, y7, y11, y15)" by (metis surj_pair)
  obtain z0 z5 z10 z15 where d0: "spec_quarter (y0, y5, y10, y15) = (z0, z5, z10, z15)" by (metis surj_pair)
  obtain z1 z6 z11 z12 where d1: "spec_quarter (y1, y6, y11, y12) = (z1, z6, z11, z12)" by (metis surj_pair)
  obtain z2 z7 z8 z13 where d2: "spec_quarter (y2, y7, y8, y13) = (z2, z7, z8, z13)" by (metis surj_pair)
  obtain z3 z4 z9 z14 where d3: "spec_quarter (y3, y4, y9, y14) = (z3, z4, z9, z14)" by (metis surj_pair)
  have s: "spec_double [[x0, x1, x2, x3], [x4, x5, x6, x7], [x8, x9, x10, x11], [x12, x13, x14, x15]] =
      [[z0, z1, z2, z3], [z4, z5, z6, z7], [z8, z9, z10, z11], [z12, z13, z14, z15]]"
    unfolding spec_double_def spec_columns_eq[OF q0 q1 q2 q3] four
    by (simp add: Let_def numeral_eq_Suc spec_columns_eq[OF d0 d1 d2 d3, unfolded numeral_eq_Suc])
  have "double_round [x0, x1, x2, x3, x4, x5, x6, x7, x8, x9, x10, x11, x12, x13, x14, x15] =
      [z0, z1, z2, z3, z4, z5, z6, z7, z8, z9, z10, z11, z12, z13, z14, z15]"
    unfolding double_round_def
    by (simp add: quarterround_spec q0 q1 q2 q3 d0 d1 d2 d3)
  with s show ?thesis by simp
qed


lemma double_rounds_spec:
  "length rows = 4 \<Longrightarrow> \<forall>r\<in>set rows. length r = 4 \<Longrightarrow>
   concat ((spec_double ^^ k) rows) = (double_round ^^ k) (concat rows) \<and>
   length ((spec_double ^^ k) rows) = 4 \<and> (\<forall>r\<in>set ((spec_double ^^ k) rows). length r = 4)"
proof (induction k)
  case (Suc k)
  let ?m = "(spec_double ^^ k) rows"
  have four_elems: "length xs = 4 \<Longrightarrow> \<exists>a b c d. xs = [a, b, c, d]" for xs :: "'z list"
    by (auto simp: numeral_eq_Suc length_Suc_conv)
  from Suc have "length ?m = 4" "\<forall>r\<in>set ?m. length r = 4" and c: "concat ?m = (double_round ^^ k) (concat rows)" by auto
  then obtain r0 r1 r2 r3 where m: "?m = [r0, r1, r2, r3]" "length r0 = 4" "length r1 = 4" "length r2 = 4" "length r3 = 4"
    using four_elems[of ?m] by auto
  obtain x0 x1 x2 x3 where 0: "r0 = [x0, x1, x2, x3]" using four_elems[OF m(2)] by blast
  obtain x4 x5 x6 x7 where 1: "r1 = [x4, x5, x6, x7]" using four_elems[OF m(3)] by blast
  obtain x8 x9 x10 x11 where 2: "r2 = [x8, x9, x10, x11]" using four_elems[OF m(4)] by blast
  obtain x12 x13 x14 x15 where 3: "r3 = [x12, x13, x14, x15]" using four_elems[OF m(5)] by blast
  show ?case using double_round_spec[of x0 x1 x2 x3 x4 x5 x6 x7 x8 x9 x10 x11 x12 x13 x14 x15] m(1) c
    by (simp add: 0 1 2 3)
qed simp

lemma low_word: "ucast (ucast h * 4294967296 + ucast l :: 64 word) = (l :: 32 word)"
  and high_word: "ucast (drop_bit 32 (ucast (h :: 32 word) * 4294967296 + ucast l :: 64 word)) = h"
proof -
  have e: "ucast h * 4294967296 + ucast l = (push_bit 32 (ucast h) OR ucast l :: 64 word)"
  proof -
    have "push_bit 32 (ucast h) AND ucast l = (0 :: 64 word)"
      by (rule bit_word_eqI) (auto simp: bit_and_iff bit_push_bit_iff bit_ucast_iff dest: bit_imp_le_length)
    then show ?thesis by (simp add: disjunctive_add_eq_or[symmetric] push_bit_eq_mult)
  qed
  show "ucast (ucast h * 4294967296 + ucast l :: 64 word) = l"
    unfolding e by (rule bit_word_eqI) (auto simp: bit_ucast_iff bit_or_iff bit_push_bit_iff)
  show "ucast (drop_bit 32 (ucast h * 4294967296 + ucast l :: 64 word)) = h"
    unfolding e by (rule bit_word_eqI) (auto simp: bit_ucast_iff bit_or_iff bit_push_bit_iff bit_drop_bit_eq dest: bit_imp_le_length)
qed

lemma word_split: "ucast (ucast (drop_bit 32 n) :: 32 word) * 4294967296 + ucast (ucast n :: 32 word) = (n :: 64 word)"
proof -
  have "push_bit 32 (ucast (ucast (drop_bit 32 n) :: 32 word)) AND ucast (ucast n :: 32 word) = (0 :: 64 word)"
    by (rule bit_word_eqI) (auto simp: bit_and_iff bit_push_bit_iff bit_ucast_iff dest: bit_imp_le_length)
  moreover have "push_bit 32 (ucast (ucast (drop_bit 32 n) :: 32 word)) OR ucast (ucast n :: 32 word) = n"
    by (rule bit_word_eqI) (auto simp: bit_or_iff bit_push_bit_iff bit_ucast_iff bit_drop_bit_eq dest: bit_imp_le_length)
  ultimately show ?thesis by (simp add: disjunctive_add_eq_or[symmetric] push_bit_eq_mult)
qed

lemma counter_words:
  fixes n :: "64 word"
  shows "(ucast (n + 1) :: 32 word) = ucast n + 1"
    "(ucast (drop_bit 32 (n + 1)) :: 32 word) = (if (ucast n + 1 :: 32 word) = 0 then ucast (drop_bit 32 n) + 1 else ucast (drop_bit 32 n))"
proof -
  let ?h = "if (ucast n + 1 :: 32 word) = 0 then ucast (drop_bit 32 n) + 1 else ucast (drop_bit 32 n) :: 32 word"
  have e: "n + 1 = ucast ?h * 4294967296 + ucast (ucast n + 1 :: 32 word)"
    unfolding two_word_counter word_split by (rule refl)
  show "(ucast (n + 1) :: 32 word) = ucast n + 1"
    using arg_cong[OF e, of "ucast :: 64 word \<Rightarrow> 32 word"] unfolding low_word .
  show "(ucast (drop_bit 32 (n + 1)) :: 32 word) = ?h"
    using arg_cong[OF e, of "\<lambda>w. ucast (drop_bit 32 w) :: 32 word"] unfolding high_word .
qed

lemma upto_words: "[4..<8] = [4, 5, 6, 7 :: nat]" by (simp add: upt_rec)

lemma matrix_words:
  "concat (spec_matrix key nonce n) =
    [0x61707865, 0x3320646e, 0x79622d32, 0x6b206574, load32 key 0, load32 key 4, load32 key 8, load32 key 12,
     load32 key 16, load32 key 20, load32 key 24, load32 key 28,
     ucast n, load32 nonce 0 + ucast (drop_bit 32 n), load32 nonce 4, load32 nonce 8]"
  by (simp add: spec_matrix_def load32_def four upto_words)

lemma magic_words: "load32 magic_constant 0 = 0x61707865" "load32 magic_constant 4 = 0x3320646e"
  "load32 magic_constant 8 = 0x79622d32" "load32 magic_constant 12 = 0x6b206574"
  by code_simp+

lemma next_block:
  assumes "cc_state ctx = concat (spec_matrix key nonce n)"
  shows "keystream8 (chacha20_block_next ctx) = spec_block key nonce n"
    "cc_state (chacha20_block_next ctx) = concat (spec_matrix key nonce (n + 1))"
proof -
  have m: "length (spec_matrix key nonce n) = 4" "\<forall>r\<in>set (spec_matrix key nonce n). length r = 4" by (simp_all add: spec_matrix_def)
  show "keystream8 (chacha20_block_next ctx) = spec_block key nonce n"
    using double_rounds_spec[OF m, of 10]
    by (simp add: keystream8_def chacha20_block_next_def spec_block_def Let_def assms)
  show "cc_state (chacha20_block_next ctx) = concat (spec_matrix key nonce (n + 1))"
    by (simp add: chacha20_block_next_def Let_def assms matrix_words counter_words add.assoc del: upt_Suc)
qed

text \<open>A context that is about to give byte \<open>i\<close> of the keystream that starts at block \<open>n\<close>.\<close>

definition stream_at :: "byte list \<Rightarrow> byte list \<Rightarrow> 64 word \<Rightarrow> nat \<Rightarrow> chacha20_context \<Rightarrow> bool" where
  "stream_at key nonce n i ctx \<longleftrightarrow>
     (if position ctx = 64 then i mod 64 = 0 \<and> cc_state ctx = concat (spec_matrix key nonce (n + word_of_nat (i div 64)))
      else position ctx = i mod 64 \<and> keystream8 ctx = spec_block key nonce (n + word_of_nat (i div 64)) \<and>
        cc_state ctx = concat (spec_matrix key nonce (n + word_of_nat (i div 64) + 1)))"

lemma stream_init: "stream_at key nonce n 0 (chacha20_init_context key nonce n)"
proof -
  have "load32 (take 12 nonce) 0 = load32 nonce 0" by (simp add: load32_def min_def)
  then show ?thesis
    by (simp add: stream_at_def chacha20_init_context_def chacha20_init_block_def chacha20_block_set_counter_def matrix_words magic_words)
qed

lemma next_index: "i mod 64 = 63 \<Longrightarrow> Suc i mod 64 = 0 \<and> Suc i div 64 = Suc (i div 64)"
  "i mod 64 \<noteq> 63 \<Longrightarrow> Suc i mod 64 = Suc (i mod 64) \<and> Suc i div 64 = i div 64" for i :: nat
  by (simp_all add: mod_Suc div_Suc)

lemma stream_step:
  assumes "stream_at key nonce n i ctx"
  shows "fst (chacha20_next_byte ctx) = spec_block key nonce (n + word_of_nat (i div 64)) ! (i mod 64) \<and>
    stream_at key nonce n (Suc i) (snd (chacha20_next_byte ctx))"
proof -
  define ctx1 where "ctx1 = (if 64 \<le> position ctx then (chacha20_block_next ctx)\<lparr>position := 0\<rparr> else ctx)"
  have k: "keystream8 (c\<lparr>position := p\<rparr>) = keystream8 c" for c p by (simp add: keystream8_def)
  have "i mod 64 < 64" by simp
  then have c: "position ctx1 = i mod 64" "keystream8 ctx1 = spec_block key nonce (n + word_of_nat (i div 64))"
    "cc_state ctx1 = concat (spec_matrix key nonce (n + word_of_nat (i div 64) + 1))"
    using assms by (auto simp: ctx1_def stream_at_def k next_block split: if_splits)
  have nb: "chacha20_next_byte ctx = (keystream8 ctx1 ! position ctx1, ctx1\<lparr>position := position ctx1 + 1\<rparr>)"
    by (simp add: chacha20_next_byte_def ctx1_def)
  have "stream_at key nonce n (Suc i) (ctx1\<lparr>position := position ctx1 + 1\<rparr>)"
  proof (cases "i mod 64 = 63")
    case True
    then show ?thesis using c next_index(1)[OF True] by (simp add: stream_at_def algebra_simps)
  next
    case False
    then show ?thesis using c next_index(2)[OF False] by (simp add: stream_at_def k)
  qed
  then show ?thesis using c(1,2) by (simp add: nb)
qed

lemma stream_xor:
  "stream_at key nonce n i ctx \<Longrightarrow>
   snd (chacha20_xor ctx msg) = map2 (XOR) msg (map (\<lambda>k. spec_block key nonce (n + word_of_nat (k div 64)) ! (k mod 64)) [i..<i + length msg])"
proof (induction msg arbitrary: i ctx)
  case (Cons b bs)
  from stream_step[OF Cons.prems] have s: "fst (chacha20_next_byte ctx) = spec_block key nonce (n + word_of_nat (i div 64)) ! (i mod 64)"
    "stream_at key nonce n (Suc i) (snd (chacha20_next_byte ctx))" by auto
  from Cons.IH[OF s(2)] s(1) show ?case
    by (simp add: split_def Let_def upt_conv_Cons del: upt_Suc)
qed simp

text \<open>
  C31: Encrypting is ChaCha20 in counter mode, as it is published: byte \<open>k\<close> of a text is combined with
  byte \<open>k mod 64\<close> of the block numbered \<open>counter + k div 64\<close>, where a block is the words of constants, key,
  block number and nonce, mixed by ten column and diagonal rounds and added to themselves.
\<close>

theorem chacha20_is_counter_mode:
  "snd (chacha20_xor (chacha20_init_context key nonce counter) msg) =
     map2 (XOR) msg (map (\<lambda>k. spec_block key nonce (counter + word_of_nat (k div 64)) ! (k mod 64)) [0..<length msg])"
  using stream_xor[OF stream_init] by simp

text \<open>
  C32: a context that \<open>chacha20_init_context\<close> made keeps 16 state and 16 keystream words and a
  position of at most 64 however much text it has processed, so every keystream byte read is
  inside the keystream; and each new block advances the 64-bit block counter in words 12 and 13
  by one, with the carry of the low word.
\<close>

theorem chacha20_context_invariant:
  "let ctx = fst (chacha20_xor (chacha20_init_context key nonce counter) msg)
   in length (cc_state ctx) = 16 \<and> length (keystream8 ctx) = 64 \<and> position ctx \<le> 64 \<and>
      block_counter (chacha20_block_next ctx) = block_counter ctx + 1"
proof -
  have "ctx_ok (fst (chacha20_xor (chacha20_init_context key nonce counter) msg))"
    by (rule ctx_ok_xor) (rule ctx_ok_init)
  then show ?thesis
    by (simp add: Let_def length_keystream8 block_counter_next[OF ctx_ok_length])
       (simp add: ctx_ok_def)
qed

end
