(* ===== verification/Values.thy ===== *)
theory Values
  imports Prelude
begin

text \<open>
  The tagged values of \<open>src/ussr.h\<close>. A C string is the list of its characters before the
  terminating NUL. Integers are 64-bit words, reals the 64-bit patterns of their IEEE-754
  encoding, heap objects (vectors, structs, B+ trees) their addresses.
\<close>

datatype ussr_value =
    USSR_NULL
  | USSR_INTEGER "64 word"
  | USSR_REAL "64 word"
  | USSR_STRING string
  | USSR_BOOLEAN bool
  | USSR_VECTOR nat
  | USSR_STRUCT nat
  | USSR_BTREE nat

text \<open>The characters a C string can hold.\<close>

definition cstring :: "string \<Rightarrow> bool" where
  "cstring s \<longleftrightarrow> CHR 0x00 \<notin> set s"

end
