(* ===== verification/Bytecode.thy ===== *)
theory Bytecode
  imports Values
begin

text \<open>
  The program representation the compiler, the \<open>.ru\<close> files and the virtual machine share:
  operators and syntax trees of \<open>src/ussr.h\<close>, instructions and programs of
  \<open>src/ussr_bytecode.h\<close>. A pointer that may be NULL is an option. The source position a command
  carries for diagnostics is left out.
\<close>

section \<open>Syntax trees\<close>

datatype ussr_operator =
    USSR_OP_ADD | USSR_OP_SUB | USSR_OP_MUL | USSR_OP_DIV | USSR_OP_MOD | USSR_OP_GT | USSR_OP_LT
  | USSR_OP_GE | USSR_OP_LE | USSR_OP_EQ | USSR_OP_NE | USSR_OP_LOGICAL_AND | USSR_OP_LOGICAL_OR
  | USSR_OP_SHIFT_LEFT | USSR_OP_SHIFT_RIGHT | USSR_OP_BITWISE_XOR | USSR_OP_BITWISE_AND
  | USSR_OP_BITWISE_OR

definition ussr_operators :: "ussr_operator list" where
  "ussr_operators =
    [USSR_OP_ADD, USSR_OP_SUB, USSR_OP_MUL, USSR_OP_DIV, USSR_OP_MOD, USSR_OP_GT, USSR_OP_LT,
     USSR_OP_GE, USSR_OP_LE, USSR_OP_EQ, USSR_OP_NE, USSR_OP_LOGICAL_AND, USSR_OP_LOGICAL_OR,
     USSR_OP_SHIFT_LEFT, USSR_OP_SHIFT_RIGHT, USSR_OP_BITWISE_XOR, USSR_OP_BITWISE_AND,
     USSR_OP_BITWISE_OR]"

text \<open>The number of an operator in the C enumeration, and back.\<close>

fun operator_number :: "ussr_operator \<Rightarrow> nat" where
  "operator_number USSR_OP_ADD = 0"
| "operator_number USSR_OP_SUB = 1"
| "operator_number USSR_OP_MUL = 2"
| "operator_number USSR_OP_DIV = 3"
| "operator_number USSR_OP_MOD = 4"
| "operator_number USSR_OP_GT = 5"
| "operator_number USSR_OP_LT = 6"
| "operator_number USSR_OP_GE = 7"
| "operator_number USSR_OP_LE = 8"
| "operator_number USSR_OP_EQ = 9"
| "operator_number USSR_OP_NE = 10"
| "operator_number USSR_OP_LOGICAL_AND = 11"
| "operator_number USSR_OP_LOGICAL_OR = 12"
| "operator_number USSR_OP_SHIFT_LEFT = 13"
| "operator_number USSR_OP_SHIFT_RIGHT = 14"
| "operator_number USSR_OP_BITWISE_XOR = 15"
| "operator_number USSR_OP_BITWISE_AND = 16"
| "operator_number USSR_OP_BITWISE_OR = 17"

datatype ussr_expression =
    USSR_EXPR_VALUE ussr_value
  | USSR_EXPR_VARIABLE string
  | USSR_EXPR_BINARY ussr_operator ussr_expression ussr_expression
  | USSR_EXPR_UNARY ussr_operator ussr_expression

text \<open>The flag of an argument is its \<open>assignment\<close> field.\<close>

datatype ussr_argument =
    USSR_ARGUMENT_VALUE bool ussr_value
  | USSR_ARGUMENT_EXPRESSION bool ussr_expression
  | USSR_ARGUMENT_COMMAND_LIST bool "ussr_command list"
  | USSR_ARGUMENT_ADVANCED_LIST bool "ussr_command list"
  | USSR_ARGUMENT_LOOKUP bool ussr_expression
  | USSR_ARGUMENT_UNO_LITERAL bool string
and ussr_command =
    Command (cmd_path: "string option") (cmd_name: "string option")
      (cmd_return_name: "string option") (cmd_arguments: "ussr_argument list")

section \<open>Instructions\<close>

datatype ussr_bc_opcode =
    USSR_BC_NOP | USSR_BC_LOAD_CONST | USSR_BC_LOAD_VAR | USSR_BC_STORE_VAR | USSR_BC_LOAD_HASH
  | USSR_BC_STORE_HASH | USSR_BC_DECODE_UNO | USSR_BC_GET | USSR_BC_VECTOR_GET
  | USSR_BC_VECTOR_SET | USSR_BC_ADD | USSR_BC_SUB | USSR_BC_MUL | USSR_BC_DIV | USSR_BC_MOD
  | USSR_BC_NEG | USSR_BC_EQ | USSR_BC_NE | USSR_BC_LT | USSR_BC_LE | USSR_BC_GT | USSR_BC_GE
  | USSR_BC_LAND | USSR_BC_LOR | USSR_BC_XOR | USSR_BC_BAND | USSR_BC_BOR | USSR_BC_SHL
  | USSR_BC_SHR | USSR_BC_JMP | USSR_BC_JMP_TRUE | USSR_BC_JMP_FALSE | USSR_BC_SET
  | USSR_BC_PRINT | USSR_BC_CONCAT | USSR_BC_EXTERNAL | USSR_BC_OOP | USSR_BC_EVAL
  | USSR_BC_RANDOM64 | USSR_BC_SEED64 | USSR_BC_SCAN | USSR_BC_TIME | USSR_BC_CHAIN
  | USSR_BC_FILE | USSR_BC_CD | USSR_BC_TEMPLATE | USSR_BC_CALL | USSR_BC_RET | USSR_BC_RETURN
  | USSR_BC_HALT

definition ussr_bc_opcodes :: "ussr_bc_opcode list" where
  "ussr_bc_opcodes =
    [USSR_BC_NOP, USSR_BC_LOAD_CONST, USSR_BC_LOAD_VAR, USSR_BC_STORE_VAR, USSR_BC_LOAD_HASH,
     USSR_BC_STORE_HASH, USSR_BC_DECODE_UNO, USSR_BC_GET, USSR_BC_VECTOR_GET, USSR_BC_VECTOR_SET,
     USSR_BC_ADD, USSR_BC_SUB, USSR_BC_MUL, USSR_BC_DIV, USSR_BC_MOD, USSR_BC_NEG, USSR_BC_EQ,
     USSR_BC_NE, USSR_BC_LT, USSR_BC_LE, USSR_BC_GT, USSR_BC_GE, USSR_BC_LAND, USSR_BC_LOR,
     USSR_BC_XOR, USSR_BC_BAND, USSR_BC_BOR, USSR_BC_SHL, USSR_BC_SHR, USSR_BC_JMP,
     USSR_BC_JMP_TRUE, USSR_BC_JMP_FALSE, USSR_BC_SET, USSR_BC_PRINT, USSR_BC_CONCAT,
     USSR_BC_EXTERNAL, USSR_BC_OOP, USSR_BC_EVAL, USSR_BC_RANDOM64, USSR_BC_SEED64, USSR_BC_SCAN,
     USSR_BC_TIME, USSR_BC_CHAIN, USSR_BC_FILE, USSR_BC_CD, USSR_BC_TEMPLATE, USSR_BC_CALL,
     USSR_BC_RET, USSR_BC_RETURN, USSR_BC_HALT]"

fun opcode_byte :: "ussr_bc_opcode \<Rightarrow> byte" where
  "opcode_byte USSR_BC_NOP = 0x00"
| "opcode_byte USSR_BC_LOAD_CONST = 0x01"
| "opcode_byte USSR_BC_LOAD_VAR = 0x02"
| "opcode_byte USSR_BC_STORE_VAR = 0x03"
| "opcode_byte USSR_BC_LOAD_HASH = 0x04"
| "opcode_byte USSR_BC_STORE_HASH = 0x05"
| "opcode_byte USSR_BC_DECODE_UNO = 0x06"
| "opcode_byte USSR_BC_GET = 0x07"
| "opcode_byte USSR_BC_VECTOR_GET = 0x08"
| "opcode_byte USSR_BC_VECTOR_SET = 0x09"
| "opcode_byte USSR_BC_ADD = 0x10"
| "opcode_byte USSR_BC_SUB = 0x11"
| "opcode_byte USSR_BC_MUL = 0x12"
| "opcode_byte USSR_BC_DIV = 0x13"
| "opcode_byte USSR_BC_MOD = 0x14"
| "opcode_byte USSR_BC_NEG = 0x15"
| "opcode_byte USSR_BC_EQ = 0x16"
| "opcode_byte USSR_BC_NE = 0x17"
| "opcode_byte USSR_BC_LT = 0x18"
| "opcode_byte USSR_BC_LE = 0x19"
| "opcode_byte USSR_BC_GT = 0x1a"
| "opcode_byte USSR_BC_GE = 0x1b"
| "opcode_byte USSR_BC_LAND = 0x1c"
| "opcode_byte USSR_BC_LOR = 0x1d"
| "opcode_byte USSR_BC_XOR = 0x1e"
| "opcode_byte USSR_BC_BAND = 0x1f"
| "opcode_byte USSR_BC_BOR = 0x20"
| "opcode_byte USSR_BC_SHL = 0x21"
| "opcode_byte USSR_BC_SHR = 0x22"
| "opcode_byte USSR_BC_JMP = 0x30"
| "opcode_byte USSR_BC_JMP_TRUE = 0x31"
| "opcode_byte USSR_BC_JMP_FALSE = 0x32"
| "opcode_byte USSR_BC_SET = 0x40"
| "opcode_byte USSR_BC_PRINT = 0x41"
| "opcode_byte USSR_BC_CONCAT = 0x42"
| "opcode_byte USSR_BC_EXTERNAL = 0x43"
| "opcode_byte USSR_BC_OOP = 0x44"
| "opcode_byte USSR_BC_EVAL = 0x45"
| "opcode_byte USSR_BC_RANDOM64 = 0x46"
| "opcode_byte USSR_BC_SEED64 = 0x47"
| "opcode_byte USSR_BC_SCAN = 0x48"
| "opcode_byte USSR_BC_TIME = 0x49"
| "opcode_byte USSR_BC_CHAIN = 0x4a"
| "opcode_byte USSR_BC_FILE = 0x4b"
| "opcode_byte USSR_BC_CD = 0x4c"
| "opcode_byte USSR_BC_TEMPLATE = 0x4d"
| "opcode_byte USSR_BC_CALL = 0x50"
| "opcode_byte USSR_BC_RET = 0x51"
| "opcode_byte USSR_BC_RETURN = 0x52"
| "opcode_byte USSR_BC_HALT = 0xf0"

definition opcode_of_byte :: "byte \<Rightarrow> ussr_bc_opcode option" where
  "opcode_of_byte b = find (\<lambda>q. opcode_byte q = b) ussr_bc_opcodes"

record ussr_bc_instruction =
  ins_opcode :: byte
  ins_a :: byte
  ins_b :: byte
  ins_c :: byte
  ins_immediate :: "32 word"

definition USSR_BC_MAX_CODE :: nat where "USSR_BC_MAX_CODE = 1000000"
definition USSR_BC_MAX_REGS :: nat where "USSR_BC_MAX_REGS = 32"
definition USSR_BC_RETURN_REG :: nat where "USSR_BC_RETURN_REG = 31"

section \<open>Programs\<close>

record ussr_bc_function =
  fn_name :: string
  fn_return_name :: "string option"
  fn_parameters :: "string list"
  fn_entry :: "32 word"
  fn_locals :: "string list"

record ussr_bc_site =
  site_instruction :: "32 word"
  site_command :: ussr_command

record ussr_bc_program =
  bc_code :: "ussr_bc_instruction list"
  bc_constants :: "ussr_value list"
  bc_strings :: "string option list"
  bc_functions :: "ussr_bc_function list"
  bc_oop_sites :: "ussr_bc_site list"
  bc_scan_sites :: "ussr_bc_site list"

section \<open>The enumerations are injective\<close>

lemma operator_number_nth: "ussr_operators ! operator_number q = q"
  by (cases q) (simp_all add: ussr_operators_def)

lemma operator_number_less: "operator_number q < 18"
  by (cases q) simp_all

lemma operator_number_inj: "operator_number p = operator_number q \<longleftrightarrow> p = q"
  by (metis operator_number_nth)

lemma operator_number_of_nth: "n < 18 \<Longrightarrow> operator_number (ussr_operators ! n) = n"
proof -
  have "\<forall>n\<in>set [0..<18]. operator_number (ussr_operators ! n) = n" by code_simp
  then show "n < 18 \<Longrightarrow> operator_number (ussr_operators ! n) = n" by simp
qed

lemma find_distinct_map:
  "distinct (map f xs) \<Longrightarrow> x \<in> set xs \<Longrightarrow> find (\<lambda>y. f y = f x) xs = Some x"
  by (induction xs) auto

lemma in_ussr_bc_opcodes: "q \<in> set ussr_bc_opcodes"
  by (cases q) (simp_all add: ussr_bc_opcodes_def)

lemma distinct_opcode_bytes: "distinct (map opcode_byte ussr_bc_opcodes)"
proof -
  have "distinct (map unat (map opcode_byte ussr_bc_opcodes))"
    by (simp add: ussr_bc_opcodes_def)
  then show ?thesis by (simp only: distinct_map)
qed

lemma opcode_of_opcode_byte [simp]: "opcode_of_byte (opcode_byte q) = Some q"
  unfolding opcode_of_byte_def
  by (rule find_distinct_map) (rule distinct_opcode_bytes, rule in_ussr_bc_opcodes)

lemma opcode_byte_inj [simp]: "opcode_byte p = opcode_byte q \<longleftrightarrow> p = q"
proof
  assume "opcode_byte p = opcode_byte q"
  from arg_cong[OF this, of opcode_of_byte] show "p = q" by simp
qed simp

lemma opcode_of_byte_Some: "opcode_of_byte b = Some q \<longleftrightarrow> b = opcode_byte q"
proof
  assume "opcode_of_byte b = Some q"
  then show "b = opcode_byte q" unfolding opcode_of_byte_def by (auto simp: find_Some_iff)
qed simp

lemma opcode_of_byte_None: "opcode_of_byte b = None \<longleftrightarrow> b \<notin> set (map opcode_byte ussr_bc_opcodes)"
  by (auto simp: opcode_of_byte_def find_None_iff)

end
