(* ===== verification/RuWrite.thy ===== *)
theory RuWrite
  imports Bytecode
begin

text \<open>
  The writer of \<open>.ru\<close> bytecode files, \<open>src/ussr_ru.c\<close> up to \<open>ussr_ru_write_file\<close>. Each \<open>ru_put\<close>
  function is modelled by the bytes it appends to the buffer; \<open>None\<close> is its error result, or the
  buffer's \<open>failed\<close> flag, which makes the whole write fail at the end. Memory is not modelled.
\<close>

section \<open>CRC-32\<close>

definition crc_bit :: "32 word \<Rightarrow> 32 word" where
  "crc_bit crc = drop_bit 1 crc XOR (0xedb88320 AND (0 - (crc AND 1)))"

definition crc_byte :: "32 word \<Rightarrow> byte \<Rightarrow> 32 word" where
  "crc_byte crc b = (crc_bit ^^ 8) (crc XOR ucast b)"

definition ru_crc32 :: "byte list \<Rightarrow> 32 word" where
  "ru_crc32 data = foldl crc_byte 0xffffffff data XOR 0xffffffff"

section \<open>Numbers and strings\<close>

definition RU_NULL_STRING :: "32 word" where "RU_NULL_STRING = 0xffffffff"
definition RU_MAX_SYNTAX_DEPTH :: nat where "RU_MAX_SYNTAX_DEPTH = 64"
definition RU_HEADER_SIZE :: nat where "RU_HEADER_SIZE = 24"
definition RU_MAX_FILE_SIZE :: nat where "RU_MAX_FILE_SIZE = 256 * 1024 * 1024"

definition ru_put_u8 :: "byte \<Rightarrow> byte list" where "ru_put_u8 v = [v]"
definition ru_put_u16 :: "16 word \<Rightarrow> byte list" where "ru_put_u16 v = le_bytes 2 v"
definition ru_put_u32 :: "32 word \<Rightarrow> byte list" where "ru_put_u32 v = le_bytes 4 v"
definition ru_put_u64 :: "64 word \<Rightarrow> byte list" where "ru_put_u64 v = le_bytes 8 v"

fun ru_put_string :: "string option \<Rightarrow> byte list option" where
  "ru_put_string None = Some (ru_put_u32 RU_NULL_STRING)"
| "ru_put_string (Some s) =
     (if length s \<ge> unat RU_NULL_STRING then None
      else Some (ru_put_u32 (word_of_nat (length s)) @ map byte_of_char s))"

text \<open>\<open>a\<close>, then \<open>b\<close>, unless one of them fails.\<close>

fun put_seq :: "byte list option \<Rightarrow> byte list option \<Rightarrow> byte list option" where
  "put_seq (Some a) (Some b) = Some (a @ b)"
| "put_seq _ _ = None"

fun put_all :: "('a \<Rightarrow> byte list option) \<Rightarrow> 'a list \<Rightarrow> byte list option" where
  "put_all f [] = Some []"
| "put_all f (x # xs) = put_seq (f x) (put_all f xs)"

definition put_flag :: "bool \<Rightarrow> byte list option" where
  "put_flag b = Some (ru_put_u8 (if b then 1 else 0))"

definition put_tag :: "byte \<Rightarrow> byte list option" where
  "put_tag t = Some (ru_put_u8 t)"

fun ru_put_constant :: "ussr_value \<Rightarrow> byte list option" where
  "ru_put_constant USSR_NULL = put_tag 0"
| "ru_put_constant (USSR_INTEGER i) = put_seq (put_tag 1) (Some (ru_put_u64 i))"
| "ru_put_constant (USSR_REAL bits) = put_seq (put_tag 2) (Some (ru_put_u64 bits))"
| "ru_put_constant (USSR_STRING s) = put_seq (put_tag 3) (ru_put_string (Some s))"
| "ru_put_constant (USSR_BOOLEAN b) = put_seq (put_tag 4) (put_flag b)"
| "ru_put_constant _ = None"

section \<open>Blocks as syntax\<close>

fun ru_put_expression :: "nat \<Rightarrow> ussr_expression \<Rightarrow> byte list option" where
  "ru_put_expression depth e =
     (if depth > RU_MAX_SYNTAX_DEPTH then None
      else case e of
        USSR_EXPR_VALUE v \<Rightarrow> put_seq (put_tag 0) (ru_put_constant v)
      | USSR_EXPR_VARIABLE x \<Rightarrow> put_seq (put_tag 1) (ru_put_string (Some x))
      | USSR_EXPR_BINARY p l r \<Rightarrow>
          put_seq (put_tag 2) (put_seq (put_tag (word_of_nat (operator_number p)))
            (put_seq (ru_put_expression (depth + 1) l) (ru_put_expression (depth + 1) r)))
      | USSR_EXPR_UNARY p l \<Rightarrow>
          put_seq (put_tag 3) (put_seq (put_tag (word_of_nat (operator_number p)))
            (ru_put_expression (depth + 1) l)))"

declare ru_put_expression.simps [simp del]

text \<open>
  \<open>ru_put_nodes\<close> and \<open>ru_put_commands\<close> are the loops over a command's arguments and over a
  block's commands.
\<close>

fun ru_put_node :: "nat \<Rightarrow> ussr_argument \<Rightarrow> byte list option"
  and ru_put_nodes :: "nat \<Rightarrow> ussr_argument list \<Rightarrow> byte list option"
  and ru_put_command :: "nat \<Rightarrow> ussr_command \<Rightarrow> byte list option"
  and ru_put_commands :: "nat \<Rightarrow> ussr_command list \<Rightarrow> byte list option"
  and ru_put_block :: "nat \<Rightarrow> ussr_command list \<Rightarrow> byte list option"
where
  "ru_put_node depth (USSR_ARGUMENT_VALUE f v) =
     put_seq (put_tag 0) (put_seq (put_flag f) (ru_put_constant v))"
| "ru_put_node depth (USSR_ARGUMENT_EXPRESSION f e) =
     put_seq (put_tag 1) (put_seq (put_flag f) (ru_put_expression depth e))"
| "ru_put_node depth (USSR_ARGUMENT_LOOKUP f e) =
     put_seq (put_tag 2) (put_seq (put_flag f) (ru_put_expression depth e))"
| "ru_put_node depth (USSR_ARGUMENT_UNO_LITERAL f s) =
     put_seq (put_tag 3) (put_seq (put_flag f) (ru_put_string (Some s)))"
| "ru_put_node depth (USSR_ARGUMENT_COMMAND_LIST f cs) =
     put_seq (put_tag 4) (put_seq (put_flag f) (ru_put_block (depth + 1) cs))"
| "ru_put_node depth (USSR_ARGUMENT_ADVANCED_LIST f cs) =
     put_seq (put_tag 5) (put_seq (put_flag f) (ru_put_block (depth + 1) cs))"
| "ru_put_nodes depth [] = Some []"
| "ru_put_nodes depth (a # as) = put_seq (ru_put_node depth a) (ru_put_nodes depth as)"
| "ru_put_command depth (Command path name ret as) =
     (if length as > 255 then None
      else put_seq (ru_put_string path) (put_seq (ru_put_string name) (put_seq (ru_put_string ret)
        (put_seq (put_tag (word_of_nat (length as))) (ru_put_nodes depth as)))))"
| "ru_put_commands depth [] = Some []"
| "ru_put_commands depth (c # cs) = put_seq (ru_put_command depth c) (ru_put_commands depth cs)"
| "ru_put_block depth cs =
     (if depth > RU_MAX_SYNTAX_DEPTH then None
      else put_seq (Some (ru_put_u32 (word_of_nat (length cs)))) (ru_put_commands depth cs))"

declare ru_put_block.simps [simp del]

section \<open>Call sites\<close>

fun ru_put_site_argument :: "ussr_argument \<Rightarrow> byte list option" where
  "ru_put_site_argument (USSR_ARGUMENT_COMMAND_LIST f cs) =
     put_seq (put_tag 2) (put_seq (put_flag f) (ru_put_block 1 cs))"
| "ru_put_site_argument (USSR_ARGUMENT_ADVANCED_LIST f cs) =
     put_seq (put_tag 3) (put_seq (put_flag f) (ru_put_block 1 cs))"
| "ru_put_site_argument (USSR_ARGUMENT_EXPRESSION f (USSR_EXPR_VARIABLE x)) =
     put_seq (put_tag 1) (put_seq (put_flag f) (ru_put_string (Some x)))"
| "ru_put_site_argument (USSR_ARGUMENT_EXPRESSION f _) = put_seq (put_tag 0) (put_flag f)"
| "ru_put_site_argument (USSR_ARGUMENT_VALUE f _) = put_seq (put_tag 0) (put_flag f)"
| "ru_put_site_argument (USSR_ARGUMENT_LOOKUP f _) = put_seq (put_tag 0) (put_flag f)"
| "ru_put_site_argument (USSR_ARGUMENT_UNO_LITERAL f _) = put_seq (put_tag 0) (put_flag f)"

fun ru_put_site :: "ussr_bc_site \<Rightarrow> byte list option" where
  "ru_put_site s =
     (case site_command s of Command path name ret as \<Rightarrow>
        if length as > 255 then None
        else put_seq (Some (ru_put_u32 (site_instruction s))) (put_seq (ru_put_string name)
          (put_seq (ru_put_string ret) (put_seq (put_tag (word_of_nat (length as)))
            (put_all ru_put_site_argument as)))))"

section \<open>The file\<close>

definition USSR_RU_MAGIC :: "byte list" where
  "USSR_RU_MAGIC = [0x89, 0x55, 0x53, 0x53, 0x52, 0x0d, 0x0a, 0x1a]"
definition USSR_RU_FORMAT_VERSION :: "16 word" where "USSR_RU_FORMAT_VERSION = 3"
definition USSR_RU_VM_ABI :: "32 word" where "USSR_RU_VM_ABI = 3"

definition ru_put_instruction :: "ussr_bc_instruction \<Rightarrow> byte list option" where
  "ru_put_instruction i =
     Some (ru_put_u8 (ins_opcode i) @ ru_put_u8 (ins_a i) @ ru_put_u8 (ins_b i) @
       ru_put_u8 (ins_c i) @ ru_put_u32 (ins_immediate i))"

text \<open>A count, then the records.\<close>

definition put_counted :: "('a \<Rightarrow> byte list option) \<Rightarrow> 'a list \<Rightarrow> byte list option" where
  "put_counted f xs = put_seq (Some (ru_put_u32 (word_of_nat (length xs)))) (put_all f xs)"

definition ru_put_function :: "ussr_bc_function \<Rightarrow> byte list option" where
  "ru_put_function f =
     put_seq (ru_put_string (Some (fn_name f))) (put_seq (ru_put_string (fn_return_name f))
       (put_seq (Some (ru_put_u32 (fn_entry f)))
         (put_seq (put_counted (\<lambda>s. ru_put_string (Some s)) (fn_parameters f))
           (put_counted (\<lambda>s. ru_put_string (Some s)) (fn_locals f)))))"

definition ru_payload :: "ussr_bc_program \<Rightarrow> byte list option" where
  "ru_payload p =
     put_seq (put_counted ru_put_instruction (bc_code p))
    (put_seq (put_counted ru_put_constant (bc_constants p))
    (put_seq (put_counted ru_put_string (bc_strings p))
    (put_seq (put_counted ru_put_function (bc_functions p))
    (put_seq (put_counted ru_put_site (bc_oop_sites p))
             (put_counted ru_put_site (bc_scan_sites p))))))"

text \<open>
  The producer's version is compiled in, here an argument; the payload length is patched into the
  header (offset 20) once it is known, and the checksum of everything is appended.
\<close>

definition ru_header :: "32 word \<Rightarrow> byte list \<Rightarrow> byte list" where
  "ru_header producer payload =
     USSR_RU_MAGIC @ ru_put_u16 USSR_RU_FORMAT_VERSION @ ru_put_u16 0 @ ru_put_u32 USSR_RU_VM_ABI @
     ru_put_u32 producer @ ru_put_u32 (word_of_nat (length payload))"

definition ussr_ru_write_file :: "32 word \<Rightarrow> ussr_bc_program \<Rightarrow> byte list option" where
  "ussr_ru_write_file producer p =
     map_option (\<lambda>payload. let data = ru_header producer payload @ payload
                            in data @ ru_put_u32 (ru_crc32 data)) (ru_payload p)"

section \<open>Lemmas on sequencing\<close>

lemma put_seq_Some:
  "put_seq a b = Some c \<longleftrightarrow> (\<exists>x y. a = Some x \<and> b = Some y \<and> c = x @ y)"
  by (cases a; cases b) auto

lemma put_seq_None [simp]: "put_seq a None = None"
  by (cases a) auto

lemma put_all_Some:
  "put_all f (x # xs) = Some bs \<longleftrightarrow> (\<exists>a b. f x = Some a \<and> put_all f xs = Some b \<and> bs = a @ b)"
  by (simp add: put_seq_Some)

lemma put_all_cong [fundef_cong]:
  "xs = ys \<Longrightarrow> (\<And>x. x \<in> set ys \<Longrightarrow> f x = g x) \<Longrightarrow> put_all f xs = put_all g ys"
  by (induction xs arbitrary: ys) auto

lemma length_ru_puts [simp]:
  "length (ru_put_u8 v) = 1" "length (ru_put_u16 w) = 2" "length (ru_put_u32 x) = 4"
  "length (ru_put_u64 y) = 8"
  by (simp_all add: ru_put_u8_def ru_put_u16_def ru_put_u32_def ru_put_u64_def)

lemma ru_put_string_length:
  "ru_put_string s = Some bs \<Longrightarrow> 4 \<le> length bs"
  by (cases s) (auto split: if_splits)

end
