(* ===== verification/RuRead.thy ===== *)
theory RuRead
  imports RuWrite
begin

text \<open>
  The loader of \<open>.ru\<close> files, \<open>src/ussr_ru.c\<close> from \<open>ru_fail\<close> on. The reader record is its unread
  bytes (\<open>data\<close> from \<open>offset\<close> to \<open>length\<close>); each \<open>ru_get\<close> function gives the first error or
  the value read with the bytes left. Every message of the code is a constructor of
  \<open>ru_error\<close>.
\<close>

section \<open>Errors and the reader\<close>

datatype ru_error =
    FileIsTruncated | CountLargerThanFile | RequiredStringMissing | StringPastEnd | StringContainsNul
  | InvalidBoolean | UnknownConstantType | BlockTooDeep | UnknownOperator | UnknownExpression
  | InvalidBlockFlag | LookupNotName | UnknownBlockArgument | InvalidSiteFlag | UnknownSiteArgument
  | SiteNotAtInstruction | BadSignature | UnsupportedVersion | UnsupportedFlags | AbiMismatch
  | DataAfterProgram | ChecksumMismatch | InvalidInstructionCount | UnknownOpcode | NoFinalHalt
  | EntryOutside | TooManyParameters | TooFewLocals | JumpLeavesProgram | ConstantOutOfRange
  | FunctionOutOfRange | UnknownVariableScope | StringOutOfRange | DataAfterLastSection
  | FileTooLarge

type_synonym 'a ru_result = "ru_error + 'a \<times> byte list"
type_synonym 'a ru_get = "byte list \<Rightarrow> 'a ru_result"

definition ru_fail :: "ru_error \<Rightarrow> 'a ru_get" where
  "ru_fail e r = Inl e"

definition ru_return :: "'a \<Rightarrow> 'a ru_get" where
  "ru_return x r = Inr (x, r)"

text \<open>Read \<open>m\<close>; on success go on with its value.\<close>

definition ru_then :: "'a ru_get \<Rightarrow> ('a \<Rightarrow> 'b ru_get) \<Rightarrow> 'b ru_get" where
  "ru_then m f r = (case m r of Inl e \<Rightarrow> Inl e | Inr (x, r') \<Rightarrow> f x r')"

lemma ru_then_cong [fundef_cong]:
  "m r = m' r' \<Longrightarrow> (\<And>x s. m' r' = Inr (x, s) \<Longrightarrow> f x s = g x s) \<Longrightarrow>
   ru_then m f r = ru_then m' g r'"
  by (auto simp: ru_then_def split: sum.split)

lemma ru_then_Inr [simp]: "m r = Inr (x, r') \<Longrightarrow> ru_then m f r = f x r'"
  by (simp add: ru_then_def)

lemma ru_then_Inl [simp]: "m r = Inl e \<Longrightarrow> ru_then m f r = Inl e"
  by (simp add: ru_then_def)

lemma ru_then_eq_Inr:
  "ru_then m f r = Inr (y, s) \<longleftrightarrow> (\<exists>x r'. m r = Inr (x, r') \<and> f x r' = Inr (y, s))"
  by (auto simp: ru_then_def split: sum.split)

lemma ru_return_eq [simp]: "ru_return x r = Inr (y, s) \<longleftrightarrow> x = y \<and> r = s"
  by (simp add: ru_return_def)

lemma ru_fail_eq [simp]: "ru_fail e r = Inl e" "ru_fail e r = Inr z \<longleftrightarrow> False"
  by (simp_all add: ru_fail_def)

section \<open>Numbers and strings\<close>

definition ru_get_u8 :: "byte ru_get" where
  "ru_get_u8 r = (case r of [] \<Rightarrow> Inl FileIsTruncated | b # r' \<Rightarrow> Inr (b, r'))"

definition ru_get_u32 :: "32 word ru_get" where
  "ru_get_u32 r =
     (if length r < 4 then Inl FileIsTruncated else Inr (of_le (take 4 r), drop 4 r))"

definition ru_get_u64 :: "64 word ru_get" where
  "ru_get_u64 r =
     (if length r < 8 then Inl FileIsTruncated else Inr (of_le (take 8 r), drop 8 r))"

definition ru_get_count :: "nat \<Rightarrow> nat ru_get" where
  "ru_get_count min_size = ru_then ru_get_u32 (\<lambda>value r.
     if min_size \<noteq> 0 \<and> unat value > length r div min_size then Inl CountLargerThanFile
     else Inr (unat value, r))"

definition ru_get_string :: "bool \<Rightarrow> string option ru_get" where
  "ru_get_string nullable = ru_then ru_get_u32 (\<lambda>len r.
     if len = RU_NULL_STRING then (if nullable then Inr (None, r) else Inl RequiredStringMissing)
     else if unat len > length r then Inl StringPastEnd
     else if 0 \<in> set (take (unat len) r) then Inl StringContainsNul
     else Inr (Some (map char_of_byte (take (unat len) r)), drop (unat len) r))"

text \<open>A string that must be there.\<close>

definition ru_get_text :: "string ru_get" where
  "ru_get_text = ru_then (ru_get_string False) (\<lambda>s. ru_return (the s))"

fun ru_repeat :: "nat \<Rightarrow> 'a ru_get \<Rightarrow> 'a list ru_get" where
  "ru_repeat 0 get = ru_return []"
| "ru_repeat (Suc n) get = ru_then get (\<lambda>x. ru_then (ru_repeat n get) (\<lambda>xs. ru_return (x # xs)))"

section \<open>Opcodes and constants\<close>

definition ru_known_opcode :: "byte \<Rightarrow> bool" where
  "ru_known_opcode b \<longleftrightarrow> opcode_of_byte b \<noteq> None"

definition ru_get_constant :: "ussr_value ru_get" where
  "ru_get_constant = ru_then ru_get_u8 (\<lambda>tag.
     if tag = 0 then ru_return USSR_NULL
     else if tag = 1 then ru_then ru_get_u64 (\<lambda>bits. ru_return (USSR_INTEGER bits))
     else if tag = 2 then ru_then ru_get_u64 (\<lambda>bits. ru_return (USSR_REAL bits))
     else if tag = 3 then ru_then ru_get_text (\<lambda>s. ru_return (USSR_STRING s))
     else if tag = 4 then ru_then ru_get_u8 (\<lambda>flag.
       if flag > 1 then ru_fail InvalidBoolean else ru_return (USSR_BOOLEAN (flag = 1)))
     else ru_fail UnknownConstantType)"

section \<open>Blocks as syntax\<close>

definition ru_get_operator :: "ussr_operator ru_get" where
  "ru_get_operator = ru_then ru_get_u8 (\<lambda>op.
     if unat op > operator_number USSR_OP_BITWISE_OR then ru_fail UnknownOperator
     else ru_return (ussr_operators ! unat op))"

function ru_get_expression :: "nat \<Rightarrow> ussr_expression ru_get" where
  "ru_get_expression depth r =
     (if depth > RU_MAX_SYNTAX_DEPTH then Inl BlockTooDeep
      else ru_then ru_get_u8 (\<lambda>tag.
        if tag = 0 then ru_then ru_get_constant (\<lambda>v. ru_return (USSR_EXPR_VALUE v))
        else if tag = 1 then ru_then ru_get_text (\<lambda>x. ru_return (USSR_EXPR_VARIABLE x))
        else if tag = 2 then ru_then ru_get_operator (\<lambda>p.
          ru_then (ru_get_expression (depth + 1)) (\<lambda>left.
          ru_then (ru_get_expression (depth + 1)) (\<lambda>right.
          ru_return (USSR_EXPR_BINARY p left right))))
        else if tag = 3 then ru_then ru_get_operator (\<lambda>p.
          ru_then (ru_get_expression (depth + 1)) (\<lambda>operand.
          ru_return (USSR_EXPR_UNARY p operand)))
        else ru_fail UnknownExpression) r)"
  by pat_completeness auto
termination
  by (relation "measure (\<lambda>(depth, r). RU_MAX_SYNTAX_DEPTH + 1 - depth)") auto

declare ru_get_expression.simps [simp del]

definition ru_get_flag :: "ru_error \<Rightarrow> bool ru_get" where
  "ru_get_flag e = ru_then ru_get_u8 (\<lambda>assignment.
     if assignment > 1 then ru_fail e else ru_return (assignment = 1))"

fun expression_is_variable :: "ussr_expression \<Rightarrow> bool" where
  "expression_is_variable (USSR_EXPR_VARIABLE _) = True"
| "expression_is_variable _ = False"

text \<open>
  The flag is read right after the kind, and only then are the two looked at. \<open>ru_get_commands\<close>
  and \<open>ru_get_nodes\<close> are the counting loops of \<open>ru_get_block\<close>.
\<close>

function (sequential)
  ru_get_node :: "nat \<Rightarrow> ussr_argument ru_get"
  and ru_get_nodes :: "nat \<Rightarrow> nat \<Rightarrow> ussr_argument list ru_get"
  and ru_get_commands :: "nat \<Rightarrow> nat \<Rightarrow> ussr_command list ru_get"
  and ru_get_block :: "nat \<Rightarrow> ussr_command list ru_get"
where
  "ru_get_node depth r =
     ru_then ru_get_u8 (\<lambda>kind. ru_then (ru_get_flag InvalidBlockFlag) (\<lambda>f.
        if kind = 0 then ru_then ru_get_constant (\<lambda>v. ru_return (USSR_ARGUMENT_VALUE f v))
        else if kind = 1 then ru_then (ru_get_expression depth) (\<lambda>e.
          ru_return (USSR_ARGUMENT_EXPRESSION f e))
        else if kind = 2 then ru_then (ru_get_expression depth) (\<lambda>e.
          if \<not> expression_is_variable e then ru_fail LookupNotName
          else ru_return (USSR_ARGUMENT_LOOKUP f e))
        else if kind = 3 then ru_then ru_get_text (\<lambda>s. ru_return (USSR_ARGUMENT_UNO_LITERAL f s))
        else if kind = 4 then ru_then (ru_get_block (depth + 1)) (\<lambda>cs.
          ru_return (USSR_ARGUMENT_COMMAND_LIST f cs))
        else if kind = 5 then ru_then (ru_get_block (depth + 1)) (\<lambda>cs.
          ru_return (USSR_ARGUMENT_ADVANCED_LIST f cs))
        else ru_fail UnknownBlockArgument)) r"
| "ru_get_nodes depth 0 r = Inr ([], r)"
| "ru_get_nodes depth (Suc n) r =
     ru_then (ru_get_node depth) (\<lambda>a. ru_then (ru_get_nodes depth n) (\<lambda>as. ru_return (a # as))) r"
| "ru_get_commands depth 0 r = Inr ([], r)"
| "ru_get_commands depth (Suc n) r =
     ru_then (ru_get_string True) (\<lambda>path. ru_then ru_get_text (\<lambda>name.
     ru_then (ru_get_string True) (\<lambda>return_name. ru_then ru_get_u8 (\<lambda>arguments.
     ru_then (ru_get_nodes depth (unat arguments)) (\<lambda>as.
     ru_then (ru_get_commands depth n) (\<lambda>cs.
     ru_return (Command path (Some name) return_name as # cs))))))) r"
| "ru_get_block depth r =
     (if depth > RU_MAX_SYNTAX_DEPTH then Inl BlockTooDeep
      else ru_then (ru_get_count 13) (\<lambda>count. ru_get_commands depth count) r)"
  by pat_completeness auto

text \<open>
  Nesting is bounded by the depth limit and each loop by its count, so the recursion ends whatever
  the bytes are.
\<close>

termination
  by (relation "inv_image (less_than <*lex*> less_than <*lex*> less_than)
    (\<lambda>x. case x of
       Inl (Inl (depth, r)) \<Rightarrow> (RU_MAX_SYNTAX_DEPTH + 1 - depth, 1, 0)
     | Inl (Inr (depth, n, r)) \<Rightarrow> (RU_MAX_SYNTAX_DEPTH + 1 - depth, 2, n)
     | Inr (Inl (depth, n, r)) \<Rightarrow> (RU_MAX_SYNTAX_DEPTH + 1 - depth, 3, n)
     | Inr (Inr (depth, r)) \<Rightarrow>
         (RU_MAX_SYNTAX_DEPTH + 1 - depth, if depth > RU_MAX_SYNTAX_DEPTH then 0 else 4, 0))")
    auto

declare ru_get_node.simps [simp del] ru_get_block.simps [simp del]

section \<open>Call sites\<close>

definition ru_get_site_argument :: "ussr_argument ru_get" where
  "ru_get_site_argument =
     ru_then ru_get_u8 (\<lambda>kind. ru_then (ru_get_flag InvalidSiteFlag) (\<lambda>f.
       if kind = 2 then ru_then (ru_get_block 1) (\<lambda>cs. ru_return (USSR_ARGUMENT_COMMAND_LIST f cs))
       else if kind = 3 then
         ru_then (ru_get_block 1) (\<lambda>cs. ru_return (USSR_ARGUMENT_ADVANCED_LIST f cs))
       else if kind = 1 then
         ru_then ru_get_text (\<lambda>x. ru_return (USSR_ARGUMENT_EXPRESSION f (USSR_EXPR_VARIABLE x)))
       else if kind = 0 then ru_return (USSR_ARGUMENT_VALUE f USSR_NULL)
       else ru_fail UnknownSiteArgument))"

definition ru_get_site :: "ussr_bc_site ru_get" where
  "ru_get_site =
     ru_then ru_get_u32 (\<lambda>instruction. ru_then (ru_get_string True) (\<lambda>name.
     ru_then (ru_get_string True) (\<lambda>return_name. ru_then ru_get_u8 (\<lambda>count.
     ru_then (ru_repeat (unat count) ru_get_site_argument) (\<lambda>as.
     ru_return \<lparr>site_instruction = instruction,
                site_command = Command None name return_name as\<rparr>)))))"

text \<open>One turn of the loop of \<open>ru_read_sites\<close>: the site must lie at an instruction of its opcode.\<close>

definition site_fits :: "ussr_bc_instruction list \<Rightarrow> ussr_bc_opcode \<Rightarrow> ussr_bc_site \<Rightarrow> bool" where
  "site_fits code opcode s \<longleftrightarrow>
     unat (site_instruction s) < length code \<and>
     ins_opcode (code ! unat (site_instruction s)) = opcode_byte opcode"

definition ru_get_fitting_site ::
  "ussr_bc_instruction list \<Rightarrow> ussr_bc_opcode \<Rightarrow> ussr_bc_site ru_get" where
  "ru_get_fitting_site code opcode = ru_then ru_get_site (\<lambda>s.
     if site_fits code opcode s then ru_return s else ru_fail SiteNotAtInstruction)"

definition ru_read_sites ::
  "ussr_bc_instruction list \<Rightarrow> ussr_bc_opcode \<Rightarrow> ussr_bc_site list ru_get" where
  "ru_read_sites code opcode = ru_then (ru_get_count 13) (\<lambda>count.
     ru_repeat count (ru_get_fitting_site code opcode))"

section \<open>Sections\<close>

definition ru_get_instruction :: "ussr_bc_instruction ru_get" where
  "ru_get_instruction =
     ru_then ru_get_u8 (\<lambda>opcode. ru_then ru_get_u8 (\<lambda>a. ru_then ru_get_u8 (\<lambda>b.
     ru_then ru_get_u8 (\<lambda>c. ru_then ru_get_u32 (\<lambda>immediate.
     if \<not> ru_known_opcode opcode then ru_fail UnknownOpcode
     else ru_return \<lparr>ins_opcode = opcode, ins_a = a, ins_b = b, ins_c = c,
            ins_immediate = immediate\<rparr>)))))"

definition ru_get_code :: "ussr_bc_instruction list ru_get" where
  "ru_get_code = ru_then (ru_get_count 8) (\<lambda>count.
     if count = 0 \<or> count > USSR_BC_MAX_CODE then ru_fail InvalidInstructionCount
     else ru_then (ru_repeat count ru_get_instruction) (\<lambda>code.
       if ins_opcode (last code) \<noteq> opcode_byte USSR_BC_HALT then ru_fail NoFinalHalt
       else ru_return code))"

definition ru_get_function :: "nat \<Rightarrow> ussr_bc_function ru_get" where
  "ru_get_function code_count =
     ru_then ru_get_text (\<lambda>name. ru_then (ru_get_string True) (\<lambda>return_name.
     ru_then ru_get_u32 (\<lambda>entry. ru_then (ru_get_count 4) (\<lambda>parameters.
     if unat entry \<ge> code_count then ru_fail EntryOutside
     else if parameters > USSR_BC_MAX_REGS then ru_fail TooManyParameters
     else ru_then (ru_repeat parameters ru_get_text) (\<lambda>ps.
       ru_then (ru_get_count 4) (\<lambda>locals.
       if locals < parameters + 1 then ru_fail TooFewLocals
       else ru_then (ru_repeat locals ru_get_text) (\<lambda>ls.
         ru_return \<lparr>fn_name = name, fn_return_name = return_name, fn_parameters = ps,
           fn_entry = entry, fn_locals = ls\<rparr>)))))))"

text \<open>The check of one instruction's operands against the pools, in the code's order.\<close>

definition operand_error ::
  "nat \<Rightarrow> nat \<Rightarrow> string option list \<Rightarrow> nat \<Rightarrow> ussr_bc_instruction \<Rightarrow> ru_error option" where
  "operand_error code_count constant_count strings function_count i =
     (let imm = unat (ins_immediate i);
          string_error =
            (if imm \<ge> length strings \<or> strings ! imm = None then Some StringOutOfRange else None)
      in case opcode_of_byte (ins_opcode i) of
        Some USSR_BC_JMP \<Rightarrow> (if imm \<ge> code_count then Some JumpLeavesProgram else None)
      | Some USSR_BC_JMP_TRUE \<Rightarrow> (if imm \<ge> code_count then Some JumpLeavesProgram else None)
      | Some USSR_BC_JMP_FALSE \<Rightarrow> (if imm \<ge> code_count then Some JumpLeavesProgram else None)
      | Some USSR_BC_LOAD_CONST \<Rightarrow>
          (if imm \<ge> constant_count then Some ConstantOutOfRange else None)
      | Some USSR_BC_CALL \<Rightarrow> (if imm \<ge> function_count then Some FunctionOutOfRange else None)
      | Some USSR_BC_LOAD_VAR \<Rightarrow>
          (if unat (ins_b i) > 2 then Some UnknownVariableScope else string_error)
      | Some USSR_BC_STORE_VAR \<Rightarrow>
          (if unat (ins_b i) > 2 then Some UnknownVariableScope else string_error)
      | Some USSR_BC_LOAD_HASH \<Rightarrow> string_error
      | Some USSR_BC_STORE_HASH \<Rightarrow> string_error
      | Some USSR_BC_DECODE_UNO \<Rightarrow> string_error
      | Some USSR_BC_OOP \<Rightarrow> string_error
      | Some USSR_BC_SCAN \<Rightarrow> string_error
      | Some USSR_BC_EXTERNAL \<Rightarrow> string_error
      | _ \<Rightarrow> None)"

fun ru_check_operands ::
  "(ussr_bc_instruction \<Rightarrow> ru_error option) \<Rightarrow> ussr_bc_instruction list \<Rightarrow> unit ru_get" where
  "ru_check_operands check [] r = Inr ((), r)"
| "ru_check_operands check (i # is) r =
     (case check i of Some e \<Rightarrow> Inl e | None \<Rightarrow> ru_check_operands check is r)"

definition ru_get_program :: "ussr_bc_program ru_get" where
  "ru_get_program =
     ru_then ru_get_code (\<lambda>code.
     ru_then (ru_then (ru_get_count 1) (\<lambda>n. ru_repeat n ru_get_constant)) (\<lambda>constants.
     ru_then (ru_then (ru_get_count 4) (\<lambda>n. ru_repeat n (ru_get_string True))) (\<lambda>strings.
     ru_then (ru_then (ru_get_count 16) (\<lambda>n. ru_repeat n (ru_get_function (length code))))
       (\<lambda>functions.
     ru_then (ru_check_operands (operand_error (length code) (length constants) strings
       (length functions)) code) (\<lambda>_.
     ru_then (ru_read_sites code USSR_BC_OOP) (\<lambda>oop_sites.
     ru_then (ru_read_sites code USSR_BC_SCAN) (\<lambda>scan_sites.
     ru_return \<lparr>bc_code = code, bc_constants = constants, bc_strings = strings,
       bc_functions = functions, bc_oop_sites = oop_sites, bc_scan_sites = scan_sites\<rparr>)))))))"

section \<open>The file\<close>

text \<open>
  The header is read at fixed offsets. \<open>length data - 28\<close> is the length of what lies between
  the header and the checksum.
\<close>

definition field :: "byte list \<Rightarrow> nat \<Rightarrow> nat \<Rightarrow> 'a::len word" where
  "field data offset n = of_le (take n (drop offset data))"

definition ru_parse :: "byte list \<Rightarrow> ru_error + ussr_bc_program" where
  "ru_parse data =
     (if length data < 8 \<or> take 8 data \<noteq> USSR_RU_MAGIC then Inl BadSignature
      else if length data < RU_HEADER_SIZE + 4 then Inl FileIsTruncated
      else if (field data 8 2 :: 16 word) \<noteq> USSR_RU_FORMAT_VERSION then Inl UnsupportedVersion
      else if data ! 10 \<noteq> 0 \<or> data ! 11 \<noteq> 0 then Inl UnsupportedFlags
      else if (field data 12 4 :: 32 word) \<noteq> USSR_RU_VM_ABI then Inl AbiMismatch
      else if unat (field data 20 4 :: 32 word) \<noteq> length data - RU_HEADER_SIZE - 4 then
        Inl (if unat (field data 20 4 :: 32 word) > length data - RU_HEADER_SIZE - 4
             then FileIsTruncated else DataAfterProgram)
      else if (field data (length data - 4) 4 :: 32 word) \<noteq>
              ru_crc32 (take (length data - 4) data) then Inl ChecksumMismatch
      else (case ru_get_program (drop RU_HEADER_SIZE (take (length data - 4) data)) of
              Inl e \<Rightarrow> Inl e
            | Inr (p, r) \<Rightarrow> if r \<noteq> [] then Inl DataAfterLastSection else Inr p))"

text \<open>\<open>file_bytes\<close> is the content of the opened file.\<close>

definition ussr_ru_read_file :: "byte list \<Rightarrow> ru_error + ussr_bc_program" where
  "ussr_ru_read_file file_bytes =
     (if length file_bytes > RU_MAX_FILE_SIZE then Inl FileTooLarge else ru_parse file_bytes)"

end
