(* ===== verification/RuCodec.thy ===== *)
theory RuCodec
  imports RuRead
begin

text \<open>
  The writer and the loader of \<open>.ru\<close> files are inverse to each other on each kind of record.
  The interface \<open>codec\<close> states the contract of one kind once and derives it for the counted
  lists the sections of a file consist of; it is interpreted on every record of the format.
\<close>

section \<open>The interface of a record kind\<close>

locale codec =
  fixes put :: "'a \<Rightarrow> byte list option"
    and get :: "'a ru_get"
    and ok :: "'a \<Rightarrow> bool"
    and min_size :: nat
  assumes get_put: "ok x \<Longrightarrow> put x = Some bs \<Longrightarrow> get (bs @ r) = Inr (x, r)"
    and put_get: "get s = Inr (x, r) \<Longrightarrow> ok x \<and> (\<exists>bs. put x = Some bs \<and> s = bs @ r)"
    and min_size: "put x = Some bs \<Longrightarrow> min_size \<le> length bs"
begin

lemma put_inj: "ok x \<Longrightarrow> ok y \<Longrightarrow> put x = Some bs \<Longrightarrow> put y = Some bs \<Longrightarrow> x = y"
  using get_put[of x bs "[]"] get_put[of y bs "[]"] by simp

lemma repeat_put:
  "list_all ok xs \<Longrightarrow> put_all put xs = Some bs \<Longrightarrow>
   ru_repeat (length xs) get (bs @ r) = Inr (xs, r)"
  by (induction xs arbitrary: bs) (auto simp: put_seq_Some ru_then_def get_put)

lemma put_repeat:
  "ru_repeat n get s = Inr (xs, r) \<Longrightarrow>
   length xs = n \<and> list_all ok xs \<and> (\<exists>bs. put_all put xs = Some bs \<and> s = bs @ r)"
proof (induction n arbitrary: s xs)
  case (Suc n)
  from Suc.prems obtain x xs' s' where *: "get s = Inr (x, s')"
    "ru_repeat n get s' = Inr (xs', r)" "xs = x # xs'"
    by (auto simp: ru_then_eq_Inr)
  from put_get[OF *(1)] Suc.IH[OF *(2)] *(3) show ?case by (auto simp: put_seq_Some)
qed simp

lemma size_put_all: "put_all put xs = Some bs \<Longrightarrow> min_size * length xs \<le> length bs"
proof (induction xs arbitrary: bs)
  case (Cons x xs)
  then obtain a b where "put x = Some a" "put_all put xs = Some b" "bs = a @ b"
    by (auto simp: put_seq_Some)
  with Cons.IH min_size[of x a] show ?case by force
qed simp

end

section \<open>Numbers\<close>

lemma get_put_u8 [simp]: "ru_get_u8 (ru_put_u8 v @ r) = Inr (v, r)"
  by (simp add: ru_get_u8_def ru_put_u8_def)

lemma put_get_u8: "ru_get_u8 s = Inr (v, r) \<longleftrightarrow> s = ru_put_u8 v @ r"
  by (auto simp: ru_get_u8_def ru_put_u8_def split: list.splits)

lemma get_put_u32 [simp]: "ru_get_u32 (ru_put_u32 v @ r) = Inr (v, r)"
  by (simp add: ru_get_u32_def ru_put_u32_def of_le_le_bytes)

lemma put_get_u32: "ru_get_u32 s = Inr (v, r) \<longleftrightarrow> s = ru_put_u32 v @ r"
proof
  assume "ru_get_u32 s = Inr (v, r)"
  then have "4 \<le> length s" "v = of_le (take 4 s)" "r = drop 4 s"
    by (auto simp: ru_get_u32_def split: if_splits)
  then show "s = ru_put_u32 v @ r" by (simp add: ru_put_u32_def le_bytes_of_le)
qed simp

lemma get_put_u64 [simp]: "ru_get_u64 (ru_put_u64 v @ r) = Inr (v, r)"
  by (simp add: ru_get_u64_def ru_put_u64_def of_le_le_bytes)

lemma put_get_u64: "ru_get_u64 s = Inr (v, r) \<longleftrightarrow> s = ru_put_u64 v @ r"
proof
  assume "ru_get_u64 s = Inr (v, r)"
  then have "8 \<le> length s" "v = of_le (take 8 s)" "r = drop 8 s"
    by (auto simp: ru_get_u64_def split: if_splits)
  then show "s = ru_put_u64 v @ r" by (simp add: ru_put_u64_def le_bytes_of_le)
qed simp

lemma get_put_count [simp]:
  "m * n \<le> length r \<Longrightarrow> n < 2 ^ 32 \<Longrightarrow>
   ru_get_count m (ru_put_u32 (word_of_nat n) @ r) = Inr (n, r)"
proof -
  assume *: "m * n \<le> length r" "n < 2 ^ 32"
  have "m \<noteq> 0 \<Longrightarrow> n \<le> length r div m"
    using *(1) by (simp add: less_eq_div_iff_mult_less_eq mult.commute)
  with *(2) show ?thesis
    by (cases "m = 0") (simp_all add: ru_get_count_def ru_then_def unat_of_nat not_less)
qed

lemma put_get_count:
  "ru_get_count m s = Inr (n, r) \<Longrightarrow> s = ru_put_u32 (word_of_nat n) @ r \<and> n < 2 ^ 32"
  using unsigned_less[where 'b = 32 and 'a = nat]
  by (auto simp: ru_get_count_def ru_then_eq_Inr put_get_u32 split: if_splits)

section \<open>Counted lists\<close>

context codec
begin

lemma counted_put:
  assumes "list_all ok xs" "length xs < 2 ^ 32" "put_counted put xs = Some bs"
  shows "ru_then (ru_get_count min_size) (\<lambda>n. ru_repeat n get) (bs @ r) = Inr (xs, r)"
proof -
  from assms(3) obtain b where b: "put_all put xs = Some b"
    "bs = ru_put_u32 (word_of_nat (length xs)) @ b"
    by (auto simp: put_counted_def put_seq_Some)
  have "min_size * length xs \<le> length (b @ r)" using size_put_all[OF b(1)] by simp
  with assms(2) show ?thesis
    by (simp add: b(2) ru_then_def repeat_put[OF assms(1) b(1)])
qed

lemma put_counted:
  assumes "ru_then (ru_get_count m) (\<lambda>n. ru_repeat n get) s = Inr (xs, r)"
  shows "list_all ok xs \<and> length xs < 2 ^ 32 \<and> (\<exists>bs. put_counted put xs = Some bs \<and> s = bs @ r)"
proof -
  from assms obtain n s' where "ru_get_count m s = Inr (n, s')" "ru_repeat n get s' = Inr (xs, r)"
    by (auto simp: ru_then_eq_Inr)
  with put_get_count[of m s n s'] put_repeat[of n s' xs r] show ?thesis
    by (auto simp: put_counted_def put_seq_Some)
qed

end

section \<open>Strings and constants\<close>

definition ok_text :: "string \<Rightarrow> bool" where
  "ok_text s \<longleftrightarrow> cstring s \<and> length s < unat RU_NULL_STRING"

definition ok_string :: "string option \<Rightarrow> bool" where
  "ok_string s \<longleftrightarrow> (case s of None \<Rightarrow> True | Some t \<Rightarrow> ok_text t)"

fun ok_constant :: "ussr_value \<Rightarrow> bool" where
  "ok_constant (USSR_STRING s) \<longleftrightarrow> ok_text s"
| "ok_constant (USSR_VECTOR _) \<longleftrightarrow> False"
| "ok_constant (USSR_STRUCT _) \<longleftrightarrow> False"
| "ok_constant (USSR_BTREE _) \<longleftrightarrow> False"
| "ok_constant _ \<longleftrightarrow> True"

lemma get_put_text:
  assumes "ok_text s" "ru_put_string (Some s) = Some bs"
  shows "ru_get_string nullable (bs @ r) = Inr (Some s, r)"
proof -
  have l: "length s < unat RU_NULL_STRING" "cstring s" using assms(1) by (simp_all add: ok_text_def)
  then have u: "unat (word_of_nat (length s) :: 32 word) = length s"
    by (simp add: unat_of_nat RU_NULL_STRING_def)
  then have "word_of_nat (length s) \<noteq> RU_NULL_STRING" using l(1) by auto
  moreover have "0 \<notin> byte_of_char ` set s" using l(2) by (auto simp: cstring_def)
  moreover have "bs = ru_put_u32 (word_of_nat (length s)) @ map byte_of_char s"
    using assms(2) l(1) by simp
  ultimately show ?thesis
    using u by (simp add: ru_get_string_def ru_then_def del: map_map)
qed

lemma get_put_string:
  "ok_string s \<Longrightarrow> ru_put_string s = Some bs \<Longrightarrow> ru_get_string True (bs @ r) = Inr (s, r)"
proof (cases s)
  case None
  then show "ru_put_string s = Some bs \<Longrightarrow> ?thesis"
    by (auto simp: ru_get_string_def ru_then_def)
next
  case (Some t)
  then show "ok_string s \<Longrightarrow> ru_put_string s = Some bs \<Longrightarrow> ?thesis"
    by (simp add: ok_string_def get_put_text del: ru_put_string.simps)
qed

lemma put_get_string:
  assumes "ru_get_string nullable s = Inr (t, r)"
  shows "ok_string t \<and> (\<exists>bs. ru_put_string t = Some bs \<and> s = bs @ r) \<and> (nullable \<or> t \<noteq> None)"
proof -
  obtain len s' where len: "ru_get_u32 s = Inr (len, s')"
    using assms by (auto simp: ru_get_string_def ru_then_eq_Inr)
  note s = len[unfolded put_get_u32]
  show ?thesis
  proof (cases "len = RU_NULL_STRING")
    case True
    with assms len s show ?thesis
      by (auto simp: ru_get_string_def ok_string_def split: if_splits)
  next
    case False
    let ?b = "take (unat len) s'"
    have t: "t = Some (map char_of_byte ?b)" "r = drop (unat len) s'" "0 \<notin> set ?b"
      "unat len \<le> length s'"
      using assms len False by (auto simp: ru_get_string_def split: if_splits)
    have "unat len < unat RU_NULL_STRING"
      using False unsigned_less[of len, where 'a = nat]
      by (simp add: RU_NULL_STRING_def word_unat_eq_iff)
    moreover have "cstring (map char_of_byte ?b)"
    proof -
      have "byte_of_char (CHR 0x00) \<notin> byte_of_char ` set (map char_of_byte ?b)"
        using t(3) by (simp add: image_image)
      then show ?thesis by (auto simp: cstring_def)
    qed
    ultimately show ?thesis
      using t s by (auto simp: ok_string_def ok_text_def simp del: map_map)
  qed
qed

lemma put_get_text:
  "ru_get_text s = Inr (t, r) \<Longrightarrow> ok_text t \<and> (\<exists>bs. ru_put_string (Some t) = Some bs \<and> s = bs @ r)"
  unfolding ru_get_text_def ru_then_eq_Inr
  by (auto dest!: put_get_string simp: ok_string_def simp del: ru_put_string.simps(2))

lemma get_put_text' [simp]:
  "ok_text s \<Longrightarrow> ru_put_string (Some s) = Some bs \<Longrightarrow> ru_get_text (bs @ r) = Inr (s, r)"
  by (simp add: ru_get_text_def ru_then_def get_put_text ru_return_def del: ru_put_string.simps)

interpretation string_codec: codec ru_put_string "ru_get_string True" ok_string 4
  by unfold_locales (auto simp: get_put_string dest: put_get_string ru_put_string_length)

interpretation text_codec: codec "\<lambda>s. ru_put_string (Some s)" ru_get_text ok_text 4
  by unfold_locales (auto simp del: ru_put_string.simps dest: put_get_text ru_put_string_length)

lemma put_tag_Some: "put_tag t = Some bs \<longleftrightarrow> bs = ru_put_u8 t"
  by (auto simp: put_tag_def)

lemma put_flag_Some: "put_flag b = Some bs \<longleftrightarrow> bs = ru_put_u8 (if b then 1 else 0)"
  by (auto simp: put_flag_def)

lemmas put_Some = put_seq_Some put_tag_Some put_flag_Some

lemma flag_cases: "\<not> 1 < (b :: byte) \<Longrightarrow> b = (if b = 1 then 1 else 0)"
proof -
  assume "\<not> 1 < b"
  then have "unat b \<le> 1" by (simp add: word_less_nat_alt)
  then have "unat b = 0 \<or> unat b = 1" by linarith
  then show ?thesis by (auto simp: word_unat_eq_iff)
qed

lemma get_put_constant:
  "ok_constant v \<Longrightarrow> ru_put_constant v = Some bs \<Longrightarrow> ru_get_constant (bs @ r) = Inr (v, r)"
  by (cases v) (auto simp: put_Some ru_get_constant_def ru_then_def ru_return_def
    simp del: ru_put_string.simps)

lemma put_get_constant:
  "ru_get_constant s = Inr (v, r) \<Longrightarrow>
   ok_constant v \<and> (\<exists>bs. ru_put_constant v = Some bs \<and> s = bs @ r)"
  using flag_cases
  by (fastforce simp: ru_get_constant_def ru_then_eq_Inr put_get_u8 put_get_u64 put_Some
    simp del: ru_put_string.simps split: if_splits dest!: put_get_text)

interpretation constant_codec: codec ru_put_constant ru_get_constant ok_constant 1
proof
  show "1 \<le> length bs" if "ru_put_constant v = Some bs" for v bs
    using that by (cases v) (auto simp: put_Some simp del: ru_put_string.simps)
qed (simp_all add: get_put_constant put_get_constant)

end
