(* ===== verification/RuBlocks.thy ===== *)
theory RuBlocks
  imports RuCodec
begin

text \<open>
  Stored syntax: what the writer emits for an expression, an argument, a command and a block the
  loader reads back as the same tree, and every tree the loader builds is one the writer emits
  with exactly the bytes that were read.
\<close>

fun ok_expression :: "ussr_expression \<Rightarrow> bool" where
  "ok_expression (USSR_EXPR_VALUE v) \<longleftrightarrow> ok_constant v"
| "ok_expression (USSR_EXPR_VARIABLE x) \<longleftrightarrow> ok_text x"
| "ok_expression (USSR_EXPR_BINARY _ l r) \<longleftrightarrow> ok_expression l \<and> ok_expression r"
| "ok_expression (USSR_EXPR_UNARY _ l) \<longleftrightarrow> ok_expression l"

fun ok_argument :: "ussr_argument \<Rightarrow> bool" and ok_command :: "ussr_command \<Rightarrow> bool" where
  "ok_argument (USSR_ARGUMENT_VALUE _ v) \<longleftrightarrow> ok_constant v"
| "ok_argument (USSR_ARGUMENT_EXPRESSION _ e) \<longleftrightarrow> ok_expression e"
| "ok_argument (USSR_ARGUMENT_LOOKUP _ e) \<longleftrightarrow> expression_is_variable e \<and> ok_expression e"
| "ok_argument (USSR_ARGUMENT_UNO_LITERAL _ s) \<longleftrightarrow> ok_text s"
| "ok_argument (USSR_ARGUMENT_COMMAND_LIST _ cs) \<longleftrightarrow> length cs < 2 ^ 32 \<and> list_all ok_command cs"
| "ok_argument (USSR_ARGUMENT_ADVANCED_LIST _ cs) \<longleftrightarrow> length cs < 2 ^ 32 \<and> list_all ok_command cs"
| "ok_command (Command path name ret as) \<longleftrightarrow>
     ok_string path \<and> (\<exists>n. name = Some n \<and> ok_text n) \<and> ok_string ret \<and> list_all ok_argument as"

section \<open>Operators and flags\<close>

lemma get_put_operator [simp]:
  "ru_get_operator (ru_put_u8 (word_of_nat (operator_number p)) @ r) = Inr (p, r)"
proof -
  have "operator_number p < 18" by (rule operator_number_less)
  then have "unat (word_of_nat (operator_number p) :: byte) = operator_number p"
    by (simp add: unat_of_nat)
  then show ?thesis
    using operator_number_less[of p]
    by (simp add: ru_get_operator_def ru_then_def ru_return_def operator_number_nth)
qed

lemma put_get_operator:
  "ru_get_operator s = Inr (p, r) \<Longrightarrow> s = ru_put_u8 (word_of_nat (operator_number p)) @ r"
  by (auto simp: ru_get_operator_def ru_then_eq_Inr put_get_u8 operator_number_of_nth
    split: if_splits)

lemma get_put_flag [simp]: "ru_get_flag e (ru_put_u8 (if f then 1 else 0) @ r) = Inr (f, r)"
  by (simp add: ru_get_flag_def ru_then_def ru_return_def)

lemma put_get_flag: "ru_get_flag e s = Inr (f, r) \<Longrightarrow> s = ru_put_u8 (if f then 1 else 0) @ r"
  using flag_cases
  by (fastforce simp: ru_get_flag_def ru_then_eq_Inr put_get_u8 split: if_splits)

section \<open>Expressions\<close>

lemma get_put_expression:
  "ok_expression e \<Longrightarrow> ru_put_expression d e = Some bs \<Longrightarrow>
   ru_get_expression d (bs @ r) = Inr (e, r)"
proof (induction e arbitrary: d bs r)
  case (USSR_EXPR_VALUE v)
  then show ?case
    by (auto simp: ru_put_expression.simps[of d] ru_get_expression.simps[of d] put_Some ru_then_def
      ru_return_def get_put_constant split: if_splits)
next
  case (USSR_EXPR_VARIABLE x)
  then show ?case
    by (auto simp: ru_put_expression.simps[of d] ru_get_expression.simps[of d] put_Some ru_then_def
      ru_return_def simp del: ru_put_string.simps split: if_splits)
next
  case (USSR_EXPR_BINARY p e1 e2)
  then show ?case
    by (auto simp: ru_put_expression.simps[of d] ru_get_expression.simps[of d] put_Some ru_then_def
      ru_return_def split: if_splits)
next
  case (USSR_EXPR_UNARY p e1)
  then show ?case
    by (auto simp: ru_put_expression.simps[of d] ru_get_expression.simps[of d] put_Some ru_then_def
      ru_return_def split: if_splits)
qed

lemma put_get_expression:
  "ru_get_expression d s = Inr (e, r) \<Longrightarrow>
   ok_expression e \<and> (\<exists>bs. ru_put_expression d e = Some bs \<and> s = bs @ r)"
proof (induction e arbitrary: d s r)
  case (USSR_EXPR_VALUE v)
  then show ?case
    by (fastforce simp: ru_put_expression.simps[of d] ru_get_expression.simps[of d] put_Some
      ru_then_eq_Inr put_get_u8 split: if_splits dest: put_get_constant)
next
  case (USSR_EXPR_VARIABLE x)
  then show ?case
    by (fastforce simp: ru_put_expression.simps[of d] ru_get_expression.simps[of d] put_Some
      ru_then_eq_Inr put_get_u8 simp del: ru_put_string.simps split: if_splits dest: put_get_text)
next
  case (USSR_EXPR_BINARY p e1 e2)
  from USSR_EXPR_BINARY.prems obtain s1 s2 s3 where d: "\<not> RU_MAX_SYNTAX_DEPTH < d"
    and 1: "s = ru_put_u8 2 @ s1" "ru_get_operator s1 = Inr (p, s2)"
      "ru_get_expression (d + 1) s2 = Inr (e1, s3)" "ru_get_expression (d + 1) s3 = Inr (e2, r)"
    by (auto simp: ru_get_expression.simps[of d] ru_then_eq_Inr put_get_u8 split: if_splits)
  from USSR_EXPR_BINARY.IH(1)[OF 1(3)] USSR_EXPR_BINARY.IH(2)[OF 1(4)] put_get_operator[OF 1(2)] d 1(1)
  show ?case by (auto simp: ru_put_expression.simps[of d] put_Some)
next
  case (USSR_EXPR_UNARY p e1)
  from USSR_EXPR_UNARY.prems obtain s1 s2 where d: "\<not> RU_MAX_SYNTAX_DEPTH < d"
    and 1: "s = ru_put_u8 3 @ s1" "ru_get_operator s1 = Inr (p, s2)"
      "ru_get_expression (d + 1) s2 = Inr (e1, r)"
    by (auto simp: ru_get_expression.simps[of d] ru_then_eq_Inr put_get_u8 split: if_splits)
  from USSR_EXPR_UNARY.IH[OF 1(3)] put_get_operator[OF 1(2)] d 1(1)
  show ?case by (auto simp: ru_put_expression.simps[of d] put_Some)
qed

interpretation expression_codec:
  codec "ru_put_expression d" "ru_get_expression d" ok_expression 1 for d
proof
  show "1 \<le> length bs" if "ru_put_expression d e = Some bs" for e bs
    using that by (auto simp: ru_put_expression.simps[of d e] put_Some split: if_splits
      ussr_expression.splits)
qed (simp_all add: get_put_expression put_get_expression)

section \<open>Arguments, commands and blocks\<close>

lemma size_put_command: "ru_put_command d c = Some bs \<Longrightarrow> 13 \<le> length bs"
  by (cases c) (auto simp: put_Some simp del: ru_put_string.simps
    split: if_splits dest!: ru_put_string_length)

lemma size_put_commands: "ru_put_commands d cs = Some bs \<Longrightarrow> 13 * length cs \<le> length bs"
proof (induction cs arbitrary: bs)
  case (Cons c cs)
  then obtain a b where "ru_put_command d c = Some a" "ru_put_commands d cs = Some b" "bs = a @ b"
    by (auto simp: put_seq_Some)
  with Cons.IH size_put_command[of d c a] show ?case by force
qed simp

lemma get_put_block_from:
  assumes "ru_put_block d cs = Some bs" "length cs < 2 ^ 32"
    "\<And>b r. ru_put_commands d cs = Some b \<Longrightarrow>
       ru_get_commands d (length cs) (b @ r) = Inr (cs, r)"
  shows "ru_get_block d (bs @ r) = Inr (cs, r)"
proof -
  obtain b where b: "ru_put_commands d cs = Some b" "\<not> RU_MAX_SYNTAX_DEPTH < d"
    "bs = ru_put_u32 (word_of_nat (length cs)) @ b"
    using assms(1) by (auto simp: ru_put_block.simps put_Some split: if_splits)
  have "ru_get_count 13 (bs @ r) = Inr (length cs, b @ r)"
    using size_put_commands[OF b(1)] assms(2) by (simp add: b(3))
  then show ?thesis using b(2) by (simp add: ru_get_block.simps assms(3)[OF b(1)])
qed

lemma get_put_nodes:
  "ok_argument a \<Longrightarrow> ru_put_node d a = Some bs \<Longrightarrow> ru_get_node d (bs @ r) = Inr (a, r)"
  "list_all ok_argument as \<Longrightarrow> ru_put_nodes d as = Some bs \<Longrightarrow>
     ru_get_nodes d (length as) (bs @ r) = Inr (as, r)"
  "ok_command c \<Longrightarrow> ru_put_command d c = Some bs \<Longrightarrow>
     ru_get_commands d 1 (bs @ r) = Inr ([c], r)"
  "list_all ok_command cs \<Longrightarrow> ru_put_commands d cs = Some bs \<Longrightarrow>
     ru_get_commands d (length cs) (bs @ r) = Inr (cs, r)"
  "list_all ok_command cs \<Longrightarrow> length cs < 2 ^ 32 \<Longrightarrow> ru_put_block d cs = Some bs \<Longrightarrow>
     ru_get_block d (bs @ r) = Inr (cs, r)"
proof (induction d a and d as and d c and d cs and d cs arbitrary: bs r and bs r and bs r and bs r and bs r
    rule: ru_put_node_ru_put_nodes_ru_put_command_ru_put_commands_ru_put_block.induct)
  case (8 d a as)
  then show ?case by (auto simp: put_seq_Some ru_then_def ru_return_def)
next
  case (9 d path name ret as)
  then obtain n b1 b2 b3 b4 where n: "name = Some n" "ok_text n" "ok_string path" "ok_string ret"
    and l: "length as \<le> 255" and b: "ru_put_string path = Some b1" "ru_put_string (Some n) = Some b2"
      "ru_put_string ret = Some b3" "ru_put_nodes d as = Some b4"
      "bs = b1 @ b2 @ b3 @ ru_put_u8 (word_of_nat (length as)) @ b4"
    by (auto simp: put_Some simp del: ru_put_string.simps split: if_splits)
  have "unat (word_of_nat (length as) :: byte) = length as" using l by (simp add: unat_of_nat)
  moreover have "ru_get_nodes d (length as) (b4 @ r) = Inr (as, r)"
    using 9 b(4) l by simp
  ultimately show ?case
    using n b(1-3) unfolding b(5)
    by (simp add: ru_then_def ru_return_def get_put_string del: ru_put_string.simps)
next
  case (11 d c cs)
  then obtain a b where ab: "ru_put_command d c = Some a" "ru_put_commands d cs = Some b" "bs = a @ b"
    by (auto simp: put_seq_Some)
  have 1: "ru_get_commands d 1 (a @ b @ r) = Inr ([c], b @ r)"
    and 2: "ru_get_commands d (length cs) (b @ r) = Inr (cs, r)"
    using 11 ab by auto
  from 1 2 show ?case
    by (auto simp: ab(3) ru_then_eq_Inr ru_then_def ru_return_def split: sum.splits)
next
  case (12 d cs)
  then show ?case by (intro get_put_block_from) (auto simp: ru_put_block.simps split: if_splits)
qed (auto simp: ru_get_node.simps put_Some ru_then_def ru_return_def get_put_constant
      get_put_expression simp del: ru_put_string.simps)

lemma put_get_nodes:
  "ru_get_node d s = Inr (a, r) \<Longrightarrow>
     ok_argument a \<and> (\<exists>bs. ru_put_node d a = Some bs \<and> s = bs @ r)"
  "ru_get_nodes d n s = Inr (as, r) \<Longrightarrow>
     length as = n \<and> list_all ok_argument as \<and> (\<exists>bs. ru_put_nodes d as = Some bs \<and> s = bs @ r)"
  "ru_get_commands d n s = Inr (cs, r) \<Longrightarrow>
     length cs = n \<and> list_all ok_command cs \<and> (\<exists>bs. ru_put_commands d cs = Some bs \<and> s = bs @ r)"
  "ru_get_block d s = Inr (cs, r) \<Longrightarrow>
     length cs < 2 ^ 32 \<and> list_all ok_command cs \<and> (\<exists>bs. ru_put_block d cs = Some bs \<and> s = bs @ r)"
proof (induction d s and d n s and d n s and d s arbitrary: a r and as r and cs r and cs r
    rule: ru_get_node_ru_get_nodes_ru_get_commands_ru_get_block.induct)
  case (1 d s)
  then obtain k s1 f s2 where k: "s = ru_put_u8 k @ s1" "ru_get_flag InvalidBlockFlag s1 = Inr (f, s2)"
    by (auto simp: ru_get_node.simps ru_then_eq_Inr put_get_u8)
  have node: "ru_get_node d s = (if k = 0 then ru_then ru_get_constant (\<lambda>v. ru_return (USSR_ARGUMENT_VALUE f v))
        else if k = 1 then ru_then (ru_get_expression d) (\<lambda>e.
          ru_return (USSR_ARGUMENT_EXPRESSION f e))
        else if k = 2 then ru_then (ru_get_expression d) (\<lambda>e.
          if \<not> expression_is_variable e then ru_fail LookupNotName
          else ru_return (USSR_ARGUMENT_LOOKUP f e))
        else if k = 3 then ru_then ru_get_text (\<lambda>s. ru_return (USSR_ARGUMENT_UNO_LITERAL f s))
        else if k = 4 then ru_then (ru_get_block (d + 1)) (\<lambda>cs.
          ru_return (USSR_ARGUMENT_COMMAND_LIST f cs))
        else if k = 5 then ru_then (ru_get_block (d + 1)) (\<lambda>cs.
          ru_return (USSR_ARGUMENT_ADVANCED_LIST f cs))
        else ru_fail UnknownBlockArgument) s2"
    unfolding ru_get_node.simps
    by (subst ru_then_Inr[of ru_get_u8 _ k s1], simp add: k(1),
        subst ru_then_Inr[of "ru_get_flag InvalidBlockFlag" _ f s2], rule k(2), rule refl)
  have s: "s = ru_put_u8 k @ ru_put_u8 (if f then 1 else 0) @ s2"
    using k put_get_flag by blast
  have block: "length cs < 4294967296 \<and> list_all ok_command cs \<and>
      (\<exists>bs. ru_put_block (Suc d) cs = Some bs \<and> s2 = bs @ r)"
    if "ru_get_block (Suc d) s2 = Inr (cs, r)" "k = 4 \<or> k = 5" for cs r
    using that 1(1,2) k by (auto simp: put_get_u8)
  from 1(3)[unfolded node] s show ?case
    by (auto simp: ru_then_eq_Inr put_Some simp del: ru_put_string.simps split: if_splits
      dest!: put_get_constant put_get_expression put_get_text dest: block)
next
  case (3 d n s)
  then show ?case by (fastforce simp: ru_then_eq_Inr put_seq_Some)
next
  case (5 d n s)
  then obtain path s1 name s2 ret s3 k s4 as s5 cs' where *:
    "ru_get_string True s = Inr (path, s1)" "ru_get_text s1 = Inr (name, s2)"
    "ru_get_string True s2 = Inr (ret, s3)" "ru_get_u8 s3 = Inr (k, s4)"
    "ru_get_nodes d (unat k) s4 = Inr (as, s5)" "ru_get_commands d n s5 = Inr (cs', r)"
    "cs = Command path (Some name) ret as # cs'"
    by (auto simp: ru_then_eq_Inr)
  have as: "length as = unat k \<and> list_all ok_argument as \<and>
      (\<exists>bs. ru_put_nodes d as = Some bs \<and> s4 = bs @ s5)"
    using 5(1) * by blast
  have cs: "length cs' = n \<and> list_all ok_command cs' \<and>
      (\<exists>bs. ru_put_commands d cs' = Some bs \<and> s5 = bs @ r)"
    using 5(2) * by blast
  have "unat k \<le> 255" using unsigned_less[of k, where 'a = nat] by simp
  moreover have "word_of_nat (unat k) = k" by simp
  ultimately show ?case
    using as cs *(7) put_get_string[OF *(1)] put_get_text[OF *(2)] put_get_string[OF *(3)]
      *(4)[unfolded put_get_u8]
    by (auto simp: put_Some simp del: ru_put_string.simps)
next
  case (6 d s)
  then obtain n s1 where n: "\<not> RU_MAX_SYNTAX_DEPTH < d" "ru_get_count 13 s = Inr (n, s1)"
    "ru_get_commands d n s1 = Inr (cs, r)"
    by (auto simp: ru_get_block.simps ru_then_eq_Inr split: if_splits)
  with 6(1)[OF n(1,2)] put_get_count[OF n(2)] show ?case
    by (auto simp: ru_put_block.simps put_Some)
qed auto

definition ok_block :: "ussr_command list \<Rightarrow> bool" where
  "ok_block cs \<longleftrightarrow> length cs < 2 ^ 32 \<and> list_all ok_command cs"

interpretation block_codec: codec "ru_put_block d" "ru_get_block d" ok_block 4 for d
proof
  show "ok_block cs \<Longrightarrow> ru_put_block d cs = Some bs \<Longrightarrow> ru_get_block d (bs @ r) = Inr (cs, r)"
    for cs bs r by (simp add: ok_block_def get_put_nodes(5))
  show "ru_get_block d s = Inr (cs, r) \<Longrightarrow> ok_block cs \<and> (\<exists>bs. ru_put_block d cs = Some bs \<and> s = bs @ r)"
    for cs r s using put_get_nodes(4)[of d s cs r] by (simp add: ok_block_def)
  show "ru_put_block d cs = Some bs \<Longrightarrow> 4 \<le> length bs" for cs bs
    by (auto simp: ru_put_block.simps put_Some split: if_splits)
qed

end
