(* ===== verification/RuFile.thy ===== *)
theory RuFile
  imports RuBlocks
begin

text \<open>
  Sites, sections and whole files: the round trip of \<open>ussr_ru_write_file\<close> and
  \<open>ussr_ru_read_file\<close> in both directions, and what a loaded program guarantees to the virtual
  machine.
\<close>

section \<open>Call sites\<close>

text \<open>What a file keeps of a site's command: the other arguments are only placeholders.\<close>

fun reduced_argument :: "ussr_argument \<Rightarrow> ussr_argument" where
  "reduced_argument (USSR_ARGUMENT_COMMAND_LIST f cs) = USSR_ARGUMENT_COMMAND_LIST f cs"
| "reduced_argument (USSR_ARGUMENT_ADVANCED_LIST f cs) = USSR_ARGUMENT_ADVANCED_LIST f cs"
| "reduced_argument (USSR_ARGUMENT_EXPRESSION f (USSR_EXPR_VARIABLE x)) =
     USSR_ARGUMENT_EXPRESSION f (USSR_EXPR_VARIABLE x)"
| "reduced_argument (USSR_ARGUMENT_EXPRESSION f _) = USSR_ARGUMENT_VALUE f USSR_NULL"
| "reduced_argument (USSR_ARGUMENT_VALUE f _) = USSR_ARGUMENT_VALUE f USSR_NULL"
| "reduced_argument (USSR_ARGUMENT_LOOKUP f _) = USSR_ARGUMENT_VALUE f USSR_NULL"
| "reduced_argument (USSR_ARGUMENT_UNO_LITERAL f _) = USSR_ARGUMENT_VALUE f USSR_NULL"

fun ok_site_argument :: "ussr_argument \<Rightarrow> bool" where
  "ok_site_argument (USSR_ARGUMENT_COMMAND_LIST f cs) \<longleftrightarrow> ok_block cs"
| "ok_site_argument (USSR_ARGUMENT_ADVANCED_LIST f cs) \<longleftrightarrow> ok_block cs"
| "ok_site_argument (USSR_ARGUMENT_EXPRESSION f (USSR_EXPR_VARIABLE x)) \<longleftrightarrow> ok_text x"
| "ok_site_argument (USSR_ARGUMENT_VALUE f v) \<longleftrightarrow> v = USSR_NULL"
| "ok_site_argument _ \<longleftrightarrow> False"

definition reduced_site :: "ussr_bc_site \<Rightarrow> ussr_bc_site" where
  "reduced_site s = s\<lparr>site_command := Command None (cmd_name (site_command s))
     (cmd_return_name (site_command s)) (map reduced_argument (cmd_arguments (site_command s)))\<rparr>"

definition ok_site :: "ussr_bc_site \<Rightarrow> bool" where
  "ok_site s \<longleftrightarrow> cmd_path (site_command s) = None \<and> ok_string (cmd_name (site_command s)) \<and>
     ok_string (cmd_return_name (site_command s)) \<and>
     list_all ok_site_argument (cmd_arguments (site_command s))"

lemma put_reduced_argument [simp]:
  "ru_put_site_argument (reduced_argument a) = ru_put_site_argument a"
  by (cases a rule: reduced_argument.cases) simp_all

lemma put_all_reduced [simp]:
  "put_all ru_put_site_argument (map reduced_argument as) = put_all ru_put_site_argument as"
  by (induction as) simp_all

lemma put_reduced_site [simp]: "ru_put_site (reduced_site s) = ru_put_site s"
  by (simp add: reduced_site_def split: ussr_command.split)

interpretation site_argument_codec:
  codec ru_put_site_argument ru_get_site_argument ok_site_argument 2
proof
  show "ru_get_site_argument (bs @ r) = Inr (a, r)"
    if "ok_site_argument a" "ru_put_site_argument a = Some bs" for a bs r
    using that
    by (cases a rule: reduced_argument.cases)
       (auto simp: ru_get_site_argument_def put_Some ru_then_def ru_return_def
         block_codec.get_put simp del: ru_put_string.simps)
  show "ok_site_argument a \<and> (\<exists>bs. ru_put_site_argument a = Some bs \<and> s = bs @ r)"
    if "ru_get_site_argument s = Inr (a, r)" for a r s
    using that
    by (auto simp: ru_get_site_argument_def ru_then_eq_Inr put_get_u8 put_Some
      simp del: ru_put_string.simps split: if_splits
      dest!: put_get_flag block_codec.put_get put_get_text)
  show "2 \<le> length bs" if "ru_put_site_argument a = Some bs" for a bs
    using that by (cases a rule: reduced_argument.cases)
      (auto simp: put_Some simp del: ru_put_string.simps)
qed

interpretation site_codec: codec ru_put_site ru_get_site ok_site 13
proof
  fix s :: ussr_bc_site and bs r
  obtain n path name ret as where s: "s = \<lparr>site_instruction = n,
      site_command = Command path name ret as\<rparr>"
    by (metis ussr_bc_site.cases ussr_command.exhaust)
  show "13 \<le> length bs" if "ru_put_site s = Some bs"
    using that by (auto simp: s put_Some simp del: ru_put_string.simps split: if_splits
      dest!: ru_put_string_length)
  show "ru_get_site (bs @ r) = Inr (s, r)" if "ok_site s" "ru_put_site s = Some bs"
  proof -
    from that obtain b1 b2 b3 where l: "length as \<le> 255" and b: "ru_put_string name = Some b1"
        "ru_put_string ret = Some b2" "put_all ru_put_site_argument as = Some b3"
        "bs = ru_put_u32 n @ b1 @ b2 @ ru_put_u8 (word_of_nat (length as)) @ b3"
      by (auto simp: s put_Some simp del: ru_put_string.simps split: if_splits)
    have u: "unat (word_of_nat (length as) :: byte) = length as" using l by (simp add: unat_of_nat)
    have ok: "path = None" "ok_string name" "ok_string ret" "list_all ok_site_argument as"
      using that by (simp_all add: s ok_site_def)
    show ?thesis
      using site_argument_codec.repeat_put[OF ok(4) b(3)] u
      by (simp add: s ok(1) b(4) ru_get_site_def ru_then_def ru_return_def
        get_put_string[OF ok(2) b(1)] get_put_string[OF ok(3) b(2)] del: ru_put_string.simps)
  qed
next
  fix s :: ussr_bc_site and t r
  assume "ru_get_site t = Inr (s, r)"
  then obtain n t1 name t2 ret t3 k t4 as where *:
    "ru_get_u32 t = Inr (n, t1)" "ru_get_string True t1 = Inr (name, t2)"
    "ru_get_string True t2 = Inr (ret, t3)" "ru_get_u8 t3 = Inr (k, t4)"
    "ru_repeat (unat k) ru_get_site_argument t4 = Inr (as, r)"
    "s = \<lparr>site_instruction = n, site_command = Command None name ret as\<rparr>"
    by (auto simp: ru_get_site_def ru_then_eq_Inr)
  have "unat k \<le> 255" using unsigned_less[of k, where 'a = nat] by simp
  then show "ok_site s \<and> (\<exists>bs. ru_put_site s = Some bs \<and> t = bs @ r)"
    using *(1)[unfolded put_get_u32] put_get_string[OF *(2)] put_get_string[OF *(3)]
      *(4)[unfolded put_get_u8] site_argument_codec.put_repeat[OF *(5)]
    by (auto simp: *(6) ok_site_def put_Some simp del: ru_put_string.simps)
qed

interpretation fitting_site_codec: codec ru_put_site "ru_get_fitting_site code opcode"
  "\<lambda>s. ok_site s \<and> site_fits code opcode s" 13 for code opcode
proof
  show "ru_get_fitting_site code opcode (bs @ r) = Inr (s, r)"
    if "ok_site s \<and> site_fits code opcode s" "ru_put_site s = Some bs" for s bs r
    using that site_codec.get_put[of s bs r]
    by (simp add: ru_get_fitting_site_def ru_then_def ru_return_def del: ru_put_site.simps)
  show "(ok_site s \<and> site_fits code opcode s) \<and> (\<exists>bs. ru_put_site s = Some bs \<and> t = bs @ r)"
    if "ru_get_fitting_site code opcode t = Inr (s, r)" for s t r
    using that by (auto simp: ru_get_fitting_site_def ru_then_eq_Inr
      simp del: ru_put_site.simps split: if_splits dest!: site_codec.put_get)
qed (rule site_codec.min_size)

section \<open>Instructions and functions\<close>

definition ok_instruction :: "ussr_bc_instruction \<Rightarrow> bool" where
  "ok_instruction i \<longleftrightarrow> ru_known_opcode (ins_opcode i)"

interpretation instruction_codec: codec ru_put_instruction ru_get_instruction ok_instruction 8
proof
  show "ru_get_instruction (bs @ r) = Inr (i, r)"
    if "ok_instruction i" "ru_put_instruction i = Some bs" for i bs r
    using that by (auto simp: ru_put_instruction_def ru_get_instruction_def ok_instruction_def
      ru_then_def ru_return_def)
  show "ok_instruction i \<and> (\<exists>bs. ru_put_instruction i = Some bs \<and> s = bs @ r)"
    if "ru_get_instruction s = Inr (i, r)" for i s r
    using that by (auto simp: ru_put_instruction_def ru_get_instruction_def ok_instruction_def
      ru_then_eq_Inr put_get_u8 put_get_u32 split: if_splits)
qed (auto simp: ru_put_instruction_def)

definition ok_function :: "nat \<Rightarrow> ussr_bc_function \<Rightarrow> bool" where
  "ok_function code_count f \<longleftrightarrow> ok_text (fn_name f) \<and> ok_string (fn_return_name f) \<and>
     unat (fn_entry f) < code_count \<and>
     length (fn_parameters f) \<le> USSR_BC_MAX_REGS \<and> list_all ok_text (fn_parameters f) \<and>
     length (fn_parameters f) < length (fn_locals f) \<and> length (fn_locals f) < 2 ^ 32 \<and>
     list_all ok_text (fn_locals f)"

interpretation function_codec:
  codec ru_put_function "ru_get_function code_count" "ok_function code_count" 16 for code_count
proof
  fix f :: ussr_bc_function and bs r
  show "16 \<le> length bs" if "ru_put_function f = Some bs"
    using that by (auto simp: ru_put_function_def put_counted_def put_Some
      simp del: ru_put_string.simps dest!: ru_put_string_length)
  assume ok: "ok_function code_count f" and "ru_put_function f = Some bs"
  then obtain b1 b2 b3 b4 where b: "ru_put_string (Some (fn_name f)) = Some b1"
      "ru_put_string (fn_return_name f) = Some b2"
      "put_all (\<lambda>s. ru_put_string (Some s)) (fn_parameters f) = Some b3"
      "put_all (\<lambda>s. ru_put_string (Some s)) (fn_locals f) = Some b4"
    and bs: "bs = b1 @ b2 @ ru_put_u32 (fn_entry f) @ ru_put_u32 (word_of_nat (length (fn_parameters f)))
      @ b3 @ ru_put_u32 (word_of_nat (length (fn_locals f))) @ b4"
    by (auto simp: ru_put_function_def put_counted_def put_Some simp del: ru_put_string.simps)
  from ok have o: "ok_text (fn_name f)" "ok_string (fn_return_name f)"
    "list_all ok_text (fn_parameters f)" "list_all ok_text (fn_locals f)"
    by (simp_all add: ok_function_def)
  have "ru_get_count 4 (ru_put_u32 (word_of_nat (length (fn_parameters f))) @ b3 @ r')
      = Inr (length (fn_parameters f), b3 @ r')" for r'
    using text_codec.size_put_all[OF b(3)] ok
    by (intro get_put_count) (auto simp: ok_function_def USSR_BC_MAX_REGS_def)
  moreover have "ru_get_count 4 (ru_put_u32 (word_of_nat (length (fn_locals f))) @ b4 @ r)
      = Inr (length (fn_locals f), b4 @ r)"
    using text_codec.size_put_all[OF b(4)] ok
    by (intro get_put_count) (auto simp: ok_function_def)
  ultimately show "ru_get_function code_count (bs @ r) = Inr (f, r)"
    using ok by (simp add: bs ru_get_function_def ru_then_def ru_return_def ok_function_def
      get_put_text'[OF o(1) b(1)] get_put_string[OF o(2) b(2)]
      text_codec.repeat_put[OF o(3) b(3)] text_codec.repeat_put[OF o(4) b(4)]
      del: ru_put_string.simps)
next
  fix f :: ussr_bc_function and s r
  assume "ru_get_function code_count s = Inr (f, r)"
  then obtain name s1 ret s2 entry s3 n s4 ps s5 m s6 ls where *:
    "ru_get_text s = Inr (name, s1)" "ru_get_string True s1 = Inr (ret, s2)"
    "ru_get_u32 s2 = Inr (entry, s3)" "ru_get_count 4 s3 = Inr (n, s4)"
    "ru_repeat n ru_get_text s4 = Inr (ps, s5)" "ru_get_count 4 s5 = Inr (m, s6)"
    "ru_repeat m ru_get_text s6 = Inr (ls, r)"
    and chk: "unat entry < code_count" "n \<le> USSR_BC_MAX_REGS" "n < m"
    and f: "f = \<lparr>fn_name = name, fn_return_name = ret, fn_parameters = ps, fn_entry = entry,
      fn_locals = ls\<rparr>"
    by (auto simp: ru_get_function_def ru_then_eq_Inr split: if_splits)
  show "ok_function code_count f \<and> (\<exists>bs. ru_put_function f = Some bs \<and> s = bs @ r)"
    using put_get_text[OF *(1)] put_get_string[OF *(2)] *(3)[unfolded put_get_u32]
      put_get_count[OF *(4)] text_codec.put_repeat[OF *(5)]
      put_get_count[OF *(6)] text_codec.put_repeat[OF *(7)] chk
    by (auto simp: f ok_function_def ru_put_function_def put_counted_def put_Some
      simp del: ru_put_string.simps)
qed

section \<open>Programs\<close>

text \<open>
  What the loader promises about a program it accepts: every check it makes. The documented format asks for more in one
  point, that every string index be in range: \<open>operand_error\<close>, like the loader, looks at the strings of an
  instruction only where the code does, which leaves out \<open>GET\<close>, \<open>SET\<close>, \<open>TEMPLATE\<close> and \<open>EVAL\<close>.
\<close>

definition ru_valid :: "ussr_bc_program \<Rightarrow> bool" where
  "ru_valid p \<longleftrightarrow>
     bc_code p \<noteq> [] \<and> length (bc_code p) \<le> USSR_BC_MAX_CODE \<and>
     list_all ok_instruction (bc_code p) \<and>
     ins_opcode (last (bc_code p)) = opcode_byte USSR_BC_HALT \<and>
     list_all ok_constant (bc_constants p) \<and> length (bc_constants p) < 2 ^ 32 \<and>
     list_all ok_string (bc_strings p) \<and> length (bc_strings p) < 2 ^ 32 \<and>
     list_all (ok_function (length (bc_code p))) (bc_functions p) \<and>
     length (bc_functions p) < 2 ^ 32 \<and>
     list_all (\<lambda>i. operand_error (length (bc_code p)) (length (bc_constants p)) (bc_strings p)
       (length (bc_functions p)) i = None) (bc_code p) \<and>
     list_all (\<lambda>s. ok_site s \<and> site_fits (bc_code p) USSR_BC_OOP s) (bc_oop_sites p) \<and>
     length (bc_oop_sites p) < 2 ^ 32 \<and>
     list_all (\<lambda>s. ok_site s \<and> site_fits (bc_code p) USSR_BC_SCAN s) (bc_scan_sites p) \<and>
     length (bc_scan_sites p) < 2 ^ 32"

definition reduced_program :: "ussr_bc_program \<Rightarrow> ussr_bc_program" where
  "reduced_program p = p\<lparr>bc_oop_sites := map reduced_site (bc_oop_sites p),
     bc_scan_sites := map reduced_site (bc_scan_sites p)\<rparr>"

lemma put_all_reduced_sites [simp]:
  "put_all ru_put_site (map reduced_site ss) = put_all ru_put_site ss"
  by (induction ss) (simp_all del: ru_put_site.simps)

lemma payload_reduced [simp]: "ru_payload (reduced_program p) = ru_payload p"
  by (simp add: ru_payload_def reduced_program_def put_counted_def)

lemma check_operands:
  "ru_check_operands check is r = (if list_all (\<lambda>i. check i = None) is then Inr ((), r)
     else Inl (the (check (hd (filter (\<lambda>i. check i \<noteq> None) is)))))"
  by (induction "is") (auto split: option.split)

lemma get_put_code:
  assumes "list_all ok_instruction c" "c \<noteq> []" "length c \<le> USSR_BC_MAX_CODE"
    "ins_opcode (last c) = opcode_byte USSR_BC_HALT" "put_counted ru_put_instruction c = Some bs"
  shows "ru_get_code (bs @ r) = Inr (c, r)"
proof -
  from assms(5) obtain b where b: "put_all ru_put_instruction c = Some b"
    "bs = ru_put_u32 (word_of_nat (length c)) @ b"
    by (auto simp: put_counted_def put_seq_Some)
  have "ru_get_count 8 (bs @ r) = Inr (length c, b @ r)"
    using instruction_codec.size_put_all[OF b(1)] assms(3)
    by (simp add: b(2) USSR_BC_MAX_CODE_def)
  with assms(2-4) instruction_codec.repeat_put[OF assms(1) b(1)] show ?thesis
    by (simp add: ru_get_code_def ru_then_def ru_return_def)
qed

lemma put_get_code:
  assumes "ru_get_code s = Inr (c, r)"
  shows "list_all ok_instruction c \<and> c \<noteq> [] \<and> length c \<le> USSR_BC_MAX_CODE \<and>
    ins_opcode (last c) = opcode_byte USSR_BC_HALT \<and>
    (\<exists>bs. put_counted ru_put_instruction c = Some bs \<and> s = bs @ r)"
proof -
  from assms obtain n s1 where n: "ru_get_count 8 s = Inr (n, s1)" "n \<noteq> 0" "n \<le> USSR_BC_MAX_CODE"
    "ru_repeat n ru_get_instruction s1 = Inr (c, r)"
    "ins_opcode (last c) = opcode_byte USSR_BC_HALT"
    by (auto simp: ru_get_code_def ru_then_eq_Inr split: if_splits)
  with put_get_count[OF n(1)] instruction_codec.put_repeat[OF n(4)] show ?thesis
    by (auto simp: put_counted_def put_seq_Some)
qed

lemma get_put_program:
  assumes "ru_valid p" "ru_payload p = Some bs"
  shows "ru_get_program (bs @ r) = Inr (p, r)"
proof -
  from assms(2) obtain b1 b2 b3 b4 b5 b6 where b:
    "put_counted ru_put_instruction (bc_code p) = Some b1"
    "put_counted ru_put_constant (bc_constants p) = Some b2"
    "put_counted ru_put_string (bc_strings p) = Some b3"
    "put_counted ru_put_function (bc_functions p) = Some b4"
    "put_counted ru_put_site (bc_oop_sites p) = Some b5"
    "put_counted ru_put_site (bc_scan_sites p) = Some b6"
    and bs: "bs = b1 @ b2 @ b3 @ b4 @ b5 @ b6"
    by (auto simp: ru_payload_def put_seq_Some)
  note v = assms(1)[unfolded ru_valid_def]
  from v have 1: "ru_get_code (b1 @ s) = Inr (bc_code p, s)" for s
    by (intro get_put_code b) auto
  from v have 2: "ru_then (ru_get_count 1) (\<lambda>n. ru_repeat n ru_get_constant) (b2 @ s)
      = Inr (bc_constants p, s)" for s by (intro constant_codec.counted_put b) auto
  from v have 3: "ru_then (ru_get_count 4) (\<lambda>n. ru_repeat n (ru_get_string True)) (b3 @ s)
      = Inr (bc_strings p, s)" for s by (intro string_codec.counted_put b) auto
  from v have 4: "ru_then (ru_get_count 16)
      (\<lambda>n. ru_repeat n (ru_get_function (length (bc_code p)))) (b4 @ s)
      = Inr (bc_functions p, s)" for s by (intro function_codec.counted_put b) auto
  from v have 5: "ru_read_sites (bc_code p) USSR_BC_OOP (b5 @ s) = Inr (bc_oop_sites p, s)" for s
    unfolding ru_read_sites_def by (intro fitting_site_codec.counted_put b) auto
  from v have 6: "ru_read_sites (bc_code p) USSR_BC_SCAN (b6 @ s) = Inr (bc_scan_sites p, s)" for s
    unfolding ru_read_sites_def by (intro fitting_site_codec.counted_put b) auto
  from v have 7: "ru_check_operands (operand_error (length (bc_code p)) (length (bc_constants p))
      (bc_strings p) (length (bc_functions p))) (bc_code p) s = Inr ((), s)" for s
    by (simp add: check_operands)
  show ?thesis
    unfolding ru_get_program_def bs append_assoc
    by (subst ru_then_Inr, rule 1, subst ru_then_Inr, rule 2, subst ru_then_Inr, rule 3,
      subst ru_then_Inr, rule 4, subst ru_then_Inr, rule 7, subst ru_then_Inr, rule 5,
      subst ru_then_Inr, rule 6) (simp add: ru_return_def)
qed

lemma put_get_program:
  assumes "ru_get_program s = Inr (p, r)"
  shows "ru_valid p \<and> (\<exists>bs. ru_payload p = Some bs \<and> s = bs @ r)"
proof -
  from assms obtain c s1 k s2 t s3 f s4 o1 s5 o2 where *: "ru_get_code s = Inr (c, s1)"
    "ru_then (ru_get_count 1) (\<lambda>n. ru_repeat n ru_get_constant) s1 = Inr (k, s2)"
    "ru_then (ru_get_count 4) (\<lambda>n. ru_repeat n (ru_get_string True)) s2 = Inr (t, s3)"
    "ru_then (ru_get_count 16) (\<lambda>n. ru_repeat n (ru_get_function (length c))) s3 = Inr (f, s4)"
    "list_all (\<lambda>i. operand_error (length c) (length k) t (length f) i = None) c"
    "ru_read_sites c USSR_BC_OOP s4 = Inr (o1, s5)"
    "ru_read_sites c USSR_BC_SCAN s5 = Inr (o2, r)"
    and p: "p = \<lparr>bc_code = c, bc_constants = k, bc_strings = t, bc_functions = f,
      bc_oop_sites = o1, bc_scan_sites = o2\<rparr>"
    unfolding ru_get_program_def ru_then_eq_Inr[of ru_get_code]
      ru_then_eq_Inr[of "ru_then _ _"] ru_then_eq_Inr[of "ru_check_operands _ _"]
      ru_then_eq_Inr[of "ru_read_sites _ _"] check_operands
    by (auto split: if_splits)
  note g = put_get_code[OF *(1)] constant_codec.put_counted[OF *(2)]
    string_codec.put_counted[OF *(3)] function_codec.put_counted[OF *(4)]
    fitting_site_codec.put_counted[OF *(6)[unfolded ru_read_sites_def]]
    fitting_site_codec.put_counted[OF *(7)[unfolded ru_read_sites_def]]
  have "ru_valid p" using g *(5) by (simp add: ru_valid_def p)
  moreover have "\<exists>bs. ru_payload p = Some bs \<and> s = bs @ r"
    using g by (auto simp: ru_payload_def p put_seq_Some)
  ultimately show ?thesis ..
qed

section \<open>Files\<close>

lemma field_at:
  "length a = k \<Longrightarrow> 8 * n = LENGTH('a) \<Longrightarrow>
   field (a @ le_bytes n (v :: 'a::len word) @ c) k n = v"
  by (simp add: field_def of_le_le_bytes)

lemma le_bytes_field:
  "k + n \<le> length data \<Longrightarrow> 8 * n = LENGTH('a) \<Longrightarrow>
   le_bytes n (field data k n :: 'a::len word) = take n (drop k data)"
  by (simp add: field_def le_bytes_of_le)

lemma length_ru_header [simp]: "length (ru_header producer payload) = 24"
  by (simp add: ru_header_def USSR_RU_MAGIC_def)

lemma length_magic: "length USSR_RU_MAGIC = 8"
  by (simp add: USSR_RU_MAGIC_def)

lemma header_fields:
  assumes data_def: "data = ru_header producer payload @ rest"
  shows "take 8 data = USSR_RU_MAGIC" "(field data 8 2 :: 16 word) = USSR_RU_FORMAT_VERSION"
    "data ! 10 = 0" "data ! 11 = 0" "(field data 12 4 :: 32 word) = USSR_RU_VM_ABI"
    "(field data 16 4 :: 32 word) = producer"
    "(field data 20 4 :: 32 word) = word_of_nat (length payload)"
proof -
  let ?m = USSR_RU_MAGIC and ?v = "le_bytes 2 USSR_RU_FORMAT_VERSION"
    and ?f = "le_bytes 2 (0 :: 16 word)" and ?a = "le_bytes 4 USSR_RU_VM_ABI"
    and ?p = "le_bytes 4 producer" and ?l = "le_bytes 4 (word_of_nat (length payload) :: 32 word)"
  have d: "data = ?m @ ?v @ ?f @ ?a @ ?p @ ?l @ rest"
    by (simp add: data_def ru_header_def ru_put_u16_def ru_put_u32_def)
  show "take 8 data = ?m" by (simp add: d length_magic)
  show "(field data 8 2 :: 16 word) = USSR_RU_FORMAT_VERSION"
    unfolding d by (rule field_at) (simp_all add: length_magic)
  have f: "?f = [0, 0]" by (simp add: le_bytes_def numeral_eq_Suc)
  have d10: "data = (?m @ ?v) @ 0 # 0 # ?a @ ?p @ ?l @ rest" unfolding d f by simp
  show "data ! 10 = 0" "data ! 11 = 0" unfolding d10
    by (simp_all add: length_magic nth_append)
  show "(field data 12 4 :: 32 word) = USSR_RU_VM_ABI"
    using field_at[of "?m @ ?v @ ?f" 12 4 USSR_RU_VM_ABI] by (simp add: d length_magic)
  show "(field data 16 4 :: 32 word) = producer"
    using field_at[of "?m @ ?v @ ?f @ ?a" 16 4 producer] by (simp add: d length_magic)
  show "(field data 20 4 :: 32 word) = word_of_nat (length payload)"
    using field_at[of "?m @ ?v @ ?f @ ?a @ ?p" 20 4 "word_of_nat (length payload) :: 32 word"]
    by (simp add: d length_magic)
qed

lemma header_of_fields:
  assumes "24 \<le> length data" "take 8 data = USSR_RU_MAGIC"
    "(field data 8 2 :: 16 word) = USSR_RU_FORMAT_VERSION" "data ! 10 = 0" "data ! 11 = 0"
    "(field data 12 4 :: 32 word) = USSR_RU_VM_ABI"
    "(field data 20 4 :: 32 word) = word_of_nat (length payload)"
  shows "take 24 data = ru_header (field data 16 4) payload"
proof -
  have t: "take 24 data = take 8 data @ take 2 (drop 8 data) @ take 2 (drop 10 data) @
    take 4 (drop 12 data) @ take 4 (drop 16 data) @ take 4 (drop 20 data)"
  proof -
    have "take 24 data = take (8 + (2 + (2 + (4 + (4 + 4))))) data" by simp
    also have "\<dots> = take 8 data @ take 2 (drop 8 data) @ take 2 (drop 10 data) @
      take 4 (drop 12 data) @ take 4 (drop 16 data) @ take 4 (drop 20 data)"
      unfolding take_add drop_drop by simp
    finally show ?thesis .
  qed
  have z: "take 2 (drop 10 data) = [0, 0]"
    using assms(1,4,5) by (intro nth_equalityI) (auto simp: less_Suc_eq numeral_2_eq_2)
  have "ru_put_u16 0 = [0, 0]" by (simp add: ru_put_u16_def le_bytes_def numeral_eq_Suc)
  then show ?thesis
    using assms(1) unfolding t ru_header_def assms(2) z
    by (simp add: ru_put_u16_def ru_put_u32_def le_bytes_field
        flip: assms(3) assms(6) assms(7))
qed

lemma payload_small: "length bs < 2 ^ 32 \<Longrightarrow> unat (word_of_nat (length bs) :: 32 word) = length bs"
  by (simp add: unat_of_nat)

lemma parse_write:
  assumes "ru_valid p" "ru_payload p = Some payload" "length payload < 2 ^ 32"
  shows "ru_parse (ru_header producer payload @ payload @
    ru_put_u32 (ru_crc32 (ru_header producer payload @ payload))) = Inr p"
proof -
  let ?h = "ru_header producer payload" and ?c = "ru_put_u32 (ru_crc32 (ru_header producer payload @ payload))"
  let ?d = "?h @ payload @ ?c"
  note h = header_fields[OF refl[of ?d]]
  have l: "length ?d = 28 + length payload" by simp
  have t: "take (length ?d - 4) ?d = ?h @ payload" by simp
  have c: "(field ?d (length ?d - 4) 4 :: 32 word) = ru_crc32 (?h @ payload)"
    using field_at[of "?h @ payload" "24 + length payload" 4 "ru_crc32 (?h @ payload)" "[]"]
    by (simp add: ru_put_u32_def)
  have g: "ru_get_program (drop RU_HEADER_SIZE (?h @ payload)) = Inr (p, [])"
    using get_put_program[OF assms(1,2), of "[]"] by (simp add: RU_HEADER_SIZE_def)
  show ?thesis
    unfolding ru_parse_def c t h g using payload_small[OF assms(3)] l
    by (simp add: RU_HEADER_SIZE_def)
qed

lemma write_parse:
  assumes "ru_parse data = Inr p"
  shows "ru_valid p \<and> ussr_ru_write_file (field data 16 4) p = Some data"
proof -
  let ?t = "take (length data - 4) data" and ?p = "drop 24 (take (length data - 4) data)"
  from assms have l: "28 \<le> length data" and m: "take 8 data = USSR_RU_MAGIC"
    and f: "(field data 8 2 :: 16 word) = USSR_RU_FORMAT_VERSION" "data ! 10 = 0" "data ! 11 = 0"
      "(field data 12 4 :: 32 word) = USSR_RU_VM_ABI"
    and len: "unat (field data 20 4 :: 32 word) = length data - 28"
    and c: "(field data (length data - 4) 4 :: 32 word) = ru_crc32 ?t"
    and g: "ru_get_program ?p = Inr (p, [])"
    by (auto simp: ru_parse_def RU_HEADER_SIZE_def split: if_splits sum.splits)
  have "length ?p = length data - 28" using l by simp
  then have len': "(field data 20 4 :: 32 word) = word_of_nat (length ?p)"
    using arg_cong[OF len, of "word_of_nat :: nat \<Rightarrow> 32 word"] by simp
  have "take 24 data = ru_header (field data 16 4) ?p"
    using l by (intro header_of_fields m f len') simp
  moreover have "?t = take 24 data @ ?p"
  proof -
    have "24 \<le> length data - 4" using l by linarith
    then have "take 24 ?t = take 24 data" by (simp add: min_def)
    then show ?thesis by (metis append_take_drop_id)
  qed
  ultimately have t': "?t = ru_header (field data 16 4) ?p @ ?p" by simp
  have "drop (length data - 4) data = ru_put_u32 (ru_crc32 ?t)"
    using l unfolding c[symmetric] by (simp add: ru_put_u32_def le_bytes_field)
  then have d: "data = ?t @ ru_put_u32 (ru_crc32 ?t)" by (metis append_take_drop_id)
  from put_get_program[OF g] have v: "ru_valid p" "ru_payload p = Some ?p" by auto
  have "ussr_ru_write_file (field data 16 4) p = Some (?t @ ru_put_u32 (ru_crc32 ?t))"
    by (simp only: ussr_ru_write_file_def v(2) option.map Let_def t'[symmetric])
  then show ?thesis using d v(1) by simp
qed

text \<open>
  C5: what the writer writes the loader reads. If a program, with its call sites reduced to what
  a file keeps of them, meets the loader's rules and the writer produces a file of at most
  \<open>RU_MAX_FILE_SIZE\<close> bytes, then reading that file gives exactly the reduced program, with code,
  constants, strings, functions, locals and nested blocks unchanged.
\<close>

theorem ru_round_trip:
  assumes "ru_valid (reduced_program p)" and "ussr_ru_write_file producer p = Some bytes"
    and "length bytes \<le> RU_MAX_FILE_SIZE"
  shows "ussr_ru_read_file bytes = Inr (reduced_program p)"
proof -
  from assms(2) obtain payload where pl: "ru_payload p = Some payload"
    and b: "bytes = ru_header producer payload @ payload @
      ru_put_u32 (ru_crc32 (ru_header producer payload @ payload))"
    by (auto simp: ussr_ru_write_file_def Let_def)
  have "length payload < 2 ^ 32" using assms(3) by (simp add: b RU_MAX_FILE_SIZE_def)
  with pl have "ru_parse bytes = Inr (reduced_program p)"
    unfolding b by (intro parse_write assms(1)) simp_all
  with assms(3) show ?thesis by (simp add: ussr_ru_read_file_def)
qed

text \<open>
  C6: the loader accepts nothing else. Whatever bytes it accepts, it returns a program that obeys
  every rule the loader checks (\<open>ru_valid\<close>; the string indices of four instructions, which the documented
  format restricts too, it does not), and writing that program again, with the producer version the file
  names, gives the same bytes: a valid file has one encoding, and no accepted file holds hidden
  data.
\<close>

theorem ru_accepts_only_written_files:
  assumes "ussr_ru_read_file bytes = Inr p"
  shows "ru_valid p \<and> ussr_ru_write_file (field bytes 16 4) p = Some bytes"
  using assms by (intro write_parse) (simp add: ussr_ru_read_file_def split: if_splits)

end
