(* ===== verification/RuCrc.thy ===== *)
theory RuCrc
  imports RuFile
begin

text \<open>
  The checksum of a \<open>.ru\<close> file. One step of the bitwise CRC is linear and invertible, so a file
  that differs from a valid one of the same length in at most four consecutive bytes, the checksum
  field included, never passes.
\<close>

lemma crc_bit_xor: "crc_bit (a XOR b) = crc_bit a XOR crc_bit b"
proof -
  have m: "0 - (x AND 1) = (if bit x 0 then - 1 else (0 :: 32 word))" for x
    by (auto simp: and_one_eq odd_iff_mod_2_eq_one bit_0 even_iff_mod_2_eq_zero)
  show ?thesis
    unfolding crc_bit_def m by (rule bit_eqI) (auto simp: bit_xor_iff bit_and_iff bit_drop_bit_eq)
qed

lemma bit_crc_bit:
  "bit (crc_bit x) n \<longleftrightarrow> bit x (Suc n) \<noteq> (bit x 0 \<and> bit (0xedb88320 :: 32 word) n)"
proof -
  have m: "0 - (x AND 1) = (if bit x 0 then - 1 else (0 :: 32 word))"
    by (auto simp: and_one_eq odd_iff_mod_2_eq_one bit_0 even_iff_mod_2_eq_zero)
  show ?thesis
    unfolding crc_bit_def m
    by (auto simp: bit_xor_iff bit_and_iff bit_drop_bit_eq dest: bit_imp_le_length)
qed

lemma crc_bit_inj: "crc_bit a = crc_bit b \<Longrightarrow> a = b"
proof -
  assume e: "crc_bit a = crc_bit b"
  have p: "bit (0xedb88320 :: 32 word) 31" by (simp add: bit_numeral_word_iff)
  have top: "\<not> bit x (Suc 31)" for x :: "32 word" by (simp add: bit_word.rep_eq)
  have 0: "bit a 0 = bit b 0"
    using arg_cong[OF e, of "\<lambda>w. bit w 31"] p top[of a] top[of b] by (simp add: bit_crc_bit)
  show "a = b"
  proof (rule bit_eqI)
    fix n show "bit a n = bit b n"
    proof (cases n)
      case (Suc m)
      then show ?thesis using arg_cong[OF e, of "\<lambda>w. bit w m"] 0 by (auto simp: bit_crc_bit)
    qed (simp add: 0)
  qed
qed

lemma crc_bits_xor: "(crc_bit ^^ n) (a XOR b) = (crc_bit ^^ n) a XOR (crc_bit ^^ n) b"
  by (induction n) (simp_all add: crc_bit_xor)

lemma crc_bits_inj: "(crc_bit ^^ n) a = (crc_bit ^^ n) b \<Longrightarrow> a = b"
  by (induction n) (auto dest: crc_bit_inj)

lemma crc_bit_push: "\<not> bit y 31 \<Longrightarrow> crc_bit (push_bit 1 y) = y"
proof (rule bit_eqI)
  fix n assume "\<not> bit y 31"
  then show "bit (crc_bit (push_bit 1 y)) n = bit y n"
    unfolding bit_crc_bit bit_push_bit_iff
    by (cases "n = 31") (auto dest: bit_imp_le_length)
qed

lemma crc_bits_push:
  "k + n \<le> 32 \<Longrightarrow> \<forall>i\<ge>k. \<not> bit y i \<Longrightarrow> (crc_bit ^^ n) (push_bit n y) = (y :: 32 word)"
proof (induction n)
  case (Suc n)
  have "\<not> bit (push_bit n y) 31" using Suc.prems by (auto simp: bit_push_bit_iff)
  then have "crc_bit (push_bit (Suc n) y) = push_bit n y"
    using crc_bit_push[of "push_bit n y"] by (simp add: push_bit_push_bit)
  then show ?case using Suc by (simp add: funpow_Suc_right del: funpow.simps)
qed simp

lemma of_le_xor: "of_le (b # bs) = (ucast b XOR push_bit 8 (of_le bs) :: 32 word)"
  by (rule bit_eqI) (auto simp: bit_or_iff bit_xor_iff bit_push_bit_iff bit_ucast_iff bit_word.rep_eq[of b])

lemma crc_bytes:
  "length bs \<le> 4 \<Longrightarrow> foldl crc_byte s bs = (crc_bit ^^ (8 * length bs)) (s XOR of_le bs)"
proof (induction bs arbitrary: s)
  case (Cons b bs)
  let ?w = "of_le bs :: 32 word"
  have "\<forall>i\<ge>8 * length bs. \<not> bit ?w i" by (auto simp: bit_of_le div_le_mono less_eq_div_iff_mult_less_eq)
  then have w: "(crc_bit ^^ 8) (push_bit 8 ?w) = ?w"
    using Cons.prems by (intro crc_bits_push) auto
  have "foldl crc_byte s (b # bs) = (crc_bit ^^ (8 * length bs)) ((crc_bit ^^ 8) (s XOR ucast b) XOR ?w)"
    using Cons by (simp add: crc_byte_def[of s b])
  also have "\<dots> = (crc_bit ^^ (8 * length bs)) ((crc_bit ^^ 8) ((s XOR ucast b) XOR push_bit 8 ?w))"
    by (simp only: crc_bits_xor w)
  also have "\<dots> = (crc_bit ^^ (8 * length bs + 8)) (s XOR of_le (b # bs))"
    by (simp only: funpow_add o_def of_le_xor xor.assoc)
  finally show ?case by (simp add: add.commute)
qed simp

lemma of_le_inj:
  assumes "length bs = length cs" "length bs \<le> 4" "of_le bs = (of_le cs :: 32 word)"
  shows "bs = cs"
proof -
  let ?z = "replicate (4 - length bs) (0 :: byte)"
  have pad: "of_le (xs @ replicate n 0) = (of_le xs :: 32 word)" for xs n
    by (rule bit_eqI) (auto simp: bit_of_le nth_append not_less)
  have "of_le (bs @ ?z) = (of_le (cs @ ?z) :: 32 word)" using assms(3) by (simp only: pad)
  then have "le_bytes 4 (of_le (bs @ ?z) :: 32 word) = le_bytes 4 (of_le (cs @ ?z) :: 32 word)"
    by simp
  then show ?thesis using assms(1,2) by (simp add: le_bytes_of_le)
qed

lemma crc_byte_inj: "crc_byte s b = crc_byte t b \<Longrightarrow> s = t"
  by (auto simp: crc_byte_def dest!: crc_bits_inj)

lemma crc_tail_inj: "foldl crc_byte s bs = foldl crc_byte t bs \<Longrightarrow> s = t"
  by (induction bs arbitrary: s t) (auto dest: crc_byte_inj)

lemma crc_burst:
  assumes "length bs = length cs" "length bs \<le> 4"
    "foldl crc_byte s (pre @ bs @ post) = foldl crc_byte s (pre @ cs @ post)"
  shows "bs = cs"
proof -
  have "foldl crc_byte (foldl crc_byte s pre) bs = foldl crc_byte (foldl crc_byte s pre) cs"
    using assms(3) by (auto intro: crc_tail_inj)
  then have "of_le bs = (of_le cs :: 32 word)"
    using assms(1,2) by (auto simp: crc_bytes dest!: crc_bits_inj)
  with assms(1,2) show ?thesis by (rule of_le_inj)
qed

text \<open>A valid file as a whole, checksum included, leaves a constant in the register.\<close>

lemma crc_residue:
  assumes "ru_parse data = Inr p"
  shows "foldl crc_byte 0xffffffff data = (crc_bit ^^ 32) 0xffffffff"
proof -
  let ?n = "length data - 4"
  from assms have l: "28 \<le> length data"
    and c: "(field data ?n 4 :: 32 word) = ru_crc32 (take ?n data)"
    by (auto simp: ru_parse_def RU_HEADER_SIZE_def split: if_splits)
  let ?s = "foldl crc_byte 0xffffffff (take ?n data)"
  have e: "of_le (drop ?n data) = (?s XOR 0xffffffff :: 32 word)"
    using c l by (simp add: field_def ru_crc32_def)
  have "foldl crc_byte 0xffffffff data = foldl crc_byte ?s (drop ?n data)"
    by (metis foldl_append append_take_drop_id)
  also have "\<dots> = (crc_bit ^^ 32) (?s XOR of_le (drop ?n data))"
    using l by (subst crc_bytes) auto
  also have "\<dots> = (crc_bit ^^ 32) 0xffffffff"
    unfolding e by (simp flip: xor.assoc)
  finally show ?thesis .
qed

text \<open>
  C7: the loader detects every short corruption. If a file is accepted, the same file with any
  run of at most four consecutive bytes replaced by different ones, in the header, the payload or
  the checksum, or across them, is rejected.
\<close>

theorem ru_detects_corruption:
  assumes "ussr_ru_read_file (pre @ bs @ post) = Inr p"
    and "length cs = length bs" and "length bs \<le> 4" and "cs \<noteq> bs"
  shows "\<exists>e. ussr_ru_read_file (pre @ cs @ post) = Inl e"
proof (rule ccontr)
  assume "\<nexists>e. ussr_ru_read_file (pre @ cs @ post) = Inl e"
  then obtain q where "ussr_ru_read_file (pre @ cs @ post) = Inr q"
    by (metis sum.exhaust)
  then have "ru_parse (pre @ cs @ post) = Inr q" "ru_parse (pre @ bs @ post) = Inr p"
    using assms(1) by (auto simp: ussr_ru_read_file_def split: if_splits)
  then have "foldl crc_byte 0xffffffff (pre @ cs @ post) = foldl crc_byte 0xffffffff (pre @ bs @ post)"
    by (simp only: crc_residue)
  from crc_burst[OF assms(2) _ this] assms(2-4) show False by simp
qed

end
