(* ===== verification/RuExample.thy ===== *)
theory RuExample
  imports RuCrc
begin

text \<open>A small program with every kind of record, on which the claims about files are applied.\<close>

definition sample :: ussr_bc_program where
  "sample = \<lparr>
     bc_code =
       [\<lparr>ins_opcode = opcode_byte USSR_BC_LOAD_CONST, ins_a = 1, ins_b = 0, ins_c = 0, ins_immediate = 1\<rparr>,
        \<lparr>ins_opcode = opcode_byte USSR_BC_OOP, ins_a = 2, ins_b = 1, ins_c = 1, ins_immediate = 0\<rparr>,
        \<lparr>ins_opcode = opcode_byte USSR_BC_HALT, ins_a = 0, ins_b = 0, ins_c = 0, ins_immediate = 0\<rparr>],
     bc_constants = [USSR_STRING ''hi'', USSR_INTEGER (-1), USSR_BOOLEAN True],
     bc_strings = [Some ''each'', None],
     bc_functions = [\<lparr>fn_name = ''f'', fn_return_name = None, fn_parameters = [''x''], fn_entry = 2,
       fn_locals = [''x'', ''r'']\<rparr>],
     bc_oop_sites = [\<lparr>site_instruction = 1, site_command =
       Command None (Some ''each'') None
         [USSR_ARGUMENT_VALUE False (USSR_INTEGER 3),
          USSR_ARGUMENT_COMMAND_LIST True
           [Command None (Some ''print'') None
             [USSR_ARGUMENT_EXPRESSION False
               (USSR_EXPR_BINARY USSR_OP_ADD (USSR_EXPR_VARIABLE ''x'')
                 (USSR_EXPR_VALUE (USSR_INTEGER 1)))]]]\<rparr>],
     bc_scan_sites = []\<rparr>"

lemmas sample_opcodes =
  opcode_of_opcode_byte[of USSR_BC_LOAD_CONST, unfolded opcode_byte.simps]
  opcode_of_opcode_byte[of USSR_BC_OOP, unfolded opcode_byte.simps]
  opcode_of_opcode_byte[of USSR_BC_HALT, unfolded opcode_byte.simps]

lemma sample_valid: "ru_valid (reduced_program sample)"
  by (simp add: ru_valid_def reduced_program_def sample_def reduced_site_def USSR_BC_MAX_CODE_def
    ok_instruction_def ru_known_opcode_def ok_text_def ok_string_def cstring_def ok_function_def
    USSR_BC_MAX_REGS_def operand_error_def Let_def ok_site_def site_fits_def ok_block_def
    RU_NULL_STRING_def sample_opcodes)

lemma sample_payload: "\<exists>payload. ru_payload sample = Some payload \<and> length payload < 1000"
  by (simp add: ru_payload_def sample_def put_counted_def ru_put_function_def put_tag_def
    put_flag_def ru_put_instruction_def ru_put_block.simps ru_put_expression.simps
    RU_MAX_SYNTAX_DEPTH_def RU_NULL_STRING_def)

lemma sample_written:
  obtains bytes where "ussr_ru_write_file 0 sample = Some bytes" "length bytes \<le> RU_MAX_FILE_SIZE"
  using sample_payload by (auto simp: ussr_ru_write_file_def Let_def RU_MAX_FILE_SIZE_def)

lemma sample_read:
  "ussr_ru_write_file 0 sample = Some bytes \<Longrightarrow> length bytes \<le> RU_MAX_FILE_SIZE \<Longrightarrow>
   ussr_ru_read_file bytes = Inr (reduced_program sample)"
proof -
  assume b: "ussr_ru_write_file 0 sample = Some bytes" and "length bytes \<le> RU_MAX_FILE_SIZE"
  obtain payload where p: "ru_payload sample = Some payload" "length payload < 1000"
    using sample_payload by blast
  then have "ru_parse bytes = Inr (reduced_program sample)"
    using b parse_write[OF sample_valid, of payload 0] by (auto simp: ussr_ru_write_file_def Let_def)
  then show ?thesis using \<open>length bytes \<le> RU_MAX_FILE_SIZE\<close> by (simp add: ussr_ru_read_file_def)
qed

theorem ru_round_trip_witness:
  "\<exists>bytes. ussr_ru_write_file 0 sample = Some bytes \<and>
     ussr_ru_read_file bytes = Inr (reduced_program sample)"
proof (rule sample_written)
  fix bytes assume b: "ussr_ru_write_file 0 sample = Some bytes" "length bytes \<le> RU_MAX_FILE_SIZE"
  from b(1) ru_round_trip[OF sample_valid b] show ?thesis by blast
qed

theorem ru_accepts_only_written_files_witness:
  "\<exists>bytes. ussr_ru_read_file bytes = Inr (reduced_program sample) \<and>
     ussr_ru_write_file (field bytes 16 4) (reduced_program sample) = Some bytes"
proof (rule sample_written)
  fix bytes assume b: "ussr_ru_write_file 0 sample = Some bytes" "length bytes \<le> RU_MAX_FILE_SIZE"
  from sample_read[OF b] ru_accepts_only_written_files[OF sample_read[OF b]]
  show ?thesis by blast
qed

theorem ru_detects_corruption_witness:
  "\<exists>bytes. ussr_ru_read_file bytes = Inr (reduced_program sample) \<and>
     (\<exists>e. ussr_ru_read_file ([hd bytes + 1] @ tl bytes) = Inl e)"
proof (rule sample_written)
  fix bytes assume b: "ussr_ru_write_file 0 sample = Some bytes" "length bytes \<le> RU_MAX_FILE_SIZE"
  from b(1) have "bytes \<noteq> []" by (auto simp: ussr_ru_write_file_def Let_def ru_header_def USSR_RU_MAGIC_def)
  then have s: "bytes = [] @ [hd bytes] @ tl bytes" by simp
  have r: "ussr_ru_read_file ([] @ [hd bytes] @ tl bytes) = Inr (reduced_program sample)"
    using sample_read[OF b] s by simp
  have "\<exists>e. ussr_ru_read_file ([] @ [hd bytes + 1] @ tl bytes) = Inl e"
    by (rule ru_detects_corruption[OF r]) simp_all
  with sample_read[OF b] show ?thesis by auto
qed

end
