(* ===== verification/BTree.thy ===== *)
theory BTree
  imports Main
begin

text \<open>
  The B+ tree of \<open>src/btree.c\<close>. A leaf is its address and its key-value pairs (the arrays \<open>keys\<close>
  and \<open>vals\<close>, always moved together); an internal node its separators and children. The \<open>next\<close>
  and \<open>prev\<close> pointers, which run across the tree, are a heap of their own: maps from leaf
  addresses, updated exactly where the code writes them. The comparison is an argument; the
  program's is \<open>ussr_btree_key_compare\<close>. Reference counts, the collector's registry and running
  out of memory are not modelled.
\<close>

definition BT_MAX :: nat where "BT_MAX = 32"
definition BT_MIN :: nat where "BT_MIN = BT_MAX div 2"

datatype ('k, 'v) bt_node =
    Leaf nat "('k \<times> 'v) list"
  | Node "'k list" "('k, 'v) bt_node list"

record bt_links =
  bt_next :: "nat \<Rightarrow> nat option"
  bt_prev :: "nat \<Rightarrow> nat option"
  bt_fresh :: nat

record ('k, 'v) ussr_btree =
  bt_root :: "('k, 'v) bt_node option"
  bt_count :: nat
  bt_heap :: bt_links

definition ussr_btree_create :: "('k, 'v) ussr_btree" where
  "ussr_btree_create = \<lparr>bt_root = None, bt_count = 0,
     bt_heap = \<lparr>bt_next = Map.empty, bt_prev = Map.empty, bt_fresh = 0\<rparr>\<rparr>"

fun bt_n :: "('k, 'v) bt_node \<Rightarrow> nat" where
  "bt_n (Leaf a es) = length es"
| "bt_n (Node ks cs) = length ks"

section \<open>The interface of a key order\<close>

text \<open>
  On the keys of \<open>valid\<close>, \<open>compare\<close> answers -1, 0 or 1 as the rank of the first key is below, equal
  to or above the rank of the second.
\<close>

locale key_order =
  fixes valid :: "'k \<Rightarrow> bool" and compare :: "'k \<Rightarrow> 'k \<Rightarrow> int" and rank :: "'k \<Rightarrow> 'r::linorder"
  assumes compare_rank: "valid a \<Longrightarrow> valid b \<Longrightarrow>
    compare a b = (if rank a < rank b then -1 else if rank a = rank b then 0 else 1)"
begin

lemma compare_le: "valid a \<Longrightarrow> valid b \<Longrightarrow> compare a b \<le> 0 \<longleftrightarrow> rank a \<le> rank b"
  by (auto simp: compare_rank)

lemma compare_less: "valid a \<Longrightarrow> valid b \<Longrightarrow> compare a b < 0 \<longleftrightarrow> rank a < rank b"
  by (auto simp: compare_rank)

lemma compare_eq: "valid a \<Longrightarrow> valid b \<Longrightarrow> compare a b = 0 \<longleftrightarrow> rank a = rank b"
  by (auto simp: compare_rank)

lemma compare_ge: "valid a \<Longrightarrow> valid b \<Longrightarrow> compare a b \<ge> 0 \<longleftrightarrow> rank b \<le> rank a"
  by (auto simp: compare_rank)

end

section \<open>Searching a node\<close>

text \<open>The binary search of \<open>bt_upper\<close> and \<open>bt_lower\<close>: \<open>right mid\<close> sends it to the right half.\<close>

function bt_bisect :: "(nat \<Rightarrow> bool) \<Rightarrow> nat \<Rightarrow> nat \<Rightarrow> nat" where
  "bt_bisect right lo hi =
     (if lo < hi then
        let mid = (lo + hi) div 2
        in if right mid then bt_bisect right (mid + 1) hi else bt_bisect right lo mid
      else lo)"
  by pat_completeness auto
termination
  by (relation "measure (\<lambda>(right, lo, hi). hi - lo)") auto

declare bt_bisect.simps [simp del]

definition bt_upper :: "('k \<Rightarrow> 'k \<Rightarrow> int) \<Rightarrow> 'k list \<Rightarrow> 'k \<Rightarrow> nat" where
  "bt_upper cmp keys key = bt_bisect (\<lambda>mid. cmp (keys ! mid) key \<le> 0) 0 (length keys)"

definition bt_lower :: "('k \<Rightarrow> 'k \<Rightarrow> int) \<Rightarrow> 'k list \<Rightarrow> 'k \<Rightarrow> nat" where
  "bt_lower cmp keys key = bt_bisect (\<lambda>mid. cmp (keys ! mid) key < 0) 0 (length keys)"

primrec bt_leaf_for :: "('k \<Rightarrow> 'k \<Rightarrow> int) \<Rightarrow> 'k \<Rightarrow> ('k, 'v) bt_node \<Rightarrow> nat \<times> ('k \<times> 'v) list" where
  "bt_leaf_for cmp key (Leaf a es) = (a, es)"
| "bt_leaf_for cmp key (Node ks cs) = map (bt_leaf_for cmp key) cs ! bt_upper cmp ks key"

definition ussr_btree_get ::
  "('k \<Rightarrow> 'k \<Rightarrow> int) \<Rightarrow> ('k, 'v) ussr_btree \<Rightarrow> 'k \<Rightarrow> 'v option" where
  "ussr_btree_get cmp tree key =
     (case bt_root tree of None \<Rightarrow> None
      | Some root \<Rightarrow>
          let (a, es) = bt_leaf_for cmp key root; i = bt_lower cmp (map fst es) key
          in if i < length es \<and> cmp (fst (es ! i)) key = 0 then Some (snd (es ! i)) else None)"

section \<open>Insertion\<close>

text \<open>A new leaf after leaf \<open>a\<close>.\<close>

definition link_after :: "nat \<Rightarrow> bt_links \<Rightarrow> bt_links" where
  "link_after a h =
     (let r = bt_fresh h
      in \<lparr>bt_next = (bt_next h)(r := bt_next h a, a := Some r),
          bt_prev = (case bt_next h a of
              Some m \<Rightarrow> (bt_prev h)(r := Some a, m := Some r)
            | None \<Rightarrow> (bt_prev h)(r := Some a)),
          bt_fresh = r + 1\<rparr>)"

text \<open>
  Besides the changed node and the leaf links: the split-off right half with its separator, and
  whether a key was added.
\<close>

primrec bt_insert ::
  "('k \<Rightarrow> 'k \<Rightarrow> int) \<Rightarrow> 'k \<Rightarrow> 'v \<Rightarrow> bt_links \<Rightarrow> ('k, 'v) bt_node \<Rightarrow>
   ('k, 'v) bt_node \<times> ('k \<times> ('k, 'v) bt_node) option \<times> bool \<times> bt_links" where
  "bt_insert cmp key value h (Leaf a es) =
     (let i = bt_lower cmp (map fst es) key
      in if i < length es \<and> cmp (fst (es ! i)) key = 0
         then (Leaf a (es[i := (fst (es ! i), value)]), None, False, h)
         else let es' = take i es @ (key, value) # drop i es
              in if length es' \<le> BT_MAX then (Leaf a es', None, True, h)
                 else let half = length es' div 2
                      in (Leaf a (take half es'),
                          Some (fst (es' ! half), Leaf (bt_fresh h) (drop half es')),
                          True, link_after a h))"
| "bt_insert cmp key value h (Node ks cs) =
     (let i = bt_upper cmp ks key;
          (c, split, added, h') = (map (bt_insert cmp key value h) cs) ! i
      in case split of
           None \<Rightarrow> (Node ks (cs[i := c]), None, added, h')
         | Some (sep, r) \<Rightarrow>
             let ks' = take i ks @ sep # drop i ks;
                 cs' = take i cs @ c # r # drop (i + 1) cs
             in if length ks' \<le> BT_MAX then (Node ks' cs', None, added, h')
                else let half = length ks' div 2
                     in (Node (take half ks') (take (half + 1) cs'),
                         Some (ks' ! half, Node (drop (half + 1) ks') (drop (half + 1) cs')),
                         added, h'))"

definition bt_put ::
  "('k \<Rightarrow> 'k \<Rightarrow> int) \<Rightarrow> 'k \<Rightarrow> 'v \<Rightarrow> ('k, 'v) ussr_btree \<Rightarrow> ('k, 'v) ussr_btree" where
  "bt_put cmp key value tree =
     (let (root, h) =
            (case bt_root tree of
               Some root \<Rightarrow> (root, bt_heap tree)
             | None \<Rightarrow>
                 let h = bt_heap tree; a = bt_fresh h
                 in (Leaf a [], h\<lparr>bt_next := (bt_next h)(a := None),
                       bt_prev := (bt_prev h)(a := None), bt_fresh := a + 1\<rparr>));
          (t, split, added, h') = bt_insert cmp key value h root
      in \<lparr>bt_root = Some (case split of None \<Rightarrow> t | Some (sep, r) \<Rightarrow> Node [sep] [t, r]),
          bt_count = (if added then bt_count tree + 1 else bt_count tree),
          bt_heap = h'\<rparr>)"

section \<open>Deletion\<close>

text \<open>Leaf \<open>b\<close>, the one after \<open>a\<close>, goes.\<close>

definition unlink_after :: "nat \<Rightarrow> nat \<Rightarrow> bt_links \<Rightarrow> bt_links" where
  "unlink_after a b h =
     h\<lparr>bt_next := (bt_next h)(a := bt_next h b),
       bt_prev := (case bt_next h b of
           Some m \<Rightarrow> (bt_prev h)(m := Some a) | None \<Rightarrow> bt_prev h)\<rparr>"

text \<open>The three repairs of \<open>bt_fix\<close> on a child \<open>c\<close> and its neighbour, with the separator between.\<close>

fun borrow_left ::
  "('k, 'v) bt_node \<Rightarrow> 'k \<Rightarrow> ('k, 'v) bt_node \<Rightarrow> ('k, 'v) bt_node \<times> 'k \<times> ('k, 'v) bt_node" where
  "borrow_left (Leaf a ls) sep (Leaf b cs) =
     (Leaf a (butlast ls), fst (last ls), Leaf b (last ls # cs))"
| "borrow_left (Node lk lc) sep (Node ck cc) =
     (Node (butlast lk) (butlast lc), last lk, Node (sep # ck) (last lc # cc))"
| "borrow_left l sep c = (l, sep, c)"

fun borrow_right ::
  "('k, 'v) bt_node \<Rightarrow> 'k \<Rightarrow> ('k, 'v) bt_node \<Rightarrow> ('k, 'v) bt_node \<times> 'k \<times> ('k, 'v) bt_node" where
  "borrow_right (Leaf a cs) sep (Leaf b rs) =
     (Leaf a (cs @ [hd rs]), fst (hd (tl rs)), Leaf b (tl rs))"
| "borrow_right (Node ck cc) sep (Node rk rc) =
     (Node (ck @ [sep]) (cc @ [hd rc]), hd rk, Node (tl rk) (tl rc))"
| "borrow_right c sep r = (c, sep, r)"

fun merge_nodes ::
  "('k, 'v) bt_node \<Rightarrow> 'k \<Rightarrow> ('k, 'v) bt_node \<Rightarrow> bt_links \<Rightarrow> ('k, 'v) bt_node \<times> bt_links" where
  "merge_nodes (Leaf a as) sep (Leaf b bs) h = (Leaf a (as @ bs), unlink_after a b h)"
| "merge_nodes (Node ak ac) sep (Node bk bc) h = (Node (ak @ sep # bk) (ac @ bc), h)"
| "merge_nodes x sep y h = (x, h)"

definition bt_fix ::
  "nat \<Rightarrow> 'k list \<Rightarrow> ('k, 'v) bt_node list \<Rightarrow> bt_links \<Rightarrow>
   'k list \<times> ('k, 'v) bt_node list \<times> bt_links" where
  "bt_fix i ks cs h =
     (if i > 0 \<and> bt_n (cs ! (i - 1)) > BT_MIN then
        let (l, sep, c) = borrow_left (cs ! (i - 1)) (ks ! (i - 1)) (cs ! i)
        in (ks[i - 1 := sep], cs[i - 1 := l, i := c], h)
      else if i < length ks \<and> bt_n (cs ! (i + 1)) > BT_MIN then
        let (c, sep, r) = borrow_right (cs ! i) (ks ! i) (cs ! (i + 1))
        in (ks[i := sep], cs[i := c, i + 1 := r], h)
      else
        let j = (if i > 0 then i - 1 else i);
            (a, h') = merge_nodes (cs ! j) (ks ! j) (cs ! (j + 1)) h
        in (take j ks @ drop (j + 1) ks, take j cs @ a # drop (j + 2) cs, h'))"

primrec bt_delete ::
  "('k \<Rightarrow> 'k \<Rightarrow> int) \<Rightarrow> 'k \<Rightarrow> bt_links \<Rightarrow> ('k, 'v) bt_node \<Rightarrow>
   bool \<times> ('k, 'v) bt_node \<times> bt_links" where
  "bt_delete cmp key h (Leaf a es) =
     (let i = bt_lower cmp (map fst es) key
      in if i \<ge> length es \<or> cmp (fst (es ! i)) key \<noteq> 0 then (False, Leaf a es, h)
         else (True, Leaf a (take i es @ drop (i + 1) es), h))"
| "bt_delete cmp key h (Node ks cs) =
     (let i = bt_upper cmp ks key;
          (found, c, h') = (map (bt_delete cmp key h) cs) ! i
      in if \<not> found then (False, Node ks cs, h)
         else if bt_n c < BT_MIN then
           let (ks', cs', h'') = bt_fix i ks (cs[i := c]) h' in (True, Node ks' cs', h'')
         else (True, Node ks (cs[i := c]), h'))"

definition bt_remove ::
  "('k \<Rightarrow> 'k \<Rightarrow> int) \<Rightarrow> 'k \<Rightarrow> ('k, 'v) ussr_btree \<Rightarrow> bool \<times> ('k, 'v) ussr_btree" where
  "bt_remove cmp key tree =
     (case bt_root tree of None \<Rightarrow> (False, tree)
      | Some root \<Rightarrow>
          let (found, t, h) = bt_delete cmp key (bt_heap tree) root
          in if \<not> found then (False, tree)
             else (True, \<lparr>bt_root =
                 (case t of
                    Node ks cs \<Rightarrow> Some (if ks = [] then hd cs else t)
                  | Leaf a es \<Rightarrow> if es = [] then None else Some t),
               bt_count = bt_count tree - 1, bt_heap = h\<rparr>))"

end
