(* ===== verification/BTreeMap.thy ===== *)
theory BTreeMap
  imports BTree
begin

text \<open>
  The B+ tree is an ordered map: the search-tree and balance invariants, their preservation by
  insertion and deletion, and the refinement of the operations to a sorted association list.
  Everything is proved in the interface \<open>key_order\<close>, for the keys on which the comparison is an
  order.
\<close>

section \<open>Bounds\<close>

text \<open>\<open>None\<close> is no bound. A child's keys are at least its left and below its right separator.\<close>

definition above :: "'r::linorder option \<Rightarrow> 'r \<Rightarrow> bool" where
  "above lo x \<longleftrightarrow> (case lo of None \<Rightarrow> True | Some b \<Rightarrow> b \<le> x)"

definition below :: "'r::linorder option \<Rightarrow> 'r \<Rightarrow> bool" where
  "below hi x \<longleftrightarrow> (case hi of None \<Rightarrow> True | Some b \<Rightarrow> x < b)"

definition bound_le :: "'r::linorder option \<Rightarrow> 'r option \<Rightarrow> bool" where
  "bound_le lo hi \<longleftrightarrow> (case lo of None \<Rightarrow> True | Some a \<Rightarrow> (case hi of None \<Rightarrow> True | Some b \<Rightarrow> a \<le> b))"

lemma bound_simps [simp]:
  "above None x" "above (Some b) x \<longleftrightarrow> b \<le> x" "below None x" "below (Some b) x \<longleftrightarrow> x < b"
  "bound_le None hi" "bound_le lo None" "bound_le (Some a) (Some b) \<longleftrightarrow> a \<le> b"
  by (auto simp: above_def below_def bound_le_def split: option.split)

lemma bound_le_Some: "bound_le lo (Some b) \<longleftrightarrow> above lo b"
  by (cases lo) auto

lemma above_bound_le: "above lo x \<Longrightarrow> below hi x \<Longrightarrow> bound_le lo hi"
  by (cases lo; cases hi) auto

lemma above_trans: "bound_le lo lo' \<Longrightarrow> lo' \<noteq> None \<Longrightarrow> above lo' x \<Longrightarrow> above lo x"
  by (cases lo; cases lo') auto

lemma below_trans: "bound_le hi' hi \<Longrightarrow> hi' \<noteq> None \<Longrightarrow> below hi' x \<Longrightarrow> below hi x"
  by (cases hi; cases hi') auto

lemma bound_le_trans: "bound_le a b \<Longrightarrow> bound_le b c \<Longrightarrow> b \<noteq> None \<Longrightarrow> bound_le a c"
  by (cases a; cases b; cases c) auto

section \<open>The invariants\<close>

fun kids_ok ::
  "('r::linorder option \<Rightarrow> 'r option \<Rightarrow> 'c \<Rightarrow> bool) \<Rightarrow> ('k \<Rightarrow> 'r) \<Rightarrow> 'r option \<Rightarrow> 'k list \<Rightarrow> 'c list \<Rightarrow>
   'r option \<Rightarrow> bool" where
  "kids_ok P rank lo [] [c] hi \<longleftrightarrow> bound_le lo hi \<and> P lo hi c"
| "kids_ok P rank lo (k # ks) (c # cs) hi \<longleftrightarrow>
     bound_le lo (Some (rank k)) \<and> P lo (Some (rank k)) c \<and> kids_ok P rank (Some (rank k)) ks cs hi"
| "kids_ok P rank lo _ _ hi \<longleftrightarrow> False"

definition leaf_ok ::
  "('k \<Rightarrow> bool) \<Rightarrow> ('k \<Rightarrow> 'r::linorder) \<Rightarrow> 'r option \<Rightarrow> 'r option \<Rightarrow> ('k \<times> 'v) list \<Rightarrow> bool" where
  "leaf_ok valid rank lo hi es \<longleftrightarrow> sorted_wrt (<) (map (rank \<circ> fst) es) \<and>
     (\<forall>e\<in>set es. valid (fst e) \<and> above lo (rank (fst e)) \<and> below hi (rank (fst e)))"

text \<open>Search order, all leaves at the same depth.\<close>

primrec bt_sorted ::
  "('k \<Rightarrow> bool) \<Rightarrow> ('k \<Rightarrow> 'r::linorder) \<Rightarrow> nat \<Rightarrow> 'r option \<Rightarrow> 'r option \<Rightarrow> ('k, 'v) bt_node \<Rightarrow> bool" where
  "bt_sorted valid rank 0 lo hi t \<longleftrightarrow> (case t of Leaf a es \<Rightarrow> leaf_ok valid rank lo hi es | Node ks cs \<Rightarrow> False)"
| "bt_sorted valid rank (Suc h) lo hi t \<longleftrightarrow>
     (case t of Leaf a es \<Rightarrow> False
      | Node ks cs \<Rightarrow> (\<forall>k\<in>set ks. valid k) \<and> kids_ok (bt_sorted valid rank h) rank lo ks cs hi)"

text \<open>Every node below the top is at least half full.\<close>

primrec bt_sized :: "('k, 'v) bt_node \<Rightarrow> bool" where
  "bt_sized (Leaf a es) \<longleftrightarrow> True"
| "bt_sized (Node ks cs) \<longleftrightarrow>
     (\<forall>c\<in>set cs. BT_MIN \<le> bt_n c \<and> bt_n c \<le> BT_MAX) \<and> list_all (\<lambda>b. b) (map bt_sized cs)"

primrec bt_entries :: "('k, 'v) bt_node \<Rightarrow> ('k \<times> 'v) list" where
  "bt_entries (Leaf a es) = es"
| "bt_entries (Node ks cs) = concat (map bt_entries cs)"

section \<open>Association lists\<close>

fun upd_list :: "('k \<Rightarrow> 'r::linorder) \<Rightarrow> 'k \<Rightarrow> 'v \<Rightarrow> ('k \<times> 'v) list \<Rightarrow> ('k \<times> 'v) list" where
  "upd_list rank key v [] = [(key, v)]"
| "upd_list rank key v (e # es) =
     (if rank key < rank (fst e) then (key, v) # e # es
      else if rank key = rank (fst e) then (fst e, v) # es
      else e # upd_list rank key v es)"

definition del_list :: "('k \<Rightarrow> 'r::linorder) \<Rightarrow> 'k \<Rightarrow> ('k \<times> 'v) list \<Rightarrow> ('k \<times> 'v) list" where
  "del_list rank key es = filter (\<lambda>e. rank (fst e) \<noteq> rank key) es"

definition has_key :: "('k \<Rightarrow> 'r::linorder) \<Rightarrow> 'k \<Rightarrow> ('k \<times> 'v) list \<Rightarrow> bool" where
  "has_key rank key es \<longleftrightarrow> rank key \<in> (rank \<circ> fst) ` set es"

definition lookup_list :: "('k \<Rightarrow> 'r::linorder) \<Rightarrow> 'k \<Rightarrow> ('k \<times> 'v) list \<Rightarrow> 'v option" where
  "lookup_list rank key es = map_option snd (find (\<lambda>e. rank (fst e) = rank key) es)"

lemma upd_list_focus:
  "(\<forall>e\<in>set pre. rank (fst e) < rank key) \<Longrightarrow> (\<forall>e\<in>set post. rank key < rank (fst e)) \<Longrightarrow>
   upd_list rank key v (pre @ mid @ post) = pre @ upd_list rank key v mid @ post"
proof (induction pre)
  case Nil
  then have "upd_list rank key v post = (key, v) # post" by (cases post) auto
  then show ?case by (induction mid) auto
qed auto

lemma del_list_focus:
  "(\<forall>e\<in>set pre. rank (fst e) < rank key) \<Longrightarrow> (\<forall>e\<in>set post. rank key < rank (fst e)) \<Longrightarrow>
   del_list rank key (pre @ mid @ post) = pre @ del_list rank key mid @ post"
proof -
  assume "\<forall>e\<in>set pre. rank (fst e) < rank key" "\<forall>e\<in>set post. rank key < rank (fst e)"
  then have "filter (\<lambda>e. rank (fst e) \<noteq> rank key) pre = pre"
    "filter (\<lambda>e. rank (fst e) \<noteq> rank key) post = post"
    by (force simp: filter_id_conv)+
  then show ?thesis by (simp add: del_list_def)
qed

lemma has_key_focus:
  "(\<forall>e\<in>set pre. rank (fst e) < rank key) \<Longrightarrow> (\<forall>e\<in>set post. rank key < rank (fst e)) \<Longrightarrow>
   has_key rank key (pre @ mid @ post) \<longleftrightarrow> has_key rank key mid"
  by (auto simp: has_key_def)

lemma lookup_list_focus:
  "(\<forall>e\<in>set pre. rank (fst e) < rank key) \<Longrightarrow> (\<forall>e\<in>set post. rank key < rank (fst e)) \<Longrightarrow>
   lookup_list rank key (pre @ mid @ post) = lookup_list rank key mid"
proof (induction pre)
  case Nil
  then have "find (\<lambda>e. rank (fst e) = rank key) post = None" by (auto simp: find_None_iff)
  then show ?case by (induction mid) (auto simp: lookup_list_def)
qed (auto simp: lookup_list_def)

lemma length_upd_list:
  "sorted_wrt (<) (map (rank \<circ> fst) es) \<Longrightarrow>
   length (upd_list rank key v es) = (if has_key rank key es then length es else Suc (length es))"
  by (induction es) (force simp: has_key_def)+

section \<open>Children between bounds\<close>

text \<open>The bounds of child \<open>i\<close>.\<close>

definition lo_at :: "('k \<Rightarrow> 'r) \<Rightarrow> 'r option \<Rightarrow> 'k list \<Rightarrow> nat \<Rightarrow> 'r option" where
  "lo_at rank lo ks i = (lo # map (Some \<circ> rank) ks) ! i"

definition hi_at :: "('k \<Rightarrow> 'r) \<Rightarrow> 'k list \<Rightarrow> 'r option \<Rightarrow> nat \<Rightarrow> 'r option" where
  "hi_at rank ks hi i = (map (Some \<circ> rank) ks @ [hi]) ! i"

lemma at_simps [simp]:
  "lo_at rank lo ks 0 = lo" "lo_at rank lo (k # ks) (Suc i) = lo_at rank (Some (rank k)) ks i"
  "hi_at rank (k # ks) hi 0 = Some (rank k)" "hi_at rank (k # ks) hi (Suc i) = hi_at rank ks hi i"
  "hi_at rank [] hi 0 = hi"
  by (simp_all add: lo_at_def hi_at_def)

lemma kids_ok_length: "kids_ok P rank lo ks cs hi \<Longrightarrow> length cs = Suc (length ks)"
  by (induction P rank lo ks cs hi rule: kids_ok.induct) auto

lemma kids_ok_Cons:
  "kids_ok P rank lo (k # ks) cs hi \<longleftrightarrow>
   (\<exists>c cs'. cs = c # cs' \<and> bound_le lo (Some (rank k)) \<and> P lo (Some (rank k)) c \<and>
      kids_ok P rank (Some (rank k)) ks cs' hi)"
  by (cases cs) auto

lemma kids_ok_Nil: "kids_ok P rank lo [] cs hi \<longleftrightarrow> (\<exists>c. cs = [c] \<and> bound_le lo hi \<and> P lo hi c)"
  by (cases cs; cases "tl cs") auto

lemma kids_ok_at:
  "kids_ok P rank lo ks cs hi \<Longrightarrow> i \<le> length ks \<Longrightarrow>
   bound_le (lo_at rank lo ks i) (hi_at rank ks hi i) \<and>
   P (lo_at rank lo ks i) (hi_at rank ks hi i) (cs ! i)"
proof (induction ks arbitrary: lo cs i)
  case (Cons k ks)
  then show ?case by (cases i) (auto simp: kids_ok_Cons)
qed (auto simp: kids_ok_Nil)

lemma kids_ok_bound: "kids_ok P rank lo ks cs hi \<Longrightarrow> bound_le lo hi"
proof (induction ks arbitrary: lo cs)
  case (Cons k ks)
  then have "bound_le lo (Some (rank k))" "bound_le (Some (rank k)) hi" by (auto simp: kids_ok_Cons)
  then show ?case by (rule bound_le_trans) simp
qed (auto simp: kids_ok_Nil)

lemma kids_ok_keys:
  "kids_ok P rank lo ks cs hi \<Longrightarrow> sorted (map rank ks) \<and> (\<forall>k\<in>set ks. above lo (rank k))"
proof (induction ks arbitrary: lo cs)
  case (Cons k ks)
  then obtain cs' where *: "kids_ok P rank (Some (rank k)) ks cs' hi" "above lo (rank k)"
    by (auto simp: kids_ok_Cons bound_le_Some)
  from Cons.IH[OF *(1)] *(2) show ?case by (cases lo) force+
qed simp

lemma kids_ok_split:
  "length cs1 = Suc (length ks1) \<Longrightarrow>
   kids_ok P rank lo (ks1 @ k # ks2) (cs1 @ cs2) hi \<longleftrightarrow>
     kids_ok P rank lo ks1 cs1 (Some (rank k)) \<and> kids_ok P rank (Some (rank k)) ks2 cs2 hi"
proof (induction ks1 arbitrary: lo cs1)
  case Nil
  then obtain c where "cs1 = [c]" by (cases cs1) auto
  then show ?case by (auto simp: kids_ok_Cons)
next
  case (Cons x ks1)
  then obtain c cs' where "cs1 = c # cs'" "length cs' = Suc (length ks1)" by (cases cs1) auto
  with Cons.IH[of cs' "Some (rank x)"] show ?case by auto
qed

lemma kids_ok_replace:
  "kids_ok P rank lo ks cs hi \<Longrightarrow> i \<le> length ks \<Longrightarrow>
   P (lo_at rank lo ks i) (hi_at rank ks hi i) c \<Longrightarrow> kids_ok P rank lo ks (cs[i := c]) hi"
proof (induction ks arbitrary: lo cs i)
  case (Cons k ks)
  then show ?case by (cases i) (auto simp: kids_ok_Cons)
qed (auto simp: kids_ok_Nil)

lemma kids_ok_insert:
  "kids_ok P rank lo ks cs hi \<Longrightarrow> i \<le> length ks \<Longrightarrow>
   bound_le (lo_at rank lo ks i) (Some (rank sep)) \<Longrightarrow> bound_le (Some (rank sep)) (hi_at rank ks hi i) \<Longrightarrow>
   P (lo_at rank lo ks i) (Some (rank sep)) c \<Longrightarrow> P (Some (rank sep)) (hi_at rank ks hi i) r \<Longrightarrow>
   kids_ok P rank lo (take i ks @ sep # drop i ks) (take i cs @ c # r # drop (Suc i) cs) hi"
proof (induction ks arbitrary: lo cs i)
  case (Cons k ks)
  then show ?case by (cases i) (auto simp: kids_ok_Cons)
qed (auto simp: kids_ok_Nil)

lemma kids_ok_pair:
  "kids_ok P rank lo ks cs hi \<Longrightarrow> j < length ks \<Longrightarrow>
   bound_le (lo_at rank lo ks j) (Some (rank s)) \<Longrightarrow>
   bound_le (Some (rank s)) (hi_at rank ks hi (Suc j)) \<Longrightarrow>
   P (lo_at rank lo ks j) (Some (rank s)) a \<Longrightarrow> P (Some (rank s)) (hi_at rank ks hi (Suc j)) b \<Longrightarrow>
   kids_ok P rank lo (ks[j := s]) (cs[j := a, Suc j := b]) hi"
proof (induction ks arbitrary: lo cs j)
  case (Cons k ks)
  show ?case
  proof (cases j)
    case 0
    with Cons.prems show ?thesis by (cases ks) (auto simp: kids_ok_Cons kids_ok_Nil)
  next
    case (Suc m)
    with Cons show ?thesis by (auto simp: kids_ok_Cons)
  qed
qed simp

lemma kids_ok_merge:
  "kids_ok P rank lo ks cs hi \<Longrightarrow> j < length ks \<Longrightarrow>
   P (lo_at rank lo ks j) (hi_at rank ks hi (Suc j)) a \<Longrightarrow>
   bound_le (lo_at rank lo ks j) (hi_at rank ks hi (Suc j)) \<Longrightarrow>
   kids_ok P rank lo (take j ks @ drop (Suc j) ks) (take j cs @ a # drop (Suc (Suc j)) cs) hi"
proof (induction ks arbitrary: lo cs j)
  case (Cons k ks)
  show ?case
  proof (cases j)
    case 0
    with Cons.prems show ?thesis by (cases ks) (auto simp: kids_ok_Cons kids_ok_Nil)
  next
    case (Suc m)
    with Cons show ?thesis by (auto simp: kids_ok_Cons)
  qed
qed simp

section \<open>Binary search\<close>

lemma bt_bisect_spec:
  assumes "\<forall>a b. a \<le> b \<and> b < hi \<and> right b \<longrightarrow> right a" "lo \<le> hi"
  shows "lo \<le> bt_bisect right lo hi \<and> bt_bisect right lo hi \<le> hi \<and>
    (\<forall>m. lo \<le> m \<and> m < bt_bisect right lo hi \<longrightarrow> right m) \<and>
    (\<forall>m. bt_bisect right lo hi \<le> m \<and> m < hi \<longrightarrow> \<not> right m)"
  using assms
proof (induction right lo hi rule: bt_bisect.induct)
  case (1 right lo hi)
  define mid where "mid = (lo + hi) div 2"
  show ?case
  proof (cases "lo < hi")
    case True
    then have m: "lo \<le> mid" "mid < hi" by (auto simp: mid_def)
    show ?thesis
    proof (cases "right mid")
      case R: True
      let ?r = "bt_bisect right (Suc mid) hi"
      have IH: "Suc mid \<le> ?r" "?r \<le> hi" "\<And>k. Suc mid \<le> k \<Longrightarrow> k < ?r \<Longrightarrow> right k"
        "\<And>k. ?r \<le> k \<Longrightarrow> k < hi \<Longrightarrow> \<not> right k"
        using 1(1)[OF True mid_def R 1(3)] m by auto
      have "right k" if "k < ?r" for k
      proof (cases "k \<le> mid")
        case True
        then show ?thesis using 1(3) m R by blast
      next
        case False
        then show ?thesis using IH(3)[of k] that by simp
      qed
      moreover have "bt_bisect right lo hi = ?r"
        using True R by (simp add: bt_bisect.simps[of right lo hi] mid_def)
      ultimately show ?thesis using m IH by simp
    next
      case R: False
      let ?r = "bt_bisect right lo mid"
      have mono: "\<forall>a b. a \<le> b \<and> b < mid \<and> right b \<longrightarrow> right a"
        using 1(3) m(2) by (meson order.strict_trans)
      have IH: "lo \<le> ?r" "?r \<le> mid" "\<And>k. lo \<le> k \<Longrightarrow> k < ?r \<Longrightarrow> right k"
        "\<And>k. ?r \<le> k \<Longrightarrow> k < mid \<Longrightarrow> \<not> right k"
        using 1(2)[OF True mid_def R mono m(1)] by blast+
      have "\<not> right k" if "?r \<le> k" "k < hi" for k
      proof (cases "mid \<le> k")
        case True
        then show ?thesis using 1(3) that R by blast
      next
        case False
        then show ?thesis using IH(4)[of k] that by simp
      qed
      moreover have "bt_bisect right lo hi = ?r"
        using True R by (simp add: bt_bisect.simps[of right lo hi] mid_def)
      ultimately show ?thesis using m IH by simp
    qed
  next
    case False
    then have "bt_bisect right lo hi = lo" by (simp add: bt_bisect.simps[of right lo hi])
    then show ?thesis using 1(4) False by auto
  qed
qed

context key_order
begin

abbreviation "btree_sorted \<equiv> bt_sorted valid rank"

lemma bt_upper_spec:
  assumes "sorted (map rank ks)" "\<forall>k\<in>set ks. valid k" "valid key"
  shows "bt_upper compare ks key \<le> length ks \<and>
    (\<forall>m<bt_upper compare ks key. rank (ks ! m) \<le> rank key) \<and>
    (\<forall>m. bt_upper compare ks key \<le> m \<and> m < length ks \<longrightarrow> rank key < rank (ks ! m))"
proof -
  have c: "compare (ks ! m) key \<le> 0 \<longleftrightarrow> rank (ks ! m) \<le> rank key" if "m < length ks" for m
    using that assms(2,3) by (simp add: compare_le)
  have "\<forall>a b. a \<le> b \<and> b < length ks \<and> compare (ks ! b) key \<le> 0 \<longrightarrow> compare (ks ! a) key \<le> 0"
  proof (intro allI impI, elim conjE)
    fix a b assume *: "a \<le> b" "b < length ks" "compare (ks ! b) key \<le> 0"
    then show "compare (ks ! a) key \<le> 0"
      using c[of a] c[of b] sorted_nth_mono[OF assms(1), of a b] by force
  qed
  from bt_bisect_spec[of "length ks" "\<lambda>m. compare (ks ! m) key \<le> 0" 0, OF this]
  show ?thesis using c by (auto simp: bt_upper_def not_le)
qed

lemma bt_lower_spec:
  assumes "sorted (map rank ks)" "\<forall>k\<in>set ks. valid k" "valid key"
  shows "bt_lower compare ks key \<le> length ks \<and>
    (\<forall>m<bt_lower compare ks key. rank (ks ! m) < rank key) \<and>
    (\<forall>m. bt_lower compare ks key \<le> m \<and> m < length ks \<longrightarrow> rank key \<le> rank (ks ! m))"
proof -
  have c: "compare (ks ! m) key < 0 \<longleftrightarrow> rank (ks ! m) < rank key" if "m < length ks" for m
    using that assms(2,3) by (simp add: compare_less)
  have "\<forall>a b. a \<le> b \<and> b < length ks \<and> compare (ks ! b) key < 0 \<longrightarrow> compare (ks ! a) key < 0"
  proof (intro allI impI, elim conjE)
    fix a b assume *: "a \<le> b" "b < length ks" "compare (ks ! b) key < 0"
    then show "compare (ks ! a) key < 0"
      using c[of a] c[of b] sorted_nth_mono[OF assms(1), of a b] by force
  qed
  from bt_bisect_spec[of "length ks" "\<lambda>m. compare (ks ! m) key < 0" 0, OF this]
  show ?thesis using c by (auto simp: bt_lower_def not_less)
qed

text \<open>The child the search descends into bounds the key.\<close>

lemma bt_upper_bounds:
  assumes "kids_ok P rank lo ks cs hi" "\<forall>k\<in>set ks. valid k" "valid key"
    "above lo (rank key)" "below hi (rank key)"
  defines "i \<equiv> bt_upper compare ks key"
  shows "i \<le> length ks \<and> above (lo_at rank lo ks i) (rank key) \<and> below (hi_at rank ks hi i) (rank key)"
proof -
  have s: "sorted (map rank ks)" using kids_ok_keys[OF assms(1)] ..
  note spec = bt_upper_spec[OF s assms(2,3), folded i_def]
  have "above (lo_at rank lo ks i) (rank key)"
    using spec assms(4) by (cases i) (auto simp: lo_at_def)
  moreover have "below (hi_at rank ks hi i) (rank key)"
    using spec assms(5) by (cases "i < length ks") (auto simp: hi_at_def nth_append)
  ultimately show ?thesis using spec by blast
qed

text \<open>A leaf cut at the position of the key.\<close>

lemma leaf_cut:
  assumes "leaf_ok valid rank lo hi es" "valid key"
  defines "i \<equiv> bt_lower compare (map fst es) key"
  shows "i \<le> length es" "\<forall>e\<in>set (take i es). rank (fst e) < rank key"
    "\<forall>e\<in>set (drop i es). rank key \<le> rank (fst e)"
    "i < length es \<Longrightarrow> compare (fst (es ! i)) key = 0 \<longleftrightarrow> rank (fst (es ! i)) = rank key"
    "i < length es \<Longrightarrow> \<forall>e\<in>set (drop (Suc i) es). rank key < rank (fst e)"
proof -
  have st: "sorted_wrt (<) (map (rank \<circ> fst) es)" and d: "\<forall>e\<in>set es. valid (fst e)"
    using assms(1) by (auto simp: leaf_ok_def)
  have s: "sorted (map rank (map fst es))" using strict_sorted_imp_sorted[OF st] by (simp add: comp_def)
  have "\<forall>k\<in>set (map fst es). valid k" using d by auto
  note spec = bt_lower_spec[OF s this assms(2), folded i_def]
  from spec show "i \<le> length es" by simp
  with spec show "\<forall>e\<in>set (take i es). rank (fst e) < rank key"
    by (fastforce simp: in_set_conv_nth)
  show "\<forall>e\<in>set (drop i es). rank key \<le> rank (fst e)"
  proof
    fix e assume "e \<in> set (drop i es)"
    then obtain m where "m < length es - i" "e = es ! (i + m)" by (auto simp: in_set_conv_nth)
    then show "rank key \<le> rank (fst e)" using spec by simp
  qed
  show "compare (fst (es ! i)) key = 0 \<longleftrightarrow> rank (fst (es ! i)) = rank key" if "i < length es"
    using that d assms(2) by (simp add: compare_eq)
  show "\<forall>e\<in>set (drop (Suc i) es). rank key < rank (fst e)" if i: "i < length es"
  proof
    fix e assume "e \<in> set (drop (Suc i) es)"
    then obtain m where "m < length es - Suc i" "e = es ! (Suc i + m)"
      by (auto simp: in_set_conv_nth)
    then have m: "Suc i + m < length es" "e = es ! (Suc i + m)" by auto
    have "rank (fst (es ! i)) < rank (fst e)"
      using sorted_wrt_nth_less[OF st, of i "Suc i + m"] m i by simp
    moreover have "rank key \<le> rank (fst (es ! i))" using spec i by simp
    ultimately show "rank key < rank (fst e)" by simp
  qed
qed

lemma has_key_leaf:
  assumes "leaf_ok valid rank lo hi es" "valid key"
  defines "i \<equiv> bt_lower compare (map fst es) key"
  shows "has_key rank key es \<longleftrightarrow> i < length es \<and> compare (fst (es ! i)) key = 0"
proof -
  note cut = leaf_cut[OF assms(1,2), folded i_def]
  show ?thesis
  proof (cases "i < length es")
    case True
    then have "es = take i es @ es ! i # drop (Suc i) es" by (rule id_take_nth_drop)
    then have "has_key rank key es \<longleftrightarrow> has_key rank key [es ! i]"
      using has_key_focus[of "take i es" rank key "drop (Suc i) es" "[es ! i]"] cut True by auto
    then show ?thesis using cut True by (auto simp: has_key_def)
  next
    case False
    then have "take i es = es" by simp
    then show ?thesis using cut(2) False by (auto simp: has_key_def)
  qed
qed

lemma leaf_sortedI:
  "leaf_ok valid rank lo hi es \<Longrightarrow> btree_sorted 0 lo hi (Leaf a es)"
  by simp

text \<open>The entries of a subtree lie within its bounds, in order.\<close>

lemma leaf_ok_append:
  assumes "leaf_ok valid rank lo (Some m) xs" "leaf_ok valid rank (Some m) hi ys"
    "bound_le lo (Some m)" "bound_le (Some m) hi"
  shows "leaf_ok valid rank lo hi (xs @ ys)"
proof -
  have "above lo x" if "m \<le> x" for x using that assms(3) by (cases lo) auto
  moreover have "below hi x" if "x < m" for x using that assms(4) by (cases hi) auto
  moreover have "rank (fst x) < rank (fst y)" if "x \<in> set xs" "y \<in> set ys" for x y
    using that assms(1,2) by (fastforce simp: leaf_ok_def)
  ultimately show ?thesis using assms(1,2) by (auto simp: leaf_ok_def sorted_wrt_append)
qed

lemma kids_entries:
  assumes "kids_ok (\<lambda>lo hi c. leaf_ok valid rank lo hi (f c)) rank lo ks cs hi"
  shows "leaf_ok valid rank lo hi (concat (map f cs))"
  using assms
proof (induction ks arbitrary: lo cs)
  case (Cons k ks)
  then obtain c cs' where *: "cs = c # cs'" "bound_le lo (Some (rank k))"
    "leaf_ok valid rank lo (Some (rank k)) (f c)"
    "kids_ok (\<lambda>lo hi c. leaf_ok valid rank lo hi (f c)) rank (Some (rank k)) ks cs' hi"
    by (auto simp: kids_ok_Cons)
  from Cons.IH[OF *(4)] have 1: "leaf_ok valid rank (Some (rank k)) hi (concat (map f cs'))" .
  have kb: "bound_le (Some (rank k)) hi" using kids_ok_bound[OF *(4)] .
  from leaf_ok_append[OF *(3) 1 *(2) kb] show ?case by (simp add: *(1))
qed (auto simp: kids_ok_Nil)

lemma kids_ok_mono:
  "kids_ok P rank lo ks cs hi \<Longrightarrow> (\<And>lo hi c. P lo hi c \<Longrightarrow> Q lo hi c) \<Longrightarrow> kids_ok Q rank lo ks cs hi"
  by (induction P rank lo ks cs hi rule: kids_ok.induct) auto

lemma sorted_entries:
  "btree_sorted h lo hi t \<Longrightarrow> leaf_ok valid rank lo hi (bt_entries t)"
proof (induction h arbitrary: lo hi t)
  case 0
  then show ?case by (cases t) auto
next
  case (Suc h)
  then obtain ks cs where t: "t = Node ks cs" "kids_ok (btree_sorted h) rank lo ks cs hi"
    by (cases t) auto
  then show ?case using Suc.IH by (auto intro!: kids_entries elim: kids_ok_mono)
qed

text \<open>Around child \<open>i\<close>, whose bounds hold the key, all entries are below or above the key.\<close>

lemma kids_around:
  assumes "kids_ok P rank lo ks cs hi" "i \<le> length ks"
    "\<And>lo hi c. P lo hi c \<Longrightarrow> leaf_ok valid rank lo hi (f c)"
    "above (lo_at rank lo ks i) (rank key)" "below (hi_at rank ks hi i) (rank key)"
  shows "(\<forall>e\<in>set (concat (map f (take i cs))). rank (fst e) < rank key) \<and>
    (\<forall>e\<in>set (concat (map f (drop (Suc i) cs))). rank key < rank (fst e))"
  using assms(1,2,4,5)
proof (induction ks arbitrary: lo cs i)
  case Nil
  then show ?case by (auto simp: kids_ok_Nil)
next
  case (Cons k ks)
  then obtain c cs' where *: "cs = c # cs'" "bound_le lo (Some (rank k))"
    "P lo (Some (rank k)) c" "kids_ok P rank (Some (rank k)) ks cs' hi"
    by (auto simp: kids_ok_Cons)
  show ?case
  proof (cases i)
    case 0
    have "leaf_ok valid rank (Some (rank k)) hi (concat (map f cs'))"
      using *(4) assms(3) by (intro kids_entries) (rule kids_ok_mono)
    moreover have "rank key < rank k" using Cons.prems 0 by simp
    ultimately show ?thesis using 0 *(1) by (auto simp: leaf_ok_def intro: less_le_trans)
  next
    case (Suc m)
    have m: "m \<le> length ks" "above (lo_at rank (Some (rank k)) ks m) (rank key)"
      "below (hi_at rank ks hi m) (rank key)"
      using Cons.prems Suc by auto
    have "above (Some (rank k)) (rank key)"
    proof (cases m)
      case (Suc l)
      then have "above (Some (rank k)) (rank (ks ! l))"
        using kids_ok_keys[OF *(4)] m(1) by simp
      then show ?thesis using m(2) Suc m(1) by (auto simp: lo_at_def)
    qed (use m(2) in simp)
    then have "\<forall>e\<in>set (f c). rank (fst e) < rank key"
      using assms(3)[OF *(3)] by (auto simp: leaf_ok_def intro: less_le_trans)
    with Cons.IH[OF *(4) m] show ?thesis by (auto simp: Suc *(1))
  qed
qed

lemma concat_focus:
  "i < length cs \<Longrightarrow> concat (map f cs) = concat (map f (take i cs)) @ f (cs ! i) @ concat (map f (drop (Suc i) cs))"
  by (metis concat.simps(2) concat_append id_take_nth_drop list.simps(9) map_append)

section \<open>Lookup\<close>

lemma leaf_for_lookup:
  assumes "btree_sorted h lo hi t" "valid key" "above lo (rank key)" "below hi (rank key)"
  shows "\<exists>a es lo' hi'. bt_leaf_for compare key t = (a, es) \<and> leaf_ok valid rank lo' hi' es \<and>
    above lo' (rank key) \<and> below hi' (rank key) \<and>
    (\<exists>pre post. bt_entries t = pre @ es @ post \<and> (\<forall>e\<in>set pre. rank (fst e) < rank key) \<and>
       (\<forall>e\<in>set post. rank key < rank (fst e)))"
  using assms
proof (induction h arbitrary: lo hi t)
  case 0
  from 0(1) obtain a es where t: "t = Leaf a es" "leaf_ok valid rank lo hi es" by (cases t) auto
  have "bt_entries t = [] @ es @ []" by (simp add: t)
  then show ?case using 0(2-4) t by (metis bt_leaf_for.simps(1) empty_iff list.set(1))
next
  case (Suc h)
  from Suc.prems(1) obtain ks cs where t: "t = Node ks cs" "\<forall>k\<in>set ks. valid k"
    "kids_ok (btree_sorted h) rank lo ks cs hi"
    by (cases t) auto
  let ?i = "bt_upper compare ks key"
  note b = bt_upper_bounds[OF t(3,2) Suc.prems(2-4)]
  have i: "?i < length cs" using b kids_ok_length[OF t(3)] by simp
  have c: "btree_sorted h (lo_at rank lo ks ?i) (hi_at rank ks hi ?i) (cs ! ?i)"
    using kids_ok_at[OF t(3)] b by blast
  from Suc.IH[OF c Suc.prems(2) b[THEN conjunct2, THEN conjunct1] b[THEN conjunct2, THEN conjunct2]]
  obtain a es lo' hi' pre post where
    *: "bt_leaf_for compare key (cs ! ?i) = (a, es)" "leaf_ok valid rank lo' hi' es"
    "above lo' (rank key)" "below hi' (rank key)" "bt_entries (cs ! ?i) = pre @ es @ post"
    "\<forall>e\<in>set pre. rank (fst e) < rank key" "\<forall>e\<in>set post. rank key < rank (fst e)"
    by (elim exE conjE) (rule that)
  let ?pre = "concat (map bt_entries (take ?i cs))" and ?post = "concat (map bt_entries (drop (Suc ?i) cs))"
  have "(\<forall>e\<in>set ?pre. rank (fst e) < rank key) \<and> (\<forall>e\<in>set ?post. rank key < rank (fst e))"
    using b by (intro kids_around[OF t(3)] sorted_entries) auto
  then have "(\<forall>e\<in>set (?pre @ pre). rank (fst e) < rank key) \<and>
    (\<forall>e\<in>set (post @ ?post). rank key < rank (fst e))"
    using *(6,7) by (metis Un_iff set_append)
  moreover have "bt_entries t = (?pre @ pre) @ es @ (post @ ?post)"
    using concat_focus[OF i, of bt_entries] by (simp add: t(1) *(5))
  moreover have "bt_leaf_for compare key t = (a, es)" using i *(1) by (simp add: t(1))
  ultimately show ?case using *(2-4) by blast
qed

lemma lookup_entries:
  assumes "btree_sorted h None None t" "valid key"
  shows "ussr_btree_get compare \<lparr>bt_root = Some t, bt_count = n, bt_heap = g\<rparr> key =
    lookup_list rank key (bt_entries t)"
proof -
  from leaf_for_lookup[OF assms] obtain a es lo hi pre post where
    *: "bt_leaf_for compare key t = (a, es)" "leaf_ok valid rank lo hi es"
    "bt_entries t = pre @ es @ post" "\<forall>e\<in>set pre. rank (fst e) < rank key"
    "\<forall>e\<in>set post. rank key < rank (fst e)"
    by auto
  let ?i = "bt_lower compare (map fst es) key"
  note cut = leaf_cut[OF *(2) assms(2)]
  have "lookup_list rank key es =
    (if ?i < length es \<and> compare (fst (es ! ?i)) key = 0 then Some (snd (es ! ?i)) else None)"
  proof (cases "?i < length es")
    case True
    have "es = take ?i es @ [es ! ?i] @ drop (Suc ?i) es"
      using id_take_nth_drop[OF True] by simp
    then have "lookup_list rank key es = lookup_list rank key [es ! ?i]"
      using lookup_list_focus[of "take ?i es" rank key "drop (Suc ?i) es" "[es ! ?i]"] cut True by metis
    then show ?thesis using cut(4)[OF True] True by (simp add: lookup_list_def)
  next
    case False
    then have "take ?i es = es" by simp
    then have "\<forall>e\<in>set es. rank (fst e) < rank key" using cut(2) by metis
    then have "find (\<lambda>e. rank (fst e) = rank key) es = None" by (auto simp: find_None_iff)
    then show ?thesis using False by (simp add: lookup_list_def)
  qed
  then show ?thesis
    using lookup_list_focus[OF *(4,5), of es] by (simp add: ussr_btree_get_def *(1,3) Let_def)
qed

section \<open>Insertion\<close>

lemma insert_leaf:
  assumes "leaf_ok valid rank lo hi es" "valid key" "above lo (rank key)" "below hi (rank key)"
  defines "i \<equiv> bt_lower compare (map fst es) key"
  shows "leaf_ok valid rank lo hi (upd_list rank key v es)"
    "upd_list rank key v es =
      (if i < length es \<and> compare (fst (es ! i)) key = 0 then es[i := (fst (es ! i), v)]
       else take i es @ (key, v) # drop i es)"
proof -
  note cut = leaf_cut[OF assms(1,2), folded i_def]
  show eq: "upd_list rank key v es =
      (if i < length es \<and> compare (fst (es ! i)) key = 0 then es[i := (fst (es ! i), v)]
       else take i es @ (key, v) # drop i es)"
  proof (cases "i < length es \<and> compare (fst (es ! i)) key = 0")
    case True
    then have e: "es = take i es @ [es ! i] @ drop (Suc i) es"
      using id_take_nth_drop[of i es] by simp
    have "upd_list rank key v es = take i es @ upd_list rank key v [es ! i] @ drop (Suc i) es"
      using upd_list_focus[of "take i es" rank key "drop (Suc i) es" v "[es ! i]"] e cut True by metis
    then show ?thesis using True cut(4) by (simp add: upd_conv_take_nth_drop)
  next
    case False
    have "\<forall>e\<in>set (drop i es). rank key < rank (fst e)"
    proof (cases "i < length es")
      case True
      then have "rank key < rank (fst (es ! i))"
        using False cut(3,4) by (metis Cons_nth_drop_Suc list.set_intros(1) order.not_eq_order_implies_strict)
      then show ?thesis using cut(5)[OF True] Cons_nth_drop_Suc[OF True] by (metis set_ConsD)
    qed simp
    from upd_list_focus[OF cut(2) this, of v "[]"] show ?thesis unfolding if_not_P[OF False] by simp
  qed
  have r: "rank (fst e) = rank key \<or> rank (fst e) \<in> (rank \<circ> fst) ` set es"
    if "e \<in> set (upd_list rank key v es)" for e es
    using that by (induction es) (auto split: if_splits)
  have "sorted_wrt (<) (map (rank \<circ> fst) es) \<Longrightarrow>
    sorted_wrt (<) (map (rank \<circ> fst) (upd_list rank key v es))" for es
    by (induction es) (fastforce dest: r)+
  moreover have "valid (fst e) \<and> above lo (rank (fst e)) \<and> below hi (rank (fst e))"
    if "e \<in> set (upd_list rank key v es)"
      "\<forall>e\<in>set es. valid (fst e) \<and> above lo (rank (fst e)) \<and> below hi (rank (fst e))" for e es
    using that assms(2-4) by (induction es) (auto split: if_splits)
  ultimately show "leaf_ok valid rank lo hi (upd_list rank key v es)"
    using assms(1) by (auto simp: leaf_ok_def)
qed

text \<open>What an insertion leaves behind: a node, or two with a separator, holding the entries \<open>es\<close>.\<close>

definition inserted ::
  "nat \<Rightarrow> 'r option \<Rightarrow> 'r option \<Rightarrow> ('k \<times> 'v) list \<Rightarrow> ('k, 'v) bt_node \<Rightarrow>
   ('k \<times> ('k, 'v) bt_node) option \<Rightarrow> bool" where
  "inserted h lo hi es t split \<longleftrightarrow>
     (case split of
        None \<Rightarrow> btree_sorted h lo hi t \<and> bt_entries t = es
      | Some (sep, r) \<Rightarrow> valid sep \<and> bound_le lo (Some (rank sep)) \<and> bound_le (Some (rank sep)) hi \<and>
          btree_sorted h lo (Some (rank sep)) t \<and> btree_sorted h (Some (rank sep)) hi r \<and>
          bt_entries t @ bt_entries r = es)"

lemma leaf_ok_cut:
  assumes "leaf_ok valid rank lo hi es" "m < length es"
  defines "b \<equiv> rank (fst (es ! m))"
  shows "leaf_ok valid rank lo (Some b) (take m es) \<and> leaf_ok valid rank (Some b) hi (drop m es) \<and>
    bound_le lo (Some b) \<and> bound_le (Some b) hi \<and> valid (fst (es ! m))"
proof -
  have s: "sorted_wrt (<) (map (rank \<circ> fst) es)"
    and e: "\<And>e. e \<in> set es \<Longrightarrow> valid (fst e) \<and> above lo (rank (fst e)) \<and> below hi (rank (fst e))"
    using assms(1) by (auto simp: leaf_ok_def)
  have "rank (fst x) < b" if "x \<in> set (take m es)" for x
  proof -
    from that obtain j where "j < m" "x = es ! j" by (auto simp: in_set_conv_nth)
    then show ?thesis using sorted_wrt_nth_less[OF s, of j m] assms(2) by (simp add: b_def)
  qed
  moreover have "b \<le> rank (fst x)" if "x \<in> set (drop m es)" for x
  proof -
    from that obtain j where j: "j < length es - m" "x = es ! (m + j)" by (auto simp: in_set_conv_nth)
    then have "m + j < length es" by simp
    then show ?thesis
      using sorted_wrt_nth_less[OF s, of m "m + j"] j(2) by (cases j) (auto simp: b_def less_imp_le)
  qed
  moreover have "sorted_wrt (<) (map (rank \<circ> fst) (take m es))"
    "sorted_wrt (<) (map (rank \<circ> fst) (drop m es))"
    using s by (simp_all add: sorted_wrt_take sorted_wrt_drop flip: take_map drop_map)
  moreover have "es ! m \<in> set es" using assms(2) by simp
  then have "valid (fst (es ! m))" "above lo b" "below hi b" using e by (auto simp: b_def)
  moreover have "bound_le (Some b) hi" using \<open>below hi b\<close> by (cases hi) auto
  ultimately show ?thesis
    using e by (auto simp: leaf_ok_def bound_le_Some dest: in_set_takeD in_set_dropD)
qed

lemma insert_sorted_leaf:
  assumes "leaf_ok valid rank lo hi es" "valid key" "above lo (rank key)" "below hi (rank key)"
    "bt_insert compare key v g (Leaf a es) = (t', split, added, g')"
  shows "inserted 0 lo hi (upd_list rank key v es) t' split \<and> (added \<longleftrightarrow> \<not> has_key rank key es)"
proof -
  let ?i = "bt_lower compare (map fst es) key"
  let ?es = "take ?i es @ (key, v) # drop ?i es"
  note ins = insert_leaf[OF assms(1-4), of v]
  note hk = has_key_leaf[OF assms(1,2)]
  show ?thesis
  proof (cases "?i < length es \<and> compare (fst (es ! ?i)) key = 0")
    case True
    then show ?thesis using assms(5) ins hk by (auto simp: inserted_def Let_def)
  next
    case False
    note u = ins(2)[unfolded if_not_P[OF False]]
    show ?thesis
    proof (cases "length ?es \<le> BT_MAX")
      case True
      then show ?thesis using assms(5) ins(1) hk False u by (auto simp: inserted_def Let_def)
    next
      case F: False
      let ?h = "length ?es div 2"
      have "?h < length ?es" using F by (simp add: BT_MAX_def)
      note cut = leaf_ok_cut[OF ins(1)[unfolded u] this]
      have "bt_insert compare key v g (Leaf a es) = (Leaf a (take ?h ?es),
          Some (fst (?es ! ?h), Leaf (bt_fresh g) (drop ?h ?es)), True, link_after a g)"
        using False F by (simp only: bt_insert.simps Let_def if_False)
      moreover have "\<not> has_key rank key es" using hk False by simp
      ultimately show ?thesis
        using assms(5) u cut by (auto simp: inserted_def simp del: take_append drop_append)
    qed
  qed
qed

text \<open>An overflowing internal node split around its middle separator.\<close>

lemma split_node:
  assumes "kids_ok (btree_sorted h) rank lo ks cs hi" "\<forall>k\<in>set ks. valid k" "m < length ks"
  shows "inserted (Suc h) lo hi (concat (map bt_entries cs)) (Node (take m ks) (take (Suc m) cs))
    (Some (ks ! m, Node (drop (Suc m) ks) (drop (Suc m) cs)))"
proof -
  have l: "length (take (Suc m) cs) = Suc (length (take m ks))"
    using kids_ok_length[OF assms(1)] assms(3) by simp
  have "kids_ok (btree_sorted h) rank lo (take m ks @ ks ! m # drop (Suc m) ks)
      (take (Suc m) cs @ drop (Suc m) cs) hi"
    using assms(1) id_take_nth_drop[OF assms(3)] by simp
  from this[unfolded kids_ok_split[OF l]] kids_ok_bound
  have "kids_ok (btree_sorted h) rank lo (take m ks) (take (Suc m) cs) (Some (rank (ks ! m)))"
    "kids_ok (btree_sorted h) rank (Some (rank (ks ! m))) (drop (Suc m) ks) (drop (Suc m) cs) hi"
    "bound_le lo (Some (rank (ks ! m)))" "bound_le (Some (rank (ks ! m))) hi"
    by blast+
  moreover have "valid (ks ! m)" using assms(2) nth_mem[OF assms(3)] by blast
  moreover have "\<forall>k\<in>set (take m ks). valid k" "\<forall>k\<in>set (drop (Suc m) ks). valid k"
    using assms(2) by (blast dest: in_set_takeD in_set_dropD)+
  moreover have "bt_entries (Node (take m ks) (take (Suc m) cs)) @
      bt_entries (Node (drop (Suc m) ks) (drop (Suc m) cs)) = concat (map bt_entries cs)"
    by (simp only: bt_entries.simps append_take_drop_id flip: concat_append map_append)
  ultimately show ?thesis
    by (simp only: inserted_def option.case prod.case bt_sorted.simps bt_node.case)
qed

text \<open>
  The child \<open>i\<close> of a node on the search path: its invariant, and the entries around it.
\<close>

lemma search_child:
  assumes "btree_sorted (Suc h) lo hi (Node ks cs)" "valid key" "above lo (rank key)"
    "below hi (rank key)"
  defines "i \<equiv> bt_upper compare ks key"
  shows "i \<le> length ks" "i < length cs" "kids_ok (btree_sorted h) rank lo ks cs hi"
    "\<forall>k\<in>set ks. valid k" "btree_sorted h (lo_at rank lo ks i) (hi_at rank ks hi i) (cs ! i)"
    "above (lo_at rank lo ks i) (rank key)" "below (hi_at rank ks hi i) (rank key)"
    "bt_entries (Node ks cs) = concat (map bt_entries (take i cs)) @ bt_entries (cs ! i) @
       concat (map bt_entries (drop (Suc i) cs))"
    "\<forall>e\<in>set (concat (map bt_entries (take i cs))). rank (fst e) < rank key"
    "\<forall>e\<in>set (concat (map bt_entries (drop (Suc i) cs))). rank key < rank (fst e)"
proof -
  show k: "kids_ok (btree_sorted h) rank lo ks cs hi" and d: "\<forall>k\<in>set ks. valid k"
    using assms(1) by auto
  have "i \<le> length ks \<and> above (lo_at rank lo ks i) (rank key) \<and> below (hi_at rank ks hi i) (rank key)"
    unfolding i_def by (rule bt_upper_bounds[OF k d assms(2-4)])
  then show i: "i \<le> length ks" and a: "above (lo_at rank lo ks i) (rank key)"
    and b: "below (hi_at rank ks hi i) (rank key)" by auto
  show l: "i < length cs" using i kids_ok_length[OF k] by simp
  show "btree_sorted h (lo_at rank lo ks i) (hi_at rank ks hi i) (cs ! i)"
    using kids_ok_at[OF k i] by blast
  show "bt_entries (Node ks cs) = concat (map bt_entries (take i cs)) @ bt_entries (cs ! i) @
       concat (map bt_entries (drop (Suc i) cs))"
    using concat_focus[OF l, of bt_entries] by simp
  have "(\<forall>e\<in>set (concat (map bt_entries (take i cs))). rank (fst e) < rank key) \<and>
    (\<forall>e\<in>set (concat (map bt_entries (drop (Suc i) cs))). rank key < rank (fst e))"
    by (rule kids_around[OF k i _ a b]) (rule sorted_entries)
  then show "\<forall>e\<in>set (concat (map bt_entries (take i cs))). rank (fst e) < rank key"
    "\<forall>e\<in>set (concat (map bt_entries (drop (Suc i) cs))). rank key < rank (fst e)" by auto
qed

lemma insert_sorted:
  assumes "btree_sorted h lo hi t" "valid key" "above lo (rank key)" "below hi (rank key)"
    "bt_insert compare key v g t = (t', split, added, g')"
  shows "inserted h lo hi (upd_list rank key v (bt_entries t)) t' split \<and>
    (added \<longleftrightarrow> \<not> has_key rank key (bt_entries t))"
  using assms
proof (induction h arbitrary: lo hi t t' split added g')
  case 0
  from 0(1) obtain a es where "t = Leaf a es" "leaf_ok valid rank lo hi es" by (cases t) auto
  with insert_sorted_leaf 0 show ?case by simp
next
  case (Suc h)
  from Suc.prems(1) obtain ks cs where t: "t = Node ks cs" by (cases t) auto
  let ?i = "bt_upper compare ks key"
  let ?pre = "concat (map bt_entries (take ?i cs))" and ?post = "concat (map bt_entries (drop (Suc ?i) cs))"
  let ?mid = "bt_entries (cs ! ?i)"
  note sc = search_child[OF Suc.prems(1)[unfolded t] Suc.prems(2-4)]
  obtain c' sp ad g1 where r: "bt_insert compare key v g (cs ! ?i) = (c', sp, ad, g1)"
    by (metis prod_cases4)
  from Suc.IH[OF sc(5) Suc.prems(2) sc(6,7) r] have IH:
    "inserted h (lo_at rank lo ks ?i) (hi_at rank ks hi ?i) (upd_list rank key v ?mid) c' sp"
    "ad \<longleftrightarrow> \<not> has_key rank key ?mid" by auto
  have u: "upd_list rank key v (bt_entries t) = ?pre @ upd_list rank key v ?mid @ ?post"
    unfolding t sc(8) by (rule upd_list_focus[OF sc(9,10)])
  have hk: "has_key rank key (bt_entries t) \<longleftrightarrow> has_key rank key ?mid"
    unfolding t sc(8) by (rule has_key_focus[OF sc(9,10)])
  show ?case
  proof (cases sp)
    case None
    have ins: "bt_insert compare key v g t = (Node ks (cs[?i := c']), None, ad, g1)"
      using sc(2) r None by (simp add: t Let_def)
    have "kids_ok (btree_sorted h) rank lo ks (cs[?i := c']) hi"
      using IH(1) None by (intro kids_ok_replace[OF sc(3,1)]) (auto simp: inserted_def)
    moreover have "concat (map bt_entries (cs[?i := c'])) = ?pre @ upd_list rank key v ?mid @ ?post"
      using sc(2) IH(1) None by (simp add: inserted_def upd_conv_take_nth_drop)
    ultimately show ?thesis
      using Suc.prems(5) ins sc(4) IH(2) u hk by (auto simp: inserted_def)
  next
    case (Some p)
    then obtain sep rt where sp: "sp = Some (sep, rt)" by (cases p) auto
    let ?ks = "take ?i ks @ sep # drop ?i ks" and ?cs = "take ?i cs @ c' # rt # drop (Suc ?i) cs"
    from IH(1) sp have s: "valid sep" "bound_le (lo_at rank lo ks ?i) (Some (rank sep))"
      "bound_le (Some (rank sep)) (hi_at rank ks hi ?i)"
      "btree_sorted h (lo_at rank lo ks ?i) (Some (rank sep)) c'"
      "btree_sorted h (Some (rank sep)) (hi_at rank ks hi ?i) rt"
      "bt_entries c' @ bt_entries rt = upd_list rank key v ?mid"
      by (auto simp: inserted_def)
    have ok: "kids_ok (btree_sorted h) rank lo ?ks ?cs hi"
      by (rule kids_ok_insert[OF sc(3,1) s(2-5)])
    have v: "\<forall>k\<in>set ?ks. valid k" using sc(4) s(1) by (auto dest: in_set_takeD in_set_dropD)
    have en: "concat (map bt_entries ?cs) = upd_list rank key v (bt_entries t)"
      using s(6) by (simp add: u)
    show ?thesis
    proof (cases "length ?ks \<le> BT_MAX")
      case True
      then have "bt_insert compare key v g t = (Node ?ks ?cs, None, ad, g1)"
        using sc(2) r sp by (simp add: t Let_def)
      then show ?thesis using Suc.prems(5) ok v en IH(2) hk by (auto simp: inserted_def)
    next
      case False
      let ?h = "length ?ks div 2"
      have h: "?h < length ?ks" using False by (simp add: BT_MAX_def)
      have "bt_insert compare key v g t = (Node (take ?h ?ks) (take (Suc ?h) ?cs),
          Some (?ks ! ?h, Node (drop (Suc ?h) ?ks) (drop (Suc ?h) ?cs)), ad, g1)"
        using sc(2) r sp False by (simp add: t Let_def del: take_append drop_append length_append)
      then show ?thesis using Suc.prems(5) split_node[OF ok v h] IH(2) hk unfolding en by auto
    qed
  qed
qed

section \<open>Deletion\<close>

text \<open>Two neighbours cut anew at another key are what a split leaves behind.\<close>

lemma recut_leaves:
  assumes "leaf_ok valid rank lo (Some s) xs" "leaf_ok valid rank (Some s) hi ys"
    "bound_le lo (Some s)" "bound_le (Some s) hi" "m < length (xs @ ys)"
  shows "inserted 0 lo hi (xs @ ys) (Leaf a (take m (xs @ ys)))
    (Some (fst ((xs @ ys) ! m), Leaf b (drop m (xs @ ys))))"
  using leaf_ok_cut[OF leaf_ok_append[OF assms(1-4)] assms(5)]
  by (simp only: inserted_def option.case prod.case bt_sorted.simps bt_node.case bt_entries.simps
    append_take_drop_id)

lemma join_kids:
  assumes "kids_ok P rank lo ks1 cs1 (Some (rank s))" "kids_ok P rank (Some (rank s)) ks2 cs2 hi"
  shows "kids_ok P rank lo (ks1 @ s # ks2) (cs1 @ cs2) hi"
  using assms kids_ok_split[OF kids_ok_length[OF assms(1)]] by blast

lemma borrow_left_ok:
  assumes "btree_sorted h lo (Some (rank s)) l" "btree_sorted h (Some (rank s)) hi c" "valid s"
    "bound_le lo (Some (rank s))" "bound_le (Some (rank s)) hi" "0 < bt_n l"
    "borrow_left l s c = (l', s', c')"
  shows "inserted h lo hi (bt_entries l @ bt_entries c) l' (Some (s', c'))"
proof (cases h)
  case 0
  with assms obtain a ls b cs where lc: "l = Leaf a ls" "c = Leaf b cs" by (auto split: bt_node.splits)
  obtain us u where ls: "ls = us @ [u]" using assms(6) by (cases ls rule: rev_cases) (auto simp: lc)
  have "length us < length (ls @ cs)" by (simp add: ls)
  from recut_leaves[OF _ _ assms(4,5) this] assms(1,2) 0
  have "inserted 0 lo hi (ls @ cs) (Leaf a (take (length us) (ls @ cs)))
      (Some (fst ((ls @ cs) ! length us), Leaf b (drop (length us) (ls @ cs))))"
    by (simp add: lc del: take_append drop_append)
  then show ?thesis using assms(7) by (simp add: lc 0 ls)
next
  case (Suc k)
  with assms obtain lk lc ck cc where n: "l = Node lk lc" "c = Node ck cc" by (auto split: bt_node.splits)
  have kl: "kids_ok (btree_sorted k) rank lo lk lc (Some (rank s))"
    and kc: "kids_ok (btree_sorted k) rank (Some (rank s)) ck cc hi"
    and d: "\<forall>x\<in>set (lk @ s # ck). valid x"
    using assms(1-3) Suc by (auto simp: n)
  obtain us u where lk: "lk = us @ [u]" using assms(6) by (cases lk rule: rev_cases) (auto simp: n)
  obtain vs v where lc: "lc = vs @ [v]" using kids_ok_length[OF kl] by (cases lc rule: rev_cases) auto
  have len: "length vs = Suc (length us)" using kids_ok_length[OF kl] by (simp add: lk lc)
  have "length us < length (lk @ s # ck)" by (simp add: lk)
  note sp = split_node[OF join_kids[OF kl kc] d this]
  show ?thesis using sp assms(7) len by (simp add: n Suc lk lc nth_append)
qed

lemma borrow_right_ok:
  assumes "btree_sorted h lo (Some (rank s)) c" "btree_sorted h (Some (rank s)) hi r" "valid s"
    "bound_le lo (Some (rank s))" "bound_le (Some (rank s)) hi" "1 < bt_n r"
    "borrow_right c s r = (c', s', r')"
  shows "inserted h lo hi (bt_entries c @ bt_entries r) c' (Some (s', r'))"
proof (cases h)
  case 0
  with assms obtain a cs b rs where lc: "c = Leaf a cs" "r = Leaf b rs" by (auto split: bt_node.splits)
  obtain x y zs where rs: "rs = x # y # zs"
    using assms(6) by (cases rs; cases "tl rs") (auto simp: lc)
  have "Suc (length cs) < length (cs @ rs)" by (simp add: rs)
  from recut_leaves[OF _ _ assms(4,5) this] assms(1,2) 0
  have "inserted 0 lo hi (cs @ rs) (Leaf a (take (Suc (length cs)) (cs @ rs)))
      (Some (fst ((cs @ rs) ! Suc (length cs)), Leaf b (drop (Suc (length cs)) (cs @ rs))))"
    by (simp add: lc del: take_append drop_append)
  then show ?thesis using assms(7) by (simp add: lc 0 rs nth_append)
next
  case (Suc k)
  with assms obtain ck cc rk rc where n: "c = Node ck cc" "r = Node rk rc" by (auto split: bt_node.splits)
  have kl: "kids_ok (btree_sorted k) rank lo ck cc (Some (rank s))"
    and kr: "kids_ok (btree_sorted k) rank (Some (rank s)) rk rc hi"
    and d: "\<forall>x\<in>set (ck @ s # rk). valid x"
    using assms(1-3) Suc by (auto simp: n)
  obtain x xs where rk: "rk = x # xs" using assms(6) by (cases rk) (auto simp: n)
  obtain y ys where rc: "rc = y # ys" using kids_ok_length[OF kr] by (cases rc) auto
  note len = kids_ok_length[OF kl]
  have "Suc (length ck) < length (ck @ s # rk)" by (simp add: rk)
  note sp = split_node[OF join_kids[OF kl kr] d this]
  show ?thesis using sp assms(7) len by (simp add: n Suc rk rc nth_append)
qed

lemma merge_nodes_ok:
  assumes "btree_sorted h lo (Some (rank s)) a" "btree_sorted h (Some (rank s)) hi b" "valid s"
    "bound_le lo (Some (rank s))" "bound_le (Some (rank s)) hi" "merge_nodes a s b g = (c, g')"
  shows "btree_sorted h lo hi c \<and> bt_entries c = bt_entries a @ bt_entries b"
proof (cases h)
  case 0
  with assms obtain x xs y ys where "a = Leaf x xs" "b = Leaf y ys" by (auto split: bt_node.splits)
  with 0 assms leaf_ok_append[of lo "rank s" xs hi ys] show ?thesis by auto
next
  case (Suc k)
  with assms obtain ak ac bk bc where n: "a = Node ak ac" "b = Node bk bc" by (auto split: bt_node.splits)
  have "kids_ok (btree_sorted k) rank lo (ak @ s # bk) (ac @ bc) hi"
    using assms(1,2) Suc by (intro join_kids) (auto simp: n)
  then show ?thesis using assms Suc by (auto simp: n)
qed

lemma at_next:
  "j < length ks \<Longrightarrow> hi_at rank ks hi j = Some (rank (ks ! j)) \<and>
    lo_at rank lo ks (Suc j) = Some (rank (ks ! j))"
  by (simp add: hi_at_def lo_at_def nth_append)

lemma concat_two:
  assumes "Suc j < length cs"
  shows "concat (map f cs) =
    concat (map f (take j cs)) @ (f (cs ! j) @ f (cs ! Suc j)) @ concat (map f (drop (Suc (Suc j)) cs))"
proof -
  have "cs = take j cs @ cs ! j # cs ! Suc j # drop (Suc (Suc j)) cs"
    using assms by (simp add: Cons_nth_drop_Suc)
  from arg_cong[OF this, of "\<lambda>cs. concat (map f cs)"] show ?thesis by simp
qed

lemma update_two:
  assumes "Suc j < length cs"
  shows "cs[j := a, Suc j := b] = take j cs @ a # b # drop (Suc (Suc j)) cs"
  using assms by (simp add: upd_conv_take_nth_drop)

text \<open>Two neighbours and the separator between them replaced, or merged.\<close>

lemma pair_replaced:
  assumes "kids_ok (btree_sorted h) rank lo ks cs hi" "\<forall>k\<in>set ks. valid k" "j < length ks"
    "inserted h (lo_at rank lo ks j) (hi_at rank ks hi (Suc j))
      (bt_entries (cs ! j) @ bt_entries (cs ! Suc j)) a (Some (s, b))"
  shows "kids_ok (btree_sorted h) rank lo (ks[j := s]) (cs[j := a, Suc j := b]) hi \<and>
    (\<forall>k\<in>set (ks[j := s]). valid k) \<and>
    concat (map bt_entries (cs[j := a, Suc j := b])) = concat (map bt_entries cs)"
proof -
  have l: "Suc j < length cs" using kids_ok_length[OF assms(1)] assms(3) by simp
  have "kids_ok (btree_sorted h) rank lo (ks[j := s]) (cs[j := a, Suc j := b]) hi"
    using assms(4) by (intro kids_ok_pair[OF assms(1,3)]) (auto simp: inserted_def)
  moreover have "\<forall>k\<in>set (ks[j := s]). valid k"
    using assms(2,4) by (auto simp: inserted_def dest: subsetD[OF set_update_subset_insert])
  moreover have "concat (map bt_entries (cs[j := a, Suc j := b])) = concat (map bt_entries cs)"
    using assms(4) unfolding update_two[OF l] concat_two[OF l] by (simp add: inserted_def)
  ultimately show ?thesis by blast
qed

lemma fix_sorted:
  assumes "kids_ok (btree_sorted h) rank lo ks cs hi" "\<forall>k\<in>set ks. valid k" "ks \<noteq> []"
    "i \<le> length ks" "bt_fix i ks cs g = (ks', cs', g')"
  shows "kids_ok (btree_sorted h) rank lo ks' cs' hi \<and> (\<forall>k\<in>set ks'. valid k) \<and>
    concat (map bt_entries cs') = concat (map bt_entries cs)"
proof -
  have pair: "btree_sorted h (lo_at rank lo ks j) (Some (rank (ks ! j))) (cs ! j)"
    "btree_sorted h (Some (rank (ks ! j))) (hi_at rank ks hi (Suc j)) (cs ! Suc j)"
    "valid (ks ! j)" "bound_le (lo_at rank lo ks j) (Some (rank (ks ! j)))"
    "bound_le (Some (rank (ks ! j))) (hi_at rank ks hi (Suc j))"
    "Suc j < length cs" if "j < length ks" for j
    using kids_ok_at[OF assms(1), of j] kids_ok_at[OF assms(1), of "Suc j"] at_next[OF that] that
      assms(2) kids_ok_length[OF assms(1)] by auto
  show ?thesis
  proof (cases "i > 0 \<and> bt_n (cs ! (i - 1)) > BT_MIN")
    case True
    define j where "j = i - 1"
    have j: "j < length ks" "i = Suc j" using True assms(4) by (auto simp: j_def)
    obtain l s c where b: "borrow_left (cs ! j) (ks ! j) (cs ! Suc j) = (l, s, c)"
      by (metis prod_cases3)
    have "0 < bt_n (cs ! j)" using True by (simp add: j_def)
    from borrow_left_ok[OF pair(1-5)[OF j(1)] this b] pair_replaced[OF assms(1,2) j(1)]
    show ?thesis using assms(5) True b by (auto simp: bt_fix_def j(2))
  next
    case L: False
    show ?thesis
    proof (cases "i < length ks \<and> bt_n (cs ! (i + 1)) > BT_MIN")
      case True
      then have j: "i < length ks" by simp
      obtain c s r where b: "borrow_right (cs ! i) (ks ! i) (cs ! Suc i) = (c, s, r)"
        by (metis prod_cases3)
      have "1 < bt_n (cs ! Suc i)" using True by (simp add: BT_MIN_def BT_MAX_def)
      from borrow_right_ok[OF pair(1-5)[OF j] this b] pair_replaced[OF assms(1,2) j]
      show ?thesis using assms(5) True L b unfolding bt_fix_def if_not_P[OF L] by auto
    next
      case False
      define j where "j = (if i > 0 then i - 1 else i)"
      have j: "j < length ks" using assms(3,4) by (cases ks) (auto simp: j_def)
      obtain a g1 where b: "merge_nodes (cs ! j) (ks ! j) (cs ! Suc j) g = (a, g1)" by fastforce
      note m = merge_nodes_ok[OF pair(1-5)[OF j] b]
      have r: "ks' = take j ks @ drop (Suc j) ks" "cs' = take j cs @ a # drop (Suc (Suc j)) cs"
        using assms(5) b unfolding bt_fix_def if_not_P[OF L] if_not_P[OF False] j_def[symmetric]
        by (simp_all add: Let_def)
      have "kids_ok (btree_sorted h) rank lo ks' cs' hi"
        unfolding r using m bound_le_trans[OF pair(4,5)[OF j]]
        by (intro kids_ok_merge[OF assms(1) j]) auto
      moreover have "\<forall>k\<in>set ks'. valid k"
        using assms(2) unfolding r by (auto dest: in_set_takeD in_set_dropD)
      moreover have "concat (map bt_entries cs') = concat (map bt_entries cs)"
        using m unfolding r concat_two[OF pair(6)[OF j]] by simp
      ultimately show ?thesis by blast
    qed
  qed
qed

lemma delete_leaf:
  assumes "leaf_ok valid rank lo hi es" "valid key"
  defines "i \<equiv> bt_lower compare (map fst es) key"
  shows "leaf_ok valid rank lo hi (del_list rank key es)"
    "i < length es \<Longrightarrow> compare (fst (es ! i)) key = 0 \<Longrightarrow>
       del_list rank key es = take i es @ drop (Suc i) es"
    "\<not> has_key rank key es \<Longrightarrow> del_list rank key es = es"
proof -
  show "leaf_ok valid rank lo hi (del_list rank key es)"
    using assms(1) unfolding leaf_ok_def del_list_def
    by (auto simp: sorted_wrt_map sorted_wrt_filter)
  show "\<not> has_key rank key es \<Longrightarrow> del_list rank key es = es"
    by (force simp: has_key_def del_list_def filter_id_conv)
  note cut = leaf_cut[OF assms(1,2), folded i_def]
  assume i: "i < length es" and c: "compare (fst (es ! i)) key = 0"
  have "es = take i es @ [es ! i] @ drop (Suc i) es" using id_take_nth_drop[OF i] by simp
  then have "del_list rank key es = take i es @ del_list rank key [es ! i] @ drop (Suc i) es"
    using del_list_focus[OF cut(2) cut(5)[OF i], of "[es ! i]"] by metis
  then show "del_list rank key es = take i es @ drop (Suc i) es"
    using cut(4)[OF i] c by (simp add: del_list_def)
qed

lemma delete_sorted:
  assumes "btree_sorted h lo hi t" "valid key" "above lo (rank key)" "below hi (rank key)"
    "bt_sized t" "case t of Node ks cs \<Rightarrow> ks \<noteq> [] | Leaf a es \<Rightarrow> True"
    "bt_delete compare key g t = (found, t', g')"
  shows "btree_sorted h lo hi t' \<and> bt_entries t' = del_list rank key (bt_entries t) \<and>
    (found \<longleftrightarrow> has_key rank key (bt_entries t))"
  using assms
proof (induction h arbitrary: lo hi t t' found g')
  case 0
  from 0(1) obtain a es where t: "t = Leaf a es" "leaf_ok valid rank lo hi es" by (cases t) auto
  note d = delete_leaf[OF t(2) 0(2)]
  note hk = has_key_leaf[OF t(2) 0(2)]
  show ?case
  proof (cases "has_key rank key es")
    case True
    then show ?thesis using 0(7) d hk by (auto simp: t(1) Let_def)
  next
    case False
    then show ?thesis using 0(7) d hk t(2) by (auto simp: t(1) Let_def not_le split: if_splits)
  qed
next
  case (Suc h)
  from Suc.prems(1) obtain ks cs where t: "t = Node ks cs" by (cases t) auto
  let ?i = "bt_upper compare ks key"
  let ?pre = "concat (map bt_entries (take ?i cs))" and ?post = "concat (map bt_entries (drop (Suc ?i) cs))"
  let ?mid = "bt_entries (cs ! ?i)"
  note sc = search_child[OF Suc.prems(1)[unfolded t] Suc.prems(2-4)]
  have c: "cs ! ?i \<in> set cs" using sc(2) by simp
  then have sz: "bt_sized (cs ! ?i)" "BT_MIN \<le> bt_n (cs ! ?i)"
    using Suc.prems(5) by (auto simp: t list_all_iff)
  then have ne: "case cs ! ?i of Node ks cs \<Rightarrow> ks \<noteq> [] | Leaf a es \<Rightarrow> True"
    by (cases "cs ! ?i") (auto simp: BT_MIN_def BT_MAX_def)
  obtain fd c' g1 where r: "bt_delete compare key g (cs ! ?i) = (fd, c', g1)" by (metis prod_cases3)
  from Suc.IH[OF sc(5) Suc.prems(2) sc(6,7) sz(1) ne r] have IH:
    "btree_sorted h (lo_at rank lo ks ?i) (hi_at rank ks hi ?i) c'"
    "bt_entries c' = del_list rank key ?mid" "fd \<longleftrightarrow> has_key rank key ?mid" by auto
  have u: "del_list rank key (bt_entries t) = ?pre @ del_list rank key ?mid @ ?post"
    unfolding t sc(8) by (rule del_list_focus[OF sc(9,10)])
  have hk: "has_key rank key (bt_entries t) \<longleftrightarrow> has_key rank key ?mid"
    unfolding t sc(8) by (rule has_key_focus[OF sc(9,10)])
  have k: "kids_ok (btree_sorted h) rank lo ks (cs[?i := c']) hi"
    by (rule kids_ok_replace[OF sc(3,1) IH(1)])
  have e: "concat (map bt_entries (cs[?i := c'])) = del_list rank key (bt_entries t)"
    using sc(2) IH(2) by (simp add: u upd_conv_take_nth_drop)
  show ?case
  proof (cases fd)
    case False
    then have "bt_delete compare key g t = (False, t, g)" using sc(2) r by (simp add: t Let_def)
    moreover have "del_list rank key (bt_entries t) = bt_entries t"
      using False IH(3) hk by (force simp: has_key_def del_list_def filter_id_conv)
    ultimately show ?thesis using Suc.prems(1,7) False IH(3) hk by simp
  next
    case True
    show ?thesis
    proof (cases "bt_n c' < BT_MIN")
      case True
      obtain ks' cs' g2 where f: "bt_fix ?i ks (cs[?i := c']) g1 = (ks', cs', g2)" by (metis prod_cases3)
      have "bt_delete compare key g t = (True, Node ks' cs', g2)"
        using sc(2) r \<open>fd\<close> True f by (simp add: t Let_def)
      moreover have "ks \<noteq> []" using Suc.prems(6) by (simp add: t)
      ultimately show ?thesis
        using fix_sorted[OF k sc(4) _ sc(1) f] e Suc.prems(7) \<open>fd\<close> IH(3) hk by auto
    next
      case False
      then have "bt_delete compare key g t = (True, Node ks (cs[?i := c']), g1)"
        using sc(2) r \<open>fd\<close> by (simp add: t Let_def)
      then show ?thesis using k e sc(4) Suc.prems(7) \<open>fd\<close> IH(3) hk by auto
    qed
  qed
qed

section \<open>Node sizes\<close>

lemma bt_sized_Node:
  "bt_sized (Node ks cs) \<longleftrightarrow> (\<forall>c\<in>set cs. BT_MIN \<le> bt_n c \<and> bt_n c \<le> BT_MAX \<and> bt_sized c)"
  by (auto simp: list_all_iff)

lemma insert_sized:
  assumes "btree_sorted h lo hi t" "valid key" "above lo (rank key)" "below hi (rank key)"
    "bt_sized t" "bt_n t \<le> BT_MAX" "bt_insert compare key v g t = (t', split, added, g')"
  shows "bt_sized t' \<and> bt_n t' \<le> BT_MAX \<and>
    (case split of None \<Rightarrow> bt_n t \<le> bt_n t'
     | Some (sep, r) \<Rightarrow> bt_sized r \<and> BT_MIN \<le> bt_n t' \<and> BT_MIN \<le> bt_n r \<and> bt_n r \<le> BT_MAX)"
  using assms
proof (induction h arbitrary: lo hi t t' split added g')
  case 0
  from 0(1) obtain a es where "t = Leaf a es" by (cases t) auto
  then show ?case
    using 0(6,7) leaf_cut(1)[of lo hi es key] 0(1,2)
    by (auto simp: Let_def BT_MAX_def BT_MIN_def split: if_splits)
next
  case (Suc h)
  from Suc.prems(1) obtain ks cs where t: "t = Node ks cs" by (cases t) auto
  let ?i = "bt_upper compare ks key"
  note sc = search_child[OF Suc.prems(1)[unfolded t] Suc.prems(2-4)]
  have kids: "\<forall>c\<in>set cs. BT_MIN \<le> bt_n c \<and> bt_n c \<le> BT_MAX \<and> bt_sized c"
    using Suc.prems(5) by (simp only: t bt_sized_Node)
  have c: "cs ! ?i \<in> set cs" using sc(2) by simp
  obtain c' sp ad g1 where r: "bt_insert compare key v g (cs ! ?i) = (c', sp, ad, g1)"
    by (metis prod_cases4)
  have IH: "bt_sized c' \<and> bt_n c' \<le> BT_MAX \<and>
    (case sp of None \<Rightarrow> bt_n (cs ! ?i) \<le> bt_n c'
     | Some (sep, r) \<Rightarrow> bt_sized r \<and> BT_MIN \<le> bt_n c' \<and> BT_MIN \<le> bt_n r \<and> bt_n r \<le> BT_MAX)"
    using Suc.IH[OF sc(5) Suc.prems(2) sc(6,7) _ _ r] kids c by blast
  show ?case
  proof (cases sp)
    case None
    have "bt_insert compare key v g t = (Node ks (cs[?i := c']), None, ad, g1)"
      using sc(2) r None by (simp add: t Let_def)
    moreover have "BT_MIN \<le> bt_n c'" using IH None kids c by fastforce
    then have "bt_sized (Node ks (cs[?i := c']))"
      using IH kids by (auto simp only: bt_sized_Node dest!: subsetD[OF set_update_subset_insert])
    ultimately show ?thesis using Suc.prems(6,7) by (auto simp: t simp del: bt_sized.simps)
  next
    case (Some p)
    then obtain sep rt where sp: "sp = Some (sep, rt)" by (cases p) auto
    let ?ks = "take ?i ks @ sep # drop ?i ks" and ?cs = "take ?i cs @ c' # rt # drop (Suc ?i) cs"
    have k: "\<forall>c\<in>set ?cs. BT_MIN \<le> bt_n c \<and> bt_n c \<le> BT_MAX \<and> bt_sized c"
      using kids IH sp by (auto dest: in_set_takeD in_set_dropD)
    have l: "length ?ks = Suc (length ks)" using sc(1) by simp
    show ?thesis
    proof (cases "length ?ks \<le> BT_MAX")
      case True
      then have "bt_insert compare key v g t = (Node ?ks ?cs, None, ad, g1)"
        using sc(2) r sp by (simp add: t Let_def)
      moreover have "bt_sized (Node ?ks ?cs)" using k by (simp only: bt_sized_Node)
      ultimately show ?thesis using Suc.prems(7) True l by (auto simp: t simp del: bt_sized.simps)
    next
      case False
      let ?h = "length ?ks div 2"
      have "bt_insert compare key v g t = (Node (take ?h ?ks) (take (Suc ?h) ?cs),
          Some (?ks ! ?h, Node (drop (Suc ?h) ?ks) (drop (Suc ?h) ?cs)), ad, g1)"
        using sc(2) r sp False by (simp add: t Let_def del: take_append drop_append length_append)
      moreover have "bt_sized (Node (take ?h ?ks) (take (Suc ?h) ?cs))"
        "bt_sized (Node (drop (Suc ?h) ?ks) (drop (Suc ?h) ?cs))"
        using k by (auto simp only: bt_sized_Node dest!: in_set_takeD in_set_dropD)
      moreover have "length ?ks = 33" using False l Suc.prems(6) by (simp add: t BT_MAX_def)
      ultimately show ?thesis using Suc.prems(7)
        by (auto simp: BT_MIN_def BT_MAX_def simp del: bt_sized.simps take_append drop_append length_append)
    qed
  qed
qed

lemma borrow_left_sized:
  assumes "btree_sorted h lo1 hi1 l" "btree_sorted h lo2 hi2 c" "bt_sized l" "bt_sized c" "0 < bt_n l"
    "borrow_left l s c = (l', s', c')"
  shows "bt_sized l' \<and> bt_sized c' \<and> bt_n l = Suc (bt_n l') \<and> bt_n c' = Suc (bt_n c)"
proof (cases h)
  case 0
  with assms show ?thesis by (auto split: bt_node.splits)
next
  case (Suc k)
  with assms obtain lk lc ck cc where n: "l = Node lk lc" "c = Node ck cc" by (auto split: bt_node.splits)
  have "length lc = Suc (length lk)" using assms(1) kids_ok_length by (auto simp: n Suc)
  then obtain vs v where "lc = vs @ [v]" by (cases lc rule: rev_cases) auto
  then show ?thesis using assms(3-6) by (auto simp: n bt_sized_Node simp del: bt_sized.simps)
qed

lemma borrow_right_sized:
  assumes "btree_sorted h lo1 hi1 c" "btree_sorted h lo2 hi2 r" "bt_sized c" "bt_sized r" "0 < bt_n r"
    "borrow_right c s r = (c', s', r')"
  shows "bt_sized r' \<and> bt_sized c' \<and> bt_n r = Suc (bt_n r') \<and> bt_n c' = Suc (bt_n c)"
proof (cases h)
  case 0
  with assms show ?thesis by (auto split: bt_node.splits)
next
  case (Suc k)
  with assms obtain ck cc rk rc where n: "c = Node ck cc" "r = Node rk rc" by (auto split: bt_node.splits)
  have "length rc = Suc (length rk)" using assms(2) kids_ok_length by (auto simp: n Suc)
  then obtain v vs where "rc = v # vs" by (cases rc) auto
  then show ?thesis using assms(3-6) by (auto simp: n bt_sized_Node simp del: bt_sized.simps)
qed

lemma merge_sized:
  assumes "btree_sorted h lo1 hi1 a" "btree_sorted h lo2 hi2 b" "bt_sized a" "bt_sized b"
    "merge_nodes a s b g = (c, g')"
  shows "bt_sized c \<and> bt_n a + bt_n b \<le> bt_n c \<and> bt_n c \<le> Suc (bt_n a + bt_n b)"
proof (cases h)
  case 0
  with assms show ?thesis by (auto split: bt_node.splits)
next
  case (Suc k)
  with assms obtain ak ac bk bc where n: "a = Node ak ac" "b = Node bk bc" by (auto split: bt_node.splits)
  then show ?thesis using assms(3-5) by (auto simp: n bt_sized_Node simp del: bt_sized.simps)
qed

lemma fix_sized:
  assumes "kids_ok (btree_sorted h) rank lo ks cs hi" "ks \<noteq> []" "i \<le> length ks"
    "\<forall>c\<in>set (take i cs @ drop (Suc i) cs). BT_MIN \<le> bt_n c \<and> bt_n c \<le> BT_MAX \<and> bt_sized c"
    "bt_sized (cs ! i)" "Suc (bt_n (cs ! i)) = BT_MIN" "bt_fix i ks cs g = (ks', cs', g')"
  shows "bt_sized (Node ks' cs') \<and> length ks' \<le> length ks \<and> length ks \<le> Suc (length ks')"
proof -
  have len: "length cs = Suc (length ks)" by (rule kids_ok_length[OF assms(1)])
  have at: "btree_sorted h (lo_at rank lo ks j) (hi_at rank ks hi j) (cs ! j)" if "j \<le> length ks" for j
    using kids_ok_at[OF assms(1) that] by blast
  have other: "BT_MIN \<le> bt_n (cs ! j) \<and> bt_n (cs ! j) \<le> BT_MAX \<and> bt_sized (cs ! j)"
    if "j \<le> length ks" "j \<noteq> i" for j
  proof -
    have "cs ! j \<in> set (take i cs @ drop (Suc i) cs)"
    proof (cases "j < i")
      case True
      then have "take i cs ! j = cs ! j" "j < length (take i cs)" using that len by auto
      then show ?thesis by (metis UnI1 nth_mem set_append)
    next
      case False
      then have "drop (Suc i) cs ! (j - Suc i) = cs ! j" "j - Suc i < length (drop (Suc i) cs)"
        using that len by auto
      then show ?thesis by (metis UnI2 nth_mem set_append)
    qed
    then show ?thesis using assms(4) by blast
  qed
  have rest: "\<forall>c\<in>set (take j cs @ drop (Suc (Suc j)) cs). BT_MIN \<le> bt_n c \<and> bt_n c \<le> BT_MAX \<and> bt_sized c"
    if "i = j \<or> i = Suc j" for j
  proof -
    have "set (take j cs @ drop (Suc (Suc j)) cs) \<subseteq> set (take i cs @ drop (Suc i) cs)"
      using that set_take_subset_set_take[of j i cs] set_drop_subset_set_drop[of "Suc i" "Suc (Suc j)" cs]
      by auto
    then show ?thesis using assms(4) by blast
  qed
  show ?thesis
  proof (cases "i > 0 \<and> bt_n (cs ! (i - 1)) > BT_MIN")
    case True
    define j where "j = i - 1"
    have j: "j < length ks" "i = Suc j" "Suc j < length cs" using True assms(3) len by (auto simp: j_def)
    obtain l s c where b: "borrow_left (cs ! j) (ks ! j) (cs ! Suc j) = (l, s, c)"
      by (metis prod_cases3)
    have "bt_sized l \<and> bt_sized c \<and> bt_n (cs ! j) = Suc (bt_n l) \<and> bt_n c = Suc (bt_n (cs ! Suc j))"
      using borrow_left_sized[OF at[of j] at[of "Suc j"] _ _ _ b] other[of j] assms(5) True j
      by (auto simp: j_def[symmetric])
    moreover have "(ks', cs') = (ks[j := s], take j cs @ l # c # drop (Suc (Suc j)) cs)"
      using assms(7) True b update_two[OF j(3)] by (auto simp: bt_fix_def j(2))
    ultimately show ?thesis
      using rest[of j] other[of j] j True assms(6)
      by (auto simp: bt_sized_Node simp del: bt_sized.simps)
  next
    case L: False
    show ?thesis
    proof (cases "i < length ks \<and> bt_n (cs ! (i + 1)) > BT_MIN")
      case True
      then have j: "i < length ks" "Suc i < length cs" using len by auto
      obtain c s r where b: "borrow_right (cs ! i) (ks ! i) (cs ! Suc i) = (c, s, r)"
        by (metis prod_cases3)
      have "bt_sized r \<and> bt_sized c \<and> bt_n (cs ! Suc i) = Suc (bt_n r) \<and> bt_n c = Suc (bt_n (cs ! i))"
        using borrow_right_sized[OF at[of i] at[of "Suc i"] _ _ _ b] other[of "Suc i"] assms(5) True j
        by auto
      moreover have "(ks', cs') = (ks[i := s], take i cs @ c # r # drop (Suc (Suc i)) cs)"
        using assms(7) True b update_two[OF j(2)] unfolding bt_fix_def if_not_P[OF L] by auto
      ultimately show ?thesis
        using rest[of i] other[of "Suc i"] j True assms(6)
        by (auto simp: bt_sized_Node simp del: bt_sized.simps)
    next
      case False
      define j where "j = (if i > 0 then i - 1 else i)"
      have j: "j < length ks" "i = j \<or> i = Suc j" using assms(2,3) by (cases ks; auto simp: j_def)+
      obtain a g1 where b: "merge_nodes (cs ! j) (ks ! j) (cs ! Suc j) g = (a, g1)" by fastforce
      have s: "bt_sized (cs ! j)" "bt_sized (cs ! Suc j)" "Suc (bt_n (cs ! j) + bt_n (cs ! Suc j)) = 2 * BT_MIN"
      proof -
        have "bt_n (cs ! j) = BT_MIN \<and> i = Suc j \<or> bt_n (cs ! Suc j) = BT_MIN \<and> i = j"
        proof (cases "i > 0")
          case True
          then have "i = Suc j" "j = i - 1" by (auto simp: j_def)
          moreover have "bt_n (cs ! j) \<le> BT_MIN" using L True by (auto simp: j_def)
          moreover have "BT_MIN \<le> bt_n (cs ! j)" using other[of j] j \<open>i = Suc j\<close> by auto
          ultimately show ?thesis by simp
        next
          case F: False
          then have "i = j" by (auto simp: j_def)
          moreover have "bt_n (cs ! Suc j) \<le> BT_MIN" using False \<open>i = j\<close> j by auto
          moreover have "BT_MIN \<le> bt_n (cs ! Suc j)" using other[of "Suc j"] j \<open>i = j\<close> by auto
          ultimately show ?thesis by simp
        qed
        then show "bt_sized (cs ! j)" "bt_sized (cs ! Suc j)"
          "Suc (bt_n (cs ! j) + bt_n (cs ! Suc j)) = 2 * BT_MIN"
          using assms(5,6) other[of j] other[of "Suc j"] j by auto
      qed
      have "bt_sized a \<and> bt_n (cs ! j) + bt_n (cs ! Suc j) \<le> bt_n a \<and>
          bt_n a \<le> Suc (bt_n (cs ! j) + bt_n (cs ! Suc j))"
        using merge_sized[OF at[of j] at[of "Suc j"] s(1,2) b] j by simp
      then have "bt_sized a \<and> BT_MIN \<le> bt_n a \<and> bt_n a \<le> BT_MAX"
        using s(3) by (auto simp: BT_MIN_def BT_MAX_def)
      moreover have "ks' = take j ks @ drop (Suc j) ks" "cs' = take j cs @ a # drop (Suc (Suc j)) cs"
        using assms(7) b unfolding bt_fix_def if_not_P[OF L] if_not_P[OF False] j_def[symmetric]
        by (simp_all add: Let_def)
      ultimately show ?thesis
        using rest[OF j(2)] j(1) by (auto simp: bt_sized_Node simp del: bt_sized.simps)
    qed
  qed
qed

lemma delete_sized:
  assumes "btree_sorted h lo hi t" "valid key" "above lo (rank key)" "below hi (rank key)"
    "bt_sized t" "case t of Node ks cs \<Rightarrow> ks \<noteq> [] | Leaf a es \<Rightarrow> True"
    "bt_delete compare key g t = (found, t', g')"
  shows "bt_sized t' \<and> bt_n t' \<le> bt_n t \<and> bt_n t \<le> Suc (bt_n t')"
  using assms
proof (induction h arbitrary: lo hi t t' found g')
  case 0
  from 0(1) obtain a es where "t = Leaf a es" by (cases t) auto
  then show ?case using 0(7) by (auto simp: Let_def split: if_splits)
next
  case (Suc h)
  from Suc.prems(1) obtain ks cs where t: "t = Node ks cs" by (cases t) auto
  let ?i = "bt_upper compare ks key"
  note sc = search_child[OF Suc.prems(1)[unfolded t] Suc.prems(2-4)]
  have kids: "\<forall>c\<in>set cs. BT_MIN \<le> bt_n c \<and> bt_n c \<le> BT_MAX \<and> bt_sized c"
    using Suc.prems(5) by (simp only: t bt_sized_Node)
  have c: "cs ! ?i \<in> set cs" using sc(2) by simp
  then have sz: "bt_sized (cs ! ?i)" "BT_MIN \<le> bt_n (cs ! ?i)" "bt_n (cs ! ?i) \<le> BT_MAX"
    using kids by auto
  then have ne: "case cs ! ?i of Node ks cs \<Rightarrow> ks \<noteq> [] | Leaf a es \<Rightarrow> True"
    by (cases "cs ! ?i") (auto simp: BT_MIN_def BT_MAX_def)
  obtain fd c' g1 where r: "bt_delete compare key g (cs ! ?i) = (fd, c', g1)" by (metis prod_cases3)
  note IH = Suc.IH[OF sc(5) Suc.prems(2) sc(6,7) sz(1) ne r]
  have c': "btree_sorted h (lo_at rank lo ks ?i) (hi_at rank ks hi ?i) c'"
    using delete_sorted[OF sc(5) Suc.prems(2) sc(6,7) sz(1) ne r] by blast
  have k: "kids_ok (btree_sorted h) rank lo ks (cs[?i := c']) hi"
    by (rule kids_ok_replace[OF sc(3,1) c'])
  show ?case
  proof (cases fd)
    case False
    then have "bt_delete compare key g t = (False, t, g)" using sc(2) r by (simp add: t Let_def)
    then show ?thesis using Suc.prems(5,7) by simp
  next
    case True
    show ?thesis
    proof (cases "bt_n c' < BT_MIN")
      case True
      obtain ks' cs' g2 where f: "bt_fix ?i ks (cs[?i := c']) g1 = (ks', cs', g2)" by (metis prod_cases3)
      have "bt_delete compare key g t = (True, Node ks' cs', g2)"
        using sc(2) r \<open>fd\<close> True f by (simp add: t Let_def)
      moreover have "ks \<noteq> []" using Suc.prems(6) by (simp add: t)
      moreover have "\<forall>c\<in>set (take ?i (cs[?i := c']) @ drop (Suc ?i) (cs[?i := c'])).
          BT_MIN \<le> bt_n c \<and> bt_n c \<le> BT_MAX \<and> bt_sized c"
        using kids by (auto dest: in_set_takeD in_set_dropD)
      moreover have "bt_sized (cs[?i := c'] ! ?i)" "Suc (bt_n (cs[?i := c'] ! ?i)) = BT_MIN"
        using IH sz(2) True sc(2) by auto
      ultimately show ?thesis
        using fix_sized[OF k _ sc(1) _ _ _ f] Suc.prems(7) by (auto simp: t)
    next
      case False
      then have "bt_delete compare key g t = (True, Node ks (cs[?i := c']), g1)"
        using sc(2) r \<open>fd\<close> by (simp add: t Let_def)
      moreover have "bt_sized (Node ks (cs[?i := c']))"
        using IH sz(3) False kids by (auto simp: bt_sized_Node simp del: bt_sized.simps
          dest!: subsetD[OF set_update_subset_insert])
      ultimately show ?thesis using Suc.prems(7) by (auto simp: t)
    qed
  qed
qed

end

end
