(* ===== verification/BTreeLinks.thy ===== *)
theory BTreeLinks
  imports BTreeMap
begin

text \<open>
  The leaves of a B+ tree form a doubly linked list in key order, and insertions and deletions
  keep it so. Positions found through the links are therefore positions in the sorted list of all
  entries.
\<close>

section \<open>Leaves and links\<close>

primrec bt_leaves :: "('k, 'v) bt_node \<Rightarrow> (nat \<times> ('k \<times> 'v) list) list" where
  "bt_leaves (Leaf a es) = [(a, es)]"
| "bt_leaves (Node ks cs) = concat (map bt_leaves cs)"

definition bt_ids :: "('k, 'v) bt_node \<Rightarrow> nat list" where
  "bt_ids t = map fst (bt_leaves t)"

lemma bt_ids_simps [simp]:
  "bt_ids (Leaf a es) = [a]" "bt_ids (Node ks cs) = concat (map bt_ids cs)"
  by (simp_all add: bt_ids_def[abs_def] map_concat comp_def)

lemma bt_entries_leaves: "bt_entries t = concat (map snd (bt_leaves t))"
proof (induction t)
  case (Node ks cs)
  then show ?case by (induction cs) auto
qed simp

fun chain :: "bt_links \<Rightarrow> nat option \<Rightarrow> nat list \<Rightarrow> bool" where
  "chain g p [] \<longleftrightarrow> True"
| "chain g p (a # as) \<longleftrightarrow>
     bt_prev g a = p \<and> bt_next g a = (case as of [] \<Rightarrow> None | b # _ \<Rightarrow> Some b) \<and> chain g (Some a) as"

definition linked :: "bt_links \<Rightarrow> nat list \<Rightarrow> bool" where
  "linked g as \<longleftrightarrow> distinct as \<and> (\<forall>a\<in>set as. a < bt_fresh g) \<and> chain g None as"

text \<open>The links of the leaves of one part of the list, given its neighbours on both sides.\<close>

fun segment :: "bt_links \<Rightarrow> nat option \<Rightarrow> nat list \<Rightarrow> nat option \<Rightarrow> bool" where
  "segment g p [] n \<longleftrightarrow> True"
| "segment g p (a # as) n \<longleftrightarrow>
     bt_prev g a = p \<and> bt_next g a = (case as of [] \<Rightarrow> n | b # _ \<Rightarrow> Some b) \<and> segment g (Some a) as n"

definition first_or :: "'a list \<Rightarrow> 'a option \<Rightarrow> 'a option" where
  "first_or xs n = (case xs of [] \<Rightarrow> n | x # _ \<Rightarrow> Some x)"

definition last_or :: "'a option \<Rightarrow> 'a list \<Rightarrow> 'a option" where
  "last_or p xs = (if xs = [] then p else Some (last xs))"

lemma or_simps [simp]:
  "first_or [] n = n" "first_or (x # xs) n = Some x" "last_or p [] = p"
  "last_or p (x # xs) = last_or (Some x) xs"
  by (auto simp: first_or_def last_or_def)

lemma last_or_append [simp]: "last_or p (xs @ ys) = last_or (last_or p xs) ys"
  by (induction xs arbitrary: p) auto

lemma chain_segment: "chain g p as \<longleftrightarrow> segment g p as None"
  by (induction as arbitrary: p) auto

lemma segment_append:
  "segment g p (xs @ ys) n \<longleftrightarrow> segment g p xs (first_or ys n) \<and> segment g (last_or p xs) ys n"
  by (induction xs arbitrary: p) (auto simp: first_or_def split: list.split)

lemma segment_cong:
  "(\<forall>a\<in>set as. bt_next g' a = bt_next g a \<and> bt_prev g' a = bt_prev g a) \<Longrightarrow>
   segment g' p as n = segment g p as n"
  by (induction as arbitrary: p) auto

text \<open>Only the last element's \<open>next\<close>, or only the first element's \<open>prev\<close>, differs.\<close>

lemma segment_snoc:
  "segment g p (xs @ [a]) n \<longleftrightarrow>
   segment g p xs (Some a) \<and> bt_prev g a = last_or p xs \<and> bt_next g a = n"
  by (auto simp: segment_append)

section \<open>Linking and unlinking a leaf\<close>

lemma linked_link_after:
  assumes "linked g (xs @ a # ys)"
  shows "linked (link_after a g) (xs @ a # bt_fresh g # ys)"
proof -
  let ?r = "bt_fresh g" and ?g = "link_after a g"
  have d: "distinct (xs @ a # ys)" and lt: "\<forall>x\<in>set (xs @ a # ys). x < ?r"
    and s: "segment g None (xs @ a # ys) None"
    using assms by (auto simp: linked_def chain_segment)
  have r: "?r \<notin> set (xs @ a # ys)" using lt by blast
  have a: "bt_prev g a = last_or None xs" "bt_next g a = first_or ys None"
    "segment g None xs (Some a)" "segment g (Some a) ys None"
    using s by (auto simp: segment_append first_or_def)
  have nx: "bt_next ?g = (bt_next g)(?r := first_or ys None, a := Some ?r)"
    by (simp add: link_after_def Let_def a)
  have pv: "bt_prev ?g = (case first_or ys None of Some m \<Rightarrow> (bt_prev g)(?r := Some a, m := Some ?r)
      | None \<Rightarrow> (bt_prev g)(?r := Some a))"
    by (simp add: link_after_def Let_def a)
  have hd: "m \<in> set ys" if "first_or ys None = Some m" for m using that by (cases ys) auto
  have "segment ?g None xs (Some a)"
  proof (subst segment_cong[of xs _ g])
    show "\<forall>x\<in>set xs. bt_next ?g x = bt_next g x \<and> bt_prev ?g x = bt_prev g x"
      using d r hd by (auto simp: nx pv split: option.split)
  qed (rule a(3))
  moreover have "segment ?g (Some ?r) ys None"
  proof (cases ys)
    case (Cons y zs)
    have "segment ?g (Some y) zs None"
    proof (subst segment_cong[of zs _ g])
      show "\<forall>x\<in>set zs. bt_next ?g x = bt_next g x \<and> bt_prev ?g x = bt_prev g x"
        using d r by (auto simp: nx pv Cons)
    qed (use a(4) Cons in simp)
    then show ?thesis using a(4) d r by (auto simp: nx pv Cons)
  qed simp
  moreover have "bt_prev ?g a = last_or None xs" "bt_next ?g a = Some ?r" "bt_prev ?g ?r = Some a"
    "bt_next ?g ?r = first_or ys None"
    using a(1) d r hd by (auto simp: nx pv split: option.split)
  ultimately have "segment ?g None (xs @ a # ?r # ys) None"
    by (simp add: segment_append first_or_def)
  moreover have "bt_fresh ?g = Suc ?r" by (simp add: link_after_def Let_def)
  ultimately show ?thesis
    using d r lt by (auto simp: linked_def chain_segment less_Suc_eq)
qed

lemma linked_unlink_after:
  assumes "linked g (xs @ a # b # ys)"
  shows "linked (unlink_after a b g) (xs @ a # ys)"
proof -
  let ?g = "unlink_after a b g"
  have d: "distinct (xs @ a # b # ys)" and s: "segment g None (xs @ a # b # ys) None"
    using assms by (auto simp: linked_def chain_segment)
  have a: "bt_prev g a = last_or None xs" "bt_next g b = first_or ys None"
    "segment g None xs (Some a)" "segment g (Some b) ys None"
    using s by (auto simp: segment_append first_or_def)
  have nx: "bt_next ?g = (bt_next g)(a := first_or ys None)"
    and pv: "bt_prev ?g = (case first_or ys None of Some m \<Rightarrow> (bt_prev g)(m := Some a) | None \<Rightarrow> bt_prev g)"
    by (auto simp: unlink_after_def a)
  have hd: "m \<in> set ys" if "first_or ys None = Some m" for m using that by (cases ys) auto
  have "segment ?g None xs (Some a)"
  proof (subst segment_cong[of xs _ g])
    show "\<forall>x\<in>set xs. bt_next ?g x = bt_next g x \<and> bt_prev ?g x = bt_prev g x"
      using d hd by (auto simp: nx pv split: option.split)
  qed (rule a(3))
  moreover have "segment ?g (Some a) ys None"
  proof (cases ys)
    case (Cons y zs)
    have "segment ?g (Some y) zs None"
    proof (subst segment_cong[of zs _ g])
      show "\<forall>x\<in>set zs. bt_next ?g x = bt_next g x \<and> bt_prev ?g x = bt_prev g x"
        using d by (auto simp: nx pv Cons)
    qed (use a(4) Cons in simp)
    then show ?thesis using a(4) d by (auto simp: nx pv Cons)
  qed simp
  moreover have "bt_prev ?g a = last_or None xs" "bt_next ?g a = first_or ys None"
    using a(1) d hd by (auto simp: nx pv split: option.split)
  ultimately have "segment ?g None (xs @ a # ys) None"
    by (simp add: segment_append first_or_def)
  moreover have "bt_fresh ?g = bt_fresh g" by (simp add: unlink_after_def)
  ultimately show ?thesis using assms d by (auto simp: linked_def chain_segment)
qed

section \<open>Insertion and deletion keep the leaves linked\<close>

context key_order
begin

lemma concat_ids_focus:
  "i < length cs \<Longrightarrow> concat (map bt_ids cs) =
    concat (map bt_ids (take i cs)) @ bt_ids (cs ! i) @ concat (map bt_ids (drop (Suc i) cs))"
  by (rule concat_focus)

lemma insert_linked:
  assumes "btree_sorted h lo hi t" "valid key" "above lo (rank key)" "below hi (rank key)"
    "bt_insert compare key v g t = (t', split, added, g')" "linked g (pre @ bt_ids t @ post)"
  shows "linked g' (pre @ bt_ids t' @ (case split of None \<Rightarrow> [] | Some (sep, r) \<Rightarrow> bt_ids r) @ post)"
  using assms
proof (induction h arbitrary: lo hi t t' split added g' pre post)
  case 0
  from 0(1) obtain a es where t: "t = Leaf a es" by (cases t) auto
  show ?case
    using 0(5,6) linked_link_after[of g pre a post] by (auto simp: t Let_def split: if_splits)
next
  case (Suc h)
  from Suc.prems(1) obtain ks cs where t: "t = Node ks cs" by (cases t) auto
  let ?i = "bt_upper compare ks key"
  let ?pre = "concat (map bt_ids (take ?i cs))" and ?post = "concat (map bt_ids (drop (Suc ?i) cs))"
  note sc = search_child[OF Suc.prems(1)[unfolded t] Suc.prems(2-4)]
  obtain c' sp ad g1 where r: "bt_insert compare key v g (cs ! ?i) = (c', sp, ad, g1)"
    by (metis prod_cases4)
  have "linked g ((pre @ ?pre) @ bt_ids (cs ! ?i) @ (?post @ post))"
    using Suc.prems(6) concat_ids_focus[OF sc(2)] by (simp add: t)
  from Suc.IH[OF sc(5) Suc.prems(2) sc(6,7) r this]
  have IH: "linked g1 (pre @ ?pre @ bt_ids c' @ (case sp of None \<Rightarrow> [] | Some (sep, r) \<Rightarrow> bt_ids r) @ ?post @ post)"
    by simp
  show ?case
  proof (cases sp)
    case None
    then have "bt_insert compare key v g t = (Node ks (cs[?i := c']), None, ad, g1)"
      using sc(2) r by (simp add: t Let_def)
    then show ?thesis using Suc.prems(5) IH None sc(2) by (auto simp: upd_conv_take_nth_drop)
  next
    case (Some p)
    then obtain sep rt where sp: "sp = Some (sep, rt)" by (cases p) auto
    let ?ks = "take ?i ks @ sep # drop ?i ks" and ?cs = "take ?i cs @ c' # rt # drop (Suc ?i) cs"
    let ?h = "length ?ks div 2"
    have all: "concat (map bt_ids ?cs) = ?pre @ bt_ids c' @ bt_ids rt @ ?post" by simp
    have halves: "concat (map bt_ids (take (Suc ?h) ?cs)) @ concat (map bt_ids (drop (Suc ?h) ?cs)) =
      ?pre @ bt_ids c' @ bt_ids rt @ ?post"
      unfolding all[symmetric] by (simp only: append_take_drop_id flip: concat_append map_append)
    have "bt_insert compare key v g t = (if length ?ks \<le> BT_MAX then (Node ?ks ?cs, None, ad, g1)
        else (Node (take ?h ?ks) (take (Suc ?h) ?cs),
          Some (?ks ! ?h, Node (drop (Suc ?h) ?ks) (drop (Suc ?h) ?cs)), ad, g1))"
      using sc(2) r sp by (simp add: t Let_def del: take_append drop_append length_append)
    then have "bt_ids t' @ (case split of None \<Rightarrow> [] | Some (sep, r) \<Rightarrow> bt_ids r) =
        ?pre @ bt_ids c' @ bt_ids rt @ ?post" "g' = g1"
      using Suc.prems(5) all halves
      by (auto simp del: take_append drop_append length_append split: if_splits)
    then show ?thesis using IH sp by (metis (no_types, lifting) append_assoc case_prod_conv option.case(2))
  qed
qed

lemma borrow_left_ids:
  assumes "btree_sorted h lo1 hi1 l" "btree_sorted h lo2 hi2 c" "0 < bt_n l" "borrow_left l s c = (l', s', c')"
  shows "bt_ids l' @ bt_ids c' = bt_ids l @ bt_ids c"
proof (cases h)
  case 0
  with assms show ?thesis by (auto split: bt_node.splits)
next
  case (Suc k)
  with assms obtain lk lc ck cc where n: "l = Node lk lc" "c = Node ck cc" by (auto split: bt_node.splits)
  have "length lc = Suc (length lk)" using assms(1) kids_ok_length by (auto simp: n Suc)
  then obtain vs v where "lc = vs @ [v]" by (cases lc rule: rev_cases) auto
  then show ?thesis using assms(4) by (auto simp: n)
qed

lemma borrow_right_ids:
  assumes "btree_sorted h lo1 hi1 c" "btree_sorted h lo2 hi2 r" "0 < bt_n r" "borrow_right c s r = (c', s', r')"
  shows "bt_ids c' @ bt_ids r' = bt_ids c @ bt_ids r"
proof (cases h)
  case 0
  with assms show ?thesis by (auto split: bt_node.splits)
next
  case (Suc k)
  with assms obtain ck cc rk rc where n: "c = Node ck cc" "r = Node rk rc" by (auto split: bt_node.splits)
  have "length rc = Suc (length rk)" using assms(2) kids_ok_length by (auto simp: n Suc)
  then obtain v vs where "rc = v # vs" by (cases rc) auto
  then show ?thesis using assms(4) by (auto simp: n)
qed

lemma merge_linked:
  assumes "btree_sorted h lo1 hi1 a" "btree_sorted h lo2 hi2 b" "merge_nodes a s b g = (c, g')"
    "linked g (pre @ (bt_ids a @ bt_ids b) @ post)"
  shows "linked g' (pre @ bt_ids c @ post)"
proof (cases h)
  case 0
  with assms obtain x xs y ys where "a = Leaf x xs" "b = Leaf y ys" by (auto split: bt_node.splits)
  then show ?thesis using assms(3,4) linked_unlink_after[of g pre x y post] by auto
next
  case (Suc k)
  with assms obtain ak ac bk bc where n: "a = Node ak ac" "b = Node bk bc" by (auto split: bt_node.splits)
  then show ?thesis using assms(3,4) by auto
qed

lemma fix_linked:
  assumes "kids_ok (btree_sorted h) rank lo ks cs hi" "ks \<noteq> []" "i \<le> length ks"
    "bt_fix i ks cs g = (ks', cs', g')" "linked g (pre @ concat (map bt_ids cs) @ post)"
  shows "linked g' (pre @ concat (map bt_ids cs') @ post)"
proof -
  have len: "length cs = Suc (length ks)" by (rule kids_ok_length[OF assms(1)])
  have at: "btree_sorted h (lo_at rank lo ks j) (hi_at rank ks hi j) (cs ! j)" if "j \<le> length ks" for j
    using kids_ok_at[OF assms(1) that] by blast
  have same: "concat (map bt_ids (cs[j := a, Suc j := b])) = concat (map bt_ids cs)"
    if "Suc j < length cs" "bt_ids a @ bt_ids b = bt_ids (cs ! j) @ bt_ids (cs ! Suc j)" for j a b
    using that(2) unfolding update_two[OF that(1)] concat_two[OF that(1)] by simp
  show ?thesis
  proof (cases "i > 0 \<and> bt_n (cs ! (i - 1)) > BT_MIN")
    case True
    define j where "j = i - 1"
    have j: "i = Suc j" "Suc j < length cs" "j < length ks" using True assms(3) len by (auto simp: j_def)
    obtain l s c where b: "borrow_left (cs ! j) (ks ! j) (cs ! Suc j) = (l, s, c)" by (metis prod_cases3)
    have "bt_ids l @ bt_ids c = bt_ids (cs ! j) @ bt_ids (cs ! Suc j)"
      using borrow_left_ids[OF at[of j] at[of "Suc j"] _ b] True j by (simp add: j_def[symmetric])
    then show ?thesis using same[OF j(2)] assms(4,5) True b by (auto simp: bt_fix_def j(1))
  next
    case L: False
    show ?thesis
    proof (cases "i < length ks \<and> bt_n (cs ! (i + 1)) > BT_MIN")
      case True
      then have j: "Suc i < length cs" using len by auto
      obtain c s r where b: "borrow_right (cs ! i) (ks ! i) (cs ! Suc i) = (c, s, r)" by (metis prod_cases3)
      have "bt_ids c @ bt_ids r = bt_ids (cs ! i) @ bt_ids (cs ! Suc i)"
        using borrow_right_ids[OF at[of i] at[of "Suc i"] _ b] True by simp
      then show ?thesis using same[OF j] assms(4,5) True b unfolding bt_fix_def if_not_P[OF L] by auto
    next
      case False
      define j where "j = (if i > 0 then i - 1 else i)"
      have j: "j < length ks" "Suc j < length cs" using assms(2,3) len by (cases ks; auto simp: j_def)+
      obtain a g1 where b: "merge_nodes (cs ! j) (ks ! j) (cs ! Suc j) g = (a, g1)" by fastforce
      have r: "cs' = take j cs @ a # drop (Suc (Suc j)) cs" "g' = g1"
        using assms(4) b unfolding bt_fix_def if_not_P[OF L] if_not_P[OF False] j_def[symmetric]
        by (simp_all add: Let_def)
      have "linked g ((pre @ concat (map bt_ids (take j cs))) @ (bt_ids (cs ! j) @ bt_ids (cs ! Suc j)) @
          (concat (map bt_ids (drop (Suc (Suc j)) cs)) @ post))"
        using assms(5) unfolding concat_two[OF j(2)] by simp
      from merge_linked[OF at[of j] at[of "Suc j"] b this] j show ?thesis by (simp add: r)
    qed
  qed
qed

lemma delete_linked:
  assumes "btree_sorted h lo hi t" "valid key" "above lo (rank key)" "below hi (rank key)"
    "bt_sized t" "case t of Node ks cs \<Rightarrow> ks \<noteq> [] | Leaf a es \<Rightarrow> True"
    "bt_delete compare key g t = (found, t', g')" "linked g (pre @ bt_ids t @ post)"
  shows "linked g' (pre @ bt_ids t' @ post)"
  using assms
proof (induction h arbitrary: lo hi t t' found g' pre post)
  case 0
  from 0(1) obtain a es where "t = Leaf a es" by (cases t) auto
  then show ?case using 0(7,8) by (auto simp: Let_def split: if_splits)
next
  case (Suc h)
  from Suc.prems(1) obtain ks cs where t: "t = Node ks cs" by (cases t) auto
  let ?i = "bt_upper compare ks key"
  let ?pre = "concat (map bt_ids (take ?i cs))" and ?post = "concat (map bt_ids (drop (Suc ?i) cs))"
  note sc = search_child[OF Suc.prems(1)[unfolded t] Suc.prems(2-4)]
  have sz: "bt_sized (cs ! ?i)" "BT_MIN \<le> bt_n (cs ! ?i)"
    using Suc.prems(5) sc(2) by (auto simp: t bt_sized_Node simp del: bt_sized.simps)
  then have ne: "case cs ! ?i of Node ks cs \<Rightarrow> ks \<noteq> [] | Leaf a es \<Rightarrow> True"
    by (cases "cs ! ?i") (auto simp: BT_MIN_def BT_MAX_def)
  obtain fd c' g1 where r: "bt_delete compare key g (cs ! ?i) = (fd, c', g1)" by (metis prod_cases3)
  have "linked g ((pre @ ?pre) @ bt_ids (cs ! ?i) @ (?post @ post))"
    using Suc.prems(8) concat_ids_focus[OF sc(2)] by (simp add: t)
  from Suc.IH[OF sc(5) Suc.prems(2) sc(6,7) sz(1) ne r this]
  have IH: "linked g1 (pre @ concat (map bt_ids (cs[?i := c'])) @ post)"
    using sc(2) by (simp add: upd_conv_take_nth_drop)
  have "btree_sorted h (lo_at rank lo ks ?i) (hi_at rank ks hi ?i) c'"
    using delete_sorted[OF sc(5) Suc.prems(2) sc(6,7) sz(1) ne r] by blast
  then have k: "kids_ok (btree_sorted h) rank lo ks (cs[?i := c']) hi"
    by (rule kids_ok_replace[OF sc(3,1)])
  obtain ks' cs' g2 where f: "bt_fix ?i ks (cs[?i := c']) g1 = (ks', cs', g2)" by (metis prod_cases3)
  have "ks \<noteq> []" using Suc.prems(6) by (simp add: t)
  from fix_linked[OF k this sc(1) f IH] have "linked g2 (pre @ concat (map bt_ids cs') @ post)" .
  moreover have "bt_delete compare key g t =
      (if \<not> fd then (False, t, g)
       else if bt_n c' < BT_MIN then (True, Node ks' cs', g2) else (True, Node ks (cs[?i := c']), g1))"
    using sc(2) r f by (simp add: t Let_def)
  ultimately show ?case using Suc.prems(7,8) IH by (auto split: if_splits)
qed

end

lemma length_del_list:
  "sorted_wrt (<) (map (rank \<circ> fst) es) \<Longrightarrow> has_key rank key es \<Longrightarrow>
   length es = Suc (length (del_list rank key es))"
proof (induction es)
  case (Cons e es)
  have "filter (\<lambda>x. rank (fst x) \<noteq> rank key) es = es" if "rank (fst e) = rank key"
    using Cons.prems(1) that by (force simp: filter_id_conv)
  then show ?case using Cons by (auto simp: has_key_def del_list_def)
qed (simp add: has_key_def)

section \<open>The map\<close>

definition bt_list :: "('k, 'v) ussr_btree \<Rightarrow> ('k \<times> 'v) list" where
  "bt_list tree = (case bt_root tree of None \<Rightarrow> [] | Some t \<Rightarrow> bt_entries t)"

text \<open>
  The invariant of a tree: search order and equal depth, nodes at least half full (the root at
  least one key), the count, the leaf list.
\<close>

definition bt_ok :: "('k \<Rightarrow> bool) \<Rightarrow> ('k \<Rightarrow> 'r::linorder) \<Rightarrow> ('k, 'v) ussr_btree \<Rightarrow> bool" where
  "bt_ok valid rank tree \<longleftrightarrow> bt_count tree = length (bt_list tree) \<and>
     (case bt_root tree of None \<Rightarrow> True
      | Some t \<Rightarrow> (\<exists>h. bt_sorted valid rank h None None t) \<and> bt_sized t \<and> 1 \<le> bt_n t \<and>
          bt_n t \<le> BT_MAX \<and> linked (bt_heap tree) (bt_ids t))"

lemma bt_ok_create: "bt_ok valid rank ussr_btree_create"
  by (simp add: bt_ok_def ussr_btree_create_def bt_list_def)

context key_order
begin

lemma bt_list_sorted:
  "bt_ok valid rank tree \<Longrightarrow> leaf_ok valid rank None None (bt_list tree)"
  by (auto simp: bt_ok_def bt_list_def leaf_ok_def[of valid rank None None "[]"] dest: sorted_entries
    split: option.splits)

lemma get_refines:
  "bt_ok valid rank tree \<Longrightarrow> valid key \<Longrightarrow>
   ussr_btree_get compare tree key = lookup_list rank key (bt_list tree)"
proof (cases "bt_root tree")
  case None
  then show ?thesis by (simp add: ussr_btree_get_def bt_list_def lookup_list_def)
next
  case (Some t)
  assume "bt_ok valid rank tree" "valid key"
  then obtain h where "btree_sorted h None None t" using Some by (auto simp: bt_ok_def)
  from lookup_entries[OF this \<open>valid key\<close>, of "bt_count tree" "bt_heap tree"] show ?thesis
    using Some by (simp add: bt_list_def ussr_btree_get_def)
qed

lemma put_refines:
  assumes ok: "bt_ok valid rank tree" and key: "valid key"
  shows "bt_ok valid rank (bt_put compare key v tree) \<and>
    bt_list (bt_put compare key v tree) = upd_list rank key v (bt_list tree)"
proof -
  define r where "r = (case bt_root tree of Some root \<Rightarrow> (root, bt_heap tree)
    | None \<Rightarrow> (Leaf (bt_fresh (bt_heap tree)) [],
        bt_heap tree\<lparr>bt_next := (bt_next (bt_heap tree))(bt_fresh (bt_heap tree) := None),
          bt_prev := (bt_prev (bt_heap tree))(bt_fresh (bt_heap tree) := None),
          bt_fresh := bt_fresh (bt_heap tree) + 1\<rparr>))"
  obtain t g where tg: "r = (t, g)" by fastforce
  have "(\<exists>h. btree_sorted h None None t) \<and> bt_sized t \<and> bt_n t \<le> BT_MAX \<and> linked g (bt_ids t) \<and>
    bt_entries t = bt_list tree \<and> (bt_root tree \<noteq> None \<longrightarrow> 1 \<le> bt_n t)"
  proof (cases "bt_root tree")
    case None
    then have t: "t = Leaf (bt_fresh (bt_heap tree)) []" using tg by (simp add: r_def)
    have "btree_sorted 0 None None t" by (simp add: t leaf_ok_def)
    moreover have "linked g (bt_ids t)" using tg None by (auto simp: t r_def linked_def)
    moreover have "bt_sized t" "bt_n t \<le> BT_MAX" "bt_entries t = bt_list tree"
      using None by (auto simp: t bt_list_def)
    ultimately show ?thesis using None by blast
  next
    case (Some root)
    then have "t = root" "g = bt_heap tree" using tg by (simp_all add: r_def)
    then show ?thesis using ok Some by (auto simp: bt_ok_def bt_list_def)
  qed
  then have s: "\<exists>h. btree_sorted h None None t" "bt_sized t" "bt_n t \<le> BT_MAX" "linked g (bt_ids t)"
    "bt_entries t = bt_list tree" "bt_root tree \<noteq> None \<longrightarrow> 1 \<le> bt_n t" by auto
  from s(1) obtain h where h: "btree_sorted h None None t" ..
  obtain t' sp ad g' where i: "bt_insert compare key v g t = (t', sp, ad, g')" by (metis prod_cases4)
  have p: "bt_put compare key v tree =
      \<lparr>bt_root = Some (case sp of None \<Rightarrow> t' | Some (sep, r) \<Rightarrow> Node [sep] [t', r]),
       bt_count = (if ad then bt_count tree + 1 else bt_count tree), bt_heap = g'\<rparr>"
    using i tg unfolding r_def by (cases "bt_root tree") (auto simp: bt_put_def Let_def)
  note so = insert_sorted[OF h key _ _ i] and sz = insert_sized[OF h key _ _ s(2,3) i]
  have lk: "linked g' (bt_ids t' @ (case sp of None \<Rightarrow> [] | Some (sep, r) \<Rightarrow> bt_ids r))"
    using insert_linked[OF h key _ _ i, of "[]" "[]"] s(4) by simp
  have "bt_count tree = length (bt_list tree)" using ok by (simp add: bt_ok_def)
  then have cnt: "(if ad then bt_count tree + 1 else bt_count tree) = length (upd_list rank key v (bt_list tree))"
    using so length_upd_list[of rank "bt_list tree" key v] bt_list_sorted[OF ok] s(5)
    by (auto simp: leaf_ok_def)
  show ?thesis
  proof (cases sp)
    case None
    have "1 \<le> bt_n t'"
    proof (cases "bt_root tree")
      case R: None
      then have "t = Leaf (bt_fresh (bt_heap tree)) []" using tg by (simp add: r_def)
      then show ?thesis using i None by (auto simp: Let_def bt_lower_def bt_bisect.simps BT_MAX_def)
    next
      case (Some root)
      then show ?thesis using s(6) sz None by auto
    qed
    then show ?thesis using None so sz lk cnt s(5) by (auto simp: p bt_ok_def bt_list_def inserted_def)
  next
    case (Some q)
    then obtain sep rt where q: "sp = Some (sep, rt)" by (cases q) auto
    have "btree_sorted (Suc h) None None (Node [sep] [t', rt])" using so q by (simp add: inserted_def)
    moreover have "bt_entries (Node [sep] [t', rt]) = upd_list rank key v (bt_list tree)"
      using so q s(5) by (simp add: inserted_def)
    moreover have "bt_sized (Node [sep] [t', rt])" using sz q by (simp add: BT_MAX_def)
    ultimately show ?thesis
      using q lk cnt by (auto simp: p bt_ok_def bt_list_def BT_MAX_def simp del: bt_sorted.simps bt_sized.simps)
  qed
qed

lemma delete_refines:
  assumes ok: "bt_ok valid rank tree" and key: "valid key" and r: "bt_remove compare key tree = (found, tree')"
  shows "bt_ok valid rank tree' \<and> bt_list tree' = del_list rank key (bt_list tree) \<and>
    (found \<longleftrightarrow> has_key rank key (bt_list tree))"
proof (cases "bt_root tree")
  case None
  then show ?thesis using r ok by (auto simp: bt_remove_def bt_list_def del_list_def has_key_def)
next
  case (Some t)
  with ok obtain h where h: "btree_sorted h None None t" and sz: "bt_sized t" "1 \<le> bt_n t" "bt_n t \<le> BT_MAX"
    and lk: "linked (bt_heap tree) (bt_ids t)" and cnt: "bt_count tree = length (bt_entries t)"
    by (auto simp: bt_ok_def bt_list_def)
  have e: "bt_list tree = bt_entries t" using Some by (simp add: bt_list_def)
  have ne: "case t of Node ks cs \<Rightarrow> ks \<noteq> [] | Leaf a es \<Rightarrow> True" using sz(2) by (cases t) auto
  obtain fd t' g' where d: "bt_delete compare key (bt_heap tree) t = (fd, t', g')" by (metis prod_cases3)
  note so = delete_sorted[OF h key _ _ sz(1) ne d] and ds = delete_sized[OF h key _ _ sz(1) ne d]
  have lk': "linked g' (bt_ids t')"
    using delete_linked[OF h key _ _ sz(1) ne d, of "[]" "[]"] lk by simp
  show ?thesis
  proof (cases fd)
    case False
    then have "\<not> has_key rank key (bt_list tree)" using so e by simp
    then have "del_list rank key (bt_list tree) = bt_list tree"
      by (force simp: has_key_def del_list_def filter_id_conv)
    then show ?thesis
      using r ok d Some False \<open>\<not> has_key rank key (bt_list tree)\<close> by (auto simp: bt_remove_def)
  next
    case True
    have len: "bt_count tree - 1 = length (bt_entries t')"
    proof -
      have s: "leaf_ok valid rank None None (bt_entries t)" using sorted_entries[OF h] .
      have "has_key rank key (bt_entries t)" using so True by simp
      then have "length (bt_entries t) = Suc (length (del_list rank key (bt_entries t)))"
        using s by (intro length_del_list) (auto simp: leaf_ok_def)
      then show ?thesis using so cnt by simp
    qed
    show ?thesis
    proof (cases t')
      case (Leaf a es)
      have "tree' = \<lparr>bt_root = (if es = [] then None else Some t'), bt_count = bt_count tree - 1, bt_heap = g'\<rparr>"
        and "found" using r Some d True Leaf by (auto simp: bt_remove_def)
      moreover have de: "es = del_list rank key (bt_list tree)" using so Leaf e by simp
      moreover have "btree_sorted h None None (Leaf a es)" "length es \<le> BT_MAX" "linked g' [a]"
        "bt_count tree - 1 = length es" "has_key rank key (bt_list tree)"
        using so ds sz(3) lk' len Leaf True e by auto
      moreover have "es \<noteq> [] \<Longrightarrow> 1 \<le> length es" by (cases es) auto
      ultimately show ?thesis
        unfolding bt_ok_def bt_list_def[of tree'] Leaf
        by (cases "es = []") (simp_all del: bt_sorted.simps, blast)
    next
      case (Node ks cs)
      have t': "tree' = \<lparr>bt_root = Some (if ks = [] then hd cs else t'), bt_count = bt_count tree - 1, bt_heap = g'\<rparr>"
        and f: "found" using r Some d True Node by (auto simp: bt_remove_def)
      obtain k where k: "h = Suc k" using so Node by (cases h) auto
      show ?thesis
      proof (cases "ks = []")
        case True
        then obtain c where c: "cs = [c]" "btree_sorted k None None c"
          using so by (auto simp: Node k kids_ok_Nil)
        moreover have "BT_MIN \<le> bt_n c" "bt_n c \<le> BT_MAX" "bt_sized c" using ds by (auto simp: Node c)
        ultimately show ?thesis
          using so \<open>fd\<close> lk' len True Node e f by (auto simp: t' bt_ok_def bt_list_def BT_MIN_def BT_MAX_def)
      next
        case False
        then have "1 \<le> bt_n t'" by (cases ks) (auto simp: Node)
        then show ?thesis
          using so \<open>fd\<close> ds lk' len sz(3) False Node e f
          by (auto simp: t' bt_ok_def bt_list_def simp del: bt_sorted.simps bt_sized.simps)
      qed
    qed
  qed
qed

end

end
