(* ===== verification/BTreeSeek.thy ===== *)
theory BTreeSeek
  imports BTreeLinks
begin

text \<open>
  Positions in the tree, \<open>bt_seek\<close> to \<open>bt_range\<close> of \<open>src/btree.c\<close>: the nearest key, the first and
  last key, ranges and the traversals, all of which follow the links between the leaves. A loop over
  the links ends only if they do, so the loops are partial functions whose result \<open>None\<close> is "does
  not return"; on a tree that meets its invariant they return.
\<close>

section \<open>Positions\<close>

text \<open>A position is a leaf's address and an index, or NULL. \<open>bt_leaf\<close> follows an address;
  one that is not in the tree, where the code would follow a freed pointer, reads as an empty leaf, and the proofs show
  that the links of a tree that meets its invariant lead to its leaves only.\<close>

type_synonym bt_pos = "(nat \<times> nat) option"

definition bt_leaf :: "('k, 'v) ussr_btree \<Rightarrow> nat \<Rightarrow> ('k \<times> 'v) list" where
  "bt_leaf tree a =
     (case bt_root tree of None \<Rightarrow> []
      | Some t \<Rightarrow> (case map_of (bt_leaves t) a of None \<Rightarrow> [] | Some es \<Rightarrow> es))"

partial_function (option) bt_forward ::
  "('k, 'v) ussr_btree \<Rightarrow> nat option \<Rightarrow> nat \<Rightarrow> bt_pos option" where
  "bt_forward tree leaf i =
     (case leaf of None \<Rightarrow> Some None
      | Some a \<Rightarrow>
          if i \<ge> length (bt_leaf tree a) then bt_forward tree (bt_next (bt_heap tree) a) 0
          else Some (Some (a, i)))"

partial_function (option) bt_backward ::
  "('k, 'v) ussr_btree \<Rightarrow> nat option \<Rightarrow> int \<Rightarrow> bt_pos option" where
  "bt_backward tree leaf i =
     (case leaf of None \<Rightarrow> Some None
      | Some a \<Rightarrow>
          if i < 0 then
            (case bt_prev (bt_heap tree) a of
               None \<Rightarrow> bt_backward tree None i
             | Some b \<Rightarrow> bt_backward tree (Some b) (int (length (bt_leaf tree b)) - 1))
          else Some (Some (a, nat i)))"

definition bt_seek ::
  "('k \<Rightarrow> 'k \<Rightarrow> int) \<Rightarrow> ('k, 'v) ussr_btree \<Rightarrow> 'k \<Rightarrow> bool \<Rightarrow> bt_pos option" where
  "bt_seek cmp tree key strict =
     (case bt_root tree of None \<Rightarrow> Some None
      | Some t \<Rightarrow>
          let (a, es) = bt_leaf_for cmp key t
          in bt_forward tree (Some a)
               (if strict then bt_upper cmp (map fst es) key else bt_lower cmp (map fst es) key))"

definition bt_seek_back ::
  "('k \<Rightarrow> 'k \<Rightarrow> int) \<Rightarrow> ('k, 'v) ussr_btree \<Rightarrow> 'k \<Rightarrow> bool \<Rightarrow> bt_pos option" where
  "bt_seek_back cmp tree key strict =
     (case bt_root tree of None \<Rightarrow> Some None
      | Some t \<Rightarrow>
          let (a, es) = bt_leaf_for cmp key t
          in bt_backward tree (Some a)
               (int (if strict then bt_lower cmp (map fst es) key else bt_upper cmp (map fst es) key) - 1))"

primrec bt_leftmost :: "('k, 'v) bt_node \<Rightarrow> nat \<times> ('k \<times> 'v) list" where
  "bt_leftmost (Leaf a es) = (a, es)"
| "bt_leftmost (Node ks cs) = map bt_leftmost cs ! 0"

primrec bt_rightmost :: "('k, 'v) bt_node \<Rightarrow> nat \<times> ('k \<times> 'v) list" where
  "bt_rightmost (Leaf a es) = (a, es)"
| "bt_rightmost (Node ks cs) = map bt_rightmost cs ! length ks"

definition bt_first :: "('k, 'v) ussr_btree \<Rightarrow> bt_pos" where
  "bt_first tree =
     (case bt_root tree of None \<Rightarrow> None
      | Some t \<Rightarrow> let (a, es) = bt_leftmost t in if es = [] then None else Some (a, 0))"

definition bt_last :: "('k, 'v) ussr_btree \<Rightarrow> bt_pos" where
  "bt_last tree =
     (case bt_root tree of None \<Rightarrow> None
      | Some t \<Rightarrow> let (a, es) = bt_rightmost t in if es = [] then None else Some (a, length es - 1))"

text \<open>\<open>None\<close> stands for \<open>null\<close>.\<close>

definition bt_key_out :: "('k, 'v) ussr_btree \<Rightarrow> bt_pos \<Rightarrow> 'k option" where
  "bt_key_out tree p = map_option (\<lambda>(a, i). fst (bt_leaf tree a ! i)) p"

text \<open>The loop of \<open>bt_range\<close>, with the pairs it takes; a negative limit is no limit.\<close>

partial_function (option) bt_collect ::
  "('k \<Rightarrow> 'k \<Rightarrow> int) \<Rightarrow> ('k, 'v) ussr_btree \<Rightarrow> 'k option \<Rightarrow> int \<Rightarrow> int \<Rightarrow> bt_pos \<Rightarrow>
   ('k \<times> 'v) list option" where
  "bt_collect cmp tree hi limit taken p =
     (case p of None \<Rightarrow> Some []
      | Some (a, i) \<Rightarrow>
          if \<not> (limit < 0 \<or> taken < limit) then Some []
          else if (case hi of None \<Rightarrow> False | Some b \<Rightarrow> cmp (fst (bt_leaf tree a ! i)) b \<ge> 0) then Some []
          else Option.bind
            (bt_collect cmp tree hi limit (taken + 1)
              (if i + 1 \<ge> length (bt_leaf tree a)
               then map_option (\<lambda>b. (b, 0)) (bt_next (bt_heap tree) a) else Some (a, i + 1)))
            (\<lambda>xs. Some (bt_leaf tree a ! i # xs)))"

definition bt_range ::
  "('k \<Rightarrow> 'k \<Rightarrow> int) \<Rightarrow> ('k, 'v) ussr_btree \<Rightarrow> 'k option \<Rightarrow> 'k option \<Rightarrow> int \<Rightarrow>
   ('k \<times> 'v) list option" where
  "bt_range cmp tree lo hi limit =
     Option.bind (case lo of None \<Rightarrow> Some (bt_first tree) | Some key \<Rightarrow> bt_seek cmp tree key False)
       (bt_collect cmp tree hi limit 0)"

text \<open>
  The traversal \<open>ussr_btree_each\<close>. The callback works on a state of the caller and stops the
  traversal with a status other than 0.
\<close>

primrec bt_visit ::
  "('k \<Rightarrow> 'v \<Rightarrow> 's \<Rightarrow> int \<times> 's) \<Rightarrow> 's \<Rightarrow> ('k \<times> 'v) list \<Rightarrow> int \<times> 's" where
  "bt_visit f s [] = (0, s)"
| "bt_visit f s (e # es) =
     (let (status, s') = f (fst e) (snd e) s in if status \<noteq> 0 then (status, s') else bt_visit f s' es)"

partial_function (option) bt_walk ::
  "('k \<Rightarrow> 'v \<Rightarrow> 's \<Rightarrow> int \<times> 's) \<Rightarrow> ('k, 'v) ussr_btree \<Rightarrow> 's \<Rightarrow> nat option \<Rightarrow> (int \<times> 's) option" where
  "bt_walk f tree s leaf =
     (case leaf of None \<Rightarrow> Some (0, s)
      | Some a \<Rightarrow>
          (case bt_visit f s (bt_leaf tree a) of (status, s') \<Rightarrow>
             if status \<noteq> 0 then Some (status, s') else bt_walk f tree s' (bt_next (bt_heap tree) a)))"

definition ussr_btree_each ::
  "('k \<Rightarrow> 'v \<Rightarrow> 's \<Rightarrow> int \<times> 's) \<Rightarrow> 's \<Rightarrow> ('k, 'v) ussr_btree \<Rightarrow> (int \<times> 's) option" where
  "ussr_btree_each f s tree =
     (case bt_root tree of None \<Rightarrow> Some (0, s)
      | Some t \<Rightarrow> bt_walk f tree s (Some (fst (bt_leftmost t))))"

lemma bt_visit_append:
  "bt_visit f s (xs @ ys) =
     (let (status, s') = bt_visit f s xs in if status \<noteq> 0 then (status, s') else bt_visit f s' ys)"
  by (induction xs arbitrary: s) (auto simp: Let_def split: prod.split)

section \<open>Leaves in the list of entries\<close>

lemma linked_next:
  "linked g (xs @ a # ys) \<Longrightarrow> bt_next g a = first_or ys None \<and> bt_prev g a = last_or None xs"
  by (auto simp: linked_def chain_segment segment_append first_or_def split: list.split)

lemma bt_leaf_at:
  assumes "bt_root tree = Some t" "linked g (bt_ids t)" "bt_leaves t = xs @ (a, es) # ys"
  shows "bt_leaf tree a = es"
proof -
  have "distinct (map fst (bt_leaves t))" using assms(2) by (simp add: linked_def bt_ids_def)
  moreover have "(a, es) \<in> set (bt_leaves t)" unfolding assms(3) by simp
  ultimately have "map_of (bt_leaves t) a = Some es" by (rule map_of_is_SomeI)
  then show ?thesis using assms(1) by (simp add: bt_leaf_def)
qed

lemma leaves_nonempty:
  "bt_sized t \<Longrightarrow> 1 \<le> bt_n t \<Longrightarrow> \<forall>l\<in>set (bt_leaves t). snd l \<noteq> []"
proof (induction t)
  case (Node ks cs)
  then show ?case by (fastforce simp: list_all_iff BT_MIN_def BT_MAX_def)
qed auto

lemma leftmost_leaf:
  "bt_sorted valid rank h lo hi t \<Longrightarrow> \<exists>ys. bt_leaves t = bt_leftmost t # ys"
proof (induction h arbitrary: lo hi t)
  case 0
  then show ?case by (cases t) auto
next
  case (Suc h)
  then obtain ks cs where t: "t = Node ks cs" "kids_ok (bt_sorted valid rank h) rank lo ks cs hi"
    by (cases t) auto
  have l: "0 < length cs" using kids_ok_length[OF t(2)] by simp
  have "bt_sorted valid rank h (lo_at rank lo ks 0) (hi_at rank ks hi 0) (cs ! 0)"
    using kids_ok_at[OF t(2), of 0] by blast
  from Suc.IH[OF this] l show ?case by (cases cs) (auto simp: t(1))
qed

lemma rightmost_leaf:
  "bt_sorted valid rank h lo hi t \<Longrightarrow> \<exists>xs. bt_leaves t = xs @ [bt_rightmost t]"
proof (induction h arbitrary: lo hi t)
  case 0
  then show ?case by (cases t) auto
next
  case (Suc h)
  then obtain ks cs where t: "t = Node ks cs" "kids_ok (bt_sorted valid rank h) rank lo ks cs hi"
    by (cases t) auto
  note l = kids_ok_length[OF t(2)]
  then obtain ds c where cs: "cs = ds @ [c]" "length ds = length ks" by (cases cs rule: rev_cases) auto
  have "bt_sorted valid rank h (lo_at rank lo ks (length ks)) (hi_at rank ks hi (length ks)) (cs ! length ks)"
    using kids_ok_at[OF t(2), of "length ks"] by blast
  then have "bt_sorted valid rank h (lo_at rank lo ks (length ks)) (hi_at rank ks hi (length ks)) c"
    using cs by (simp add: nth_append)
  from Suc.IH[OF this] show ?case using cs by (auto simp: t(1) nth_append)
qed

section \<open>What a position stands for\<close>

text \<open>
  A position stands for the entries from it on, or for the entries up to it; NULL for none. The
  lemmas below are about a tree whose root \<open>t\<close> has its leaves linked, none of them empty.
\<close>

abbreviation flat :: "(nat \<times> ('k \<times> 'v) list) list \<Rightarrow> ('k \<times> 'v) list" where
  "flat ls \<equiv> concat (map snd ls)"

definition bt_walkable :: "('k, 'v) ussr_btree \<Rightarrow> ('k, 'v) bt_node \<Rightarrow> bool" where
  "bt_walkable tree t \<longleftrightarrow> bt_root tree = Some t \<and> linked (bt_heap tree) (bt_ids t) \<and>
     (\<forall>l\<in>set (bt_leaves t). snd l \<noteq> [])"

definition from_pos :: "('k, 'v) bt_node \<Rightarrow> bt_pos \<Rightarrow> ('k \<times> 'v) list \<Rightarrow> bool" where
  "from_pos t p es \<longleftrightarrow> (case p of None \<Rightarrow> es = []
     | Some (a, i) \<Rightarrow> \<exists>xs l ys. bt_leaves t = xs @ (a, l) # ys \<and> i < length l \<and> es = drop i l @ flat ys)"

definition upto_pos :: "('k, 'v) bt_node \<Rightarrow> bt_pos \<Rightarrow> ('k \<times> 'v) list \<Rightarrow> bool" where
  "upto_pos t p es \<longleftrightarrow> (case p of None \<Rightarrow> es = []
     | Some (a, i) \<Rightarrow> \<exists>xs l ys. bt_leaves t = xs @ (a, l) # ys \<and> i < length l \<and>
         es = flat xs @ take (Suc i) l)"

lemma from_posI:
  "bt_leaves t = xs @ (a, l) # ys \<Longrightarrow> i < length l \<Longrightarrow> from_pos t (Some (a, i)) (drop i l @ flat ys)"
  unfolding from_pos_def option.case prod.case by blast

lemma upto_posI:
  "bt_leaves t = xs @ (a, l) # ys \<Longrightarrow> i < length l \<Longrightarrow> upto_pos t (Some (a, i)) (flat xs @ take (Suc i) l)"
  unfolding upto_pos_def option.case prod.case by blast

definition head_key :: "('k \<times> 'v) list \<Rightarrow> 'k option" where
  "head_key es = (case es of [] \<Rightarrow> None | e # _ \<Rightarrow> Some (fst e))"

definition at_most :: "int \<Rightarrow> 'x list \<Rightarrow> 'x list" where
  "at_most limit xs = (if limit < 0 then xs else take (nat limit) xs)"

lemma walkable_at:
  assumes "bt_walkable tree t" "bt_leaves t = xs @ (a, l) # ys"
  shows "bt_leaf tree a = l" "l \<noteq> []" "bt_next (bt_heap tree) a = first_or (map fst ys) None"
    "bt_prev (bt_heap tree) a = last_or None (map fst xs)"
proof -
  have w: "bt_root tree = Some t" "linked (bt_heap tree) (bt_ids t)" "\<forall>l\<in>set (bt_leaves t). snd l \<noteq> []"
    using assms(1) by (auto simp: bt_walkable_def)
  show "bt_leaf tree a = l" by (rule bt_leaf_at[OF w(1,2) assms(2)])
  show "l \<noteq> []" using w(3) unfolding assms(2) by auto
  have "linked (bt_heap tree) (map fst xs @ a # map fst ys)" using w(2) by (simp add: bt_ids_def assms(2))
  from linked_next[OF this] show "bt_next (bt_heap tree) a = first_or (map fst ys) None"
    "bt_prev (bt_heap tree) a = last_or None (map fst xs)" by auto
qed

lemma head_key_from:
  assumes "bt_walkable tree t" "from_pos t p es" shows "bt_key_out tree p = head_key es"
  using assms(2)
  by (auto simp: from_pos_def bt_key_out_def head_key_def walkable_at[OF assms(1)] Cons_nth_drop_Suc[symmetric]
    split: option.splits)

lemma last_key_upto:
  assumes "bt_walkable tree t" "upto_pos t p es" shows "bt_key_out tree p = head_key (rev es)"
  using assms(2)
  by (auto simp: upto_pos_def bt_key_out_def head_key_def walkable_at[OF assms(1)] take_Suc_conv_app_nth
    split: option.splits)

section \<open>The loops over the links\<close>

lemma forward_pos:
  assumes "bt_walkable tree t"
  shows "bt_leaves t = xs @ (a, l) # ys \<Longrightarrow>
    \<exists>p. bt_forward tree (Some a) i = Some p \<and> from_pos t p (drop i l @ flat ys)"
proof (induction ys arbitrary: xs a l i)
  case Nil
  note w = walkable_at[OF assms Nil]
  have "bt_forward tree None 0 = Some None" by (simp add: bt_forward.simps)
  then show ?case
  proof (cases "length l \<le> i")
    case True
    then have "bt_forward tree (Some a) i = Some None" using w
      by (simp add: bt_forward.simps[of tree "Some a"] \<open>bt_forward tree None 0 = Some None\<close>)
    then show ?thesis using True by (simp add: from_pos_def)
  next
    case False
    then have "bt_forward tree (Some a) i = Some (Some (a, i))" using w by (simp add: bt_forward.simps)
    then show ?thesis using False from_posI[OF Nil, of i] by simp
  qed
next
  case (Cons y ys)
  obtain b m where y: "y = (b, m)" by fastforce
  note w = walkable_at[OF assms Cons.prems]
  show ?case
  proof (cases "length l \<le> i")
    case True
    have "bt_leaves t = (xs @ [(a, l)]) @ (b, m) # ys" using Cons.prems y by simp
    from Cons.IH[OF this, of 0] True w show ?thesis by (simp add: bt_forward.simps[of tree "Some a"] y)
  next
    case False
    then have "bt_forward tree (Some a) i = Some (Some (a, i))" using w by (simp add: bt_forward.simps)
    then show ?thesis using False from_posI[OF Cons.prems, of i] by simp
  qed
qed

lemma backward_pos:
  assumes "bt_walkable tree t"
  shows "bt_leaves t = xs @ (a, l) # ys \<Longrightarrow> i < int (length l) \<Longrightarrow>
    \<exists>p. bt_backward tree (Some a) i = Some p \<and> upto_pos t p (flat xs @ take (nat (i + 1)) l)"
proof (induction xs arbitrary: a l ys i rule: rev_induct)
  case Nil
  note w = walkable_at[OF assms Nil(1)]
  show ?case
  proof (cases "i < 0")
    case True
    then have "bt_backward tree (Some a) i = Some None" using w
      by (simp add: bt_backward.simps[of tree "Some a"] bt_backward.simps[of tree None])
    then show ?thesis using True by (simp add: upto_pos_def)
  next
    case False
    then have "bt_backward tree (Some a) i = Some (Some (a, nat i))" by (simp add: bt_backward.simps)
    moreover have "nat (i + 1) = Suc (nat i)" "nat i < length l" using False Nil(2) by auto
    ultimately show ?thesis using upto_posI[OF Nil(1), of "nat i"] by simp
  qed
next
  case (snoc x xs)
  obtain b m where x: "x = (b, m)" by fastforce
  note w = walkable_at[OF assms snoc.prems(1)]
  show ?case
  proof (cases "i < 0")
    case True
    have b: "bt_leaves t = xs @ (b, m) # (a, l) # ys" using snoc.prems(1) x by simp
    note wb = walkable_at[OF assms b]
    have "bt_backward tree (Some a) i = bt_backward tree (Some b) (int (length m) - 1)"
      using True w wb by (simp add: bt_backward.simps[of tree "Some a"] x)
    with snoc.IH[OF b, of "int (length m) - 1"] True show ?thesis by (simp add: x)
  next
    case False
    then have "bt_backward tree (Some a) i = Some (Some (a, nat i))" by (simp add: bt_backward.simps)
    moreover have "nat (i + 1) = Suc (nat i)" "nat i < length l" using False snoc.prems(2) by auto
    ultimately show ?thesis using upto_posI[OF snoc.prems(1), of "nat i"] by simp
  qed
qed

lemma walk_leaves:
  assumes "bt_walkable tree t"
  shows "bt_leaves t = xs @ (a, l) # ys \<Longrightarrow> bt_walk f tree s (Some a) = Some (bt_visit f s (l @ flat ys))"
proof (induction ys arbitrary: xs a l s)
  case Nil
  from walkable_at[OF assms Nil] show ?case
    by (auto simp: bt_walk.simps[of f tree s "Some a"] bt_walk.simps[of f tree _ None] split: prod.split)
next
  case (Cons y ys)
  obtain b m where y: "y = (b, m)" by fastforce
  have "bt_leaves t = (xs @ [(a, l)]) @ (b, m) # ys" using Cons.prems y by simp
  from Cons.IH[OF this] walkable_at[OF assms Cons.prems] show ?case
    by (simp add: bt_walk.simps[of f tree s "Some a"] y bt_visit_append[of f s l] split: prod.split)
qed

text \<open>One step to the right.\<close>

lemma next_pos:
  assumes "bt_walkable tree t" "from_pos t (Some (a, i)) es"
  shows "\<exists>e es'. es = e # es' \<and> bt_leaf tree a ! i = e \<and>
    from_pos t (if i + 1 \<ge> length (bt_leaf tree a) then map_option (\<lambda>b. (b, 0)) (bt_next (bt_heap tree) a)
      else Some (a, i + 1)) es'"
proof -
  obtain xs l ys where l: "bt_leaves t = xs @ (a, l) # ys" "i < length l" "es = drop i l @ flat ys"
    using assms(2) by (auto simp: from_pos_def)
  note w = walkable_at[OF assms(1) l(1)]
  have es: "es = l ! i # (drop (Suc i) l @ flat ys)" using l by (simp add: Cons_nth_drop_Suc)
  have "from_pos t (if i + 1 \<ge> length l then map_option (\<lambda>b. (b, 0)) (bt_next (bt_heap tree) a)
      else Some (a, i + 1)) (drop (Suc i) l @ flat ys)"
  proof (cases "i + 1 \<ge> length l")
    case False
    then show ?thesis using from_posI[OF l(1), of "i + 1"] by simp
  next
    case True
    show ?thesis
    proof (cases ys)
      case Nil
      then show ?thesis using True w by (simp add: from_pos_def)
    next
      case (Cons y zs)
      obtain b m where y: "y = (b, m)" by fastforce
      have "bt_leaves t = (xs @ [(a, l)]) @ (b, m) # zs" using l(1) Cons y by simp
      moreover from walkable_at(2)[OF assms(1) this] have "0 < length m" by simp
      ultimately show ?thesis using True w Cons y from_posI[of t "xs @ [(a, l)]" b m zs 0] by simp
    qed
  qed
  then show ?thesis using es w(1) by simp
qed

section \<open>Seeking\<close>

context key_order
begin

lemma leaf_for_leaves:
  assumes "btree_sorted h lo hi t" "valid key" "above lo (rank key)" "below hi (rank key)"
  shows "\<exists>a es lo' hi' xs ys. bt_leaf_for compare key t = (a, es) \<and> leaf_ok valid rank lo' hi' es \<and>
    bt_leaves t = xs @ (a, es) # ys \<and> (\<forall>e\<in>set (flat xs). rank (fst e) < rank key) \<and>
    (\<forall>e\<in>set (flat ys). rank key < rank (fst e))"
  using assms
proof (induction h arbitrary: lo hi t)
  case 0
  from 0(1) obtain a es where t: "t = Leaf a es" "leaf_ok valid rank lo hi es" by (cases t) auto
  have "bt_leaves t = [] @ (a, es) # []" by (simp add: t)
  then show ?case using t by (metis bt_leaf_for.simps(1) concat.simps(1) empty_iff list.set(1) list.simps(8))
next
  case (Suc h)
  from Suc.prems(1) obtain ks cs where t: "t = Node ks cs" by (cases t) auto
  let ?i = "bt_upper compare ks key"
  note sc = search_child[OF Suc.prems(1)[unfolded t] Suc.prems(2-4)]
  from Suc.IH[OF sc(5) Suc.prems(2) sc(6,7)]
  obtain a es lo' hi' xs ys where *: "bt_leaf_for compare key (cs ! ?i) = (a, es)"
    "leaf_ok valid rank lo' hi' es" "bt_leaves (cs ! ?i) = xs @ (a, es) # ys"
    "\<forall>e\<in>set (flat xs). rank (fst e) < rank key" "\<forall>e\<in>set (flat ys). rank key < rank (fst e)"
    by (elim exE conjE) (rule that)
  let ?pre = "concat (map bt_leaves (take ?i cs))" and ?post = "concat (map bt_leaves (drop (Suc ?i) cs))"
  have f: "flat (concat (map bt_leaves ds)) = concat (map bt_entries ds)" for ds :: "('k, 'c) bt_node list"
    by (induction ds) (simp_all add: bt_entries_leaves)
  have "\<forall>e\<in>set (flat (?pre @ xs)). rank (fst e) < rank key"
    using sc(9) *(4) unfolding map_append concat_append f set_append by blast
  moreover have "\<forall>e\<in>set (flat (ys @ ?post)). rank key < rank (fst e)"
    using sc(10) *(5) unfolding map_append concat_append f set_append by blast
  moreover have "bt_leaves t = (?pre @ xs) @ (a, es) # (ys @ ?post)"
    using concat_focus[OF sc(2), of bt_leaves] by (simp add: t *(3))
  moreover have "bt_leaf_for compare key t = (a, es)" using sc(2) *(1) by (simp add: t)
  ultimately show ?case using *(2) by blast
qed

lemma leaf_cut_upper:
  assumes "leaf_ok valid rank lo hi es" "valid key"
  defines "i \<equiv> bt_upper compare (map fst es) key"
  shows "i \<le> length es" "\<forall>e\<in>set (take i es). rank (fst e) \<le> rank key"
    "\<forall>e\<in>set (drop i es). rank key < rank (fst e)"
proof -
  have st: "sorted_wrt (<) (map (rank \<circ> fst) es)" and d: "\<forall>e\<in>set es. valid (fst e)"
    using assms(1) by (auto simp: leaf_ok_def)
  have s: "sorted (map rank (map fst es))" using strict_sorted_imp_sorted[OF st] by (simp add: comp_def)
  have "\<forall>k\<in>set (map fst es). valid k" using d by auto
  note spec = bt_upper_spec[OF s this assms(2), folded i_def]
  from spec show "i \<le> length es" by simp
  with spec show "\<forall>e\<in>set (take i es). rank (fst e) \<le> rank key" by (fastforce simp: in_set_conv_nth)
  show "\<forall>e\<in>set (drop i es). rank key < rank (fst e)"
  proof
    fix e assume "e \<in> set (drop i es)"
    then obtain m where "m < length es - i" "e = es ! (i + m)" by (auto simp: in_set_conv_nth)
    then show "rank key < rank (fst e)" using spec by simp
  qed
qed

text \<open>The entries before and from the wanted key on.\<close>

definition passes :: "'k \<Rightarrow> bool \<Rightarrow> 'k \<times> 'v \<Rightarrow> bool" where
  "passes key strict e \<longleftrightarrow> (if strict then rank (fst e) \<le> rank key else rank (fst e) < rank key)"

lemma split_at_key:
  assumes "\<forall>e\<in>set pre. passes key strict e" "\<forall>e\<in>set post. \<not> passes key strict e"
  shows "dropWhile (passes key strict) (pre @ post) = post" "takeWhile (passes key strict) (pre @ post) = pre"
  using assms by (cases post; simp)+

lemma bt_ok_walkable:
  assumes "bt_ok valid rank tree" "bt_root tree = Some t"
  shows "bt_walkable tree t" "\<exists>h. btree_sorted h None None t" "flat (bt_leaves t) = bt_list tree"
  using assms by (auto simp: bt_ok_def bt_walkable_def bt_list_def bt_entries_leaves dest: leaves_nonempty)

definition cut_at :: "'k \<Rightarrow> bool \<Rightarrow> ('k \<times> 'v) list \<Rightarrow> nat" where
  "cut_at key strict es =
     (if strict then bt_upper compare (map fst es) key else bt_lower compare (map fst es) key)"

lemma leaf_position:
  assumes ok: "bt_ok valid rank tree" and key: "valid key" and t: "bt_root tree = Some t"
  obtains a es xs ys where "bt_leaf_for compare key t = (a, es)" "bt_leaves t = xs @ (a, es) # ys"
    "cut_at key strict es \<le> length es"
    "drop (cut_at key strict es) es @ flat ys = dropWhile (passes key strict) (bt_list tree)"
    "flat xs @ take (cut_at key strict es) es = takeWhile (passes key strict) (bt_list tree)"
proof -
  from bt_ok_walkable[OF ok t] obtain h where h: "btree_sorted h None None t" by blast
  from leaf_for_leaves[OF h key bound_simps(1,3)] obtain a es lo' hi' xs ys where *:
    "bt_leaf_for compare key t = (a, es)" "leaf_ok valid rank lo' hi' es"
    "bt_leaves t = xs @ (a, es) # ys" "\<forall>e\<in>set (flat xs). rank (fst e) < rank key"
    "\<forall>e\<in>set (flat ys). rank key < rank (fst e)"
    by (elim exE conjE) (rule that)
  let ?c = "cut_at key strict es"
  have cut: "?c \<le> length es" "\<forall>e\<in>set (take ?c es). passes key strict e"
    "\<forall>e\<in>set (drop ?c es). \<not> passes key strict e"
    using leaf_cut[OF *(2) key] leaf_cut_upper[OF *(2) key]
    by (auto simp: cut_at_def passes_def not_less not_le)
  have l: "bt_list tree = (flat xs @ take ?c es) @ (drop ?c es @ flat ys)"
    using bt_ok_walkable(3)[OF ok t] *(3) by (metis append_assoc append_take_drop_id concat.simps(2) concat_append
      list.simps(9) map_append snd_conv)
  have "\<forall>e\<in>set (flat xs @ take ?c es). passes key strict e"
    using cut(2) *(4) unfolding set_append passes_def by (meson Un_iff less_imp_le)
  moreover have "\<forall>e\<in>set (drop ?c es @ flat ys). \<not> passes key strict e"
    using cut(3) *(5) unfolding set_append passes_def by (metis Un_iff less_asym not_le)
  ultimately show ?thesis using that[OF *(1,3) cut(1)] split_at_key unfolding l by metis
qed

lemma seek_pos:
  assumes ok: "bt_ok valid rank tree" and key: "valid key" and t: "bt_root tree = Some t"
  obtains p where "bt_seek compare tree key strict = Some p"
    "from_pos t p (dropWhile (passes key strict) (bt_list tree))"
proof -
  note w = bt_ok_walkable(1)[OF ok t]
  from leaf_position[OF ok key t, of strict] obtain a es xs ys where *:
    "bt_leaf_for compare key t = (a, es)" "bt_leaves t = xs @ (a, es) # ys"
    "drop (cut_at key strict es) es @ flat ys = dropWhile (passes key strict) (bt_list tree)"
    by metis
  have "bt_seek compare tree key strict = bt_forward tree (Some a) (cut_at key strict es)"
    using *(1) by (simp add: bt_seek_def t cut_at_def)
  with forward_pos[OF w *(2), of "cut_at key strict es"] *(3) that show ?thesis by auto
qed

lemma seek_back_pos:
  assumes ok: "bt_ok valid rank tree" and key: "valid key" and t: "bt_root tree = Some t"
  obtains p where "bt_seek_back compare tree key strict = Some p"
    "upto_pos t p (takeWhile (passes key (\<not> strict)) (bt_list tree))"
proof -
  note w = bt_ok_walkable(1)[OF ok t]
  from leaf_position[OF ok key t, of "\<not> strict"] obtain a es xs ys where *:
    "bt_leaf_for compare key t = (a, es)" "bt_leaves t = xs @ (a, es) # ys"
    "cut_at key (\<not> strict) es \<le> length es"
    "flat xs @ take (cut_at key (\<not> strict) es) es = takeWhile (passes key (\<not> strict)) (bt_list tree)"
    by metis
  have "bt_seek_back compare tree key strict = bt_backward tree (Some a) (int (cut_at key (\<not> strict) es) - 1)"
    using *(1) by (simp add: bt_seek_back_def t cut_at_def)
  with backward_pos[OF w *(2), of "int (cut_at key (\<not> strict) es) - 1"] *(3,4) that
  show ?thesis by auto
qed

text \<open>The four commands \<open>btceil\<close>, \<open>btnext\<close>, \<open>btfloor\<close> and \<open>btprev\<close>.\<close>

lemma seek_refines:
  assumes ok: "bt_ok valid rank tree" and key: "valid key"
  shows "map_option (bt_key_out tree) (bt_seek compare tree key strict) =
      Some (head_key (dropWhile (passes key strict) (bt_list tree)))"
proof (cases "bt_root tree")
  case None
  then show ?thesis by (simp add: bt_seek_def bt_list_def head_key_def bt_key_out_def)
next
  case (Some t)
  from seek_pos[OF ok key Some, of strict] obtain p where "bt_seek compare tree key strict = Some p"
    "from_pos t p (dropWhile (passes key strict) (bt_list tree))" .
  then show ?thesis using head_key_from[OF bt_ok_walkable(1)[OF ok Some]] by simp
qed

lemma seek_back_refines:
  assumes ok: "bt_ok valid rank tree" and key: "valid key"
  shows "map_option (bt_key_out tree) (bt_seek_back compare tree key strict) =
      Some (head_key (rev (takeWhile (passes key (\<not> strict)) (bt_list tree))))"
proof (cases "bt_root tree")
  case None
  then show ?thesis by (simp add: bt_seek_back_def bt_list_def head_key_def bt_key_out_def)
next
  case (Some t)
  from seek_back_pos[OF ok key Some, of strict] obtain p where
    "bt_seek_back compare tree key strict = Some p"
    "upto_pos t p (takeWhile (passes key (\<not> strict)) (bt_list tree))" .
  then show ?thesis using last_key_upto[OF bt_ok_walkable(1)[OF ok Some]] by simp
qed

section \<open>The first and the last entry, traversal and ranges\<close>

lemma first_pos:
  assumes ok: "bt_ok valid rank tree" and t: "bt_root tree = Some t"
  shows "from_pos t (bt_first tree) (bt_list tree)"
proof -
  note w = bt_ok_walkable[OF ok t]
  from w(2) leftmost_leaf obtain ys where ys: "bt_leaves t = bt_leftmost t # ys" by blast
  obtain a es where a: "bt_leftmost t = (a, es)" by fastforce
  have l: "bt_leaves t = [] @ (a, es) # ys" using ys a by simp
  from walkable_at(2)[OF w(1) l] have "0 < length es" by simp
  with from_posI[OF l this] a w(3)[unfolded l] show ?thesis by (simp add: bt_first_def t)
qed

lemma last_pos:
  assumes ok: "bt_ok valid rank tree" and t: "bt_root tree = Some t"
  shows "upto_pos t (bt_last tree) (bt_list tree)"
proof -
  note w = bt_ok_walkable[OF ok t]
  from w(2) rightmost_leaf obtain xs where xs: "bt_leaves t = xs @ [bt_rightmost t]" by blast
  obtain a es where a: "bt_rightmost t = (a, es)" by fastforce
  have l: "bt_leaves t = xs @ (a, es) # []" using xs a by simp
  from walkable_at(2)[OF w(1) l] have "length es - 1 < length es" "es \<noteq> []" by simp_all
  with upto_posI[OF l this(1)] a w(3)[unfolded l] show ?thesis by (simp add: bt_last_def t)
qed

lemma ends_refine:
  assumes ok: "bt_ok valid rank tree"
  shows "bt_key_out tree (bt_first tree) = head_key (bt_list tree)"
    "bt_key_out tree (bt_last tree) = head_key (rev (bt_list tree))"
proof -
  have "bt_key_out tree (bt_first tree) = head_key (bt_list tree) \<and>
    bt_key_out tree (bt_last tree) = head_key (rev (bt_list tree))"
  proof (cases "bt_root tree")
    case None
    then show ?thesis by (simp add: bt_first_def bt_last_def bt_list_def head_key_def bt_key_out_def)
  next
    case (Some t)
    note w = bt_ok_walkable(1)[OF ok Some]
    show ?thesis using head_key_from[OF w first_pos[OF ok Some]] last_key_upto[OF w last_pos[OF ok Some]] ..
  qed
  then show "bt_key_out tree (bt_first tree) = head_key (bt_list tree)"
    "bt_key_out tree (bt_last tree) = head_key (rev (bt_list tree))" by auto
qed

lemma each_refines:
  assumes ok: "bt_ok valid rank tree"
  shows "ussr_btree_each f s tree = Some (bt_visit f s (bt_list tree))"
proof (cases "bt_root tree")
  case None
  then show ?thesis by (simp add: ussr_btree_each_def bt_list_def)
next
  case (Some t)
  note w = bt_ok_walkable[OF ok Some]
  from w(2) leftmost_leaf obtain ys where ys: "bt_leaves t = bt_leftmost t # ys" by blast
  obtain a es where a: "bt_leftmost t = (a, es)" by fastforce
  have l: "bt_leaves t = [] @ (a, es) # ys" using ys a by simp
  from walk_leaves[OF w(1) l] w(3)[unfolded l] show ?thesis by (simp add: ussr_btree_each_def Some a)
qed

definition under :: "'k option \<Rightarrow> 'k \<times> 'v \<Rightarrow> bool" where
  "under hi e \<longleftrightarrow> (case hi of None \<Rightarrow> True | Some b \<Rightarrow> rank (fst e) < rank b)"

lemma collect_entries:
  assumes w: "bt_walkable tree t" and hi: "\<forall>b\<in>set_option hi. valid b"
  shows "from_pos t p es \<Longrightarrow> \<forall>e\<in>set es. valid (fst e) \<Longrightarrow> 0 \<le> taken \<Longrightarrow>
    bt_collect compare tree hi limit taken p =
      Some (if limit < 0 then takeWhile (under hi) es else take (nat (limit - taken)) (takeWhile (under hi) es))"
proof (induction es arbitrary: p taken)
  case Nil
  then have "p = None" by (auto simp: from_pos_def split: option.splits)
  then show ?case by (simp add: bt_collect.simps)
next
  case (Cons e es)
  from Cons.prems(1) obtain a i where p: "p = Some (a, i)" by (cases p) (auto simp: from_pos_def)
  from next_pos[OF w Cons.prems(1)[unfolded p]] have n: "bt_leaf tree a ! i = e"
    "from_pos t (if i + 1 \<ge> length (bt_leaf tree a) then map_option (\<lambda>b. (b, 0)) (bt_next (bt_heap tree) a)
      else Some (a, i + 1)) es" by auto
  let ?p = "if i + 1 \<ge> length (bt_leaf tree a) then map_option (\<lambda>b. (b, 0)) (bt_next (bt_heap tree) a)
      else Some (a, i + 1)"
  have stop: "(case hi of None \<Rightarrow> False | Some b \<Rightarrow> compare (fst (bt_leaf tree a ! i)) b \<ge> 0) \<longleftrightarrow> \<not> under hi e"
    using hi Cons.prems(2) n(1) by (auto simp: under_def compare_ge not_less split: option.split)
  have unfold: "bt_collect compare tree hi limit taken p =
      (if \<not> (limit < 0 \<or> taken < limit) \<or> \<not> under hi e then Some []
       else map_option ((#) e) (bt_collect compare tree hi limit (taken + 1) ?p))"
    by (subst bt_collect.simps) (simp add: p stop n(1) map_option_case Option.bind_def split: option.split)
  have IH: "bt_collect compare tree hi limit (taken + 1) ?p =
      Some (if limit < 0 then takeWhile (under hi) es
        else take (nat (limit - (taken + 1))) (takeWhile (under hi) es))"
    by (rule Cons.IH[OF n(2)]) (use Cons.prems in auto)
  have "taken < limit \<Longrightarrow> nat (limit - taken) = Suc (nat (limit - (taken + 1)))" by simp
  then show ?case unfolding unfold IH by auto
qed

lemma range_refines:
  assumes ok: "bt_ok valid rank tree" and lo: "\<forall>b\<in>set_option lo. valid b" and hi: "\<forall>b\<in>set_option hi. valid b"
  shows "bt_range compare tree lo hi limit =
    Some (at_most limit (takeWhile (under hi)
      (case lo of None \<Rightarrow> bt_list tree | Some a \<Rightarrow> dropWhile (passes a False) (bt_list tree))))"
proof (cases "bt_root tree")
  case None
  have "bt_collect compare tree hi limit 0 None = Some []" by (simp add: bt_collect.simps)
  then show ?thesis using None
    by (simp add: bt_range_def bt_list_def bt_first_def bt_seek_def at_most_def split: option.split)
next
  case (Some t)
  note w = bt_ok_walkable(1)[OF ok Some]
  define es where "es = (case lo of None \<Rightarrow> bt_list tree | Some a \<Rightarrow> dropWhile (passes a False) (bt_list tree))"
  obtain p where p: "(case lo of None \<Rightarrow> Some (bt_first tree) | Some key \<Rightarrow> bt_seek compare tree key False) = Some p"
    "from_pos t p es"
  proof (cases lo)
    case None
    then show ?thesis using that first_pos[OF ok Some] by (simp add: es_def)
  next
    case l: (Some a)
    then show ?thesis using that lo seek_pos[OF ok _ Some, of a False] by (auto simp: es_def)
  qed
  have "\<forall>e\<in>set (bt_list tree). valid (fst e)" using bt_list_sorted[OF ok] by (simp add: leaf_ok_def)
  then have "\<forall>e\<in>set es. valid (fst e)"
    unfolding es_def by (auto split: option.splits dest: set_dropWhileD)
  from collect_entries[OF w hi p(2) this] show ?thesis
    unfolding bt_range_def p(1) es_def[symmetric] by (simp add: at_most_def)
qed

end

end
