(* ===== verification/Doubles.thy ===== *)
theory Doubles
  imports Prelude
begin

text \<open>
  The C type \<open>double\<close> as its IEEE-754 binary64 bit pattern: classification, the order of the
  comparison operators, and the conversion of a 64-bit integer, which rounds to nearest, ties
  to even. A NaN is unordered; the two zeros are equal.
\<close>

section \<open>Order\<close>

definition dbl_magnitude :: "64 word \<Rightarrow> nat" where
  "dbl_magnitude w = unat (w AND 0x7fffffffffffffff)"

definition dbl_negative :: "64 word \<Rightarrow> bool" where
  "dbl_negative w \<longleftrightarrow> bit w 63"

definition dbl_nan :: "64 word \<Rightarrow> bool" where
  "dbl_nan w \<longleftrightarrow> dbl_magnitude w > 0x7ff0000000000000"

text \<open>Sign and magnitude read as one integer: the order of the numbers the patterns stand for.\<close>

definition dbl_ord :: "64 word \<Rightarrow> int" where
  "dbl_ord w = (if dbl_negative w then - int (dbl_magnitude w) else int (dbl_magnitude w))"

definition dbl_lt :: "64 word \<Rightarrow> 64 word \<Rightarrow> bool" where
  "dbl_lt x y \<longleftrightarrow> \<not> dbl_nan x \<and> \<not> dbl_nan y \<and> dbl_ord x < dbl_ord y"

definition dbl_le :: "64 word \<Rightarrow> 64 word \<Rightarrow> bool" where
  "dbl_le x y \<longleftrightarrow> \<not> dbl_nan x \<and> \<not> dbl_nan y \<and> dbl_ord x \<le> dbl_ord y"

definition dbl_eq :: "64 word \<Rightarrow> 64 word \<Rightarrow> bool" where
  "dbl_eq x y \<longleftrightarrow> \<not> dbl_nan x \<and> \<not> dbl_nan y \<and> dbl_ord x = dbl_ord y"

section \<open>Integers as doubles\<close>

fun ilog2 :: "nat \<Rightarrow> nat" where
  "ilog2 n = (if n < 2 then 0 else Suc (ilog2 (n div 2)))"

declare ilog2.simps [simp del]

text \<open>
  The pattern of the nonnegative integer \<open>m\<close>: exponent and significand in place, the significand
  of numbers of more than 53 bits rounded to nearest even (a carry out of it reaches the
  exponent field by itself).
\<close>

definition dbl_of_nat :: "nat \<Rightarrow> nat" where
  "dbl_of_nat m =
     (if m = 0 then 0
      else let e = ilog2 m in
        if e \<le> 52 then (e + 1022) * 2 ^ 52 + m * 2 ^ (52 - e)
        else let s = e - 52; q = m div 2 ^ s; r = m mod 2 ^ s
             in (e + 1022) * 2 ^ 52 + (if 2 * r > 2 ^ s \<or> 2 * r = 2 ^ s \<and> odd q then q + 1 else q))"

definition int_to_dbl :: "64 word \<Rightarrow> 64 word" where
  "int_to_dbl i =
     (let m = nat \<bar>sint i\<bar>
      in word_of_nat (dbl_of_nat m + (if sint i < 0 then 2 ^ 63 else 0)))"

lemma ilog2_bounds: "0 < n \<Longrightarrow> 2 ^ ilog2 n \<le> n \<and> n < 2 ^ Suc (ilog2 n)"
proof (induction n rule: ilog2.induct)
  case (1 n)
  show ?case
  proof (cases "n < 2")
    case True
    then show ?thesis using 1(2) by (simp add: ilog2.simps[of n])
  next
    case False
    then have "2 ^ ilog2 (n div 2) \<le> n div 2 \<and> n div 2 < 2 ^ Suc (ilog2 (n div 2))"
      by (intro 1(1)) auto
    then show ?thesis using False by (simp add: ilog2.simps[of n]) linarith
  qed
qed

lemma ilog2_le: "n < 2 ^ Suc k \<Longrightarrow> ilog2 n \<le> k"
proof (cases "n = 0")
  case False
  assume "n < 2 ^ Suc k"
  with ilog2_bounds[of n] False have "2 ^ ilog2 n < (2 :: nat) ^ Suc k" by linarith
  then show ?thesis using power_less_imp_less_exp[of "2 :: nat" "ilog2 n" "Suc k"] by simp
qed (simp add: ilog2.simps)

lemma ilog2_mono: "0 < m \<Longrightarrow> m \<le> n \<Longrightarrow> ilog2 m \<le> ilog2 n"
  using ilog2_bounds[of n] by (intro ilog2_le) simp

lemma ilog2_power: "ilog2 (2 ^ k) = k"
proof -
  have "2 ^ ilog2 (2 ^ k) \<le> (2 :: nat) ^ k \<and> (2 :: nat) ^ k < 2 ^ Suc (ilog2 (2 ^ k))"
    by (rule ilog2_bounds) simp
  then have "ilog2 (2 ^ k) \<le> k" "k < Suc (ilog2 (2 ^ k))"
    using power_le_imp_le_exp[of 2 "ilog2 (2 ^ k)" k]
      power_less_imp_less_exp[of 2 k "Suc (ilog2 (2 ^ k))"] by auto
  then show ?thesis by simp
qed

text \<open>Every integer of at most 53 bits has its own pattern, and they come in order.\<close>

lemma dbl_of_nat_exact:
  "0 < m \<Longrightarrow> m < 2 ^ 53 \<Longrightarrow>
   dbl_of_nat m = (ilog2 m + 1022) * 2 ^ 52 + m * 2 ^ (52 - ilog2 m) \<and>
   2 ^ 52 \<le> m * 2 ^ (52 - ilog2 m) \<and> m * 2 ^ (52 - ilog2 m) < 2 ^ 53"
proof -
  assume m: "0 < m" "m < 2 ^ 53"
  then have e: "ilog2 m \<le> 52" by (intro ilog2_le) simp
  let ?e = "ilog2 m"
  have b: "2 ^ ?e \<le> m" "m < 2 ^ Suc ?e" using ilog2_bounds[OF m(1)] by auto
  have "(2 :: nat) ^ ?e * 2 ^ (52 - ?e) = 2 ^ 52" "(2 :: nat) ^ Suc ?e * 2 ^ (52 - ?e) = 2 ^ 53"
    using e by (simp_all flip: power_add)
  then have "2 ^ 52 \<le> m * 2 ^ (52 - ?e)" "m * 2 ^ (52 - ?e) < 2 ^ 53"
    using b by (metis mult_le_mono1, metis mult_less_mono1 zero_less_numeral zero_less_power)
  with m e show ?thesis by (simp add: dbl_of_nat_def Let_def)
qed

lemma dbl_of_nat_top: "dbl_of_nat (2 ^ 53) = 1076 * 2 ^ 52"
  using ilog2_power[of 53] by (simp add: dbl_of_nat_def)

lemma dbl_of_nat_less:
  assumes "m < n" "n \<le> 2 ^ 53"
  shows "dbl_of_nat m < dbl_of_nat n"
proof (cases "m = 0")
  case True
  then show ?thesis
  proof (cases "n = 2 ^ 53")
    case False
    then show ?thesis using True assms dbl_of_nat_exact[of n] by (simp add: dbl_of_nat_def)
  next
    case N: True
    have "dbl_of_nat n = 1076 * 2 ^ 52" unfolding N by (rule dbl_of_nat_top)
    then show ?thesis using True by (simp add: dbl_of_nat_def[of 0])
  qed
next
  case False
  then have m: "0 < m" "m < 2 ^ 53" using assms by auto
  note em = dbl_of_nat_exact[OF m]
  show ?thesis
  proof (cases "n = 2 ^ 53")
    case True
    have "ilog2 m \<le> 52" using m by (intro ilog2_le) simp
    then have "(ilog2 m + 1022) * 2 ^ 52 \<le> (1074 :: nat) * 2 ^ 52" by (intro mult_le_mono1) simp
    moreover have "dbl_of_nat n = 1076 * 2 ^ 52" unfolding True by (rule dbl_of_nat_top)
    ultimately show ?thesis using em by simp
  next
    case False
    then have n: "0 < n" "n < 2 ^ 53" using assms by auto
    note en = dbl_of_nat_exact[OF n]
    have "ilog2 m \<le> ilog2 n" using m assms by (intro ilog2_mono) auto
    then consider "ilog2 m = ilog2 n" | "Suc (ilog2 m) \<le> ilog2 n" by linarith
    then show ?thesis
    proof cases
      case 1
      then show ?thesis using em en assms(1) by simp
    next
      case 2
      then have "(Suc (ilog2 m) + 1022) * 2 ^ 52 \<le> (ilog2 n + 1022) * (2 :: nat) ^ 52"
        by (intro mult_le_mono1) simp
      moreover have "(Suc (ilog2 m) + 1022) * 2 ^ 52 = (ilog2 m + 1022) * 2 ^ 52 + (2 :: nat) ^ 52"
        by simp
      ultimately show ?thesis using em en by simp
    qed
  qed
qed

lemma dbl_of_nat_bound: "m \<le> 2 ^ 53 \<Longrightarrow> dbl_of_nat m \<le> 1076 * 2 ^ 52"
  using dbl_of_nat_less[of m "2 ^ 53"] dbl_of_nat_top by (cases "m = 2 ^ 53") auto

section \<open>Integers of at most 53 bits convert exactly\<close>

lemma unat_and_mask: "unat ((w :: 64 word) AND 0x7fffffffffffffff) = unat w mod 2 ^ 63"
proof -
  have "w AND 0x7fffffffffffffff = take_bit 63 w"
    by (simp add: take_bit_eq_mask mask_eq_exp_minus_1)
  moreover have "unat (take_bit 63 w) = unat w mod 2 ^ 63"
    unfolding unsigned_take_bit_eq by (rule take_bit_eq_mod)
  ultimately show ?thesis by (simp only:)
qed

lemma pattern_parts:
  assumes "d < 2 ^ 63"
  shows "dbl_magnitude (word_of_nat d) = d \<and> \<not> dbl_negative (word_of_nat d) \<and>
    dbl_magnitude (word_of_nat (d + 2 ^ 63)) = d \<and> dbl_negative (word_of_nat (d + 2 ^ 63))"
proof -
  have u: "unat (word_of_nat d :: 64 word) = d" "unat (word_of_nat (d + 2 ^ 63) :: 64 word) = d + 2 ^ 63"
    using assms by (simp_all add: unat_of_nat del: of_nat_add)
  have b: "bit w 63 \<longleftrightarrow> odd (unat w div 2 ^ 63)" for w :: "64 word"
  proof -
    have "bit w 63 = bit (unat w) 63" by (simp add: bit_unsigned_iff)
    then show ?thesis by (simp only: bit_iff_odd)
  qed
  have "(d + 2 ^ 63) div 2 ^ 63 = 1" using assms by (simp only: div_add_self2) simp
  then show ?thesis
    unfolding dbl_magnitude_def unat_and_mask dbl_negative_def b u using assms by simp
qed

definition exact_int :: "64 word \<Rightarrow> bool" where
  "exact_int i \<longleftrightarrow> \<bar>sint i\<bar> \<le> 2 ^ 53"

lemma int_to_dbl_exact:
  assumes "exact_int i"
  shows "\<not> dbl_nan (int_to_dbl i) \<and>
    dbl_ord (int_to_dbl i) = (if sint i < 0 then - int (dbl_of_nat (nat \<bar>sint i\<bar>))
                              else int (dbl_of_nat (nat \<bar>sint i\<bar>)))"
proof -
  let ?d = "dbl_of_nat (nat \<bar>sint i\<bar>)"
  have d: "?d \<le> 1076 * 2 ^ 52" using assms by (intro dbl_of_nat_bound) (simp add: exact_int_def)
  then have "?d < 2 ^ 63" by simp
  note parts = pattern_parts[OF this]
  show ?thesis
  proof (cases "sint i < 0")
    case True
    then have "int_to_dbl i = word_of_nat (?d + 2 ^ 63)" by (simp add: int_to_dbl_def Let_def)
    then show ?thesis using parts d True by (simp add: dbl_nan_def dbl_ord_def del: of_nat_add)
  next
    case False
    then have "int_to_dbl i = word_of_nat ?d" by (simp add: int_to_dbl_def Let_def)
    then show ?thesis using parts d False by (simp add: dbl_nan_def dbl_ord_def)
  qed
qed

lemma dbl_of_nat_less_iff:
  "m \<le> 2 ^ 53 \<Longrightarrow> n \<le> 2 ^ 53 \<Longrightarrow> dbl_of_nat m < dbl_of_nat n \<longleftrightarrow> m < n"
  using dbl_of_nat_less[of m n] dbl_of_nat_less[of n m] by (cases m n rule: linorder_cases) auto

lemma dbl_of_nat_0: "dbl_of_nat 0 = 0"
  by (simp add: dbl_of_nat_def)

lemma int_to_dbl_mono:
  assumes "exact_int i" "exact_int j"
  shows "dbl_ord (int_to_dbl i) < dbl_ord (int_to_dbl j) \<longleftrightarrow> sint i < sint j"
proof -
  have b: "nat \<bar>sint i\<bar> \<le> 2 ^ 53" "nat \<bar>sint j\<bar> \<le> 2 ^ 53"
    using assms by (simp_all add: exact_int_def)
  have pos: "0 < dbl_of_nat (nat \<bar>sint k\<bar>)" if "sint k < 0" "nat \<bar>sint k\<bar> \<le> 2 ^ 53" for k :: "64 word"
    using that dbl_of_nat_less_iff[of 0 "nat \<bar>sint k\<bar>"] by (simp add: dbl_of_nat_0)
  show ?thesis
    using dbl_of_nat_less_iff[OF b] dbl_of_nat_less_iff[OF b(2) b(1)] pos[of i] pos[of j] b
    by (auto simp: int_to_dbl_exact[OF assms(1)] int_to_dbl_exact[OF assms(2)]
      simp flip: of_nat_less_iff)
qed

end
