(* ===== verification/BTreeKeys.thy ===== *)
theory BTreeKeys
  imports BTreeSeek Doubles Values "HOL-Library.List_Lexorder"
begin

text \<open>
  The keys of the ordered map, \<open>src/btree.c\<close>: \<open>ussr_btree_key_ok\<close> and \<open>ussr_btree_key_compare\<close>,
  on which sets of keys the comparison is an order, and the map's operations as the program
  exports them.
\<close>

section \<open>The comparison\<close>

text \<open>The sign of \<open>strcmp\<close>, which compares the characters as unsigned bytes.\<close>

fun strcmp :: "string \<Rightarrow> string \<Rightarrow> int" where
  "strcmp [] [] = 0"
| "strcmp [] (d # ds) = -1"
| "strcmp (c # cs) [] = 1"
| "strcmp (c # cs) (d # ds) =
     (if c = d then strcmp cs ds
      else if (of_char c :: nat) < of_char d then -1 else 1)"

fun ussr_btree_key_ok :: "ussr_value \<Rightarrow> bool" where
  "ussr_btree_key_ok (USSR_INTEGER _) = True"
| "ussr_btree_key_ok (USSR_REAL _) = True"
| "ussr_btree_key_ok (USSR_STRING _) = True"
| "ussr_btree_key_ok _ = False"

fun key_double :: "ussr_value \<Rightarrow> 64 word" where
  "key_double (USSR_REAL r) = r"
| "key_double (USSR_INTEGER i) = int_to_dbl i"
| "key_double _ = 0"

fun ussr_btree_key_compare :: "ussr_value \<Rightarrow> ussr_value \<Rightarrow> int" where
  "ussr_btree_key_compare (USSR_STRING s) (USSR_STRING t) = strcmp s t"
| "ussr_btree_key_compare (USSR_STRING s) _ = 1"
| "ussr_btree_key_compare _ (USSR_STRING t) = -1"
| "ussr_btree_key_compare (USSR_INTEGER i) (USSR_INTEGER j) =
     (if i <s j then -1 else if j <s i then 1 else 0)"
| "ussr_btree_key_compare a b =
     (if dbl_lt (key_double a) (key_double b) then -1
      else if dbl_lt (key_double b) (key_double a) then 1 else 0)"

section \<open>Ranks\<close>

datatype key_rank = NumberRank int | StringRank "nat list"

instantiation key_rank :: linorder
begin

fun less_key_rank :: "key_rank \<Rightarrow> key_rank \<Rightarrow> bool" where
  "less_key_rank (NumberRank i) (NumberRank j) \<longleftrightarrow> i < j"
| "less_key_rank (NumberRank _) (StringRank _) \<longleftrightarrow> True"
| "less_key_rank (StringRank _) (NumberRank _) \<longleftrightarrow> False"
| "less_key_rank (StringRank s) (StringRank t) \<longleftrightarrow> s < t"

definition less_eq_key_rank :: "key_rank \<Rightarrow> key_rank \<Rightarrow> bool" where
  "less_eq_key_rank a b \<longleftrightarrow> a < b \<or> a = b"

instance
proof
  fix a b c :: key_rank
  have irrefl: "\<not> a < a" for a :: key_rank by (cases a) auto
  have trans: "a < b \<Longrightarrow> b < c \<Longrightarrow> a < c" for a b c :: key_rank
    by (cases a; cases b; cases c) auto
  have total: "a < b \<or> a = b \<or> b < a" for a b :: key_rank
    by (cases a; cases b) auto
  show "(a < b) = (a \<le> b \<and> \<not> b \<le> a)"
    using irrefl trans by (auto simp: less_eq_key_rank_def)
  show "a \<le> a" by (simp add: less_eq_key_rank_def)
  show "a \<le> b \<Longrightarrow> b \<le> c \<Longrightarrow> a \<le> c" using trans by (auto simp: less_eq_key_rank_def)
  show "a \<le> b \<Longrightarrow> b \<le> a \<Longrightarrow> a = b" using irrefl trans by (auto simp: less_eq_key_rank_def)
  show "a \<le> b \<or> b \<le> a" using total[of a b] by (auto simp: less_eq_key_rank_def)
qed

end

section \<open>Where the comparison of the code is an order\<close>

lemma strcmp_rank:
  "strcmp s t =
     (if (map of_char s :: nat list) < map of_char t then -1
      else if (map of_char s :: nat list) = map of_char t then 0 else 1)"
proof (induction s t rule: strcmp.induct)
  case (4 c cs d ds)
  show ?case
  proof (cases "c = d")
    case True
    then show ?thesis using 4 by simp
  next
    case False
    then have "(of_char c :: nat) \<noteq> of_char d" by simp
    then show ?thesis using False by (auto simp: not_less)
  qed
qed auto

text \<open>Strings and integers: the keys without a real among them.\<close>

fun integer_key :: "ussr_value \<Rightarrow> bool" where
  "integer_key (USSR_INTEGER _) = True"
| "integer_key (USSR_STRING _) = True"
| "integer_key _ = False"

fun integer_rank :: "ussr_value \<Rightarrow> key_rank" where
  "integer_rank (USSR_INTEGER i) = NumberRank (sint i)"
| "integer_rank (USSR_STRING s) = StringRank (map of_char s)"
| "integer_rank _ = NumberRank 0"

interpretation integer_keys: key_order integer_key ussr_btree_key_compare integer_rank
proof
  fix a b
  assume "integer_key a" "integer_key b"
  then show "ussr_btree_key_compare a b =
      (if integer_rank a < integer_rank b then -1 else if integer_rank a = integer_rank b then 0 else 1)"
    by (cases a; cases b) (auto simp: strcmp_rank word_sless_alt signed_word_eqI)
qed

text \<open>Strings, reals that are numbers, and integers a \<open>double\<close> represents exactly.\<close>

fun exact_key :: "ussr_value \<Rightarrow> bool" where
  "exact_key (USSR_INTEGER i) \<longleftrightarrow> exact_int i"
| "exact_key (USSR_REAL r) \<longleftrightarrow> \<not> dbl_nan r"
| "exact_key (USSR_STRING _) \<longleftrightarrow> True"
| "exact_key _ \<longleftrightarrow> False"

fun exact_rank :: "ussr_value \<Rightarrow> key_rank" where
  "exact_rank (USSR_STRING s) = StringRank (map of_char s)"
| "exact_rank v = NumberRank (dbl_ord (key_double v))"

lemma exact_int_eq:
  "exact_int i \<Longrightarrow> exact_int j \<Longrightarrow> dbl_ord (int_to_dbl i) = dbl_ord (int_to_dbl j) \<longleftrightarrow> i = j"
  using int_to_dbl_mono[of i j] int_to_dbl_mono[of j i]
  by (cases "sint i" "sint j" rule: linorder_cases) (auto simp: signed_word_eqI)

interpretation exact_keys: key_order exact_key ussr_btree_key_compare exact_rank
proof
  fix a b
  assume "exact_key a" "exact_key b"
  then show "ussr_btree_key_compare a b =
      (if exact_rank a < exact_rank b then -1 else if exact_rank a = exact_rank b then 0 else 1)"
    by (cases a; cases b)
       (auto simp: strcmp_rank word_sless_alt signed_word_eqI int_to_dbl_mono exact_int_eq dbl_lt_def
         int_to_dbl_exact[THEN conjunct1])
qed

section \<open>The exported operations\<close>

text \<open>The exported operations, with the program's comparison and its check of the key.\<close>

definition ussr_btree_put ::
  "(ussr_value, 'v) ussr_btree \<Rightarrow> ussr_value \<Rightarrow> 'v \<Rightarrow> (ussr_value, 'v) ussr_btree option" where
  "ussr_btree_put tree key value =
     (if \<not> ussr_btree_key_ok key then None
      else Some (bt_put ussr_btree_key_compare key value tree))"

definition ussr_btree_delete ::
  "(ussr_value, 'v) ussr_btree \<Rightarrow> ussr_value \<Rightarrow> bool \<times> (ussr_value, 'v) ussr_btree" where
  "ussr_btree_delete tree key =
     (if bt_root tree = None \<or> \<not> ussr_btree_key_ok key then (False, tree)
      else bt_remove ussr_btree_key_compare key tree)"

end
