(* ===== verification/BTreeProps.thy ===== *)
theory BTreeProps
  imports BTreeKeys
begin

text \<open>
  What a program that uses the ordered map of \<open>src/btree.c\<close> may rely on, stated for any
  sequence of insertions and deletions on an empty tree and proved through the interpretations of
  \<open>key_order\<close> on the program's comparison.
\<close>

section \<open>Sequences of operations\<close>

datatype 'v bt_op = Put ussr_value 'v | Delete ussr_value

fun op_key :: "'v bt_op \<Rightarrow> ussr_value" where
  "op_key (Put key v) = key"
| "op_key (Delete key) = key"

text \<open>\<open>ussr_btree_put\<close> refuses other values than numbers and strings and leaves the tree alone.\<close>

fun bt_step :: "'v bt_op \<Rightarrow> (ussr_value, 'v) ussr_btree \<Rightarrow> (ussr_value, 'v) ussr_btree" where
  "bt_step (Put key v) tree = (case ussr_btree_put tree key v of None \<Rightarrow> tree | Some tree' \<Rightarrow> tree')"
| "bt_step (Delete key) tree = snd (ussr_btree_delete tree key)"

definition bt_run :: "'v bt_op list \<Rightarrow> (ussr_value, 'v) ussr_btree" where
  "bt_run ops = fold bt_step ops ussr_btree_create"

text \<open>The abstract map, from ranks.\<close>

fun map_step :: "(ussr_value \<Rightarrow> key_rank) \<Rightarrow> 'v bt_op \<Rightarrow> (key_rank \<rightharpoonup> 'v) \<Rightarrow> key_rank \<rightharpoonup> 'v" where
  "map_step rank (Put key v) m = (if ussr_btree_key_ok key then m(rank key \<mapsto> v) else m)"
| "map_step rank (Delete key) m = (if ussr_btree_key_ok key then m(rank key := None) else m)"

definition map_run :: "(ussr_value \<Rightarrow> key_rank) \<Rightarrow> 'v bt_op list \<Rightarrow> key_rank \<rightharpoonup> 'v" where
  "map_run rank ops = fold (map_step rank) ops Map.empty"

definition map_of_list :: "('k \<Rightarrow> 'r) \<Rightarrow> ('k \<times> 'v) list \<Rightarrow> 'r \<rightharpoonup> 'v" where
  "map_of_list rank es = map_of (map (\<lambda>e. (rank (fst e), snd e)) es)"

text \<open>
  The sets of keys the comparison orders, with their ranks: strings with the integers, or strings
  with the reals that are numbers and the integers a \<open>double\<close> represents.
\<close>

definition key_orders :: "((ussr_value \<Rightarrow> bool) \<times> (ussr_value \<Rightarrow> key_rank)) set" where
  "key_orders = {(integer_key, integer_rank), (exact_key, exact_rank)}"

definition usable :: "(ussr_value \<Rightarrow> bool) \<Rightarrow> ussr_value \<Rightarrow> bool" where
  "usable valid key \<longleftrightarrow> ussr_btree_key_ok key \<longrightarrow> valid key"

section \<open>The association list is the map\<close>

lemma map_of_list_upd:
  "sorted_wrt (<) (map (rank \<circ> fst) es) \<Longrightarrow>
   map_of_list rank (upd_list rank key v es) = (map_of_list rank es)(rank key \<mapsto> v)"
  by (induction es) (auto simp: map_of_list_def fun_eq_iff)

lemma map_of_list_del:
  "map_of_list rank (del_list rank key es) = (map_of_list rank es)(rank key := None)"
  by (induction es) (auto simp: map_of_list_def del_list_def fun_eq_iff)

lemma map_of_list_lookup: "lookup_list rank key es = map_of_list rank es (rank key)"
  by (induction es) (auto simp: map_of_list_def lookup_list_def)

lemma map_of_list_key: "has_key rank key es \<longleftrightarrow> rank key \<in> dom (map_of_list rank es)"
  by (induction es) (auto simp: map_of_list_def has_key_def)

lemma map_of_list_card:
  fixes rank :: "'k \<Rightarrow> 'r::linorder"
  assumes "sorted_wrt (<) (map (rank \<circ> fst) es)"
  shows "card (dom (map_of_list rank es)) = length es"
proof -
  have "dom (map_of_list rank es) = set (map (rank \<circ> fst) es)"
    by (auto simp: map_of_list_def dom_map_of_conv_image_fst image_image)
  moreover have "distinct (map (rank \<circ> fst) es)"
    using strict_sorted_iff[THEN iffD1, OF assms] by blast
  ultimately show ?thesis using distinct_card[of "map (rank \<circ> fst) es"] by simp
qed

lemma while_sorted:
  assumes "sorted_wrt (\<lambda>x y. P y \<longrightarrow> P x) xs"
  shows "dropWhile P xs = filter (\<lambda>x. \<not> P x) xs" "takeWhile P xs = filter P xs"
  using assms by (induction xs) (auto simp: filter_empty_conv filter_id_conv)

lemma sorted_rank:
  "sorted_wrt (<) (map (rank \<circ> fst) es) \<Longrightarrow> (\<And>x y. rank (fst x) < rank (fst y) \<Longrightarrow> P y \<Longrightarrow> P x) \<Longrightarrow>
   sorted_wrt (\<lambda>x y. P y \<longrightarrow> P x) es"
  unfolding sorted_wrt_map by (erule sorted_wrt_mono_rel[rotated]) auto

section \<open>Runs\<close>

lemma key_orders_are_orders: "(valid, rank) \<in> key_orders \<Longrightarrow> key_order valid ussr_btree_key_compare rank"
  using integer_keys.key_order_axioms exact_keys.key_order_axioms by (auto simp: key_orders_def)

lemma key_orders_key_ok: "(valid, rank) \<in> key_orders \<Longrightarrow> valid key \<Longrightarrow> ussr_btree_key_ok key"
  by (cases key) (auto simp: key_orders_def)

lemma step_refines:
  assumes order: "(valid, rank) \<in> key_orders" and ok: "bt_ok valid rank tree" and key: "usable valid (op_key op)"
  shows "bt_ok valid rank (bt_step op tree) \<and>
    map_of_list rank (bt_list (bt_step op tree)) = map_step rank op (map_of_list rank (bt_list tree))"
proof -
  note k = key_orders_are_orders[OF order]
  have s: "sorted_wrt (<) (map (rank \<circ> fst) (bt_list tree))"
    using key_order.bt_list_sorted[OF k ok] by (simp add: leaf_ok_def)
  show ?thesis
  proof (cases op)
    case (Put key v)
    then show ?thesis
      using ok key key_order.put_refines[OF k ok, of key v] map_of_list_upd[OF s]
      by (simp add: usable_def ussr_btree_put_def)
  next
    case (Delete key)
    obtain found tree' where r: "bt_remove ussr_btree_key_compare key tree = (found, tree')" by fastforce
    have "bt_root tree = None \<Longrightarrow> map_of_list rank (bt_list tree) = Map.empty"
      by (simp add: bt_list_def map_of_list_def)
    then show ?thesis
      using Delete ok key r key_order.delete_refines[OF k ok _ r] map_of_list_del[of rank key]
      by (auto simp: usable_def ussr_btree_delete_def)
  qed
qed

lemma run_refines:
  assumes order: "(valid, rank) \<in> key_orders" and keys: "\<forall>op\<in>set ops. usable valid (op_key op)"
  shows "bt_ok valid rank (bt_run ops) \<and> map_of_list rank (bt_list (bt_run ops)) = map_run rank ops"
proof -
  have "bt_ok valid rank tree \<Longrightarrow> \<forall>op\<in>set ops. usable valid (op_key op) \<Longrightarrow>
    bt_ok valid rank (fold bt_step ops tree) \<and>
    map_of_list rank (bt_list (fold bt_step ops tree)) = fold (map_step rank) ops (map_of_list rank (bt_list tree))"
    for tree
  proof (induction ops arbitrary: tree)
    case (Cons op ops)
    from step_refines[OF order Cons.prems(1), of op] Cons.prems(2)
    have "bt_ok valid rank (bt_step op tree)"
      "map_of_list rank (bt_list (bt_step op tree)) = map_step rank op (map_of_list rank (bt_list tree))"
      by auto
    with Cons.IH[of "bt_step op tree"] Cons.prems(2) show ?case by simp
  qed simp
  from this[OF bt_ok_create keys] show ?thesis
    by (simp add: bt_run_def map_run_def ussr_btree_create_def bt_list_def map_of_list_def)
qed

lemma run_sorted:
  assumes order: "(valid, rank) \<in> key_orders" and keys: "\<forall>op\<in>set ops. usable valid (op_key op)"
  shows "sorted_wrt (<) (map (rank \<circ> fst) (bt_list (bt_run ops)))"
  using key_order.bt_list_sorted[OF key_orders_are_orders[OF order]] run_refines[OF order keys]
  by (auto simp: leaf_ok_def)

section \<open>The tree stays flat\<close>

primrec bt_height :: "('k, 'v) bt_node \<Rightarrow> nat" where
  "bt_height (Leaf a es) = 0"
| "bt_height (Node ks cs) = Suc (map bt_height cs ! 0)"

lemma sorted_height: "bt_sorted valid rank h lo hi t \<Longrightarrow> bt_height t = h"
proof (induction h arbitrary: lo hi t)
  case 0
  then show ?case by (cases t) auto
next
  case (Suc h)
  then obtain ks cs where t: "t = Node ks cs" "kids_ok (bt_sorted valid rank h) rank lo ks cs hi"
    by (cases t) auto
  have l: "0 < length cs" using kids_ok_length[OF t(2)] by simp
  have "bt_sorted valid rank h (lo_at rank lo ks 0) (hi_at rank ks hi 0) (cs ! 0)"
    using kids_ok_at[OF t(2), of 0] by blast
  from Suc.IH[OF this] l show ?case by (simp add: t(1))
qed

lemma length_concat_ge: "\<forall>c\<in>set cs. b \<le> length (f c) \<Longrightarrow> b * length cs \<le> length (concat (map f cs))"
  by (induction cs) auto

lemma sorted_fanout:
  assumes "bt_sorted valid rank h lo hi t" "bt_sized t"
  shows "BT_MIN \<le> bt_n t \<Longrightarrow> BT_MIN * (BT_MIN + 1) ^ h \<le> length (bt_entries t)"
    "1 \<le> bt_n t \<Longrightarrow> 0 < h \<Longrightarrow> 2 * BT_MIN * (BT_MIN + 1) ^ (h - 1) \<le> length (bt_entries t)"
proof -
  have kids: "BT_MIN * (BT_MIN + 1) ^ h * (length ks + 1) \<le> length (bt_entries (Node ks cs))"
    if IH: "\<And>lo hi (c :: ('a, 'c) bt_node). bt_sorted valid rank h lo hi c \<Longrightarrow> bt_sized c \<Longrightarrow> BT_MIN \<le> bt_n c \<Longrightarrow>
        BT_MIN * (BT_MIN + 1) ^ h \<le> length (bt_entries c)"
      and k: "kids_ok (bt_sorted valid rank h) rank lo ks cs hi" and sz: "bt_sized (Node ks cs)"
    for h lo hi ks and cs :: "('a, 'c) bt_node list"
  proof -
    note len = kids_ok_length[OF k]
    have "BT_MIN * (BT_MIN + 1) ^ h \<le> length (bt_entries c)" if c: "c \<in> set cs" for c
    proof -
      from c obtain i where i: "i \<le> length ks" "c = cs ! i" using len
        by (metis in_set_conv_nth less_Suc_eq_le)
      then have "bt_sorted valid rank h (lo_at rank lo ks i) (hi_at rank ks hi i) c"
        using kids_ok_at[OF k] by blast
      then show ?thesis by (rule IH) (use sz c in \<open>auto simp: list_all_iff\<close>)
    qed
    then show ?thesis using length_concat_ge[of cs "BT_MIN * (BT_MIN + 1) ^ h" bt_entries] len by simp
  qed
  have full: "BT_MIN \<le> bt_n t \<Longrightarrow> BT_MIN * (BT_MIN + 1) ^ h \<le> length (bt_entries t)"
    if "bt_sorted valid rank h lo hi t" "bt_sized t" for h lo hi and t :: "('a, 'c) bt_node"
    using that
  proof (induction h arbitrary: lo hi t)
    case 0
    then show ?case by (cases t) auto
  next
    case (Suc h)
    then obtain ks cs where t: "t = Node ks cs" "kids_ok (bt_sorted valid rank h) rank lo ks cs hi"
      by (cases t) auto
    have "BT_MIN * (BT_MIN + 1) ^ h * (length ks + 1) \<le> length (bt_entries t)"
      using kids[OF _ t(2)] Suc.IH Suc.prems(3) t(1) by blast
    moreover have "BT_MIN * (BT_MIN + 1) ^ h * (BT_MIN + 1) \<le> BT_MIN * (BT_MIN + 1) ^ h * (length ks + 1)"
      using Suc.prems(1) t(1) by (intro mult_le_mono2) simp
    ultimately have "BT_MIN * (BT_MIN + 1) ^ h * (BT_MIN + 1) \<le> length (bt_entries t)" by linarith
    then show ?case by (simp only: power_Suc2 mult.assoc)
  qed
  show "BT_MIN \<le> bt_n t \<Longrightarrow> BT_MIN * (BT_MIN + 1) ^ h \<le> length (bt_entries t)"
    by (rule full[OF assms])
  show "2 * BT_MIN * (BT_MIN + 1) ^ (h - 1) \<le> length (bt_entries t)" if "1 \<le> bt_n t" "0 < h"
  proof -
    obtain g where g: "h = Suc g" using \<open>0 < h\<close> by (cases h) auto
    then obtain ks cs where t: "t = Node ks cs" "kids_ok (bt_sorted valid rank g) rank lo ks cs hi"
      using assms(1) by (cases t) auto
    have "BT_MIN * (BT_MIN + 1) ^ g * (length ks + 1) \<le> length (bt_entries t)"
      using kids[OF _ t(2)] full[of g] t(1) assms(2) by blast
    moreover have "BT_MIN * (BT_MIN + 1) ^ g * 2 \<le> BT_MIN * (BT_MIN + 1) ^ g * (length ks + 1)"
      using that t(1) by (intro mult_le_mono2) simp
    ultimately have "BT_MIN * (BT_MIN + 1) ^ g * 2 \<le> length (bt_entries t)" by linarith
    then show ?thesis by (simp add: g mult.assoc mult.left_commute mult.commute)
  qed
qed

section \<open>Properties\<close>

text \<open>
  C3: The tree is a map. After any sequence of insertions and deletions a lookup finds the value
  last inserted under the key, unless it was deleted since; the count is the number of keys, and a
  deletion reports whether the key was there.
\<close>

theorem btree_is_a_map:
  assumes "(valid, rank) \<in> key_orders" "\<forall>op\<in>set ops. usable valid (op_key op)" "valid key"
  shows "ussr_btree_get ussr_btree_key_compare (bt_run ops) key = map_run rank ops (rank key) \<and>
    bt_count (bt_run ops) = card (dom (map_run rank ops)) \<and>
    fst (ussr_btree_delete (bt_run ops) key) = (map_run rank ops (rank key) \<noteq> None)"
proof (intro conjI)
  note k = key_orders_are_orders[OF assms(1)]
  note r = run_refines[OF assms(1,2)] and s = run_sorted[OF assms(1,2)]
  show "ussr_btree_get ussr_btree_key_compare (bt_run ops) key = map_run rank ops (rank key)"
    using key_order.get_refines[OF k _ assms(3), of "bt_run ops"] r by (simp add: map_of_list_lookup)
  show "bt_count (bt_run ops) = card (dom (map_run rank ops))"
    using r map_of_list_card[OF s] by (simp add: bt_ok_def)
  obtain found tree' where d: "bt_remove ussr_btree_key_compare key (bt_run ops) = (found, tree')" by fastforce
  have "bt_root (bt_run ops) = None \<Longrightarrow> \<not> found" using d by (simp add: bt_remove_def)
  moreover have "found \<longleftrightarrow> rank key \<in> dom (map_run rank ops)"
    using key_order.delete_refines[OF k _ assms(3) d] r by (simp add: map_of_list_key)
  ultimately show "fst (ussr_btree_delete (bt_run ops) key) = (map_run rank ops (rank key) \<noteq> None)"
    using d key_orders_key_ok[OF assms(1,3)] by (auto simp: ussr_btree_delete_def)
qed

text \<open>
  C4: The tree stays balanced. After any sequence of insertions and deletions all nodes below the
  root hold between \<open>BT_MIN\<close> and \<open>BT_MAX\<close> keys, all leaves are at the same depth, and a tree of
  height \<open>h > 0\<close> holds at least \<open>2 * 16 * 17 ^ (h - 1)\<close> keys.
\<close>

theorem btree_stays_balanced:
  assumes "(valid, rank) \<in> key_orders" "\<forall>op\<in>set ops. usable valid (op_key op)"
  shows "case bt_root (bt_run ops) of None \<Rightarrow> bt_count (bt_run ops) = 0
    | Some t \<Rightarrow> bt_sized t \<and> bt_n t \<le> BT_MAX \<and> bt_sorted valid rank (bt_height t) None None t \<and>
        (bt_height t = 0 \<or> 2 * 16 * 17 ^ (bt_height t - 1) \<le> bt_count (bt_run ops))"
proof (cases "bt_root (bt_run ops)")
  case None
  then show ?thesis using run_refines[OF assms] by (simp add: bt_ok_def bt_list_def)
next
  case (Some t)
  then obtain h where h: "bt_sorted valid rank h None None t" "bt_sized t" "1 \<le> bt_n t" "bt_n t \<le> BT_MAX"
    "bt_count (bt_run ops) = length (bt_entries t)"
    using run_refines[OF assms] by (auto simp: bt_ok_def bt_list_def)
  note e = sorted_height[OF h(1)]
  have "bt_height t = 0 \<or> 2 * 16 * 17 ^ (bt_height t - 1) \<le> bt_count (bt_run ops)"
    using sorted_fanout(2)[OF h(1,2,3)] unfolding e h(5) by (auto simp: BT_MIN_def BT_MAX_def)
  then show ?thesis using h Some e by simp
qed

text \<open>
  C35: A traversal returns, and calls the callback on the entries of the map, each once and in the
  order of their keys, until the callback answers other than 0.
\<close>

theorem btree_visits_in_order:
  assumes "(valid, rank) \<in> key_orders" "\<forall>op\<in>set ops. usable valid (op_key op)"
  shows "\<exists>es. ussr_btree_each f s (bt_run ops) = Some (bt_visit f s es) \<and>
    sorted_wrt (<) (map (rank \<circ> fst) es) \<and> map_of_list rank es = map_run rank ops"
  using key_order.each_refines[OF key_orders_are_orders[OF assms(1)], of "bt_run ops" f s]
    run_refines[OF assms] run_sorted[OF assms] by blast

text \<open>
  C33: The nearest keys. \<open>btceil\<close>, \<open>btnext\<close>, \<open>btfloor\<close> and \<open>btprev\<close> return, with the least key that
  is at least (above) the given one and the greatest key that is at most (below) it, or null;
  \<open>btfirst\<close> and \<open>btlast\<close> give the least and the greatest key.
\<close>

theorem btree_finds_neighbours:
  assumes "(valid, rank) \<in> key_orders" "\<forall>op\<in>set ops. usable valid (op_key op)" "valid key"
  defines "tree \<equiv> bt_run ops"
  shows "map_option (bt_key_out tree) (bt_seek ussr_btree_key_compare tree key strict) =
      Some (head_key (filter (\<lambda>e. if strict then rank key < rank (fst e) else rank key \<le> rank (fst e))
        (bt_list tree))) \<and>
    map_option (bt_key_out tree) (bt_seek_back ussr_btree_key_compare tree key strict) =
      Some (head_key (rev (filter (\<lambda>e. if strict then rank (fst e) < rank key else rank (fst e) \<le> rank key)
        (bt_list tree)))) \<and>
    bt_key_out tree (bt_first tree) = head_key (bt_list tree) \<and>
    bt_key_out tree (bt_last tree) = head_key (rev (bt_list tree)) \<and>
    sorted_wrt (<) (map (rank \<circ> fst) (bt_list tree)) \<and> map_of_list rank (bt_list tree) = map_run rank ops"
proof -
  note k = key_orders_are_orders[OF assms(1)]
  note r = run_refines[OF assms(1,2), folded tree_def] and s = run_sorted[OF assms(1,2), folded tree_def]
  have p: "key_order.passes rank key st = (\<lambda>e. if st then rank (fst e) \<le> rank key else rank (fst e) < rank key)" for st
    by (simp add: fun_eq_iff key_order.passes_def[OF k])
  have w: "dropWhile (key_order.passes rank key st) (bt_list tree) =
      filter (\<lambda>x. \<not> key_order.passes rank key st x) (bt_list tree)"
    "takeWhile (key_order.passes rank key st) (bt_list tree) =
      filter (key_order.passes rank key st) (bt_list tree)" for st
    using while_sorted[OF sorted_rank[OF s], of "key_order.passes rank key st"] by (auto simp: p split: if_splits)
  show ?thesis
    using key_order.seek_refines[OF k _ assms(3), of tree strict] key_order.seek_back_refines[OF k _ assms(3), of tree strict]
      key_order.ends_refine[OF k, of tree] r s unfolding w
    by (cases strict) (simp_all add: p not_le not_less)
qed

text \<open>
  C34: \<open>btrange\<close> and \<open>btkeys\<close> return the entries from the lower bound on and below the upper bound,
  in key order, at most as many as the limit when there is one.
\<close>

theorem btree_ranges:
  assumes "(valid, rank) \<in> key_orders" "\<forall>op\<in>set ops. usable valid (op_key op)"
    "\<forall>b\<in>set_option lo \<union> set_option hi. valid b"
  shows "bt_range ussr_btree_key_compare (bt_run ops) lo hi limit =
    Some (at_most limit (filter (\<lambda>e. (\<forall>b\<in>set_option lo. rank b \<le> rank (fst e)) \<and>
      (\<forall>b\<in>set_option hi. rank (fst e) < rank b)) (bt_list (bt_run ops))))"
proof -
  note k = key_orders_are_orders[OF assms(1)]
  let ?es = "bt_list (bt_run ops)"
  note r = run_refines[OF assms(1,2)] and s = run_sorted[OF assms(1,2)]
  note p = key_order.passes_def[OF k] and u = key_order.under_def[OF k]
  have l: "(case lo of None \<Rightarrow> ?es | Some a \<Rightarrow> dropWhile (key_order.passes rank a False) ?es) =
      filter (\<lambda>e. \<forall>b\<in>set_option lo. rank b \<le> rank (fst e)) ?es"
    using while_sorted(1)[OF sorted_rank[OF s], of "key_order.passes rank (the lo) False"]
    by (cases lo) (auto simp: p not_less)
  have u': "key_order.under rank hi = (\<lambda>e. \<forall>b\<in>set_option hi. rank (fst e) < rank b)"
    by (auto simp: fun_eq_iff u split: option.split)
  have w: "takeWhile (key_order.under rank hi) (filter P ?es) = filter (key_order.under rank hi) (filter P ?es)"
    for P
    by (rule while_sorted(2)[OF sorted_rank[where rank = rank]])
      (use s in \<open>auto simp: u sorted_wrt_map sorted_wrt_filter split: option.splits\<close>)
  have "bt_range ussr_btree_key_compare (bt_run ops) lo hi limit =
    Some (at_most limit (takeWhile (key_order.under rank hi) (filter (\<lambda>e. \<forall>b\<in>set_option lo. rank b \<le> rank (fst e)) ?es)))"
    using key_order.range_refines[OF k, of "bt_run ops" lo hi limit] r assms(3) unfolding l by blast
  then show ?thesis unfolding w[unfolded u'] u' filter_filter by (simp only: conj_commute)
qed

section \<open>Keys the comparison does not order\<close>

lemma sample_patterns:
  "int_to_dbl 9007199254740993 = 0x4340000000000000" "int_to_dbl 9007199254740992 = 0x4340000000000000"
  "int_to_dbl 7 = 0x401C000000000000" "int_to_dbl 5 = 0x4014000000000000" "int_to_dbl 2 = 0x4000000000000000"
  by (simp_all add: int_to_dbl_def dbl_of_nat_def ilog2.simps)

lemmas compare_eval = sample_patterns dbl_lt_def dbl_nan_def dbl_ord_def dbl_magnitude_def dbl_negative_def

lemmas run_eval = bt_run_def ussr_btree_create_def ussr_btree_put_def ussr_btree_delete_def bt_put_def
  Let_def bt_lower_def bt_upper_def bt_bisect.simps BT_MAX_def bt_list_def bt_remove_def

text \<open>
  Over all keys the comparison is no order, as these values show: an integer beyond 2 ^ 53 equals the real it rounds
  to, so two different integers both equal one real; and NaN equals every number, so inserting
  under NaN replaces another key's value.
\<close>

lemma compare_is_no_order:
  "ussr_btree_key_compare (USSR_INTEGER 9007199254740993) (USSR_REAL (int_to_dbl 9007199254740992)) = 0 \<and>
   ussr_btree_key_compare (USSR_REAL (int_to_dbl 9007199254740992)) (USSR_INTEGER 9007199254740992) = 0 \<and>
   ussr_btree_key_compare (USSR_INTEGER 9007199254740993) (USSR_INTEGER 9007199254740992) = 1 \<and>
   bt_list (bt_run [Put (USSR_INTEGER 7) (1 :: nat), Put (USSR_REAL 0x7FF8000000000000) 2]) = [(USSR_INTEGER 7, 2)]"
  by (simp add: compare_eval run_eval word_sless_alt)

section \<open>The properties at a concrete input\<close>

definition sample_ops :: "nat bt_op list" where
  "sample_ops = [Put (USSR_INTEGER 5) 1, Put (USSR_STRING ''a'') 2, Put (USSR_REAL 0x3FF8000000000000) 3,
     Delete (USSR_INTEGER 5), Put (USSR_INTEGER 2) 4]"

lemma sample_usable: "\<forall>op\<in>set sample_ops. usable exact_key (op_key op)"
  by (simp add: sample_ops_def usable_def exact_int_def compare_eval)

lemma exact_order: "(exact_key, exact_rank) \<in> key_orders"
  by (simp add: key_orders_def)

theorem btree_is_a_map_witness:
  "ussr_btree_get ussr_btree_key_compare (bt_run sample_ops) (USSR_STRING ''a'') = Some 2"
  using btree_is_a_map[OF exact_order sample_usable, of "USSR_STRING ''a''"]
  by (simp add: map_run_def sample_ops_def)

theorem btree_stays_balanced_witness:
  "case bt_root (bt_run sample_ops) of None \<Rightarrow> bt_count (bt_run sample_ops) = 0
    | Some t \<Rightarrow> bt_sized t \<and> bt_n t \<le> BT_MAX \<and> bt_sorted exact_key exact_rank (bt_height t) None None t \<and>
        (bt_height t = 0 \<or> 2 * 16 * 17 ^ (bt_height t - 1) \<le> bt_count (bt_run sample_ops))"
  by (rule btree_stays_balanced[OF exact_order sample_usable])

theorem btree_visits_in_order_witness:
  "\<exists>es. ussr_btree_each (\<lambda>k v s. (0, s + v)) 0 (bt_run sample_ops) = Some (bt_visit (\<lambda>k v s. (0, s + v)) 0 es) \<and>
    sorted_wrt (<) (map (exact_rank \<circ> fst) es) \<and> map_of_list exact_rank es = map_run exact_rank sample_ops"
  by (rule btree_visits_in_order[OF exact_order sample_usable])

lemma sample_list: "bt_list (bt_run sample_ops) =
    [(USSR_REAL 0x3FF8000000000000, 3), (USSR_INTEGER 2, 4), (USSR_STRING ''a'', 2)]"
  by (simp add: sample_ops_def run_eval compare_eval)

theorem btree_finds_neighbours_witness:
  "map_option (bt_key_out (bt_run sample_ops))
     (bt_seek ussr_btree_key_compare (bt_run sample_ops) (USSR_INTEGER 2) True) = Some (Some (USSR_STRING ''a''))"
proof -
  have "filter (\<lambda>e. exact_rank (USSR_INTEGER 2) < exact_rank (fst e)) (bt_list (bt_run sample_ops)) =
      [(USSR_STRING ''a'', 2)]"
    unfolding sample_list by (simp add: compare_eval)
  then show ?thesis
    using btree_finds_neighbours[OF exact_order sample_usable, of "USSR_INTEGER 2" True]
    by (simp add: head_key_def exact_int_def)
qed

theorem btree_ranges_witness:
  "bt_range ussr_btree_key_compare (bt_run sample_ops) None (Some (USSR_STRING ''a'')) 5 =
     Some [(USSR_REAL 0x3FF8000000000000, 3), (USSR_INTEGER 2, 4)]"
proof -
  have "filter (\<lambda>e. exact_rank (fst e) < exact_rank (USSR_STRING ''a'')) (bt_list (bt_run sample_ops)) =
      [(USSR_REAL 0x3FF8000000000000, 3), (USSR_INTEGER 2, 4)]"
    unfolding sample_list by (simp add: compare_eval)
  then show ?thesis
    using btree_ranges[OF exact_order sample_usable, of None "Some (USSR_STRING ''a'')" 5]
    by (simp add: at_most_def)
qed

end
