(* ===== verification/Regex.thy ===== *)
theory Regex
  imports Prelude
begin

text \<open>
  The regular expression engine, \<open>src/regex.c\<close>: characters, instructions, and the compiler, which
  reads a pattern by recursive descent straight into instructions with relative jumps. A pattern
  is the bytes before its NUL; the pointer \<open>ps->p\<close> is the list of those not read yet. A failed
  function returns the error it sets. Running out of memory is not modelled.
\<close>

section \<open>Characters\<close>

text \<open>Characters are code points; a byte that is not valid UTF-8 is \<open>RE_BAD_BYTE\<close> plus the byte.\<close>

definition RE_MAX_CODE :: nat where "RE_MAX_CODE = 4096"
definition RE_MAX_RANGES :: nat where "RE_MAX_RANGES = 4096"
definition RE_MAX_REPEAT :: nat where "RE_MAX_REPEAT = 1000"
definition RE_MAX_DEPTH :: nat where "RE_MAX_DEPTH = 100"
definition RE_MAX_GROUPS :: nat where "RE_MAX_GROUPS = 32"
definition RE_MAX_CHAR :: nat where "RE_MAX_CHAR = 0x10ffff"
definition RE_BAD_BYTE :: nat where "RE_BAD_BYTE = 0x110000"

text \<open>How many continuation bytes a lead byte needs, and the bits it carries.\<close>

definition re_lead :: "byte \<Rightarrow> (nat \<times> nat) option" where
  "re_lead b =
     (let c = unat b in
      if 0xc2 \<le> c \<and> c \<le> 0xdf then Some (1, c AND 0x1f)
      else if 0xe0 \<le> c \<and> c \<le> 0xef then Some (2, c AND 0x0f)
      else if 0xf0 \<le> c \<and> c \<le> 0xf4 then Some (3, c AND 0x07)
      else None)"

primrec re_tail :: "nat \<Rightarrow> byte list \<Rightarrow> nat option" where
  "re_tail v [] = Some v"
| "re_tail v (b # bs) =
     (if b AND 0xc0 \<noteq> 0x80 then None else re_tail (push_bit 6 v OR unat (b AND 0x3f)) bs)"

text \<open>
  The character at the start of a non-empty text and its bytes; the argument is the text from \<open>p\<close>
  to \<open>end\<close>.
\<close>

fun re_decode :: "byte list \<Rightarrow> nat \<times> nat" where
  "re_decode [] = (0, 1)"
| "re_decode (b # bs) =
     (let c = unat b; bad = (RE_BAD_BYTE + c, 1) in
      if c < 0x80 then (c, 1)
      else (case re_lead b of
        None \<Rightarrow> bad
      | Some (need, v) \<Rightarrow>
          if length (b # bs) \<le> need then bad
          else (case re_tail v (take need bs) of
            None \<Rightarrow> bad
          | Some value \<Rightarrow>
              if need = 2 \<and> value < 0x800 \<or> need = 3 \<and> (value < 0x10000 \<or> value > RE_MAX_CHAR) then bad
              else (value, need + 1))))"

definition ussr_regex_char_length :: "byte list \<Rightarrow> nat \<Rightarrow> nat" where
  "ussr_regex_char_length text at = (if at < length text then snd (re_decode (drop at text)) else 1)"

abbreviation chr :: "char \<Rightarrow> nat" where "chr c \<equiv> of_char c"

definition re_lower :: "nat \<Rightarrow> nat" where
  "re_lower c = (if chr CHR ''A'' \<le> c \<and> c \<le> chr CHR ''Z'' then c + 32 else c)"

definition re_is_word :: "nat \<Rightarrow> bool" where
  "re_is_word c \<longleftrightarrow> chr CHR ''0'' \<le> c \<and> c \<le> chr CHR ''9'' \<or> chr CHR ''A'' \<le> c \<and> c \<le> chr CHR ''Z'' \<or>
     chr CHR ''a'' \<le> c \<and> c \<le> chr CHR ''z'' \<or> c = chr CHR ''_''"

section \<open>Instructions\<close>

datatype re_inst =
    OP_CHAR nat
  | OP_CHARI nat
  | OP_ANY
  | OP_ANYNL
  | OP_CLASS nat nat bool
  | OP_CLASSI nat nat bool
  | OP_SPLIT int int
  | OP_JMP int
  | OP_SAVE nat
  | OP_BOL
  | OP_EOL
  | OP_MBOL
  | OP_MEOL
  | OP_WORDB
  | OP_NWORDB
  | OP_MATCH

text \<open>The parser with the part of the regex it fills. Ranges are pairs, low and high.\<close>

record re_parser =
  re_code :: "re_inst list"
  re_ranges :: "(nat \<times> nat) list"
  re_groups :: nat
  ps_p :: "byte list"
  ps_depth :: nat
  ps_icase :: bool
  ps_multi :: bool
  ps_dotall :: bool

text \<open>\<open>Re_fuel\<close> is no error of the code: it is the recursion bound of the model running out.\<close>

datatype re_error = Re_error string | Re_fuel

type_synonym 'a re_result = "re_error + 'a"

fun re_bind :: "'a re_result \<Rightarrow> ('a \<Rightarrow> 'b re_result) \<Rightarrow> 'b re_result" where
  "re_bind (Inl e) f = Inl e"
| "re_bind (Inr a) f = f a"

lemma re_bind_cong [fundef_cong]:
  "m = m' \<Longrightarrow> (\<And>a. m' = Inr a \<Longrightarrow> f a = f' a) \<Longrightarrow> re_bind m f = re_bind m' f'"
  by (cases m') auto

lemma re_bind_Inr: "re_bind m f = Inr b \<longleftrightarrow> (\<exists>a. m = Inr a \<and> f a = Inr b)"
  by (cases m) auto

section \<open>Making code\<close>

definition re_emit :: "re_inst \<Rightarrow> re_parser \<Rightarrow> re_parser re_result" where
  "re_emit inst ps =
     (if length (re_code ps) \<ge> RE_MAX_CODE then Inl (Re_error ''too big'')
      else Inr (ps\<lparr>re_code := re_code ps @ [inst]\<rparr>))"

definition re_insert :: "nat \<Rightarrow> re_inst \<Rightarrow> re_parser \<Rightarrow> re_parser re_result" where
  "re_insert at inst ps =
     (if length (re_code ps) \<ge> RE_MAX_CODE then Inl (Re_error ''too big'')
      else Inr (ps\<lparr>re_code := take at (re_code ps) @ inst # drop at (re_code ps)\<rparr>))"

text \<open>The code of [from, to) again, at the end.\<close>

definition re_copy :: "nat \<Rightarrow> nat \<Rightarrow> re_parser \<Rightarrow> re_parser re_result" where
  "re_copy from to ps =
     (if length (re_code ps) + (to - from) > RE_MAX_CODE then Inl (Re_error ''too big'')
      else Inr (ps\<lparr>re_code := re_code ps @ take (to - from) (drop from (re_code ps))\<rparr>))"

definition re_add_range :: "nat \<Rightarrow> nat \<Rightarrow> re_parser \<Rightarrow> re_parser re_result" where
  "re_add_range low high ps =
     (if length (re_ranges ps) \<ge> RE_MAX_RANGES then Inl (Re_error ''too big'')
      else Inr (ps\<lparr>re_ranges := re_ranges ps @ [(low, high)]\<rparr>))"

primrec re_add_ranges :: "(nat \<times> nat) list \<Rightarrow> re_parser \<Rightarrow> re_parser re_result" where
  "re_add_ranges [] ps = Inr ps"
| "re_add_ranges (r # rs) ps = re_bind (re_add_range (fst r) (snd r) ps) (re_add_ranges rs)"

text \<open>The ranges of \<open>\d\<close>, \<open>\D\<close> and the other shorthands.\<close>

definition re_shorthand_ranges :: "byte \<Rightarrow> (nat \<times> nat) list option" where
  "re_shorthand_ranges letter =
     (let top = RE_BAD_BYTE + 255 in
      if letter = byte_of_char CHR ''d'' then Some [(chr CHR ''0'', chr CHR ''9'')]
      else if letter = byte_of_char CHR ''D'' then Some [(0, chr CHR ''0'' - 1), (chr CHR ''9'' + 1, top)]
      else if letter = byte_of_char CHR ''w'' then
        Some [(chr CHR ''0'', chr CHR ''9''), (chr CHR ''A'', chr CHR ''Z''), (chr CHR ''_'', chr CHR ''_''),
          (chr CHR ''a'', chr CHR ''z'')]
      else if letter = byte_of_char CHR ''W'' then
        Some [(0, chr CHR ''0'' - 1), (chr CHR ''9'' + 1, chr CHR ''A'' - 1),
          (chr CHR ''Z'' + 1, chr CHR ''_'' - 1), (chr CHR ''_'' + 1, chr CHR ''a'' - 1), (chr CHR ''z'' + 1, top)]
      else if letter = byte_of_char CHR ''s'' then Some [(9, 13), (chr CHR '' '', chr CHR '' '')]
      else if letter = byte_of_char CHR ''S'' then
        Some [(0, 8), (14, chr CHR '' '' - 1), (chr CHR '' '' + 1, top)]
      else None)"

text \<open>\<open>None\<close> when the letter is no shorthand.\<close>

definition re_shorthand :: "byte \<Rightarrow> re_parser \<Rightarrow> re_parser re_result option" where
  "re_shorthand letter ps = map_option (\<lambda>rs. re_add_ranges rs ps) (re_shorthand_ranges letter)"

text \<open>The byte at \<open>ps->p\<close> and the one after it; 0 at the end of the pattern.\<close>

definition at_p :: "re_parser \<Rightarrow> byte" where
  "at_p ps = (case ps_p ps of [] \<Rightarrow> 0 | b # _ \<Rightarrow> b)"

definition at_p1 :: "re_parser \<Rightarrow> byte" where
  "at_p1 ps = (case ps_p ps of _ # b # _ \<Rightarrow> b | _ \<Rightarrow> 0)"

definition skip :: "nat \<Rightarrow> re_parser \<Rightarrow> re_parser" where
  "skip n ps = ps\<lparr>ps_p := drop n (ps_p ps)\<rparr>"

definition is_chr :: "byte \<Rightarrow> char \<Rightarrow> bool" where
  "is_chr b c \<longleftrightarrow> b = byte_of_char c"

definition between_chr :: "char \<Rightarrow> byte \<Rightarrow> char \<Rightarrow> bool" where
  "between_chr a b c \<longleftrightarrow> chr a \<le> unat b \<and> unat b \<le> chr c"

definition re_hex :: "byte \<Rightarrow> nat option" where
  "re_hex c =
     (if between_chr CHR ''0'' c CHR ''9'' then Some (unat c - chr CHR ''0'')
      else if between_chr CHR ''a'' c CHR ''f'' then Some (unat c - chr CHR ''a'' + 10)
      else if between_chr CHR ''A'' c CHR ''F'' then Some (unat c - chr CHR ''A'' + 10)
      else None)"

definition re_read_char :: "re_parser \<Rightarrow> nat \<times> re_parser" where
  "re_read_char ps = (let (c, size) = re_decode (ps_p ps) in (c, skip size ps))"

definition re_escape :: "re_parser \<Rightarrow> (nat \<times> re_parser) re_result" where
  "re_escape ps =
     (let c = at_p ps in
      if c = 0 then Inl (Re_error (CHR 0x5c # '' at the end''))
      else if between_chr CHR ''1'' c CHR ''9'' then Inl (Re_error ''backreferences are not supported'')
      else if between_chr CHR ''a'' c CHR ''z'' \<or> between_chr CHR ''A'' c CHR ''Z'' \<or> is_chr c CHR ''0'' then
        let ps = skip 1 ps in
        if is_chr c CHR ''n'' then Inr (10, ps)
        else if is_chr c CHR ''t'' then Inr (9, ps)
        else if is_chr c CHR ''r'' then Inr (13, ps)
        else if is_chr c CHR ''f'' then Inr (12, ps)
        else if is_chr c CHR ''v'' then Inr (11, ps)
        else if is_chr c CHR ''x'' then
          (case re_hex (at_p ps) of
             None \<Rightarrow> Inl (Re_error (CHR 0x5c # ''x takes two hex digits''))
           | Some high \<Rightarrow>
               (case re_hex (at_p1 ps) of
                  None \<Rightarrow> Inl (Re_error (CHR 0x5c # ''x takes two hex digits''))
                | Some low \<Rightarrow> Inr (high * 16 + low, skip 2 ps)))
        else Inl (Re_error ''unknown escape'')
      else Inr (re_read_char ps))"

section \<open>Character classes\<close>

text \<open>One item of a class: \<open>None\<close> for a shorthand, whose ranges are then in.\<close>

definition re_class_low :: "re_parser \<Rightarrow> (nat option \<times> re_parser) re_result" where
  "re_class_low ps =
     (if is_chr (at_p ps) (CHR 0x5c) then
        let ps = skip 1 ps in
        (case re_shorthand (at_p ps) ps of
           Some r \<Rightarrow> re_bind r (\<lambda>ps. Inr (None, skip 1 ps))
         | None \<Rightarrow>
             if is_chr (at_p ps) CHR ''b'' then Inr (Some 8, skip 1 ps)
             else re_bind (re_escape ps) (\<lambda>(c, ps). Inr (Some c, ps)))
      else let (c, ps) = re_read_char ps in Inr (Some c, ps))"

text \<open>What follows its first character: the rest of a range, or nothing.\<close>

definition re_class_high :: "nat \<Rightarrow> re_parser \<Rightarrow> re_parser re_result" where
  "re_class_high low ps =
     (if is_chr (at_p ps) CHR ''-'' \<and> \<not> is_chr (at_p1 ps) CHR '']'' \<and> at_p1 ps \<noteq> 0 then
        let ps = skip 1 ps in
        re_bind (if is_chr (at_p ps) (CHR 0x5c) then re_escape (skip 1 ps) else Inr (re_read_char ps))
          (\<lambda>(high, ps). if high < low then Inl (Re_error ''bad range'') else re_add_range low high ps)
      else re_add_range low low ps)"

lemma skip_simps [simp]:
  "ps_p (skip n ps) = drop n (ps_p ps)" "re_code (skip n ps) = re_code ps" "re_ranges (skip n ps) = re_ranges ps"
  "re_groups (skip n ps) = re_groups ps" "ps_depth (skip n ps) = ps_depth ps"
  by (simp_all add: skip_def)

lemma re_add_range_p: "re_add_range low high ps = Inr ps' \<Longrightarrow> ps_p ps' = ps_p ps"
  by (auto simp: re_add_range_def split: if_splits)

lemma re_add_ranges_p: "re_add_ranges rs ps = Inr ps' \<Longrightarrow> ps_p ps' = ps_p ps"
  by (induction rs arbitrary: ps) (auto simp: re_bind_Inr dest!: re_add_range_p)

lemma re_decode_size: "0 < snd (re_decode p)"
  by (cases p) (auto simp: Let_def split: option.split prod.split)

lemma re_read_char_p: "re_read_char ps = (c, ps') \<Longrightarrow> ps_p ps \<noteq> [] \<Longrightarrow> length (ps_p ps') < length (ps_p ps)"
  using re_decode_size[of "ps_p ps"] by (auto simp: re_read_char_def split: prod.splits)

lemma at_p_nonempty: "at_p ps \<noteq> 0 \<Longrightarrow> ps_p ps \<noteq> []"
  by (auto simp: at_p_def)

lemma re_escape_p:
  assumes "re_escape ps = Inr (c, ps')" shows "length (ps_p ps') < length (ps_p ps)"
proof -
  have "at_p ps \<noteq> 0" using assms by (auto simp: re_escape_def)
  then have "ps_p ps \<noteq> []" by (rule at_p_nonempty)
  then have "0 < length (ps_p ps)" "re_read_char ps = (d, qs) \<Longrightarrow> length (ps_p qs) < length (ps_p ps)" for d qs
    using re_read_char_p by auto
  with assms show ?thesis
    by (auto simp: re_escape_def Let_def split: if_splits option.splits)
qed

lemma re_class_low_p:
  assumes "re_class_low ps = Inr (r, ps')" "ps_p ps \<noteq> []"
  shows "length (ps_p ps') < length (ps_p ps)"
proof -
  have "0 < length (ps_p ps)" using assms(2) by simp
  with assms show ?thesis
    by (fastforce simp: re_class_low_def re_shorthand_def Let_def re_bind_Inr
        split: if_splits option.splits prod.splits dest: re_escape_p re_read_char_p re_add_ranges_p)
qed

lemma re_read_char_le: "length (ps_p (snd (re_read_char ps))) \<le> length (ps_p ps)"
  by (simp add: re_read_char_def split: prod.split)

lemma re_class_high_p: "re_class_high low ps = Inr ps' \<Longrightarrow> length (ps_p ps') \<le> length (ps_p ps)"
  using re_read_char_le[of "skip 1 ps"] re_escape_p[of "skip 1 (skip 1 ps)"]
  by (cases "re_read_char (skip 1 ps)")
    (force simp: re_class_high_def Let_def re_bind_Inr split: if_splits dest!: re_add_range_p)

function re_class_items :: "bool \<Rightarrow> re_parser \<Rightarrow> re_parser re_result" where
  "re_class_items any ps =
     (if ps_p ps = [] then Inl (Re_error ''missing ]'')
      else if is_chr (at_p ps) CHR '']'' \<and> any then Inr (skip 1 ps)
      else re_bind (re_class_low ps)
        (\<lambda>(r, ps'). case r of
           None \<Rightarrow> re_class_items True ps'
         | Some low \<Rightarrow> re_bind (re_class_high low ps') (re_class_items True)))"
  by pat_completeness auto
termination
proof (relation "measure (\<lambda>(any, ps). length (ps_p ps))")
qed (use re_class_low_p re_class_high_p in \<open>force+\<close>)

declare re_class_items.simps [simp del]

text \<open>After the bracket.\<close>

definition re_parse_class :: "re_parser \<Rightarrow> re_parser re_result" where
  "re_parse_class ps =
     (let first = length (re_ranges ps);
          negated = is_chr (at_p ps) CHR ''^'' in
      re_bind (re_class_items False (if negated then skip 1 ps else ps))
        (\<lambda>ps. let count = length (re_ranges ps) - first in
           re_emit (if ps_icase ps then OP_CLASSI first count negated else OP_CLASS first count negated) ps))"

section \<open>Atoms\<close>

text \<open>
  The functions below call \<open>re_parse_alternatives\<close> for what is in parentheses; here it is their
  argument, and the recursion is closed at the end.
\<close>

definition re_parse_group :: "(re_parser \<Rightarrow> re_parser re_result) \<Rightarrow> re_parser \<Rightarrow> re_parser re_result" where
  "re_parse_group alternatives ps =
     (let special = is_chr (at_p ps) CHR ''?'' in
      if special \<and> \<not> is_chr (at_p1 ps) CHR '':'' then Inl (Re_error ''of (? only (?: is supported'')
      else
        let ps = (if special then skip 2 ps else ps) in
        if \<not> special \<and> re_groups ps \<ge> RE_MAX_GROUPS then Inl (Re_error ''too many groups'')
        else
          let group = re_groups ps + 1 in
          re_bind (if special then Inr ps else re_emit (OP_SAVE (group * 2)) (ps\<lparr>re_groups := group\<rparr>))
            (\<lambda>ps. if ps_depth ps + 1 > RE_MAX_DEPTH then Inl (Re_error ''too big'')
              else re_bind (alternatives (ps\<lparr>ps_depth := ps_depth ps + 1\<rparr>))
                (\<lambda>ps.
                   let ps = ps\<lparr>ps_depth := ps_depth ps - 1\<rparr> in
                   if \<not> is_chr (at_p ps) CHR '')'' then Inl (Re_error ''missing )'')
                   else if special then Inr (skip 1 ps)
                   else re_emit (OP_SAVE (group * 2 + 1)) (skip 1 ps))))"

definition re_emit_char :: "nat \<Rightarrow> re_parser \<Rightarrow> re_parser re_result" where
  "re_emit_char c ps = re_emit (if ps_icase ps then OP_CHARI (re_lower c) else OP_CHAR c) ps"

definition re_parse_backslash :: "re_parser \<Rightarrow> re_parser re_result" where
  "re_parse_backslash ps =
     (if is_chr (at_p ps) CHR ''b'' then re_emit OP_WORDB (skip 1 ps)
      else if is_chr (at_p ps) CHR ''B'' then re_emit OP_NWORDB (skip 1 ps)
      else case re_shorthand (at_p ps) ps of
        Some r \<Rightarrow>
          let first = length (re_ranges ps) in
          re_bind r (\<lambda>ps. re_emit (OP_CLASS first (length (re_ranges ps) - first) False) (skip 1 ps))
      | None \<Rightarrow> re_bind (re_escape ps) (\<lambda>(c, ps). re_emit_char c ps))"

definition re_parse_atom :: "(re_parser \<Rightarrow> re_parser re_result) \<Rightarrow> re_parser \<Rightarrow> re_parser re_result" where
  "re_parse_atom alternatives ps =
     (let c = at_p ps in
      if is_chr c CHR ''('' then re_parse_group alternatives (skip 1 ps)
      else if is_chr c CHR ''['' then re_parse_class (skip 1 ps)
      else if is_chr c CHR ''.'' then re_emit (if ps_dotall ps then OP_ANYNL else OP_ANY) (skip 1 ps)
      else if is_chr c CHR ''^'' then re_emit (if ps_multi ps then OP_MBOL else OP_BOL) (skip 1 ps)
      else if is_chr c CHR ''$'' then re_emit (if ps_multi ps then OP_MEOL else OP_EOL) (skip 1 ps)
      else if is_chr c CHR ''*'' \<or> is_chr c CHR ''+'' \<or> is_chr c CHR ''?'' then
        Inl (Re_error ''nothing to repeat'')
      else if is_chr c (CHR 0x5c) then re_parse_backslash (skip 1 ps)
      else let (c, ps) = re_read_char ps in re_emit_char c ps)"

section \<open>Repeats\<close>

primrec re_number :: "nat \<Rightarrow> byte list \<Rightarrow> (nat \<times> byte list) option" where
  "re_number n [] = Some (n, [])"
| "re_number n (b # bs) =
     (if between_chr CHR ''0'' b CHR ''9'' then
        let n = n * 10 + (unat b - chr CHR ''0'') in if n > RE_MAX_REPEAT then None else re_number n bs
      else Some (n, b # bs))"

definition digit_next :: "byte list \<Rightarrow> bool" where
  "digit_next q \<longleftrightarrow> (case q of [] \<Rightarrow> False | b # _ \<Rightarrow> between_chr CHR ''0'' b CHR ''9'')"

definition chr_next :: "char \<Rightarrow> byte list \<Rightarrow> bool" where
  "chr_next c q \<longleftrightarrow> (case q of [] \<Rightarrow> False | b # _ \<Rightarrow> is_chr b c)"

text \<open>Not counts at all, counts that are bad, or the two counts (no second is no limit) and the rest.\<close>

datatype re_counts = Not_counts | Bad_counts | Counts nat "nat option" "byte list"

definition re_parse_counts :: "re_parser \<Rightarrow> re_counts" where
  "re_parse_counts ps =
     (let q = drop 1 (ps_p ps) in
      if \<not> digit_next q then Not_counts
      else (case re_number 0 q of
        None \<Rightarrow> Bad_counts
      | Some (low, q) \<Rightarrow>
          if chr_next CHR ''}'' q then Counts low (Some low) (drop 1 q)
          else if \<not> chr_next CHR '','' q then Not_counts
          else
            let q = drop 1 q in
            if chr_next CHR ''}'' q then Counts low None (drop 1 q)
            else if \<not> digit_next q then Not_counts
            else (case re_number 0 q of
              None \<Rightarrow> Bad_counts
            | Some (high, q) \<Rightarrow>
                if high < low then Bad_counts
                else if \<not> chr_next CHR ''}'' q then Not_counts
                else Counts low (Some high) (drop 1 q))))"

text \<open>\<open>k\<close> more copies of the atom at [start, start + len).\<close>

primrec re_copies :: "nat \<Rightarrow> nat \<Rightarrow> nat \<Rightarrow> re_parser \<Rightarrow> re_parser re_result" where
  "re_copies 0 start len ps = Inr ps"
| "re_copies (Suc k) start len ps = re_bind (re_copy start (start + len) ps) (re_copies k start len)"

definition re_split :: "bool \<Rightarrow> int \<Rightarrow> int \<Rightarrow> re_inst" where
  "re_split lazy on off = (if lazy then OP_SPLIT off on else OP_SPLIT on off)"

text \<open>\<open>k\<close> more optional copies; each can skip all that are left.\<close>

primrec re_optionals :: "nat \<Rightarrow> bool \<Rightarrow> nat \<Rightarrow> nat \<Rightarrow> re_parser \<Rightarrow> re_parser re_result" where
  "re_optionals 0 lazy start len ps = Inr ps"
| "re_optionals (Suc k) lazy start len ps =
     re_bind (re_emit (re_split lazy 1 (int (Suc k * (len + 1)))) ps)
       (\<lambda>ps. re_bind (re_copy start (start + len) ps) (re_optionals k lazy start len))"

text \<open>The atom at [start, end of code) repeated.\<close>

definition re_repeat :: "nat \<Rightarrow> nat \<Rightarrow> nat option \<Rightarrow> bool \<Rightarrow> re_parser \<Rightarrow> re_parser re_result" where
  "re_repeat start n m lazy ps =
     (let len = length (re_code ps) - start in
      if n = 0 \<and> m = Some 0 then Inr (ps\<lparr>re_code := take start (re_code ps)\<rparr>)
      else re_bind (re_copies (n - 1) start len ps)
        (\<lambda>ps. case m of
           None \<Rightarrow>
             if n = 0 then
               re_bind (re_insert start (re_split lazy 1 (int len + 2)) ps)
                 (re_emit (OP_JMP (- (int len + 1))))
             else re_emit (re_split lazy (- int len) 1) ps
         | Some m \<Rightarrow>
             if n = 0 then
               let total = m * (len + 1) in
               if total > RE_MAX_CODE then Inl (Re_error ''too big'')
               else re_bind (re_insert start (re_split lazy 1 (int total)) ps)
                 (re_optionals (m - 1) lazy (start + 1) len)
             else re_optionals (m - n) lazy start len ps))"

definition repeat_next :: "re_parser \<Rightarrow> bool" where
  "repeat_next ps \<longleftrightarrow> is_chr (at_p ps) CHR ''*'' \<or> is_chr (at_p ps) CHR ''+'' \<or> is_chr (at_p ps) CHR ''?''"

text \<open>What follows the repeat: a question mark makes it lazy; no other repeat may follow.\<close>

definition re_finish_piece :: "nat \<Rightarrow> nat \<Rightarrow> nat option \<Rightarrow> re_parser \<Rightarrow> re_parser re_result" where
  "re_finish_piece start n m ps =
     (let lazy = is_chr (at_p ps) CHR ''?''; ps = (if lazy then skip 1 ps else ps) in
      if repeat_next ps then Inl (Re_error ''nothing to repeat'')
      else if is_chr (at_p ps) CHR ''{'' \<and> re_parse_counts ps \<noteq> Not_counts then
        Inl (Re_error ''nothing to repeat'')
      else re_repeat start n m lazy ps)"

definition re_parse_piece :: "(re_parser \<Rightarrow> re_parser re_result) \<Rightarrow> re_parser \<Rightarrow> re_parser re_result" where
  "re_parse_piece alternatives ps =
     (let start = length (re_code ps) in
      re_bind (re_parse_atom alternatives ps)
        (\<lambda>ps.
           if is_chr (at_p ps) CHR ''*'' then re_finish_piece start 0 None (skip 1 ps)
           else if is_chr (at_p ps) CHR ''+'' then re_finish_piece start 1 None (skip 1 ps)
           else if is_chr (at_p ps) CHR ''?'' then re_finish_piece start 0 (Some 1) (skip 1 ps)
           else if is_chr (at_p ps) CHR ''{'' then
             (case re_parse_counts ps of
                Not_counts \<Rightarrow> Inr ps
              | Bad_counts \<Rightarrow> Inl (Re_error ''bad {n,m}'')
              | Counts n m rest \<Rightarrow> re_finish_piece start n m (ps\<lparr>ps_p := rest\<rparr>))
           else Inr ps))"

section \<open>Alternatives and the whole pattern\<close>

primrec re_parse_pieces ::
  "(re_parser \<Rightarrow> re_parser re_result) \<Rightarrow> nat \<Rightarrow> re_parser \<Rightarrow> re_parser re_result" where
  "re_parse_pieces alternatives 0 ps = Inl Re_fuel"
| "re_parse_pieces alternatives (Suc n) ps =
     (if at_p ps \<noteq> 0 \<and> \<not> is_chr (at_p ps) CHR ''|'' \<and> \<not> is_chr (at_p ps) CHR '')''
      then re_bind (re_parse_piece alternatives ps) (re_parse_pieces alternatives n)
      else Inr ps)"

primrec re_parse_alternatives :: "nat \<Rightarrow> re_parser \<Rightarrow> re_parser re_result" where
  "re_parse_alternatives 0 ps = Inl Re_fuel"
| "re_parse_alternatives (Suc n) ps =
     (let start = length (re_code ps) in
      re_bind (re_parse_pieces (re_parse_alternatives n) (Suc (length (ps_p ps))) ps)
        (\<lambda>ps.
           if \<not> is_chr (at_p ps) CHR ''|'' then Inr ps
           else
             let ps = skip 1 ps; size = length (re_code ps) - start in
             re_bind (re_insert start (OP_SPLIT 1 (int size + 2)) ps)
               (\<lambda>ps.
                  let jump = length (re_code ps) in
                  re_bind (re_emit (OP_JMP 0) ps)
                    (\<lambda>ps. re_bind (re_parse_alternatives n ps)
                      (\<lambda>ps. Inr (ps\<lparr>re_code := (re_code ps)
                         [jump := OP_JMP (int (length (re_code ps) - jump))]\<rparr>))))))"

text \<open>The compiled program, with the working memory its searches share.\<close>

record ussr_regex =
  code :: "re_inst list"
  ranges :: "(nat \<times> nat) list"
  groups :: nat
  slots :: nat
  marks :: "32 word list"
  generation :: "32 word"

primrec re_flags :: "string \<Rightarrow> re_parser \<Rightarrow> re_parser re_result" where
  "re_flags [] ps = Inr ps"
| "re_flags (f # fs) ps =
     (if f = CHR ''i'' then re_flags fs (ps\<lparr>ps_icase := True\<rparr>)
      else if f = CHR ''m'' then re_flags fs (ps\<lparr>ps_multi := True\<rparr>)
      else if f = CHR ''s'' then re_flags fs (ps\<lparr>ps_dotall := True\<rparr>)
      else Inl (Re_error ''the flags are i, m and s''))"

definition re_start :: "byte list \<Rightarrow> re_parser" where
  "re_start pattern = \<lparr>re_code = [], re_ranges = [], re_groups = 0, ps_p = pattern, ps_depth = 0,
     ps_icase = False, ps_multi = False, ps_dotall = False\<rparr>"

definition ussr_regex_compile :: "string \<Rightarrow> string \<Rightarrow> ussr_regex re_result" where
  "ussr_regex_compile pattern flags =
     (let bytes = map byte_of_char pattern in
      re_bind (re_flags flags (re_start bytes))
        (\<lambda>ps. re_bind (re_parse_alternatives (Suc (length bytes)) ps)
          (\<lambda>ps. if is_chr (at_p ps) CHR '')'' then Inl (Re_error ''unmatched )'')
             else re_bind (re_emit OP_MATCH ps)
               (\<lambda>ps. Inr \<lparr>code = re_code ps, ranges = re_ranges ps, groups = re_groups ps,
                  slots = (re_groups ps + 1) * 2, marks = replicate (length (re_code ps)) 0,
                  generation = 0\<rparr>))))"

end
