(* ===== verification/RegexRun.thy ===== *)
theory RegexRun
  imports Regex
begin

text \<open>
  Searching, the second half of \<open>src/regex.c\<close>: a virtual machine in the manner of Pike runs all
  threads of the program over the text in lockstep. Accesses to the program, the marks, the
  stack, the slots and the thread lists are checked in the model: \<open>None\<close> is an access out of bounds,
  which a compiled program never makes. Two kinds of access are not checked here: to the ranges of a class
  (compiled code names only ranges that exist, which \<open>RegexCode\<close> proves) and to the text, which the code
  guards with the position.
\<close>

section \<open>Threads\<close>

text \<open>A thread is a program counter and its slots; an unset slot is \<open>None\<close> (-1 in the code).\<close>

type_synonym re_saves = "nat option list"

type_synonym re_thread = "nat \<times> re_saves"

text \<open>What waits on the stack of \<open>re_add_thread\<close>: a way to follow, or a slot to put back.\<close>

datatype re_wait = Follow int | Put_back nat "nat option"

record re_adding =
  add_stack :: "re_wait list"
  add_saves :: re_saves
  add_marks :: "32 word list"
  add_threads :: "re_thread list"

definition re_word_at :: "byte list \<Rightarrow> nat \<Rightarrow> bool" where
  "re_word_at text at \<longleftrightarrow> at < length text \<and> re_is_word (unat (text ! at))"

definition re_boundary :: "byte list \<Rightarrow> nat \<Rightarrow> bool" where
  "re_boundary text at \<longleftrightarrow> (at > 0 \<and> re_is_word (unat (text ! (at - 1)))) \<noteq> re_word_at text at"

text \<open>The condition of an assertion; \<open>None\<close> for the other instructions.\<close>

fun re_assertion :: "byte list \<Rightarrow> nat \<Rightarrow> re_inst \<Rightarrow> bool option" where
  "re_assertion text at OP_BOL = Some (at = 0)"
| "re_assertion text at OP_EOL = Some (at = length text)"
| "re_assertion text at OP_MBOL = Some (at = 0 \<or> text ! (at - 1) = 10)"
| "re_assertion text at OP_MEOL = Some (at = length text \<or> text ! at = 10)"
| "re_assertion text at OP_WORDB = Some (re_boundary text at)"
| "re_assertion text at OP_NWORDB = Some (\<not> re_boundary text at)"
| "re_assertion text at inst = None"

text \<open>
  The stack, its top at the head, has room for \<open>2 * code_length + 2\<close> entries; a thread list for
  \<open>code_length\<close> threads.
\<close>

definition re_push :: "ussr_regex \<Rightarrow> re_wait list \<Rightarrow> re_adding \<Rightarrow> re_adding option" where
  "re_push re ws s =
     (if length ws + length (add_stack s) > 2 * length (code re) + 2 then None
      else Some (s\<lparr>add_stack := ws @ add_stack s\<rparr>))"

text \<open>The \<open>switch\<close> of \<open>re_add_thread\<close> on the instruction at a counter just marked.\<close>

definition re_enter :: "ussr_regex \<Rightarrow> byte list \<Rightarrow> nat \<Rightarrow> nat \<Rightarrow> re_adding \<Rightarrow> re_adding option" where
  "re_enter re text at pc s =
     (let p = int pc in
      case code re ! pc of
        OP_JMP x \<Rightarrow> re_push re [Follow (p + x)] s
      | OP_SPLIT x y \<Rightarrow> re_push re [Follow (p + x), Follow (p + y)] s
      | OP_SAVE slot \<Rightarrow>
          if slot \<ge> length (add_saves s) then None
          else re_push re [Follow (p + 1), Put_back slot (add_saves s ! slot)]
            (s\<lparr>add_saves := (add_saves s)[slot := Some at]\<rparr>)
      | inst \<Rightarrow>
          (case re_assertion text at inst of
             Some holds \<Rightarrow> if holds then re_push re [Follow (p + 1)] s else Some s
           | None \<Rightarrow>
               if length (add_threads s) \<ge> length (code re) then None
               else Some (s\<lparr>add_threads := add_threads s @ [(pc, add_saves s)]\<rparr>)))"

text \<open>One turn of its loop, with the popped entry.\<close>

fun re_add_step ::
  "ussr_regex \<Rightarrow> 32 word \<Rightarrow> byte list \<Rightarrow> nat \<Rightarrow> re_wait \<Rightarrow> re_adding \<Rightarrow> re_adding option" where
  "re_add_step re g text at (Put_back slot v) s =
     (if slot \<ge> length (add_saves s) then None else Some (s\<lparr>add_saves := (add_saves s)[slot := v]\<rparr>))"
| "re_add_step re g text at (Follow p) s =
     (if p < 0 \<or> nat p \<ge> length (code re) \<or> nat p \<ge> length (add_marks s) then None
      else if add_marks s ! nat p = g then Some s
      else re_enter re text at (nat p) (s\<lparr>add_marks := (add_marks s)[nat p := g]\<rparr>))"

definition unmarked :: "32 word \<Rightarrow> 32 word list \<Rightarrow> nat" where
  "unmarked g ms = length (filter (\<lambda>m. m \<noteq> g) ms)"

lemma unmarked_mark:
  "i < length ms \<Longrightarrow> ms ! i \<noteq> g \<Longrightarrow> unmarked g ms = Suc (unmarked g (ms[i := g]))"
  unfolding unmarked_def
proof (induction ms arbitrary: i)
  case (Cons m ms)
  then show ?case by (cases i) auto
qed simp

lemma re_enter_marks: "re_enter re text at pc s = Some s' \<Longrightarrow> add_marks s' = add_marks s"
  by (auto simp: re_enter_def re_push_def Let_def split: re_inst.splits option.splits if_splits)

lemma re_add_step_less:
  assumes "re_add_step re g text at w (s\<lparr>add_stack := ws\<rparr>) = Some s'"
  shows "unmarked g (add_marks s') < unmarked g (add_marks s) \<or>
    unmarked g (add_marks s') = unmarked g (add_marks s) \<and> add_stack s' = ws"
proof (cases w)
  case (Follow p)
  then show ?thesis
    using assms unmarked_mark[of "nat p" "add_marks s" g]
    by (auto split: if_splits dest!: re_enter_marks)
qed (use assms in \<open>auto split: if_splits\<close>)

function re_add_loop ::
  "ussr_regex \<Rightarrow> 32 word \<Rightarrow> byte list \<Rightarrow> nat \<Rightarrow> re_adding \<Rightarrow> re_adding option" where
  "re_add_loop re g text at s =
     (case add_stack s of
        [] \<Rightarrow> Some s
      | w # ws \<Rightarrow>
          Option.bind (re_add_step re g text at w (s\<lparr>add_stack := ws\<rparr>)) (re_add_loop re g text at))"
  by pat_completeness auto
termination
proof (relation "measures [\<lambda>(re, g, text, at, s). unmarked g (add_marks s),
    \<lambda>(re, g, text, at, s). length (add_stack s)]")
  fix re g tx at s w ws s'
  assume "add_stack s = w # ws" "re_add_step re g tx at w (s\<lparr>add_stack := ws\<rparr>) = Some s'"
  with re_add_step_less[OF this(2)]
  show "((re, g, tx, at, s'), re, g, tx, at, s) \<in> measures [\<lambda>(re, g, text, at, s). unmarked g (add_marks s),
      \<lambda>(re, g, text, at, s). length (add_stack s)]"
    by auto
qed simp

declare re_add_loop.simps [simp del]

text \<open>The working memory of a search that outlives a call: the marks. The list is one of the two.\<close>

definition re_add_thread ::
  "ussr_regex \<Rightarrow> 32 word \<Rightarrow> byte list \<Rightarrow> nat \<Rightarrow> nat \<Rightarrow> re_saves \<Rightarrow> 32 word list \<times> re_thread list \<Rightarrow>
   (32 word list \<times> re_thread list) option" where
  "re_add_thread re g text at pc0 saves mt =
     map_option (\<lambda>s. (add_marks s, add_threads s))
       (re_add_loop re g text at
         \<lparr>add_stack = [Follow (int pc0)], add_saves = saves, add_marks = fst mt, add_threads = snd mt\<rparr>)"

section \<open>Searching\<close>

definition re_class_has :: "ussr_regex \<Rightarrow> nat \<Rightarrow> nat \<Rightarrow> nat \<Rightarrow> bool" where
  "re_class_has re first count c =
     list_ex (\<lambda>(low, high). low \<le> c \<and> c \<le> high) (take count (drop first (ranges re)))"

text \<open>Whether an instruction takes the character; \<open>None\<close>, the end of the text, is taken by none.\<close>

fun re_takes :: "ussr_regex \<Rightarrow> nat option \<Rightarrow> re_inst \<Rightarrow> bool" where
  "re_takes re None inst = False"
| "re_takes re (Some c) (OP_CHAR x) = (c = x)"
| "re_takes re (Some c) (OP_CHARI x) = (re_lower c = x)"
| "re_takes re (Some c) OP_ANY = (c \<noteq> 10)"
| "re_takes re (Some c) OP_ANYNL = True"
| "re_takes re (Some c) (OP_CLASS first count negated) = (re_class_has re first count c \<noteq> negated)"
| "re_takes re (Some c) (OP_CLASSI first count negated) =
     ((re_class_has re first count c \<or>
       chr CHR ''a'' \<le> c \<and> c \<le> chr CHR ''z'' \<and> re_class_has re first count (c - 32) \<or>
       chr CHR ''A'' \<le> c \<and> c \<le> chr CHR ''Z'' \<and> re_class_has re first count (c + 32)) \<noteq> negated)"
| "re_takes re (Some c) inst = False"

text \<open>
  The threads of a list in turn: those that take the character go on into the next list, the first
  at \<open>OP_MATCH\<close> gives the spans and ends the turn.
\<close>

fun re_run_threads ::
  "ussr_regex \<Rightarrow> 32 word \<Rightarrow> byte list \<Rightarrow> nat \<Rightarrow> nat option \<Rightarrow> nat \<Rightarrow> re_thread list \<Rightarrow>
   32 word list \<times> re_thread list \<Rightarrow> (re_saves option \<times> 32 word list \<times> re_thread list) option" where
  "re_run_threads re g text at c len [] mt = Some (None, mt)"
| "re_run_threads re g text at c len ((pc, saves) # ths) mt =
     (if pc \<ge> length (code re) then None
      else if code re ! pc = OP_MATCH then
        (if length saves < 2 then None else Some (Some (saves[1 := Some at]), mt))
      else if re_takes re c (code re ! pc) then
        Option.bind (re_add_thread re g text (at + len) (pc + 1) saves mt)
          (re_run_threads re g text at c len ths)
      else re_run_threads re g text at c len ths mt)"

text \<open>The character at a position with its bytes.\<close>

definition re_char_at :: "byte list \<Rightarrow> nat \<Rightarrow> nat option \<times> nat" where
  "re_char_at text at = (if at < length text then map_prod Some id (re_decode (drop at text)) else (None, 1))"

lemma re_char_at_Some: "re_char_at text at = (Some c, len) \<Longrightarrow> at < length text \<and> 0 < len"
  using re_decode_size[of "drop at text"]
  by (cases "re_decode (drop at text)") (auto simp: re_char_at_def split: if_splits)

text \<open>The loop over the text, with the current list and the spans found so far.\<close>

function re_search_loop ::
  "ussr_regex \<Rightarrow> byte list \<Rightarrow> 32 word \<Rightarrow> 32 word list \<Rightarrow> re_thread list \<Rightarrow> re_saves option \<Rightarrow> nat \<Rightarrow>
   (re_saves option \<times> 32 word list \<times> 32 word) option" where
  "re_search_loop re text g ms ths found at =
     Option.bind
       (if found = None then re_add_thread re g text at 0 ((replicate (slots re) None)[0 := Some at]) (ms, ths)
        else Some (ms, ths))
       (\<lambda>(ms, ths).
          if ths = [] \<and> (found \<noteq> None \<or> at \<ge> length text) then Some (found, ms, g)
          else
            let (c, len) = re_char_at text at in Option.bind (re_run_threads re (g + 1) text at c len ths (ms, []))
              (\<lambda>(spans, ms, ths).
                 let found = (if spans = None then found else spans)
                 in if c = None then Some (found, ms, g + 1)
                    else re_search_loop re text (g + 1) ms ths found (at + len)))"
  by pat_completeness auto
termination
proof (relation "measure (\<lambda>(re, text, g, ms, ths, found, at). length text - at)")
qed (auto dest!: re_char_at_Some[OF sym] split: if_splits)

declare re_search_loop.simps [simp del]

text \<open>Outer \<open>None\<close> is an access out of bounds; inner \<open>None\<close> is no match.\<close>

definition ussr_regex_search ::
  "ussr_regex \<Rightarrow> byte list \<Rightarrow> nat \<Rightarrow> (re_saves option \<times> ussr_regex) option" where
  "ussr_regex_search re text from =
     (if from > length text then Some (None, re)
      else map_option (\<lambda>(found, ms, g). (found, re\<lparr>marks := ms, generation := g\<rparr>))
        (re_search_loop re text (generation re + 1) (marks re) [] None from))"

end
