(* ===== verification/RegexCode.thy ===== *)
theory RegexCode
  imports Regex
begin

text \<open>
  What the compiler of \<open>src/regex.c\<close> makes: every function that reads part of a pattern appends a
  fragment whose jumps stay inside it, so the program is well formed: no jump, slot or class range
  leads outside, whatever the pattern. The recursion bounds of the model are never reached.
\<close>

section \<open>Jumps that stay inside\<close>

fun jumps :: "re_inst \<Rightarrow> int list" where
  "jumps (OP_JMP x) = [x]"
| "jumps (OP_SPLIT x y) = [x, y]"
| "jumps inst = []"

text \<open>Seen from the first instruction, all jumps lead to \<open>lo\<close> at least and \<open>hi\<close> at most.\<close>

fun within :: "int \<Rightarrow> int \<Rightarrow> re_inst list \<Rightarrow> bool" where
  "within lo hi [] \<longleftrightarrow> True"
| "within lo hi (i # is) \<longleftrightarrow> (\<forall>x\<in>set (jumps i). lo \<le> x \<and> x \<le> hi) \<and> within (lo - 1) (hi - 1) is"

abbreviation closed :: "re_inst list \<Rightarrow> bool" where
  "closed is \<equiv> within 0 (int (length is)) is"

lemma within_append:
  "within lo hi (xs @ ys) \<longleftrightarrow> within lo hi xs \<and> within (lo - int (length xs)) (hi - int (length xs)) ys"
  by (induction xs arbitrary: lo hi) (auto simp: algebra_simps)

lemma within_mono: "within lo hi xs \<Longrightarrow> lo' \<le> lo \<Longrightarrow> hi \<le> hi' \<Longrightarrow> within lo' hi' xs"
proof (induction xs arbitrary: lo hi lo' hi')
  case (Cons i xs)
  then show ?case using Cons.IH[of "lo - 1" "hi - 1" "lo' - 1" "hi' - 1"] by fastforce
qed simp

lemma within_nth:
  "within lo hi xs \<Longrightarrow> i < length xs \<Longrightarrow> x \<in> set (jumps (xs ! i)) \<Longrightarrow> lo \<le> int i + x \<and> int i + x \<le> hi"
proof (induction xs arbitrary: lo hi i)
  case (Cons j xs)
  then show ?case using Cons.IH[of "lo - 1" "hi - 1" "i - 1"] by (cases i) auto
qed simp

lemma closed_append: "closed xs \<Longrightarrow> closed ys \<Longrightarrow> closed (xs @ ys)"
  by (auto simp: within_append elim: within_mono)

lemma closed_single: "jumps i = [] \<Longrightarrow> closed [i]"
  by simp

lemma closed_replicate: "closed xs \<Longrightarrow> closed (concat (replicate n xs))"
  by (induction n) (simp_all only: replicate.simps concat.simps closed_append within.simps)

section \<open>Instructions of a program with so many ranges and groups\<close>

fun inst_ok :: "nat \<Rightarrow> nat \<Rightarrow> re_inst \<Rightarrow> bool" where
  "inst_ok r g (OP_CLASS first count negated) \<longleftrightarrow> first + count \<le> r"
| "inst_ok r g (OP_CLASSI first count negated) \<longleftrightarrow> first + count \<le> r"
| "inst_ok r g (OP_SAVE slot) \<longleftrightarrow> 2 \<le> slot \<and> slot < 2 * (g + 1)"
| "inst_ok r g OP_MATCH \<longleftrightarrow> False"
| "inst_ok r g inst \<longleftrightarrow> True"

definition frag_ok :: "nat \<Rightarrow> nat \<Rightarrow> re_inst list \<Rightarrow> bool" where
  "frag_ok r g is \<longleftrightarrow> closed is \<and> (\<forall>i\<in>set is. inst_ok r g i)"

lemma inst_ok_mono: "inst_ok r g i \<Longrightarrow> r \<le> r' \<Longrightarrow> g \<le> g' \<Longrightarrow> inst_ok r' g' i"
  by (cases i) auto

lemma frag_ok_mono: "frag_ok r g is \<Longrightarrow> r \<le> r' \<Longrightarrow> g \<le> g' \<Longrightarrow> frag_ok r' g' is"
  by (auto simp: frag_ok_def intro: inst_ok_mono)

lemma frag_ok_append: "frag_ok r g xs \<Longrightarrow> frag_ok r g ys \<Longrightarrow> frag_ok r g (xs @ ys)"
  unfolding frag_ok_def using closed_append by auto

lemma frag_ok_Nil [simp]: "frag_ok r g []"
  by (simp add: frag_ok_def)

lemma frag_ok_single: "jumps i = [] \<Longrightarrow> inst_ok r g i \<Longrightarrow> frag_ok r g [i]"
  by (simp add: frag_ok_def)

section \<open>The code of a repeat\<close>

primrec optional_code :: "bool \<Rightarrow> re_inst list \<Rightarrow> nat \<Rightarrow> re_inst list" where
  "optional_code lazy atom 0 = []"
| "optional_code lazy atom (Suc k) =
     re_split lazy 1 (int (Suc k * (length atom + 1))) # atom @ optional_code lazy atom k"

definition repeat_code :: "nat \<Rightarrow> nat option \<Rightarrow> bool \<Rightarrow> re_inst list \<Rightarrow> re_inst list" where
  "repeat_code n m lazy atom =
     (case m of
        None \<Rightarrow>
          if n = 0 then re_split lazy 1 (int (length atom) + 2) # atom @ [OP_JMP (- (int (length atom) + 1))]
          else concat (replicate n atom) @ [re_split lazy (- int (length atom)) 1]
      | Some m \<Rightarrow> concat (replicate n atom) @ optional_code lazy atom (m - n))"

lemma length_optional: "length (optional_code lazy atom k) = k * (length atom + 1)"
  by (induction k) auto

lemma jumps_split: "set (jumps (re_split lazy x y)) = {x, y}"
  by (auto simp: re_split_def)

lemma closed_optional: "closed atom \<Longrightarrow> closed (optional_code lazy atom k)"
proof (induction k)
  case (Suc k)
  then have "closed (atom @ optional_code lazy atom k)" by (intro closed_append) auto
  then have "within (-1) (int (length (atom @ optional_code lazy atom k))) (atom @ optional_code lazy atom k)"
    by (rule within_mono) auto
  then show ?case by (auto simp: jumps_split length_optional algebra_simps)
qed simp

lemma closed_repeat:
  assumes "closed atom" shows "closed (repeat_code n m lazy atom)"
proof (cases m)
  case None
  show ?thesis
  proof (cases "n = 0")
    case True
    have "within (-1) (1 + int (length atom)) atom" using assms by (rule within_mono) auto
    then show ?thesis using None True by (auto simp: repeat_code_def jumps_split within_append)
  next
    case False
    then obtain k where n: "n = Suc k" by (cases n) auto
    have "closed (concat (replicate n atom))" using assms by (rule closed_replicate)
    then have "within 0 (int (length (concat (replicate n atom))) + 1) (concat (replicate n atom))"
      by (rule within_mono) auto
    then show ?thesis using None n by (auto simp: repeat_code_def jumps_split within_append ac_simps)
  qed
next
  case (Some m)
  then show ?thesis
    using closed_append[OF closed_replicate[OF assms] closed_optional[OF assms]]
    by (simp add: repeat_code_def)
qed

lemma set_optional: "set (optional_code lazy atom k) \<subseteq> range (\<lambda>(x, y). OP_SPLIT x y) \<union> set atom"
  by (induction k) (auto simp: re_split_def)

lemma frag_ok_repeat:
  assumes "frag_ok r g atom" shows "frag_ok r g (repeat_code n m lazy atom)"
proof -
  have "\<forall>i\<in>set (repeat_code n m lazy atom). inst_ok r g i"
    using assms set_optional[of lazy atom]
    by (fastforce simp: frag_ok_def repeat_code_def re_split_def set_replicate_conv_if
        split: option.splits if_splits)
  then show ?thesis using assms closed_repeat by (auto simp: frag_ok_def)
qed

lemma re_copies_code:
  "re_copies k start len ps = Inr ps' \<Longrightarrow> re_code ps = C @ atom @ rest \<Longrightarrow> start = length C \<Longrightarrow>
   len = length atom \<Longrightarrow> ps' = ps\<lparr>re_code := re_code ps @ concat (replicate k atom)\<rparr>"
proof (induction k arbitrary: ps rest)
  case (Suc k)
  from Suc.prems obtain qs where q: "re_copy start (start + len) ps = Inr qs" "re_copies k start len qs = Inr ps'"
    by (auto simp: re_bind_Inr)
  have qs: "qs = ps\<lparr>re_code := re_code ps @ atom\<rparr>"
    using q(1) Suc.prems(2-4) by (auto simp: re_copy_def split: if_splits)
  from Suc.IH[OF q(2), of "rest @ atom"] Suc.prems(2-4) qs show ?case by simp
qed simp

lemma re_optionals_code:
  "re_optionals k lazy start len ps = Inr ps' \<Longrightarrow> re_code ps = C @ atom @ rest \<Longrightarrow> start = length C \<Longrightarrow>
   len = length atom \<Longrightarrow> ps' = ps\<lparr>re_code := re_code ps @ optional_code lazy atom k\<rparr>"
proof (induction k arbitrary: ps rest)
  case (Suc k)
  from Suc.prems obtain qs rs where q: "re_emit (re_split lazy 1 (int (Suc k * (len + 1)))) ps = Inr qs"
    "re_copy start (start + len) qs = Inr rs" "re_optionals k lazy start len rs = Inr ps'"
    by (auto simp: re_bind_Inr)
  let ?s = "re_split lazy 1 (int (Suc k * (len + 1)))"
  have rs: "rs = ps\<lparr>re_code := re_code ps @ ?s # atom\<rparr>"
    using q(1,2) Suc.prems(2-4) by (auto simp: re_emit_def re_copy_def split: if_splits)
  have "re_code rs = C @ atom @ (rest @ ?s # atom)" using rs Suc.prems(2) by simp
  from Suc.IH[OF q(3) this] Suc.prems(3,4) rs show ?case by simp
qed simp

lemma re_repeat_code:
  assumes "re_repeat start n m lazy ps = Inr ps'" "re_code ps = C @ atom" "start = length C"
    "\<forall>k\<in>set_option m. n \<le> k"
  shows "ps' = ps\<lparr>re_code := C @ repeat_code n m lazy atom\<rparr>"
proof (cases "n = 0 \<and> m = Some 0")
  case True
  then show ?thesis using assms by (auto simp: re_repeat_def repeat_code_def)
next
  case False
  let ?len = "length atom"
  have len: "length (re_code ps) - start = ?len" using assms(2,3) by simp
  from assms(1) False obtain qs where q: "re_copies (n - 1) start ?len ps = Inr qs"
    "(case m of
       None \<Rightarrow>
         if n = 0 then re_bind (re_insert start (re_split lazy 1 (int ?len + 2)) qs) (re_emit (OP_JMP (- (int ?len + 1))))
         else re_emit (re_split lazy (- int ?len) 1) qs
     | Some m \<Rightarrow>
         if n = 0 then
           if m * (?len + 1) > RE_MAX_CODE then Inl (Re_error ''too big'')
           else re_bind (re_insert start (re_split lazy 1 (int (m * (?len + 1)))) qs)
             (re_optionals (m - 1) lazy (start + 1) ?len)
         else re_optionals (m - n) lazy start ?len qs) = Inr ps'"
    unfolding re_repeat_def Let_def len if_not_P[OF False] by (auto simp only: re_bind_Inr)
  have qs: "qs = ps\<lparr>re_code := re_code ps @ concat (replicate (n - 1) atom)\<rparr>"
    using re_copies_code[OF q(1), of C atom "[]"] assms(2,3) by simp
  have copies: "C @ concat (replicate n atom) = re_code qs" if "n \<noteq> 0"
    using that assms(2) by (cases n) (simp_all add: qs)
  show ?thesis
  proof (cases m)
    case None
    then show ?thesis
      using q(2) assms(2,3) qs copies
      by (auto simp: repeat_code_def re_bind_Inr re_insert_def re_emit_def split: if_splits)
  next
    case m: (Some k)
    show ?thesis
    proof (cases "n = 0")
      case True
      then obtain j where k: "k = Suc j" using False m by (cases k) auto
      let ?s = "re_split lazy 1 (int (k * (?len + 1)))"
      from q(2) m True obtain rs where r: "re_insert start ?s qs = Inr rs"
        "re_optionals (k - 1) lazy (start + 1) ?len rs = Inr ps'"
        by (auto simp: re_bind_Inr split: if_splits)
      have rs: "rs = ps\<lparr>re_code := C @ ?s # atom\<rparr>"
        using r(1) assms(2,3) True by (auto simp: re_insert_def qs split: if_splits)
      from re_optionals_code[OF r(2), of "C @ [?s]" atom "[]"] assms(3) rs m True k
      show ?thesis by (simp add: repeat_code_def)
    next
      case n: False
      have "re_code qs = C @ atom @ concat (replicate (n - 1) atom)" using qs assms(2) by simp
      have "re_optionals (k - n) lazy start ?len qs = Inr ps'" using q(2) m n by simp
      from re_optionals_code[OF this \<open>re_code qs = _\<close> assms(3)]
      have "ps' = qs\<lparr>re_code := (C @ concat (replicate n atom)) @ optional_code lazy atom (k - n)\<rparr>"
        unfolding copies[OF n] by simp
      then show ?thesis using m by (simp add: repeat_code_def qs)
    qed
  qed
qed

section \<open>The contract of the parsing functions\<close>

text \<open>\<open>ps'\<close> is \<open>ps\<close> with the fragment \<open>F\<close> appended and some of the pattern read.\<close>

definition grown :: "re_parser \<Rightarrow> re_parser \<Rightarrow> re_inst list \<Rightarrow> bool" where
  "grown ps ps' F \<longleftrightarrow> re_code ps' = re_code ps @ F \<and> frag_ok (length (re_ranges ps')) (re_groups ps') F \<and>
     length (re_ranges ps) \<le> length (re_ranges ps') \<and> re_groups ps \<le> re_groups ps' \<and>
     ps_depth ps' = ps_depth ps \<and> length (ps_p ps') \<le> length (ps_p ps)"

definition parses :: "(re_parser \<Rightarrow> re_parser re_result) \<Rightarrow> bool" where
  "parses f \<longleftrightarrow> (\<forall>ps ps'. f ps = Inr ps' \<longrightarrow> (\<exists>F. grown ps ps' F))"

lemma grown_trans: "grown ps qs F \<Longrightarrow> grown qs rs G \<Longrightarrow> grown ps rs (F @ G)"
  unfolding grown_def by (auto intro: frag_ok_append frag_ok_mono)

lemma grown_refl: "grown ps ps []"
  by (simp add: grown_def)

lemma grown_skip: "grown ps qs F \<Longrightarrow> grown ps (skip n qs) F"
  by (auto simp: grown_def skip_def)

lemma grown_from_skip: "grown (skip n ps) qs F \<Longrightarrow> grown ps qs F"
  by (auto simp: grown_def skip_def)

lemma emit_grown:
  "re_emit i ps = Inr ps' \<Longrightarrow> jumps i = [] \<Longrightarrow> inst_ok (length (re_ranges ps)) (re_groups ps) i \<Longrightarrow>
   grown ps ps' [i]"
  by (auto simp: re_emit_def grown_def intro: frag_ok_single split: if_splits)

lemma add_range_grown: "re_add_range low high ps = Inr ps' \<Longrightarrow> grown ps ps' []"
  by (auto simp: re_add_range_def grown_def split: if_splits)

lemma add_ranges_grown: "re_add_ranges rs ps = Inr ps' \<Longrightarrow> grown ps ps' []"
proof (induction rs arbitrary: ps)
  case (Cons r rs)
  then show ?case using grown_trans[of ps _ "[]" ps' "[]"] add_range_grown by (fastforce simp: re_bind_Inr)
qed (simp add: grown_refl)

lemma read_char_grown: "re_read_char ps = (c, ps') \<Longrightarrow> grown ps ps' []"
  by (auto simp: re_read_char_def grown_def skip_def split: prod.splits)

lemma escape_grown: "re_escape ps = Inr (c, ps') \<Longrightarrow> grown ps ps' []"
  using read_char_grown[of ps]
  by (auto simp: re_escape_def Let_def grown_def skip_def split: if_splits option.splits)

lemma class_low_grown: "re_class_low ps = Inr (r, ps') \<Longrightarrow> grown ps ps' []"
  by (auto simp: re_class_low_def re_shorthand_def Let_def re_bind_Inr
      split: if_splits option.splits prod.splits
      dest: grown_from_skip read_char_grown escape_grown
      intro: grown_skip grown_refl grown_from_skip[OF grown_skip[OF add_ranges_grown]])

lemma class_high_grown: "re_class_high low ps = Inr ps' \<Longrightarrow> grown ps ps' []"
proof -
  assume a: "re_class_high low ps = Inr ps'"
  have *: "grown ps ps' []" if "grown ps qs []" "re_add_range low h qs = Inr ps'" for qs h
    using grown_trans[OF that(1) add_range_grown[OF that(2)]] by simp
  show ?thesis
  proof (cases "is_chr (at_p ps) CHR ''-'' \<and> \<not> is_chr (at_p1 ps) CHR '']'' \<and> at_p1 ps \<noteq> 0")
    case False
    then show ?thesis using a *[OF grown_refl] by (auto simp: re_class_high_def)
  next
    case True
    then obtain high qs where q: "(if is_chr (at_p (skip 1 ps)) (CHR 0x5c) then re_escape (skip 1 (skip 1 ps))
        else Inr (re_read_char (skip 1 ps))) = Inr (high, qs)" "re_add_range low high qs = Inr ps'"
      using a by (auto simp: re_class_high_def re_bind_Inr Let_def split: if_splits)
    have "grown ps qs []"
      using q(1) by (auto split: if_splits dest!: escape_grown read_char_grown grown_from_skip)
    then show ?thesis using * q(2) by blast
  qed
qed

lemma class_items_grown: "re_class_items any ps = Inr ps' \<Longrightarrow> grown ps ps' []"
proof (induction any ps rule: re_class_items.induct)
  case (1 any ps)
  show ?case
  proof (cases "ps_p ps = [] \<or> is_chr (at_p ps) CHR '']'' \<and> any")
    case True
    then show ?thesis using "1.prems" by (auto simp: re_class_items.simps[of any] intro: grown_skip grown_refl
      split: if_splits)
  next
    case False
    then obtain r qs where q: "re_class_low ps = Inr (r, qs)"
      "(case r of None \<Rightarrow> re_class_items True qs
        | Some low \<Rightarrow> re_bind (re_class_high low qs) (re_class_items True)) = Inr ps'"
      using "1.prems" by (auto simp: re_class_items.simps[of any] re_bind_Inr split: if_splits)
    note g = class_low_grown[OF q(1)]
    show ?thesis
    proof (cases r)
      case None
      then have "grown qs ps' []" using "1.IH"(1)[OF _ _ q(1)] q(2) False by auto
      with grown_trans[OF g] show ?thesis by simp
    next
      case (Some low)
      then obtain rs where r: "re_class_high low qs = Inr rs" "re_class_items True rs = Inr ps'"
        using q(2) by (auto simp: re_bind_Inr)
      then have "grown rs ps' []" using "1.IH"(2)[OF _ _ q(1)] Some False by auto
      with grown_trans[OF grown_trans[OF g class_high_grown[OF r(1)]]] show ?thesis by simp
    qed
  qed
qed

lemma class_grown: "parses re_parse_class"
  unfolding parses_def
proof (intro allI impI)
  fix ps ps' assume "re_parse_class ps = Inr ps'"
  then obtain qs negated where q: "re_class_items False (if negated then skip 1 ps else ps) = Inr qs"
    "(let count = length (re_ranges qs) - length (re_ranges ps) in
      re_emit (if ps_icase qs then OP_CLASSI (length (re_ranges ps)) count negated
        else OP_CLASS (length (re_ranges ps)) count negated) qs) = Inr ps'"
    by (auto simp: re_parse_class_def re_bind_Inr Let_def)
  have g: "grown ps qs []" using class_items_grown[OF q(1)] by (auto split: if_splits dest: grown_from_skip)
  then have "length (re_ranges ps) \<le> length (re_ranges qs)" by (simp add: grown_def)
  with q(2) have "\<exists>i. grown qs ps' [i]"
    using emit_grown[of "OP_CLASSI (length (re_ranges ps)) (length (re_ranges qs) - length (re_ranges ps)) negated" qs ps']
      emit_grown[of "OP_CLASS (length (re_ranges ps)) (length (re_ranges qs) - length (re_ranges ps)) negated" qs ps']
    by (cases "ps_icase qs") (auto simp: Let_def)
  then show "\<exists>F. grown ps ps' F" using grown_trans[OF g] by fastforce
qed

lemma parses_emit:
  "jumps i = [] \<Longrightarrow> (\<And>r g. inst_ok r g i) \<Longrightarrow> re_emit i ps = Inr ps' \<Longrightarrow> \<exists>F. grown ps ps' F"
  using emit_grown by blast

lemma grown_skip_exists: "\<exists>F. grown (skip n ps) ps' F \<Longrightarrow> \<exists>F. grown ps ps' F"
  using grown_from_skip by blast

lemma emit_char_grown: "re_emit_char c ps = Inr ps' \<Longrightarrow> \<exists>F. grown ps ps' F"
  unfolding re_emit_char_def by (erule parses_emit[rotated 2]) auto

lemma read_emit_grown: "grown ps qs [] \<Longrightarrow> re_emit_char c qs = Inr ps' \<Longrightarrow> \<exists>F. grown ps ps' F"
  using grown_trans emit_char_grown by blast

lemma backslash_grown: "parses re_parse_backslash"
  unfolding parses_def
proof (intro allI impI)
  fix ps ps' assume a: "re_parse_backslash ps = Inr ps'"
  show "\<exists>F. grown ps ps' F"
  proof (cases "is_chr (at_p ps) CHR ''b'' \<or> is_chr (at_p ps) CHR ''B''")
    case True
    then show ?thesis using a parses_emit[of OP_WORDB "skip 1 ps"] parses_emit[of OP_NWORDB "skip 1 ps"]
      by (auto simp: re_parse_backslash_def split: if_splits intro!: grown_skip_exists[of 1 ps])
  next
    case not_b: False
    show ?thesis
    proof (cases "re_shorthand_ranges (at_p ps)")
      case None
      then obtain c qs where "re_escape ps = Inr (c, qs)" "re_emit_char c qs = Inr ps'"
        using a not_b by (auto simp: re_parse_backslash_def re_shorthand_def re_bind_Inr)
      then show ?thesis using read_emit_grown escape_grown by blast
    next
      case (Some rs)
      let ?i = "\<lambda>qs. OP_CLASS (length (re_ranges ps)) (length (re_ranges qs) - length (re_ranges ps)) False"
      from a Some not_b obtain qs where q: "re_add_ranges rs ps = Inr qs" "re_emit (?i qs) (skip 1 qs) = Inr ps'"
        by (auto simp: re_parse_backslash_def re_shorthand_def re_bind_Inr Let_def)
      have g: "grown ps (skip 1 qs) []" by (rule grown_skip[OF add_ranges_grown[OF q(1)]])
      have "inst_ok (length (re_ranges (skip 1 qs))) (re_groups (skip 1 qs)) (?i qs)"
        using g by (simp add: grown_def skip_def)
      from grown_trans[OF g emit_grown[OF q(2) _ this]] show ?thesis by auto
    qed
  qed
qed

lemma grown_depth: "grown (ps\<lparr>ps_depth := d\<rparr>) qs F \<Longrightarrow> grown ps (qs\<lparr>ps_depth := ps_depth ps\<rparr>) F"
  by (simp add: grown_def)

lemma group_grown:
  assumes "parses alternatives" shows "parses (re_parse_group alternatives)"
  unfolding parses_def
proof (intro allI impI)
  fix ps0 ps' assume a: "re_parse_group alternatives ps0 = Inr ps'"
  define special where "special = is_chr (at_p ps0) CHR ''?''"
  define ps where "ps = (if special then skip 2 ps0 else ps0)"
  define group where "group = re_groups ps + 1"
  from a obtain qs rs where q: "(if special then Inr ps else re_emit (OP_SAVE (group * 2)) (ps\<lparr>re_groups := group\<rparr>)) = Inr qs"
    "alternatives (qs\<lparr>ps_depth := ps_depth qs + 1\<rparr>) = Inr rs"
    "(let ps = rs\<lparr>ps_depth := ps_depth rs - 1\<rparr> in
       if \<not> is_chr (at_p ps) CHR '')'' then Inl (Re_error ''missing )'')
       else if special then Inr (skip 1 ps) else re_emit (OP_SAVE (group * 2 + 1)) (skip 1 ps)) = Inr ps'"
    unfolding re_parse_group_def Let_def special_def[symmetric] ps_def[symmetric] group_def[symmetric]
    by (auto simp: re_bind_Inr split: if_splits)
  have g1: "\<exists>F. grown ps qs F \<and> (special \<or> re_groups qs = group)"
  proof (cases special)
    case True
    then show ?thesis using q(1) grown_refl by auto
  next
    case False
    let ?ps = "ps\<lparr>re_groups := group\<rparr>"
    have "grown ?ps qs [OP_SAVE (group * 2)]" using q(1) False by (intro emit_grown) (auto simp: group_def)
    then show ?thesis using q(1) False by (auto simp: grown_def group_def re_emit_def split: if_splits)
  qed
  then obtain F where F: "grown ps qs F" "special \<or> re_groups qs = group" by blast
  from assms q(2) obtain G where "grown (qs\<lparr>ps_depth := ps_depth qs + 1\<rparr>) rs G" unfolding parses_def by blast
  moreover from this have "ps_depth rs - 1 = ps_depth qs" by (simp add: grown_def)
  ultimately have G: "grown qs (skip 1 (rs\<lparr>ps_depth := ps_depth rs - 1\<rparr>)) G"
    using grown_skip[OF grown_depth] by simp
  let ?rs = "skip 1 (rs\<lparr>ps_depth := ps_depth rs - 1\<rparr>)"
  have "\<exists>H. grown ?rs ps' H"
  proof (cases special)
    case True
    then show ?thesis using q(3) grown_refl by (auto simp: Let_def split: if_splits)
  next
    case False
    have "re_emit (OP_SAVE (group * 2 + 1)) ?rs = Inr ps'" using q(3) False by (auto simp: Let_def split: if_splits)
    moreover have "inst_ok (length (re_ranges ?rs)) (re_groups ?rs) (OP_SAVE (group * 2 + 1))"
      using F(2) G False by (auto simp: grown_def group_def)
    ultimately show ?thesis using emit_grown by fastforce
  qed
  then show "\<exists>F. grown ps0 ps' F"
    using grown_trans[OF grown_trans[OF F(1) G]] grown_from_skip unfolding ps_def by (metis (full_types))
qed

lemma atom_grown:
  assumes "parses alternatives" shows "parses (re_parse_atom alternatives)"
  unfolding parses_def
proof (intro allI impI)
  fix ps ps' assume a: "re_parse_atom alternatives ps = Inr ps'"
  have parts: "\<exists>F. grown ps ps' F" if "parses f" "f (skip 1 ps) = Inr ps'" for f
    using that grown_from_skip unfolding parses_def by blast
  have emits: "\<exists>F. grown ps ps' F"
    if "re_emit i (skip (Suc 0) ps) = Inr ps'" "jumps i = []" "\<And>r g. inst_ok r g i" for i
    using parses_emit[OF that(2,3,1)] by (rule grown_skip_exists)
  have char: "\<exists>F. grown ps ps' F" if "(case re_read_char ps of (c, ps) \<Rightarrow> re_emit_char c ps) = Inr ps'"
  proof -
    obtain c qs where r: "re_read_char ps = (c, qs)" by fastforce
    with that show ?thesis using read_emit_grown[OF read_char_grown[OF r]] by simp
  qed
  from a show "\<exists>F. grown ps ps' F"
    unfolding re_parse_atom_def Let_def
    by (auto split: if_splits intro: parts[OF group_grown[OF assms]] parts[OF class_grown] parts[OF backslash_grown]
        emits char)
qed

section \<open>Pieces, alternatives and the program\<close>

lemma counts_ordered: "re_parse_counts ps = Counts n m rest \<Longrightarrow> (\<forall>k\<in>set_option m. n \<le> k)"
  by (auto simp: re_parse_counts_def Let_def split: if_splits option.splits)

lemma number_rest: "re_number n q = Some (k, rest) \<Longrightarrow> length rest \<le> length q"
  by (induction q arbitrary: n) (auto simp: Let_def split: if_splits intro: le_SucI)

lemma counts_rest: "re_parse_counts ps = Counts n m rest \<Longrightarrow> length rest \<le> length (ps_p ps)"
  by (fastforce simp: re_parse_counts_def Let_def split: if_splits option.splits dest: number_rest)

lemma repeat_grown:
  assumes "grown ps qs F" "re_repeat (length (re_code ps)) n m lazy qs = Inr ps'" "\<forall>k\<in>set_option m. n \<le> k"
  shows "grown ps ps' (repeat_code n m lazy F)"
proof -
  have "ps' = qs\<lparr>re_code := re_code ps @ repeat_code n m lazy F\<rparr>"
    using assms by (intro re_repeat_code) (auto simp: grown_def)
  then show ?thesis using assms(1) frag_ok_repeat by (auto simp: grown_def)
qed

lemma finish_piece_grown:
  assumes "grown ps qs F" "re_finish_piece (length (re_code ps)) n m qs = Inr ps'" "\<forall>k\<in>set_option m. n \<le> k"
  shows "\<exists>F. grown ps ps' F"
proof -
  define lazy where "lazy \<longleftrightarrow> is_chr (at_p qs) CHR ''?''"
  have "re_repeat (length (re_code ps)) n m lazy (if lazy then skip 1 qs else qs) = Inr ps'"
    using assms(2) unfolding re_finish_piece_def Let_def lazy_def[symmetric] by (simp split: if_splits)
  moreover have "grown ps (if lazy then skip 1 qs else qs) F" using assms(1) grown_skip by auto
  ultimately show ?thesis using repeat_grown assms(3) by blast
qed

lemma piece_grown:
  assumes "parses alternatives" shows "parses (re_parse_piece alternatives)"
  unfolding parses_def
proof (intro allI impI)
  fix ps ps' assume a: "re_parse_piece alternatives ps = Inr ps'"
  then obtain qs where q: "re_parse_atom alternatives ps = Inr qs" by (auto simp: re_parse_piece_def re_bind_Inr Let_def)
  then obtain F where F: "grown ps qs F" using atom_grown[OF assms] unfolding parses_def by blast
  have rest: "grown ps (qs\<lparr>ps_p := rest\<rparr>) F" if "re_parse_counts qs = Counts n m rest" for n m rest
    using F counts_rest[OF that] by (auto simp: grown_def)
  show "\<exists>F. grown ps ps' F"
    using a F q
    by (auto simp: re_parse_piece_def Let_def split: if_splits re_counts.splits
        intro: finish_piece_grown[OF grown_skip[OF F]] finish_piece_grown[OF rest _ counts_ordered])
qed

lemma pieces_grown:
  assumes "parses alternatives" shows "parses (re_parse_pieces alternatives n)"
proof (induction n)
  case (Suc n)
  show ?case unfolding parses_def
  proof (intro allI impI)
    fix ps ps' assume a: "re_parse_pieces alternatives (Suc n) ps = Inr ps'"
    show "\<exists>F. grown ps ps' F"
    proof (cases "at_p ps \<noteq> 0 \<and> \<not> is_chr (at_p ps) CHR ''|'' \<and> \<not> is_chr (at_p ps) CHR '')''")
      case True
      then obtain qs where "re_parse_piece alternatives ps = Inr qs" "re_parse_pieces alternatives n qs = Inr ps'"
        using a by (auto simp: re_bind_Inr)
      then show ?thesis using piece_grown[OF assms] Suc.IH grown_trans unfolding parses_def by blast
    next
      case False
      then have "ps' = ps" using a by (auto split: if_splits)
      then show ?thesis using grown_refl by blast
    qed
  qed
qed (simp add: parses_def)

text \<open>The code of two alternatives.\<close>

definition either_code :: "re_inst list \<Rightarrow> re_inst list \<Rightarrow> re_inst list" where
  "either_code xs ys = OP_SPLIT 1 (int (length xs) + 2) # xs @ OP_JMP (int (length ys) + 1) # ys"

lemma closed_either: "closed xs \<Longrightarrow> closed ys \<Longrightarrow> closed (either_code xs ys)"
  by (auto simp: either_code_def within_append elim!: within_mono)

lemma frag_ok_either: "frag_ok r g xs \<Longrightarrow> frag_ok r g ys \<Longrightarrow> frag_ok r g (either_code xs ys)"
  using closed_either[of xs ys] by (auto simp: frag_ok_def either_code_def)

text \<open>An alternative with a bar after it, and what is made of the alternatives behind it.\<close>

lemma alternative_code:
  assumes "re_parse_alternatives (Suc n) ps = Inr ps'"
    "re_parse_pieces (re_parse_alternatives n) (Suc (length (ps_p ps))) ps = Inr qs" "grown ps qs F"
    "is_chr (at_p qs) CHR ''|''" "parses (re_parse_alternatives n)"
  shows "\<exists>us vs G. re_parse_alternatives n us = Inr vs \<and> ps_p us = drop 1 (ps_p qs) \<and> grown us vs G \<and>
    re_code ps' = re_code ps @ either_code F G \<and> ps_p ps' = ps_p vs \<and> grown ps ps' (either_code F G)"
proof -
  note F = assms(3)
  let ?s = "OP_SPLIT 1 (int (length F) + 2)"
  have len: "length (re_code qs) - length (re_code ps) = length F"
    using F by (simp add: grown_def)
  from assms(1,2,4) obtain rs us vs where r: "re_insert (length (re_code ps)) ?s (skip 1 qs) = Inr rs"
    "re_emit (OP_JMP 0) rs = Inr us" "re_parse_alternatives n us = Inr vs"
    "ps' = vs\<lparr>re_code := (re_code vs)[length (re_code rs) := OP_JMP (int (length (re_code vs) - length (re_code rs)))]\<rparr>"
    by (auto simp: Let_def re_bind_Inr len simp del: One_nat_def)
  from assms(5) r(3) obtain G where G: "grown us vs G" unfolding parses_def by blast
  have rs: "rs = (skip 1 qs)\<lparr>re_code := re_code ps @ ?s # F\<rparr>"
    using r(1) F by (auto simp: re_insert_def grown_def skip_def split: if_splits)
  have us: "us = rs\<lparr>re_code := re_code ps @ ?s # F @ [OP_JMP 0]\<rparr>"
    using r(2) rs by (auto simp: re_emit_def split: if_splits)
  have "re_code vs = re_code ps @ ?s # F @ OP_JMP 0 # G" using G us by (simp add: grown_def)
  then have code: "re_code ps' = re_code ps @ either_code F G"
    using r(4) rs by (simp add: either_code_def list_update_append)
  moreover have "frag_ok (length (re_ranges ps')) (re_groups ps') (either_code F G)"
    using F G r(4) us rs by (intro frag_ok_either) (auto simp: grown_def skip_def intro: frag_ok_mono)
  ultimately have "grown ps ps' (either_code F G)" using F G r(4) us rs unfolding grown_def skip_def by force
  then show ?thesis using r(3,4) G code us rs by (intro exI[of _ us] exI[of _ vs] exI[of _ G]) (simp add: skip_def)
qed

lemma alternatives_grown: "parses (re_parse_alternatives n)"
proof (induction n)
  case (Suc n)
  show ?case unfolding parses_def
  proof (intro allI impI)
    fix ps ps' assume a: "re_parse_alternatives (Suc n) ps = Inr ps'"
    then obtain qs where q: "re_parse_pieces (re_parse_alternatives n) (Suc (length (ps_p ps))) ps = Inr qs"
      by (auto simp: re_bind_Inr Let_def)
    then obtain F where F: "grown ps qs F" using pieces_grown[OF Suc.IH] unfolding parses_def by blast
    show "\<exists>F. grown ps ps' F"
      using alternative_code[OF a q F] Suc.IH
      by (cases "is_chr (at_p qs) CHR ''|''") (use a q F in \<open>auto simp: Let_def\<close>)
  qed
qed (simp add: parses_def)

section \<open>The recursion bounds suffice\<close>

lemma re_bind_Inl: "re_bind m f = Inl e \<longleftrightarrow> m = Inl e \<or> (\<exists>a. m = Inr a \<and> f a = Inl e)"
  by (cases m) auto

named_theorems no_fuel \<open>functions that do not run out of fuel\<close>

lemma making_no_fuel [no_fuel, simp]:
  "re_emit i ps \<noteq> Inl Re_fuel" "re_insert k i ps \<noteq> Inl Re_fuel" "re_copy j k ps \<noteq> Inl Re_fuel"
  "re_add_range low high ps \<noteq> Inl Re_fuel"
  by (auto simp: re_emit_def re_insert_def re_copy_def re_add_range_def)

lemma add_ranges_no_fuel [no_fuel, simp]: "re_add_ranges rs ps \<noteq> Inl Re_fuel"
  by (induction rs arbitrary: ps) (auto simp: re_bind_Inl)

lemma escape_no_fuel [no_fuel, simp]: "re_escape ps \<noteq> Inl Re_fuel"
  by (auto simp: re_escape_def Let_def split: option.split)

lemma class_no_fuel [no_fuel, simp]: "re_parse_class ps \<noteq> Inl Re_fuel"
proof -
  have low: "re_class_low qs \<noteq> Inl Re_fuel" for qs
    by (auto simp: re_class_low_def re_shorthand_def Let_def re_bind_Inl split: option.split prod.split)
  have high: "re_class_high l qs \<noteq> Inl Re_fuel" for l qs
    by (auto simp: re_class_high_def Let_def re_bind_Inl split: if_splits)
  have "re_class_items any qs \<noteq> Inl Re_fuel" for any qs
  proof (induction any qs rule: re_class_items.induct)
    case (1 any qs)
    then show ?case
      by (subst re_class_items.simps) (auto simp: re_bind_Inl low high split: option.splits)
  qed
  then show ?thesis by (auto simp: re_parse_class_def re_bind_Inl Let_def)
qed

lemma repeat_no_fuel [no_fuel, simp]: "re_repeat start n m lazy ps \<noteq> Inl Re_fuel"
proof -
  have copies: "re_copies k st len qs \<noteq> Inl Re_fuel" for k st len qs
    by (induction k arbitrary: qs) (auto simp: re_bind_Inl)
  have optionals: "re_optionals k lz st len qs \<noteq> Inl Re_fuel" for k lz st len qs
    by (induction k arbitrary: qs) (auto simp: re_bind_Inl)
  show ?thesis by (auto simp: re_repeat_def Let_def re_bind_Inl copies optionals split: option.splits if_splits)
qed

lemma finish_no_fuel [no_fuel, simp]: "re_finish_piece start n m ps \<noteq> Inl Re_fuel"
  by (auto simp: re_finish_piece_def Let_def)

lemma emit_char_no_fuel [no_fuel, simp]: "re_emit_char c ps \<noteq> Inl Re_fuel"
  by (auto simp: re_emit_char_def)

lemma backslash_no_fuel [no_fuel, simp]: "re_parse_backslash ps \<noteq> Inl Re_fuel"
  by (auto simp: re_parse_backslash_def re_shorthand_def Let_def re_bind_Inl split: option.split)

text \<open>An atom reads something.\<close>

lemma grown_less: "at_p ps \<noteq> 0 \<Longrightarrow> grown (skip (Suc 0) ps) ps' F \<Longrightarrow> length (ps_p ps') < length (ps_p ps)"
  by (cases "ps_p ps") (auto simp: grown_def skip_def at_p_def)

lemma emit_p: "re_emit i ps = Inr ps' \<Longrightarrow> ps_p ps' = ps_p ps"
  by (auto simp: re_emit_def split: if_splits)

lemma atom_reads:
  assumes "parses alternatives" "at_p ps \<noteq> 0" "re_parse_atom alternatives ps = Inr ps'"
  shows "length (ps_p ps') < length (ps_p ps)"
proof -
  have ne: "ps_p ps \<noteq> []" by (rule at_p_nonempty[OF assms(2)])
  have parts: "length (ps_p ps') < length (ps_p ps)" if "parses f" "f (skip (Suc 0) ps) = Inr ps'" for f
    using that grown_less[OF assms(2)] unfolding parses_def by blast
  have emits: "length (ps_p ps') < length (ps_p ps)" if "re_emit i (skip (Suc 0) ps) = Inr ps'" for i
    using emit_p[OF that] ne by (cases "ps_p ps") auto
  have char: "length (ps_p ps') < length (ps_p ps)" if "(case re_read_char ps of (c, ps) \<Rightarrow> re_emit_char c ps) = Inr ps'"
  proof -
    obtain c qs where r: "re_read_char ps = (c, qs)" by fastforce
    with that show ?thesis using re_read_char_p[OF r ne] by (auto simp: re_emit_char_def dest!: emit_p)
  qed
  from assms(3) show ?thesis
    unfolding re_parse_atom_def Let_def
    by (auto split: if_splits intro: parts[OF group_grown[OF assms(1)]] parts[OF class_grown] parts[OF backslash_grown]
        emits char)
qed

lemma finish_piece_p:
  assumes "re_finish_piece start n m ps = Inr ps'" "re_code ps = C @ F" "start = length C" "\<forall>k\<in>set_option m. n \<le> k"
  shows "length (ps_p ps') \<le> length (ps_p ps)"
proof -
  define lazy where "lazy \<longleftrightarrow> is_chr (at_p ps) CHR ''?''"
  have "re_repeat start n m lazy (if lazy then skip 1 ps else ps) = Inr ps'"
    using assms(1) unfolding re_finish_piece_def Let_def lazy_def[symmetric] by (simp split: if_splits)
  from re_repeat_code[OF this, of C F] assms(2-4) show ?thesis by (auto simp: skip_def)
qed

lemma piece_reads:
  assumes "parses alternatives" "at_p ps \<noteq> 0" "re_parse_piece alternatives ps = Inr ps'"
  shows "length (ps_p ps') < length (ps_p ps)"
proof -
  obtain qs where q: "re_parse_atom alternatives ps = Inr qs"
    using assms(3) by (auto simp: re_parse_piece_def re_bind_Inr Let_def)
  then obtain F where F: "re_code qs = re_code ps @ F" using atom_grown[OF assms(1)] unfolding parses_def grown_def by blast
  note less = atom_reads[OF assms(1,2) q]
  have fin: "length (ps_p ps') \<le> length (ps_p qs)"
    if "re_finish_piece (length (re_code ps)) n m rs = Inr ps'" "re_code rs = re_code qs"
      "length (ps_p rs) \<le> length (ps_p qs)" "\<forall>k\<in>set_option m. n \<le> k" for n m rs
    using finish_piece_p[OF that(1) _ refl that(4), of F] that(2,3) F by simp
  have "length (ps_p ps') \<le> length (ps_p qs)"
    using assms(3) q counts_rest[of qs] counts_ordered[of qs]
    by (auto simp: re_parse_piece_def Let_def split: if_splits re_counts.splits intro: fin)
  with less show ?thesis by simp
qed

lemma pieces_no_fuel:
  assumes "parses alternatives" "\<And>qs. length (ps_p qs) < n \<Longrightarrow> alternatives qs \<noteq> Inl Re_fuel"
  shows "length (ps_p ps) < k \<Longrightarrow> length (ps_p ps) \<le> n \<Longrightarrow> re_parse_pieces alternatives k ps \<noteq> Inl Re_fuel"
proof (induction k arbitrary: ps)
  case (Suc k)
  show ?case
  proof (cases "at_p ps \<noteq> 0 \<and> \<not> is_chr (at_p ps) CHR ''|'' \<and> \<not> is_chr (at_p ps) CHR '')''")
    case True
    then obtain b q where p: "ps_p ps = b # q" by (cases "ps_p ps") (auto simp: at_p_def)
    have group: "re_parse_group alternatives (skip (Suc 0) ps) \<noteq> Inl Re_fuel"
    proof
      assume a: "re_parse_group alternatives (skip (Suc 0) ps) = Inl Re_fuel"
      then obtain qs where "alternatives qs = Inl Re_fuel" "length (ps_p qs) \<le> length q"
        using p by (auto simp: re_parse_group_def Let_def re_bind_Inl re_emit_def split: if_splits)
      then show False using assms(2)[of qs] Suc.prems p by simp
    qed
    then have "re_parse_atom alternatives ps \<noteq> Inl Re_fuel"
      by (auto simp: re_parse_atom_def Let_def split: prod.split)
    then have "re_parse_piece alternatives ps \<noteq> Inl Re_fuel"
      by (auto simp: re_parse_piece_def Let_def re_bind_Inl split: re_counts.split)
    moreover have "re_parse_pieces alternatives k qs \<noteq> Inl Re_fuel" if "re_parse_piece alternatives ps = Inr qs" for qs
      using Suc.IH[of qs] piece_reads[OF assms(1) _ that] True Suc.prems by simp
    ultimately show ?thesis using True by (auto simp: re_bind_Inl)
  qed auto
qed simp

lemma alternatives_no_fuel: "length (ps_p ps) < n \<Longrightarrow> re_parse_alternatives n ps \<noteq> Inl Re_fuel"
proof (induction n arbitrary: ps)
  case (Suc n)
  have "re_parse_pieces (re_parse_alternatives n) (Suc (length (ps_p ps))) ps \<noteq> Inl Re_fuel"
    using Suc by (intro pieces_no_fuel[OF alternatives_grown, of n]) auto
  moreover have "re_parse_alternatives n us \<noteq> Inl Re_fuel"
    if q: "re_parse_pieces (re_parse_alternatives n) (Suc (length (ps_p ps))) ps = Inr qs" "is_chr (at_p qs) CHR ''|''"
      "ps_p us = ps_p (skip (Suc 0) qs)" for qs us
  proof (rule Suc.IH)
    obtain F where "grown ps qs F" using pieces_grown[OF alternatives_grown] q(1) unfolding parses_def by blast
    then have "length (ps_p qs) \<le> length (ps_p ps)" by (simp add: grown_def)
    moreover have "ps_p qs \<noteq> []" using q(2) by (intro at_p_nonempty) (auto simp: is_chr_def)
    ultimately show "length (ps_p us) < n" using q(3) Suc.prems by (cases "ps_p qs") (auto simp: skip_def)
  qed
  ultimately show ?case
    by (auto simp: Let_def re_bind_Inl re_insert_def re_emit_def split: if_splits simp del: re_parse_pieces.simps)
qed simp

section \<open>Well-formed programs\<close>

text \<open>A program is a fragment and its \<open>OP_MATCH\<close>, with working memory of the right size.\<close>

definition program_ok :: "ussr_regex \<Rightarrow> bool" where
  "program_ok re \<longleftrightarrow> (\<exists>F. code re = F @ [OP_MATCH] \<and> frag_ok (length (ranges re)) (groups re) F) \<and>
     slots re = 2 * (groups re + 1) \<and> length (marks re) = length (code re)"

lemma flags_keep: "re_flags fs ps = Inr qs \<Longrightarrow> re_code qs = re_code ps \<and> ps_p qs = ps_p ps"
  by (induction fs arbitrary: ps) (auto split: if_splits)

lemma flags_no_fuel [simp]: "re_flags fs ps \<noteq> Inl Re_fuel"
  by (induction fs arbitrary: ps) auto

lemma compile_cases:
  assumes "ussr_regex_compile pattern flags = r"
  obtains e where "r = Inl e" "re_flags flags (re_start (map byte_of_char pattern)) = Inl e"
  | ps e where "r = Inl e" "re_flags flags (re_start (map byte_of_char pattern)) = Inr ps"
      "re_parse_alternatives (Suc (length pattern)) ps = Inl e"
  | e where "r = Inl (Re_error e)"
  | ps qs rs where "re_flags flags (re_start (map byte_of_char pattern)) = Inr ps"
      "re_parse_alternatives (Suc (length pattern)) ps = Inr qs" "re_emit OP_MATCH qs = Inr rs"
      "r = Inr \<lparr>code = re_code rs, ranges = re_ranges rs, groups = re_groups rs,
        slots = (re_groups rs + 1) * 2, marks = replicate (length (re_code rs)) 0, generation = 0\<rparr>"
proof (cases "re_flags flags (re_start (map byte_of_char pattern))")
  case (Inl e)
  then have "r = Inl e" using assms by (simp add: ussr_regex_compile_def)
  then show ?thesis using that(1) Inl by blast
next
  case ps: (Inr ps)
  show ?thesis
  proof (cases "re_parse_alternatives (Suc (length pattern)) ps")
    case (Inl e)
    then have "r = Inl e" using ps assms by (simp add: ussr_regex_compile_def del: re_parse_alternatives.simps)
    then show ?thesis using that(2) ps Inl by blast
  next
    case (Inr qs)
    then show ?thesis using that(3,4) ps assms
      by (auto simp: ussr_regex_compile_def re_emit_def simp del: re_parse_alternatives.simps split: if_splits)
  qed
qed

lemma compile_ok: "ussr_regex_compile pattern flags = Inr re \<Longrightarrow> program_ok re"
proof (erule compile_cases)
  fix ps qs rs
  assume q: "re_flags flags (re_start (map byte_of_char pattern)) = Inr ps"
    "re_parse_alternatives (Suc (length pattern)) ps = Inr qs" "re_emit OP_MATCH qs = Inr rs"
    "Inr re = Inr \<lparr>code = re_code rs, ranges = re_ranges rs, groups = re_groups rs,
      slots = (re_groups rs + 1) * 2, marks = replicate (length (re_code rs)) 0, generation = 0\<rparr>"
  have "re_code ps = []" using flags_keep[OF q(1)] by (simp add: re_start_def)
  moreover from q(2) obtain F where "grown ps qs F" using alternatives_grown unfolding parses_def by blast
  ultimately show "program_ok re" using q(3,4) by (auto simp: grown_def program_ok_def re_emit_def split: if_splits)
qed auto

lemma compile_no_fuel: "ussr_regex_compile pattern flags \<noteq> Inl Re_fuel"
proof
  assume "ussr_regex_compile pattern flags = Inl Re_fuel"
  then show False
  proof (cases rule: compile_cases)
    case (2 ps e)
    then have "length (ps_p ps) < Suc (length pattern)" using flags_keep[OF 2(2)] by (simp add: re_start_def)
    then show ?thesis using alternatives_no_fuel 2 by blast
  qed auto
qed

section \<open>The arrays of the compiled program never overflow\<close>

definition fits :: "re_parser \<Rightarrow> bool" where
  "fits ps \<longleftrightarrow> length (re_code ps) \<le> RE_MAX_CODE \<and> length (re_ranges ps) \<le> RE_MAX_RANGES \<and>
     re_groups ps \<le> RE_MAX_GROUPS"

lemma fits_simps [simp]:
  "fits (skip n ps) = fits ps" "fits (ps\<lparr>ps_depth := d\<rparr>) = fits ps" "fits (ps\<lparr>ps_p := q\<rparr>) = fits ps"
  by (simp_all add: fits_def)

lemma making_fits:
  "re_emit i ps = Inr ps' \<Longrightarrow> fits ps \<Longrightarrow> fits ps'"
  "re_insert k i ps = Inr ps' \<Longrightarrow> fits ps \<Longrightarrow> fits ps'"
  "re_copy j k ps = Inr ps' \<Longrightarrow> fits ps \<Longrightarrow> fits ps'"
  "re_add_range low high ps = Inr ps' \<Longrightarrow> fits ps \<Longrightarrow> fits ps'"
  by (auto simp: fits_def re_emit_def re_insert_def re_copy_def re_add_range_def split: if_splits)

lemma add_ranges_fits: "re_add_ranges rs ps = Inr ps' \<Longrightarrow> fits ps \<Longrightarrow> fits ps'"
  by (induction rs arbitrary: ps) (auto simp: re_bind_Inr dest!: making_fits)

lemma read_char_fits: "re_read_char ps = (c, ps') \<Longrightarrow> fits ps \<Longrightarrow> fits ps'"
  by (auto simp: re_read_char_def split: prod.splits)

lemma escape_fits: "re_escape ps = Inr (c, ps') \<Longrightarrow> fits ps \<Longrightarrow> fits ps'"
  by (auto simp: re_escape_def Let_def split: if_splits option.splits dest: read_char_fits)

lemma class_fits: "re_parse_class ps = Inr ps' \<Longrightarrow> fits ps \<Longrightarrow> fits ps'"
proof -
  have low: "re_class_low qs = Inr (r, rs) \<Longrightarrow> fits qs \<Longrightarrow> fits rs" for qs r rs
    by (auto simp: re_class_low_def re_shorthand_def Let_def re_bind_Inr split: if_splits option.splits prod.splits
        dest: read_char_fits escape_fits add_ranges_fits)
  have high: "re_class_high l qs = Inr rs \<Longrightarrow> fits qs \<Longrightarrow> fits rs" for l qs rs
    by (auto simp: re_class_high_def Let_def re_bind_Inr split: if_splits prod.splits
        dest!: read_char_fits escape_fits making_fits)
  have "re_class_items any qs = Inr rs \<Longrightarrow> fits qs \<Longrightarrow> fits rs" for any qs rs
  proof (induction any qs rule: re_class_items.induct)
    case (1 any qs)
    show ?case
    proof (cases "ps_p qs = [] \<or> is_chr (at_p qs) CHR '']'' \<and> any")
      case True
      then show ?thesis using "1.prems" by (auto simp: re_class_items.simps[of any] split: if_splits)
    next
      case False
      then obtain r us where q: "re_class_low qs = Inr (r, us)"
        "(case r of None \<Rightarrow> re_class_items True us
          | Some l \<Rightarrow> re_bind (re_class_high l us) (re_class_items True)) = Inr rs"
        using "1.prems" by (auto simp: re_class_items.simps[of any] re_bind_Inr split: if_splits)
      have c: "ps_p qs \<noteq> []" "\<not> (is_chr (at_p qs) CHR '']'' \<and> any)" using False by auto
      note us = low[OF q(1) "1.prems"(2)]
      show ?thesis
      proof (cases r)
        case None
        then show ?thesis using "1.IH"(1)[OF c q(1)] q(2) us by auto
      next
        case (Some l)
        then obtain vs where "re_class_high l us = Inr vs" "re_class_items True vs = Inr rs"
          using q(2) by (auto simp: re_bind_Inr)
        then show ?thesis using "1.IH"(2)[OF c q(1)] Some us high by auto
      qed
    qed
  qed
  moreover assume "re_parse_class ps = Inr ps'" "fits ps"
  ultimately show ?thesis
    by (fastforce simp: re_parse_class_def re_bind_Inr Let_def split: if_splits dest: making_fits)
qed

lemma repeat_fits: "re_repeat start n m lazy ps = Inr ps' \<Longrightarrow> fits ps \<Longrightarrow> fits ps'"
proof -
  have copies: "re_copies k st len qs = Inr rs \<Longrightarrow> fits qs \<Longrightarrow> fits rs" for k st len qs rs
    by (induction k arbitrary: qs) (auto simp: re_bind_Inr dest: making_fits)
  have optionals: "re_optionals k lz st len qs = Inr rs \<Longrightarrow> fits qs \<Longrightarrow> fits rs" for k lz st len qs rs
    by (induction k arbitrary: qs) (auto simp: re_bind_Inr dest: making_fits)
  have "fits (ps\<lparr>re_code := take k (re_code ps)\<rparr>)" if "fits ps" for k
    using that by (auto simp: fits_def min_def)
  moreover assume "re_repeat start n m lazy ps = Inr ps'" "fits ps"
  ultimately show ?thesis
    by (auto simp: re_repeat_def Let_def re_bind_Inr split: option.splits if_splits
        dest: making_fits copies optionals)
qed

lemma finish_fits: "re_finish_piece start n m ps = Inr ps' \<Longrightarrow> fits ps \<Longrightarrow> fits ps'"
  by (auto simp: re_finish_piece_def Let_def split: if_splits dest: repeat_fits)

lemma emit_char_fits: "re_emit_char c ps = Inr ps' \<Longrightarrow> fits ps \<Longrightarrow> fits ps'"
  by (auto simp: re_emit_char_def dest: making_fits)

lemma backslash_fits: "re_parse_backslash ps = Inr ps' \<Longrightarrow> fits ps \<Longrightarrow> fits ps'"
  by (auto simp: re_parse_backslash_def re_shorthand_def Let_def re_bind_Inr split: option.splits if_splits
      dest!: making_fits emit_char_fits escape_fits add_ranges_fits)

lemma group_fits:
  assumes "\<And>qs rs. alternatives qs = Inr rs \<Longrightarrow> fits qs \<Longrightarrow> fits rs"
    "re_parse_group alternatives ps = Inr ps'" "fits ps"
  shows "fits ps'"
proof -
  have "fits (qs\<lparr>re_groups := Suc (re_groups qs)\<rparr>)" if "fits qs" "re_groups qs < RE_MAX_GROUPS" for qs
    using that by (simp add: fits_def)
  then show ?thesis
    using assms by (auto simp: re_parse_group_def Let_def re_bind_Inr not_le split: if_splits dest!: making_fits)
qed

lemma atom_fits:
  assumes "\<And>qs rs. alternatives qs = Inr rs \<Longrightarrow> fits qs \<Longrightarrow> fits rs"
    "re_parse_atom alternatives ps = Inr ps'" "fits ps"
  shows "fits ps'"
  using assms(2,3) group_fits[of alternatives "skip 1 ps" ps'] assms(1)
  by (auto simp: re_parse_atom_def Let_def split: if_splits prod.splits
      dest: making_fits class_fits backslash_fits emit_char_fits read_char_fits)

lemma piece_fits:
  assumes "\<And>qs rs. alternatives qs = Inr rs \<Longrightarrow> fits qs \<Longrightarrow> fits rs"
    "re_parse_piece alternatives ps = Inr ps'" "fits ps"
  shows "fits ps'"
  using assms(2,3) atom_fits[of alternatives ps, OF assms(1)]
  by (auto simp: re_parse_piece_def Let_def re_bind_Inr split: if_splits re_counts.splits dest!: finish_fits)

lemma alternatives_fits: "re_parse_alternatives n ps = Inr ps' \<Longrightarrow> fits ps \<Longrightarrow> fits ps'"
proof (induction n arbitrary: ps ps')
  case (Suc n)
  have pieces: "re_parse_pieces (re_parse_alternatives n) k qs = Inr rs \<Longrightarrow> fits qs \<Longrightarrow> fits rs" for k qs rs
    by (induction k arbitrary: qs)
      (use piece_fits[of "re_parse_alternatives n", OF Suc.IH] in \<open>auto simp: re_bind_Inr split: if_splits\<close>)
  have upd: "fits (vs\<lparr>re_code := (re_code vs)[k := i]\<rparr>)" if "fits vs" for vs k i
    using that by (simp add: fits_def)
  from Suc.prems obtain qs where q: "re_parse_pieces (re_parse_alternatives n) (Suc (length (ps_p ps))) ps = Inr qs"
    by (auto simp: re_bind_Inr Let_def simp del: re_parse_pieces.simps)
  then have "fits qs" using pieces Suc.prems(2) by blast
  then show ?case
    using Suc.prems(1) q Suc.IH
    by (auto simp: Let_def re_bind_Inr split: if_splits simp del: re_parse_pieces.simps intro!: upd
        dest!: making_fits)
qed simp

lemma compile_fits:
  assumes "ussr_regex_compile pattern flags = Inr re"
  shows "length (code re) \<le> RE_MAX_CODE \<and> length (ranges re) \<le> RE_MAX_RANGES \<and> groups re \<le> RE_MAX_GROUPS"
  using assms
proof (cases rule: compile_cases)
  case (4 ps qs rs)
  have "re_flags fs us = Inr vs \<Longrightarrow> fits us \<Longrightarrow> fits vs" for fs us vs
    by (induction fs arbitrary: us) (auto simp: fits_def split: if_splits)
  from this[OF 4(1)] have "fits ps" by (simp add: re_start_def fits_def)
  from making_fits(1)[OF 4(3) alternatives_fits[OF 4(2) this]] show ?thesis using 4(4) by (simp add: fits_def)
qed auto

end
