(* ===== verification/RegexThreads.thy ===== *)
theory RegexThreads
  imports RegexRun RegexCode
begin

text \<open>
  What \<open>re_add_thread\<close> of \<open>src/regex.c\<close> computes: the instructions its counter leads to without
  taking a character, each once, with the slots set on the way. No access is out of bounds: the
  stack and the thread list never outgrow their memory.
\<close>

section \<open>Steps that take no character\<close>

definition silent_pcs :: "ussr_regex \<Rightarrow> byte list \<Rightarrow> nat \<Rightarrow> nat \<Rightarrow> nat list" where
  "silent_pcs re text at pc =
     (case code re ! pc of
        OP_JMP x \<Rightarrow> [nat (int pc + x)]
      | OP_SPLIT x y \<Rightarrow> [nat (int pc + x), nat (int pc + y)]
      | OP_SAVE slot \<Rightarrow> [pc + 1]
      | inst \<Rightarrow> if re_assertion text at inst = Some True then [pc + 1] else [])"

definition slots_after :: "ussr_regex \<Rightarrow> nat \<Rightarrow> nat \<Rightarrow> re_saves \<Rightarrow> re_saves" where
  "slots_after re at pc saves = (case code re ! pc of OP_SAVE slot \<Rightarrow> saves[slot := Some at] | _ \<Rightarrow> saves)"

definition silent :: "ussr_regex \<Rightarrow> byte list \<Rightarrow> nat \<Rightarrow> re_thread rel" where
  "silent re text at = {((pc, saves), (q, slots_after re at pc saves)) | pc saves q.
     pc < length (code re) \<and> q \<in> set (silent_pcs re text at pc)}"

text \<open>The instructions a thread waits at for a character or for the end of its search.\<close>

fun stops :: "re_inst \<Rightarrow> bool" where
  "stops (OP_JMP x) \<longleftrightarrow> False"
| "stops (OP_SPLIT x y) \<longleftrightarrow> False"
| "stops (OP_SAVE slot) \<longleftrightarrow> False"
| "stops inst \<longleftrightarrow> re_assertion [] 0 inst = None"

lemma assertion_None: "re_assertion text at inst = None \<longleftrightarrow> re_assertion [] 0 inst = None"
  by (cases inst) auto

lemma length_slots_after [simp]: "length (slots_after re at pc saves) = length saves"
  by (simp add: slots_after_def split: re_inst.split)

section \<open>Well-formed programs, as the machine sees them\<close>

lemma program_at:
  assumes "program_ok re" "pc < length (code re)"
  shows "code re ! pc = OP_MATCH \<longleftrightarrow> Suc pc = length (code re)"
    "\<forall>x\<in>set (jumps (code re ! pc)). 0 \<le> int pc + x \<and> nat (int pc + x) < length (code re)"
    "\<And>slot. code re ! pc = OP_SAVE slot \<Longrightarrow> 2 \<le> slot \<and> slot < slots re"
proof -
  obtain F where F: "code re = F @ [OP_MATCH]" "frag_ok (length (ranges re)) (groups re) F"
    "slots re = 2 * (groups re + 1)"
    using assms(1) by (auto simp: program_ok_def)
  have ok: "i \<in> set F \<Longrightarrow> inst_ok (length (ranges re)) (groups re) i" for i
    using F(2) by (simp add: frag_ok_def)
  have c: "code re ! pc = F ! pc" "F ! pc \<in> set F" if "pc < length F" using that F(1) by (auto simp: nth_append)
  show "code re ! pc = OP_MATCH \<longleftrightarrow> Suc pc = length (code re)"
    using assms(2) F(1) c ok[of "F ! pc"] by (cases "pc < length F") (auto simp: nth_append)
  show "\<forall>x\<in>set (jumps (code re ! pc)). 0 \<le> int pc + x \<and> nat (int pc + x) < length (code re)"
  proof (cases "pc < length F")
    case True
    then show ?thesis
      using F(1,2) within_nth[of 0 "int (length F)" F pc] c(1)
      by (auto simp: frag_ok_def less_Suc_eq_le nat_le_iff)
  next
    case False
    then show ?thesis using assms(2) F(1) by (auto simp: nth_append)
  qed
  show "2 \<le> slot \<and> slot < slots re" if "code re ! pc = OP_SAVE slot" for slot
    using that assms(2) F(1,3) c ok[of "F ! pc"] by (cases "pc < length F") (auto simp: nth_append)
qed

lemma silent_pcs_in:
  assumes "program_ok re" "pc < length (code re)" "q \<in> set (silent_pcs re text at pc)"
  shows "q < length (code re)"
proof (cases "code re ! pc = OP_MATCH")
  case False
  then have "Suc pc < length (code re)" using program_at(1)[OF assms(1,2)] assms(2) by linarith
  then show ?thesis
    using assms(3) program_at(2)[OF assms(1,2)]
    by (auto simp: silent_pcs_def split: re_inst.splits if_splits)
qed (use assms(3) in \<open>simp add: silent_pcs_def\<close>)

lemma stops_next:
  "program_ok re \<Longrightarrow> pc < length (code re) \<Longrightarrow> code re ! pc \<noteq> OP_MATCH \<Longrightarrow> Suc pc < length (code re)"
  using program_at(1)[of re pc] by linarith

section \<open>The invariant of the loop\<close>

definition marked :: "32 word \<Rightarrow> 32 word list \<Rightarrow> nat set" where
  "marked g ms = {pc. pc < length ms \<and> ms ! pc = g}"

lemma marked_mark: "pc < length ms \<Longrightarrow> marked g (ms[pc := g]) = insert pc (marked g ms)"
  by (auto simp: marked_def nth_list_update)

text \<open>Following a wait with the slots as they will be then is following \<open>P\<close>.\<close>

fun waits_ok :: "nat \<Rightarrow> (re_thread \<Rightarrow> bool) \<Rightarrow> re_saves \<Rightarrow> re_wait list \<Rightarrow> bool" where
  "waits_ok n P saves [] \<longleftrightarrow> True"
| "waits_ok n P saves (Follow p # ws) \<longleftrightarrow> 0 \<le> p \<and> nat p < n \<and> P (nat p, saves) \<and> waits_ok n P saves ws"
| "waits_ok n P saves (Put_back slot v # ws) \<longleftrightarrow> slot < length saves \<and> waits_ok n P (saves[slot := v]) ws"

text \<open>
  The state while \<open>re_add_thread\<close> follows the thread \<open>t\<close>, from the marks \<open>ms\<close> and the threads \<open>ths\<close>.
\<close>

definition adding_ok ::
  "ussr_regex \<Rightarrow> 32 word \<Rightarrow> byte list \<Rightarrow> nat \<Rightarrow> re_thread \<Rightarrow> 32 word list \<Rightarrow> re_thread list \<Rightarrow> re_adding \<Rightarrow> bool" where
  "adding_ok re g text at t ms ths s \<longleftrightarrow>
     length (add_marks s) = length (code re) \<and> length (add_saves s) = slots re \<and>
     waits_ok (length (code re)) (\<lambda>u. (t, u) \<in> (silent re text at)\<^sup>*) (add_saves s) (add_stack s) \<and>
     length (add_stack s) + unmarked g (add_marks s) \<le> length (code re) + 1 \<and>
     length (add_threads s) + unmarked g (add_marks s) \<le> length (code re) \<and>
     marked g ms \<subseteq> marked g (add_marks s) \<and> set (add_marks s) \<subseteq> insert g (set ms) \<and>
     (\<forall>pc\<in>marked g (add_marks s) - marked g ms. \<forall>q\<in>set (silent_pcs re text at pc).
        q \<in> marked g (add_marks s) \<or> Follow (int q) \<in> set (add_stack s)) \<and>
     (fst t \<in> marked g (add_marks s) \<or> Follow (int (fst t)) \<in> set (add_stack s)) \<and>
     (\<exists>new. add_threads s = ths @ new \<and>
        fst ` set new = {pc\<in>marked g (add_marks s) - marked g ms. stops (code re ! pc)} \<and>
        (\<forall>u\<in>set new. (t, u) \<in> (silent re text at)\<^sup>* \<and> length (snd u) = slots re))"

lemma unmarked_le: "unmarked g ms \<le> length ms"
  by (simp add: unmarked_def)

section \<open>One turn of the loop\<close>

definition put_back :: "ussr_regex \<Rightarrow> nat \<Rightarrow> re_saves \<Rightarrow> re_wait list" where
  "put_back re pc saves = (case code re ! pc of OP_SAVE slot \<Rightarrow> [Put_back slot (saves ! slot)] | _ \<Rightarrow> [])"

lemma stops_cases:
  "stops i \<longleftrightarrow> (\<nexists>x. i = OP_JMP x) \<and> (\<nexists>x y. i = OP_SPLIT x y) \<and> (\<nexists>slot. i = OP_SAVE slot) \<and>
     re_assertion text at i = None"
  by (cases i) auto

lemma silent_pcs_length:
  "length (silent_pcs re text at pc) + length (put_back re pc saves) \<le> 2 \<and>
   (stops (code re ! pc) \<longrightarrow> silent_pcs re text at pc = [] \<and> put_back re pc saves = [])"
  by (auto simp: silent_pcs_def put_back_def split: re_inst.split)

lemma enter_result:
  assumes "program_ok re" "pc < length (code re)" "length (add_saves s) = slots re"
    "length (add_stack s) \<le> 2 * length (code re)" "length (add_threads s) < length (code re)"
  shows "re_enter re text at pc s =
    Some (s\<lparr>add_stack := map (\<lambda>q. Follow (int q)) (silent_pcs re text at pc) @ put_back re pc (add_saves s) @ add_stack s,
      add_saves := slots_after re at pc (add_saves s),
      add_threads := add_threads s @ (if stops (code re ! pc) then [(pc, add_saves s)] else [])\<rparr>)"
  using assms(3-5) program_at(2,3)[OF assms(1,2)]
  by (cases "code re ! pc")
    (auto simp: re_enter_def re_push_def silent_pcs_def put_back_def slots_after_def Let_def)

lemma waits_append:
  "waits_ok n P saves (map (\<lambda>q. Follow (int q)) qs @ ws) \<longleftrightarrow>
   (\<forall>q\<in>set qs. q < n \<and> P (q, saves)) \<and> waits_ok n P saves ws"
  by (induction qs) auto

lemma waits_put_back:
  "(\<And>slot. code re ! pc = OP_SAVE slot \<Longrightarrow> slot < length saves) \<Longrightarrow> waits_ok n P saves ws \<Longrightarrow>
   waits_ok n P (slots_after re at pc saves) (put_back re pc saves @ ws)"
  by (auto simp: put_back_def slots_after_def split: re_inst.split)

lemma silent_step:
  "(t, (pc, saves)) \<in> (silent re text at)\<^sup>* \<Longrightarrow> pc < length (code re) \<Longrightarrow> q \<in> set (silent_pcs re text at pc) \<Longrightarrow>
   (t, (q, slots_after re at pc saves)) \<in> (silent re text at)\<^sup>*"
  by (erule rtrancl_into_rtrancl) (auto simp: silent_def)

lemma add_step_ok:
  assumes re: "program_ok re" and ok: "adding_ok re g text at t ms ths s" and st: "add_stack s = w # ws"
  shows "\<exists>s'. re_add_step re g text at w (s\<lparr>add_stack := ws\<rparr>) = Some s' \<and> adding_ok re g text at t ms ths s'"
proof (cases w)
  case (Put_back slot v)
  then show ?thesis using ok st by (auto simp: adding_ok_def)
next
  case (Follow p)
  define pc where "pc = nat p"
  have p: "p = int pc" "pc < length (code re)" and r: "(t, (pc, add_saves s)) \<in> (silent re text at)\<^sup>*"
    and len: "length (add_marks s) = length (code re)" and sl: "length (add_saves s) = slots re"
    using ok st Follow by (auto simp: adding_ok_def pc_def)
  show ?thesis
  proof (cases "add_marks s ! pc = g")
    case True
    then have "re_add_step re g text at w (s\<lparr>add_stack := ws\<rparr>) = Some (s\<lparr>add_stack := ws\<rparr>)"
      using Follow p len by simp
    moreover have "pc \<in> marked g (add_marks s)" using True p len by (simp add: marked_def)
    then have "adding_ok re g text at t ms ths (s\<lparr>add_stack := ws\<rparr>)"
      using ok st Follow p by (auto simp: adding_ok_def)
    ultimately show ?thesis by blast
  next
    case False
    let ?s = "s\<lparr>add_stack := ws, add_marks := (add_marks s)[pc := g]\<rparr>"
    let ?qs = "silent_pcs re text at pc" and ?pb = "put_back re pc (add_saves s)"
    have um: "unmarked g (add_marks s) = Suc (unmarked g ((add_marks s)[pc := g]))"
      using False p len by (intro unmarked_mark) auto
    have mk: "marked g ((add_marks s)[pc := g]) = insert pc (marked g (add_marks s))"
      "pc \<notin> marked g (add_marks s)" using False p len by (auto simp: marked_mark) (simp add: marked_def)
    define s' where "s' = ?s\<lparr>add_stack := map (\<lambda>q. Follow (int q)) ?qs @ ?pb @ ws,
      add_saves := slots_after re at pc (add_saves s),
      add_threads := add_threads s @ (if stops (code re ! pc) then [(pc, add_saves s)] else [])\<rparr>"
    have "re_enter re text at pc ?s = Some s'"
      unfolding s'_def using ok st um p sl re by (subst enter_result) (auto simp: adding_ok_def)
    then have "re_add_step re g text at w (s\<lparr>add_stack := ws\<rparr>) = Some s'"
      using Follow p len False by simp
    moreover have "adding_ok re g text at t ms ths s'"
      unfolding adding_ok_def
    proof (intro conjI)
      show "length (add_marks s') = length (code re)" "length (add_saves s') = slots re"
        by (simp_all add: s'_def len sl)
      have "waits_ok (length (code re)) (\<lambda>u. (t, u) \<in> (silent re text at)\<^sup>*) (add_saves s) ws"
        using ok st Follow by (simp add: adding_ok_def)
      from waits_put_back[OF _ this, of re pc at] program_at(3)[OF re p(2)] sl
      show "waits_ok (length (code re)) (\<lambda>u. (t, u) \<in> (silent re text at)\<^sup>*) (add_saves s') (add_stack s')"
        using silent_step[OF r p(2)] silent_pcs_in[OF re p(2)] by (simp add: s'_def waits_append)
      show "length (add_stack s') + unmarked g (add_marks s') \<le> length (code re) + 1"
        using ok st um silent_pcs_length[of re "text" at pc "add_saves s"] by (simp add: adding_ok_def s'_def)
      show "length (add_threads s') + unmarked g (add_marks s') \<le> length (code re)"
        using ok um by (simp add: adding_ok_def s'_def)
      show "marked g ms \<subseteq> marked g (add_marks s')" using ok mk by (auto simp: adding_ok_def s'_def)
      show "set (add_marks s') \<subseteq> insert g (set ms)"
        using ok set_update_subset_insert[of "add_marks s" pc g] by (auto simp: adding_ok_def s'_def)
      show "\<forall>pc\<in>marked g (add_marks s') - marked g ms. \<forall>q\<in>set (silent_pcs re text at pc).
          q \<in> marked g (add_marks s') \<or> Follow (int q) \<in> set (add_stack s')"
        using ok st Follow p mk unfolding adding_ok_def s'_def by auto
      show "fst t \<in> marked g (add_marks s') \<or> Follow (int (fst t)) \<in> set (add_stack s')"
        using ok st Follow p mk unfolding adding_ok_def s'_def by auto
      obtain new where new: "add_threads s = ths @ new"
        "fst ` set new = {pc\<in>marked g (add_marks s) - marked g ms. stops (code re ! pc)}"
        "\<forall>u\<in>set new. (t, u) \<in> (silent re text at)\<^sup>* \<and> length (snd u) = slots re"
        using ok unfolding adding_ok_def by blast
      let ?new = "new @ (if stops (code re ! pc) then [(pc, add_saves s)] else [])"
      have "marked g ms \<subseteq> marked g (add_marks s)" using ok by (simp add: adding_ok_def)
      then have "fst ` set ?new = {pc\<in>marked g (add_marks s') - marked g ms. stops (code re ! pc)}"
        using new(2) mk by (auto simp: s'_def)
      moreover have "add_threads s' = ths @ ?new" using new(1) by (simp add: s'_def)
      moreover have "\<forall>u\<in>set ?new. (t, u) \<in> (silent re text at)\<^sup>* \<and> length (snd u) = slots re"
        using new(3) r sl by auto
      ultimately show "\<exists>new. add_threads s' = ths @ new \<and>
          fst ` set new = {pc\<in>marked g (add_marks s') - marked g ms. stops (code re ! pc)} \<and>
          (\<forall>u\<in>set new. (t, u) \<in> (silent re text at)\<^sup>* \<and> length (snd u) = slots re)"
        by blast
    qed
    ultimately show ?thesis by blast
  qed
qed

lemma add_loop_ok:
  "program_ok re \<Longrightarrow> adding_ok re g text at t ms ths s \<Longrightarrow>
    \<exists>s'. re_add_loop re g text at s = Some s' \<and> add_stack s' = [] \<and> adding_ok re g text at t ms ths s'"
proof (induction re g "text" at s rule: re_add_loop.induct)
  case (1 re g tx at s)
  show ?case
  proof (cases "add_stack s")
    case Nil
    then show ?thesis using "1.prems" by (auto simp: re_add_loop.simps)
  next
    case (Cons w ws)
    from add_step_ok[OF "1.prems" Cons] obtain s' where
      s': "re_add_step re g tx at w (s\<lparr>add_stack := ws\<rparr>) = Some s'" "adding_ok re g tx at t ms ths s'" by blast
    from "1.IH"[OF Cons s'(1) "1.prems"(1) s'(2)] show ?thesis
      using Cons s'(1) by (subst re_add_loop.simps) simp
  qed
qed

section \<open>The whole of it\<close>

definition silent_closed :: "ussr_regex \<Rightarrow> byte list \<Rightarrow> nat \<Rightarrow> nat set \<Rightarrow> bool" where
  "silent_closed re text at ps \<longleftrightarrow> (\<forall>pc\<in>ps. set (silent_pcs re text at pc) \<subseteq> ps)"

text \<open>A list with its marks: every marked instruction that stops has its thread, and no other.\<close>

definition threads_ok :: "ussr_regex \<Rightarrow> 32 word \<Rightarrow> 32 word list \<Rightarrow> re_thread list \<Rightarrow> bool" where
  "threads_ok re g ms ths \<longleftrightarrow> length ms = length (code re) \<and>
     length ths + unmarked g ms \<le> length (code re) \<and> (\<forall>u\<in>set ths. fst u < length (code re) \<and> length (snd u) = slots re)"

lemma add_thread_ok:
  assumes re: "program_ok re" and ths: "threads_ok re g ms ths"
    and t: "fst t < length (code re)" "length (snd t) = slots re"
  obtains ms' new where "re_add_thread re g text at (fst t) (snd t) (ms, ths) = Some (ms', ths @ new)"
    "threads_ok re g ms' (ths @ new)" "marked g ms \<subseteq> marked g ms'" "fst t \<in> marked g ms'" "set ms' \<subseteq> insert g (set ms)"
    "\<forall>pc\<in>marked g ms' - marked g ms. set (silent_pcs re text at pc) \<subseteq> marked g ms'"
    "fst ` set new = {pc\<in>marked g ms' - marked g ms. stops (code re ! pc)}"
    "\<forall>u\<in>set new. (t, u) \<in> (silent re text at)\<^sup>*"
proof -
  let ?s = "\<lparr>add_stack = [Follow (int (fst t))], add_saves = snd t, add_marks = ms, add_threads = ths\<rparr>"
  have "adding_ok re g text at t ms ths ?s"
    using ths t unmarked_le[of g ms] by (auto simp: adding_ok_def threads_ok_def)
  from add_loop_ok[OF re this] obtain s' where s': "re_add_loop re g text at ?s = Some s'" "add_stack s' = []"
    "adding_ok re g text at t ms ths s'" by blast
  then obtain new where new: "add_threads s' = ths @ new"
    "fst ` set new = {pc\<in>marked g (add_marks s') - marked g ms. stops (code re ! pc)}"
    "\<forall>u\<in>set new. (t, u) \<in> (silent re text at)\<^sup>* \<and> length (snd u) = slots re"
    unfolding adding_ok_def by blast
  have len: "length (add_marks s') = length (code re)" using s'(3) by (simp add: adding_ok_def)
  have "fst u < length (code re)" if "u \<in> set new" for u
  proof -
    have "fst u \<in> fst ` set new" using that by blast
    then show ?thesis unfolding new(2) by (auto simp: marked_def len)
  qed
  then have "threads_ok re g (add_marks s') (ths @ new)"
    using s'(3) new(1,3) ths len by (auto simp: adding_ok_def threads_ok_def)
  moreover have "re_add_thread re g text at (fst t) (snd t) (ms, ths) = Some (add_marks s', ths @ new)"
    using s'(1) new(1) by (simp add: re_add_thread_def)
  moreover have "\<forall>pc\<in>marked g (add_marks s') - marked g ms.
      set (silent_pcs re text at pc) \<subseteq> marked g (add_marks s')"
    using s'(2,3) unfolding adding_ok_def by fastforce
  moreover have "marked g ms \<subseteq> marked g (add_marks s')" "fst t \<in> marked g (add_marks s')"
    "set (add_marks s') \<subseteq> insert g (set ms)"
    using s'(2,3) by (auto simp: adding_ok_def)
  ultimately show ?thesis using that new by blast
qed

end
