(* ===== verification/RegexSearch.thy ===== *)
theory RegexSearch
  imports RegexThreads
begin

text \<open>
  What a search of \<open>src/regex.c\<close> finds. The reference is the nondeterministic machine without
  marks, lists or priorities: a thread that starts anywhere and follows the program over the text.
  A search finds a match exactly when such a thread reaches \<open>OP_MATCH\<close>, with the leftmost start
  there is, and makes no access out of bounds.
\<close>

section \<open>The reference machine\<close>

text \<open>
  The threads that start at \<open>s\<close>: position, counter and slots.
\<close>

inductive thread_at :: "ussr_regex \<Rightarrow> byte list \<Rightarrow> nat \<Rightarrow> nat \<Rightarrow> re_thread \<Rightarrow> bool"
  for re "text" s where
  start: "thread_at re text s s (0, (replicate (slots re) None)[0 := Some s])"
| silent: "thread_at re text s at u \<Longrightarrow> (u, v) \<in> silent re text at \<Longrightarrow> thread_at re text s at v"
| take: "thread_at re text s at (pc, saves) \<Longrightarrow> pc < length (code re) \<Longrightarrow>
    re_char_at text at = (Some c, len) \<Longrightarrow> re_takes re (Some c) (code re ! pc) \<Longrightarrow>
    thread_at re text s (at + len) (Suc pc, saves)"

text \<open>A match from \<open>s\<close> to \<open>e\<close>, with the spans of the whole and of the groups.\<close>

definition re_match :: "ussr_regex \<Rightarrow> byte list \<Rightarrow> nat \<Rightarrow> nat \<Rightarrow> re_saves \<Rightarrow> bool" where
  "re_match re text s e spans \<longleftrightarrow>
     (\<exists>pc saves. thread_at re text s e (pc, saves) \<and> pc < length (code re) \<and> code re ! pc = OP_MATCH \<and>
        spans = saves[1 := Some e])"

text \<open>The positions a search from \<open>from\<close> tries: it goes on by whole characters.\<close>

inductive re_position :: "byte list \<Rightarrow> nat \<Rightarrow> nat \<Rightarrow> bool" for "text" "from" where
  first: "re_position text from from"
| onward: "re_position text from at \<Longrightarrow> re_char_at text at = (Some c, len) \<Longrightarrow> re_position text from (at + len)"

lemma re_decode_fits: "p \<noteq> [] \<Longrightarrow> snd (re_decode p) \<le> length p"
  by (cases p) (auto simp: Let_def split: option.splits prod.splits)

lemma re_char_fits: "re_char_at text at = (Some c, len) \<Longrightarrow> at + len \<le> length text"
  using re_decode_fits[of "drop at text"]
  by (cases "re_decode (drop at text)") (auto simp: re_char_at_def split: if_splits)

lemma position_bounds: "re_position text from at \<Longrightarrow> from \<le> length text \<Longrightarrow> from \<le> at \<and> at \<le> length text"
  by (induction rule: re_position.induct) (auto dest: re_char_fits re_char_at_Some)

lemma positions_apart:
  "re_position text from s \<Longrightarrow> re_position text from at \<Longrightarrow> at < s \<Longrightarrow> re_char_at text at = (Some c, len) \<Longrightarrow>
   at + len \<le> s"
proof (induction s arbitrary: at c len rule: less_induct)
  case (less s)
  have ge: "re_position text from a \<Longrightarrow> from \<le> a" for a
    by (induction rule: re_position.induct) auto
  from less.prems(1) show ?case
  proof (cases rule: re_position.cases)
    case first
    then show ?thesis using less.prems(2,3) ge by fastforce
  next
    case (onward a d k)
    note k = re_char_at_Some[OF onward(3)]
    consider "a < at" | "a = at" | "at < a" by linarith
    then show ?thesis
    proof cases
      case 1
      then have "a + k \<le> at" using less.IH[OF less.prems(3) less.prems(2) onward(2) 1 onward(3)] by simp
      then show ?thesis using less.prems(3) onward(1) by simp
    next
      case 2
      then show ?thesis using onward less.prems(4) by simp
    next
      case 3
      then have "at + len \<le> a" using less.IH[OF _ onward(2) less.prems(2) 3 less.prems(4)] onward(1) k by simp
      then show ?thesis using onward(1) by simp
    qed
  qed
qed

section \<open>Facts on threads\<close>

lemma silent_counter:
  "program_ok re \<Longrightarrow> (u, v) \<in> silent re text at \<Longrightarrow> fst u < length (code re) \<and> fst v < length (code re)"
  by (auto simp: silent_def silent_pcs_in)

lemma silent_slots: "(u, v) \<in> silent re text at \<Longrightarrow> length (snd v) = length (snd u)"
  by (auto simp: silent_def)

lemma program_slots: "program_ok re \<Longrightarrow> 2 \<le> slots re \<and> 0 < length (code re)"
  by (auto simp: program_ok_def)

lemma silent_start:
  assumes "program_ok re" "(u, v) \<in> silent re text at" shows "snd v ! 0 = snd u ! 0"
  using assms program_at(3)[OF assms(1)]
  by (auto simp: silent_def slots_after_def split: re_inst.split) fastforce

lemma takes_not_match: "re_takes re c i \<Longrightarrow> i \<noteq> OP_MATCH \<and> stops i"
  by (cases c; cases i) auto

lemma thread_ok:
  assumes "program_ok re"
  shows "thread_at re text s at u \<Longrightarrow>
    s \<le> at \<and> fst u < length (code re) \<and> length (snd u) = slots re \<and> snd u ! 0 = Some s"
proof (induction rule: thread_at.induct)
  case start
  then show ?case using program_slots[OF assms] by (simp add: nth_list_update)
next
  case (silent at u v)
  then show ?case using silent_counter[OF assms silent(2)] silent_slots[OF silent(2)] silent_start[OF assms silent(2)] by simp
next
  case (take at pc saves c len)
  then show ?case using stops_next[OF assms, of pc] takes_not_match[OF take(4)] by auto
qed

lemma thread_silents: "(u, v) \<in> (silent re text at)\<^sup>* \<Longrightarrow> thread_at re text s at u \<Longrightarrow> thread_at re text s at v"
  by (induction rule: rtrancl_induct) (auto intro: thread_at.silent)

text \<open>Whether an instruction is reached does not depend on the slots.\<close>

definition reaches :: "ussr_regex \<Rightarrow> byte list \<Rightarrow> nat \<Rightarrow> nat \<Rightarrow> nat \<Rightarrow> bool" where
  "reaches re text s at pc \<longleftrightarrow> (\<exists>saves. thread_at re text s at (pc, saves))"

text \<open>The instructions reached at the start, or after one that takes a character, and on from there.\<close>

definition enters :: "ussr_regex \<Rightarrow> byte list \<Rightarrow> nat \<Rightarrow> nat \<Rightarrow> nat \<Rightarrow> bool" where
  "enters re text s at pc \<longleftrightarrow> (at = s \<and> pc = 0) \<or>
     (\<exists>a p c len. reaches re text s a p \<and> p < length (code re) \<and> re_char_at text a = (Some c, len) \<and>
        at = a + len \<and> re_takes re (Some c) (code re ! p) \<and> pc = Suc p)"

lemma reaches_closed:
  assumes "silent_closed re text at ps" "\<And>pc. enters re text s at pc \<Longrightarrow> pc \<in> ps" "thread_at re text s at' u" "at' = at"
  shows "fst u \<in> ps"
  using assms(3,4)
proof (induction rule: thread_at.induct)
  case start
  then show ?case using assms(2) by (simp add: enters_def)
next
  case (silent a u v)
  then show ?case using assms(1) unfolding silent_def silent_closed_def by fastforce
next
  case (take a pc saves c len)
  then have "enters re text s at (Suc pc)" unfolding enters_def reaches_def by blast
  then show ?case using assms(2) by simp
qed

section \<open>No access out of bounds\<close>

lemma add_thread_safe:
  assumes "program_ok re" "threads_ok re g ms ths" "pc < length (code re)" "length saves = slots re"
  shows "\<exists>ms' new. re_add_thread re g text at pc saves (ms, ths) = Some (ms', ths @ new) \<and> threads_ok re g ms' (ths @ new)"
proof -
  have "fst (pc, saves) < length (code re)" "length (snd (pc, saves)) = slots re" using assms by auto
  from add_thread_ok[OF assms(1,2) this, of "text" at] obtain ms' new where
    "re_add_thread re g text at (fst (pc, saves)) (snd (pc, saves)) (ms, ths) = Some (ms', ths @ new)"
    "threads_ok re g ms' (ths @ new)" .
  then show ?thesis unfolding fst_conv snd_conv by (intro exI conjI)
qed

lemma run_safe:
  assumes re: "program_ok re"
  shows "threads_ok re g ms nxt \<Longrightarrow> \<forall>u\<in>set ths. fst u < length (code re) \<and> length (snd u) = slots re \<Longrightarrow>
    \<exists>spans ms' nxt'. re_run_threads re g text at c len ths (ms, nxt) = Some (spans, ms', nxt') \<and>
      threads_ok re g ms' nxt'"
proof (induction ths arbitrary: ms nxt)
  case (Cons u ths)
  obtain pc saves where u: "u = (pc, saves)" by fastforce
  show ?case
  proof (cases "code re ! pc \<noteq> OP_MATCH \<and> re_takes re c (code re ! pc)")
    case True
    then have "Suc pc < length (code re)" using stops_next[OF re, of pc] Cons.prems(2) u by auto
    then obtain ms' new where "re_add_thread re g text (at + len) (Suc pc) saves (ms, nxt) = Some (ms', nxt @ new)"
      "threads_ok re g ms' (nxt @ new)"
      using add_thread_safe[OF re Cons.prems(1), of "Suc pc" saves "text" "at + len"] Cons.prems(2) u by auto
    with Cons.IH[of ms' "nxt @ new"] Cons.prems(2) True show ?thesis by (auto simp: u)
  next
    case False
    then show ?thesis using Cons program_slots[OF re] by (auto simp: u)
  qed
qed auto

lemma threads_ok_empty: "length ms = length (code re) \<Longrightarrow> threads_ok re g ms []"
  using unmarked_le[of g ms] by (simp add: threads_ok_def)

definition search_start ::
  "ussr_regex \<Rightarrow> byte list \<Rightarrow> 32 word \<Rightarrow> 32 word list \<Rightarrow> re_thread list \<Rightarrow> re_saves option \<Rightarrow> nat \<Rightarrow>
   (32 word list \<times> re_thread list) option" where
  "search_start re text g ms ths found at =
     (if found = None then re_add_thread re g text at 0 ((replicate (slots re) None)[0 := Some at]) (ms, ths)
      else Some (ms, ths))"

lemma search_loop_cases:
  assumes "search_start re text g ms ths found at = Some (ms1, ths1)"
  shows "ths1 = [] \<and> (found \<noteq> None \<or> at \<ge> length text) \<Longrightarrow>
      re_search_loop re text g ms ths found at = Some (found, ms1, g)"
    "\<not> (ths1 = [] \<and> (found \<noteq> None \<or> at \<ge> length text)) \<Longrightarrow> re_char_at text at = (c, len) \<Longrightarrow>
      re_run_threads re (g + 1) text at c len ths1 (ms1, []) = Some (spans, ms2, ths2) \<Longrightarrow>
      re_search_loop re text g ms ths found at =
        (if c = None then Some (if spans = None then found else spans, ms2, g + 1)
         else re_search_loop re text (g + 1) ms2 ths2 (if spans = None then found else spans) (at + len))"
  using assms unfolding search_start_def by (subst re_search_loop.simps; auto)+

lemma search_loop_safe:
  "program_ok re \<Longrightarrow> threads_ok re g ms ths \<Longrightarrow>
    \<exists>found' ms' g'. re_search_loop re text g ms ths found at = Some (found', ms', g') \<and>
      length ms' = length (code re)"
proof (induction re "text" g ms ths found at rule: re_search_loop.induct)
  case (1 re tx g ms ths found at)
  note re = "1.prems"(1)
  have "\<exists>ms1 ths1. search_start re tx g ms ths found at = Some (ms1, ths1) \<and> threads_ok re g ms1 ths1"
    using add_thread_safe[OF re "1.prems"(2), of 0 "(replicate (slots re) None)[0 := Some at]" tx at]
      program_slots[OF re] "1.prems"(2)
    by (cases "found = None") (auto simp: search_start_def)
  then obtain ms1 ths1 where a: "search_start re tx g ms ths found at = Some (ms1, ths1)" "threads_ok re g ms1 ths1"
    by blast
  show ?case
  proof (cases "ths1 = [] \<and> (found \<noteq> None \<or> at \<ge> length tx)")
    case True
    then show ?thesis using search_loop_cases(1)[OF a(1)] a(2) by (simp add: threads_ok_def)
  next
    case False
    obtain c len where c: "re_char_at tx at = (c, len)" by fastforce
    have "threads_ok re (g + 1) ms1 []" using a(2) by (intro threads_ok_empty) (simp add: threads_ok_def)
    from run_safe[OF re this, of ths1 tx at c len] a(2)
    obtain spans ms2 ths2 where r: "re_run_threads re (g + 1) tx at c len ths1 (ms1, []) = Some (spans, ms2, ths2)"
      "threads_ok re (g + 1) ms2 ths2" by (auto simp: threads_ok_def)
    note loop = search_loop_cases(2)[OF a(1) False c r(1)]
    show ?thesis
    proof (cases c)
      case None
      then show ?thesis using loop r(2) by (simp add: threads_ok_def)
    next
      case (Some ch)
      have "\<exists>found' ms' g'. re_search_loop re tx (g + 1) ms2 ths2 (if spans = None then found else spans) (at + len) =
          Some (found', ms', g') \<and> length ms' = length (code re)"
        by (rule "1.IH"[OF a(1)[unfolded search_start_def] refl False c[symmetric] refl r(1) refl refl refl _ re r(2)])
          (simp add: Some)
      then show ?thesis using loop Some by simp
    qed
  qed
qed

lemma search_safe:
  assumes "program_ok re"
  shows "\<exists>found re'. ussr_regex_search re text from = Some (found, re') \<and> program_ok re' \<and>
    code re' = code re \<and> ranges re' = ranges re \<and> groups re' = groups re \<and> slots re' = slots re"
proof -
  have "length (marks re) = length (code re)" using assms by (auto simp: program_ok_def)
  from search_loop_safe[OF assms threads_ok_empty[OF this]] show ?thesis
    using assms by (cases "length text < from") (fastforce simp: ussr_regex_search_def program_ok_def)+
qed

section \<open>Building the next list\<close>

abbreviation start_of :: "re_thread \<Rightarrow> nat" where
  "start_of u \<equiv> the (snd u ! 0)"

text \<open>A list is complete for the marks: all marked instructions that stop have a thread.\<close>

definition list_full :: "ussr_regex \<Rightarrow> byte list \<Rightarrow> nat \<Rightarrow> 32 word \<Rightarrow> 32 word list \<Rightarrow> re_thread list \<Rightarrow> bool" where
  "list_full re text at g ms ths \<longleftrightarrow> threads_ok re g ms ths \<and> silent_closed re text at (marked g ms) \<and>
     fst ` set ths = {pc\<in>marked g ms. stops (code re ! pc)} \<and>
     (\<forall>u\<in>set ths. thread_at re text (start_of u) at u) \<and> sorted (map start_of ths)"

lemma list_full_empty: "length ms = length (code re) \<Longrightarrow> marked g ms = {} \<Longrightarrow> list_full re text at g ms []"
  by (simp add: list_full_def threads_ok_empty silent_closed_def)

lemma silents_start:
  assumes "program_ok re" shows "(u, v) \<in> (silent re text at)\<^sup>* \<Longrightarrow> snd v ! 0 = snd u ! 0"
  by (induction rule: rtrancl_induct) (auto dest: silent_start[OF assms])

text \<open>Following one more thread, whose start is no earlier than those in the list.\<close>

lemma add_thread_full:
  assumes re: "program_ok re" and l: "list_full re text at g ms ths"
    and t: "thread_at re text (start_of t) at t" "\<forall>u\<in>set ths. start_of u \<le> start_of t"
  obtains ms' new where "re_add_thread re g text at (fst t) (snd t) (ms, ths) = Some (ms', ths @ new)"
    "list_full re text at g ms' (ths @ new)" "fst t \<in> marked g ms'" "\<forall>u\<in>set new. start_of u = start_of t"
    "set ms' \<subseteq> insert g (set ms)"
proof -
  note tk = thread_ok[OF re t(1)]
  have "threads_ok re g ms ths" using l by (simp only: list_full_def)
  from add_thread_ok[OF re this tk[THEN conjunct2, THEN conjunct1] tk[THEN conjunct2, THEN conjunct2, THEN conjunct1],
      of "text" at] obtain ms' new where *:
    "re_add_thread re g text at (fst t) (snd t) (ms, ths) = Some (ms', ths @ new)"
    "threads_ok re g ms' (ths @ new)" "marked g ms \<subseteq> marked g ms'" "fst t \<in> marked g ms'"
    "set ms' \<subseteq> insert g (set ms)"
    "\<forall>pc\<in>marked g ms' - marked g ms. set (silent_pcs re text at pc) \<subseteq> marked g ms'"
    "fst ` set new = {pc\<in>marked g ms' - marked g ms. stops (code re ! pc)}"
    "\<forall>u\<in>set new. (t, u) \<in> (silent re text at)\<^sup>*"
    .
  have new: "start_of u = start_of t \<and> thread_at re text (start_of u) at u" if "u \<in> set new" for u
  proof -
    have "(t, u) \<in> (silent re text at)\<^sup>*" using that *(8) by blast
    from silents_start[OF re this] thread_silents[OF this t(1)] show ?thesis by simp
  qed
  have "list_full re text at g ms' (ths @ new)"
    unfolding list_full_def
  proof (intro conjI)
    show "silent_closed re text at (marked g ms')"
      using l *(3,6) unfolding list_full_def silent_closed_def by blast
    show "fst ` set (ths @ new) = {pc\<in>marked g ms'. stops (code re ! pc)}"
      using l *(3,7) unfolding list_full_def by (auto simp: image_Un)
    show "\<forall>u\<in>set (ths @ new). thread_at re text (start_of u) at u"
      using l new unfolding list_full_def by auto
    have "map start_of new = map (\<lambda>u. start_of t) new" using new by simp
    then have "sorted (map start_of new)" by (simp only: map_replicate_const sorted_replicate)
    then show "sorted (map start_of (ths @ new))"
      using l new t(2) unfolding list_full_def by (auto simp: sorted_append)
  qed (rule *(2))
  with that * new show ?thesis by blast
qed

text \<open>
  What the threads \<open>done\<close> of the list at \<open>at\<close> have led to: for each that took the character, the
  next list has what follows from it, with no later start.
\<close>

definition led_to ::
  "ussr_regex \<Rightarrow> byte list \<Rightarrow> nat option \<Rightarrow> nat \<Rightarrow> re_thread list \<Rightarrow> re_thread list \<Rightarrow> bool" where
  "led_to re text c at' did ths \<longleftrightarrow> (\<forall>u\<in>set did. re_takes re c (code re ! fst u) \<longrightarrow>
     (\<exists>ps. silent_closed re text at' ps \<and> Suc (fst u) \<in> ps \<and>
        (\<forall>pc\<in>ps. stops (code re ! pc) \<longrightarrow> (\<exists>v\<in>set ths. fst v = pc \<and> start_of v \<le> start_of u)))) \<and>
     (\<forall>v\<in>set ths. \<exists>u\<in>set did. start_of v = start_of u)"

lemma run_full:
  assumes re: "program_ok re" and c: "re_char_at text at = (c, len)"
  shows "list_full re text (at + len) g ms nxt \<Longrightarrow> led_to re text c (at + len) did nxt \<Longrightarrow>
    sorted (map start_of (did @ ths)) \<Longrightarrow> \<forall>u\<in>set ths. thread_at re text (start_of u) at u \<Longrightarrow>
    \<exists>spans ms' nxt' pre post. re_run_threads re g text at c len ths (ms, nxt) = Some (spans, ms', nxt') \<and>
      list_full re text (at + len) g ms' nxt' \<and> led_to re text c (at + len) (did @ pre) nxt' \<and>
      set ms' \<subseteq> insert g (set ms) \<and> ths = pre @ post \<and> (\<forall>u\<in>set pre. code re ! fst u \<noteq> OP_MATCH) \<and>
      (case spans of None \<Rightarrow> post = []
       | Some sp \<Rightarrow> post \<noteq> [] \<and> code re ! fst (hd post) = OP_MATCH \<and> sp = (snd (hd post))[1 := Some at])"
proof (induction ths arbitrary: did ms nxt)
  case Nil
  then show ?case by (auto intro!: exI[of _ "[]"])
next
  case (Cons u ths)
  obtain pc saves where u: "u = (pc, saves)" by fastforce
  have uk: "pc < length (code re)" "length saves = slots re"
    using thread_ok[OF re] Cons.prems(4) by (auto simp: u)
  consider "code re ! pc = OP_MATCH" | "code re ! pc \<noteq> OP_MATCH" "re_takes re c (code re ! pc)"
    | "code re ! pc \<noteq> OP_MATCH" "\<not> re_takes re c (code re ! pc)" by blast
  then show ?case
  proof cases
    case 1
    then have "re_run_threads re g text at c len (u # ths) (ms, nxt) = Some (Some (saves[1 := Some at]), ms, nxt)"
      using uk program_slots[OF re] by (simp add: u)
    moreover have "led_to re text c (at + len) (did @ []) nxt" using Cons.prems(2) by simp
    ultimately show ?thesis using Cons.prems(1) 1 u
      by (intro exI[of _ "Some (saves[1 := Some at])"] exI[of _ ms] exI[of _ nxt] exI[of _ "[]"] exI[of _ "u # ths"])
        auto
  next
    case 2
    let ?t = "(Suc pc, saves)"
    obtain ch where ch: "c = Some ch" using 2(2) by (cases c) auto
    have t: "thread_at re text (start_of ?t) (at + len) ?t"
      using thread_at.take[of re "text" "start_of u" at pc saves ch len] Cons.prems(4) uk c ch 2(2) by (auto simp: u)
    have "\<forall>v\<in>set nxt. start_of v \<le> start_of ?t"
    proof
      fix v assume "v \<in> set nxt"
      then obtain w where "w \<in> set did" "start_of v = start_of w" using Cons.prems(2) by (auto simp: led_to_def)
      then show "start_of v \<le> start_of ?t" using Cons.prems(3) by (auto simp: sorted_append u)
    qed
    from add_thread_full[OF re Cons.prems(1) t this] obtain ms1 new where a:
      "re_add_thread re g text (at + len) (Suc pc) saves (ms, nxt) = Some (ms1, nxt @ new)"
      "list_full re text (at + len) g ms1 (nxt @ new)" "Suc pc \<in> marked g ms1" "\<forall>v\<in>set new. start_of v = start_of u"
      "set ms1 \<subseteq> insert g (set ms)" by (auto simp: u)
    have le: "\<forall>v\<in>set (nxt @ new). start_of v \<le> start_of u"
      using \<open>\<forall>v\<in>set nxt. start_of v \<le> start_of ?t\<close> a(4) by (auto simp: u)
    have "led_to re text c (at + len) (did @ [u]) (nxt @ new)"
      unfolding led_to_def
    proof (intro conjI ballI impI)
      fix w assume w: "w \<in> set (did @ [u])" "re_takes re c (code re ! fst w)"
      show "\<exists>ps. silent_closed re text (at + len) ps \<and> Suc (fst w) \<in> ps \<and>
          (\<forall>pc\<in>ps. stops (code re ! pc) \<longrightarrow> (\<exists>v\<in>set (nxt @ new). fst v = pc \<and> start_of v \<le> start_of w))"
      proof (cases "w \<in> set did")
        case True
        then show ?thesis using Cons.prems(2) w(2) unfolding led_to_def by (metis Un_iff set_append)
      next
        case False
        then have "w = u" using w(1) by simp
        moreover have "\<exists>v\<in>set (nxt @ new). fst v = q \<and> start_of v \<le> start_of u"
          if "q \<in> marked g ms1" "stops (code re ! q)" for q
        proof -
          have "q \<in> fst ` set (nxt @ new)" using that a(2) by (simp only: list_full_def) simp
          then show ?thesis using le by blast
        qed
        ultimately show ?thesis using a(2,3) u unfolding list_full_def by auto
      qed
    next
      fix v assume "v \<in> set (nxt @ new)"
      then show "\<exists>w\<in>set (did @ [u]). start_of v = start_of w"
        using a(4) Cons.prems(2) by (auto simp: led_to_def)
    qed
    from Cons.IH[OF a(2) this] Cons.prems(3,4) obtain spans ms' nxt' pre post where r:
      "re_run_threads re g text at c len ths (ms1, nxt @ new) = Some (spans, ms', nxt')"
      "list_full re text (at + len) g ms' nxt'" "led_to re text c (at + len) ((did @ [u]) @ pre) nxt'"
      "set ms' \<subseteq> insert g (set ms1)" "ths = pre @ post" "\<forall>u\<in>set pre. code re ! fst u \<noteq> OP_MATCH"
      "case spans of None \<Rightarrow> post = []
       | Some sp \<Rightarrow> post \<noteq> [] \<and> code re ! fst (hd post) = OP_MATCH \<and> sp = (snd (hd post))[1 := Some at]"
      by auto
    have "re_run_threads re g text at c len (u # ths) (ms, nxt) = Some (spans, ms', nxt')"
      using r(1) a(1) uk 2 by (simp add: u)
    moreover have "set ms' \<subseteq> insert g (set ms)" using r(4) a(5) by auto
    moreover have "u # ths = (u # pre) @ post" using r(5) by simp
    ultimately show ?thesis using r(2,3,6,7) 2(1) u
      by (intro exI[of _ spans] exI[of _ ms'] exI[of _ nxt'] exI[of _ "u # pre"] exI[of _ post]) auto
  next
    case 3
    have "led_to re text c (at + len) (did @ [u]) nxt"
      using Cons.prems(2) 3(2) by (auto simp: led_to_def u)
    from Cons.IH[OF Cons.prems(1) this] Cons.prems(3,4) obtain spans ms' nxt' pre post where r:
      "re_run_threads re g text at c len ths (ms, nxt) = Some (spans, ms', nxt')"
      "list_full re text (at + len) g ms' nxt'" "led_to re text c (at + len) ((did @ [u]) @ pre) nxt'"
      "set ms' \<subseteq> insert g (set ms)" "ths = pre @ post" "\<forall>u\<in>set pre. code re ! fst u \<noteq> OP_MATCH"
      "case spans of None \<Rightarrow> post = []
       | Some sp \<Rightarrow> post \<noteq> [] \<and> code re ! fst (hd post) = OP_MATCH \<and> sp = (snd (hd post))[1 := Some at]"
      by auto
    have "re_run_threads re g text at c len (u # ths) (ms, nxt) = Some (spans, ms', nxt')"
      using r(1) uk 3 by (simp add: u)
    moreover have "u # ths = (u # pre) @ post" using r(5) by simp
    ultimately show ?thesis using r(2,3,4,6,7) 3(1) u
      by (intro exI[of _ spans] exI[of _ ms'] exI[of _ nxt'] exI[of _ "u # pre"] exI[of _ post]) auto
  qed
qed

section \<open>The loop over the text\<close>

text \<open>The starts that still matter: before the one found, if one was found.\<close>

definition sooner :: "re_saves option \<Rightarrow> nat \<Rightarrow> bool" where
  "sooner found s \<longleftrightarrow> (case found of None \<Rightarrow> True | Some sp \<Rightarrow> s < the (sp ! 0))"

text \<open>
  The list at \<open>at\<close>, for the starts below \<open>lim\<close>: for each of them that still matters, what its
  threads reach is in the list with that start or one before.
\<close>

definition list_ok ::
  "ussr_regex \<Rightarrow> byte list \<Rightarrow> nat \<Rightarrow> nat \<Rightarrow> 32 word \<Rightarrow> 32 word list \<Rightarrow> re_thread list \<Rightarrow> re_saves option \<Rightarrow> nat \<Rightarrow> bool" where
  "list_ok re text from at g ms ths found lim \<longleftrightarrow> list_full re text at g ms ths \<and>
     (\<forall>u\<in>set ths. re_position text from (start_of u) \<and> start_of u < lim \<and>
        (case found of None \<Rightarrow> True | Some sp \<Rightarrow> start_of u \<le> the (sp ! 0))) \<and>
     (\<forall>s pc. re_position text from s \<and> s < lim \<and> sooner found s \<and> reaches re text s at pc \<and> stops (code re ! pc) \<longrightarrow>
        (\<exists>u\<in>set ths. fst u = pc \<and> start_of u \<le> s))"

text \<open>What was found so far, by the matches that end before \<open>lim\<close>.\<close>

definition found_ok :: "ussr_regex \<Rightarrow> byte list \<Rightarrow> nat \<Rightarrow> re_saves option \<Rightarrow> nat \<Rightarrow> bool" where
  "found_ok re text from found lim \<longleftrightarrow>
     (\<forall>sp. found = Some sp \<longrightarrow> (\<exists>s e. re_position text from s \<and> e < lim \<and> re_match re text s e sp \<and> sp ! 0 = Some s)) \<and>
     (\<forall>s e sp. re_position text from s \<and> sooner found s \<and> e < lim \<longrightarrow> \<not> re_match re text s e sp)"

lemma char_positive: "re_char_at text at = (Some c, len) \<Longrightarrow> 0 < len"
  using re_char_at_Some by blast

lemma enters_start:
  assumes "program_ok re" "enters re text s s pc" shows "pc = 0"
proof (rule ccontr)
  assume "pc \<noteq> 0"
  then obtain a p c len where "reaches re text s a p" "re_char_at text a = (Some c, len)" "s = a + len"
    using assms(2) by (auto simp: enters_def)
  then show False using thread_ok[OF assms(1)] char_positive unfolding reaches_def by fastforce
qed

text \<open>The thread that starts here joins the list.\<close>

lemma list_start:
  assumes re: "program_ok re" and l: "list_ok re text from at g ms ths None at" and p: "re_position text from at"
  obtains ms' ths' where "search_start re text g ms ths None at = Some (ms', ths')"
    "list_ok re text from at g ms' ths' None (Suc at)" "set ms' \<subseteq> insert g (set ms)"
proof -
  let ?t = "(0, (replicate (slots re) None)[0 := Some at])"
  have t: "thread_at re text (start_of ?t) at ?t"
    using thread_at.start[of re "text" at] program_slots[OF re] by simp
  have s0: "start_of ?t = at" using program_slots[OF re] by simp
  have "\<forall>u\<in>set ths. start_of u \<le> start_of ?t" using l s0 by (auto simp: list_ok_def)
  from add_thread_full[OF re _ t this, of g ms] l obtain ms' new where a:
    "re_add_thread re g text at 0 (snd ?t) (ms, ths) = Some (ms', ths @ new)"
    "list_full re text at g ms' (ths @ new)" "0 \<in> marked g ms'" "\<forall>u\<in>set new. start_of u = at"
    "set ms' \<subseteq> insert g (set ms)" unfolding s0 by (auto simp: list_ok_def)
  have "list_ok re text from at g ms' (ths @ new) None (Suc at)"
    unfolding list_ok_def
  proof (intro conjI allI impI)
    show "\<forall>u\<in>set (ths @ new). re_position text from (start_of u) \<and> start_of u < Suc at \<and>
        (case None of None \<Rightarrow> True | Some sp \<Rightarrow> start_of u \<le> the (sp ! 0))"
      using l a(4) p by (auto simp: list_ok_def)
    fix s pc
    assume s: "re_position text from s \<and> s < Suc at \<and> sooner None s \<and> reaches re text s at pc \<and> stops (code re ! pc)"
    show "\<exists>u\<in>set (ths @ new). fst u = pc \<and> start_of u \<le> s"
    proof (cases "s = at")
      case False
      then have "\<exists>u\<in>set ths. fst u = pc \<and> start_of u \<le> s" using l s by (auto simp: list_ok_def)
      then show ?thesis by auto
    next
      case True
      obtain saves where "thread_at re text at at (pc, saves)" using s True by (auto simp: reaches_def)
      from reaches_closed[OF _ _ this refl, of "marked g ms'"] a(2,3) enters_start[OF re]
      have "pc \<in> marked g ms'" unfolding list_full_def by auto
      then have "pc \<in> fst ` set (ths @ new)" using a(2) s unfolding list_full_def by blast
      then obtain u where "u \<in> set (ths @ new)" "fst u = pc" by blast
      moreover have "start_of u \<le> s" if "u \<in> set (ths @ new)" for u
        using that l a(4) True by (auto simp: list_ok_def)
      ultimately show ?thesis by blast
    qed
  qed (rule a(2))
  with that a(1,5) show ?thesis by (simp add: search_start_def)
qed

text \<open>Where the threads of a start that is a position are, there are positions.\<close>

lemma thread_position: "thread_at re text s at u \<Longrightarrow> re_position text from s \<Longrightarrow> re_position text from at"
  by (induction rule: thread_at.induct) (auto intro: re_position.onward)

text \<open>The list after the one at \<open>at\<close>, for the starts that still matter.\<close>

lemma list_onward:
  assumes re: "program_ok re" and p: "re_position text from at" and c: "re_char_at text at = (Some ch, len)"
    and l: "list_ok re text from at g ms ths found (Suc at)"
    and full: "list_full re text (at + len) g' ms' nxt" and led: "led_to re text (Some ch) (at + len) pre nxt"
    and pre: "set pre \<subseteq> set ths"
    and sooner: "\<And>s. sooner found' s \<Longrightarrow> sooner found s \<and> (\<forall>u\<in>set ths. start_of u \<le> s \<longrightarrow> u \<in> set pre)"
    and bound: "\<And>sp. found' = Some sp \<Longrightarrow> \<forall>u\<in>set pre. start_of u \<le> the (sp ! 0)"
  shows "list_ok re text from (at + len) g' ms' nxt found' (at + len)"
  unfolding list_ok_def
proof (intro conjI allI impI)
  note len = char_positive[OF c]
  show "\<forall>u\<in>set nxt. re_position text from (start_of u) \<and> start_of u < at + len \<and>
      (case found' of None \<Rightarrow> True | Some sp \<Rightarrow> start_of u \<le> the (sp ! 0))"
  proof
    fix v assume "v \<in> set nxt"
    then obtain u where u: "u \<in> set pre" "start_of v = start_of u" using led by (auto simp: led_to_def)
    then have "re_position text from (start_of u) \<and> start_of u < Suc at" using l pre by (auto simp: list_ok_def)
    then show "re_position text from (start_of v) \<and> start_of v < at + len \<and>
        (case found' of None \<Rightarrow> True | Some sp \<Rightarrow> start_of v \<le> the (sp ! 0))"
      using u len bound by (auto split: option.split)
  qed
  fix s pc
  assume s: "re_position text from s \<and> s < at + len \<and> sooner found' s \<and> reaches re text s (at + len) pc \<and>
    stops (code re ! pc)"
  have sat: "s \<le> at" using positions_apart[OF _ p _ c, of s] s by (meson not_less not_le)
  define good where "good ps \<longleftrightarrow> silent_closed re text (at + len) ps \<and>
    (\<forall>pc\<in>ps. stops (code re ! pc) \<longrightarrow> (\<exists>v\<in>set nxt. fst v = pc \<and> start_of v \<le> s))" for ps
  have "pc \<in> \<Union>{ps. good ps}"
  proof -
    have "silent_closed re text (at + len) (\<Union>{ps. good ps})" by (auto simp: good_def silent_closed_def)
    moreover have "q \<in> \<Union>{ps. good ps}" if q: "enters re text s (at + len) q" for q
    proof -
      obtain a p' c' len' where e: "reaches re text s a p'" "p' < length (code re)" "re_char_at text a = (Some c', len')"
        "at + len = a + len'" "re_takes re (Some c') (code re ! p')" "q = Suc p'"
        using q sat len by (auto simp: enters_def)
      then have "re_position text from a" using thread_position s unfolding reaches_def by blast
      then have "a = at"
        using positions_apart[of "text" "from" a at ch len] positions_apart[of "text" "from" at a c' len'] p c e(3,4)
          len char_positive[OF e(3)]
        by (cases a at rule: linorder_cases) auto
      then have c': "c' = ch" using c e(3) by simp
      have "\<exists>u\<in>set ths. fst u = p' \<and> start_of u \<le> s"
        using l s sat e(1,5) \<open>a = at\<close> sooner takes_not_match unfolding list_ok_def by (meson le_imp_less_Suc)
      then obtain u where u: "u \<in> set pre" "fst u = p'" "start_of u \<le> s" using sooner s by blast
      then obtain ps where ps: "silent_closed re text (at + len) ps" "Suc p' \<in> ps"
        "\<forall>pc\<in>ps. stops (code re ! pc) \<longrightarrow> (\<exists>v\<in>set nxt. fst v = pc \<and> start_of v \<le> start_of u)"
        using led e(5) c' unfolding led_to_def by blast
      then have "good ps" using u(3) unfolding good_def by (meson le_trans)
      then show ?thesis using ps(2) e(6) by blast
    qed
    moreover obtain saves where "thread_at re text s (at + len) (pc, saves)" using s by (auto simp: reaches_def)
    ultimately show ?thesis using reaches_closed[OF _ _ _ refl] by fastforce
  qed
  then show "\<exists>u\<in>set nxt. fst u = pc \<and> start_of u \<le> s" using s by (auto simp: good_def)
qed (rule full)

text \<open>Starts that reach nothing here reach nothing later.\<close>

lemma dead_start:
  assumes re: "program_ok re" and s: "re_position text from s" "s \<le> at" and p: "re_position text from at"
    and dead: "\<And>pc. reaches re text s at pc \<Longrightarrow> \<not> stops (code re ! pc)"
  shows "thread_at re text s e u \<Longrightarrow> e \<le> at"
proof (induction rule: thread_at.induct)
  case (take a pc saves c len)
  show ?case
  proof (cases "a = at")
    case True
    then have "reaches re text s at pc" using take(1) by (auto simp: reaches_def)
    then show ?thesis using dead takes_not_match[OF take(4)] by blast
  next
    case False
    then have "a < at" using take(5) by simp
    then show ?thesis using positions_apart[OF p thread_position[OF take(1) s(1)]] take(3) by blast
  qed
qed (use s in auto)

lemma match_reaches:
  assumes "program_ok re" "re_match re text s e sp"
  shows "s \<le> e \<and> (\<exists>pc. reaches re text s e pc \<and> pc < length (code re) \<and> code re ! pc = OP_MATCH)"
  using assms(2) thread_ok[OF assms(1)] unfolding re_match_def reaches_def by blast

lemma match_position: "re_match re text s e sp \<Longrightarrow> re_position text from s \<Longrightarrow> re_position text from e"
  using thread_position unfolding re_match_def by blast

lemma found_onward:
  assumes "found_ok re text from found (Suc at)" "re_position text from at" "re_char_at text at = (Some c, len)"
  shows "found_ok re text from found (at + len)"
proof -
  have "\<not> re_match re text s e sp" if "re_position text from s" "sooner found s" "e < at + len" for s e sp
  proof
    assume m: "re_match re text s e sp"
    from match_position[OF this that(1)] have "e < Suc at"
      using positions_apart[OF _ assms(2) _ assms(3), of e] that(3) by (meson not_less not_less_eq)
    then show False using assms(1) that(1,2) m unfolding found_ok_def by blast
  qed
  then show ?thesis using assms(1) char_positive[OF assms(3)] unfolding found_ok_def by fastforce
qed

text \<open>What the turn at \<open>at\<close> makes of the found spans.\<close>

lemma found_turn:
  assumes re: "program_ok re" and p: "re_position text from at"
    and l: "list_ok re text from at g ms (pre @ post) found (Suc at)" and f: "found_ok re text from found at"
    and none: "\<forall>u\<in>set pre. code re ! fst u \<noteq> OP_MATCH"
    and spans: "case spans of None \<Rightarrow> post = []
      | Some sp \<Rightarrow> post \<noteq> [] \<and> code re ! fst (hd post) = OP_MATCH \<and> sp = (snd (hd post))[1 := Some at]"
  defines "found' \<equiv> if spans = None then found else spans"
  shows "found_ok re text from found' (Suc at)"
    "\<And>s. sooner found' s \<Longrightarrow> sooner found s \<and> (\<forall>u\<in>set (pre @ post). start_of u \<le> s \<longrightarrow> u \<in> set pre)"
    "\<And>sp. found' = Some sp \<Longrightarrow> \<forall>u\<in>set pre. start_of u \<le> the (sp ! 0)"
proof -
  have sorted: "sorted (map start_of (pre @ post))" using l unfolding list_ok_def list_full_def by blast
  have here: "\<exists>sp m rest. spans = Some sp \<and> post = m # rest \<and> sp ! 0 = Some (start_of m) \<and>
      re_match re text (start_of m) at sp \<and> re_position text from (start_of m) \<and> (sooner found (start_of m) \<or>
        (\<exists>k. found = Some k \<and> start_of m \<le> the (k ! 0))) \<and> code re ! fst m = OP_MATCH" if sp: "spans \<noteq> None"
  proof -
    obtain sp m rest where *: "spans = Some sp" "post = m # rest" "code re ! fst m = OP_MATCH" "sp = (snd m)[1 := Some at]"
      using spans sp by (cases post) auto
    have m: "thread_at re text (start_of m) at m" "re_position text from (start_of m)"
      "case found of None \<Rightarrow> True | Some sp \<Rightarrow> start_of m \<le> the (sp ! 0)"
      using l *(2) unfolding list_ok_def list_full_def by auto
    note mk = thread_ok[OF re m(1)]
    have "re_match re text (start_of m) at sp"
      using m(1) mk *(3,4) unfolding re_match_def by (metis prod.collapse)
    moreover have "sp ! 0 = Some (start_of m)" using mk *(4) program_slots[OF re] by auto
    ultimately show ?thesis using * m(2,3) by (auto simp: sooner_def split: option.splits)
  qed
  show so: "sooner found s \<and> (\<forall>u\<in>set (pre @ post). start_of u \<le> s \<longrightarrow> u \<in> set pre)" if "sooner found' s" for s
  proof (cases "spans = None")
    case True
    then show ?thesis using that spans by (simp add: found'_def)
  next
    case False
    from here[OF this] obtain sp m rest where *: "spans = Some sp" "post = m # rest" "sp ! 0 = Some (start_of m)"
      "sooner found (start_of m) \<or> (\<exists>k. found = Some k \<and> start_of m \<le> the (k ! 0))" by blast
    then have s: "s < start_of m" using that by (simp add: found'_def sooner_def)
    then have "sooner found s" using *(4) by (auto simp: sooner_def split: option.splits)
    moreover have "start_of u \<ge> start_of m" if "u \<in> set post" for u
      using sorted that *(2) by (auto simp: sorted_append)
    ultimately show ?thesis using s by fastforce
  qed
  show "\<forall>u\<in>set pre. start_of u \<le> the (sp ! 0)" if "found' = Some sp" for sp
  proof (cases "spans = None")
    case True
    then show ?thesis using that l by (auto simp: found'_def list_ok_def)
  next
    case False
    from here[OF this] show ?thesis using that sorted by (auto simp: found'_def sorted_append)
  qed
  show "found_ok re text from found' (Suc at)"
    unfolding found_ok_def
  proof (intro conjI allI impI)
    fix sp assume "found' = Some sp"
    then show "\<exists>s e. re_position text from s \<and> e < Suc at \<and> re_match re text s e sp \<and> sp ! 0 = Some s"
      using here f unfolding found'_def found_ok_def by (cases "spans = None") (auto intro: less_SucI)
  next
    fix s e sp
    assume s: "re_position text from s \<and> sooner found' s \<and> e < Suc at"
    show "\<not> re_match re text s e sp"
    proof (cases "e = at")
      case False
      then show ?thesis using f s so unfolding found_ok_def by auto
    next
      case True
      show ?thesis
      proof
        assume "re_match re text s e sp"
        with match_reaches[OF re this] True obtain pc where pc: "s \<le> at" "reaches re text s at pc" "code re ! pc = OP_MATCH"
          by auto
        then have "\<exists>u\<in>set (pre @ post). fst u = pc \<and> start_of u \<le> s"
          using l s so unfolding list_ok_def by (simp add: less_Suc_eq_le)
        then show False using so s none pc(3) by blast
      qed
    qed
  qed
qed

definition result_ok :: "ussr_regex \<Rightarrow> byte list \<Rightarrow> nat \<Rightarrow> re_saves option \<Rightarrow> bool" where
  "result_ok re text from found \<longleftrightarrow>
     (\<forall>sp. found = Some sp \<longrightarrow> (\<exists>s e. re_position text from s \<and> re_match re text s e sp \<and> sp ! 0 = Some s)) \<and>
     (\<forall>s e sp. re_position text from s \<and> sooner found s \<longrightarrow> \<not> re_match re text s e sp)"

lemma found_result:
  assumes f: "found_ok re text from found lim"
    and late: "\<And>s e sp. re_position text from s \<Longrightarrow> sooner found s \<Longrightarrow> lim \<le> e \<Longrightarrow> \<not> re_match re text s e sp"
  shows "result_ok re text from found"
  unfolding result_ok_def
proof (intro conjI allI impI)
  show "\<exists>s e. re_position text from s \<and> re_match re text s e sp \<and> sp ! 0 = Some s" if "found = Some sp" for sp
    using f that unfolding found_ok_def by blast
  show "\<not> re_match re text s e sp" if "re_position text from s \<and> sooner found s" for s e sp
    using f late[of s e sp] that unfolding found_ok_def by (cases "e < lim") auto
qed

lemma marks_fresh:
  fixes g :: "32 word"
  assumes "\<forall>m\<in>set ms. m \<le> g" "unat g + 1 < 2 ^ 32"
  shows "marked (g + 1) ms = {}" "unat (g + 1) = unat g + 1" "\<forall>m\<in>set ms. m \<le> g + 1"
proof -
  show u: "unat (g + 1) = unat g + 1" using assms(2) by (simp add: unat_word_ariths)
  have l: "m < g + 1" if "m \<in> set ms" for m using that assms(1) u
    by (auto simp: word_less_nat_alt word_le_nat_alt less_Suc_eq_le)
  have "ms ! i \<noteq> g + 1" if "i < length ms" for i using l[OF nth_mem[OF that]] by auto
  then show "marked (g + 1) ms = {}" by (auto simp: marked_def)
  show "\<forall>m\<in>set ms. m \<le> g + 1" using l by (auto intro: less_imp_le)
qed

lemma list_stopped:
  assumes re: "program_ok re" and p: "re_position text from at" and f: "found_ok re text from found lim"
    and l: "list_ok re text from at g ms [] found (Suc at)" and s: "re_position text from s" "sooner found s" "s \<le> at"
  shows "at \<le> e \<Longrightarrow> \<not> re_match re text s e sp"
proof
  assume e: "at \<le> e" and m: "re_match re text s e sp"
  have dead: "\<not> stops (code re ! pc)" if "reaches re text s at pc" for pc
    using l s that unfolding list_ok_def by auto
  obtain pc where pc: "reaches re text s e pc" "code re ! pc = OP_MATCH" using match_reaches[OF re m] by blast
  then obtain saves where "thread_at re text s e (pc, saves)" by (auto simp: reaches_def)
  from dead_start[OF re s(1,3) p dead this] e have "e = at" by simp
  then have "\<not> stops (code re ! pc)" using dead pc(1) by blast
  then show False using pc(2) by simp
qed

lemma found_before:
  "program_ok re \<Longrightarrow> found_ok re text from found at \<Longrightarrow> found \<noteq> None \<Longrightarrow> sooner found s \<Longrightarrow> s < at"
  using match_reaches unfolding found_ok_def sooner_def by fastforce

theorem search_loop_ok:
  "program_ok re \<Longrightarrow> from \<le> length text \<Longrightarrow> re_position text from at \<Longrightarrow> list_ok re text from at g ms ths found at \<Longrightarrow>
    found_ok re text from found at \<Longrightarrow> \<forall>m\<in>set ms. m \<le> g \<Longrightarrow> unat g + (length text - at) + 1 < 2 ^ 32 \<Longrightarrow>
    \<exists>found' ms' g'. re_search_loop re text g ms ths found at = Some (found', ms', g') \<and>
      result_ok re text from found' \<and> (\<forall>m\<in>set ms'. m \<le> g') \<and> unat g' \<le> unat g + (length text - at) + 1"
proof (induction re "text" g ms ths found at rule: re_search_loop.induct)
  case (1 re tx g ms ths found at)
  note re = "1.prems"(1) and p = "1.prems"(3) and f = "1.prems"(5)
  have at: "at \<le> length tx" using position_bounds[OF p "1.prems"(2)] by simp
  have "\<exists>ms1 ths1. search_start re tx g ms ths found at = Some (ms1, ths1) \<and>
    list_ok re tx from at g ms1 ths1 found (Suc at) \<and> (\<forall>m\<in>set ms1. m \<le> g)"
  proof (cases "found = None")
    case True
    from list_start[OF re "1.prems"(4)[unfolded True] p] obtain ms1 ths1 where
      "search_start re tx g ms ths None at = Some (ms1, ths1)" "list_ok re tx from at g ms1 ths1 None (Suc at)"
      "set ms1 \<subseteq> insert g (set ms)" .
    then show ?thesis using True "1.prems"(6) by auto
  next
    case False
    have "list_ok re tx from at g ms ths found (Suc at)"
      using "1.prems"(4) found_before[OF re f False] unfolding list_ok_def by (auto intro: less_SucI)
    then show ?thesis using False "1.prems"(6) by (auto simp: search_start_def)
  qed
  then obtain ms1 ths1 where a: "search_start re tx g ms ths found at = Some (ms1, ths1)"
    "list_ok re tx from at g ms1 ths1 found (Suc at)" "\<forall>m\<in>set ms1. m \<le> g" by blast
  show ?case
  proof (cases "ths1 = [] \<and> (found \<noteq> None \<or> at \<ge> length tx)")
    case True
    have "s \<le> at" if "re_position tx from s" "sooner found s" for s
      using True at found_before[OF re f _ that(2)] position_bounds[OF that(1) "1.prems"(2)] by fastforce
    then have "result_ok re tx from found"
      using found_result[OF f] list_stopped[OF re p f a(2)[unfolded conjunct1[OF True]]] by blast
    then show ?thesis using search_loop_cases(1)[OF a(1) True] a(3) by simp
  next
    case False
    obtain c len where c: "re_char_at tx at = (c, len)" by fastforce
    have "unat g + 1 < 2 ^ 32" using "1.prems"(7) by simp
    note fresh = marks_fresh[OF a(3) this]
    have full: "list_full re tx at g ms1 ths1" using a(2) by (simp add: list_ok_def)
    have "list_full re tx (at + len) (g + 1) ms1 []"
      using full fresh(1) by (intro list_full_empty) (auto simp: list_full_def threads_ok_def)
    moreover have "led_to re tx c (at + len) [] []" by (simp add: led_to_def)
    moreover have "sorted (map start_of ([] @ ths1))" "\<forall>u\<in>set ths1. thread_at re tx (start_of u) at u"
      using full by (auto simp: list_full_def)
    ultimately obtain spans ms2 nxt pre post where r:
      "re_run_threads re (g + 1) tx at c len ths1 (ms1, []) = Some (spans, ms2, nxt)"
      "list_full re tx (at + len) (g + 1) ms2 nxt" "led_to re tx c (at + len) ([] @ pre) nxt"
      "set ms2 \<subseteq> insert (g + 1) (set ms1)" "ths1 = pre @ post" "\<forall>u\<in>set pre. code re ! fst u \<noteq> OP_MATCH"
      "case spans of None \<Rightarrow> post = []
       | Some sp \<Rightarrow> post \<noteq> [] \<and> code re ! fst (hd post) = OP_MATCH \<and> sp = (snd (hd post))[1 := Some at]"
      using run_full[OF re c, of "g + 1" ms1 "[]" "[]" ths1] by blast
    let ?found = "if spans = None then found else spans"
    note turn = found_turn[OF re p a(2)[unfolded r(5)] f r(6,7)]
    note loop = search_loop_cases(2)[OF a(1) False c r(1)]
    have m2: "\<forall>m\<in>set ms2. m \<le> g + 1" using r(4) fresh(3) by auto
    show ?thesis
    proof (cases c)
      case None
      then have "at = length tx" using c at
        by (cases "re_decode (drop at tx)") (auto simp: re_char_at_def split: if_splits)
      have "result_ok re tx from ?found"
      proof (rule found_result[OF turn(1)])
        fix s e sp assume "re_position tx from s" "Suc at \<le> e"
        then show "\<not> re_match re tx s e sp"
          using match_position position_bounds[OF _ "1.prems"(2)] \<open>at = length tx\<close> by fastforce
      qed
      then show ?thesis using loop None m2 fresh(2) by simp
    next
      case (Some ch)
      note c' = c[unfolded Some]
      have p': "re_position tx from (at + len)" using re_position.onward[OF p c'] .
      have l': "list_ok re tx from (at + len) (g + 1) ms2 nxt ?found (at + len)"
      proof (rule list_onward[OF re p c' a(2) r(2)])
        show "led_to re tx (Some ch) (at + len) pre nxt" using r(3) Some by simp
        show "set pre \<subseteq> set ths1" by (simp add: r(5))
        show "sooner ?found s \<Longrightarrow> sooner found s \<and> (\<forall>u\<in>set ths1. start_of u \<le> s \<longrightarrow> u \<in> set pre)" for s
          using turn(2) unfolding r(5) .
        show "?found = Some sp \<Longrightarrow> \<forall>u\<in>set pre. start_of u \<le> the (sp ! 0)" for sp using turn(3) .
      qed
      have f': "found_ok re tx from ?found (at + len)" by (rule found_onward[OF turn(1) p c'])
      have len: "0 < len" "at < length tx" using re_char_at_Some[OF c'] by auto
      have b: "unat (g + 1) + (length tx - (at + len)) + 1 < 2 ^ 32"
        using "1.prems"(7) fresh(2) len by linarith
      have "\<exists>found' ms' g'. re_search_loop re tx (g + 1) ms2 nxt ?found (at + len) = Some (found', ms', g') \<and>
          result_ok re tx from found' \<and> (\<forall>m\<in>set ms'. m \<le> g') \<and>
          unat g' \<le> unat (g + 1) + (length tx - (at + len)) + 1"
        by (rule "1.IH"[OF a(1)[unfolded search_start_def] refl False c[symmetric] refl r(1) refl refl refl _ re
            "1.prems"(2) p' l' f' m2 b]) (simp add: Some)
      moreover have "unat (g + 1) + (length tx - (at + len)) + 1 \<le> unat g + (length tx - at) + 1"
        using fresh(2) len by linarith
      ultimately show ?thesis using loop Some by (auto intro: le_trans)
    qed
  qed
qed

end
