(* ===== verification/RegexLanguage.thy ===== *)
theory RegexLanguage
  imports RegexSearch
begin

text \<open>
  What the code that \<open>src/regex.c\<close> makes for repeats and alternatives means: the relation between
  the positions (and slots) where a fragment is entered and where it is left. Repeats are powers
  of the atom's relation, alternatives unions, pieces one after the other composition.
\<close>

section \<open>The relation of a fragment\<close>

text \<open>The moves of one instruction: the new position, the jump, and the new slots.\<close>

definition moves :: "ussr_regex \<Rightarrow> byte list \<Rightarrow> re_inst \<Rightarrow> nat \<times> re_saves \<Rightarrow> (nat \<times> int \<times> re_saves) set" where
  "moves re text i = (\<lambda>(at, saves).
     (case i of
        OP_JMP x \<Rightarrow> {(at, x, saves)}
      | OP_SPLIT x y \<Rightarrow> {(at, x, saves), (at, y, saves)}
      | OP_SAVE slot \<Rightarrow> {(at, 1, saves[slot := Some at])}
      | _ \<Rightarrow> (if re_assertion text at i = Some True then {(at, 1, saves)} else {}) \<union>
          {(at + len, 1, saves) | c len. re_char_at text at = (Some c, len) \<and> re_takes re (Some c) i}))"

definition run_step :: "ussr_regex \<Rightarrow> byte list \<Rightarrow> re_inst list \<Rightarrow> (nat \<times> nat \<times> re_saves) rel" where
  "run_step re text F = {((at, pc, saves), (at', q, saves')) | at pc saves at' q saves'. pc < length F \<and>
     (at', int q - int pc, saves') \<in> moves re text (F ! pc) (at, saves)}"

definition lang :: "ussr_regex \<Rightarrow> byte list \<Rightarrow> re_inst list \<Rightarrow> (nat \<times> re_saves) rel" where
  "lang re text F = {((at, saves), (at', saves')) | at saves at' saves'.
     ((at, 0, saves), (at', length F, saves')) \<in> (run_step re text F)\<^sup>*}"

lemma moves_jumps:
  "(at', d, saves') \<in> moves re text i t \<Longrightarrow> d \<in> set (jumps i) \<or> d = 1"
  by (cases i) (auto simp: moves_def split: prod.splits if_splits)

lemma step_closed:
  "within lo hi F \<Longrightarrow> lo \<le> 0 \<Longrightarrow> int (length F) \<le> hi \<Longrightarrow> ((at, pc, saves), (at', q, saves')) \<in> run_step re text F \<Longrightarrow>
   lo \<le> int q \<and> int q \<le> hi"
  using within_nth[of lo hi F pc "int q - int pc"] moves_jumps
  by (fastforce simp: run_step_def)

section \<open>A fragment inside a program\<close>

lemma step_embed:
  "((at, pc, saves), (at', q, saves')) \<in> run_step re text F \<Longrightarrow>
   ((at, length A + pc, saves), (at', length A + q, saves')) \<in> run_step re text (A @ F @ B)"
  by (auto simp: run_step_def nth_append)

lemma steps_embed:
  assumes "((at, pc, saves), (at', q, saves')) \<in> (run_step re text F)\<^sup>*"
  shows "((at, length A + pc, saves), (at', length A + q, saves')) \<in> (run_step re text (A @ F @ B))\<^sup>*"
  using assms
proof (induction "(at', q, saves')" arbitrary: at' q saves' rule: rtrancl_induct)
  case (step y)
  obtain b r sv where y: "y = (b, r, sv)" by (metis prod_cases3)
  show ?case by (rule rtrancl_into_rtrancl[OF step(3)[OF y] step_embed[OF step(2)[unfolded y]]])
qed simp

text \<open>Steps from inside a closed fragment stay inside it until they leave it at its end.\<close>

lemma steps_leave:
  assumes "closed F"
  shows "((at, length A + i, saves), y) \<in> run_step re text (A @ F @ B) ^^ n \<Longrightarrow> i \<le> length F \<Longrightarrow>
    \<not> (length A \<le> fst (snd y) \<and> fst (snd y) < length A + length F) \<Longrightarrow>
    \<exists>k at' saves'. k \<le> n \<and> ((at, i, saves), (at', length F, saves')) \<in> (run_step re text F)\<^sup>* \<and>
      ((at', length A + length F, saves'), y) \<in> run_step re text (A @ F @ B) ^^ k"
proof (induction n arbitrary: at i saves)
  case 0
  then have "i = length F" by auto
  with 0 show ?case by (intro exI[of _ 0] exI[of _ at] exI[of _ saves]) simp
next
  case (Suc n)
  show ?case
  proof (cases "i = length F")
    case True
    then show ?thesis using Suc.prems(1) by blast
  next
    case False
    then have i: "i < length F" using Suc.prems(2) by simp
    from Suc.prems(1) obtain z where z: "((at, length A + i, saves), z) \<in> run_step re text (A @ F @ B)"
      "(z, y) \<in> run_step re text (A @ F @ B) ^^ n" by (meson relpow_Suc_D2)
    obtain b r sv where r: "z = (b, r, sv)" by (metis prod_cases3)
    have m: "(b, int r - int (length A + i), sv) \<in> moves re text (F ! i) (at, saves)"
      using z(1) i by (auto simp: run_step_def r nth_append)
    have "0 \<le> int r - int (length A) \<and> int r - int (length A) \<le> int (length F)"
      using moves_jumps[OF m]
    proof
      assume "int r - int (length A + i) \<in> set (jumps (F ! i))"
      from within_nth[OF assms i this] show ?thesis by simp
    qed (use i in simp)
    then obtain j where j: "r = length A + j" "j \<le> length F"
      using that[of "r - length A"] by linarith
    have "((at, i, saves), (b, j, sv)) \<in> run_step re text F"
      using m i j by (auto simp: run_step_def)
    moreover from Suc.IH[OF z(2)[unfolded r j(1)] j(2) Suc.prems(3)] obtain k at' saves' where
      "k \<le> n" "((b, j, sv), (at', length F, saves')) \<in> (run_step re text F)\<^sup>*"
      "((at', length A + length F, saves'), y) \<in> run_step re text (A @ F @ B) ^^ k" by blast
    ultimately show ?thesis by (meson converse_rtrancl_into_rtrancl le_SucI)
  qed
qed

section \<open>One after the other\<close>

lemma lang_iff:
  "((at, saves), (at', saves')) \<in> lang re text F \<longleftrightarrow> ((at, 0, saves), (at', length F, saves')) \<in> (run_step re text F)\<^sup>*"
  by (auto simp: lang_def)

lemma lang_Nil: "lang re text [] = Id"
proof -
  have "run_step re text [] = {}" by (auto simp: run_step_def)
  then show ?thesis by (auto simp: lang_def)
qed

text \<open>A run of a program that starts with a closed fragment goes through its end.\<close>

lemma leave_first:
  assumes "closed F" "((at, length A, saves), (at', pc, saves')) \<in> (run_step re text (A @ F @ B))\<^sup>*"
    "\<not> (length A \<le> pc \<and> pc < length A + length F)"
  shows "\<exists>b sv. ((at, saves), (b, sv)) \<in> lang re text F \<and>
    ((b, length A + length F, sv), (at', pc, saves')) \<in> (run_step re text (A @ F @ B))\<^sup>*"
proof -
  obtain n where "((at, length A + 0, saves), (at', pc, saves')) \<in> run_step re text (A @ F @ B) ^^ n"
    using assms(2) rtrancl_imp_relpow by fastforce
  from steps_leave[OF assms(1) this] assms(3) show ?thesis
    by (auto simp: lang_iff intro: relpow_imp_rtrancl)
qed

lemma lang_embed:
  assumes "((at, saves), (at', saves')) \<in> lang re text F"
  shows "((at, length A, saves), (at', length A + length F, saves')) \<in> (run_step re text (A @ F @ B))\<^sup>*"
  using steps_embed[of at 0 saves at' "length F" saves' re "text" F A B] assms by (simp add: lang_iff)

lemma lang_append:
  assumes "closed F" "closed G"
  shows "lang re text (F @ G) = lang re text F O lang re text G"
proof (intro set_eqI iffI)
  fix p assume p: "p \<in> lang re text (F @ G)"
  obtain at saves at' saves' where e: "p = ((at, saves), (at', saves'))" by (metis surj_pair)
  have "((at, length [], saves), (at', length F + length G, saves')) \<in> (run_step re text ([] @ F @ G))\<^sup>*"
    using p by (simp add: e lang_iff)
  from leave_first[OF assms(1) this] obtain b sv where 1: "((at, saves), (b, sv)) \<in> lang re text F"
    "((b, length F, sv), (at', length F + length G, saves')) \<in> (run_step re text (F @ G @ []))\<^sup>*" by auto
  from leave_first[OF assms(2) 1(2)] obtain c su where 2: "((b, sv), (c, su)) \<in> lang re text G"
    "((c, length F + length G, su), (at', length F + length G, saves')) \<in> (run_step re text (F @ G @ []))\<^sup>*" by auto
  from 2(2) have "(c, su) = (at', saves')"
    by (rule converse_rtranclE) (auto simp: run_step_def)
  then show "p \<in> lang re text F O lang re text G" using 1(1) 2(1) e by auto
next
  fix p assume "p \<in> lang re text F O lang re text G"
  then obtain at saves b sv at' saves' where e: "p = ((at, saves), (at', saves'))"
    "((at, saves), (b, sv)) \<in> lang re text F" "((b, sv), (at', saves')) \<in> lang re text G" by (metis relcompE surj_pair)
  have "((at, 0, saves), (b, length F, sv)) \<in> (run_step re text (F @ G))\<^sup>*"
    using lang_embed[OF e(2), of "[]" G] by simp
  moreover have "((b, length F, sv), (at', length F + length G, saves')) \<in> (run_step re text (F @ G))\<^sup>*"
    using lang_embed[OF e(3), of F "[]"] by simp
  ultimately show "p \<in> lang re text (F @ G)" by (simp add: e(1) lang_iff)
qed

lemma lang_copies: "closed F \<Longrightarrow> lang re text (concat (replicate n F)) = lang re text F ^^ n"
proof (induction n)
  case (Suc n)
  then show ?case using lang_append[OF Suc.prems closed_replicate[OF Suc.prems]]
    by (simp add: relpow_commute)
qed (simp add: lang_Nil)

section \<open>Alternatives\<close>

lemma run_first:
  "((at, pc, saves), y) \<in> (run_step re text F)\<^sup>* \<Longrightarrow> pc < length F \<Longrightarrow> y \<noteq> (at, pc, saves) \<Longrightarrow>
   \<exists>at' q saves'. (at', int q - int pc, saves') \<in> moves re text (F ! pc) (at, saves) \<and>
     ((at', q, saves'), y) \<in> (run_step re text F)\<^sup>*"
  by (erule converse_rtranclE) (auto simp: run_step_def)

lemma run_move:
  "(at', int q - int pc, saves') \<in> moves re text (F ! pc) (at, saves) \<Longrightarrow> pc < length F \<Longrightarrow>
   ((at', q, saves'), y) \<in> (run_step re text F)\<^sup>* \<Longrightarrow> ((at, pc, saves), y) \<in> (run_step re text F)\<^sup>*"
  by (rule converse_rtrancl_into_rtrancl) (auto simp: run_step_def)

lemma run_end: "((at, length F, saves), (at', q, saves')) \<in> (run_step re text F)\<^sup>* \<Longrightarrow> (at', q, saves') = (at, length F, saves)"
  by (erule converse_rtranclE) (auto simp: run_step_def)

lemma moves_jump: "moves re text (OP_JMP x) (at, saves) = {(at, x, saves)}"
  "moves re text (OP_SPLIT x y) (at, saves) = {(at, x, saves), (at, y, saves)}"
  "moves re text (re_split lazy x y) (at, saves) = {(at, x, saves), (at, y, saves)}"
  by (auto simp: moves_def re_split_def)

lemma lang_either:
  assumes F: "closed F" and G: "closed G"
  shows "lang re text (either_code F G) = lang re text F \<union> lang re text G"
proof (intro set_eqI iffI)
  let ?s = "OP_SPLIT 1 (int (length F) + 2)" and ?j = "OP_JMP (int (length G) + 1)"
  let ?X = "either_code F G"
  have X: "?X = [?s] @ F @ (?j # G)" "?X = (?s # F @ [?j]) @ G @ []" by (simp_all add: either_code_def)
  have len: "length ?X = length F + length G + 2" by (simp add: either_code_def)
  have at_j: "?X ! Suc (length F) = ?j" "Suc (length F) < length ?X"
    by (simp_all add: either_code_def nth_append)
  have jump: "((b, Suc (length F), sv), (b, length ?X, sv)) \<in> (run_step re text ?X)\<^sup>*" for b sv
    by (rule run_move[OF _ at_j(2) rtrancl.rtrancl_refl]) (simp add: at_j(1) moves_jump len)
  fix p :: "(nat \<times> re_saves) \<times> nat \<times> re_saves"
  obtain at saves at' saves' where e: "p = ((at, saves), (at', saves'))" by (metis surj_pair)
  show "p \<in> lang re text F \<union> lang re text G" if p: "p \<in> lang re text ?X"
  proof -
    have "((at, 0, saves), (at', length ?X, saves')) \<in> (run_step re text ?X)\<^sup>*" using p by (simp add: e lang_iff)
    from run_first[OF this] obtain q where q0: "int q = 1 \<or> int q = int (length F) + 2"
      and q2: "((at, q, saves), (at', length ?X, saves')) \<in> (run_step re text ?X)\<^sup>*"
      by (auto simp: either_code_def moves_jump)
    have "q = Suc 0 \<or> q = length F + 2" using q0 by linarith
    note q = this q2
    from q(1) show ?thesis
    proof
      assume "q = Suc 0"
      then have "((at, length [?s], saves), (at', length ?X, saves')) \<in> (run_step re text ([?s] @ F @ (?j # G)))\<^sup>*"
        using q(2) X(1) by simp
      from leave_first[OF F this] obtain b sv where b: "((at, saves), (b, sv)) \<in> lang re text F"
        "((b, Suc (length F), sv), (at', length ?X, saves')) \<in> (run_step re text ?X)\<^sup>*"
        using len X(1) by auto
      from run_first[OF b(2) at_j(2)] at_j obtain r where
        "int r - int (Suc (length F)) = int (length G) + 1" "((b, r, sv), (at', length ?X, saves')) \<in> (run_step re text ?X)\<^sup>*"
        using len by (auto simp: moves_jump)
      moreover from this(1) have "r = length ?X" using len by simp
      ultimately have "(b, sv) = (at', saves')" using run_end[of b ?X sv at' "length ?X" saves'] by auto
      then show ?thesis using b(1) e by simp
    next
      assume "q = length F + 2"
      then have "((at, length (?s # F @ [?j]), saves), (at', length ?X, saves')) \<in> (run_step re text ((?s # F @ [?j]) @ G @ []))\<^sup>*"
        using q(2) X(2) by simp
      from leave_first[OF G this] obtain b sv where b: "((at, saves), (b, sv)) \<in> lang re text G"
        "((b, length ?X, sv), (at', length ?X, saves')) \<in> (run_step re text ?X)\<^sup>*"
        using len X(2) by auto
      then show ?thesis using run_end[OF b(2)] e by simp
    qed
  qed
  show "p \<in> lang re text ?X" if p: "p \<in> lang re text F \<union> lang re text G"
  proof -
    have "((at, Suc 0, saves), (at', length ?X, saves')) \<in> (run_step re text ?X)\<^sup>*" if "p \<in> lang re text F"
      using lang_embed[of at saves at' saves' re "text" F "[?s]" "?j # G"] jump[of at' saves'] that e X(1) by auto
    moreover have "((at, length F + 2, saves), (at', length ?X, saves')) \<in> (run_step re text ?X)\<^sup>*" if "p \<in> lang re text G"
      using lang_embed[of at saves at' saves' re "text" G "?s # F @ [?j]" "[]"] that e X(2) len by auto
    ultimately have "\<exists>q\<in>{Suc 0, length F + 2}. ((at, q, saves), (at', length ?X, saves')) \<in> (run_step re text ?X)\<^sup>*"
      using p by auto
    then have "((at, 0, saves), (at', length ?X, saves')) \<in> (run_step re text ?X)\<^sup>*"
      by (auto simp: either_code_def moves_jump intro: run_move[of at "Suc 0"] run_move[of at "length F + 2"])
    then show ?thesis by (simp add: e lang_iff)
  qed
qed

section \<open>Repeats\<close>

text \<open>A fragment that may be skipped.\<close>

lemma lang_optional:
  assumes F: "closed F"
  shows "lang re text (optional_code lazy F k) = (\<Union>j\<in>{..k}. lang re text F ^^ j)"
proof (induction k)
  case 0
  then show ?case by (simp add: lang_Nil)
next
  case (Suc k)
  let ?O = "optional_code lazy F k"
  let ?s = "re_split lazy 1 (int (Suc k * (length F + 1)))"
  let ?X = "?s # F @ ?O"
  have X: "?X = [?s] @ (F @ ?O) @ []" by simp
  have len: "int (length ?X) = int (Suc k * (length F + 1))" by (simp add: length_optional algebra_simps)
  have O: "closed ?O" by (rule closed_optional[OF F])
  note FO = closed_append[OF F O]
  have "lang re text ?X = Id \<union> lang re text (F @ ?O)"
  proof (intro set_eqI iffI)
    fix p :: "(nat \<times> re_saves) \<times> nat \<times> re_saves"
    obtain at saves at' saves' where e: "p = ((at, saves), (at', saves'))" by (metis surj_pair)
    show "p \<in> Id \<union> lang re text (F @ ?O)" if "p \<in> lang re text ?X"
    proof -
      have "((at, 0, saves), (at', length ?X, saves')) \<in> (run_step re text ?X)\<^sup>*" using that by (simp add: e lang_iff)
      from run_first[OF this] obtain q where q: "int q = 1 \<or> int q = int (length ?X)"
        "((at, q, saves), (at', length ?X, saves')) \<in> (run_step re text ?X)\<^sup>*"
        unfolding len by (auto simp: moves_jump simp del: of_nat_mult mult_Suc of_nat_add)
      from q(1) show ?thesis
      proof
        assume "int q = 1"
        then have "((at, length [?s], saves), (at', length ?X, saves')) \<in> (run_step re text ([?s] @ (F @ ?O) @ []))\<^sup>*"
          using q(2) by simp
        from leave_first[OF FO this] obtain b sv where b: "((at, saves), (b, sv)) \<in> lang re text (F @ ?O)"
          "((b, length ?X, sv), (at', length ?X, saves')) \<in> (run_step re text ?X)\<^sup>*" by auto
        then show ?thesis using run_end[OF b(2)] e by simp
      next
        assume "int q = int (length ?X)"
        then have "q = length ?X" by linarith
        then show ?thesis using run_end[of at ?X saves at' "length ?X" saves'] q(2) e by auto
      qed
    qed
    show "p \<in> lang re text ?X" if "p \<in> Id \<union> lang re text (F @ ?O)"
    proof -
      have "\<exists>q. (int q = 1 \<or> int q = int (length ?X)) \<and> ((at, q, saves), (at', length ?X, saves')) \<in> (run_step re text ?X)\<^sup>*"
        using that
      proof
        assume "p \<in> lang re text (F @ ?O)"
        from lang_embed[OF this[unfolded e], of "[?s]" "[]"] show ?thesis by (intro exI[of _ 1]) simp
      qed (use e in \<open>auto intro!: exI[of _ "length ?X"]\<close>)
      then obtain q where q: "int q = 1 \<or> int q = int (length ?X)"
        "((at, q, saves), (at', length ?X, saves')) \<in> (run_step re text ?X)\<^sup>*" by blast
      have "(at, int q - int 0, saves) \<in> moves re text (?X ! 0) (at, saves)"
        using q(1) unfolding len by (auto simp: moves_jump simp del: of_nat_mult mult_Suc of_nat_add)
      from run_move[OF this _ q(2)] show ?thesis by (simp add: e lang_iff)
    qed
  qed
  also have "\<dots> = Id \<union> (\<Union>j\<in>{..k}. lang re text F O lang re text F ^^ j)"
    by (simp add: lang_append[OF F O] Suc.IH relcomp_UNION_distrib)
  also have "\<dots> = (\<Union>j\<in>{..Suc k}. lang re text F ^^ j)"
    by (simp add: atMost_Suc_eq_insert_0 relpow_commute image_image)
  finally show ?case by simp
qed

text \<open>The loop of \<open>a*\<close>.\<close>

lemma lang_star:
  assumes F: "closed F"
  shows "lang re text (repeat_code 0 None lazy F) = (lang re text F)\<^sup>*"
proof (intro set_eqI iffI)
  let ?s = "re_split lazy 1 (int (length F) + 2)" and ?j = "OP_JMP (- (int (length F) + 1))"
  let ?X = "repeat_code 0 None lazy F"
  have X: "?X = [?s] @ F @ [?j]" by (simp add: repeat_code_def)
  have len: "length ?X = length F + 2" by (simp add: X)
  have at_j: "?X ! Suc (length F) = ?j" "Suc (length F) < length ?X" by (simp_all add: X nth_append)
  have home: "((b, Suc (length F), sv), (b, 0, sv)) \<in> run_step re text ?X" for b sv
    using at_j by (simp add: run_step_def moves_jump)
  have loop: "((at, 0, saves), (at', length ?X, saves')) \<in> run_step re text ?X ^^ n \<Longrightarrow>
    ((at, saves), (at', saves')) \<in> (lang re text F)\<^sup>*" for n at saves at' saves'
  proof (induction n arbitrary: at saves rule: less_induct)
    case (less n)
    obtain m where m: "n = Suc m" using less.prems len by (cases n) auto
    then obtain z where z: "((at, 0, saves), z) \<in> run_step re text ?X" "(z, (at', length ?X, saves')) \<in> run_step re text ?X ^^ m"
      using less.prems by (meson relpow_Suc_D2)
    then obtain q where q: "z = (at, q, saves)" "int q = 1 \<or> int q = int (length F) + 2"
      by (auto simp: run_step_def X moves_jump)
    from q(2) show ?case
    proof
      assume "int q = 1"
      then have "((at, length [?s] + 0, saves), (at', length ?X, saves')) \<in> run_step re text ([?s] @ F @ [?j]) ^^ m"
        using z(2) q(1) X by simp
      from steps_leave[OF F this] len obtain k b sv where k: "k \<le> m" "((at, saves), (b, sv)) \<in> lang re text F"
        "((b, Suc (length F), sv), (at', length ?X, saves')) \<in> run_step re text ?X ^^ k"
        by (auto simp: lang_iff X)
      obtain l where l: "k = Suc l" using k(3) at_j by (cases k) auto
      then obtain y where y: "((b, Suc (length F), sv), y) \<in> run_step re text ?X" "(y, (at', length ?X, saves')) \<in> run_step re text ?X ^^ l"
        using k(3) by (meson relpow_Suc_D2)
      then have "y = (b, 0, sv)" using at_j by (auto simp: run_step_def moves_jump)
      then have "((b, sv), (at', saves')) \<in> (lang re text F)\<^sup>*" using less.IH[of l b sv] y(2) m k(1) l by simp
      with k(2) show ?case by (rule converse_rtrancl_into_rtrancl)
    next
      assume "int q = int (length F) + 2"
      then have "q = length ?X" using len by linarith
      then have "(at', saves') = (at, saves)"
        using run_end[of at ?X saves at' "length ?X" saves' re "text"] z(2) q(1) relpow_imp_rtrancl by fastforce
      then show ?case by simp
    qed
  qed
  have again: "((at, saves), (b, sv)) \<in> lang re text F \<Longrightarrow> ((at, 0, saves), (b, 0, sv)) \<in> (run_step re text ?X)\<^sup>*" for at saves b sv
  proof -
    assume "((at, saves), (b, sv)) \<in> lang re text F"
    from lang_embed[OF this, of "[?s]" "[?j]"] home[of b sv]
    have "((at, Suc 0, saves), (b, 0, sv)) \<in> (run_step re text ?X)\<^sup>*"
      unfolding X[symmetric] by (simp add: rtrancl_into_rtrancl)
    then show ?thesis by (rule run_move[rotated 2]) (simp_all add: X moves_jump)
  qed
  fix p :: "(nat \<times> re_saves) \<times> nat \<times> re_saves"
  obtain at saves at' saves' where e: "p = ((at, saves), (at', saves'))" by (metis surj_pair)
  show "p \<in> (lang re text F)\<^sup>*" if "p \<in> lang re text ?X"
    using that loop rtrancl_imp_relpow unfolding e lang_iff by metis
  show "p \<in> lang re text ?X" if "p \<in> (lang re text F)\<^sup>*"
  proof -
    have "((at, 0, saves), (at', 0, saves')) \<in> (run_step re text ?X)\<^sup>*"
      using that unfolding e
    proof (induction "(at', saves')" arbitrary: at' saves' rule: rtrancl_induct)
      case (step y)
      obtain b sv where y: "y = (b, sv)" by fastforce
      from step(3)[OF y] again[OF step(2)[unfolded y]] show ?case by (rule rtrancl_trans)
    qed simp
    moreover have "((at', 0, saves'), (at', length ?X, saves')) \<in> run_step re text ?X"
      by (simp add: run_step_def X moves_jump)
    ultimately show ?thesis unfolding e lang_iff by (rule rtrancl_into_rtrancl)
  qed
qed

text \<open>The loop of \<open>a+\<close>, which \<open>a{n,}\<close> puts after its copies.\<close>

lemma lang_plus:
  assumes F: "closed F"
  shows "lang re text (F @ [re_split lazy (- int (length F)) 1]) = (lang re text F)\<^sup>+"
proof (intro set_eqI iffI)
  let ?s = "re_split lazy (- int (length F)) 1"
  let ?X = "F @ [?s]"
  have X: "?X = [] @ F @ [?s]" by simp
  have at_s: "?X ! length F = ?s" "length F < length ?X" "length ?X = Suc (length F)" by simp_all
  have loop: "((at, 0, saves), (at', length ?X, saves')) \<in> run_step re text ?X ^^ n \<Longrightarrow>
    ((at, saves), (at', saves')) \<in> (lang re text F)\<^sup>+" for n at saves at' saves'
  proof (induction n arbitrary: at saves rule: less_induct)
    case (less n)
    have "((at, length ([] :: re_inst list) + 0, saves), (at', length ?X, saves')) \<in> run_step re text ([] @ F @ [?s]) ^^ n"
      using less.prems by simp
    from steps_leave[OF F this] obtain k b sv where k: "k \<le> n" "((at, saves), (b, sv)) \<in> lang re text F"
      "((b, length F, sv), (at', length ?X, saves')) \<in> run_step re text ?X ^^ k"
      by (auto simp: lang_iff)
    obtain l where l: "k = Suc l" using k(3) at_s by (cases k) auto
    then obtain y where y: "((b, length F, sv), y) \<in> run_step re text ?X" "(y, (at', length ?X, saves')) \<in> run_step re text ?X ^^ l"
      using k(3) by (meson relpow_Suc_D2)
    then obtain q where q: "y = (b, q, sv)" "int q - int (length F) = - int (length F) \<or> int q - int (length F) = 1"
      by (auto simp: run_step_def moves_jump)
    from q(2) show ?case
    proof
      assume "int q - int (length F) = - int (length F)"
      then have "q = 0" by simp
      then have "((b, sv), (at', saves')) \<in> (lang re text F)\<^sup>+" using less.IH[of l b sv] y(2) q(1) k(1) l by simp
      with k(2) show ?case by (rule trancl_into_trancl2)
    next
      assume "int q - int (length F) = 1"
      then have "q = length ?X" by simp
      then have "(at', saves') = (b, sv)"
        using run_end[of b ?X sv at' "length ?X" saves' re "text"] y(2) q(1) relpow_imp_rtrancl by fastforce
      then show ?case using k(2) by auto
    qed
  qed
  have go: "((at, saves), (b, sv)) \<in> lang re text F \<Longrightarrow> ((at, 0, saves), (b, length F, sv)) \<in> (run_step re text ?X)\<^sup>*"
    for at saves b sv using lang_embed[of at saves b sv re "text" F "[]" "[?s]"] by simp
  have home: "((b, length F, sv), (b, 0, sv)) \<in> run_step re text ?X" "((b, length F, sv), (b, length ?X, sv)) \<in> run_step re text ?X"
    for b sv by (simp_all add: run_step_def moves_jump)
  fix p :: "(nat \<times> re_saves) \<times> nat \<times> re_saves"
  obtain at saves at' saves' where e: "p = ((at, saves), (at', saves'))" by (metis surj_pair)
  show "p \<in> (lang re text F)\<^sup>+" if "p \<in> lang re text ?X"
    using that loop rtrancl_imp_relpow unfolding e lang_iff by metis
  show "p \<in> lang re text ?X" if "p \<in> (lang re text F)\<^sup>+"
  proof -
    have "((at, 0, saves), (at', length F, saves')) \<in> (run_step re text ?X)\<^sup>*"
      using that unfolding e
    proof (induction "(at', saves')" arbitrary: at' saves' rule: trancl_induct)
      case base
      then show ?case by (rule go)
    next
      case (step y)
      obtain b sv where y: "y = (b, sv)" by fastforce
      from rtrancl_into_rtrancl[OF step(3)[OF y] home(1)] go[OF step(2)[unfolded y]] show ?case by (rule rtrancl_trans)
    qed
    then show ?thesis using home(2) unfolding e lang_iff by (rule rtrancl_into_rtrancl)
  qed
qed

lemma UN_power_atLeast: "R ^^ n O R\<^sup>* = (\<Union>k\<in>{n..}. R ^^ k)"
proof -
  have "R ^^ n O R\<^sup>* = (\<Union>j. R ^^ (n + j))"
    by (simp add: rtrancl_is_UN_relpow relcomp_UNION_distrib relpow_add)
  also have "\<dots> = (\<Union>k\<in>range ((+) n). R ^^ k)" by simp
  also have "range ((+) n) = {n..}" by (auto simp: le_iff_add)
  finally show ?thesis .
qed

lemma UN_power_between: "n \<le> m \<Longrightarrow> R ^^ n O (\<Union>j\<in>{..m - n}. R ^^ j) = (\<Union>k\<in>{n..m}. R ^^ k)"
proof -
  assume "n \<le> m"
  have "R ^^ n O (\<Union>j\<in>{..m - n}. R ^^ j) = (\<Union>j\<in>{..m - n}. R ^^ (n + j))"
    by (simp add: relcomp_UNION_distrib relpow_add)
  also have "\<dots> = (\<Union>k\<in>(+) n ` {..m - n}. R ^^ k)" by simp
  also have "(+) n ` {..m - n} = {n..m}"
  proof -
    have "(+) n ` {0..m - n} = {n..m}" using \<open>n \<le> m\<close> by (simp add: image_add_atLeastAtMost)
    then show ?thesis by (simp add: atMost_atLeast0)
  qed
  finally show ?thesis .
qed

text \<open>A repeat runs the atom as often as its counts allow.\<close>

lemma lang_repeat:
  assumes F: "closed F" and m: "\<forall>k\<in>set_option m. n \<le> k"
  shows "lang re text (repeat_code n m lazy F) =
    (\<Union>k\<in>(case m of None \<Rightarrow> {n..} | Some m \<Rightarrow> {n..m}). lang re text F ^^ k)"
proof (cases m)
  case None
  show ?thesis
  proof (cases n)
    case 0
    then show ?thesis using None lang_star[OF F] by (simp add: rtrancl_is_UN_relpow)
  next
    case (Suc j)
    let ?Y = "F @ [re_split lazy (- int (length F)) 1]"
    have "closed ?Y" using within_mono[OF F, of 0 "int (length F) + 1"]
      by (auto simp: within_append jumps_split ac_simps)
    from lang_append[OF closed_replicate[OF F] this]
    have "lang re text (concat (replicate j F) @ ?Y) = lang re text F ^^ j O (lang re text F)\<^sup>+"
      by (simp add: lang_copies[OF F] lang_plus[OF F])
    moreover have "repeat_code n m lazy F = concat (replicate j F) @ ?Y"
    proof -
      have "replicate (Suc j) F = replicate j F @ [F]" by (simp add: replicate_append_same)
      then have "concat (replicate (Suc j) F) = concat (replicate j F) @ F" by (simp only: concat_append) simp
      then show ?thesis using None Suc by (simp add: repeat_code_def)
    qed
    moreover have "R ^^ j O R\<^sup>+ = (\<Union>k\<in>{Suc j..}. R ^^ k)" for R :: "(nat \<times> re_saves) rel"
      unfolding UN_power_atLeast[symmetric] trancl_unfold_left relpow.simps by (simp add: O_assoc)
    ultimately show ?thesis using None Suc by simp
  qed
next
  case (Some k)
  then show ?thesis
    using lang_append[OF closed_replicate[OF F] closed_optional[OF F]] m
    by (simp add: repeat_code_def lang_copies[OF F] lang_optional[OF F] UN_power_between)
qed

end
