(* ===== verification/RegexChars.thy ===== *)
theory RegexChars
  imports Regex
begin

text \<open>
  What \<open>re_decode\<close> of \<open>src/regex.c\<close> decodes: the reference is the encoding of UTF-8 by arithmetic.
\<close>

section \<open>UTF-8\<close>

text \<open>
  The code points of Unicode are those a text may contain, the scalar values, and the surrogates, which
  UTF-8 excludes. \<open>utf8\<close> writes any of them by the arithmetic of the scheme.
\<close>

definition scalar_value :: "nat \<Rightarrow> bool" where
  "scalar_value c \<longleftrightarrow> c \<le> 0x10ffff \<and> \<not> (0xd800 \<le> c \<and> c \<le> 0xdfff)"

definition surrogate :: "nat \<Rightarrow> bool" where
  "surrogate c \<longleftrightarrow> 0xd800 \<le> c \<and> c \<le> 0xdfff"

definition octet :: "nat \<Rightarrow> byte" where
  "octet n = of_nat n"

definition utf8 :: "nat \<Rightarrow> byte list" where
  "utf8 c =
     (if c < 0x80 then [octet c]
      else if c < 0x800 then [octet (0xc0 + c div 64), octet (0x80 + c mod 64)]
      else if c < 0x10000 then
        [octet (0xe0 + c div 4096), octet (0x80 + c div 64 mod 64), octet (0x80 + c mod 64)]
      else
        [octet (0xf0 + c div 262144), octet (0x80 + c div 4096 mod 64), octet (0x80 + c div 64 mod 64),
         octet (0x80 + c mod 64)])"

lemma code_points: "scalar_value c \<or> surrogate c \<longleftrightarrow> c \<le> RE_MAX_CHAR"
  by (auto simp: scalar_value_def surrogate_def RE_MAX_CHAR_def)

lemma unat_octet: "n < 256 \<Longrightarrow> unat (octet n) = n"
  by (simp add: octet_def unat_of_nat take_bit_eq_mod)

lemma octet_unat: "octet (unat b) = b"
  by (simp add: octet_def)

lemma and_low: "unat (b AND 0x3f) = unat (b :: byte) mod 64"
proof -
  have "b AND 0x3f = take_bit 6 b" by (simp add: take_bit_eq_mask mask_eq_exp_minus_1)
  then show ?thesis by (simp only: unsigned_take_bit_eq) (simp add: take_bit_eq_mod)
qed

lemma and_high: "b AND 0xc0 = (0x80 :: byte) \<longleftrightarrow> unat b div 64 = 2"
proof -
  have "\<forall>n\<in>set [0..<256]. ((of_nat n :: byte) AND 0xc0 = 0x80) = (n div 64 = 2)" by code_simp
  then have "\<forall>n<256. ((of_nat n :: byte) AND 0xc0 = 0x80) = (n div 64 = 2)" by auto
  moreover have "unat b < 256" using unsigned_less[of b] by simp
  ultimately have "((of_nat (unat b) :: byte) AND 0xc0 = 0x80) = (unat b div 64 = 2)" by blast
  then show ?thesis by simp
qed

lemma shift_or: "push_bit 6 v OR w mod 64 = v * 64 + w mod (64 :: nat)"
proof -
  have "w mod 64 = take_bit 6 w" by (simp add: take_bit_eq_mod)
  moreover have "push_bit 6 v AND take_bit 6 w = 0" by (simp add: bit_eq_iff bit_simps)
  ultimately show ?thesis by (simp add: disjunctive_add_eq_or[symmetric] push_bit_eq_mult)
qed

lemma and_nat: "c AND 0x1f = c mod (32 :: nat)" "c AND 0xf = c mod (16 :: nat)" "c AND 7 = c mod (8 :: nat)"
  using take_bit_eq_mask[of 5 c] take_bit_eq_mask[of 4 c] take_bit_eq_mask[of 3 c]
  by (simp_all add: take_bit_eq_mod mask_eq_exp_minus_1)

lemma re_tail_Cons:
  "re_tail v (b # bs) = (if unat b div 64 = 2 then re_tail (v * 64 + unat b mod 64) bs else None)"
  by (simp add: and_high and_low shift_or)

text \<open>Decoding a text by the arithmetic of its first bytes.\<close>

definition decodes :: "byte list \<Rightarrow> nat \<Rightarrow> bool" where
  "decodes p c \<longleftrightarrow>
     (case p of
        [] \<Rightarrow> False
      | b # bs \<Rightarrow> \<exists>need v. re_lead b = Some (need, v) \<and> need \<le> length bs \<and> re_tail v (take need bs) = Some c \<and>
          (need = 2 \<longrightarrow> 0x800 \<le> c) \<and> (need = 3 \<longrightarrow> 0x10000 \<le> c \<and> c \<le> RE_MAX_CHAR))"

lemma mod_from: "m dvd k \<Longrightarrow> k \<le> n \<Longrightarrow> n < k + m \<Longrightarrow> n mod m = n - (k :: nat)"
proof -
  assume a: "m dvd k" "k \<le> n" "n < k + m"
  then have "n mod m = (n - k) mod m" by (metis mod_0_imp_dvd le_mod_geq dvd_imp_mod_0 mod_diff_right_eq le_add_diff_inverse mod_add_left_eq add_0)
  with a show ?thesis by simp
qed

lemma lead_mod:
  "0xc0 \<le> c \<Longrightarrow> c \<le> 0xdf \<Longrightarrow> c mod 32 = c - (0xc0 :: nat)"
  "0xe0 \<le> c \<Longrightarrow> c \<le> 0xef \<Longrightarrow> c mod 16 = c - (0xe0 :: nat)"
  "0xf0 \<le> c \<Longrightarrow> c \<le> 0xf7 \<Longrightarrow> c mod 8 = c - (0xf0 :: nat)"
  by (simp_all add: mod_from)

lemma re_lead_eq:
  "re_lead b =
     (let c = unat b in
      if 0xc2 \<le> c \<and> c \<le> 0xdf then Some (1, c - 0xc0)
      else if 0xe0 \<le> c \<and> c \<le> 0xef then Some (2, c - 0xe0)
      else if 0xf0 \<le> c \<and> c \<le> 0xf4 then Some (3, c - 0xf0)
      else None)"
  unfolding re_lead_def Let_def and_nat
  using lead_mod[of "unat b"] by (simp split: if_splits)

declare re_tail.simps(2) [simp del]

lemma push_digit: "m < 64 \<Longrightarrow> (v * 64 + m) div 64 = (v :: nat)" "m < 64 \<Longrightarrow> (v * 64 + m) mod 64 = (m :: nat)"
  by auto

lemma follow_byte:
  "(0x80 + x mod 64) div 64 = (2 :: nat)" "(0x80 + x mod 64) mod 64 = x mod (64 :: nat)" "0x80 + x mod 64 < (256 :: nat)"
proof -
  have "x mod 64 < 64" by simp
  from push_digit[OF this, of 2] this
  show "(0x80 + x mod 64) div 64 = 2" "(0x80 + x mod 64) mod 64 = x mod 64" "0x80 + x mod 64 < (256 :: nat)" by simp_all
qed

lemma digits64: "c div 4096 * 64 + c div 64 mod 64 = c div (64 :: nat)"
  "c div 262144 * 64 + c div 4096 mod 64 = c div (4096 :: nat)"
proof -
  have "c div 4096 = c div 64 div 64" "c div 262144 = c div 4096 div 64" by (simp_all only: div_mult2_eq[symmetric]) simp_all
  then show "c div 4096 * 64 + c div 64 mod 64 = c div 64" "c div 262144 * 64 + c div 4096 mod 64 = c div 4096"
    by (simp_all only: div_mult_mod_eq)
qed

lemma digits_sum:
  "4096 * (c div 4096) + c div 64 mod 64 * 64 + c mod 64 = (c :: nat)"
  "262144 * (c div 262144) + c div 4096 mod 64 * 4096 + c div 64 mod 64 * 64 + c mod 64 = (c :: nat)"
  using digits64[of c] div_mult_mod_eq[of c 64] by linarith+

lemma decode_utf8:
  assumes "c \<le> RE_MAX_CHAR"
  shows "re_decode (utf8 c @ rest) = (c, length (utf8 c))"
proof -
  consider "c < 0x80" | "0x80 \<le> c" "c < 0x800" | "0x800 \<le> c" "c < 0x10000" | "0x10000 \<le> c" "c \<le> 0x10ffff"
    using assms unfolding RE_MAX_CHAR_def by linarith
  then show ?thesis
  proof cases
    case 1
    then show ?thesis by (simp add: utf8_def unat_octet)
  next
    case 2
    have q: "2 \<le> c div 64" "c div 64 \<le> 31" using 2 by auto
    show ?thesis using 2 q
      by (simp add: utf8_def unat_octet re_lead_eq re_tail_Cons Let_def follow_byte)
  next
    case 3
    have q: "c div 4096 \<le> 15" using 3 by auto
    show ?thesis using 3 q digits_sum(1)[of c]
      by (simp add: utf8_def unat_octet re_lead_eq re_tail_Cons Let_def follow_byte)
  next
    case 4
    have q: "c div 262144 \<le> 4" using 4 by auto
    show ?thesis using 4 q digits_sum(2)[of c]
      by (simp add: utf8_def unat_octet re_lead_eq re_tail_Cons Let_def follow_byte RE_MAX_CHAR_def)
  qed
qed

text \<open>What decodes to a code point starts with its encoding.\<close>

lemma follow: "unat x div 64 = 2 \<Longrightarrow> octet (0x80 + unat x mod 64) = x"
  using div_mult_mod_eq[of "unat x" 64] octet_unat[of x] by simp

lemma three_bytes: "v \<le> 15 \<Longrightarrow> a < 64 \<Longrightarrow> b < 64 \<Longrightarrow> (v * 64 + a) * 64 + b < (65536 :: nat)"
proof -
  assume "v \<le> 15" "a < 64" "b < 64"
  then have "v * 64 + a \<le> 1023" by simp
  then have "(v * 64 + a) * 64 \<le> 1023 * 64" by (rule mult_le_mono1)
  with \<open>b < 64\<close> show ?thesis by simp
qed

lemma utf8_decode:
  assumes "fst (re_decode (b # bs)) < RE_BAD_BYTE"
  shows "\<exists>c rest. c \<le> RE_MAX_CHAR \<and> b # bs = utf8 c @ rest"
proof (cases "unat b < 0x80")
  case True
  then have "b # bs = utf8 (unat b) @ bs" by (simp add: utf8_def octet_unat)
  with True show ?thesis by (intro exI[of _ "unat b"] exI[of _ bs]) (simp add: RE_MAX_CHAR_def)
next
  case False
  with assms obtain need v c where l: "re_lead b = Some (need, v)" "need \<le> length bs" "re_tail v (take need bs) = Some c"
    "need = 2 \<longrightarrow> 0x800 \<le> c" "need = 3 \<longrightarrow> 0x10000 \<le> c \<and> c \<le> RE_MAX_CHAR"
    by (auto simp: Let_def not_less split: option.splits if_splits)
  have lt: "unat (x :: byte) mod 64 < 64" for x by simp
  note tails = re_tail_Cons follow push_digit lt
  from l(1) consider
      "need = 1" "0xc2 \<le> unat b" "unat b \<le> 0xdf" "v = unat b - 0xc0"
    | "need = 2" "0xe0 \<le> unat b" "unat b \<le> 0xef" "v = unat b - 0xe0"
    | "need = 3" "0xf0 \<le> unat b" "unat b \<le> 0xf4" "v = unat b - 0xf0"
    by (auto simp: re_lead_eq Let_def split: if_splits)
  then show ?thesis
  proof cases
    case 1
    then obtain x rest where bs: "bs = x # rest" using l(2) by (cases bs) auto
    then have x: "unat x div 64 = 2" "c = v * 64 + unat x mod 64" using l(3) 1(1) by (auto simp: re_tail_Cons split: if_splits)
    have c: "c div 64 = v" "c mod 64 = unat x mod 64" unfolding x(2) by (simp_all only: push_digit lt)
    have "0x80 \<le> c" "c < 0x800" using 1 x(2) lt[of x] by linarith+
    then have "b # bs = utf8 c @ rest" using 1 x(1) by (simp add: utf8_def bs c follow octet_unat)
    with \<open>c < 0x800\<close> show ?thesis by (intro exI[of _ c] exI[of _ rest]) (simp add: RE_MAX_CHAR_def)
  next
    case 2
    then obtain x y rest where bs: "bs = x # y # rest" using l(2) by (cases bs; cases "tl bs") auto
    then have x: "unat x div 64 = 2" "unat y div 64 = 2" "c = (v * 64 + unat x mod 64) * 64 + unat y mod 64"
      using l(3) 2(1) by (auto simp: re_tail_Cons numeral_2_eq_2 split: if_splits)
    have c1: "c div 64 = v * 64 + unat x mod 64" "c mod 64 = unat y mod 64" unfolding x(3) by (simp_all only: push_digit lt)
    have "c div 4096 = c div 64 div 64" by (simp only: div_mult2_eq[symmetric]) simp
    then have c: "c div 4096 = v" "c div 64 mod 64 = unat x mod 64" unfolding c1(1) by (simp_all only: push_digit lt)
    have "0x800 \<le> c" using l(4) 2(1) by simp
    moreover have "c < 0x10000" unfolding x(3) by (rule three_bytes) (use 2 lt in simp_all)
    ultimately have "b # bs = utf8 c @ rest" using 2 x(1,2) by (simp add: utf8_def bs c c1(2) follow octet_unat)
    with \<open>c < 0x10000\<close> show ?thesis by (intro exI[of _ c] exI[of _ rest]) (simp add: RE_MAX_CHAR_def)
  next
    case 3
    then obtain x y z rest where bs: "bs = x # y # z # rest" using l(2) by (cases bs; cases "tl bs"; cases "tl (tl bs)") auto
    then have x: "unat x div 64 = 2" "unat y div 64 = 2" "unat z div 64 = 2"
      "c = ((v * 64 + unat x mod 64) * 64 + unat y mod 64) * 64 + unat z mod 64"
      using l(3) 3(1) by (auto simp: re_tail_Cons numeral_3_eq_3 split: if_splits)
    have c1: "c div 64 = (v * 64 + unat x mod 64) * 64 + unat y mod 64" "c mod 64 = unat z mod 64"
      unfolding x(4) by (simp_all only: push_digit lt)
    have "c div 4096 = c div 64 div 64" by (simp only: div_mult2_eq[symmetric]) simp
    then have c2: "c div 4096 = v * 64 + unat x mod 64" "c div 64 mod 64 = unat y mod 64"
      unfolding c1(1) by (simp_all only: push_digit lt)
    have "c div 262144 = c div 4096 div 64" by (simp only: div_mult2_eq[symmetric]) simp
    then have c: "c div 262144 = v" "c div 4096 mod 64 = unat x mod 64" unfolding c2(1) by (simp_all only: push_digit lt)
    have "0x10000 \<le> c" "c \<le> RE_MAX_CHAR" using l(5) 3(1) by simp_all
    then have "b # bs = utf8 c @ rest" using 3 x(1-3) by (simp add: utf8_def bs c c1(2) c2(2) follow octet_unat)
    with \<open>c \<le> RE_MAX_CHAR\<close> show ?thesis by blast
  qed
qed

lemma decode_bad: "RE_BAD_BYTE \<le> fst (re_decode (b # bs)) \<Longrightarrow> re_decode (b # bs) = (RE_BAD_BYTE + unat b, 1)"
proof (rule ccontr)
  assume a: "RE_BAD_BYTE \<le> fst (re_decode (b # bs))" "re_decode (b # bs) \<noteq> (RE_BAD_BYTE + unat b, 1)"
  have "unat b < 256" using unsigned_less[of b, where ?'a=nat] by simp
  with a obtain need v c where l: "re_lead b = Some (need, v)" "re_tail v (take need bs) = Some c" "RE_BAD_BYTE \<le> c"
      "need \<le> length bs" "need = 3 \<longrightarrow> c \<le> RE_MAX_CHAR"
    by (auto simp: Let_def not_less RE_BAD_BYTE_def split: option.splits if_splits)
  then have n: "need \<noteq> 3" by (auto simp: RE_BAD_BYTE_def RE_MAX_CHAR_def)
  have lt: "unat (x :: byte) mod 64 < 64" for x by simp
  from n l(1) consider "need = 1" "v \<le> 31" | "need = 2" "v \<le> 15"
    by (auto simp: re_lead_eq Let_def split: if_splits)
  then show False
  proof cases
    case 1
    then obtain x rest where "bs = x # rest" using l(4) by (cases bs) auto
    then have "c = v * 64 + unat x mod 64" using l(2) 1(1) by (auto simp: re_tail_Cons split: if_splits)
    then show False using 1 lt[of x] l(3) unfolding RE_BAD_BYTE_def by linarith
  next
    case 2
    then obtain x y rest where "bs = x # y # rest" using l(4) by (cases bs; cases "tl bs") auto
    then have "c = (v * 64 + unat x mod 64) * 64 + unat y mod 64"
      using l(2) 2(1) by (auto simp: re_tail_Cons numeral_2_eq_2 split: if_splits)
    then have "c < 65536" using three_bytes[OF 2(2) lt lt] by simp
    then show False using l(3) by (simp add: RE_BAD_BYTE_def)
  qed
qed

end
