(* ===== verification/RegexProps.thy ===== *)
theory RegexProps
  imports RegexLanguage RegexChars
begin

text \<open>
  The properties of the regular expression engine of \<open>src/regex.c\<close>: what the compiler guarantees,
  what a search finds, what repeats and alternatives mean, and how text is read as characters.
\<close>

section \<open>Compiling\<close>

text \<open>
  C22: Every pattern compiles or is refused with an error of the engine, and what it compiles to is
  well formed: it ends in its only \<open>OP_MATCH\<close>, every jump stays inside, every slot belongs to a
  group and every class to the ranges, and no array of the engine overflows.
\<close>

theorem regex_compiles_well_formed:
  "(\<exists>message. ussr_regex_compile pattern flags = Inl (Re_error message)) \<or>
   (\<exists>re F. ussr_regex_compile pattern flags = Inr re \<and> code re = F @ [OP_MATCH] \<and> OP_MATCH \<notin> set F \<and>
     (\<forall>pc<length F. \<forall>x\<in>set (jumps (F ! pc)). 0 \<le> int pc + x \<and> int pc + x \<le> int (length F)) \<and>
     (\<forall>i\<in>set F. inst_ok (length (ranges re)) (groups re) i) \<and> slots re = 2 * (groups re + 1) \<and>
     length (code re) \<le> RE_MAX_CODE \<and> length (ranges re) \<le> RE_MAX_RANGES \<and> groups re \<le> RE_MAX_GROUPS)"
proof (cases "ussr_regex_compile pattern flags")
  case (Inl e)
  then show ?thesis using compile_no_fuel[of pattern flags] by (cases e) auto
next
  case (Inr re)
  from compile_ok[OF Inr] obtain F where F: "code re = F @ [OP_MATCH]" "frag_ok (length (ranges re)) (groups re) F"
    "slots re = 2 * (groups re + 1)" by (auto simp: program_ok_def)
  have "\<not> inst_ok (length (ranges re)) (groups re) OP_MATCH" by simp
  then have "OP_MATCH \<notin> set F" using F(2) unfolding frag_ok_def by blast
  moreover have "\<forall>pc<length F. \<forall>x\<in>set (jumps (F ! pc)). 0 \<le> int pc + x \<and> int pc + x \<le> int (length F)"
    using within_nth F(2) unfolding frag_ok_def by blast
  ultimately show ?thesis using Inr F compile_fits[OF Inr] by (auto simp: frag_ok_def)
qed

section \<open>Searching\<close>

text \<open>Any number of searches with one compiled pattern: the texts and where to start.\<close>

primrec re_searches :: "ussr_regex \<Rightarrow> (byte list \<times> nat) list \<Rightarrow> (re_saves option list \<times> ussr_regex) option" where
  "re_searches re [] = Some ([], re)"
| "re_searches re (q # qs) =
     Option.bind (ussr_regex_search re (fst q) (snd q))
       (\<lambda>(found, re). map_option (map_prod ((#) found) id) (re_searches re qs))"

text \<open>
  C21: Searching with a compiled pattern always returns and never reads or writes outside the
  program, the marks, the slots, the thread lists or the stack, in any number of searches.
\<close>

theorem regex_search_stays_in_bounds:
  "case ussr_regex_compile pattern flags of Inl e \<Rightarrow> True
   | Inr re \<Rightarrow> \<exists>results re'. re_searches re qs = Some (results, re') \<and> length results = length qs"
proof (cases "ussr_regex_compile pattern flags")
  case (Inr re)
  have "program_ok r \<Longrightarrow> \<exists>results re'. re_searches r qs = Some (results, re') \<and> length results = length qs" for r
  proof (induction qs arbitrary: r)
    case (Cons q qs)
    from search_safe[OF Cons.prems, of "fst q" "snd q"] obtain found r' where
      s: "ussr_regex_search r (fst q) (snd q) = Some (found, r')" "program_ok r'" by blast
    from Cons.IH[OF s(2)] s(1) show ?case by auto
  qed simp
  from this[OF compile_ok[OF Inr]] Inr show ?thesis by simp
qed simp

text \<open>A pattern in use: compiled, its marks from earlier searches not beyond its generation.\<close>

definition regex_ready :: "ussr_regex \<Rightarrow> bool" where
  "regex_ready re \<longleftrightarrow> program_ok re \<and> (\<forall>m\<in>set (marks re). m \<le> generation re)"

lemma compile_ready: "ussr_regex_compile pattern flags = Inr re \<Longrightarrow> regex_ready re"
  using compile_ok by (auto simp: regex_ready_def elim!: compile_cases)

lemma search_leftmost:
  assumes "regex_ready re" "from \<le> length text" "unat (generation re) + (length text - from) + 2 < 2 ^ 32"
  shows "\<exists>found re'. ussr_regex_search re text from = Some (found, re') \<and> regex_ready re' \<and>
    (case found of
       None \<Rightarrow> \<forall>s e spans. re_position text from s \<longrightarrow> \<not> re_match re text s e spans
     | Some spans \<Rightarrow> \<exists>s e. re_position text from s \<and> re_match re text s e spans \<and> spans ! 0 = Some s \<and>
         (\<forall>s' e' spans'. re_position text from s' \<and> s' < s \<longrightarrow> \<not> re_match re text s' e' spans'))"
proof -
  let ?g = "generation re + 1"
  have re: "program_ok re" and m: "\<forall>m\<in>set (marks re). m \<le> generation re" using assms(1) by (auto simp: regex_ready_def)
  have "unat (generation re) + 1 < 2 ^ 32" using assms(3) by simp
  note fresh = marks_fresh[OF m this]
  have "list_full re text from ?g (marks re) []"
    using re fresh(1) by (intro list_full_empty) (auto simp: program_ok_def)
  moreover have "s \<ge> from" if "re_position text from s" for s using position_bounds[OF that assms(2)] by simp
  ultimately have l: "list_ok re text from from ?g (marks re) [] None from"
    by (fastforce simp: list_ok_def)
  have "\<not> re_match re text s e sp" if "re_position text from s" "e < from" for s e sp
    using match_reaches[OF re] position_bounds[OF that(1) assms(2)] that(2) by fastforce
  then have f: "found_ok re text from None from" by (simp add: found_ok_def)
  have b: "unat ?g + (length text - from) + 1 < 2 ^ 32" using assms(3) fresh(2) by simp
  from search_loop_ok[OF re assms(2) re_position.first l f fresh(3) b] obtain found ms g where r:
    "re_search_loop re text ?g (marks re) [] None from = Some (found, ms, g)" "result_ok re text from found"
    "\<forall>m\<in>set ms. m \<le> g" by blast
  have "ussr_regex_search re text from = Some (found, re\<lparr>marks := ms, generation := g\<rparr>)"
    using r(1) assms(2) by (simp add: ussr_regex_search_def)
  moreover have "program_ok (re\<lparr>marks := ms, generation := g\<rparr>)"
    using search_safe[OF re, of "text" "from"] calculation by auto
  then have "regex_ready (re\<lparr>marks := ms, generation := g\<rparr>)" using r(3) by (simp add: regex_ready_def)
  moreover have "case found of None \<Rightarrow> \<forall>s e spans. re_position text from s \<longrightarrow> \<not> re_match re text s e spans
     | Some spans \<Rightarrow> \<exists>s e. re_position text from s \<and> re_match re text s e spans \<and> spans ! 0 = Some s \<and>
         (\<forall>s' e' spans'. re_position text from s' \<and> s' < s \<longrightarrow> \<not> re_match re text s' e' spans')"
    using r(2) by (cases found) (auto simp: result_ok_def sooner_def)
  ultimately show ?thesis by blast
qed

text \<open>
  C20: A search finds the leftmost match: it answers no exactly when no run of the program from
  any position from \<open>from\<close> on reaches \<open>OP_MATCH\<close>, and otherwise gives the spans of such a run,
  with the least start there is. The 32-bit counter of generations must not wrap meanwhile.
\<close>

theorem regex_finds_leftmost:
  assumes "regex_ready re" "from \<le> length text" "unat (generation re) + (length text - from) + 2 < 2 ^ 32"
  shows "\<exists>found re'. ussr_regex_search re text from = Some (found, re') \<and> regex_ready re' \<and>
    (case found of
       None \<Rightarrow> \<forall>s e spans. re_position text from s \<longrightarrow> \<not> re_match re text s e spans
     | Some spans \<Rightarrow> \<exists>s e. re_position text from s \<and> re_match re text s e spans \<and> spans ! 0 = Some s \<and>
         (\<forall>s' e' spans'. re_position text from s' \<and> s' < s \<longrightarrow> \<not> re_match re text s' e' spans'))"
  by (rule search_leftmost[OF assms])

section \<open>What the program's runs are\<close>

lemma silent_moves:
  assumes "program_ok re" "pc < length (code re)"
  shows "(at', int q - int pc, saves') \<in> moves re text (code re ! pc) (at, saves) \<longleftrightarrow>
    (at' = at \<and> q \<in> set (silent_pcs re text at pc) \<and> saves' = slots_after re at pc saves) \<or>
    (\<exists>c len. re_char_at text at = (Some c, len) \<and> re_takes re (Some c) (code re ! pc) \<and> at' = at + len \<and>
       q = Suc pc \<and> saves' = saves)"
  using program_at(2)[OF assms]
  by (cases "code re ! pc") (auto simp: moves_def silent_pcs_def slots_after_def)

lemma thread_run:
  assumes re: "program_ok re"
  shows "thread_at re text s at u \<longleftrightarrow>
    ((s, 0, (replicate (slots re) None)[0 := Some s]), (at, u)) \<in> (run_step re text (code re))\<^sup>*"
proof
  show "((s, 0, (replicate (slots re) None)[0 := Some s]), (at, u)) \<in> (run_step re text (code re))\<^sup>*"
    if "thread_at re text s at u"
    using that
  proof (induction rule: thread_at.induct)
    case (silent at u v)
    obtain pc saves where u: "u = (pc, saves)" by fastforce
    have "((at, u), (at, v)) \<in> run_step re text (code re)"
      using silent(2) silent_moves[OF re] by (auto simp: silent_def run_step_def u)
    with silent(3) show ?case by (rule rtrancl_into_rtrancl)
  next
    case (take at pc saves c len)
    have "((at, pc, saves), (at + len, Suc pc, saves)) \<in> run_step re text (code re)"
      using take silent_moves[OF re take(2), of "at + len" "Suc pc" saves "text" at saves] by (auto simp: run_step_def)
    with take(5) show ?case by (rule rtrancl_into_rtrancl)
  qed simp
  show "thread_at re text s at u"
    if "((s, 0, (replicate (slots re) None)[0 := Some s]), (at, u)) \<in> (run_step re text (code re))\<^sup>*"
    using that
  proof (induction "(at, u)" arbitrary: at u rule: rtrancl_induct)
    case base
    then show ?case using thread_at.start by simp
  next
    case (step y)
    obtain b pc saves where y: "y = (b, pc, saves)" by (metis prod_cases3)
    obtain q saves' where u: "u = (q, saves')" by fastforce
    note t = step(3)[OF y]
    from step(2) have p: "pc < length (code re)" "(at, int q - int pc, saves') \<in> moves re text (code re ! pc) (b, saves)"
      by (auto simp: run_step_def y u)
    from p(2) silent_moves[OF re p(1)] show ?case
      using t p(1) by (auto simp: u silent_def intro: thread_at.silent thread_at.take)
  qed
qed

text \<open>
  The matches of a compiled program are the runs of its code before \<open>OP_MATCH\<close>: from the start
  with empty slots to the end.
\<close>

lemma matches_are_runs:
  assumes "regex_ready re"
  shows "re_match re text s e spans \<longleftrightarrow>
    (\<exists>saves. ((s, (replicate (slots re) None)[0 := Some s]), (e, saves)) \<in> lang re text (butlast (code re)) \<and>
       spans = saves[1 := Some e])"
proof -
  have re: "program_ok re" using assms by (simp add: regex_ready_def)
  then obtain F where F: "code re = F @ [OP_MATCH]" "closed F" by (auto simp: program_ok_def frag_ok_def)
  let ?i = "(replicate (slots re) None)[0 := Some s]"
  have m: "pc < length (code re) \<and> code re ! pc = OP_MATCH \<longleftrightarrow> pc = length F" for pc
    using program_at(1)[OF re, of pc] F(1) by auto
  have "thread_at re text s e (length F, saves) \<longleftrightarrow> ((s, ?i), (e, saves)) \<in> lang re text F" for saves
  proof
    assume "thread_at re text s e (length F, saves)"
    then have "((s, length ([] :: re_inst list), ?i), (e, length F, saves)) \<in> (run_step re text ([] @ F @ [OP_MATCH]))\<^sup>*"
      using thread_run[OF re] F(1) by simp
    from leave_first[OF F(2) this] obtain b sv where b: "((s, ?i), (b, sv)) \<in> lang re text F"
      "((b, length F, sv), (e, length F, saves)) \<in> (run_step re text (F @ [OP_MATCH]))\<^sup>*" by auto
    have "(b, sv) = (e, saves)"
      using b(2) by (rule converse_rtranclE) (auto simp: run_step_def moves_def nth_append split: if_splits)
    then show "((s, ?i), (e, saves)) \<in> lang re text F" using b(1) by simp
  next
    assume "((s, ?i), (e, saves)) \<in> lang re text F"
    from lang_embed[OF this, of "[]" "[OP_MATCH]"] show "thread_at re text s e (length F, saves)"
      using thread_run[OF re] F(1) by simp
  qed
  then show ?thesis unfolding re_match_def m conj_assoc[symmetric] using F(1) m by (auto simp: m)
qed

section \<open>Repeats and alternatives\<close>

text \<open>How many times the operator after an atom repeats it.\<close>

definition repeat_counts :: "re_parser \<Rightarrow> nat set" where
  "repeat_counts ps =
     (if is_chr (at_p ps) CHR ''*'' then UNIV
      else if is_chr (at_p ps) CHR ''+'' then {1..}
      else if is_chr (at_p ps) CHR ''?'' then {0, 1}
      else if is_chr (at_p ps) CHR ''{'' then
        (case re_parse_counts ps of Counts n None _ \<Rightarrow> {n..} | Counts n (Some m) _ \<Rightarrow> {n..m} | _ \<Rightarrow> {1})
      else {1})"

lemma finish_piece_lang:
  assumes "re_finish_piece (length C) n m ps = Inr ps'" "re_code ps = C @ A" "closed A" "\<forall>k\<in>set_option m. n \<le> k"
  shows "\<exists>F. re_code ps' = C @ F \<and>
    lang re text F = (\<Union>k\<in>(case m of None \<Rightarrow> {n..} | Some m \<Rightarrow> {n..m}). lang re text A ^^ k)"
proof -
  define lazy where "lazy \<longleftrightarrow> is_chr (at_p ps) CHR ''?''"
  have "re_repeat (length C) n m lazy (if lazy then skip 1 ps else ps) = Inr ps'"
    using assms(1) unfolding re_finish_piece_def Let_def lazy_def[symmetric] by (simp split: if_splits)
  from re_repeat_code[OF this _ refl assms(4), of A] assms(2) have "re_code ps' = C @ repeat_code n m lazy A" by auto
  then show ?thesis using lang_repeat[OF assms(3,4)] by blast
qed

text \<open>
  C23: Whatever an atom of a pattern matches, the piece with its operator matches as many times in a
  row as the operator says: the code made for \<open>*\<close>, \<open>+\<close>, \<open>?\<close> and \<open>{n,m}\<close>, lazy or not, means the union
  of the powers of what the atom's code means.
\<close>

theorem regex_repeats:
  assumes "re_parse_piece (re_parse_alternatives d) ps = Inr ps'"
  shows "\<exists>qs A F. re_parse_atom (re_parse_alternatives d) ps = Inr qs \<and> re_code qs = re_code ps @ A \<and>
    re_code ps' = re_code ps @ F \<and> lang re text F = (\<Union>k\<in>repeat_counts qs. lang re text A ^^ k)"
proof -
  obtain qs where q: "re_parse_atom (re_parse_alternatives d) ps = Inr qs"
    using assms by (auto simp: re_parse_piece_def re_bind_Inr Let_def)
  then obtain A where "grown ps qs A" using atom_grown[OF alternatives_grown] unfolding parses_def by blast
  then have A: "re_code qs = re_code ps @ A" "closed A" by (auto simp: grown_def frag_ok_def)
  have two: "{0..Suc 0} = {0, Suc 0}" by auto
  have "\<exists>F. re_code ps' = re_code ps @ F \<and> lang re text F = (\<Union>k\<in>repeat_counts qs. lang re text A ^^ k)"
  proof (cases "ps' = qs \<and> repeat_counts qs = {1}")
    case True
    then show ?thesis using A by auto
  next
    case False
    note p = assms[unfolded re_parse_piece_def Let_def q re_bind.simps]
    obtain rs n m where f: "re_finish_piece (length (re_code ps)) n m rs = Inr ps'" "re_code rs = re_code qs"
      "\<forall>k\<in>set_option m. n \<le> k" "repeat_counts qs = (case m of None \<Rightarrow> {n..} | Some m \<Rightarrow> {n..m})"
      using p False counts_ordered[of qs]
      by (auto simp: repeat_counts_def two split: if_splits re_counts.splits option.splits)
    with finish_piece_lang[OF f(1) _ A(2) f(3)] A(1) show ?thesis by auto
  qed
  with q A(1) show ?thesis by blast
qed

text \<open>
  C24: A pattern of alternatives matches what one of them does: the code made for the first
  alternative and the rest after its bar means the union of what the two mean.
\<close>

theorem regex_alternatives:
  assumes "re_parse_alternatives (Suc d) ps = Inr ps'"
  shows "\<exists>qs B. re_parse_pieces (re_parse_alternatives d) (Suc (length (ps_p ps))) ps = Inr qs \<and>
    re_code qs = re_code ps @ B \<and>
    (if is_chr (at_p qs) CHR ''|''
     then \<exists>rs us G F. ps_p rs = drop 1 (ps_p qs) \<and> re_parse_alternatives d rs = Inr us \<and>
       re_code us = re_code rs @ G \<and> re_code ps' = re_code ps @ F \<and> ps_p ps' = ps_p us \<and>
       lang re text F = lang re text B \<union> lang re text G
     else ps' = qs)"
proof -
  from assms obtain qs where q: "re_parse_pieces (re_parse_alternatives d) (Suc (length (ps_p ps))) ps = Inr qs"
    by (auto simp: re_bind_Inr Let_def)
  then obtain B where B: "grown ps qs B" using pieces_grown[OF alternatives_grown] unfolding parses_def by blast
  show ?thesis
  proof (cases "is_chr (at_p qs) CHR ''|''")
    case False
    then show ?thesis using assms q B by (auto simp: Let_def grown_def)
  next
    case True
    have len: "length (re_code qs) - length (re_code ps) = length B" using B by (simp add: grown_def)
    from alternative_code[OF assms q B True alternatives_grown] obtain us vs G where g: "re_parse_alternatives d us = Inr vs"
      "ps_p us = drop 1 (ps_p qs)" "grown us vs G" "re_code ps' = re_code ps @ either_code B G" "ps_p ps' = ps_p vs"
      by blast
    have "lang re text (either_code B G) = lang re text B \<union> lang re text G"
      using B g(3) by (intro lang_either) (auto simp: grown_def frag_ok_def)
    with q B g True show ?thesis by (auto simp: grown_def)
  qed
qed

section \<open>Text\<close>

text \<open>
  C37: The decoder inverts UTF-8 and refuses what is malformed. Of text that starts with the encoding of a
  Unicode scalar value it gives that value and the length of its encoding. Text that starts with no code point in the
  scheme of UTF-8 (a stray or missing continuation byte, an overlong form, a value beyond
  0x10ffff) yields one bad byte. In between are the code points from 0xd800 to 0xdfff: the scheme writes them in
  three bytes, which are not valid UTF-8, but the decoder takes them for one character of three bytes
  and not for three bad ones.
\<close>

theorem regex_reads_utf8:
  "(\<forall>c rest. scalar_value c \<longrightarrow> re_decode (utf8 c @ rest) = (c, length (utf8 c))) \<and>
   (\<forall>c rest. surrogate c \<longrightarrow> re_decode (utf8 c @ rest) = (c, 3)) \<and>
   (\<forall>p. p \<noteq> [] \<and> (\<nexists>c rest. (scalar_value c \<or> surrogate c) \<and> p = utf8 c @ rest) \<longrightarrow>
      re_decode p = (RE_BAD_BYTE + unat (hd p), 1))"
proof (intro conjI allI impI)
  note m = code_points
  fix c rest
  show "re_decode (utf8 c @ rest) = (c, length (utf8 c))" if "scalar_value c" using that m decode_utf8 by blast
  show "re_decode (utf8 c @ rest) = (c, 3)" if "surrogate c"
  proof -
    have "length (utf8 c) = 3" using that by (simp add: utf8_def surrogate_def)
    moreover have "c \<le> RE_MAX_CHAR" using that m by blast
    ultimately show ?thesis using decode_utf8[of c rest] by simp
  qed
  fix p :: "byte list" assume p: "p \<noteq> [] \<and> (\<nexists>c rest. (scalar_value c \<or> surrogate c) \<and> p = utf8 c @ rest)"
  then obtain b bs where b: "p = b # bs" by (cases p) auto
  have "\<not> fst (re_decode (b # bs)) < RE_BAD_BYTE" using utf8_decode[of b bs] p b m by blast
  then show "re_decode p = (RE_BAD_BYTE + unat (hd p), 1)" using decode_bad[of b bs] b by (simp only: list.sel not_less)
qed

text \<open>The euro sign, the encoding of a surrogate, and a byte that starts nothing.\<close>

theorem regex_reads_utf8_witness:
  "re_decode (utf8 8364 @ [0x21]) = (8364, 3) \<and> re_decode [0xed, 0xa0, 0x80] = (0xd800, 3) \<and>
   re_decode [0xff, 0x41] = (RE_BAD_BYTE + 255, 1)"
proof (intro conjI)
  note r = regex_reads_utf8
  show "re_decode (utf8 8364 @ [0x21]) = (8364, 3)"
    using conjunct1[OF r, rule_format, of 8364 "[0x21]"] by (simp add: scalar_value_def RE_MAX_CHAR_def utf8_def)
  show "re_decode [0xed, 0xa0, 0x80] = (0xd800, 3)"
    using conjunct1[OF conjunct2[OF r], rule_format, of "0xd800" "[]"] by (simp add: surrogate_def utf8_def octet_def)
  have "octet c \<noteq> 0xff" if "c < 0xff" for c
  proof
    assume "octet c = 0xff"
    then have "unat (octet c) = 0xff" by simp
    then show False using that by (simp add: unat_octet)
  qed
  moreover have "hd (utf8 c) \<in> octet ` {..<0xff} \<and> utf8 c \<noteq> []" if "c \<le> RE_MAX_CHAR" for c
  proof -
    have "c div 64 < 0x3f" if "c < 0x800" using that by auto
    moreover have "c div 4096 < 0x1f" if "c < 0x10000" using that by auto
    moreover have "c div 262144 < 0xf" using that by (auto simp: RE_MAX_CHAR_def)
    ultimately show ?thesis by (auto simp: utf8_def intro!: imageI)
  qed
  ultimately have "\<nexists>c rest'. c \<le> RE_MAX_CHAR \<and> [0xff, 0x41] = utf8 c @ rest'"
    by (metis hd_append2 imageE lessThan_iff list.sel(1))
  then have "[0xff, 0x41] \<noteq> [] \<and> (\<nexists>c rest. (scalar_value c \<or> surrogate c) \<and> [0xff, 0x41] = utf8 c @ rest)"
    by (simp only: code_points) simp
  from conjunct2[OF conjunct2[OF r], rule_format, OF this] show "re_decode [0xff, 0x41] = (RE_BAD_BYTE + 255, 1)"
    by (simp only: list.sel) simp
qed

section \<open>One pattern\<close>

lemmas compile_eval = ussr_regex_compile_def re_start_def re_parse_piece_def re_parse_atom_def Let_def at_p_def at_p1_def
  is_chr_def byte_of_char_def re_read_char_def skip_def re_emit_char_def re_emit_def RE_MAX_CODE_def re_finish_piece_def
  repeat_next_def re_repeat_def re_insert_def re_split_def

text \<open>The program of \<open>a*b\<close>.\<close>

definition some_as_and_b :: ussr_regex where
  "some_as_and_b = \<lparr>code = [OP_SPLIT 1 3, OP_CHAR 97, OP_JMP (-2), OP_CHAR 98, OP_MATCH], ranges = [], groups = 0,
     slots = 2, marks = [0, 0, 0, 0, 0], generation = 0\<rparr>"

lemma compile_some_as_and_b: "ussr_regex_compile ''a*b'' '''' = Inr some_as_and_b"
  by (simp add: compile_eval some_as_and_b_def)

theorem regex_repeats_witness:
  "\<exists>qs F. re_parse_atom (re_parse_alternatives 1) (re_start [97, 42]) = Inr qs \<and>
    lang some_as_and_b [97, 98] F = (\<Union>k. lang some_as_and_b [97, 98] (re_code qs) ^^ k)"
proof -
  let ?ps = "re_start [97, 42]"
  have "\<exists>ps'. re_parse_piece (re_parse_alternatives 1) ?ps = Inr ps'"
    by (simp add: compile_eval)
  then obtain ps' where p: "re_parse_piece (re_parse_alternatives 1) ?ps = Inr ps'" by blast
  have "re_parse_atom (re_parse_alternatives 1) ?ps = Inr qs \<Longrightarrow> repeat_counts qs = UNIV" for qs
    by (auto simp: compile_eval repeat_counts_def)
  moreover have "re_code ?ps = []" by (simp add: re_start_def)
  ultimately show ?thesis using regex_repeats[OF p, of some_as_and_b "[97, 98]"] by fastforce
qed

theorem regex_alternatives_witness:
  "\<exists>qs F G. re_parse_pieces (re_parse_alternatives 1) 4 (re_start [97, 124, 98]) = Inr qs \<and>
    lang some_as_and_b [97, 98] F = lang some_as_and_b [97, 98] (re_code qs) \<union> lang some_as_and_b [97, 98] G"
proof -
  let ?ps = "re_start [97, 124, 98]"
  have "\<exists>ps'. re_parse_alternatives (Suc 1) ?ps = Inr ps'"
    by (simp add: compile_eval)
  then obtain ps' where p: "re_parse_alternatives (Suc 1) ?ps = Inr ps'" by blast
  note qs = regex_alternatives[OF p, of some_as_and_b "[97, 98]"]
  then obtain qs where "re_parse_pieces (re_parse_alternatives 1) (Suc (length (ps_p ?ps))) ?ps = Inr qs" by blast
  moreover from this have "is_chr (at_p qs) CHR ''|''" by (auto simp: compile_eval)
  moreover have "re_code ?ps = []" "Suc (length (ps_p ?ps)) = 4" by (simp_all add: re_start_def)
  ultimately show ?thesis using qs by auto
qed

theorem regex_finds_leftmost_witness:
  "\<exists>found re'. ussr_regex_search some_as_and_b [120, 97, 98] 0 = Some (found, re') \<and> regex_ready re' \<and>
    (case found of
       None \<Rightarrow> \<forall>s e spans. re_position [120, 97, 98] 0 s \<longrightarrow> \<not> re_match some_as_and_b [120, 97, 98] s e spans
     | Some spans \<Rightarrow> \<exists>s e. re_position [120, 97, 98] 0 s \<and> re_match some_as_and_b [120, 97, 98] s e spans \<and> spans ! 0 = Some s)"
proof -
  have h: "(0 :: nat) \<le> length ([120, 97, 98] :: byte list)"
    "unat (generation some_as_and_b) + (length ([120, 97, 98] :: byte list) - 0) + 2 < 2 ^ 32"
    by (simp_all add: some_as_and_b_def)
  from regex_finds_leftmost[OF compile_ready[OF compile_some_as_and_b] h] obtain found re' where
    r: "ussr_regex_search some_as_and_b [120, 97, 98] 0 = Some (found, re')" "regex_ready re'"
      "case found of
         None \<Rightarrow> \<forall>s e spans. re_position [120, 97, 98] 0 s \<longrightarrow> \<not> re_match some_as_and_b [120, 97, 98] s e spans
       | Some spans \<Rightarrow> \<exists>s e. re_position [120, 97, 98] 0 s \<and> re_match some_as_and_b [120, 97, 98] s e spans \<and> spans ! 0 = Some s \<and>
           (\<forall>s' e' spans'. re_position [120, 97, 98] 0 s' \<and> s' < s \<longrightarrow> \<not> re_match some_as_and_b [120, 97, 98] s' e' spans')"
    by blast
  from r(3) show ?thesis by (intro exI[of _ found] exI[of _ re'] conjI r(1,2)) (cases found; auto)
qed

theorem regex_compiles_well_formed_witness:
  "\<exists>re F. ussr_regex_compile ''a*b'' '''' = Inr re \<and> code re = F @ [OP_MATCH] \<and> OP_MATCH \<notin> set F \<and>
     (\<forall>pc<length F. \<forall>x\<in>set (jumps (F ! pc)). 0 \<le> int pc + x \<and> int pc + x \<le> int (length F))"
  using regex_compiles_well_formed[of "''a*b''" "''''"] unfolding compile_some_as_and_b by blast

end
