(* ===== verification/RegexText.thy ===== *)
theory RegexText
  imports RegexProps
begin

text \<open>
  Plain text as a pattern: compiler and search of \<open>src/regex.c\<close> together. A pattern without operators is compiled to
  one instruction per character, and a search with it is a search for a substring.
\<close>

section \<open>Plain patterns\<close>

text \<open>The ASCII characters that stand for themselves.\<close>

definition re_operators :: string where
  "re_operators = CHR 0x5c # ''([.^$*+?|){''"

definition plain :: "char \<Rightarrow> bool" where
  "plain c \<longleftrightarrow> 0 < chr c \<and> chr c < 0x80 \<and> c \<notin> set re_operators"

definition text_code :: "string \<Rightarrow> re_inst list" where
  "text_code w = map (\<lambda>c. OP_CHAR (chr c)) w"

lemma byte_chr: "unat (byte_of_char c) = chr c"
  by (simp add: byte_of_char_def unat_of_nat)

lemma plain_at:
  assumes "plain c" "ps_p ps = byte_of_char c # bs"
  shows "at_p ps = byte_of_char c" "at_p ps \<noteq> 0" "\<And>x. x \<in> set re_operators \<Longrightarrow> \<not> is_chr (at_p ps) x"
proof -
  show a: "at_p ps = byte_of_char c" by (simp add: at_p_def assms(2))
  show "at_p ps \<noteq> 0" using assms(1) by (auto simp: a plain_def)
  show "\<not> is_chr (at_p ps) x" if "x \<in> set re_operators" for x
    using assms(1) that by (auto simp: a plain_def is_chr_def)
qed

lemma end_at: "ps_p ps = [] \<Longrightarrow> x \<noteq> CHR 0x00 \<Longrightarrow> \<not> is_chr (at_p ps) x"
  using byte_of_char_zero[of x] by (auto simp: at_p_def is_chr_def)

lemma plain_piece:
  assumes "plain c" "ps_p ps = byte_of_char c # map byte_of_char w" "list_all plain w" "\<not> ps_icase ps" "length (re_code ps) < RE_MAX_CODE"
  shows "re_parse_piece alternatives ps = Inr (ps\<lparr>re_code := re_code ps @ [OP_CHAR (chr c)], ps_p := map byte_of_char w\<rparr>)"
proof -
  let ?ps = "ps\<lparr>re_code := re_code ps @ [OP_CHAR (chr c)], ps_p := map byte_of_char w\<rparr>"
  have "chr c < 0x80" using assms(1) by (simp add: plain_def)
  then have d: "re_decode (byte_of_char c # bs) = (chr c, 1)" for bs by (simp add: byte_chr)
  have ops: "\<not> is_chr (at_p ps) CHR ''(''" "\<not> is_chr (at_p ps) CHR ''[''" "\<not> is_chr (at_p ps) CHR ''.''"
    "\<not> is_chr (at_p ps) CHR ''^''" "\<not> is_chr (at_p ps) CHR ''$''" "\<not> is_chr (at_p ps) CHR ''*''"
    "\<not> is_chr (at_p ps) CHR ''+''" "\<not> is_chr (at_p ps) CHR ''?''" "\<not> is_chr (at_p ps) (CHR 0x5c)"
    by (rule plain_at(3)[OF assms(1,2)], simp add: re_operators_def)+
  have r: "re_read_char ps = (chr c, ps\<lparr>ps_p := map byte_of_char w\<rparr>)"
    unfolding re_read_char_def assms(2) d by (simp add: skip_def assms(2))
  have e: "re_emit_char (chr c) (ps\<lparr>ps_p := map byte_of_char w\<rparr>) = Inr ?ps"
    using assms(4,5) by (simp add: re_emit_char_def re_emit_def)
  have a: "re_parse_atom alternatives ps = Inr ?ps"
    unfolding re_parse_atom_def Let_def by (simp add: ops r e)
  have next_ops: "\<not> is_chr (at_p ?ps) x" if "x \<in> set re_operators" "x \<noteq> CHR 0x00" for x
  proof (cases w)
    case Nil
    then show ?thesis using end_at[of ?ps x] that by simp
  next
    case (Cons c' w')
    then have "plain c'" using assms(3) by simp
    with Cons show ?thesis using plain_at(3)[of c' ?ps "map byte_of_char w'" x] that by simp
  qed
  have "\<not> is_chr (at_p ?ps) CHR ''*''" "\<not> is_chr (at_p ?ps) CHR ''+''" "\<not> is_chr (at_p ?ps) CHR ''?''" "\<not> is_chr (at_p ?ps) CHR ''{''"
    by (rule next_ops, simp_all add: re_operators_def)+
  then show ?thesis by (simp add: re_parse_piece_def Let_def a)
qed

lemma plain_pieces:
  "list_all plain w \<Longrightarrow> ps_p ps = map byte_of_char w \<Longrightarrow> \<not> ps_icase ps \<Longrightarrow> length (re_code ps) + length w \<le> RE_MAX_CODE \<Longrightarrow> length w < n \<Longrightarrow>
   re_parse_pieces alternatives n ps = Inr (ps\<lparr>re_code := re_code ps @ text_code w, ps_p := []\<rparr>)"
proof (induction w arbitrary: ps n)
  case Nil
  then show ?case by (cases n) (auto simp: at_p_def text_code_def)
next
  case (Cons c w)
  then obtain m where n: "n = Suc m" by (cases n) auto
  let ?ps = "ps\<lparr>re_code := re_code ps @ [OP_CHAR (chr c)], ps_p := map byte_of_char w\<rparr>"
  have p: "re_parse_piece alternatives ps = Inr ?ps" using Cons.prems by (intro plain_piece) auto
  have "re_parse_pieces alternatives m ?ps = Inr (?ps\<lparr>re_code := re_code ?ps @ text_code w, ps_p := []\<rparr>)"
    using Cons.prems n by (intro Cons.IH) auto
  then show ?case using plain_at[of c ps "map byte_of_char w"] Cons.prems(1,2) by (simp add: n p text_code_def re_operators_def)
qed

lemma plain_compiles:
  assumes "list_all plain w" "length w < RE_MAX_CODE"
  shows "ussr_regex_compile w '''' = Inr \<lparr>code = text_code w @ [OP_MATCH], ranges = [], groups = 0, slots = 2,
    marks = replicate (length w + 1) 0, generation = 0\<rparr>"
proof -
  let ?ps = "re_start (map byte_of_char w)"
  have "re_parse_pieces (re_parse_alternatives (length w)) (Suc (length w)) ?ps = Inr (?ps\<lparr>re_code := re_code ?ps @ text_code w, ps_p := []\<rparr>)"
    using assms by (intro plain_pieces) (auto simp: re_start_def)
  then have "re_parse_alternatives (Suc (length w)) ?ps = Inr (?ps\<lparr>re_code := text_code w, ps_p := []\<rparr>)"
    using end_at[of "?ps\<lparr>re_code := text_code w, ps_p := []\<rparr>" "CHR ''|''"] by (simp add: re_start_def)
  then show ?thesis
    using assms(2) end_at[of "?ps\<lparr>re_code := text_code w, ps_p := []\<rparr>" "CHR '')''"]
    by (simp add: ussr_regex_compile_def Let_def del: re_parse_alternatives.simps)
      (simp add: re_emit_def text_code_def re_start_def)
qed

section \<open>Where plain text matches\<close>

definition occurs_at :: "string \<Rightarrow> byte list \<Rightarrow> nat \<Rightarrow> bool" where
  "occurs_at w text s \<longleftrightarrow> s + length w \<le> length text \<and> take (length w) (drop s text) = map byte_of_char w"

lemma occurs_Cons: "occurs_at (c # w) text s \<longleftrightarrow> s < length text \<and> text ! s = byte_of_char c \<and> occurs_at w text (Suc s)"
proof (cases "s < length text")
  case True
  then have "drop s text = text ! s # drop (Suc s) text" by (rule Cons_nth_drop_Suc[symmetric])
  with True show ?thesis by (auto simp: occurs_at_def)
qed (simp add: occurs_at_def)

lemma tail_high: "re_tail v bs = Some c \<Longrightarrow> b \<in> set bs \<Longrightarrow> 0x80 \<le> unat b"
proof (induction bs arbitrary: v)
  case (Cons b' bs)
  then have t: "unat b' div 64 = 2" "re_tail (v * 64 + unat b' mod 64) bs = Some c" by (auto simp: re_tail_Cons simp del: re_tail.simps(2) split: if_splits)
  have "0x80 \<le> unat b'" using t(1) div_le_mono[of "unat b'" 127 64] by (cases "unat b' \<le> 127") auto
  then show ?case using Cons.IH[OF t(2)] Cons.prems(2) by auto
qed simp


declare re_decode.simps(2) [simp del]

lemma char_at_plain: "at < length text \<Longrightarrow> unat (text ! at) < 0x80 \<Longrightarrow> re_char_at text at = (Some (unat (text ! at)), 1)"
  by (simp add: re_char_at_def re_decode.simps flip: Cons_nth_drop_Suc)

text \<open>A byte below 128 is never inside another character.\<close>

lemma decode_high:
  assumes "re_decode (b # bs) = (c, len)" "0 < i" "i < len"
  shows "0x80 \<le> unat ((b # bs) ! i)"
proof -
  from assms obtain need v where l: "re_lead b = Some (need, v)" "need \<le> length bs" "len = need + 1" "re_tail v (take need bs) = Some c"
    by (auto simp: re_decode.simps Let_def not_less split: if_splits option.splits)
  obtain j where j: "i = Suc j" using assms(2) by (cases i) auto
  then have "bs ! j \<in> set (take need bs)" using assms(3) l(2,3) by (auto simp: in_set_conv_nth intro!: exI[of _ j])
  from tail_high[OF l(4) this] show ?thesis by (simp add: j)
qed

lemma position_of_ascii:
  assumes "s < length text" "unat (text ! s) < 0x80" "re_position text from p" "p \<le> s"
  shows "re_position text from s"
  using assms(3,4)
proof (induction "s - p" arbitrary: p rule: less_induct)
  case less
  show ?case
  proof (cases "p = s")
    case False
    with less(3) assms(1) have p: "p < s" "p < length text" by auto
    obtain c len where d: "re_decode (drop p text) = (c, len)" by fastforce
    then have c: "re_char_at text p = (Some c, len)" using p(2) by (simp add: re_char_at_def)
    have "0 < len" using re_decode_size[of "drop p text"] d by simp
    have "p + len \<le> s"
    proof (rule ccontr)
      assume "\<not> p + len \<le> s"
      then have "0 < s - p" "s - p < len" using p(1) by auto
      moreover have "drop p text = text ! p # drop (Suc p) text" using p(2) by (rule Cons_nth_drop_Suc[symmetric])
      ultimately have "0x80 \<le> unat (drop p text ! (s - p))" using decode_high d by metis
      then show False using assms(1,2) p by simp
    qed
    with less(1)[of "p + len"] re_position.onward[OF less(2) c] \<open>0 < len\<close> p(1) show ?thesis by simp
  qed (use less(2) in simp)
qed

lemma lang_char:
  assumes "x < 0x80"
  shows "((at, saves), (at', saves')) \<in> lang re text [OP_CHAR x] \<longleftrightarrow>
    at < length text \<and> unat (text ! at) = x \<and> at' = at + 1 \<and> saves' = saves"
proof -
  have taken: "re_char_at text at = (Some x, len) \<longleftrightarrow> at < length text \<and> unat (text ! at) = x \<and> len = 1" for len
  proof
    assume c: "re_char_at text at = (Some x, len)"
    then have at: "at < length text" and d: "re_decode (drop at text) = (x, len)"
      by (cases "re_decode (drop at text)", auto simp: re_char_at_def split: if_splits)+
    have n: "drop at text = text ! at # drop (Suc at) text" using at by (rule Cons_nth_drop_Suc[symmetric])
    have "fst (re_decode (text ! at # drop (Suc at) text)) < RE_BAD_BYTE" using d n assms by (simp add: RE_BAD_BYTE_def)
    from utf8_decode[OF this] obtain y rest where y: "y \<le> RE_MAX_CHAR" "drop at text = utf8 y @ rest" using n by auto
    then have "x = y" "len = length (utf8 y)" using decode_utf8[OF y(1), of rest] d by auto
    then have "drop at text = octet x # rest" "len = 1" using y(2) assms by (auto simp: utf8_def)
    then show "at < length text \<and> unat (text ! at) = x \<and> len = 1" using at n assms by (simp add: unat_octet)
  next
    assume "at < length text \<and> unat (text ! at) = x \<and> len = 1"
    then show "re_char_at text at = (Some x, len)" using char_at_plain assms by auto
  qed
  have m: "moves re text (OP_CHAR x) (b, sv) = {(b + len, 1, sv) | len. re_char_at text b = (Some x, len)}" for b sv
    by (auto simp: moves_def)
  have step: "((b, pc, sv), y) \<in> run_step re text [OP_CHAR x] \<longleftrightarrow>
      pc = 0 \<and> (\<exists>len. re_char_at text b = (Some x, len) \<and> y = (b + len, 1, sv))" for b pc sv y
    by (cases y) (auto simp: run_step_def m)
  show ?thesis
  proof
    assume "((at, saves), (at', saves')) \<in> lang re text [OP_CHAR x]"
    then have r: "((at, 0, saves), (at', 1, saves')) \<in> (run_step re text [OP_CHAR x])\<^sup>*" by (simp add: lang_iff)
    then obtain len where len: "re_char_at text at = (Some x, len)" "((at + len, 1, saves), (at', 1, saves')) \<in> (run_step re text [OP_CHAR x])\<^sup>*"
      by (cases rule: converse_rtranclE) (auto simp: step)
    from len(2) have "(at', saves') = (at + len, saves)" by (cases rule: converse_rtranclE) (auto simp: step)
    with len(1) show "at < length text \<and> unat (text ! at) = x \<and> at' = at + 1 \<and> saves' = saves" using taken by simp
  next
    assume "at < length text \<and> unat (text ! at) = x \<and> at' = at + 1 \<and> saves' = saves"
    then show "((at, saves), (at', saves')) \<in> lang re text [OP_CHAR x]" using taken step by (simp add: lang_iff r_into_rtrancl)
  qed
qed

lemma text_closed: "closed (text_code w)"
proof -
  have "within lo hi (text_code w)" if "lo \<le> 1" for lo hi
    using that
  proof (induction w arbitrary: lo hi)
    case (Cons c w)
    from Cons.IH[of "lo - 1" "hi - 1"] Cons.prems show ?case by (simp add: text_code_def)
  qed (simp add: text_code_def)
  then show ?thesis by simp
qed

lemma lang_text:
  "list_all plain w \<Longrightarrow> ((at, saves), (at', saves')) \<in> lang re text (text_code w) \<longleftrightarrow>
     (w = [] \<or> occurs_at w text at) \<and> at' = at + length w \<and> saves' = saves"
proof (induction w arbitrary: at)
  case Nil
  then show ?case by (auto simp: text_code_def lang_Nil)
next
  case (Cons c w)
  have c: "text_code (c # w) = [OP_CHAR (chr c)] @ text_code w" by (simp add: text_code_def)
  have x: "chr c < 0x80" using Cons.prems by (simp add: plain_def)
  have one: "closed [OP_CHAR (chr c)]" by simp
  have b: "unat b = chr c \<longleftrightarrow> b = byte_of_char c" for b by (metis byte_chr unsigned_word_eqI)
  have ih: "((at + 1, saves), (at', saves')) \<in> lang re text (text_code w) \<longleftrightarrow>
     (w = [] \<or> occurs_at w text (at + 1)) \<and> at' = at + 1 + length w \<and> saves' = saves"
    using Cons.prems by (intro Cons.IH) simp
  have occ: "occurs_at (c # w) text at \<longleftrightarrow> at < length text \<and> text ! at = byte_of_char c \<and> (w = [] \<or> occurs_at w text (at + 1))"
    unfolding occurs_Cons by (cases w) (auto simp: occurs_at_def)
  have "((at, saves), (at', saves')) \<in> lang re text (text_code (c # w)) \<longleftrightarrow>
      at < length text \<and> unat (text ! at) = chr c \<and> ((at + 1, saves), (at', saves')) \<in> lang re text (text_code w)"
    unfolding c lang_append[OF one text_closed] by (auto simp: relcomp_unfold lang_char[OF x])
  then show ?case unfolding ih occ b by simp
qed

section \<open>A search with plain text\<close>

text \<open>Wherever the text occurs the search gets to look, and the empty text is found at once.\<close>

lemma occurrence_is_reached:
  assumes "list_all plain w" "from \<le> length text" "from \<le> s" "occurs_at w text s"
  obtains p where "p \<le> s" "re_position text from p" "occurs_at w text p"
proof (cases w)
  case Nil
  then have "occurs_at w text from" using assms(2) by (simp add: occurs_at_def)
  with re_position.first assms(3) that show ?thesis by blast
next
  case (Cons c w')
  then have s: "s < length text" "text ! s = byte_of_char c" "chr c < 0x80"
    using assms(1,4) by (auto simp: occurs_Cons plain_def)
  then have "unat (text ! s) < 0x80" by (simp add: byte_chr)
  from position_of_ascii[OF s(1) this re_position.first assms(3)] assms(4) that show ?thesis by blast
qed

lemma text_matches:
  assumes "list_all plain w" "ussr_regex_compile w '''' = Inr re" "length w < RE_MAX_CODE"
  shows "re_match re text s e spans \<longleftrightarrow> (w = [] \<or> occurs_at w text s) \<and> e = s + length w \<and> spans = [Some s, Some e]"
proof -
  have re: "code re = text_code w @ [OP_MATCH]" "slots re = 2" using plain_compiles[OF assms(1,3)] assms(2) by auto
  have i: "(replicate 2 None)[0 := Some s] = [Some s, None]" by (simp add: numeral_2_eq_2)
  have "re_match re text s e spans \<longleftrightarrow>
    (\<exists>saves. ((s, [Some s, None]), (e, saves)) \<in> lang re text (text_code w) \<and> spans = saves[1 := Some e])"
    unfolding matches_are_runs[OF compile_ready[OF assms(2)]] re i by simp
  then show ?thesis by (auto simp: lang_text[OF assms(1)])
qed

text \<open>
  C25: Compiling and searching together, for patterns of plain characters (ASCII, no operator): the pattern compiles,
  and a search from \<open>from\<close> gives the bounds of the first place at or after \<open>from\<close> where the text holds the pattern's
  bytes, whatever bytes stand around it, and nothing exactly when there is no such place. The text must be short enough
  for the 32-bit counter of steps.
\<close>

theorem regex_finds_text:
  assumes "list_all plain w" "length w < RE_MAX_CODE" "from \<le> length text" "length text + 3 < 2 ^ 32"
  shows "\<exists>re found re'. ussr_regex_compile w '''' = Inr re \<and> ussr_regex_search re text from = Some (found, re') \<and>
    (case found of
       None \<Rightarrow> \<forall>s. from \<le> s \<longrightarrow> \<not> occurs_at w text s
     | Some spans \<Rightarrow> \<exists>s. from \<le> s \<and> occurs_at w text s \<and> spans = [Some s, Some (s + length w)] \<and>
         (\<forall>s'. from \<le> s' \<and> s' < s \<longrightarrow> \<not> occurs_at w text s'))"
proof -
  obtain re where re: "ussr_regex_compile w '''' = Inr re" "generation re = 0" using plain_compiles[OF assms(1,2)] by auto
  note match = text_matches[OF assms(1) re(1) assms(2)]
  have m: "re_match re text s (s + length w) [Some s, Some (s + length w)]" if "occurs_at w text s" for s
    using that by (simp add: match)
  have "unat (generation re) + (length text - from) + 2 < 2 ^ 32" using assms(4) re(2) by simp
  from search_leftmost[OF compile_ready[OF re(1)] assms(3) this] obtain found re' where
    f: "ussr_regex_search re text from = Some (found, re')"
    "case found of None \<Rightarrow> \<forall>s e spans. re_position text from s \<longrightarrow> \<not> re_match re text s e spans
     | Some spans \<Rightarrow> \<exists>s e. re_position text from s \<and> re_match re text s e spans \<and> spans ! 0 = Some s \<and>
         (\<forall>s' e' spans'. re_position text from s' \<and> s' < s \<longrightarrow> \<not> re_match re text s' e' spans')" by blast
  have "case found of None \<Rightarrow> \<forall>s. from \<le> s \<longrightarrow> \<not> occurs_at w text s
     | Some spans \<Rightarrow> \<exists>s. from \<le> s \<and> occurs_at w text s \<and> spans = [Some s, Some (s + length w)] \<and>
         (\<forall>s'. from \<le> s' \<and> s' < s \<longrightarrow> \<not> occurs_at w text s')"
  proof (cases found)
    case None
    with f(2) have n: "\<not> re_match re text s e spans" if "re_position text from s" for s e spans using that by simp
    have "\<not> occurs_at w text s" if "from \<le> s" for s
    proof
      assume "occurs_at w text s"
      from occurrence_is_reached[OF assms(1,3) that this] obtain p where p: "re_position text from p" "occurs_at w text p" .
      with n[OF p(1)] m[OF p(2)] show False by simp
    qed
    with None show ?thesis by simp
  next
    case (Some spans)
    with f(2) obtain s e where s: "re_position text from s" "re_match re text s e spans"
      "\<And>s' e' spans'. re_position text from s' \<Longrightarrow> s' < s \<Longrightarrow> \<not> re_match re text s' e' spans'" by auto
    have b: "from \<le> s" "s \<le> length text" using position_bounds[OF s(1) assms(3)] by auto
    have "occurs_at w text s \<and> spans = [Some s, Some (s + length w)]"
      using s(2) b(2) unfolding match by (auto simp: occurs_at_def)
    moreover have "\<not> occurs_at w text s'" if "from \<le> s'" "s' < s" for s'
    proof
      assume "occurs_at w text s'"
      from occurrence_is_reached[OF assms(1,3) that(1) this] obtain p where p: "p \<le> s'" "re_position text from p" "occurs_at w text p" .
      with s(3)[OF p(2)] m[OF p(3)] that(2) show False by auto
    qed
    ultimately show ?thesis using Some b(1) by auto
  qed
  with re(1) f(1) show ?thesis by blast
qed

theorem regex_finds_text_witness:
  "\<exists>re re'. ussr_regex_compile ''ab'' '''' = Inr re \<and> ussr_regex_search re [0xE9, 97, 97, 98] 1 = Some (Some [Some 2, Some 4], re')"
proof -
  let ?t = "[0xE9, 97, 97, 98] :: byte list"
  have h: "list_all plain ''ab''" "length ''ab'' < RE_MAX_CODE" "1 \<le> length ?t" "length ?t + 3 < 2 ^ 32"
    by (simp_all add: plain_def re_operators_def RE_MAX_CODE_def)
  have o: "occurs_at ''ab'' ?t s \<longleftrightarrow> s = 2" for s
  proof -
    have "occurs_at ''ab'' ?t s \<longleftrightarrow> s + 2 \<le> 4 \<and> take 2 (drop s ?t) = [97, 98]" by (simp add: occurs_at_def byte_of_char_def numeral_2_eq_2)
    also have "\<dots> \<longleftrightarrow> s \<in> {0, 1, 2} \<and> take 2 (drop s ?t) = [97, 98]" by auto
    also have "\<dots> \<longleftrightarrow> s = 2" by auto
    finally show ?thesis .
  qed
  from regex_finds_text[OF h] obtain re found re' where r: "ussr_regex_compile ''ab'' '''' = Inr re"
    "ussr_regex_search re ?t 1 = Some (found, re')"
    "case found of None \<Rightarrow> \<forall>s. 1 \<le> s \<longrightarrow> \<not> occurs_at ''ab'' ?t s
     | Some spans \<Rightarrow> \<exists>s. 1 \<le> s \<and> occurs_at ''ab'' ?t s \<and> spans = [Some s, Some (s + length ''ab'')] \<and>
         (\<forall>s'. 1 \<le> s' \<and> s' < s \<longrightarrow> \<not> occurs_at ''ab'' ?t s')" by blast
  from r(3) have "found = Some [Some 2, Some 4]" by (cases found) (auto simp: o)
  with r(1,2) show ?thesis by blast
qed

end
