(* ===== verification/EventQ.thy ===== *)
theory EventQ
  imports Prelude "HOL-Library.Multiset"
begin

text \<open>
  The event queue of the scheduler, \<open>src/eventq.c\<close>: timers, watched child processes and watched
  socket handles in three flat lists, registered under unique tokens, collected by
  \<open>ussr_eq_dispatch\<close> in registration order. The clock, \<open>waitpid\<close> and the socket poll are the
  operating system's: arguments of the operations. Allocation failure is not modelled.
\<close>

section \<open>The interface of a one-shot event source\<close>

text \<open>
  What a client of an event queue relies on: a collecting step hands out registrations and keeps
  the rest, losing and duplicating none. Over any sequence of steps, each registration is then
  reported at most once, and what was not reported is still pending.
\<close>

locale one_shot_source =
  fixes pending :: "'s \<Rightarrow> 't multiset"
    and collect :: "'i \<Rightarrow> 's \<Rightarrow> 't list \<times> 's"
  assumes conserve: "pending s = mset (fst (collect i s)) + pending (snd (collect i s))"
begin

fun collect_all :: "'i list \<Rightarrow> 's \<Rightarrow> 't list \<times> 's" where
  "collect_all [] s = ([], s)"
| "collect_all (i # is) s =
     (let (ts, s1) = collect i s; (us, s2) = collect_all is s1 in (ts @ us, s2))"

lemma conserve_all:
  "pending s = mset (fst (collect_all is s)) + pending (snd (collect_all is s))"
proof (induction "is" arbitrary: s)
  case (Cons i "is")
  show ?case
    using conserve[of s i] Cons.IH[of "snd (collect i s)"] by (simp add: split_def Let_def)
qed simp

lemma reported_once:
  assumes "\<And>t. count (pending s) t \<le> 1"
  shows "distinct (fst (collect_all is s)) \<and>
    (\<forall>t\<in>set (fst (collect_all is s)). t \<in># pending s \<and> t \<notin># pending (snd (collect_all is s)))"
proof -
  let ?es = "fst (collect_all is s)" and ?s' = "snd (collect_all is s)"
  have c: "count (mset ?es) t + count (pending ?s') t = count (pending s) t" for t
    using arg_cong[OF conserve_all[of s "is"], of "\<lambda>m. count m t"] by simp
  have one: "count (mset ?es) t + count (pending ?s') t \<le> 1" for t
    using c[of t] assms[of t] by simp
  have "count (mset ?es) t = (if t \<in> set ?es then 1 else 0)" for t
  proof (cases "t \<in> set ?es")
    case True
    then have "0 < count (mset ?es) t" by (simp only: count_greater_zero_iff set_mset_mset)
    then have "count (mset ?es) t = 1" using one[of t] by linarith
    then show ?thesis by (simp add: True)
  next
    case False
    then show ?thesis by (simp add: count_eq_zero_iff)
  qed
  then have "distinct ?es" by (simp add: distinct_count_atmost_1)
  moreover have "t \<in># pending s \<and> t \<notin># pending ?s'" if "t \<in> set ?es" for t
  proof -
    have "0 < count (mset ?es) t" using that by (simp only: count_greater_zero_iff set_mset_mset)
    then have "count (pending ?s') t = 0" "0 < count (pending s) t"
      using one[of t] c[of t] by linarith+
    then show ?thesis by (simp add: not_in_iff)
  qed
  ultimately show ?thesis by blast
qed

end

section \<open>State\<close>

record eq_timer =
  tm_owner :: int
  tm_token :: "64 word"
  tm_deadline :: "64 word"

record eq_fd =
  fd_owner :: int
  fd_token :: "64 word"
  fd_handle :: int
  fd_write :: bool

text \<open>\<open>ussr_child_t\<close> of a POSIX host is a process id, at most 0 when empty.\<close>

record eq_child =
  ch_owner :: int
  ch_token :: "64 word"
  ch_pid :: int
  ch_reaped :: bool
  ch_exit :: int

record eq_state =
  eq_timers :: "eq_timer list"
  eq_children :: "eq_child list"
  eq_fds :: "eq_fd list"
  eq_next_token :: "64 word"

datatype eq_kind = EQ_TIMER | EQ_CHILD | EQ_READABLE | EQ_WRITABLE

record eq_event =
  ev_kind :: eq_kind
  ev_owner :: int
  ev_exit :: int
  ev_token :: "64 word"

section \<open>Registration\<close>

definition ussr_eq_init :: eq_state where
  "ussr_eq_init = \<lparr>eq_timers = [], eq_children = [], eq_fds = [], eq_next_token = 1\<rparr>"

text \<open>Besides the new state, the children whose handles \<open>ussr_child_close\<close> abandons.\<close>

definition ussr_eq_cleanup :: "eq_state \<Rightarrow> int list \<times> eq_state" where
  "ussr_eq_cleanup s =
     (map ch_pid (eq_children s), s\<lparr>eq_timers := [], eq_children := [], eq_fds := []\<rparr>)"

definition ussr_eq_add_timer :: "int \<Rightarrow> 64 word \<Rightarrow> eq_state \<Rightarrow> 64 word \<times> eq_state" where
  "ussr_eq_add_timer owner_pid deadline_ms s =
     (eq_next_token s,
      s\<lparr>eq_timers := eq_timers s @
           [\<lparr>tm_owner = owner_pid, tm_token = eq_next_token s, tm_deadline = deadline_ms\<rparr>],
        eq_next_token := eq_next_token s + 1\<rparr>)"

definition ussr_eq_add_fd :: "int \<Rightarrow> int \<Rightarrow> bool \<Rightarrow> eq_state \<Rightarrow> 64 word \<times> eq_state" where
  "ussr_eq_add_fd owner_pid handle write_ready s =
     (if handle < 1 then (0, s)
      else (eq_next_token s,
        s\<lparr>eq_fds := eq_fds s @
             [\<lparr>fd_owner = owner_pid, fd_token = eq_next_token s, fd_handle = handle,
               fd_write = write_ready\<rparr>],
          eq_next_token := eq_next_token s + 1\<rparr>))"

definition ussr_eq_add_child :: "int \<Rightarrow> int \<Rightarrow> eq_state \<Rightarrow> 64 word \<times> eq_state" where
  "ussr_eq_add_child owner_pid child s =
     (eq_next_token s,
      s\<lparr>eq_children := eq_children s @
           [\<lparr>ch_owner = owner_pid, ch_token = eq_next_token s, ch_pid = child,
             ch_reaped = False, ch_exit = 0\<rparr>],
        eq_next_token := eq_next_token s + 1\<rparr>)"

text \<open>The loops of \<open>ussr_eq_cancel\<close>: the first entry with the token leaves its list.\<close>

fun remove_first :: "('a \<Rightarrow> bool) \<Rightarrow> 'a list \<Rightarrow> ('a \<times> 'a list) option" where
  "remove_first p [] = None"
| "remove_first p (x # xs) =
     (if p x then Some (x, xs) else map_option (map_prod id ((#) x)) (remove_first p xs))"

definition ussr_eq_cancel :: "64 word \<Rightarrow> eq_state \<Rightarrow> int \<times> int list \<times> eq_state" where
  "ussr_eq_cancel token s =
     (case remove_first (\<lambda>t. tm_token t = token) (eq_timers s) of
        Some (_, ts) \<Rightarrow> (0, [], s\<lparr>eq_timers := ts\<rparr>)
      | None \<Rightarrow>
     (case remove_first (\<lambda>c. ch_token c = token) (eq_children s) of
        Some (c, cs) \<Rightarrow> (0, [ch_pid c], s\<lparr>eq_children := cs\<rparr>)
      | None \<Rightarrow>
     (case remove_first (\<lambda>f. fd_token f = token) (eq_fds s) of
        Some (_, fs) \<Rightarrow> (0, [], s\<lparr>eq_fds := fs\<rparr>)
      | None \<Rightarrow> (-1, [], s))))"

definition ussr_eq_pending :: "eq_state \<Rightarrow> bool" where
  "ussr_eq_pending s \<longleftrightarrow> eq_timers s \<noteq> [] \<or> eq_children s \<noteq> [] \<or> eq_fds s \<noteq> []"

fun nearest_deadline :: "64 word \<Rightarrow> eq_timer list \<Rightarrow> 64 word" where
  "nearest_deadline nearest [] = nearest"
| "nearest_deadline nearest (t # ts) =
     nearest_deadline (if tm_deadline t < nearest then tm_deadline t else nearest) ts"

definition ussr_eq_next_timeout_ms :: "64 word \<Rightarrow> eq_state \<Rightarrow> int" where
  "ussr_eq_next_timeout_ms now s =
     (case eq_timers s of
        [] \<Rightarrow> -1
      | t # ts \<Rightarrow>
          let nearest = nearest_deadline (tm_deadline t) ts
          in if nearest \<le> now then 0
             else if 2147483647 < nearest - now then 2147483647
             else uint (nearest - now))"

section \<open>Dispatch\<close>

text \<open>The result of the operating system's \<open>waitpid(pid, \&status, WNOHANG)\<close>.\<close>

datatype wait_result = Running | Interrupted | Failed | Exited int | Signaled int | OtherStatus

text \<open>Result, exit code and the handle afterwards.\<close>

definition ussr_child_poll :: "(int \<Rightarrow> wait_result) \<Rightarrow> int \<Rightarrow> int \<times> int \<times> int" where
  "ussr_child_poll waitpid pid =
     (if pid \<le> 0 then (-1, 0, pid)
      else case waitpid pid of
             Running \<Rightarrow> (0, 0, pid)
           | Interrupted \<Rightarrow> (0, 0, pid)
           | Failed \<Rightarrow> (-1, 0, -1)
           | Exited n \<Rightarrow> (1, n, -1)
           | Signaled n \<Rightarrow> (1, 128 + n, -1)
           | OtherStatus \<Rightarrow> (1, -1, -1))"

text \<open>The bounded wait before events are collected; it changes no queue state.\<close>

definition dispatch_wait_ms :: "int \<Rightarrow> eq_state \<Rightarrow> int" where
  "dispatch_wait_ms timeout_ms s =
     (if eq_children s \<noteq> [] \<and> (timeout_ms < 0 \<or> 10 < timeout_ms) then 10 else timeout_ms)"

text \<open>
  Each collecting loop walks its list with the room left in \<open>out\<close>: a fired entry becomes an
  event and leaves the list, the others stay in order; when the room is used up the rest of the
  list is not looked at.
\<close>

fun fire_timers :: "64 word \<Rightarrow> nat \<Rightarrow> eq_timer list \<Rightarrow> eq_event list \<times> eq_timer list" where
  "fire_timers now room [] = ([], [])"
| "fire_timers now room (t # ts) =
     (if room = 0 then ([], t # ts)
      else if tm_deadline t \<le> now then
        (let (es, rest) = fire_timers now (room - 1) ts
         in (\<lparr>ev_kind = EQ_TIMER, ev_owner = tm_owner t, ev_exit = 0, ev_token = tm_token t\<rparr> # es,
             rest))
      else (let (es, rest) = fire_timers now room ts in (es, t # rest)))"

definition poll_child :: "(int \<Rightarrow> wait_result) \<Rightarrow> eq_child \<Rightarrow> eq_child" where
  "poll_child waitpid c =
     (if ch_reaped c then c
      else let (r, code, pid) = ussr_child_poll waitpid (ch_pid c)
           in if r \<noteq> 0
              then c\<lparr>ch_pid := pid, ch_reaped := True, ch_exit := (if r = 1 then code else -1)\<rparr>
              else c\<lparr>ch_pid := pid\<rparr>)"

fun fire_children ::
  "(int \<Rightarrow> wait_result) \<Rightarrow> nat \<Rightarrow> eq_child list \<Rightarrow> eq_event list \<times> eq_child list" where
  "fire_children waitpid room [] = ([], [])"
| "fire_children waitpid room (c # cs) =
     (if room = 0 then ([], c # cs)
      else let c' = poll_child waitpid c in
        if ch_reaped c' then
          (let (es, rest) = fire_children waitpid (room - 1) cs
           in (\<lparr>ev_kind = EQ_CHILD, ev_owner = ch_owner c', ev_exit = ch_exit c',
                ev_token = ch_token c'\<rparr> # es, rest))
        else (let (es, rest) = fire_children waitpid room cs in (es, c' # rest)))"

text \<open>\<open>fd_poll\<close> gives the result of \<open>ussr_socket_poll\<close> on one handle and whether \<open>revents\<close> is set.\<close>

fun fire_fds ::
  "(int \<Rightarrow> bool \<Rightarrow> int \<times> bool) \<Rightarrow> nat \<Rightarrow> eq_fd list \<Rightarrow> eq_event list \<times> eq_fd list" where
  "fire_fds fd_poll room [] = ([], [])"
| "fire_fds fd_poll room (f # fs) =
     (if room = 0 then ([], f # fs)
      else let (result, ready) = fd_poll (fd_handle f) (fd_write f) in
        if result < 0 \<or> ready then
          (let (es, rest) = fire_fds fd_poll (room - 1) fs
           in (\<lparr>ev_kind = (if fd_write f then EQ_WRITABLE else EQ_READABLE), ev_owner = fd_owner f,
                ev_exit = (if result < 0 then -1 else 0), ev_token = fd_token f\<rparr> # es, rest))
        else (let (es, rest) = fire_fds fd_poll room fs in (es, f # rest)))"

definition ussr_eq_dispatch ::
  "64 word \<Rightarrow> (int \<Rightarrow> wait_result) \<Rightarrow> (int \<Rightarrow> bool \<Rightarrow> int \<times> bool) \<Rightarrow> nat \<Rightarrow> eq_state \<Rightarrow>
   eq_event list \<times> eq_state" where
  "ussr_eq_dispatch now waitpid fd_poll max_events s =
     (let (e1, ts) = fire_timers now max_events (eq_timers s);
          (e2, cs) = fire_children waitpid (max_events - length e1) (eq_children s);
          (e3, fs) = fire_fds fd_poll (max_events - length e1 - length e2) (eq_fds s)
      in (e1 @ e2 @ e3, s\<lparr>eq_timers := ts, eq_children := cs, eq_fds := fs\<rparr>))"

section \<open>Tokens\<close>

definition eq_tokens :: "eq_state \<Rightarrow> 64 word list" where
  "eq_tokens s = map tm_token (eq_timers s) @ map ch_token (eq_children s) @ map fd_token (eq_fds s)"

definition eq_ok :: "eq_state \<Rightarrow> bool" where
  "eq_ok s \<longleftrightarrow> distinct (eq_tokens s) \<and> 0 < eq_next_token s \<and>
     (\<forall>t\<in>set (eq_tokens s). 0 < t \<and> t < eq_next_token s)"

lemma mset_fire_timers:
  "fire_timers now room ts = (es, rest) \<Longrightarrow>
   mset (map tm_token ts) = mset (map ev_token es) + mset (map tm_token rest) \<and> length es \<le> room"
  by (induction now room ts arbitrary: es rest rule: fire_timers.induct)
     (fastforce split: if_splits prod.splits)+

lemma ch_token_poll_child [simp]: "ch_token (poll_child w c) = ch_token c"
  by (simp add: poll_child_def split_def Let_def)

lemma mset_fire_children:
  "fire_children w room cs = (es, rest) \<Longrightarrow>
   mset (map ch_token cs) = mset (map ev_token es) + mset (map ch_token rest) \<and> length es \<le> room"
  by (induction w room cs arbitrary: es rest rule: fire_children.induct)
     (fastforce simp: Let_def split: if_splits prod.splits)+

lemma mset_fire_fds:
  "fire_fds p room fs = (es, rest) \<Longrightarrow>
   mset (map fd_token fs) = mset (map ev_token es) + mset (map fd_token rest) \<and> length es \<le> room"
  by (induction p room fs arbitrary: es rest rule: fire_fds.induct)
     (fastforce simp: Let_def split: if_splits prod.splits)+

lemma dispatch_conserves:
  assumes "ussr_eq_dispatch now w p n s = (es, s')"
  shows "mset (eq_tokens s) = mset (map ev_token es) + mset (eq_tokens s') \<and> length es \<le> n"
proof -
  obtain e1 ts where 1: "fire_timers now n (eq_timers s) = (e1, ts)" by fastforce
  obtain e2 cs where 2: "fire_children w (n - length e1) (eq_children s) = (e2, cs)" by fastforce
  obtain e3 fs where 3: "fire_fds p (n - length e1 - length e2) (eq_fds s) = (e3, fs)"
    by fastforce
  have eq: "es = e1 @ e2 @ e3" "s' = s\<lparr>eq_timers := ts, eq_children := cs, eq_fds := fs\<rparr>"
    using assms by (auto simp: ussr_eq_dispatch_def 1 2 3 simp del: diff_diff_left)
  from mset_fire_timers[OF 1] mset_fire_children[OF 2] mset_fire_fds[OF 3]
  show ?thesis by (auto simp: eq eq_tokens_def)
qed

type_synonym dispatch_input =
  "64 word \<times> (int \<Rightarrow> wait_result) \<times> (int \<Rightarrow> bool \<Rightarrow> int \<times> bool) \<times> nat"

definition collect_tokens :: "dispatch_input \<Rightarrow> eq_state \<Rightarrow> 64 word list \<times> eq_state" where
  "collect_tokens = (\<lambda>(now, w, p, n) s. map_prod (map ev_token) id (ussr_eq_dispatch now w p n s))"

interpretation eventq: one_shot_source "\<lambda>s. mset (eq_tokens s)" collect_tokens
proof
  fix s and i :: dispatch_input
  obtain now w p n where i: "i = (now, w, p, n)" by (metis prod_cases4)
  obtain es s' where d: "ussr_eq_dispatch now w p n s = (es, s')" by fastforce
  from dispatch_conserves[OF d]
  show "mset (eq_tokens s) =
    mset (fst (collect_tokens i s)) + mset (eq_tokens (snd (collect_tokens i s)))"
    by (simp add: collect_tokens_def i d)
qed

section \<open>Registration and cancelling keep the tokens in order\<close>

lemma eq_ok_init: "eq_ok ussr_eq_init"
  by (simp add: eq_ok_def ussr_eq_init_def eq_tokens_def)

lemma eq_okI_add:
  assumes "eq_ok s" "eq_next_token s \<noteq> - 1"
    "mset (eq_tokens s') = add_mset (eq_next_token s) (mset (eq_tokens s))"
    "eq_next_token s' = eq_next_token s + 1"
  shows "eq_ok s'"
proof -
  have set': "set (eq_tokens s') = insert (eq_next_token s) (set (eq_tokens s))"
    using assms(3) by (metis set_mset_add_mset_insert set_mset_mset)
  have "eq_next_token s \<notin> set (eq_tokens s)" using assms(1) by (auto simp: eq_ok_def)
  then have "distinct (eq_next_token s # eq_tokens s)" using assms(1) by (simp add: eq_ok_def)
  then have "distinct (eq_tokens s')"
    using assms(3) by (metis mset.simps(2) mset_eq_imp_distinct_iff)
  moreover have "eq_next_token s < eq_next_token s + 1"
    using assms(2) by (rule word_less_succ)
  ultimately show ?thesis using assms(1,4) set' by (auto simp: eq_ok_def)
qed

lemma eq_ok_add_timer:
  "eq_ok s \<Longrightarrow> eq_next_token s \<noteq> - 1 \<Longrightarrow> eq_ok (snd (ussr_eq_add_timer ow d s))"
  by (rule eq_okI_add[of s]) (simp_all add: ussr_eq_add_timer_def eq_tokens_def)

lemma eq_ok_add_child:
  "eq_ok s \<Longrightarrow> eq_next_token s \<noteq> - 1 \<Longrightarrow> eq_ok (snd (ussr_eq_add_child ow d s))"
  by (rule eq_okI_add[of s]) (simp_all add: ussr_eq_add_child_def eq_tokens_def)

lemma eq_ok_add_fd:
  "eq_ok s \<Longrightarrow> eq_next_token s \<noteq> - 1 \<Longrightarrow> eq_ok (snd (ussr_eq_add_fd ow h wr s))"
  by (cases "h < 1", simp add: ussr_eq_add_fd_def, rule eq_okI_add[of s])
     (simp_all add: ussr_eq_add_fd_def eq_tokens_def)

lemma eq_ok_sub:
  "eq_ok s \<Longrightarrow> mset (eq_tokens s) = mset xs + mset (eq_tokens s') \<Longrightarrow>
   eq_next_token s' = eq_next_token s \<Longrightarrow> eq_ok s'"
proof -
  assume ok: "eq_ok s" and m: "mset (eq_tokens s) = mset xs + mset (eq_tokens s')"
    and n: "eq_next_token s' = eq_next_token s"
  have eq: "mset (eq_tokens s) = mset (xs @ eq_tokens s')" using m by simp
  have "distinct (xs @ eq_tokens s')"
    using ok mset_eq_imp_distinct_iff[OF eq] by (simp add: eq_ok_def)
  then show ?thesis using ok n mset_eq_setD[OF eq] by (simp add: eq_ok_def)
qed

lemma dispatch_next_token:
  "ussr_eq_dispatch now w p n s = (es, s') \<Longrightarrow> eq_next_token s' = eq_next_token s"
  by (auto simp: ussr_eq_dispatch_def split_def Let_def)

lemma eq_ok_dispatch:
  "ussr_eq_dispatch now w p n s = (es, s') \<Longrightarrow> eq_ok s \<Longrightarrow> eq_ok s'"
  using dispatch_conserves dispatch_next_token eq_ok_sub by blast

lemma remove_first_Some:
  "remove_first (\<lambda>x. f x = k) xs = Some (x, ys) \<Longrightarrow>
   f x = k \<and> x \<in> set xs \<and> map f ys = remove1 k (map f xs) \<and> k \<in> set (map f xs)"
  by (induction xs arbitrary: ys) (auto split: if_splits)

lemma remove_first_None:
  "remove_first (\<lambda>x. f x = k) xs = None \<longleftrightarrow> k \<notin> set (map f xs)"
  by (induction xs) auto

lemma cancel_tokens:
  assumes "ussr_eq_cancel k s = (r, cl, s')"
  shows "r = (if k \<in> set (eq_tokens s) then 0 else -1) \<and> eq_tokens s' = remove1 k (eq_tokens s) \<and>
    eq_next_token s' = eq_next_token s"
proof (cases "remove_first (\<lambda>t. tm_token t = k) (eq_timers s)")
  case (Some a)
  then obtain t ts where "remove_first (\<lambda>t. tm_token t = k) (eq_timers s) = Some (t, ts)"
    by (cases a) simp
  with remove_first_Some[OF this] assms show ?thesis
    by (simp add: ussr_eq_cancel_def eq_tokens_def remove1_append del: set_map) auto
next
  case T: None
  note nT = T[unfolded remove_first_None]
  show ?thesis
  proof (cases "remove_first (\<lambda>c. ch_token c = k) (eq_children s)")
    case (Some a)
    then obtain c cs where "remove_first (\<lambda>c. ch_token c = k) (eq_children s) = Some (c, cs)"
      by (cases a) simp
    with remove_first_Some[OF this] assms T nT show ?thesis
      by (simp add: ussr_eq_cancel_def eq_tokens_def remove1_append del: set_map) auto
  next
    case C: None
    note nC = C[unfolded remove_first_None]
    show ?thesis
    proof (cases "remove_first (\<lambda>f. fd_token f = k) (eq_fds s)")
      case (Some a)
      then obtain f fs where "remove_first (\<lambda>f. fd_token f = k) (eq_fds s) = Some (f, fs)"
        by (cases a) simp
      with remove_first_Some[OF this] assms T C nT nC show ?thesis
        by (simp add: ussr_eq_cancel_def eq_tokens_def remove1_append del: set_map) auto
    next
      case None
      with assms T C nT nC None[unfolded remove_first_None] show ?thesis
        by (simp add: ussr_eq_cancel_def eq_tokens_def remove1_append remove1_idem del: set_map)
    qed
  qed
qed

lemma eq_ok_cancel: "ussr_eq_cancel k s = (r, cl, s') \<Longrightarrow> eq_ok s \<Longrightarrow> eq_ok s'"
  using cancel_tokens[of k s r cl s'] set_remove1_subset[of k "eq_tokens s"]
  by (auto simp: eq_ok_def)

section \<open>Reachable queues\<close>

text \<open>
  Any interleaving of the operations. \<open>eq_next_token\<close> is a 64-bit counter; a registration that
  would wrap it (after \<open>2 ^ 64 - 1\<close> registrations) is outside the relation.
\<close>

inductive eq_reachable :: "eq_state \<Rightarrow> bool" where
  reach_init: "eq_reachable ussr_eq_init"
| reach_cleanup: "eq_reachable s \<Longrightarrow> eq_reachable (snd (ussr_eq_cleanup s))"
| reach_timer: "eq_reachable s \<Longrightarrow> eq_next_token s \<noteq> - 1 \<Longrightarrow>
    eq_reachable (snd (ussr_eq_add_timer pid deadline s))"
| reach_child: "eq_reachable s \<Longrightarrow> eq_next_token s \<noteq> - 1 \<Longrightarrow>
    eq_reachable (snd (ussr_eq_add_child pid child s))"
| reach_fd: "eq_reachable s \<Longrightarrow> eq_next_token s \<noteq> - 1 \<Longrightarrow>
    eq_reachable (snd (ussr_eq_add_fd pid handle wr s))"
| reach_cancel: "eq_reachable s \<Longrightarrow> ussr_eq_cancel k s = (r, cl, s') \<Longrightarrow> eq_reachable s'"
| reach_dispatch: "eq_reachable s \<Longrightarrow> ussr_eq_dispatch now w p n s = (es, s') \<Longrightarrow> eq_reachable s'"

lemma eq_ok_cleanup: "eq_ok s \<Longrightarrow> eq_ok (snd (ussr_eq_cleanup s))"
  by (simp add: eq_ok_def ussr_eq_cleanup_def eq_tokens_def)

lemma eq_reachable_ok: "eq_reachable s \<Longrightarrow> eq_ok s"
  by (induction rule: eq_reachable.induct)
     (auto intro: eq_ok_init eq_ok_cleanup eq_ok_add_timer eq_ok_add_child eq_ok_add_fd
        eq_ok_cancel eq_ok_dispatch)

fun dispatch_all :: "dispatch_input list \<Rightarrow> eq_state \<Rightarrow> eq_event list \<times> eq_state" where
  "dispatch_all [] s = ([], s)"
| "dispatch_all ((now, waitpid, fd_poll, max_events) # is) s =
     (let (es, s1) = ussr_eq_dispatch now waitpid fd_poll max_events s;
          (es', s2) = dispatch_all is s1
      in (es @ es', s2))"

lemma collect_tokens_dispatch:
  "collect_tokens (now, w, p, n) s = map_prod (map ev_token) id (ussr_eq_dispatch now w p n s)"
  by (simp add: collect_tokens_def)

lemma dispatch_all_collect:
  "eventq.collect_all is s = map_prod (map ev_token) id (dispatch_all is s)"
proof (induction "is" arbitrary: s)
  case (Cons i "is")
  obtain now w p n where i: "i = (now, w, p, n)" by (metis prod_cases4)
  show ?case
    by (simp add: i collect_tokens_dispatch split_def Let_def map_prod_def Cons.IH)
qed simp

text \<open>
  C26: in every reachable queue the tokens of all pending timers, children and handles are nonzero
  and pairwise distinct, and over any sequence of dispatches, with any clock, child and
  socket behaviour, each registration is reported at most once, was pending and is not pending
  afterwards.
\<close>

theorem eventq_reports_once:
  assumes "eq_reachable s" and "dispatch_all is s = (es, s')"
  shows "distinct (eq_tokens s) \<and> 0 \<notin> set (eq_tokens s) \<and> distinct (map ev_token es) \<and>
    (\<forall>e\<in>set es. ev_token e \<in> set (eq_tokens s) \<and> ev_token e \<notin> set (eq_tokens s'))"
proof -
  have ok: "eq_ok s" using assms(1) by (rule eq_reachable_ok)
  have "count (mset (eq_tokens s)) k \<le> 1" for k
    using ok by (simp add: eq_ok_def distinct_count_atmost_1)
  from eventq.reported_once[of s "is", OF this] ok assms(2) show ?thesis
    by (auto simp: dispatch_all_collect eq_ok_def)
qed

theorem eventq_reports_once_witness:
  "let s = snd (ussr_eq_add_timer 7 100 ussr_eq_init);
       i = (150, \<lambda>_. Running, \<lambda>_ _. (0, False), 4)
   in map ev_token (fst (dispatch_all [i, i] s)) = [1] \<and> distinct (map ev_token (fst (dispatch_all [i, i] s)))"
proof -
  let ?s = "snd (ussr_eq_add_timer 7 100 ussr_eq_init)"
  let ?i = "(150, \<lambda>_. Running, \<lambda>_ _. (0, False), 4) :: dispatch_input"
  have "eq_reachable ?s" by (rule reach_timer[OF reach_init]) (simp add: ussr_eq_init_def)
  from eventq_reports_once[OF this prod.collapse[symmetric], of "[?i, ?i]"]
  have "distinct (map ev_token (fst (dispatch_all [?i, ?i] ?s)))" by blast
  moreover have "map ev_token (fst (dispatch_all [?i, ?i] ?s)) = [1]"
    by (simp add: ussr_eq_dispatch_def ussr_eq_add_timer_def ussr_eq_init_def)
  ultimately show ?thesis by (simp add: Let_def)
qed

section \<open>Timers\<close>

lemma nearest_deadline_le:
  "nearest_deadline d ts \<le> d \<and> (\<forall>t\<in>set ts. nearest_deadline d ts \<le> tm_deadline t)"
proof (induction d ts rule: nearest_deadline.induct)
  case (2 d t ts)
  let ?m = "if tm_deadline t < d then tm_deadline t else d"
  have "nearest_deadline ?m ts \<le> ?m" "?m \<le> d" "?m \<le> tm_deadline t" using 2 by auto
  then have "nearest_deadline ?m ts \<le> d" "nearest_deadline ?m ts \<le> tm_deadline t"
    by (blast intro: order.trans)+
  then show ?case using 2 by simp
qed simp

lemma nearest_deadline_in:
  "nearest_deadline d ts = d \<or> nearest_deadline d ts \<in> tm_deadline ` set ts"
  by (induction d ts rule: nearest_deadline.induct) auto

text \<open>The earliest deadline of a queue, the value the loop of \<open>ussr_eq_next_timeout_ms\<close> computes.\<close>

definition earliest :: "eq_state \<Rightarrow> 64 word" where
  "earliest s = nearest_deadline (tm_deadline (hd (eq_timers s))) (tl (eq_timers s))"

lemma earliest:
  "t \<in> set (eq_timers s) \<Longrightarrow> earliest s \<le> tm_deadline t"
  "eq_timers s \<noteq> [] \<Longrightarrow> \<exists>t\<in>set (eq_timers s). tm_deadline t = earliest s"
  using nearest_deadline_le[of "tm_deadline (hd (eq_timers s))" "tl (eq_timers s)"]
    nearest_deadline_in[of "tm_deadline (hd (eq_timers s))" "tl (eq_timers s)"]
  by (cases "eq_timers s"; auto simp: earliest_def)+

lemma next_timeout_earliest:
  "eq_timers s \<noteq> [] \<Longrightarrow> ussr_eq_next_timeout_ms now s =
     (if earliest s \<le> now then 0 else min 2147483647 (uint (earliest s - now)))"
  by (cases "eq_timers s")
     (auto simp: ussr_eq_next_timeout_ms_def earliest_def Let_def word_less_def min_def)

text \<open>
  C28: the wait the queue asks for is exact. It is \<open>-1\<close> exactly when there is no timer;
  otherwise it is the least time left to any timer's deadline (0 for a deadline that has
  passed), capped at \<open>INT32_MAX\<close>: no timer becomes due before the wait ends, and a wait below the
  cap ends when the earliest timer is due.
\<close>

theorem next_timeout_exact:
  "ussr_eq_next_timeout_ms now s =
     (if eq_timers s = [] then -1
      else min 2147483647
        (Min ((\<lambda>t. max 0 (uint (tm_deadline t) - uint now)) ` set (eq_timers s))))"
proof (cases "eq_timers s = []")
  case True
  then show ?thesis by (simp add: ussr_eq_next_timeout_ms_def)
next
  case False
  let ?d = "\<lambda>t. max 0 (uint (tm_deadline t) - uint now)"
  let ?e = "max 0 (uint (earliest s) - uint now)"
  have T: "ussr_eq_next_timeout_ms now s = min 2147483647 ?e"
    using next_timeout_earliest[OF False, of now]
    by (auto simp: word_le_def uint_sub_if_size)
  have "Min (?d ` set (eq_timers s)) = ?e"
  proof (rule Min_eqI)
    show "?e \<in> ?d ` set (eq_timers s)" using earliest(2)[OF False] by force
    fix y assume "y \<in> ?d ` set (eq_timers s)"
    then obtain u where "u \<in> set (eq_timers s)" "y = ?d u" by blast
    then show "?e \<le> y" using earliest(1)[of u s] by (auto simp: word_le_def)
  qed simp
  then show ?thesis using T False by simp
qed

definition timer_event :: "eq_timer \<Rightarrow> eq_event" where
  "timer_event t =
     \<lparr>ev_kind = EQ_TIMER, ev_owner = tm_owner t, ev_exit = 0, ev_token = tm_token t\<rparr>"

lemma fire_timers_eq:
  "fst (fire_timers now room ts) =
     map timer_event (take room (filter (\<lambda>t. tm_deadline t \<le> now) ts))"
  by (induction now room ts rule: fire_timers.induct)
     (auto simp: split_def Let_def timer_event_def take_Cons' split: nat.split)

lemma fire_timers_left:
  "length (fst (fire_timers now room ts)) < room \<Longrightarrow>
   snd (fire_timers now room ts) = filter (\<lambda>t. now < tm_deadline t) ts"
  by (induction now room ts rule: fire_timers.induct)
     (auto simp: split_def Let_def not_le split: if_splits)

lemma fire_timers_events:
  "e \<in> set (fst (fire_timers now room ts)) \<Longrightarrow>
   \<exists>t\<in>set ts. tm_token t = ev_token e \<and> tm_owner t = ev_owner e \<and> tm_deadline t \<le> now"
  by (auto simp: fire_timers_eq timer_event_def dest!: in_set_takeD)

lemma fire_children_kind:
  "fire_children w room cs = (es, rest) \<Longrightarrow> \<forall>e\<in>set es. ev_kind e = EQ_CHILD"
  by (induction w room cs arbitrary: es rest rule: fire_children.induct)
     (fastforce simp: Let_def split: if_splits prod.splits)+

lemma fire_fds_kind:
  "fire_fds p room fs = (es, rest) \<Longrightarrow> \<forall>e\<in>set es. ev_kind e = EQ_READABLE \<or> ev_kind e = EQ_WRITABLE"
  by (induction p room fs arbitrary: es rest rule: fire_fds.induct)
     (fastforce simp: Let_def split: if_splits prod.splits)+

text \<open>
  C27: timers fire neither early nor late. Every timer event of a dispatch belongs to a
  pending timer of that owner whose deadline has passed; the dispatch never writes more than
  \<open>max\<close> events; and when it returns fewer, no due timer is left in the queue.
\<close>

theorem timers_fire_on_time:
  assumes "ussr_eq_dispatch now waitpid fd_poll max_events s = (es, s')"
  shows "length es \<le> max_events \<and>
    (\<forall>e\<in>set es. ev_kind e = EQ_TIMER \<longrightarrow>
       (\<exists>t\<in>set (eq_timers s). tm_token t = ev_token e \<and> tm_owner t = ev_owner e \<and>
          tm_deadline t \<le> now)) \<and>
    (length es < max_events \<longrightarrow> (\<forall>t\<in>set (eq_timers s'). now < tm_deadline t))"
proof -
  obtain e1 ts where 1: "fire_timers now max_events (eq_timers s) = (e1, ts)" by fastforce
  obtain e2 cs where 2: "fire_children waitpid (max_events - length e1) (eq_children s) = (e2, cs)"
    by fastforce
  obtain e3 fs where 3: "fire_fds fd_poll (max_events - length e1 - length e2) (eq_fds s) = (e3, fs)"
    by fastforce
  have eq: "es = e1 @ e2 @ e3" "eq_timers s' = ts"
    using assms by (auto simp: ussr_eq_dispatch_def 1 2 3 simp del: diff_diff_left)
  have "length es \<le> max_events" using dispatch_conserves[OF assms] by simp
  moreover have "\<exists>t\<in>set (eq_timers s). tm_token t = ev_token e \<and> tm_owner t = ev_owner e \<and>
      tm_deadline t \<le> now" if "e \<in> set es" "ev_kind e = EQ_TIMER" for e
  proof -
    have "e \<in> set e1"
      using that fire_children_kind[OF 2] fire_fds_kind[OF 3] by (auto simp: eq)
    then show ?thesis using fire_timers_events[of e now max_events "eq_timers s"] by (simp add: 1)
  qed
  moreover have "ts = filter (\<lambda>t. now < tm_deadline t) (eq_timers s)" if "length es < max_events"
    using that fire_timers_left[of now max_events "eq_timers s"] by (simp add: 1 eq)
  ultimately show ?thesis by (auto simp: eq)
qed

theorem timers_fire_on_time_witness:
  "let s = snd (ussr_eq_add_timer 8 300 (snd (ussr_eq_add_timer 7 100 ussr_eq_init)));
       r = ussr_eq_dispatch 150 (\<lambda>_. Running) (\<lambda>_ _. (0, False)) 4 s
   in map ev_token (fst r) = [1] \<and> map tm_token (eq_timers (snd r)) = [2] \<and>
      (\<forall>t\<in>set (eq_timers (snd r)). 150 < tm_deadline t)"
proof -
  let ?s = "snd (ussr_eq_add_timer 8 300 (snd (ussr_eq_add_timer 7 100 ussr_eq_init)))"
  let ?r = "ussr_eq_dispatch 150 (\<lambda>_. Running) (\<lambda>_ _. (0, False)) 4 ?s"
  have r: "map ev_token (fst ?r) = [1]" "map tm_token (eq_timers (snd ?r)) = [2]"
    by (simp_all add: ussr_eq_dispatch_def ussr_eq_add_timer_def ussr_eq_init_def)
  have "length (fst ?r) < 4" using arg_cong[OF r(1), of length] by simp
  with timers_fire_on_time[of 150 "\<lambda>_. Running" "\<lambda>_ _. (0, False)" 4 ?s "fst ?r" "snd ?r"] r
  show ?thesis by (simp add: Let_def)
qed

text \<open>
  C29: cancelling removes exactly the registration with the given token. It answers 0 exactly
  when the token was pending; afterwards the token is gone and every other registration is
  still there, in order.
\<close>

theorem cancel_removes_token:
  assumes "eq_reachable s" and "ussr_eq_cancel token s = (r, closed, s')"
  shows "(r = 0 \<longleftrightarrow> token \<in> set (eq_tokens s)) \<and> (r = 0 \<or> r = -1) \<and>
    eq_tokens s' = filter (\<lambda>t. t \<noteq> token) (eq_tokens s)"
  using cancel_tokens[OF assms(2)] eq_reachable_ok[OF assms(1)]
  by (simp add: eq_ok_def distinct_remove1_removeAll removeAll_filter_not_eq)
     (metis)

theorem cancel_removes_token_witness:
  "let s = snd (ussr_eq_add_child 8 33 (snd (ussr_eq_add_timer 7 100 ussr_eq_init)));
       (r, closed, s') = ussr_eq_cancel 2 s
   in r = 0 \<and> closed = [33] \<and> eq_tokens s' = [1]"
proof -
  let ?s1 = "snd (ussr_eq_add_timer 7 100 ussr_eq_init)"
  let ?s = "snd (ussr_eq_add_child 8 33 ?s1)"
  have 1: "eq_reachable ?s1" by (rule reach_timer[OF reach_init]) (simp add: ussr_eq_init_def)
  have s: "eq_reachable ?s"
    by (rule reach_child[OF 1]) (simp add: ussr_eq_init_def ussr_eq_add_timer_def)
  obtain r closed s' where c: "ussr_eq_cancel 2 ?s = (r, closed, s')" by (metis prod_cases3)
  have t: "eq_tokens ?s = [1, 2]"
    by (simp add: eq_tokens_def ussr_eq_add_child_def ussr_eq_add_timer_def ussr_eq_init_def)
  have "closed = [33]"
    using c by (simp add: ussr_eq_cancel_def ussr_eq_add_child_def ussr_eq_add_timer_def
      ussr_eq_init_def)
  with cancel_removes_token[OF s c] t c show ?thesis by simp
qed

end
