(* ===== verification/Scheduler.thy ===== *)
theory Scheduler
  imports EventQ Bytecode Doubles
begin

text \<open>
  The process scheduler, \<open>src/scheduler.c\<close>: the process table, the run queue of 64 levels with its
  bitmap, blocking and waking, the commands a program reaches it by, and the loop that runs
  one process for a time slice or waits for events. The build is the one without windows
  (\<open>USSR_WITH_GLFW\<close> not defined), where the Petersburg pump does nothing.

  What a process computes inside a slice is left open: an instruction may leave any registers,
  a slice may end in any way. Pointers to processes are their ids, which are unique. Left out
  are allocation failure, variable scopes, the reference counts of programs, and the marking
  of roots for the collector, none of which decide what runs.
\<close>

section \<open>Processes\<close>

definition USSR_SCHED_LEVELS :: nat where "USSR_SCHED_LEVELS = 64"
definition USSR_SCHED_DEFAULT_PRIORITY :: nat where "USSR_SCHED_DEFAULT_PRIORITY = 32"
definition USSR_SCHED_QUANTUM :: nat where "USSR_SCHED_QUANTUM = 10000"
definition USSR_EQ_MAX_FIRED :: nat where "USSR_EQ_MAX_FIRED = 64"

datatype ussr_proc_state =
    USSR_PROC_NEW
  | USSR_PROC_RUNNABLE
  | USSR_PROC_RUNNING
  | USSR_PROC_SLEEPING
  | USSR_PROC_WAITING
  | USSR_PROC_ZOMBIE

datatype ussr_block_kind =
    USSR_BLOCK_NONE
  | USSR_BLOCK_AWAIT
  | USSR_BLOCK_TIMER
  | USSR_BLOCK_CHILD
  | USSR_BLOCK_SOCKET

text \<open>The virtual machine of a process, as far as the scheduler and it meet.\<close>

record ussr_vm =
  vm_registers :: "ussr_value list"
  vm_exit_code :: int
  vm_entry_function :: int
  yield_request :: bool
  resume_pending :: bool
  resume_register :: nat
  resume_value :: ussr_value

definition vm_init :: ussr_vm where
  "vm_init = \<lparr>vm_registers = replicate USSR_BC_MAX_REGS USSR_NULL, vm_exit_code = 0, vm_entry_function = -1,
     yield_request = False, resume_pending = False, resume_register = 0, resume_value = USSR_NULL\<rparr>"

record ussr_proc =
  proc_pid :: int
  proc_name :: string
  proc_priority :: nat
  proc_state :: ussr_proc_state
  proc_vm :: ussr_vm
  proc_program :: ussr_bc_program
  proc_block_kind :: ussr_block_kind
  proc_wait_pid :: int
  proc_block_token :: "64 word"
  proc_result :: ussr_value
  proc_exit_code :: int

text \<open>
  The process table is in the order of \<open>next_all\<close>, a run queue level the list from its head along
  \<open>next_run\<close> to its tail.
\<close>

record sched =
  sched_procs :: "ussr_proc list"
  sched_next_pid :: int
  sched_main_pid :: int
  sched_current :: "int option"
  sched_runq :: "nat \<Rightarrow> int list"
  sched_bitmap :: "64 word"
  sched_marks :: "string list"
  sched_eq :: eq_state

definition ussr_sched_init :: sched where
  "ussr_sched_init = \<lparr>sched_procs = [], sched_next_pid = 1, sched_main_pid = 0, sched_current = None,
     sched_runq = (\<lambda>level. []), sched_bitmap = 0, sched_marks = [], sched_eq = ussr_eq_init\<rparr>"

definition ussr_sched_find :: "int \<Rightarrow> sched \<Rightarrow> ussr_proc option" where
  "ussr_sched_find pid s = find (\<lambda>p. proc_pid p = pid) (sched_procs s)"

text \<open>A change of one process.\<close>

definition update_proc :: "int \<Rightarrow> (ussr_proc \<Rightarrow> ussr_proc) \<Rightarrow> sched \<Rightarrow> sched" where
  "update_proc pid f s = s\<lparr>sched_procs := map (\<lambda>p. if proc_pid p = pid then f p else p) (sched_procs s)\<rparr>"

section \<open>The run queue\<close>

definition sched_enqueue :: "int \<Rightarrow> sched \<Rightarrow> sched" where
  "sched_enqueue pid s =
     (case ussr_sched_find pid s of
        None \<Rightarrow> s
      | Some p \<Rightarrow>
          let level = proc_priority p in
          update_proc pid (\<lambda>p. p\<lparr>proc_state := USSR_PROC_RUNNABLE\<rparr>)
            (s\<lparr>sched_runq := (sched_runq s)(level := sched_runq s level @ [pid]),
               sched_bitmap := sched_bitmap s OR push_bit level 1\<rparr>))"

text \<open>
  Outer \<open>None\<close> is a level the bitmap calls non-empty and is not: the code would follow NULL. Inner
  \<open>None\<close>: nothing is runnable.
\<close>

definition sched_dequeue :: "sched \<Rightarrow> (int option \<times> sched) option" where
  "sched_dequeue s =
     (case find (\<lambda>level. bit (sched_bitmap s) level) [0..<USSR_SCHED_LEVELS] of
        None \<Rightarrow> Some (None, s)
      | Some level \<Rightarrow>
          (case sched_runq s level of
             [] \<Rightarrow> None
           | pid # rest \<Rightarrow>
               Some (Some pid, s\<lparr>sched_runq := (sched_runq s)(level := rest),
                 sched_bitmap := (if rest = [] then sched_bitmap s AND NOT (push_bit level 1) else sched_bitmap s)\<rparr>)))"

section \<open>Creating processes\<close>

text \<open>The buffer of a name has 32 bytes.\<close>

definition sched_proc_create :: "ussr_bc_program \<Rightarrow> string \<Rightarrow> sched \<Rightarrow> int \<times> sched" where
  "sched_proc_create program name s =
     (let pid = sched_next_pid s in
      (pid, s\<lparr>sched_next_pid := pid + 1, sched_procs :=
         \<lparr>proc_pid = pid, proc_name = take 31 name, proc_priority = USSR_SCHED_DEFAULT_PRIORITY,
           proc_state = USSR_PROC_NEW, proc_vm = vm_init, proc_program = program,
           proc_block_kind = USSR_BLOCK_NONE, proc_wait_pid = 0, proc_block_token = 0,
           proc_result = USSR_NULL, proc_exit_code = 0\<rparr> # sched_procs s\<rparr>))"

definition ussr_sched_spawn_main :: "ussr_bc_program \<Rightarrow> int \<Rightarrow> string \<Rightarrow> sched \<Rightarrow> int \<times> sched" where
  "ussr_sched_spawn_main program entry_function name s =
     (let (pid, s) = sched_proc_create program name s;
          s = update_proc pid (\<lambda>p. p\<lparr>proc_vm := (proc_vm p)\<lparr>vm_entry_function := entry_function\<rparr>\<rparr>) s
      in (pid, sched_enqueue pid (s\<lparr>sched_main_pid := pid\<rparr>)))"

text \<open>
  Whether \<open>vm_spawn_call\<close> succeeds on a fresh machine: the arguments fit below the return register.
\<close>

definition vm_spawn_ok :: "ussr_bc_program \<Rightarrow> nat \<Rightarrow> nat \<Rightarrow> bool" where
  "vm_spawn_ok program function_index arg_count \<longleftrightarrow>
     function_index < length (bc_functions program) \<and>
     length (fn_parameters (bc_functions program ! function_index)) = arg_count \<and>
     bc_code program \<noteq> [] \<and> arg_count \<le> USSR_BC_RETURN_REG"

text \<open>The process of a call that cannot start is freed again; its id is not given out twice.\<close>

definition ussr_sched_spawn_func ::
  "ussr_bc_program \<Rightarrow> nat \<Rightarrow> ussr_value list \<Rightarrow> string \<Rightarrow> sched \<Rightarrow> int option \<times> sched" where
  "ussr_sched_spawn_func program function_index args name s =
     (if function_index \<ge> length (bc_functions program) then (None, s)
      else if length (fn_parameters (bc_functions program ! function_index)) \<noteq> length args then (None, s)
      else
        let (pid, s1) = sched_proc_create program name s in
        if \<not> vm_spawn_ok program function_index (length args) then (None, s1\<lparr>sched_procs := sched_procs s\<rparr>)
        else (Some pid, sched_enqueue pid s1))"

section \<open>Blocking and waking\<close>

definition sched_block_current ::
  "ussr_block_kind \<Rightarrow> int \<Rightarrow> 64 word \<Rightarrow> nat \<Rightarrow> sched \<Rightarrow> sched" where
  "sched_block_current kind pid token reg s =
     (case sched_current s of
        None \<Rightarrow> s
      | Some cur \<Rightarrow> update_proc cur (\<lambda>p. p\<lparr>
          proc_block_kind := kind, proc_wait_pid := pid, proc_block_token := token,
          proc_state := (if kind = USSR_BLOCK_TIMER then USSR_PROC_SLEEPING else USSR_PROC_WAITING),
          proc_vm := (proc_vm p)\<lparr>resume_register := reg, resume_pending := False\<rparr>\<rparr>) s)"

definition sched_wake :: "ussr_value \<Rightarrow> int \<Rightarrow> sched \<Rightarrow> sched" where
  "sched_wake v pid s = sched_enqueue pid (update_proc pid (\<lambda>p. p\<lparr>
     proc_vm := (proc_vm p)\<lparr>resume_value := v, resume_pending := True\<rparr>,
     proc_block_kind := USSR_BLOCK_NONE\<rparr>) s)"

definition awaits :: "int \<Rightarrow> ussr_proc \<Rightarrow> bool" where
  "awaits pid other \<longleftrightarrow> proc_state other = USSR_PROC_WAITING \<and> proc_block_kind other = USSR_BLOCK_AWAIT \<and>
     proc_wait_pid other = pid"

text \<open>The loop of \<open>sched_zombify\<close> over the process table, from here on.\<close>

fun wake_awaiters :: "int \<Rightarrow> ussr_value \<Rightarrow> int list \<Rightarrow> sched \<Rightarrow> sched" where
  "wake_awaiters pid v [] s = s"
| "wake_awaiters pid v (other # others) s =
     wake_awaiters pid v others
       (if (case ussr_sched_find other s of None \<Rightarrow> False | Some p \<Rightarrow> awaits pid p)
        then sched_wake v other s else s)"

definition sched_zombify :: "int \<Rightarrow> int \<Rightarrow> sched \<Rightarrow> sched" where
  "sched_zombify pid exit_code s =
     (case ussr_sched_find pid s of
        None \<Rightarrow> s
      | Some p \<Rightarrow>
          let v = vm_registers (proc_vm p) ! USSR_BC_RETURN_REG;
              s = update_proc pid (\<lambda>p. p\<lparr>proc_state := USSR_PROC_ZOMBIE, proc_exit_code := exit_code,
                proc_result := v\<rparr>) s
          in wake_awaiters pid v (map proc_pid (sched_procs s)) s)"

section \<open>Arguments\<close>

text \<open>A name given as a string or, read off the command's syntax, bare. The buffer has \<open>room\<close> bytes.\<close>

definition sched_arg_name ::
  "ussr_value list \<Rightarrow> nat \<Rightarrow> ussr_command option \<Rightarrow> nat \<Rightarrow> string option" where
  "sched_arg_name values index source_command room =
     (let name =
        (case values ! index of
           USSR_STRING (c # cs) \<Rightarrow> Some (c # cs)
         | _ \<Rightarrow>
             (case source_command of
                None \<Rightarrow> None
              | Some command \<Rightarrow>
                  if index < length (cmd_arguments command) then
                    (case cmd_arguments command ! index of
                       USSR_ARGUMENT_EXPRESSION _ (USSR_EXPR_VARIABLE v) \<Rightarrow> Some v
                     | _ \<Rightarrow> None)
                  else None))
      in case name of None \<Rightarrow> None | Some n \<Rightarrow> if length n \<ge> room then None else Some n)"

text \<open>The truncation of a finite double to an integer.\<close>

definition dbl_truncate :: "64 word \<Rightarrow> int" where
  "dbl_truncate w =
     (let m = dbl_magnitude w; e = m div 2 ^ 52; f = 2 ^ 52 + m mod 2 ^ 52;
          n = (if e = 0 then 0 else if e \<ge> 1075 then f * 2 ^ (e - 1075) else f div 2 ^ (1075 - e))
      in if dbl_negative w then - int n else int n)"

text \<open>
  A \<open>long\<close> of 64 bits: every integer fits, and a real strictly between the doubles of \<open>LONG_MIN\<close> and
  \<open>LONG_MAX\<close>, which are the powers of two.
\<close>

definition sched_arg_integer :: "ussr_value list \<Rightarrow> nat \<Rightarrow> int" where
  "sched_arg_integer values index =
     (case values ! index of
        USSR_INTEGER i \<Rightarrow> sint i
      | USSR_REAL r \<Rightarrow> if dbl_lt 0xc3e0000000000000 r \<and> dbl_lt r 0x43e0000000000000 then dbl_truncate r else -1
      | _ \<Rightarrow> -1)"

section \<open>Commands\<close>

text \<open>What a command answers: not one of these (0), an error (-1), a value (1), or blocked (2).\<close>

datatype sched_answer = Not_handled | Sched_error | Handled ussr_value | Blocked

definition sched_integer :: "int \<Rightarrow> ussr_value" where
  "sched_integer i = USSR_INTEGER (word_of_int i)"

definition ussr_sched_mark_process :: "string \<Rightarrow> sched \<Rightarrow> bool \<times> sched" where
  "ussr_sched_mark_process name s =
     (if name = [] then (False, s)
      else if name \<in> set (sched_marks s) then (True, s)
      else (True, s\<lparr>sched_marks := sched_marks s @ [name]\<rparr>))"

definition ussr_sched_first_mark :: "sched \<Rightarrow> string option" where
  "ussr_sched_first_mark s = (case sched_marks s of [] \<Rightarrow> None | m # _ \<Rightarrow> Some m)"

text \<open>The index of the first function of that name.\<close>

definition sched_find_function :: "ussr_bc_program \<Rightarrow> string \<Rightarrow> nat option" where
  "sched_find_function program name =
     find (\<lambda>i. fn_name (bc_functions program ! i) = name) [0..<length (bc_functions program)]"

definition sched_do_async ::
  "ussr_bc_program \<Rightarrow> ussr_value list \<Rightarrow> ussr_command option \<Rightarrow> sched \<Rightarrow> sched_answer \<times> sched" where
  "sched_do_async program values source_command s =
     (if values = [] then (Sched_error, s)
      else case sched_arg_name values 0 source_command 64 of
        None \<Rightarrow> (Sched_error, s)
      | Some name \<Rightarrow>
          (case sched_find_function program name of
             None \<Rightarrow> (Sched_error, s)
           | Some i \<Rightarrow>
               (case ussr_sched_spawn_func program i (tl values) name s of
                  (None, s) \<Rightarrow> (Sched_error, s)
                | (Some pid, s) \<Rightarrow> (Handled (sched_integer pid), s))))"

definition sched_do_await :: "ussr_value list \<Rightarrow> nat \<Rightarrow> sched \<Rightarrow> sched_answer \<times> sched" where
  "sched_do_await values reg s =
     (if length values \<noteq> 1 then (Sched_error, s)
      else
        let pid = sched_arg_integer values 0 in
        if pid \<le> 0 then (Sched_error, s)
        else case ussr_sched_find pid s of
          None \<Rightarrow> (Sched_error, s)
        | Some target \<Rightarrow>
            if sched_current s = Some (proc_pid target) then (Sched_error, s)
            else if proc_state target = USSR_PROC_ZOMBIE then (Handled (proc_result target), s)
            else (Blocked, sched_block_current USSR_BLOCK_AWAIT pid 0 reg s))"

text \<open>Registering with the event queue; token 0 is no registration.\<close>

definition block_on ::
  "ussr_block_kind \<Rightarrow> 64 word \<times> eq_state \<Rightarrow> nat \<Rightarrow> sched \<Rightarrow> sched_answer \<times> sched" where
  "block_on kind te reg s =
     (let (token, eq) = te; s = s\<lparr>sched_eq := eq\<rparr> in
      if token = 0 then (Sched_error, s) else (Blocked, sched_block_current kind 0 token reg s))"

definition current_pid :: "sched \<Rightarrow> int" where
  "current_pid s = (case sched_current s of None \<Rightarrow> 0 | Some pid \<Rightarrow> pid)"

definition sched_do_sleep :: "64 word \<Rightarrow> ussr_value list \<Rightarrow> nat \<Rightarrow> sched \<Rightarrow> sched_answer \<times> sched" where
  "sched_do_sleep now values reg s =
     (if length values \<noteq> 1 then (Sched_error, s)
      else
        let ms = sched_arg_integer values 0; ms = (if ms < 0 then 0 else ms) in
        block_on USSR_BLOCK_TIMER (ussr_eq_add_timer (current_pid s) (now + word_of_int ms) (sched_eq s)) reg s)"

definition sched_do_wait_fd :: "ussr_value list \<Rightarrow> bool \<Rightarrow> nat \<Rightarrow> sched \<Rightarrow> sched_answer \<times> sched" where
  "sched_do_wait_fd values write_ready reg s =
     (if length values \<noteq> 1 then (Sched_error, s)
      else
        let fd = sched_arg_integer values 0 in
        if fd < 1 \<or> fd > 2147483647 then (Sched_error, s)
        else case sched_current s of
          None \<Rightarrow> (Sched_error, s)
        | Some cur \<Rightarrow> block_on USSR_BLOCK_SOCKET (ussr_eq_add_fd cur fd write_ready (sched_eq s)) reg s)"

definition sched_do_process ::
  "ussr_value list \<Rightarrow> ussr_command option \<Rightarrow> sched \<Rightarrow> sched_answer \<times> sched" where
  "sched_do_process values source_command s =
     (if values = [] then (Sched_error, s)
      else case sched_arg_name values 0 source_command 64 of
        None \<Rightarrow> (Sched_error, s)
      | Some name \<Rightarrow>
          (case ussr_sched_mark_process name s of
             (False, s) \<Rightarrow> (Sched_error, s)
           | (True, s) \<Rightarrow> (Handled (sched_integer 0), s)))"

text \<open>
  The dispatch on the command's name. \<open>host\<close> stands for the socket and TLS commands, which leave
  the scheduler alone: \<open>None\<close> is a name they do not know, \<open>Some None\<close> an error.
\<close>

type_synonym sched_host = "string \<Rightarrow> ussr_value list \<Rightarrow> ussr_value option option"

definition has_prefix :: "string \<Rightarrow> string \<Rightarrow> bool" where
  "has_prefix prefix name \<longleftrightarrow> take (length prefix) name = prefix"

definition ussr_sched_dispatch ::
  "sched_host \<Rightarrow> 64 word \<Rightarrow> ussr_bc_program \<Rightarrow> string \<Rightarrow> ussr_value list \<Rightarrow> ussr_command option \<Rightarrow> nat \<Rightarrow> sched \<Rightarrow>
   sched_answer \<times> sched" where
  "ussr_sched_dispatch host now program name values source_command reg s =
     (if has_prefix ''petersburg_'' name then (Sched_error, s)
      else if name = ''async'' then sched_do_async program values source_command s
      else if name = ''await'' then sched_do_await values reg s
      else if name = ''sleep'' then sched_do_sleep now values reg s
      else if name = ''yield'' then
        (Handled (sched_integer 0),
         (case sched_current s of
            None \<Rightarrow> s
          | Some cur \<Rightarrow> update_proc cur (\<lambda>p. p\<lparr>proc_vm := (proc_vm p)\<lparr>yield_request := True\<rparr>\<rparr>) s))
      else if name = ''gc'' then (Handled (sched_integer 0), s)
      else if has_prefix ''socket_'' name \<or> has_prefix ''tls_'' name then
        ((case host name values of None \<Rightarrow> Not_handled | Some None \<Rightarrow> Sched_error | Some (Some v) \<Rightarrow> Handled v), s)
      else if name = ''wait_readable'' then sched_do_wait_fd values False reg s
      else if name = ''wait_writable'' then sched_do_wait_fd values True reg s
      else if name = ''process'' then sched_do_process values source_command s
      else (Not_handled, s))"

text \<open>
  \<open>load\<close> starts a process in another file. What preprocessing, parsing and compiling make of the
  file comes from outside: \<open>None\<close> when it cannot be read or parsed, else its top level and its
  program, if it compiles. \<open>vector\<close> is the address of the empty argument vector.
\<close>

type_synonym loaded = "(ussr_command list \<times> ussr_bc_program option) option"

definition vm_load_entry :: "ussr_value list \<Rightarrow> ussr_command option \<Rightarrow> string option option" where
  "vm_load_entry values source_command =
     (if length values < 2 then Some None
      else case values ! 1 of
        USSR_STRING n \<Rightarrow> Some (Some n)
      | _ \<Rightarrow>
          (case source_command of
             None \<Rightarrow> None
           | Some command \<Rightarrow>
               if length (cmd_arguments command) \<ge> 2 then
                 (case cmd_arguments command ! 1 of
                    USSR_ARGUMENT_EXPRESSION _ (USSR_EXPR_VARIABLE v) \<Rightarrow> Some (Some v)
                  | _ \<Rightarrow> None)
               else None))"

text \<open>The name a top-level \<open>process\<close> command marks.\<close>

definition load_mark :: "ussr_command \<Rightarrow> string option" where
  "load_mark command =
     (if cmd_name command \<noteq> Some ''process'' then None
      else case cmd_arguments command of
        USSR_ARGUMENT_VALUE _ (USSR_STRING m) # _ \<Rightarrow> Some m
      | USSR_ARGUMENT_EXPRESSION _ (USSR_EXPR_VARIABLE v) # _ \<Rightarrow> Some v
      | _ \<Rightarrow> None)"

definition mark_all :: "string list \<Rightarrow> sched \<Rightarrow> sched" where
  "mark_all marks s = fold (\<lambda>m s. snd (ussr_sched_mark_process m s)) marks s"

definition vm_do_load ::
  "loaded \<Rightarrow> nat \<Rightarrow> ussr_value list \<Rightarrow> ussr_command option \<Rightarrow> sched \<Rightarrow> sched_answer \<times> sched" where
  "vm_do_load ld vector values source_command s =
     (case values of
        USSR_STRING filename # _ \<Rightarrow>
          (case vm_load_entry values source_command of
             None \<Rightarrow> (Sched_error, s)
           | Some entry \<Rightarrow>
               (case ld of
                  None \<Rightarrow> (Sched_error, s)
                | Some (commands, compiled) \<Rightarrow>
                    let marks = List.map_filter load_mark commands;
                        s = mark_all marks s;
                        name = (case entry of Some n \<Rightarrow> n | None \<Rightarrow> (case marks of m # _ \<Rightarrow> m | [] \<Rightarrow> ''init'')) in
                    case Option.bind compiled (\<lambda>program. map_option (Pair program) (sched_find_function program name)) of
                      None \<Rightarrow> (Sched_error, s)
                    | Some (program, i) \<Rightarrow>
                        let parameters = length (fn_parameters (bc_functions program ! i)) in
                        if parameters \<noteq> 2 \<and> parameters \<noteq> 0 then (Sched_error, s)
                        else
                          (case ussr_sched_spawn_func program i
                              (if parameters = 2 then [USSR_INTEGER 0, USSR_VECTOR vector] else []) name s of
                             (None, s) \<Rightarrow> (Sched_error, s)
                           | (Some pid, s) \<Rightarrow> (Handled (sched_integer pid), s))))
      | _ \<Rightarrow> (Sched_error, s))"

definition ussr_sched_block_on_child :: "int \<Rightarrow> nat \<Rightarrow> sched \<Rightarrow> bool \<times> sched" where
  "ussr_sched_block_on_child child reg s =
     (case sched_current s of
        None \<Rightarrow> (False, s)
      | Some cur \<Rightarrow>
          (case block_on USSR_BLOCK_CHILD (ussr_eq_add_child cur child (sched_eq s)) reg s of
             (a, s) \<Rightarrow> (a = Blocked, s)))"

section \<open>A time slice\<close>

text \<open>
  What the running process does, one instruction each: compute, leaving any 32 registers; a
  command with arguments in the first registers; \<open>load\<close>; start an external command and wait for
  it; and these from inside an \<open>eval\<close>, whose own machine has other registers and cannot suspend.
\<close>

datatype vm_event =
    Vm_instruction "ussr_value list"
  | Vm_command string nat "ussr_command option" nat
  | Vm_load loaded nat nat "ussr_command option" nat
  | Vm_external int nat
  | Vm_nested_command string "ussr_value list" "ussr_command option" nat
  | Vm_nested_load loaded nat "ussr_value list" "ussr_command option"
  | Vm_nested_external int nat

text \<open>How the program ends when nothing ended the slice before: by \<open>HALT\<close> or a fault.\<close>

datatype vm_end = Vm_halt int | Vm_fault

datatype ussr_vm_status = USSR_VM_STATUS_DONE | USSR_VM_STATUS_ERROR | USSR_VM_STATUS_SUSPENDED

definition current_proc :: "sched \<Rightarrow> ussr_proc option" where
  "current_proc s = Option.bind (sched_current s) (\<lambda>pid. ussr_sched_find pid s)"

definition update_vm :: "(ussr_vm \<Rightarrow> ussr_vm) \<Rightarrow> sched \<Rightarrow> sched" where
  "update_vm f s = update_proc (current_pid s) (\<lambda>p. p\<lparr>proc_vm := f (proc_vm p)\<rparr>) s"

text \<open>The result of a blocked command goes to its register before the next instruction.\<close>

definition vm_resume :: "ussr_vm \<Rightarrow> ussr_vm" where
  "vm_resume vm =
     (if resume_pending vm then vm\<lparr>resume_pending := False,
        vm_registers := (vm_registers vm)[resume_register vm := resume_value vm], resume_value := USSR_NULL\<rparr>
      else vm)"

definition set_register :: "nat \<Rightarrow> ussr_value \<Rightarrow> ussr_vm \<Rightarrow> ussr_vm" where
  "set_register r v vm = vm\<lparr>vm_registers := (vm_registers vm)[r := v]\<rparr>"

text \<open>One instruction: \<open>None\<close> to go on, or the status \<open>vm_execute\<close> returns.\<close>

fun vm_event_step ::
  "sched_host \<Rightarrow> 64 word \<Rightarrow> vm_event \<Rightarrow> sched \<Rightarrow> ussr_vm_status option \<times> sched" where
  "vm_event_step host now (Vm_instruction regs) s = (None, update_vm (\<lambda>vm. if length regs = USSR_BC_MAX_REGS then vm\<lparr>vm_registers := regs\<rparr> else vm) s)"
| "vm_event_step host now (Vm_command name args command reg) s =
     (case current_proc s of
        None \<Rightarrow> (Some USSR_VM_STATUS_ERROR, s)
      | Some p \<Rightarrow>
          if args > USSR_BC_MAX_REGS then (Some USSR_VM_STATUS_ERROR, s)
          else
            (case ussr_sched_dispatch host now (proc_program p) name (take args (vm_registers (proc_vm p))) command reg s of
               (Sched_error, s) \<Rightarrow> (Some USSR_VM_STATUS_ERROR, s)
             | (Blocked, s) \<Rightarrow> (Some USSR_VM_STATUS_SUSPENDED, s)
             | (Handled v, s) \<Rightarrow> (None, update_vm (set_register reg v) s)
             | (Not_handled, s) \<Rightarrow> (None, s)))"
| "vm_event_step host now (Vm_load ld vector args command reg) s =
     (case current_proc s of
        None \<Rightarrow> (Some USSR_VM_STATUS_ERROR, s)
      | Some p \<Rightarrow>
          if args > USSR_BC_MAX_REGS then (Some USSR_VM_STATUS_ERROR, s)
          else
            (case vm_do_load ld vector (take args (vm_registers (proc_vm p))) command s of
               (Handled v, s) \<Rightarrow> (None, update_vm (set_register reg v) s)
             | (_, s) \<Rightarrow> (Some USSR_VM_STATUS_ERROR, s)))"
| "vm_event_step host now (Vm_external child reg) s =
     (case ussr_sched_block_on_child child reg s of
        (True, s) \<Rightarrow> (Some USSR_VM_STATUS_SUSPENDED, s)
      | (False, s) \<Rightarrow> (Some USSR_VM_STATUS_ERROR, s))"
| "vm_event_step host now (Vm_nested_command name values command reg) s =
     (case current_proc s of
        None \<Rightarrow> (Some USSR_VM_STATUS_ERROR, s)
      | Some p \<Rightarrow>
          (case ussr_sched_dispatch host now (proc_program p) name values command reg s of
            (Sched_error, s) \<Rightarrow> (Some USSR_VM_STATUS_ERROR, s)
          | (Blocked, s) \<Rightarrow> (Some USSR_VM_STATUS_ERROR, s)
          | (_, s) \<Rightarrow> (None, s)))"
| "vm_event_step host now (Vm_nested_load ld vector values command) s =
     (case vm_do_load ld vector values command s of
        (Handled v, s) \<Rightarrow> (None, s)
      | (_, s) \<Rightarrow> (Some USSR_VM_STATUS_ERROR, s))"
| "vm_event_step host now (Vm_nested_external child reg) s =
     (Some USSR_VM_STATUS_ERROR, snd (ussr_sched_block_on_child child reg s))"

text \<open>
  The check of the quantum at an instruction boundary: whether the slice is over, and what is
  left. The decrement that could find 0 is only reached when there is something left.
\<close>

definition vm_quantum :: "nat \<Rightarrow> bool \<times> nat" where
  "vm_quantum quantum = (if quantum \<noteq> 0 then (quantum = 0, quantum - 1) else (False, quantum))"

text \<open>At each boundary the quantum and a wish to yield come first, then the result of a blocked command.\<close>

definition vm_boundary :: "nat \<Rightarrow> sched \<Rightarrow> ussr_vm_status option \<times> nat \<times> sched" where
  "vm_boundary quantum s =
     (case current_proc s of
        None \<Rightarrow> (Some USSR_VM_STATUS_ERROR, quantum, s)
      | Some p \<Rightarrow>
          let (over, left) = vm_quantum quantum in
          if over then (Some USSR_VM_STATUS_SUSPENDED, left, s)
          else if yield_request (proc_vm p) then
            (Some USSR_VM_STATUS_SUSPENDED, left, update_vm (\<lambda>vm. vm\<lparr>yield_request := False\<rparr>) s)
          else (None, left, update_vm vm_resume s))"

fun vm_slice ::
  "sched_host \<Rightarrow> 64 word \<Rightarrow> nat \<Rightarrow> vm_event list \<Rightarrow> vm_end \<Rightarrow> sched \<Rightarrow> ussr_vm_status \<times> sched" where
  "vm_slice host now quantum [] ending s =
     (case vm_boundary quantum s of
        (Some status, _, s) \<Rightarrow> (status, s)
      | (None, _, s) \<Rightarrow>
          (case ending of
             Vm_halt code \<Rightarrow> (USSR_VM_STATUS_DONE, update_vm (\<lambda>vm. vm\<lparr>vm_exit_code := code\<rparr>) s)
           | Vm_fault \<Rightarrow> (USSR_VM_STATUS_ERROR, s)))"
| "vm_slice host now quantum (e # es) ending s =
     (case vm_boundary quantum s of
        (Some status, _, s) \<Rightarrow> (status, s)
      | (None, left, s) \<Rightarrow>
          (case vm_event_step host now e s of
             (Some status, s) \<Rightarrow> (status, s)
           | (None, s) \<Rightarrow> vm_slice host now left es ending s))"

section \<open>The loop\<close>

definition sched_any_live :: "sched \<Rightarrow> bool" where
  "sched_any_live s \<longleftrightarrow> list_ex (\<lambda>p. proc_state p \<noteq> USSR_PROC_ZOMBIE) (sched_procs s)"

definition sched_main_done :: "sched \<Rightarrow> bool" where
  "sched_main_done s \<longleftrightarrow>
     (case ussr_sched_find (sched_main_pid s) s of None \<Rightarrow> True | Some p \<Rightarrow> proc_state p = USSR_PROC_ZOMBIE)"

definition sched_main_exit_code :: "sched \<Rightarrow> int" where
  "sched_main_exit_code s =
     (case ussr_sched_find (sched_main_pid s) s of None \<Rightarrow> 0 | Some p \<Rightarrow> proc_exit_code p)"

definition sched_handle_event :: "eq_event \<Rightarrow> sched \<Rightarrow> sched" where
  "sched_handle_event e s =
     (case ussr_sched_find (ev_owner e) s of
        None \<Rightarrow> s
      | Some owner \<Rightarrow>
          if proc_state owner = USSR_PROC_ZOMBIE then s
          else if proc_block_token owner \<noteq> ev_token e then s
          else sched_wake (sched_integer (if ev_kind e = EQ_CHILD then ev_exit e else 0)) (ev_owner e) s)"

text \<open>What the world does in one turn of the loop: the clock, children, sockets, and the slice.\<close>

record turn_input =
  in_now :: "64 word"
  in_waitpid :: "int \<Rightarrow> wait_result"
  in_poll :: "int \<Rightarrow> bool \<Rightarrow> int \<times> bool"
  in_events :: "vm_event list"
  in_end :: vm_end

definition sched_handle_events :: "turn_input \<Rightarrow> sched \<Rightarrow> sched" where
  "sched_handle_events input s =
     (let (fired, eq) = ussr_eq_dispatch (in_now input) (in_waitpid input) (in_poll input) USSR_EQ_MAX_FIRED (sched_eq s)
      in fold sched_handle_event fired (s\<lparr>sched_eq := eq\<rparr>))"

text \<open>One process runs; the flag tells that the main process failed.\<close>

definition sched_run_process :: "sched_host \<Rightarrow> turn_input \<Rightarrow> int \<Rightarrow> sched \<Rightarrow> bool \<times> sched" where
  "sched_run_process host input pid s =
     (let s = update_proc pid (\<lambda>p. p\<lparr>proc_state := USSR_PROC_RUNNING\<rparr>) (s\<lparr>sched_current := Some pid\<rparr>);
          (status, s) = vm_slice host (in_now input) USSR_SCHED_QUANTUM (in_events input) (in_end input) s;
          s = s\<lparr>sched_current := None\<rparr>
      in case ussr_sched_find pid s of
           None \<Rightarrow> (False, s)
         | Some p \<Rightarrow>
             (case status of
                USSR_VM_STATUS_ERROR \<Rightarrow> (pid = sched_main_pid s, sched_zombify pid (-1) s)
              | USSR_VM_STATUS_DONE \<Rightarrow> (False, sched_zombify pid (vm_exit_code (proc_vm p)) s)
              | USSR_VM_STATUS_SUSPENDED \<Rightarrow>
                  (False, if proc_state p = USSR_PROC_RUNNING then sched_enqueue pid s else s)))"

text \<open>
  One turn: the loop ends, normally or because every process is blocked for good, or goes on. A
  crash is the NULL that \<open>sched_dequeue\<close> must never follow.
\<close>

datatype turn_result = Turn_crash | Turn_stop sched | Turn_deadlock sched | Turn_next bool sched

definition sched_turn :: "sched_host \<Rightarrow> bool \<Rightarrow> turn_input \<Rightarrow> sched \<Rightarrow> turn_result" where
  "sched_turn host background_ok input s =
     (case sched_dequeue s of
        None \<Rightarrow> Turn_crash
      | Some (Some pid, s) \<Rightarrow> (case sched_run_process host input pid s of (failed, s) \<Rightarrow> Turn_next failed s)
      | Some (None, s) \<Rightarrow>
          if \<not> sched_any_live s then Turn_stop s
          else if background_ok \<and> sched_main_done s then Turn_stop s
          else if \<not> ussr_eq_pending (sched_eq s) then Turn_deadlock s
          else Turn_next False (sched_handle_events input s))"

text \<open>The loop over the turns the world gives it; \<open>None\<close> when it has not returned by then.\<close>

datatype run_result = Run_crash | Run_returned int sched | Run_unfinished bool sched

fun ussr_sched_run :: "sched_host \<Rightarrow> bool \<Rightarrow> turn_input list \<Rightarrow> bool \<Rightarrow> sched \<Rightarrow> run_result" where
  "ussr_sched_run host background_ok [] failed s = Run_unfinished failed s"
| "ussr_sched_run host background_ok (input # inputs) failed s =
     (case sched_turn host background_ok input s of
        Turn_crash \<Rightarrow> Run_crash
      | Turn_stop s \<Rightarrow> Run_returned (if failed then -1 else sched_main_exit_code s) s
      | Turn_deadlock s \<Rightarrow> Run_returned (-1) s
      | Turn_next f s \<Rightarrow> ussr_sched_run host background_ok inputs (failed \<or> f) s)"

end
