(* ===== verification/SchedulerInv.thy ===== *)
theory SchedulerInv
  imports Scheduler
begin

text \<open>
  The invariant of the scheduler: the run queue holds exactly the runnable processes, once each,
  and every blocked process is sure to be woken: what it waits for is registered with the event
  queue, or is a process that has not ended.
\<close>

section \<open>The process table as a map\<close>

abbreviation F :: "sched \<Rightarrow> int \<Rightarrow> ussr_proc option" where
  "F s pid \<equiv> ussr_sched_find pid s"

definition keeps_pid :: "(ussr_proc \<Rightarrow> ussr_proc) \<Rightarrow> bool" where
  "keeps_pid f \<longleftrightarrow> (\<forall>p. proc_pid (f p) = proc_pid p)"

lemma find_map_update:
  "keeps_pid f \<Longrightarrow> find (\<lambda>p. proc_pid p = q) (map (\<lambda>p. if proc_pid p = pid then f p else p) ps) =
    (if q = pid then map_option f (find (\<lambda>p. proc_pid p = q) ps) else find (\<lambda>p. proc_pid p = q) ps)"
  by (induction ps) (auto simp: keeps_pid_def)

lemma find_update: "keeps_pid f \<Longrightarrow> F (update_proc pid f s) q = (if q = pid then map_option f (F s q) else F s q)"
  by (simp add: ussr_sched_find_def update_proc_def find_map_update)

lemma find_pid: "F s pid = Some p \<Longrightarrow> proc_pid p = pid"
  by (auto simp: ussr_sched_find_def find_Some_iff)

lemma find_key: "(\<exists>p. find (\<lambda>p. f p = x) ps = Some p) \<longleftrightarrow> x \<in> f ` set ps"
  by (induction ps) auto

lemma find_in_table: "(\<exists>p. F s pid = Some p) \<longleftrightarrow> pid \<in> proc_pid ` set (sched_procs s)"
  by (simp add: ussr_sched_find_def find_key)

lemma find_distinct: "distinct (map f ps) \<Longrightarrow> p \<in> set ps \<longleftrightarrow> find (\<lambda>q. f q = f p) ps = Some p"
  by (induction ps) (auto simp: rev_image_eqI)

lemma table_find: "distinct (map proc_pid (sched_procs s)) \<Longrightarrow> p \<in> set (sched_procs s) \<longleftrightarrow> F s (proc_pid p) = Some p"
  by (simp add: ussr_sched_find_def find_distinct)

lemma find_cong: "sched_procs s' = sched_procs s \<Longrightarrow> F s' pid = F s pid"
  by (simp add: ussr_sched_find_def)

lemma update_fields [simp]:
  "sched_next_pid (update_proc pid f s) = sched_next_pid s" "sched_main_pid (update_proc pid f s) = sched_main_pid s"
  "sched_current (update_proc pid f s) = sched_current s" "sched_runq (update_proc pid f s) = sched_runq s"
  "sched_bitmap (update_proc pid f s) = sched_bitmap s" "sched_eq (update_proc pid f s) = sched_eq s"
  "keeps_pid f \<Longrightarrow> map proc_pid (sched_procs (update_proc pid f s)) = map proc_pid (sched_procs s)"
  by (auto simp: update_proc_def keeps_pid_def)

text \<open>Simp rules for \<open>find\<close> in states that differ elsewhere.\<close>

lemma find_fields [simp]:
  "F (s\<lparr>sched_next_pid := a\<rparr>) q = F s q" "F (s\<lparr>sched_main_pid := b\<rparr>) q = F s q" "F (s\<lparr>sched_current := c\<rparr>) q = F s q"
  "F (s\<lparr>sched_runq := d\<rparr>) q = F s q" "F (s\<lparr>sched_bitmap := e\<rparr>) q = F s q" "F (s\<lparr>sched_marks := m\<rparr>) q = F s q"
  "F (s\<lparr>sched_eq := g\<rparr>) q = F s q"
  by (auto intro: find_cong)

section \<open>What wakes a process\<close>

text \<open>The registrations of an event queue: the kind of block, the token, the owner.\<close>

definition eq_regs :: "eq_state \<Rightarrow> (ussr_block_kind \<times> 64 word \<times> int) list" where
  "eq_regs eq = map (\<lambda>t. (USSR_BLOCK_TIMER, tm_token t, tm_owner t)) (eq_timers eq) @
     map (\<lambda>c. (USSR_BLOCK_CHILD, ch_token c, ch_owner c)) (eq_children eq) @
     map (\<lambda>f. (USSR_BLOCK_SOCKET, fd_token f, fd_owner f)) (eq_fds eq)"

definition event_reg :: "eq_event \<Rightarrow> ussr_block_kind \<times> 64 word \<times> int" where
  "event_reg e = ((case ev_kind e of EQ_TIMER \<Rightarrow> USSR_BLOCK_TIMER | EQ_CHILD \<Rightarrow> USSR_BLOCK_CHILD | _ \<Rightarrow> USSR_BLOCK_SOCKET),
     ev_token e, ev_owner e)"

lemma tokens_regs: "eq_tokens eq = map (\<lambda>(k, t, ow). t) (eq_regs eq)"
  by (simp add: eq_tokens_def eq_regs_def)

lemma regs_token: "(k, t, ow) \<in> set (eq_regs eq) \<Longrightarrow> t \<in> set (eq_tokens eq)"
  unfolding tokens_regs by force

lemma regs_positive: "eq_ok eq \<Longrightarrow> (k, 0, ow) \<notin> set (eq_regs eq)"
  using regs_token by (fastforce simp: eq_ok_def)

lemma fire_timers_regs:
  "fire_timers now room ts = (es, rest) \<Longrightarrow>
   mset (map (\<lambda>t. (USSR_BLOCK_TIMER, tm_token t, tm_owner t)) ts) =
   mset (map event_reg es) + mset (map (\<lambda>t. (USSR_BLOCK_TIMER, tm_token t, tm_owner t)) rest)"
  by (induction now room ts arbitrary: es rest rule: fire_timers.induct)
     (fastforce simp: event_reg_def split: if_splits prod.splits)+

lemma ch_owner_poll_child [simp]: "ch_owner (poll_child w c) = ch_owner c"
  by (simp add: poll_child_def split_def Let_def)

lemma fire_children_regs:
  "fire_children w room cs = (es, rest) \<Longrightarrow>
   mset (map (\<lambda>c. (USSR_BLOCK_CHILD, ch_token c, ch_owner c)) cs) =
   mset (map event_reg es) + mset (map (\<lambda>c. (USSR_BLOCK_CHILD, ch_token c, ch_owner c)) rest)"
  by (induction w room cs arbitrary: es rest rule: fire_children.induct)
     (fastforce simp: Let_def event_reg_def split: if_splits prod.splits)+

lemma fire_fds_regs:
  "fire_fds p room fs = (es, rest) \<Longrightarrow>
   mset (map (\<lambda>f. (USSR_BLOCK_SOCKET, fd_token f, fd_owner f)) fs) =
   mset (map event_reg es) + mset (map (\<lambda>f. (USSR_BLOCK_SOCKET, fd_token f, fd_owner f)) rest)"
  by (induction p room fs arbitrary: es rest rule: fire_fds.induct)
     (fastforce simp: Let_def event_reg_def split: if_splits prod.splits)+

lemma dispatch_regs:
  assumes "ussr_eq_dispatch now w p n eq = (es, eq')"
  shows "mset (eq_regs eq) = mset (map event_reg es) + mset (eq_regs eq')"
proof -
  obtain e1 ts where 1: "fire_timers now n (eq_timers eq) = (e1, ts)" by fastforce
  obtain e2 cs where 2: "fire_children w (n - length e1) (eq_children eq) = (e2, cs)" by fastforce
  obtain e3 fs where 3: "fire_fds p (n - length e1 - length e2) (eq_fds eq) = (e3, fs)" by fastforce
  have "es = e1 @ e2 @ e3" "eq' = eq\<lparr>eq_timers := ts, eq_children := cs, eq_fds := fs\<rparr>"
    using assms by (auto simp: ussr_eq_dispatch_def 1 2 3 simp del: diff_diff_left)
  then show ?thesis
    using fire_timers_regs[OF 1] fire_children_regs[OF 2] fire_fds_regs[OF 3] by (simp add: eq_regs_def)
qed

lemma distinct_regs: "eq_ok eq \<Longrightarrow> distinct (eq_regs eq)"
  unfolding eq_ok_def tokens_regs by (simp add: distinct_map)

section \<open>The invariant\<close>

text \<open>What is said of a process, given the registrations \<open>R\<close> still to be reported.\<close>

definition fresh :: "(ussr_block_kind \<times> 64 word \<times> int) set \<Rightarrow> ussr_proc \<Rightarrow> bool" where
  "fresh R p \<longleftrightarrow> (\<forall>k. (k, proc_block_token p, proc_pid p) \<notin> R)"

definition blocked_ok :: "(ussr_block_kind \<times> 64 word \<times> int) set \<Rightarrow> sched \<Rightarrow> ussr_proc \<Rightarrow> bool" where
  "blocked_ok R s p \<longleftrightarrow>
     (if proc_block_kind p = USSR_BLOCK_AWAIT
      then proc_block_token p = 0 \<and> proc_wait_pid p \<noteq> proc_pid p \<and>
        (\<exists>q. F s (proc_wait_pid p) = Some q \<and> proc_state q \<noteq> USSR_PROC_ZOMBIE)
      else (proc_block_kind p, proc_block_token p, proc_pid p) \<in> R \<and> proc_block_kind p \<noteq> USSR_BLOCK_NONE)"

fun proc_ok :: "(ussr_block_kind \<times> 64 word \<times> int) set \<Rightarrow> sched \<Rightarrow> ussr_proc \<Rightarrow> bool" where
  "proc_ok R s p =
     (case proc_state p of
        USSR_PROC_NEW \<Rightarrow> False
      | USSR_PROC_RUNNABLE \<Rightarrow> fresh R p
      | USSR_PROC_RUNNING \<Rightarrow> fresh R p \<and> sched_current s = Some (proc_pid p)
      | USSR_PROC_SLEEPING \<Rightarrow> blocked_ok R s p \<and> proc_block_kind p = USSR_BLOCK_TIMER
      | USSR_PROC_WAITING \<Rightarrow> blocked_ok R s p \<and> proc_block_kind p \<noteq> USSR_BLOCK_TIMER
      | USSR_PROC_ZOMBIE \<Rightarrow> True)"

declare proc_ok.simps [simp del]

text \<open>The run queue against the table.\<close>

definition runq_ok :: "sched \<Rightarrow> bool" where
  "runq_ok s \<longleftrightarrow>
     (\<forall>level. bit (sched_bitmap s) level \<longleftrightarrow> sched_runq s level \<noteq> []) \<and>
     (\<forall>level. distinct (sched_runq s level)) \<and>
     (\<forall>level pid. pid \<in> set (sched_runq s level) \<longleftrightarrow>
        (\<exists>p. F s pid = Some p \<and> proc_state p = USSR_PROC_RUNNABLE \<and> proc_priority p = level))"

definition table_ok :: "sched \<Rightarrow> bool" where
  "table_ok s \<longleftrightarrow> distinct (map proc_pid (sched_procs s)) \<and> 0 < sched_next_pid s \<and>
     (\<forall>pid p. F s pid = Some p \<longrightarrow> 0 < pid \<and> pid < sched_next_pid s \<and> proc_priority p = USSR_SCHED_DEFAULT_PRIORITY)"

text \<open>\<open>X\<close> are the processes under change.\<close>

definition sched_inv :: "int set \<Rightarrow> (ussr_block_kind \<times> 64 word \<times> int) set \<Rightarrow> sched \<Rightarrow> bool" where
  "sched_inv X R s \<longleftrightarrow> runq_ok s \<and> table_ok s \<and> (\<forall>pid p. F s pid = Some p \<and> pid \<notin> X \<longrightarrow> proc_ok R s p)"

lemma runq_cong:
  "runq_ok s \<Longrightarrow> sched_runq s' = sched_runq s \<Longrightarrow> sched_bitmap s' = sched_bitmap s \<Longrightarrow>
   (\<And>pid level. (\<exists>p. F s' pid = Some p \<and> proc_state p = USSR_PROC_RUNNABLE \<and> proc_priority p = level) \<longleftrightarrow>
      (\<exists>p. F s pid = Some p \<and> proc_state p = USSR_PROC_RUNNABLE \<and> proc_priority p = level)) \<Longrightarrow> runq_ok s'"
  by (simp add: runq_ok_def)

lemma proc_ok_cong:
  "proc_ok R s p \<Longrightarrow> sched_current s' = sched_current s \<Longrightarrow>
   (\<And>q. F s (proc_wait_pid p) = Some q \<Longrightarrow> proc_state q \<noteq> USSR_PROC_ZOMBIE \<Longrightarrow>
      \<exists>q'. F s' (proc_wait_pid p) = Some q' \<and> proc_state q' \<noteq> USSR_PROC_ZOMBIE) \<Longrightarrow> proc_ok R s' p"
  by (auto simp: proc_ok.simps blocked_ok_def split: ussr_proc_state.splits)

text \<open>A change of a process that is neither runnable before nor after and does not end by it.\<close>

definition quiet_change :: "(ussr_proc \<Rightarrow> ussr_proc) \<Rightarrow> ussr_proc \<Rightarrow> bool" where
  "quiet_change f p \<longleftrightarrow> proc_state p \<noteq> USSR_PROC_RUNNABLE \<and> proc_state (f p) \<noteq> USSR_PROC_RUNNABLE \<and>
     proc_priority (f p) = proc_priority p \<and>
     (proc_state (f p) = USSR_PROC_ZOMBIE \<longrightarrow> proc_state p = USSR_PROC_ZOMBIE)"

lemma update_runq:
  assumes "runq_ok s" "F s pid = Some p" "keeps_pid f" "proc_priority (f p) = proc_priority p"
    "proc_state (f p) = USSR_PROC_RUNNABLE \<longleftrightarrow> proc_state p = USSR_PROC_RUNNABLE"
  shows "runq_ok (update_proc pid f s)"
  by (rule runq_cong[OF assms(1)]) (use assms(2-5) in \<open>auto simp: find_update\<close>)

lemma update_table:
  assumes "table_ok s" "F s pid = Some p" "keeps_pid f" "proc_priority (f p) = proc_priority p"
  shows "table_ok (update_proc pid f s)"
  using assms by (auto simp: table_ok_def find_update)

lemma update_inv:
  assumes "sched_inv X R s" "F s pid = Some p" "keeps_pid f" "quiet_change f p"
  shows "sched_inv (insert pid X) R (update_proc pid f s)"
  unfolding sched_inv_def
proof (intro conjI allI impI)
  show "runq_ok (update_proc pid f s)" "table_ok (update_proc pid f s)"
    using assms update_runq update_table by (auto simp: sched_inv_def quiet_change_def)
  fix q r assume q: "F (update_proc pid f s) q = Some r \<and> q \<notin> insert pid X"
  then have "F s q = Some r" "q \<notin> X" using assms(3) by (auto simp: find_update)
  then have "proc_ok R s r" using assms(1) by (simp add: sched_inv_def)
  then show "proc_ok R (update_proc pid f s) r"
    by (rule proc_ok_cong) (use assms in \<open>auto simp: find_update quiet_change_def\<close>)
qed

lemma settle_inv:
  "sched_inv (insert pid X) R s \<Longrightarrow> (\<And>p. F s pid = Some p \<Longrightarrow> proc_ok R s p) \<Longrightarrow> sched_inv X R s"
  by (auto simp: sched_inv_def)

section \<open>The run queue\<close>

lemma bit_set_level: "level < 64 \<Longrightarrow> bit (w OR push_bit level (1 :: 64 word)) l \<longleftrightarrow> bit w l \<or> l = level"
  by (auto simp: bit_simps)

lemma bit_clear_level: "bit (w AND NOT (push_bit level (1 :: 64 word))) l \<longleftrightarrow> bit w l \<and> l \<noteq> level"
  by (auto simp: bit_simps dest: bit_imp_le_length)

definition enqueued :: "sched \<Rightarrow> int \<Rightarrow> sched" where
  "enqueued s pid = sched_enqueue pid s"

lemma enqueue_fields [simp]:
  "sched_next_pid (sched_enqueue pid s) = sched_next_pid s" "sched_main_pid (sched_enqueue pid s) = sched_main_pid s"
  "sched_current (sched_enqueue pid s) = sched_current s" "sched_eq (sched_enqueue pid s) = sched_eq s"
  by (simp_all add: sched_enqueue_def Let_def split: option.split)

lemma keeps_state [simp]: "keeps_pid (\<lambda>p. p\<lparr>proc_state := x\<rparr>)"
  by (simp add: keeps_pid_def)

lemma find_enqueue:
  "F (sched_enqueue pid s) q = (if q = pid then map_option (\<lambda>p. p\<lparr>proc_state := USSR_PROC_RUNNABLE\<rparr>) (F s q) else F s q)"
  by (auto simp: sched_enqueue_def Let_def find_update split: option.split)

lemma runq_enqueue:
  "F s pid = Some p \<Longrightarrow> sched_runq (sched_enqueue pid s) =
     (sched_runq s)(proc_priority p := sched_runq s (proc_priority p) @ [pid])"
  by (simp add: sched_enqueue_def Let_def)

lemma enqueue_inv:
  assumes inv: "sched_inv X R s" and p: "F s pid = Some p" "proc_state p \<noteq> USSR_PROC_RUNNABLE" "fresh R p"
    and z: "proc_state p = USSR_PROC_ZOMBIE \<Longrightarrow> pid \<in> X"
  shows "sched_inv (X - {pid}) R (sched_enqueue pid s)"
  unfolding sched_inv_def
proof (intro conjI allI impI)
  let ?s = "sched_enqueue pid s"
  have t: "table_ok s" and q: "runq_ok s" using inv by (auto simp: sched_inv_def)
  have prio: "proc_priority p = 32" using t p(1) by (auto simp: table_ok_def USSR_SCHED_DEFAULT_PRIORITY_def)
  have b: "sched_bitmap ?s = sched_bitmap s OR push_bit 32 1" "sched_runq ?s = (sched_runq s)(32 := sched_runq s 32 @ [pid])"
    using p(1) prio by (simp_all add: sched_enqueue_def Let_def)
  have n: "pid \<notin> set (sched_runq s l)" for l using q p by (auto simp: runq_ok_def)
  show "runq_ok ?s"
    unfolding runq_ok_def b
  proof (intro conjI allI)
    fix l
    show "bit (sched_bitmap s OR push_bit 32 1) l = (((sched_runq s)(32 := sched_runq s 32 @ [pid])) l \<noteq> [])"
      using q by (auto simp: bit_set_level runq_ok_def simp del: push_bit_of_1 push_bit_numeral)
    show "distinct (((sched_runq s)(32 := sched_runq s 32 @ [pid])) l)" using q n by (auto simp: runq_ok_def)
    fix r
    show "r \<in> set (((sched_runq s)(32 := sched_runq s 32 @ [pid])) l) \<longleftrightarrow>
      (\<exists>p. F ?s r = Some p \<and> proc_state p = USSR_PROC_RUNNABLE \<and> proc_priority p = l)"
      using q p n prio by (cases "r = pid") (auto simp: runq_ok_def find_enqueue)
  qed
  have "sched_procs ?s = map (\<lambda>p. if proc_pid p = pid then p\<lparr>proc_state := USSR_PROC_RUNNABLE\<rparr> else p) (sched_procs s)"
    using p(1) by (simp add: sched_enqueue_def Let_def update_proc_def)
  then have "map proc_pid (sched_procs ?s) = map proc_pid (sched_procs s)" by auto
  then show "table_ok ?s" using t by (auto simp: table_ok_def find_enqueue)
  fix r q assume r: "F ?s r = Some q \<and> r \<notin> X - {pid}"
  show "proc_ok R ?s q"
  proof (cases "r = pid")
    case True
    then have "q = p\<lparr>proc_state := USSR_PROC_RUNNABLE\<rparr>" using r p by (simp add: find_enqueue)
    then show ?thesis using p(3) by (simp add: proc_ok.simps fresh_def)
  next
    case False
    then have "proc_ok R s q" using inv r by (auto simp: sched_inv_def find_enqueue)
    then show ?thesis by (rule proc_ok_cong) (auto simp: find_enqueue)
  qed
qed

lemma clear_bits:
  assumes "\<And>l. bit w l \<longleftrightarrow> Q l \<noteq> []" "Q level \<noteq> []"
  shows "bit (if rest = [] then w AND NOT (push_bit level (1 :: 64 word)) else w) i \<longleftrightarrow> (Q(level := rest)) i \<noteq> []"
  using assms by (cases "i = level"; cases "rest = []") (simp_all only: bit_clear_level if_True if_False fun_upd_apply simp_thms)

lemma dequeue_ok:
  assumes inv: "sched_inv {} R s"
  shows "sched_dequeue s \<noteq> None"
    "sched_dequeue s = Some (None, s') \<Longrightarrow> s' = s \<and> (\<forall>pid p. F s pid = Some p \<longrightarrow> proc_state p \<noteq> USSR_PROC_RUNNABLE)"
    "sched_dequeue s = Some (Some pid, s') \<Longrightarrow> \<exists>p rest. F s pid = Some p \<and> proc_state p = USSR_PROC_RUNNABLE \<and>
       sched_runq s 32 = pid # rest \<and> sched_runq s' = (sched_runq s)(32 := rest) \<and>
       (\<exists>b. s' = s\<lparr>sched_runq := (sched_runq s)(32 := rest), sched_bitmap := b\<rparr> \<and>
          (\<forall>l. bit b l \<longleftrightarrow> ((sched_runq s)(32 := rest)) l \<noteq> []))"
proof -
  have q: "runq_ok s" and t: "table_ok s" using inv by (auto simp: sched_inv_def)
  have only: "sched_runq s l \<noteq> [] \<Longrightarrow> l = 32" for l
  proof -
    assume "sched_runq s l \<noteq> []"
    then obtain r where "r \<in> set (sched_runq s l)" by (cases "sched_runq s l") auto
    then obtain p where "F s r = Some p" "proc_priority p = l" using q by (auto simp: runq_ok_def)
    then show ?thesis using t by (auto simp: table_ok_def USSR_SCHED_DEFAULT_PRIORITY_def)
  qed
  have b: "bit (sched_bitmap s) l \<longleftrightarrow> sched_runq s l \<noteq> []" for l using q by (simp add: runq_ok_def)
  show "sched_dequeue s \<noteq> None"
    by (auto simp: sched_dequeue_def find_Some_iff b split: option.splits list.splits)
  show "s' = s \<and> (\<forall>pid p. F s pid = Some p \<longrightarrow> proc_state p \<noteq> USSR_PROC_RUNNABLE)" if d: "sched_dequeue s = Some (None, s')"
  proof -
    have f: "find (bit (sched_bitmap s)) [0..<64] = None" "s' = s"
      using d by (auto simp: sched_dequeue_def USSR_SCHED_LEVELS_def split: option.splits list.splits)
    then have "\<forall>l<64. sched_runq s l = []" by (auto simp: find_None_iff b)
    then have "sched_runq s 32 = []" by simp
    then have "sched_runq s l = []" for l using only[of l] by auto
    then have "\<nexists>p. F s pid = Some p \<and> proc_state p = USSR_PROC_RUNNABLE" for pid using q by (fastforce simp: runq_ok_def)
    then show ?thesis using f(2) by blast
  qed
  show "\<exists>p rest. F s pid = Some p \<and> proc_state p = USSR_PROC_RUNNABLE \<and>
       sched_runq s 32 = pid # rest \<and> sched_runq s' = (sched_runq s)(32 := rest) \<and>
       (\<exists>b. s' = s\<lparr>sched_runq := (sched_runq s)(32 := rest), sched_bitmap := b\<rparr> \<and>
          (\<forall>l. bit b l \<longleftrightarrow> ((sched_runq s)(32 := rest)) l \<noteq> []))" if d: "sched_dequeue s = Some (Some pid, s')"
  proof -
    obtain level rest where l: "find (bit (sched_bitmap s)) [0..<64] = Some level" "sched_runq s level = pid # rest"
      and s': "s' = s\<lparr>sched_runq := (sched_runq s)(level := rest),
        sched_bitmap := (if rest = [] then sched_bitmap s AND NOT (push_bit level 1) else sched_bitmap s)\<rparr>"
      using d by (auto simp: sched_dequeue_def USSR_SCHED_LEVELS_def split: option.splits list.splits)
    have 32: "level = 32" using only[of level] l(2) by simp
    have "pid \<in> set (sched_runq s level)" using l(2) by simp
    then obtain p where p: "F s pid = Some p" "proc_state p = USSR_PROC_RUNNABLE" using q unfolding runq_ok_def by blast
    let ?b = "if rest = [] then sched_bitmap s AND NOT (push_bit level 1) else sched_bitmap s"
    have bits: "bit ?b i \<longleftrightarrow> ((sched_runq s)(32 := rest)) i \<noteq> []" for i
      unfolding 32 by (rule clear_bits) (use b l(2) 32 in auto)
    have s'': "s' = s\<lparr>sched_runq := (sched_runq s)(32 := rest), sched_bitmap := ?b\<rparr>" using s' unfolding 32 .
    have "sched_runq s' = (sched_runq s)(32 := rest)" unfolding s'' by simp
    with p l(2)[unfolded 32] s'' bits show ?thesis by metis
  qed
qed

end
