(* ===== verification/SchedulerOps.thy ===== *)
theory SchedulerOps
  imports SchedulerInv
begin

text \<open>
  Every operation of the scheduler keeps the invariant, and only ever appends to the run queue.
\<close>

abbreviation regs :: "sched \<Rightarrow> (ussr_block_kind \<times> 64 word \<times> int) set" where
  "regs s \<equiv> set (eq_regs (sched_eq s))"

definition grows :: "sched \<Rightarrow> sched \<Rightarrow> bool" where
  "grows s s' \<longleftrightarrow> (\<exists>zs. sched_runq s' 32 = sched_runq s 32 @ zs)"

lemma grows_refl: "sched_runq s' = sched_runq s \<Longrightarrow> grows s s'"
  by (simp add: grows_def)

lemma grows_trans: "grows s t \<Longrightarrow> grows t u \<Longrightarrow> grows s u"
  by (auto simp: grows_def)

lemma grows_enqueue: "grows s (sched_enqueue pid s)"
  by (auto simp: grows_def sched_enqueue_def Let_def split: option.split)

section \<open>Waking\<close>

lemma wake_fields [simp]:
  "sched_next_pid (sched_wake v pid s) = sched_next_pid s" "sched_main_pid (sched_wake v pid s) = sched_main_pid s"
  "sched_current (sched_wake v pid s) = sched_current s" "sched_eq (sched_wake v pid s) = sched_eq s"
  by (simp_all add: sched_wake_def)

lemma grows_wake: "grows s (sched_wake v pid s)"
  unfolding sched_wake_def by (rule grows_trans[OF grows_refl grows_enqueue]) simp

definition woken :: "ussr_value \<Rightarrow> ussr_proc \<Rightarrow> ussr_proc" where
  "woken v p = p\<lparr>proc_vm := (proc_vm p)\<lparr>resume_value := v, resume_pending := True\<rparr>,
     proc_block_kind := USSR_BLOCK_NONE, proc_state := USSR_PROC_RUNNABLE\<rparr>"

lemma find_wake: "F (sched_wake v pid s) q = (if q = pid then map_option (woken v) (F s q) else F s q)"
  by (cases "F s pid") (auto simp: sched_wake_def find_enqueue find_update keeps_pid_def woken_def)

lemma wake_inv:
  assumes "sched_inv X R s" "F s pid = Some p" "proc_state p \<noteq> USSR_PROC_RUNNABLE" "proc_state p \<noteq> USSR_PROC_ZOMBIE" "fresh R p"
  shows "sched_inv (X - {pid}) R (sched_wake v pid s)"
proof -
  let ?f = "\<lambda>p. p\<lparr>proc_vm := (proc_vm p)\<lparr>resume_value := v, resume_pending := True\<rparr>, proc_block_kind := USSR_BLOCK_NONE\<rparr>"
  have "sched_inv (insert pid X) R (update_proc pid ?f s)"
    by (rule update_inv[OF assms(1,2)]) (use assms in \<open>auto simp: keeps_pid_def quiet_change_def\<close>)
  from enqueue_inv[OF this, of pid "?f p"] assms show ?thesis
    by (simp add: sched_wake_def find_update keeps_pid_def fresh_def)
qed

lemma awaiters_fields [simp]:
  "sched_next_pid (wake_awaiters pid v others s) = sched_next_pid s" "sched_main_pid (wake_awaiters pid v others s) = sched_main_pid s"
  "sched_current (wake_awaiters pid v others s) = sched_current s" "sched_eq (wake_awaiters pid v others s) = sched_eq s"
  by (induction pid v others s rule: wake_awaiters.induct) (auto split: if_splits)

lemma grows_awaiters: "grows s (wake_awaiters pid v others s)"
proof (induction pid v others s rule: wake_awaiters.induct)
  case (2 pid v other others s)
  show ?case
  proof (cases "case F s other of None \<Rightarrow> False | Some p \<Rightarrow> awaits pid p")
    case True
    with 2 have "grows (sched_wake v other s) (wake_awaiters pid v others (sched_wake v other s))" by simp
    from grows_trans[OF grows_wake this] True show ?thesis by simp
  qed (use 2 in simp)
qed (simp add: grows_refl)

abbreviation awaiting :: "int \<Rightarrow> sched \<Rightarrow> int \<Rightarrow> bool" where
  "awaiting pid s q \<equiv> \<exists>p. F s q = Some p \<and> awaits pid p"

lemma find_awaiters:
  "distinct others \<Longrightarrow> F (wake_awaiters pid v others s) q =
     (if q \<in> set others \<and> awaiting pid s q then map_option (woken v) (F s q) else F s q)"
proof (induction pid v others s rule: wake_awaiters.induct)
  case (2 pid v other others s)
  then show ?case by (auto simp: find_wake split: option.splits)
qed simp

lemma awaiters_inv:
  assumes "distinct others" "sched_inv {q \<in> set others. awaiting pid s q} R s"
    "\<forall>q\<in>set others. \<forall>p. F s q = Some p \<and> awaits pid p \<longrightarrow> fresh R p"
  shows "sched_inv {} R (wake_awaiters pid v others s)"
  using assms
proof (induction pid v others s rule: wake_awaiters.induct)
  case (2 pid v other others s)
  show ?case
  proof (cases "awaiting pid s other")
    case True
    then obtain p where p: "F s other = Some p" "awaits pid p" by blast
    let ?s = "sched_wake v other s"
    have "sched_inv ({q \<in> set (other # others). awaiting pid s q} - {other}) R ?s"
      using p 2(3,4) by (intro wake_inv[of _ R s other p]) (auto simp: awaits_def)
    moreover have "{q \<in> set (other # others). awaiting pid s q} - {other} = {q \<in> set others. awaiting pid ?s q}"
      using 2(2) by (auto simp: find_wake)
    moreover have "\<forall>q\<in>set others. \<forall>p. F ?s q = Some p \<and> awaits pid p \<longrightarrow> fresh R p"
      using 2(2,4) by (auto simp: find_wake)
    ultimately show ?thesis using 2 p by simp
  next
    case False
    then have "{q \<in> set (other # others). awaiting pid s q} = {q \<in> set others. awaiting pid s q}" by auto
    then show ?thesis using 2 False by (auto split: option.splits)
  qed
qed simp

section \<open>Ending\<close>

lemma zombify_fields [simp]:
  "sched_next_pid (sched_zombify pid code s) = sched_next_pid s" "sched_main_pid (sched_zombify pid code s) = sched_main_pid s"
  "sched_current (sched_zombify pid code s) = sched_current s" "sched_eq (sched_zombify pid code s) = sched_eq s"
  by (simp_all add: sched_zombify_def Let_def split: option.split)

lemma grows_zombify: "grows s (sched_zombify pid code s)"
proof -
  have "grows (update_proc pid f s) (wake_awaiters pid v others (update_proc pid f s)) \<Longrightarrow>
    grows s (wake_awaiters pid v others (update_proc pid f s))" for f v others by (simp add: grows_def)
  then show ?thesis using grows_awaiters by (auto simp: sched_zombify_def Let_def grows_refl split: option.split)
qed

definition ended :: "int \<Rightarrow> ussr_proc \<Rightarrow> ussr_proc" where
  "ended code p = p\<lparr>proc_state := USSR_PROC_ZOMBIE, proc_exit_code := code,
     proc_result := vm_registers (proc_vm p) ! USSR_BC_RETURN_REG\<rparr>"

lemma zombify_eq:
  assumes "F s pid = Some p"
  shows "sched_zombify pid code s = wake_awaiters pid (proc_result (ended code p)) (map proc_pid (sched_procs s))
    (update_proc pid (\<lambda>q. q\<lparr>proc_state := USSR_PROC_ZOMBIE, proc_exit_code := code, proc_result := proc_result (ended code p)\<rparr>) s)"
  using assms by (simp add: sched_zombify_def Let_def ended_def keeps_pid_def)

lemma find_zombify:
  assumes "distinct (map proc_pid (sched_procs s))" "F s pid = Some p" "\<not> awaits pid p"
  shows "F (sched_zombify pid code s) q =
    (if q = pid then Some (ended code p)
     else if awaiting pid s q then map_option (woken (proc_result (ended code p))) (F s q) else F s q)"
proof -
  have in_table: "F s q \<noteq> None \<Longrightarrow> q \<in> set (map proc_pid (sched_procs s))" for q
    using find_in_table[of q s] by auto
  show ?thesis
    using assms in_table[of q]
    by (auto simp: zombify_eq find_awaiters find_update keeps_pid_def ended_def awaits_def)
qed

lemma zombify_inv:
  assumes inv: "sched_inv {pid} R s" and p: "F s pid = Some p" "proc_state p \<noteq> USSR_PROC_RUNNABLE"
    and zero: "\<And>k ow. (k, 0, ow) \<notin> R"
  shows "sched_inv {} R (sched_zombify pid code s)"
proof -
  let ?f = "\<lambda>q. q\<lparr>proc_state := USSR_PROC_ZOMBIE, proc_exit_code := code, proc_result := proc_result (ended code p)\<rparr>"
  let ?s = "update_proc pid ?f s"
  have k: "keeps_pid ?f" by (simp add: keeps_pid_def)
  have t: "table_ok s" and q: "runq_ok s" and ok: "\<And>i p. F s i = Some p \<Longrightarrow> i \<noteq> pid \<Longrightarrow> proc_ok R s p"
    using inv by (auto simp: sched_inv_def)
  have others: "proc_ok R ?s r" if "F ?s i = Some r" "\<not> awaits pid r" for i r
  proof (cases "i = pid")
    case True
    then have "proc_state r = USSR_PROC_ZOMBIE" using that p k by (auto simp: find_update)
    then show ?thesis by (simp add: proc_ok.simps)
  next
    case False
    then have "proc_ok R s r" using that(1) k ok by (simp add: find_update)
    then show ?thesis using that(2) k
      by (auto simp: proc_ok.simps blocked_ok_def awaits_def find_update split: ussr_proc_state.splits)
  qed
  have "sched_inv {i \<in> set (map proc_pid (sched_procs s)). awaiting pid ?s i} R ?s"
    unfolding sched_inv_def
  proof (intro conjI allI impI)
    show "runq_ok ?s" by (rule update_runq[OF q p(1) k]) (use p in auto)
    show "table_ok ?s" by (rule update_table[OF t p(1) k]) simp
    fix i r assume r: "F ?s i = Some r \<and> i \<notin> {i \<in> set (map proc_pid (sched_procs s)). awaiting pid ?s i}"
    moreover have "i \<in> set (map proc_pid (sched_procs s))"
      using r find_in_table[of i ?s] update_fields(7)[OF k, of pid s] by (metis image_set)
    ultimately show "proc_ok R ?s r" using others by auto
  qed
  moreover have "fresh R r" if "F ?s i = Some r" "awaits pid r" for i r
  proof -
    have "i \<noteq> pid" using that p k by (auto simp: find_update awaits_def)
    then have "proc_ok R s r" using that(1) k ok by (simp add: find_update)
    then have "proc_block_token r = 0" using that(2) by (auto simp: proc_ok.simps blocked_ok_def awaits_def)
    then show ?thesis using zero by (simp add: fresh_def)
  qed
  ultimately show ?thesis
    unfolding zombify_eq[OF p(1)] using t by (intro awaiters_inv) (auto simp: table_ok_def)
qed

section \<open>Creating\<close>

definition new_proc :: "int \<Rightarrow> ussr_bc_program \<Rightarrow> string \<Rightarrow> ussr_proc" where
  "new_proc pid program name = \<lparr>proc_pid = pid, proc_name = take 31 name, proc_priority = USSR_SCHED_DEFAULT_PRIORITY,
     proc_state = USSR_PROC_NEW, proc_vm = vm_init, proc_program = program,
     proc_block_kind = USSR_BLOCK_NONE, proc_wait_pid = 0, proc_block_token = 0,
     proc_result = USSR_NULL, proc_exit_code = 0\<rparr>"

lemma create_eq: "sched_proc_create program name s = (sched_next_pid s,
    s\<lparr>sched_next_pid := sched_next_pid s + 1, sched_procs := new_proc (sched_next_pid s) program name # sched_procs s\<rparr>)"
  by (simp add: sched_proc_create_def new_proc_def Let_def)

lemma find_create:
  "F (s\<lparr>sched_next_pid := n, sched_procs := p # sched_procs s\<rparr>) q = (if q = proc_pid p then Some p else F s q)"
  by (auto simp: ussr_sched_find_def)

lemma next_pid_free: "table_ok s \<Longrightarrow> F s (sched_next_pid s) = None"
  by (cases "F s (sched_next_pid s)") (auto simp: table_ok_def)

lemma create_inv:
  assumes "sched_inv {} R s" "p = new_proc (sched_next_pid s) program name"
  shows "sched_inv {sched_next_pid s} R (s\<lparr>sched_next_pid := sched_next_pid s + 1, sched_procs := p # sched_procs s\<rparr>)"
    (is "sched_inv _ _ ?s")
proof -
  have t: "table_ok s" and q: "runq_ok s" and ok: "\<And>pid p. F s pid = Some p \<Longrightarrow> proc_ok R s p"
    using assms(1) by (auto simp: sched_inv_def)
  have new: "proc_pid p = sched_next_pid s" "proc_state p = USSR_PROC_NEW" "proc_priority p = USSR_SCHED_DEFAULT_PRIORITY"
    using assms(2) by (simp_all add: new_proc_def)
  note f = find_create[where s=s and n="sched_next_pid s + 1" and p=p, unfolded new]
  note free = next_pid_free[OF t]
  have "sched_next_pid s \<notin> proc_pid ` set (sched_procs s)" using find_in_table[of "sched_next_pid s" s] free by auto
  then have "table_ok ?s" using t new unfolding table_ok_def f by (auto dest: order.strict_implies_order)
  moreover have "runq_ok ?s" by (rule runq_cong[OF q]) (use new f free in auto)
  moreover have "proc_ok R ?s r" if "F ?s i = Some r" "i \<noteq> sched_next_pid s" for i r
  proof -
    have "proc_ok R s r" using that f ok by simp
    then show ?thesis by (rule proc_ok_cong) (use f free in \<open>auto split: if_splits\<close>)
  qed
  ultimately show ?thesis by (auto simp: sched_inv_def)
qed

end
