(* ===== verification/SchedulerTurn.thy ===== *)
theory SchedulerTurn
  imports SchedulerOps
begin

text \<open>
  A time slice and a turn of the loop keep the invariant, whatever the processes and the world do.
\<close>

section \<open>The commands of the running process\<close>

text \<open>Inside a slice: the invariant, and the process that is running.\<close>

definition in_slice :: "int \<Rightarrow> sched \<Rightarrow> bool" where
  "in_slice pid s \<longleftrightarrow> sched_inv {} (regs s) s \<and> eq_ok (sched_eq s) \<and> sched_current s = Some pid"

definition state_of :: "int \<Rightarrow> sched \<Rightarrow> ussr_proc_state option" where
  "state_of pid s = map_option proc_state (F s pid)"

text \<open>
  What a command may do: the process goes on with the event queue as it was, or is blocked. It
  leaves the other processes alone and takes at most one token.
\<close>

definition others_kept :: "int \<Rightarrow> sched \<Rightarrow> sched \<Rightarrow> bool" where
  "others_kept pid s s' \<longleftrightarrow> (\<forall>q p. q \<noteq> pid \<and> F s q = Some p \<longrightarrow> F s' q = Some p)"

definition one_token :: "sched \<Rightarrow> sched \<Rightarrow> bool" where
  "one_token s s' \<longleftrightarrow> eq_next_token (sched_eq s') = eq_next_token (sched_eq s) \<or>
     eq_next_token (sched_eq s') = eq_next_token (sched_eq s) + 1"

lemma others_refl: "(\<And>q. F s' q = F s q) \<Longrightarrow> others_kept pid s s'"
  by (simp add: others_kept_def)

lemma others_trans: "others_kept pid s t \<Longrightarrow> others_kept pid t u \<Longrightarrow> others_kept pid s u"
  by (auto simp: others_kept_def)

lemma one_token_refl: "sched_eq s' = sched_eq s \<Longrightarrow> one_token s s'"
  by (simp add: one_token_def)

definition command_ok :: "int \<Rightarrow> bool \<Rightarrow> sched \<Rightarrow> sched \<Rightarrow> bool" where
  "command_ok pid blocked s s' \<longleftrightarrow> in_slice pid s' \<and> grows s s' \<and> sched_main_pid s' = sched_main_pid s \<and>
     others_kept pid s s' \<and> one_token s s' \<and>
     (if blocked then state_of pid s' = Some USSR_PROC_SLEEPING \<or> state_of pid s' = Some USSR_PROC_WAITING
      else state_of pid s' = Some USSR_PROC_RUNNING \<and> sched_eq s' = sched_eq s)"

lemma command_ok_refl:
  "in_slice pid s \<Longrightarrow> state_of pid s = Some USSR_PROC_RUNNING \<Longrightarrow> command_ok pid False s s"
  by (simp add: command_ok_def grows_refl others_refl one_token_refl)

lemma command_ok_trans: "command_ok pid False s t \<Longrightarrow> command_ok pid b t u \<Longrightarrow> command_ok pid b s u"
  unfolding command_ok_def using grows_trans[of s t u] others_trans[of pid s t u] by (simp add: one_token_def)

lemma in_slice_vm:
  assumes "in_slice pid s" "state_of pid s = Some USSR_PROC_RUNNING"
  shows "command_ok pid False s (update_vm f s)"
proof -
  obtain p where p: "F s pid = Some p" "proc_state p = USSR_PROC_RUNNING" using assms(2) by (auto simp: state_of_def)
  have c: "current_pid s = pid" using assms(1) by (simp add: in_slice_def current_pid_def)
  let ?f = "\<lambda>p. p\<lparr>proc_vm := f (proc_vm p)\<rparr>"
  have k: "keeps_pid ?f" by (simp add: keeps_pid_def)
  have "sched_inv {pid} (regs s) (update_proc pid ?f s)"
    using update_inv[OF _ p(1) k, of "{}"] assms(1) p by (simp add: in_slice_def quiet_change_def)
  then have "sched_inv {} (regs s) (update_proc pid ?f s)"
  proof (rule settle_inv)
    fix q assume "F (update_proc pid ?f s) pid = Some q"
    then have q: "q = ?f p" using p k by (simp add: find_update)
    have "proc_ok (regs s) s p" using assms(1) p by (simp add: in_slice_def sched_inv_def)
    then show "proc_ok (regs s) (update_proc pid ?f s) q" using p by (simp add: q proc_ok.simps fresh_def)
  qed
  then show ?thesis
    using assms(1) p k by (simp add: command_ok_def in_slice_def update_vm_def c state_of_def find_update grows_refl others_kept_def one_token_refl)
qed

lemma spawn_func_ok:
  assumes "in_slice pid s" "state_of pid s = Some USSR_PROC_RUNNING" "ussr_sched_spawn_func program i args name s = (r, s')"
  shows "command_ok pid False s s'"
proof -
  let ?p = "new_proc (sched_next_pid s) program name"
  let ?s = "s\<lparr>sched_next_pid := sched_next_pid s + 1, sched_procs := ?p # sched_procs s\<rparr>"
  have inv: "sched_inv {} (regs s) s" using assms(1) by (simp add: in_slice_def)
  then have t: "table_ok s" by (simp add: sched_inv_def)
  note f = find_create[where s=s and n="sched_next_pid s + 1" and p="?p"]
  have new: "proc_pid ?p = sched_next_pid s" by (simp add: new_proc_def)
  have pid: "pid \<noteq> sched_next_pid s" using next_pid_free[OF t] assms(2) by (auto simp: state_of_def)
  note created = create_inv[OF inv refl, of program name]
  consider "s' = s" | "s' = ?s\<lparr>sched_procs := sched_procs s\<rparr>" | "s' = sched_enqueue (sched_next_pid s) ?s"
    using assms(3) by (auto simp: ussr_sched_spawn_func_def create_eq Let_def split: if_splits)
  then show ?thesis
  proof cases
    case 1
    then show ?thesis using command_ok_refl assms by simp
  next
    case 2
    have g: "F s' q = F s q" for q unfolding 2 by (rule find_cong) simp
    have "table_ok s'" using t 2 unfolding table_ok_def g by (auto dest: order.strict_implies_order)
    moreover have "runq_ok s'" by (rule runq_cong[of s]) (use inv 2 g in \<open>auto simp: sched_inv_def\<close>)
    moreover have "proc_ok (regs s) s' r" if "F s' q = Some r" for q r
    proof -
      have "proc_ok (regs s) s r" using inv that g by (simp add: sched_inv_def)
      then show ?thesis by (rule proc_ok_cong) (use 2 g in auto)
    qed
    ultimately show ?thesis
      using assms 2 g by (simp add: command_ok_def in_slice_def sched_inv_def state_of_def grows_refl others_refl one_token_refl)
  next
    case 3
    have "fresh (regs s) ?p"
      using regs_positive assms(1) by (simp add: fresh_def new_proc_def in_slice_def)
    then have "sched_inv {} (regs s) (sched_enqueue (sched_next_pid s) ?s)"
      using enqueue_inv[OF created, of "sched_next_pid s" ?p] by (simp add: f new) (simp add: new_proc_def)
    moreover have "grows s s'" unfolding 3 by (rule grows_trans[OF grows_refl grows_enqueue]) simp
    ultimately show ?thesis
      using assms pid next_pid_free[OF t]
      by (auto simp: command_ok_def in_slice_def 3 state_of_def find_enqueue f new others_kept_def one_token_refl)
  qed
qed

lemma proc_ok_wider:
  assumes "proc_ok R s r" "proc_pid r \<noteq> pid" "R \<subseteq> R'" "\<And>k t q. (k, t, q) \<in> R' \<Longrightarrow> (k, t, q) \<in> R \<or> q = pid"
  shows "proc_ok R' s r"
proof -
  have "fresh R' r" if "fresh R r" using that assms(2,4) unfolding fresh_def by blast
  moreover have "blocked_ok R' s r" if "blocked_ok R s r"
    using that assms(3) unfolding blocked_ok_def by (auto split: if_splits)
  ultimately show ?thesis using assms(1) by (cases "proc_state r") (simp_all add: proc_ok.simps)
qed

lemma block_inv:
  assumes "sched_inv {} R s" "sched_current s = Some pid" "F s pid = Some p" "proc_state p = USSR_PROC_RUNNING"
    and R: "R \<subseteq> R'" "\<And>k t q. (k, t, q) \<in> R' \<Longrightarrow> (k, t, q) \<in> R \<or> q = pid"
    and kind: "if kind = USSR_BLOCK_AWAIT
      then token = 0 \<and> target \<noteq> pid \<and> (\<exists>q. F s target = Some q \<and> proc_state q \<noteq> USSR_PROC_ZOMBIE)
      else (kind, token, pid) \<in> R' \<and> kind \<noteq> USSR_BLOCK_NONE"
  shows "sched_inv {} R' (sched_block_current kind target token reg s)"
    "state_of pid (sched_block_current kind target token reg s) =
       Some (if kind = USSR_BLOCK_TIMER then USSR_PROC_SLEEPING else USSR_PROC_WAITING)"
proof -
  define f :: "ussr_proc \<Rightarrow> ussr_proc" where "f = (\<lambda>p. p\<lparr>proc_block_kind := kind, proc_wait_pid := target, proc_block_token := token,
      proc_state := (if kind = USSR_BLOCK_TIMER then USSR_PROC_SLEEPING else USSR_PROC_WAITING),
      proc_vm := (proc_vm p)\<lparr>resume_register := reg, resume_pending := False\<rparr>\<rparr>)"
  let ?s = "update_proc pid f s"
  have eq: "sched_block_current kind target token reg s = ?s"
    using assms(2) by (simp add: sched_block_current_def f_def)
  have k: "keeps_pid f" by (simp add: keeps_pid_def f_def)
  have "sched_inv {pid} R ?s"
    using update_inv[OF assms(1,3) k] assms(4) by (simp add: quiet_change_def f_def)
  have "sched_inv {pid} R' ?s" unfolding sched_inv_def
  proof (intro conjI allI impI)
    show "runq_ok ?s" "table_ok ?s" using \<open>sched_inv {pid} R ?s\<close> by (simp_all add: sched_inv_def)
    fix q r assume q: "F ?s q = Some r \<and> q \<notin> {pid}"
    then have "proc_ok R ?s r" "proc_pid r \<noteq> pid" using \<open>sched_inv {pid} R ?s\<close> find_pid by (auto simp: sched_inv_def)
    then show "proc_ok R' ?s r" using proc_ok_wider R by blast
  qed
  moreover have "proc_ok R' ?s q" if "F ?s pid = Some q" for q
  proof -
    have q: "q = f p" using that assms(3) k by (simp add: find_update)
    have "proc_pid q = pid" using find_pid[OF that] .
    then show ?thesis using kind k unfolding q
      by (auto simp: proc_ok.simps blocked_ok_def find_update f_def split: if_splits)
  qed
  ultimately show "sched_inv {} R' (sched_block_current kind target token reg s)"
    unfolding eq by (rule settle_inv)
  show "state_of pid (sched_block_current kind target token reg s) =
       Some (if kind = USSR_BLOCK_TIMER then USSR_PROC_SLEEPING else USSR_PROC_WAITING)"
    unfolding eq using assms(3) k by (simp add: state_of_def find_update f_def)
qed

lemma block_fields [simp]:
  "sched_next_pid (sched_block_current kind target token reg s) = sched_next_pid s"
  "sched_main_pid (sched_block_current kind target token reg s) = sched_main_pid s"
  "sched_current (sched_block_current kind target token reg s) = sched_current s"
  "sched_runq (sched_block_current kind target token reg s) = sched_runq s"
  "sched_eq (sched_block_current kind target token reg s) = sched_eq s"
  by (simp_all add: sched_block_current_def split: option.split)

lemma block_others: "sched_current s = Some pid \<Longrightarrow> q \<noteq> pid \<Longrightarrow> F (sched_block_current kind target token reg s) q = F s q"
  by (simp add: sched_block_current_def find_update keeps_pid_def)

lemma block_on_ok:
  assumes "in_slice pid s" "state_of pid s = Some USSR_PROC_RUNNING" "block_on kind (token, eq) reg s = (a, s')"
    and eq: "if token = 0 then eq = sched_eq s
      else eq_ok eq \<and> set (eq_regs eq) = insert (kind, token, pid) (regs s) \<and> kind \<notin> {USSR_BLOCK_AWAIT, USSR_BLOCK_NONE} \<and>
        eq_next_token eq = eq_next_token (sched_eq s) + 1"
  shows "command_ok pid (a = Blocked) s s'"
proof (cases "token = 0")
  case True
  then show ?thesis using assms command_ok_refl by (auto simp: block_on_def)
next
  case False
  obtain p where p: "F s pid = Some p" "proc_state p = USSR_PROC_RUNNING" using assms(2) by (auto simp: state_of_def)
  let ?s = "s\<lparr>sched_eq := eq\<rparr>"
  have s': "a = Blocked" "s' = sched_block_current kind 0 token reg ?s"
    using assms(3) False by (auto simp: block_on_def)
  have "sched_inv {} (regs s) ?s"
  proof -
    have "proc_ok (regs s) ?s r" if "F s q = Some r" for q r
    proof -
      have "proc_ok (regs s) s r" using assms(1) that by (simp add: in_slice_def sched_inv_def)
      then show ?thesis by (rule proc_ok_cong) auto
    qed
    then show ?thesis using assms(1) runq_cong[of s ?s]
      by (auto simp: in_slice_def sched_inv_def table_ok_def)
  qed
  note b = block_inv[OF this, of pid p "set (eq_regs eq)" kind token 0 reg]
  have "sched_inv {} (set (eq_regs eq)) s'"
    unfolding s' by (rule b(1)) (use p assms(1) eq False in \<open>auto simp: in_slice_def\<close>)
  moreover have "state_of pid s' = Some (if kind = USSR_BLOCK_TIMER then USSR_PROC_SLEEPING else USSR_PROC_WAITING)"
    unfolding s' by (rule b(2)) (use p assms(1) eq False in \<open>auto simp: in_slice_def\<close>)
  ultimately show ?thesis
    using assms(1) eq False block_others[of ?s pid] unfolding s'
    by (auto simp: command_ok_def in_slice_def grows_refl others_kept_def one_token_def)
qed

lemma regs_add:
  "set (eq_regs (snd (ussr_eq_add_timer ow d eq))) = insert (USSR_BLOCK_TIMER, fst (ussr_eq_add_timer ow d eq), ow) (set (eq_regs eq))"
  "set (eq_regs (snd (ussr_eq_add_child ow c eq))) = insert (USSR_BLOCK_CHILD, fst (ussr_eq_add_child ow c eq), ow) (set (eq_regs eq))"
  "1 \<le> h \<Longrightarrow> set (eq_regs (snd (ussr_eq_add_fd ow h w eq))) = insert (USSR_BLOCK_SOCKET, fst (ussr_eq_add_fd ow h w eq), ow) (set (eq_regs eq))"
  by (auto simp: eq_regs_def ussr_eq_add_timer_def ussr_eq_add_child_def ussr_eq_add_fd_def)

definition room :: "sched \<Rightarrow> bool" where
  "room s \<longleftrightarrow> eq_next_token (sched_eq s) \<noteq> - 1"

lemma next_add:
  "eq_next_token (snd (ussr_eq_add_timer ow d eq)) = eq_next_token eq + 1"
  "eq_next_token (snd (ussr_eq_add_child ow c eq)) = eq_next_token eq + 1"
  "1 \<le> h \<Longrightarrow> eq_next_token (snd (ussr_eq_add_fd ow h w eq)) = eq_next_token eq + 1"
  by (auto simp: ussr_eq_add_timer_def ussr_eq_add_child_def ussr_eq_add_fd_def)

lemma add_ok:
  assumes "in_slice pid s" "room s"
  shows "eq_ok (snd (ussr_eq_add_timer ow d (sched_eq s))) \<and> fst (ussr_eq_add_timer ow d (sched_eq s)) \<noteq> 0"
    "eq_ok (snd (ussr_eq_add_child ow c (sched_eq s))) \<and> fst (ussr_eq_add_child ow c (sched_eq s)) \<noteq> 0"
    "1 \<le> h \<Longrightarrow> eq_ok (snd (ussr_eq_add_fd ow h w (sched_eq s))) \<and> fst (ussr_eq_add_fd ow h w (sched_eq s)) \<noteq> 0"
proof -
  have e: "eq_ok (sched_eq s)" "eq_next_token (sched_eq s) \<noteq> - 1" using assms by (auto simp: in_slice_def room_def)
  then have "eq_next_token (sched_eq s) \<noteq> 0" by (auto simp: eq_ok_def)
  then show "eq_ok (snd (ussr_eq_add_timer ow d (sched_eq s))) \<and> fst (ussr_eq_add_timer ow d (sched_eq s)) \<noteq> 0"
    "eq_ok (snd (ussr_eq_add_child ow c (sched_eq s))) \<and> fst (ussr_eq_add_child ow c (sched_eq s)) \<noteq> 0"
    "1 \<le> h \<Longrightarrow> eq_ok (snd (ussr_eq_add_fd ow h w (sched_eq s))) \<and> fst (ussr_eq_add_fd ow h w (sched_eq s)) \<noteq> 0"
    by (simp_all only: eq_ok_add_timer[OF e] eq_ok_add_child[OF e] eq_ok_add_fd[OF e] simp_thms)
      (simp_all add: ussr_eq_add_timer_def ussr_eq_add_child_def ussr_eq_add_fd_def)
qed

lemma sleep_ok:
  assumes "in_slice pid s" "state_of pid s = Some USSR_PROC_RUNNING" "room s" "sched_do_sleep now values reg s = (a, s')"
  shows "command_ok pid (a = Blocked) s s'"
proof (cases "length values = 1")
  case True
  have c: "current_pid s = pid" using assms(1) by (simp add: in_slice_def current_pid_def)
  obtain d where "block_on USSR_BLOCK_TIMER (ussr_eq_add_timer pid d (sched_eq s)) reg s = (a, s')"
    using assms(4) True unfolding sched_do_sleep_def c Let_def by auto
  then have "block_on USSR_BLOCK_TIMER (fst (ussr_eq_add_timer pid d (sched_eq s)), snd (ussr_eq_add_timer pid d (sched_eq s))) reg s = (a, s')"
    by simp
  then show ?thesis
    by (rule block_on_ok[OF assms(1,2)]) (use add_ok(1)[OF assms(1,3)] regs_add(1) next_add in simp)
qed (use assms command_ok_refl in \<open>auto simp: sched_do_sleep_def\<close>)

lemma wait_fd_ok:
  assumes "in_slice pid s" "state_of pid s = Some USSR_PROC_RUNNING" "room s" "sched_do_wait_fd values w reg s = (a, s')"
  shows "command_ok pid (a = Blocked) s s'"
proof -
  have c: "sched_current s = Some pid" using assms(1) by (simp add: in_slice_def)
  let ?fd = "sched_arg_integer values 0"
  let ?t = "ussr_eq_add_fd pid ?fd w (sched_eq s)"
  show ?thesis
  proof (cases "length values = 1 \<and> 1 \<le> ?fd \<and> ?fd \<le> 2147483647")
    case True
    then have "block_on USSR_BLOCK_SOCKET (fst ?t, snd ?t) reg s = (a, s')"
      using assms(4) unfolding sched_do_wait_fd_def c Let_def by simp
    then show ?thesis
      by (rule block_on_ok[OF assms(1,2)]) (use add_ok(3)[OF assms(1,3)] regs_add(3) next_add True in simp)
  next
    case False
    then have "a = Sched_error" "s' = s" using assms(4) unfolding sched_do_wait_fd_def Let_def
      by (auto split: if_splits)
    then show ?thesis using assms(1,2) command_ok_refl by simp
  qed
qed

lemma child_ok:
  assumes "in_slice pid s" "state_of pid s = Some USSR_PROC_RUNNING" "room s" "ussr_sched_block_on_child child reg s = (b, s')"
  shows "command_ok pid b s s'"
proof -
  have c: "sched_current s = Some pid" using assms(1) by (simp add: in_slice_def)
  let ?t = "ussr_eq_add_child pid child (sched_eq s)"
  obtain a where a: "block_on USSR_BLOCK_CHILD ?t reg s = (a, s')" "b = (a = Blocked)"
    using assms(4) unfolding ussr_sched_block_on_child_def c by (auto split: prod.splits)
  from a(1) have "block_on USSR_BLOCK_CHILD (fst ?t, snd ?t) reg s = (a, s')" by simp
  then have "command_ok pid (a = Blocked) s s'"
    by (rule block_on_ok[OF assms(1,2)]) (use add_ok(2)[OF assms(1,3)] regs_add(2) next_add in simp)
  then show ?thesis using a(2) by simp
qed

lemma await_ok:
  assumes "in_slice pid s" "state_of pid s = Some USSR_PROC_RUNNING" "sched_do_await values reg s = (a, s')"
  shows "command_ok pid (a = Blocked) s s'"
proof (cases "a = Blocked")
  case True
  obtain p where p: "F s pid = Some p" "proc_state p = USSR_PROC_RUNNING" using assms(2) by (auto simp: state_of_def)
  have c: "sched_current s = Some pid" and inv: "sched_inv {} (regs s) s" using assms(1) by (simp_all add: in_slice_def)
  let ?t = "sched_arg_integer values 0"
  obtain target where t: "F s ?t = Some target" "proc_pid target \<noteq> pid" "proc_state target \<noteq> USSR_PROC_ZOMBIE"
    "s' = sched_block_current USSR_BLOCK_AWAIT ?t 0 reg s"
    using assms(3) True c by (auto simp: sched_do_await_def Let_def split: if_splits option.splits)
  have "?t \<noteq> pid" using t(2) find_pid[OF t(1)] by simp
  with block_inv[OF inv c p, of "regs s" USSR_BLOCK_AWAIT 0 ?t reg] t(1,3)
  have "sched_inv {} (regs s) s'" "state_of pid s' = Some USSR_PROC_WAITING" unfolding t(4) by auto
  then show ?thesis using assms(1) True t(4) block_others[OF c] by (simp add: command_ok_def in_slice_def grows_refl others_kept_def one_token_refl)
next
  case False
  then have "s' = s" using assms(3) by (auto simp: sched_do_await_def Let_def split: if_splits option.splits)
  with False assms command_ok_refl show ?thesis by simp
qed

lemma marks_ok:
  assumes "in_slice pid s" "state_of pid s = Some USSR_PROC_RUNNING"
  shows "command_ok pid False s (s\<lparr>sched_marks := m\<rparr>)"
proof -
  have "proc_ok (regs s) (s\<lparr>sched_marks := m\<rparr>) r" if "F s q = Some r" for q r
  proof -
    have "proc_ok (regs s) s r" using assms(1) that by (simp add: in_slice_def sched_inv_def)
    then show ?thesis by (rule proc_ok_cong) auto
  qed
  then show ?thesis using assms runq_cong[of s "s\<lparr>sched_marks := m\<rparr>"]
    by (auto simp: command_ok_def in_slice_def sched_inv_def table_ok_def state_of_def grows_refl others_refl one_token_refl)
qed

lemma if_eqE: "(if c then x else y) = z \<Longrightarrow> (c \<Longrightarrow> x = z \<Longrightarrow> P) \<Longrightarrow> (\<not> c \<Longrightarrow> y = z \<Longrightarrow> P) \<Longrightarrow> P"
  by (cases c) auto

lemma dispatch_ok:
  assumes "in_slice pid s" "state_of pid s = Some USSR_PROC_RUNNING" "room s"
    "ussr_sched_dispatch host now program name values command reg s = (a, s')"
  shows "command_ok pid (a = Blocked) s s'"
proof -
  note refl = command_ok_refl[OF assms(1,2)]
  have async: "command_ok pid (a = Blocked) s s'" if "sched_do_async program values command s = (a, s')"
    using that spawn_func_ok[OF assms(1,2)] refl
    by (auto simp: sched_do_async_def split: if_splits option.splits prod.splits)
  have process: "command_ok pid (a = Blocked) s s'" if "sched_do_process values command s = (a, s')"
    using that marks_ok[OF assms(1,2)] refl
    by (auto simp: sched_do_process_def ussr_sched_mark_process_def split: if_splits option.splits prod.splits bool.splits)
  have yield: "command_ok pid False s (case sched_current s of None \<Rightarrow> s
      | Some cur \<Rightarrow> update_proc cur (\<lambda>p. p\<lparr>proc_vm := (proc_vm p)\<lparr>yield_request := True\<rparr>\<rparr>) s)"
    using in_slice_vm[OF assms(1,2), of "\<lambda>vm. vm\<lparr>yield_request := True\<rparr>"] assms(1)
    by (simp add: update_vm_def in_slice_def current_pid_def)
  from assms(4) show ?thesis
    unfolding ussr_sched_dispatch_def
    by (elim if_eqE) (use refl yield in \<open>auto intro: async process await_ok[OF assms(1,2)] sleep_ok[OF assms(1-3)] wait_fd_ok[OF assms(1-3)]
        split: option.splits\<close>)
qed

lemma mark_fold: "\<exists>m. mark_all marks s = s\<lparr>sched_marks := m\<rparr>"
proof (induction marks arbitrary: s)
  case (Cons a marks)
  have "\<exists>m. snd (ussr_sched_mark_process a s) = s\<lparr>sched_marks := m\<rparr>"
    by (auto simp: ussr_sched_mark_process_def intro: exI[of _ "sched_marks s"])
  then show ?case using Cons[of "snd (ussr_sched_mark_process a s)"] by (auto simp: mark_all_def)
next
  case Nil
  show ?case by (rule exI[of _ "sched_marks s"]) (simp add: mark_all_def)
qed

lemma load_ok:
  assumes "in_slice pid s" "state_of pid s = Some USSR_PROC_RUNNING" "vm_do_load ld vector values command s = (a, s')"
  shows "command_ok pid False s s'" "a = Sched_error \<or> (\<exists>v. a = Handled v)"
proof -
  have refl: "command_ok pid False s s" by (rule command_ok_refl[OF assms(1,2)])
  have marked: "command_ok pid False s (mark_all marks s)" for marks
    using mark_fold[of marks s] marks_ok[OF assms(1,2)] by auto
  have spawned: "command_ok pid False s t'"
    if "ussr_sched_spawn_func program i vs name (mark_all marks s) = (r, t')"
    for marks t' program i vs name r
  proof -
    let ?t = "mark_all marks s"
    have "in_slice pid ?t" "state_of pid ?t = Some USSR_PROC_RUNNING" using marked[of marks] by (simp_all add: command_ok_def)
    then show ?thesis by (rule command_ok_trans[OF marked spawn_func_ok[OF _ _ that]])
  qed
  show "command_ok pid False s s'" "a = Sched_error \<or> (\<exists>v. a = Handled v)"
    using assms(3) refl marked
    by (auto simp: vm_do_load_def Let_def intro: spawned split: list.splits ussr_value.splits option.splits prod.splits if_splits)
qed

section \<open>A slice\<close>

text \<open>How a slice may end: \<open>SUSPENDED\<close> in any state, the others too; a blocked process is the last to run.\<close>

definition slice_ok :: "int \<Rightarrow> sched \<Rightarrow> sched \<Rightarrow> bool" where
  "slice_ok pid s s' \<longleftrightarrow> in_slice pid s' \<and> grows s s' \<and> sched_main_pid s' = sched_main_pid s \<and>
     others_kept pid s s' \<and> one_token s s' \<and>
     state_of pid s' \<in> {Some USSR_PROC_RUNNING, Some USSR_PROC_SLEEPING, Some USSR_PROC_WAITING}"

lemma command_slice: "command_ok pid b s s' \<Longrightarrow> slice_ok pid s s'"
  by (auto simp: command_ok_def slice_ok_def split: if_splits)

lemma slice_trans: "command_ok pid False s t \<Longrightarrow> slice_ok pid t u \<Longrightarrow> slice_ok pid s u"
  unfolding command_ok_def slice_ok_def using grows_trans[of s t u] others_trans[of pid s t u] by (simp add: one_token_def)

lemma command_room: "command_ok pid False s t \<Longrightarrow> room s \<Longrightarrow> room t"
  by (simp add: command_ok_def room_def)

lemma event_step_ok:
  assumes "in_slice pid s" "state_of pid s = Some USSR_PROC_RUNNING" "room s" "vm_event_step host now e s = (r, s')"
  shows "slice_ok pid s s'" "r = None \<Longrightarrow> command_ok pid False s s'"
proof -
  have "slice_ok pid s s' \<and> (r = None \<longrightarrow> command_ok pid False s s')"
  proof (cases e)
    case (Vm_instruction x1)
    then show ?thesis using assms(4) in_slice_vm[OF assms(1,2)] command_slice[OF in_slice_vm[OF assms(1,2)]] by auto
  next
    case (Vm_command name args command reg)
    obtain p where p: "current_proc s = Some p"
      using assms(1,2) by (auto simp: current_proc_def in_slice_def state_of_def)
    show ?thesis
    proof (cases "args > USSR_BC_MAX_REGS")
      case True
      then show ?thesis using assms p Vm_command command_slice[OF command_ok_refl[OF assms(1,2)]] by auto
    next
      case False
      obtain a t where d: "ussr_sched_dispatch host now (proc_program p) name (take args (vm_registers (proc_vm p))) command reg s = (a, t)"
        by fastforce
      note ok = dispatch_ok[OF assms(1-3) d]
      have "command_ok pid False s (update_vm f t)" if "command_ok pid False s t" for f
        using command_ok_trans[OF that in_slice_vm[of pid t f]] that by (auto simp: command_ok_def)
      note vm = this
      show ?thesis
      proof (cases "a = Blocked \<or> a = Sched_error")
        case True
        then show ?thesis using assms(4) p d command_slice[OF ok] False Vm_command by auto
      next
        case answered: False
        then have t: "command_ok pid False s t" using ok by simp
        show ?thesis
          using assms(4) p d False Vm_command answered t vm[OF t] command_slice[OF t] command_slice[OF vm[OF t]]
          by (cases a) auto
      qed
    qed
  next
    case (Vm_load ld vector args command reg)
    obtain p where p: "current_proc s = Some p"
      using assms(1,2) by (auto simp: current_proc_def in_slice_def state_of_def)
    obtain a t where d: "vm_do_load ld vector (take args (vm_registers (proc_vm p))) command s = (a, t)" by fastforce
    note t = load_ok(1)[OF assms(1,2) d]
    have "command_ok pid False s (update_vm f t)" for f
      using command_ok_trans[OF t in_slice_vm[of pid t f]] t by (auto simp: command_ok_def)
    note vm = this
    show ?thesis
      using assms(4) p d Vm_load load_ok(2)[OF assms(1,2) d] t command_slice[OF t] vm command_slice[OF vm] command_slice[OF command_ok_refl[OF assms(1,2)]]
      by (auto split: if_splits)
  next
    case (Vm_external child reg)
    obtain b t where d: "ussr_sched_block_on_child child reg s = (b, t)" by fastforce
    then show ?thesis using assms(4) Vm_external command_slice[OF child_ok[OF assms(1-3) d]] by (cases b) auto
  next
    case (Vm_nested_command name vs command reg)
    obtain p where p: "current_proc s = Some p"
      using assms(1,2) by (auto simp: current_proc_def in_slice_def state_of_def)
    obtain a t where d: "ussr_sched_dispatch host now (proc_program p) name vs command reg s = (a, t)" by fastforce
    note ok = dispatch_ok[OF assms(1-3) d]
    then show ?thesis using assms(4) p d Vm_nested_command command_slice[OF ok] by (cases a) auto
  next
    case (Vm_nested_load ld vector vs command)
    obtain a t where d: "vm_do_load ld vector vs command s = (a, t)" by fastforce
    note t = load_ok(1)[OF assms(1,2) d]
    show ?thesis using assms(4) d Vm_nested_load load_ok(2)[OF assms(1,2) d] t command_slice[OF t] by auto
  next
    case (Vm_nested_external child reg)
    obtain b t where d: "ussr_sched_block_on_child child reg s = (b, t)" by fastforce
    then show ?thesis using assms(4) Vm_nested_external command_slice[OF child_ok[OF assms(1-3) d]] by auto
  qed
  then show "slice_ok pid s s'" "r = None \<Longrightarrow> command_ok pid False s s'" by auto
qed

lemma boundary_ok:
  assumes "in_slice pid s" "state_of pid s = Some USSR_PROC_RUNNING" "vm_boundary quantum s = (r, left, s')"
  shows "command_ok pid False s s'"
  using assms in_slice_vm[OF assms(1,2)] command_ok_refl[OF assms(1,2)]
  by (auto simp: vm_boundary_def vm_quantum_def split: option.splits if_splits)

lemma slice_keeps:
  "in_slice pid s \<Longrightarrow> state_of pid s = Some USSR_PROC_RUNNING \<Longrightarrow> room s \<Longrightarrow>
   vm_slice host now quantum es ending s = (status, s') \<Longrightarrow> slice_ok pid s s'"
proof (induction es arbitrary: s quantum)
  case Nil
  obtain r left t where b: "vm_boundary quantum s = (r, left, t)" by (metis prod_cases3)
  note ok = boundary_ok[OF Nil(1,2) b]
  then have "in_slice pid t" "state_of pid t = Some USSR_PROC_RUNNING" by (auto simp: command_ok_def)
  note vm = command_ok_trans[OF ok in_slice_vm[OF this]]
  show ?case using Nil(4) b command_slice[OF ok] command_slice[OF vm] by (auto split: option.splits vm_end.splits)
next
  case (Cons e es)
  obtain r left t where b: "vm_boundary quantum s = (r, left, t)" by (metis prod_cases3)
  note ok = boundary_ok[OF Cons.prems(1,2) b]
  then have t: "in_slice pid t" "state_of pid t = Some USSR_PROC_RUNNING" by (auto simp: command_ok_def)
  note roomt = command_room[OF ok Cons.prems(3)]
  obtain q u where e: "vm_event_step host now e t = (q, u)" by fastforce
  note step = event_step_ok[OF t roomt e]
  show ?case
  proof (cases "r = None \<and> q = None")
    case True
    then have u: "command_ok pid False t u" using step(2) by simp
    then have "in_slice pid u" "state_of pid u = Some USSR_PROC_RUNNING" by (auto simp: command_ok_def)
    from Cons.IH[OF this command_room[OF u roomt]] have "slice_ok pid u s'" using Cons.prems(4) b e True by auto
    then show ?thesis using slice_trans[OF ok slice_trans[OF u]] by blast
  next
    case False
    then show ?thesis using Cons.prems(4) b e command_slice[OF ok] slice_trans[OF ok step(1)]
      by (cases r; cases q) auto
  qed
qed

section \<open>Events\<close>

text \<open>Between the slices: no process runs, and every registration is in the event queue.\<close>

definition sched_ok :: "sched \<Rightarrow> bool" where
  "sched_ok s \<longleftrightarrow> sched_inv {} (regs s) s \<and> eq_ok (sched_eq s) \<and> sched_current s = None"

lemma proc_ok_without:
  assumes "proc_ok (insert (k, t, ow) R) s r" "proc_pid r \<noteq> ow \<or> proc_block_token r \<noteq> t \<or> proc_state r = USSR_PROC_ZOMBIE"
  shows "proc_ok R s r"
proof -
  have "fresh R r" if "fresh (insert (k, t, ow) R) r" using that by (auto simp: fresh_def)
  moreover have "blocked_ok R s r" if "blocked_ok (insert (k, t, ow) R) s r" "proc_state r \<noteq> USSR_PROC_ZOMBIE"
    using that assms(2) unfolding blocked_ok_def by (auto split: if_splits)
  ultimately show ?thesis using assms(1) by (cases "proc_state r") (simp_all add: proc_ok.simps)
qed

lemma handle_event_fields [simp]:
  "sched_next_pid (sched_handle_event e s) = sched_next_pid s" "sched_main_pid (sched_handle_event e s) = sched_main_pid s"
  "sched_current (sched_handle_event e s) = sched_current s" "sched_eq (sched_handle_event e s) = sched_eq s"
  by (simp_all add: sched_handle_event_def split: option.split)

text \<open>A fired event takes its registration away from what is still to be reported.\<close>

lemma handle_event_inv:
  assumes inv: "sched_inv {} (insert (event_reg e) R) s" and cur: "sched_current s = None"
    and once: "\<forall>k ow. (k, ev_token e, ow) \<notin> R" and t: "ev_token e \<noteq> 0"
  shows "sched_inv {} R (sched_handle_event e s)"
proof -
  obtain k where k: "event_reg e = (k, ev_token e, ev_owner e)" by (simp add: event_reg_def)
  have q: "runq_ok s" and tb: "table_ok s" and ok: "\<And>i r. F s i = Some r \<Longrightarrow> proc_ok (insert (event_reg e) R) s r"
    using inv by (auto simp: sched_inv_def)
  have others: "proc_ok R s r" if "F s i = Some r"
    "i \<noteq> ev_owner e \<or> proc_block_token r \<noteq> ev_token e \<or> proc_state r = USSR_PROC_ZOMBIE" for i r
    using ok[OF that(1)] proc_ok_without that(2) find_pid[OF that(1)] unfolding k by blast
  show ?thesis
  proof (cases "\<exists>p. F s (ev_owner e) = Some p \<and> proc_state p \<noteq> USSR_PROC_ZOMBIE \<and> proc_block_token p = ev_token e")
    case True
    then obtain p where p: "F s (ev_owner e) = Some p" "proc_state p \<noteq> USSR_PROC_ZOMBIE" "proc_block_token p = ev_token e"
      by blast
    have pid: "proc_pid p = ev_owner e" using find_pid[OF p(1)] .
    have "proc_state p \<noteq> USSR_PROC_RUNNABLE" using ok[OF p(1)] p pid by (auto simp: proc_ok.simps fresh_def k)
    moreover have "fresh R p" using once p(3) by (simp add: fresh_def)
    moreover have "sched_inv {ev_owner e} R s" using q tb others by (auto simp: sched_inv_def)
    ultimately have "sched_inv ({ev_owner e} - {ev_owner e}) R (sched_wake v (ev_owner e) s)" for v
      using p wake_inv by blast
    then show ?thesis using p by (simp add: sched_handle_event_def)
  next
    case False
    have "sched_inv {} R s" unfolding sched_inv_def
    proof (intro conjI q tb allI impI)
      fix i r assume r: "F s i = Some r \<and> i \<notin> {}"
      then have "i \<noteq> ev_owner e \<or> proc_block_token r \<noteq> ev_token e \<or> proc_state r = USSR_PROC_ZOMBIE" using False by auto
      with others r show "proc_ok R s r" by blast
    qed
    moreover have "sched_handle_event e s = s"
      using False by (auto simp: sched_handle_event_def split: option.splits)
    ultimately show ?thesis by simp
  qed
qed

lemma grows_handle_event: "grows s (sched_handle_event e s)"
  by (auto simp: sched_handle_event_def grows_refl grows_wake split: option.split)

lemma handle_events_fold:
  assumes "sched_inv {} (event_reg ` set es \<union> R) s" "sched_current s = None"
    "distinct (map ev_token es)" "\<forall>e\<in>set es. ev_token e \<noteq> 0 \<and> (\<forall>k ow. (k, ev_token e, ow) \<notin> R)"
  shows "sched_inv {} R (fold sched_handle_event es s)"
  using assms
proof (induction es arbitrary: s)
  case (Cons e es)
  have "(k, ev_token e, ow) \<notin> event_reg ` set es \<union> R" for k ow
    using Cons.prems(3,4) by (auto simp: event_reg_def)
  then have "sched_inv {} (event_reg ` set es \<union> R) (sched_handle_event e s)"
    using Cons.prems by (intro handle_event_inv) auto
  with Cons show ?case by simp
qed simp

lemma fold_event_fields:
  "sched_eq (fold sched_handle_event es s) = sched_eq s \<and> sched_current (fold sched_handle_event es s) = sched_current s \<and>
   sched_main_pid (fold sched_handle_event es s) = sched_main_pid s \<and> grows s (fold sched_handle_event es s)"
proof (induction es arbitrary: s)
  case (Cons e es)
  show ?case using Cons[of "sched_handle_event e s"] grows_trans[OF grows_handle_event[of s e]] by auto
qed (simp add: grows_refl)

lemma event_tokens: "map (\<lambda>(k, t, ow). t) (map event_reg es) = map ev_token es"
  by (simp add: event_reg_def)

lemma sched_ok_eq:
  assumes "sched_inv {} R s" shows "sched_inv {} R (s\<lparr>sched_eq := eq\<rparr>)"
proof -
  have "proc_ok R (s\<lparr>sched_eq := eq\<rparr>) r" if "F s q = Some r" for q r
  proof -
    have "proc_ok R s r" using assms that by (simp add: sched_inv_def)
    then show ?thesis by (rule proc_ok_cong) auto
  qed
  then show ?thesis using assms runq_cong[of s "s\<lparr>sched_eq := eq\<rparr>"] by (auto simp: sched_inv_def table_ok_def)
qed

lemma handle_events_ok:
  assumes "sched_ok s"
  shows "sched_ok (sched_handle_events input s)" "grows s (sched_handle_events input s)"
    "sched_main_pid (sched_handle_events input s) = sched_main_pid s" "one_token s (sched_handle_events input s)"
proof -
  obtain es eq where d: "ussr_eq_dispatch (in_now input) (in_waitpid input) (in_poll input) USSR_EQ_MAX_FIRED (sched_eq s) = (es, eq)"
    by fastforce
  let ?s = "s\<lparr>sched_eq := eq\<rparr>"
  have s': "sched_handle_events input s = fold sched_handle_event es ?s" by (simp add: sched_handle_events_def d)
  have ok: "eq_ok (sched_eq s)" "sched_current s = None" and inv: "sched_inv {} (regs s) s" using assms by (auto simp: sched_ok_def)
  have m: "mset (eq_regs (sched_eq s)) = mset (map event_reg es @ eq_regs eq)" using dispatch_regs[OF d] by simp
  have R: "regs s = event_reg ` set es \<union> set (eq_regs eq)" using mset_eq_setD[OF m] by simp
  have "mset (map (\<lambda>(k, t, ow). t) (eq_regs (sched_eq s))) = mset (map (\<lambda>(k, t, ow). t) (map event_reg es @ eq_regs eq))"
    using m by (metis mset_map)
  then have "mset (eq_tokens (sched_eq s)) = mset (map ev_token es @ eq_tokens eq)"
    unfolding tokens_regs map_append event_tokens .
  then have t: "distinct (map ev_token es @ eq_tokens eq)" "0 \<notin> set (map ev_token es @ eq_tokens eq)"
    using ok(1) unfolding eq_ok_def by (metis mset_eq_imp_distinct_iff, metis mset_eq_setD order.irrefl)
  have "sched_inv {} (set (eq_regs eq)) (fold sched_handle_event es ?s)"
  proof (rule handle_events_fold)
    show "sched_inv {} (event_reg ` set es \<union> set (eq_regs eq)) ?s" using sched_ok_eq[OF inv] R by simp
    show "\<forall>e\<in>set es. ev_token e \<noteq> 0 \<and> (\<forall>k ow. (k, ev_token e, ow) \<notin> set (eq_regs eq))"
    proof (intro ballI conjI allI notI)
      fix e assume e: "e \<in> set es"
      show False if "ev_token e = 0" using that t(2) e by force
      fix k ow assume "(k, ev_token e, ow) \<in> set (eq_regs eq)"
      with regs_token t(1) e show False by fastforce
    qed
  qed (use ok t in auto)
  then show "sched_ok (sched_handle_events input s)"
    using fold_event_fields[of es ?s] eq_ok_dispatch[OF d ok(1)] ok(2) by (simp add: sched_ok_def s')
  show "grows s (sched_handle_events input s)" "sched_main_pid (sched_handle_events input s) = sched_main_pid s"
    "one_token s (sched_handle_events input s)"
    using fold_event_fields[of es ?s] dispatch_next_token[OF d] by (simp_all add: s' grows_def one_token_def)
qed

section \<open>A turn\<close>

lemma proc_ok_none:
  "proc_ok R s p \<Longrightarrow> proc_state p \<noteq> USSR_PROC_RUNNING \<Longrightarrow> proc_ok R (s\<lparr>sched_current := None\<rparr>) p"
proof -
  have "blocked_ok R (s\<lparr>sched_current := None\<rparr>) p = blocked_ok R s p" by (simp add: blocked_ok_def)
  then show "proc_ok R s p \<Longrightarrow> proc_state p \<noteq> USSR_PROC_RUNNING \<Longrightarrow> proc_ok R (s\<lparr>sched_current := None\<rparr>) p"
    by (cases "proc_state p") (simp_all add: proc_ok.simps)
qed

lemma current_none:
  assumes "in_slice pid s"
  shows "sched_inv {pid} (regs s) (s\<lparr>sched_current := None\<rparr>)"
proof -
  have "proc_ok (regs s) (s\<lparr>sched_current := None\<rparr>) r" if "F s q = Some r" "q \<noteq> pid" for q r
  proof -
    have "proc_ok (regs s) s r" using assms(1) that by (simp add: in_slice_def sched_inv_def)
    then show ?thesis
      using assms find_pid[OF that(1)] that(2)
      by (auto simp: proc_ok.simps blocked_ok_def in_slice_def split: ussr_proc_state.splits)
  qed
  then show ?thesis using assms(1) runq_cong[of s "s\<lparr>sched_current := None\<rparr>"]
    by (auto simp: in_slice_def sched_inv_def table_ok_def)
qed

lemma grows_cong: "grows s t \<Longrightarrow> sched_runq s' = sched_runq s \<Longrightarrow> sched_runq t' = sched_runq t \<Longrightarrow> grows s' t'"
  by (simp add: grows_def)

text \<open>The process taken off the run queue starts to run.\<close>

definition started :: "int \<Rightarrow> sched \<Rightarrow> sched" where
  "started pid s = update_proc pid (\<lambda>p. p\<lparr>proc_state := USSR_PROC_RUNNING\<rparr>) (s\<lparr>sched_current := Some pid\<rparr>)"

lemma started_ok:
  assumes ok: "sched_ok s" and d: "sched_dequeue s = Some (Some pid, s')"
  shows "in_slice pid (started pid s')" "state_of pid (started pid s') = Some USSR_PROC_RUNNING"
    "sched_eq (started pid s') = sched_eq s" "sched_main_pid (started pid s') = sched_main_pid s"
    "sched_runq s 32 = pid # sched_runq (started pid s') 32"
proof -
  have inv: "sched_inv {} (regs s) s" and e: "eq_ok (sched_eq s)" "sched_current s = None" using ok by (auto simp: sched_ok_def)
  from dequeue_ok(3)[OF inv d] obtain p rest b where p: "F s pid = Some p" "proc_state p = USSR_PROC_RUNNABLE"
    "sched_runq s 32 = pid # rest" and s': "s' = s\<lparr>sched_runq := (sched_runq s)(32 := rest), sched_bitmap := b\<rparr>"
    and b: "\<forall>l. bit b l \<longleftrightarrow> ((sched_runq s)(32 := rest)) l \<noteq> []" by blast
  have q: "runq_ok s" and t: "table_ok s" and pok: "\<And>i r. F s i = Some r \<Longrightarrow> proc_ok (regs s) s r"
    using inv by (auto simp: sched_inv_def)
  have prio: "proc_priority p = 32" using t p(1) by (auto simp: table_ok_def USSR_SCHED_DEFAULT_PRIORITY_def)
  let ?s = "started pid s'"
  have f: "F ?s i = (if i = pid then Some (p\<lparr>proc_state := USSR_PROC_RUNNING\<rparr>) else F s i)" for i
    using p(1) by (simp add: started_def find_update s')
  have fields: "sched_runq ?s = (sched_runq s)(32 := rest)" "sched_bitmap ?s = b" "sched_current ?s = Some pid"
    "sched_eq ?s = sched_eq s" "sched_main_pid ?s = sched_main_pid s" "sched_next_pid ?s = sched_next_pid s"
    by (simp_all add: started_def s')
  have "distinct (pid # rest)" using q p(3) unfolding runq_ok_def by metis
  moreover have "pid \<notin> set (sched_runq s l)" if "l \<noteq> 32" for l using q p(1) prio that by (auto simp: runq_ok_def)
  ultimately have m: "pid \<notin> set (((sched_runq s)(32 := rest)) l)"
    "i \<noteq> pid \<Longrightarrow> i \<in> set (((sched_runq s)(32 := rest)) l) \<longleftrightarrow> i \<in> set (sched_runq s l)" for i l
    using p(3) by auto
  have "i \<in> set (((sched_runq s)(32 := rest)) l) \<longleftrightarrow>
      (\<exists>p. F ?s i = Some p \<and> proc_state p = USSR_PROC_RUNNABLE \<and> proc_priority p = l)" for i l
  proof (cases "i = pid")
    case True
    then show ?thesis using m(1)[of l] unfolding f by simp
  next
    case False
    then show ?thesis using m(2)[OF False, of l] q unfolding f runq_ok_def by simp
  qed
  moreover have "distinct (((sched_runq s)(32 := rest)) l)" for l
    using q \<open>distinct (pid # rest)\<close> by (simp add: runq_ok_def)
  ultimately have "runq_ok ?s" using b by (simp add: runq_ok_def fields)
  moreover have "table_ok ?s"
  proof -
    have "map proc_pid (sched_procs ?s) = map proc_pid (sched_procs s)"
      by (simp add: started_def s')
    then show ?thesis using t p(1) unfolding table_ok_def f by (simp add: fields)
  qed
  moreover have "proc_ok (regs s) ?s r" if "F ?s i = Some r" for i r
  proof (cases "i = pid")
    case True
    then have "r = p\<lparr>proc_state := USSR_PROC_RUNNING\<rparr>" using that f by simp
    then show ?thesis using pok[OF p(1)] p(2) find_pid[OF p(1)] by (simp add: proc_ok.simps fresh_def fields)
  next
    case False
    then have "proc_ok (regs s) s r" using that f pok by simp
    then show ?thesis using e(2) f p
      by (fastforce simp: proc_ok.simps blocked_ok_def split: ussr_proc_state.splits if_splits)
  qed
  ultimately show "in_slice pid ?s" using e(1) by (simp add: in_slice_def sched_inv_def fields)
  show "state_of pid ?s = Some USSR_PROC_RUNNING" by (simp add: state_of_def f)
  show "sched_eq ?s = sched_eq s" "sched_main_pid ?s = sched_main_pid s" "sched_runq s 32 = pid # sched_runq ?s 32"
    by (simp_all add: fields p(3))
qed

lemma run_process_ok:
  assumes ok: "sched_ok s" "room s" and d: "sched_dequeue s = Some (Some pid, s1)"
    and r: "sched_run_process host input pid s1 = (failed, s')"
  shows "sched_ok s'" "sched_main_pid s' = sched_main_pid s" "\<exists>zs. sched_runq s' 32 = tl (sched_runq s 32) @ zs"
    "one_token s s'"
proof -
  note start = started_ok[OF ok(1) d]
  obtain status t where t: "vm_slice host (in_now input) USSR_SCHED_QUANTUM (in_events input) (in_end input) (started pid s1) = (status, t)"
    by fastforce
  have "room (started pid s1)" using ok(2) start(3) by (simp add: room_def)
  from slice_keeps[OF start(1,2) this t] have sl: "in_slice pid t" "grows (started pid s1) t" "sched_main_pid t = sched_main_pid s"
    "state_of pid t \<in> {Some USSR_PROC_RUNNING, Some USSR_PROC_SLEEPING, Some USSR_PROC_WAITING}"
    using start(4) by (auto simp: slice_ok_def)
  let ?t = "t\<lparr>sched_current := None\<rparr>"
  note none = current_none[OF sl(1)]
  obtain p where p: "F t pid = Some p" "proc_state p \<in> {USSR_PROC_RUNNING, USSR_PROC_SLEEPING, USSR_PROC_WAITING}"
    using sl(4) by (auto simp: state_of_def)
  have eq: "eq_ok (sched_eq t)" using sl(1) by (simp add: in_slice_def)
  have pok: "proc_ok (regs t) t p" using sl(1) p(1) by (simp add: in_slice_def sched_inv_def)
  have zombie: "sched_ok (sched_zombify pid code ?t)" for code
    using zombify_inv[OF none, of p] p regs_positive[OF eq] eq by (auto simp: sched_ok_def)
  have suspended: "sched_ok (if proc_state p = USSR_PROC_RUNNING then sched_enqueue pid ?t else ?t)"
  proof (cases "proc_state p = USSR_PROC_RUNNING")
    case True
    then have "fresh (regs t) p" using pok by (simp add: proc_ok.simps)
    then show ?thesis using enqueue_inv[OF none, of pid p] p True eq by (simp add: sched_ok_def)
  next
    case False
    have "sched_inv {} (regs t) ?t"
    proof (rule settle_inv[OF none])
      fix r assume "F ?t pid = Some r"
      then have "r = p" using p(1) by simp
      then show "proc_ok (regs t) ?t r" using proc_ok_none[OF pok False] by simp
    qed
    then show ?thesis using False eq by (simp add: sched_ok_def)
  qed
  have "sched_run_process host input pid s1 = (case status of
        USSR_VM_STATUS_ERROR \<Rightarrow> (pid = sched_main_pid ?t, sched_zombify pid (-1) ?t)
      | USSR_VM_STATUS_DONE \<Rightarrow> (False, sched_zombify pid (vm_exit_code (proc_vm p)) ?t)
      | USSR_VM_STATUS_SUSPENDED \<Rightarrow> (False, if proc_state p = USSR_PROC_RUNNING then sched_enqueue pid ?t else ?t))"
    unfolding sched_run_process_def started_def[symmetric] Let_def t prod.case by (simp add: p(1))
  then have s': "s' = (case status of USSR_VM_STATUS_ERROR \<Rightarrow> sched_zombify pid (-1) ?t
      | USSR_VM_STATUS_DONE \<Rightarrow> sched_zombify pid (vm_exit_code (proc_vm p)) ?t
      | USSR_VM_STATUS_SUSPENDED \<Rightarrow> if proc_state p = USSR_PROC_RUNNING then sched_enqueue pid ?t else ?t)"
    unfolding r by (cases status) simp_all
  show "sched_ok s'" unfolding s' using zombie suspended by (auto split: ussr_vm_status.split)
  have "one_token (started pid s1) t" using slice_keeps[OF start(1,2) \<open>room (started pid s1)\<close> t] by (simp add: slice_ok_def)
  then show "one_token s s'" unfolding s' using start(3) by (auto simp: one_token_def split: ussr_vm_status.split)
  show "sched_main_pid s' = sched_main_pid s" unfolding s' using sl(3) by (auto split: ussr_vm_status.split)
  have "grows ?t s'" unfolding s'
    by (auto simp: grows_zombify grows_enqueue grows_refl split: ussr_vm_status.split)
  moreover have "grows (started pid s1) ?t" by (rule grows_cong[OF sl(2)]) simp_all
  ultimately have "grows (started pid s1) s'" using grows_trans by blast
  then show "\<exists>zs. sched_runq s' 32 = tl (sched_runq s 32) @ zs" using start(5) by (simp add: grows_def)
qed

lemma turn_ok:
  assumes "sched_ok s" "room s"
  shows "case sched_turn host background input s of
      Turn_crash \<Rightarrow> False
    | Turn_stop s' \<Rightarrow> s' = s \<and> sched_runq s 32 = []
    | Turn_deadlock s' \<Rightarrow> s' = s \<and> sched_runq s 32 = [] \<and> \<not> ussr_eq_pending (sched_eq s)
    | Turn_next failed s' \<Rightarrow> sched_ok s' \<and> sched_main_pid s' = sched_main_pid s \<and> one_token s s' \<and>
        (sched_runq s 32 \<noteq> [] \<longrightarrow> (\<exists>zs. sched_runq s' 32 = tl (sched_runq s 32) @ zs))"
proof -
  have inv: "sched_inv {} (regs s) s" using assms(1) by (simp add: sched_ok_def)
  obtain r s1 where d: "sched_dequeue s = Some (r, s1)" using dequeue_ok(1)[OF inv] by force
  show ?thesis
  proof (cases r)
    case None
    then have s1: "s1 = s" "\<forall>pid p. F s pid = Some p \<longrightarrow> proc_state p \<noteq> USSR_PROC_RUNNABLE" using dequeue_ok(2)[OF inv] d by auto
    have "sched_runq s 32 = []"
    proof (rule ccontr)
      assume "sched_runq s 32 \<noteq> []"
      then have "hd (sched_runq s 32) \<in> set (sched_runq s 32)" by simp
      then show False using inv s1(2) unfolding sched_inv_def runq_ok_def by blast
    qed
    then show ?thesis using d None s1(1) handle_events_ok[OF assms(1)]
      by (simp add: sched_turn_def)
  next
    case (Some pid)
    obtain failed s' where p: "sched_run_process host input pid s1 = (failed, s')" by fastforce
    from run_process_ok[OF assms d[unfolded Some] p] show ?thesis by (simp add: sched_turn_def d Some p)
  qed
qed

end
