(* ===== verification/SchedulerProps.thy ===== *)
theory SchedulerProps
  imports SchedulerTurn
begin

text \<open>
  The properties of the scheduler of \<open>src/scheduler.c\<close> in every state its processes and the world
  can bring about.
\<close>

section \<open>Reachable schedulers\<close>

text \<open>
  A program is started as the main process (\<open>run_bytecode\<close> of \<open>src/main.c\<close>, several times over in the
  shell) and the loop takes turns. The 64-bit counter of event tokens must not wrap.
\<close>

inductive sched_reachable :: "sched_host \<Rightarrow> sched \<Rightarrow> bool" for host where
  sched_first: "sched_reachable host ussr_sched_init"
| sched_main: "sched_reachable host s \<Longrightarrow> sched_reachable host (snd (ussr_sched_spawn_main program entry name s))"
| sched_next: "sched_reachable host s \<Longrightarrow> room s \<Longrightarrow> sched_turn host background input s = Turn_next failed s' \<Longrightarrow>
    sched_reachable host s'"

lemma init_ok: "sched_ok ussr_sched_init"
  by (simp add: sched_ok_def sched_inv_def runq_ok_def table_ok_def ussr_sched_init_def ussr_sched_find_def eq_ok_init)

lemma main_ok:
  assumes "sched_ok s"
  shows "sched_ok (snd (ussr_sched_spawn_main program entry name s))"
proof -
  let ?n = "sched_next_pid s" and ?p = "new_proc (sched_next_pid s) program name"
  let ?s = "s\<lparr>sched_next_pid := ?n + 1, sched_procs := ?p # sched_procs s\<rparr>"
  let ?f = "\<lambda>p. p\<lparr>proc_vm := (proc_vm p)\<lparr>vm_entry_function := entry\<rparr>\<rparr>"
  have inv: "sched_inv {} (regs s) s" and e: "eq_ok (sched_eq s)" "sched_current s = None" using assms by (auto simp: sched_ok_def)
  have new: "proc_pid ?p = ?n" "proc_state ?p = USSR_PROC_NEW" "proc_block_token ?p = 0" by (simp_all add: new_proc_def)
  note f = find_create[where s=s and n="?n + 1" and p="?p", unfolded new]
  have k: "keeps_pid ?f" by (simp add: keeps_pid_def)
  have "sched_inv {?n} (regs s) (update_proc ?n ?f ?s)"
    using update_inv[OF create_inv[OF inv refl, of program name] _ k, of ?n ?p] by (simp add: f new quiet_change_def)
  then have "sched_inv {?n} (regs s) ((update_proc ?n ?f ?s)\<lparr>sched_main_pid := ?n\<rparr>)"
  proof -
    assume a: "sched_inv {?n} (regs s) (update_proc ?n ?f ?s)"
    have "proc_ok (regs s) ((update_proc ?n ?f ?s)\<lparr>sched_main_pid := ?n\<rparr>) r"
      if "F (update_proc ?n ?f ?s) q = Some r" "q \<noteq> ?n" for q r
    proof -
      have "proc_ok (regs s) (update_proc ?n ?f ?s) r" using a that by (simp add: sched_inv_def)
      then show ?thesis by (rule proc_ok_cong) auto
    qed
    then show ?thesis using a runq_cong[of "update_proc ?n ?f ?s" "(update_proc ?n ?f ?s)\<lparr>sched_main_pid := ?n\<rparr>"]
      by (auto simp: sched_inv_def table_ok_def)
  qed
  from enqueue_inv[OF this, of ?n "?f ?p"]
  have "sched_inv {} (regs s) (sched_enqueue ?n ((update_proc ?n ?f ?s)\<lparr>sched_main_pid := ?n\<rparr>))"
    using regs_positive[OF e(1)] k by (simp add: find_update f new fresh_def)
  then show ?thesis using e by (simp add: ussr_sched_spawn_main_def create_eq Let_def sched_ok_def)
qed

lemma reachable_ok: "sched_reachable host s \<Longrightarrow> sched_ok s"
proof (induction rule: sched_reachable.induct)
  case (sched_next s background input failed s')
  then show ?case using turn_ok[of s host background input] by simp
qed (simp_all add: init_ok main_ok)

section \<open>Consistency\<close>

text \<open>Who a process is waiting for, by its own bookkeeping, and what will wake it.\<close>

definition will_wake :: "sched \<Rightarrow> ussr_proc \<Rightarrow> bool" where
  "will_wake s p \<longleftrightarrow>
     (case proc_block_kind p of
        USSR_BLOCK_NONE \<Rightarrow> False
      | USSR_BLOCK_AWAIT \<Rightarrow> proc_wait_pid p \<noteq> proc_pid p \<and>
          (\<exists>q. F s (proc_wait_pid p) = Some q \<and> proc_state q \<noteq> USSR_PROC_ZOMBIE)
      | USSR_BLOCK_TIMER \<Rightarrow> \<exists>t\<in>set (eq_timers (sched_eq s)). tm_token t = proc_block_token p \<and> tm_owner t = proc_pid p
      | USSR_BLOCK_CHILD \<Rightarrow> \<exists>c\<in>set (eq_children (sched_eq s)). ch_token c = proc_block_token p \<and> ch_owner c = proc_pid p
      | USSR_BLOCK_SOCKET \<Rightarrow> \<exists>f\<in>set (eq_fds (sched_eq s)). fd_token f = proc_block_token p \<and> fd_owner f = proc_pid p)"

lemma blocked_will_wake: "blocked_ok (regs s) s p \<Longrightarrow> will_wake s p"
  by (cases "proc_block_kind p") (auto simp: blocked_ok_def will_wake_def eq_regs_def)

text \<open>
  C8: In every reachable state the run queue is sound and no wakeup is lost: taking the next
  process never follows a null pointer, the queue holds exactly the runnable processes, each
  once, process ids are unique, no process is left in between states, and every sleeping or
  waiting process waits for a process that has not ended or is registered, with its own token,
  with the event queue.
\<close>

theorem scheduler_consistent:
  assumes "sched_reachable host s"
  shows "sched_dequeue s \<noteq> None \<and> distinct (sched_runq s 32) \<and>
    set (sched_runq s 32) = {pid. \<exists>p. F s pid = Some p \<and> proc_state p = USSR_PROC_RUNNABLE} \<and>
    distinct (map proc_pid (sched_procs s)) \<and>
    (\<forall>p\<in>set (sched_procs s). proc_state p \<noteq> USSR_PROC_NEW \<and> proc_state p \<noteq> USSR_PROC_RUNNING \<and>
       (proc_state p = USSR_PROC_SLEEPING \<longrightarrow> proc_block_kind p = USSR_BLOCK_TIMER \<and> will_wake s p) \<and>
       (proc_state p = USSR_PROC_WAITING \<longrightarrow> will_wake s p))"
proof -
  have ok: "sched_inv {} (regs s) s" "sched_current s = None" using reachable_ok[OF assms] by (auto simp: sched_ok_def)
  then have q: "runq_ok s" and t: "table_ok s" by (auto simp: sched_inv_def)
  have "proc_ok (regs s) s p" if "p \<in> set (sched_procs s)" for p
    using ok(1) t that table_find by (auto simp: sched_inv_def table_ok_def)
  then have "\<forall>p\<in>set (sched_procs s). proc_state p \<noteq> USSR_PROC_NEW \<and> proc_state p \<noteq> USSR_PROC_RUNNING \<and>
       (proc_state p = USSR_PROC_SLEEPING \<longrightarrow> proc_block_kind p = USSR_BLOCK_TIMER \<and> will_wake s p) \<and>
       (proc_state p = USSR_PROC_WAITING \<longrightarrow> will_wake s p)"
    using ok(2) blocked_will_wake by (fastforce simp: proc_ok.simps split: ussr_proc_state.splits)
  moreover have "set (sched_runq s 32) = {pid. \<exists>p. F s pid = Some p \<and> proc_state p = USSR_PROC_RUNNABLE}"
    using q t by (auto simp: runq_ok_def table_ok_def USSR_SCHED_DEFAULT_PRIORITY_def)
  ultimately show ?thesis using dequeue_ok(1)[OF ok(1)] q t by (simp add: runq_ok_def table_ok_def)
qed

section \<open>Deadlock\<close>

definition waits_for :: "sched \<Rightarrow> int \<Rightarrow> int" where
  "waits_for s pid = (case F s pid of None \<Rightarrow> pid | Some p \<Rightarrow> proc_wait_pid p)"

lemma finite_orbit:
  assumes "finite A" "x \<in> A" "\<And>y. y \<in> A \<Longrightarrow> f y \<in> A"
  shows "\<exists>y\<in>A. \<exists>n>0. (f ^^ n) y = y"
proof -
  have in_A: "(f ^^ n) x \<in> A" for n by (induction n) (auto simp: assms)
  have "\<not> inj (\<lambda>n. (f ^^ n) x)"
    using assms(1) in_A finite_subset[of "range (\<lambda>n. (f ^^ n) x)" A] finite_imageD[of "\<lambda>n. (f ^^ n) x" UNIV] by auto
  then obtain i j where ij: "(f ^^ i) x = (f ^^ j) x" "i < j" by (metis injI linorder_neqE_nat)
  have "(f ^^ (j - i)) ((f ^^ i) x) = (f ^^ i) x"
    using ij by (metis comp_apply funpow_add le_add_diff_inverse2 less_imp_le)
  with in_A ij show ?thesis by (intro bexI[of _ "(f ^^ i) x"] exI[of _ "j - i"]) auto
qed

text \<open>
  C11: A deadlock is only reported when there is one: some processes have not ended, all of those
  await one another, none is runnable, nothing is registered that could wake one, and following
  who waits for whom leads in a circle.
\<close>

theorem deadlock_is_real:
  assumes "sched_reachable host s" "room s" "sched_turn host background input s = Turn_deadlock s'"
  shows "s' = s \<and> \<not> ussr_eq_pending (sched_eq s) \<and>
    (\<forall>p\<in>set (sched_procs s). proc_state p = USSR_PROC_ZOMBIE \<or>
       proc_state p = USSR_PROC_WAITING \<and> proc_block_kind p = USSR_BLOCK_AWAIT \<and> will_wake s p) \<and>
    (\<exists>p\<in>set (sched_procs s). proc_state p \<noteq> USSR_PROC_ZOMBIE \<and>
       (\<exists>n>0. (waits_for s ^^ n) (proc_pid p) = proc_pid p))"
proof -
  have ok: "sched_ok s" by (rule reachable_ok[OF assms(1)])
  then have inv: "sched_inv {} (regs s) s" and cur: "sched_current s = None" by (auto simp: sched_ok_def)
  from turn_ok[OF ok assms(2), of host background input] assms(3)
  have s': "s' = s" "sched_runq s 32 = []" "\<not> ussr_eq_pending (sched_eq s)" by auto
  have q: "runq_ok s" and t: "table_ok s" using inv by (auto simp: sched_inv_def)
  have "eq_regs (sched_eq s) = []" using s'(3) by (simp add: eq_regs_def ussr_eq_pending_def)
  then have waits: "proc_state p = USSR_PROC_WAITING \<and> proc_block_kind p = USSR_BLOCK_AWAIT \<and> blocked_ok (regs s) s p"
    if "F s i = Some p" "proc_state p \<noteq> USSR_PROC_ZOMBIE" for i p
  proof -
    have "proc_priority p = 32" using t that(1) by (auto simp: table_ok_def USSR_SCHED_DEFAULT_PRIORITY_def)
    then have "proc_state p \<noteq> USSR_PROC_RUNNABLE" using q s'(2) that(1) unfolding runq_ok_def by (metis empty_iff empty_set)
    moreover have "proc_ok (regs s) s p" using inv that(1) by (simp add: sched_inv_def)
    moreover have "blocked_ok (regs s) s p \<Longrightarrow> proc_block_kind p = USSR_BLOCK_AWAIT"
      using \<open>eq_regs (sched_eq s) = []\<close> by (auto simp: blocked_ok_def split: if_splits)
    ultimately show ?thesis using that(2) cur by (cases "proc_state p") (auto simp: proc_ok.simps)
  qed
  have live: "\<exists>p\<in>set (sched_procs s). proc_state p \<noteq> USSR_PROC_ZOMBIE"
  proof -
    obtain r s1 where d: "sched_dequeue s = Some (r, s1)" using dequeue_ok(1)[OF inv] by force
    then have "r = None" using assms(3) by (auto simp: sched_turn_def split: option.splits prod.splits)
    then have "s1 = s" using d dequeue_ok(2)[OF inv] by blast
    then show ?thesis using d \<open>r = None\<close> assms(3) by (auto simp: sched_turn_def sched_any_live_def list_ex_iff split: if_splits)
  qed
  let ?A = "{i. \<exists>p. F s i = Some p \<and> proc_state p \<noteq> USSR_PROC_ZOMBIE}"
  have "?A \<subseteq> proc_pid ` set (sched_procs s)" using find_in_table[where s=s] by blast
  then have "finite ?A" by (rule finite_subset) simp
  moreover obtain p where p: "p \<in> set (sched_procs s)" "proc_state p \<noteq> USSR_PROC_ZOMBIE" using live by blast
  moreover have find: "F s (proc_pid p) = Some p" if "p \<in> set (sched_procs s)" for p
    using that t table_find by (auto simp: table_ok_def)
  moreover have "waits_for s i \<in> ?A" if "i \<in> ?A" for i
    using waits that by (auto simp: waits_for_def blocked_ok_def)
  ultimately obtain i n where i: "i \<in> ?A" "n > 0" "(waits_for s ^^ n) i = i"
    using finite_orbit[of ?A "proc_pid p" "waits_for s"] by blast
  then obtain r where r: "F s i = Some r" "proc_state r \<noteq> USSR_PROC_ZOMBIE" by blast
  then have "r \<in> set (sched_procs s)" "proc_pid r = i" using find_pid[OF r(1)] t table_find by (auto simp: table_ok_def)
  moreover have "\<forall>p\<in>set (sched_procs s). proc_state p = USSR_PROC_ZOMBIE \<or>
       proc_state p = USSR_PROC_WAITING \<and> proc_block_kind p = USSR_BLOCK_AWAIT \<and> will_wake s p"
    using waits find blocked_will_wake by blast
  ultimately show ?thesis using s' i r by blast
qed

section \<open>Every runnable process gets its turn\<close>

text \<open>Some turns one after the other; \<open>None\<close> when the loop ends before.\<close>

primrec sched_turns :: "sched_host \<Rightarrow> bool \<Rightarrow> turn_input list \<Rightarrow> sched \<Rightarrow> sched option" where
  "sched_turns host background [] s = Some s"
| "sched_turns host background (input # inputs) s =
     (case sched_turn host background input s of
        Turn_next failed s' \<Rightarrow> sched_turns host background inputs s'
      | _ \<Rightarrow> None)"

lemma turns_fifo:
  assumes "sched_ok s" "unat (eq_next_token (sched_eq s)) + length xs < 2 ^ 64 - 1" "sched_runq s 32 = xs @ pid # ys"
    "length inputs = length xs"
  shows "\<exists>s' zs. sched_turns host background inputs s = Some s' \<and> sched_ok s' \<and> sched_runq s' 32 = pid # ys @ zs"
  using assms
proof (induction inputs arbitrary: s xs ys)
  case (Cons input inputs)
  then obtain x xs' where xs: "xs = x # xs'" by (cases xs) auto
  have room: "room s"
    unfolding room_def
  proof
    assume "eq_next_token (sched_eq s) = -1"
    then show False using Cons.prems(2) by (simp add: unsigned_minus_1_eq_mask mask_eq_exp_minus_1)
  qed
  obtain failed s1 where t: "sched_turn host background input s = Turn_next failed s1"
    "sched_ok s1" "one_token s s1" "\<exists>zs. sched_runq s1 32 = xs' @ (pid # ys) @ zs"
    using turn_ok[OF Cons.prems(1) room, of host background input] Cons.prems(3) xs by (auto split: turn_result.splits)
  then obtain zs where zs: "sched_runq s1 32 = xs' @ pid # (ys @ zs)" by auto
  have "unat (eq_next_token (sched_eq s1)) \<le> unat (eq_next_token (sched_eq s)) + 1"
    using t(3) by (auto simp: one_token_def unat_word_ariths)
  then have "unat (eq_next_token (sched_eq s1)) + length xs' < 2 ^ 64 - 1" using Cons.prems(2) xs by simp
  from Cons.IH[OF t(2) this zs] Cons.prems(4) xs t(1) show ?case by auto
qed auto

text \<open>
  C9: The scheduler is fair: a runnable process with \<open>k\<close> processes ahead of it in the queue is
  started in the turn after the next \<open>k\<close>, whatever the processes do in their slices (spawn,
  wake, block, fail) and whatever events come.
\<close>

theorem runnable_gets_its_turn:
  assumes "sched_reachable host s" "sched_runq s 32 = ahead @ pid # behind" "length inputs = length ahead"
    "unat (eq_next_token (sched_eq s)) + length ahead < 2 ^ 64 - 1"
  shows "\<exists>s' s''. sched_turns host background inputs s = Some s' \<and> sched_dequeue s' = Some (Some pid, s'')"
proof -
  from turns_fifo[OF reachable_ok[OF assms(1)] assms(4,2,3)] obtain s' zs where
    s': "sched_turns host background inputs s = Some s'" "sched_ok s'" "sched_runq s' 32 = pid # behind @ zs" by blast
  have inv: "sched_inv {} (regs s') s'" using s'(2) by (simp add: sched_ok_def)
  obtain r s1 where d: "sched_dequeue s' = Some (r, s1)" using dequeue_ok(1)[OF inv] by force
  show ?thesis
  proof (cases r)
    case None
    then have "\<forall>i p. F s' i = Some p \<longrightarrow> proc_state p \<noteq> USSR_PROC_RUNNABLE" using dequeue_ok(2)[OF inv] d by auto
    moreover have "pid \<in> set (sched_runq s' 32)" using s'(3) by simp
    ultimately show ?thesis using inv unfolding sched_inv_def runq_ok_def by blast
  next
    case (Some i)
    with dequeue_ok(3)[OF inv] d s'(3) have "i = pid" by auto
    then show ?thesis using s'(1) d Some by blast
  qed
qed

section \<open>What a turn changes\<close>

lemma run_process_frame:
  assumes ok: "sched_ok s" "room s" and d: "sched_dequeue s = Some (Some pid, s1)"
    and r: "sched_run_process host input pid s1 = (failed, s')"
  obtains (goes_on) t where "\<And>q w. q \<noteq> pid \<Longrightarrow> F s q = Some w \<Longrightarrow> F t q = Some w"
      "\<And>q. q \<noteq> pid \<Longrightarrow> F s' q = F t q" "\<And>z. F s' pid = Some z \<Longrightarrow> proc_state z \<noteq> USSR_PROC_ZOMBIE"
  | (ends) t z where "\<And>q w. q \<noteq> pid \<Longrightarrow> F s q = Some w \<Longrightarrow> F t q = Some w"
      "F s' pid = Some z" "proc_state z = USSR_PROC_ZOMBIE"
      "\<And>q w. q \<noteq> pid \<Longrightarrow> F t q = Some w \<Longrightarrow> F s' q = Some (if awaits pid w then woken (proc_result z) w else w)"
proof -
  note start = started_ok[OF ok(1) d]
  obtain status t where t: "vm_slice host (in_now input) USSR_SCHED_QUANTUM (in_events input) (in_end input) (started pid s1) = (status, t)"
    by fastforce
  have "room (started pid s1)" using ok(2) start(3) by (simp add: room_def)
  from slice_keeps[OF start(1,2) this t] have sl: "in_slice pid t" "others_kept pid (started pid s1) t"
    "state_of pid t \<in> {Some USSR_PROC_RUNNING, Some USSR_PROC_SLEEPING, Some USSR_PROC_WAITING}"
    by (auto simp: slice_ok_def)
  let ?t = "t\<lparr>sched_current := None\<rparr>"
  obtain p where p: "F t pid = Some p" "proc_state p \<in> {USSR_PROC_RUNNING, USSR_PROC_SLEEPING, USSR_PROC_WAITING}"
    using sl(3) by (auto simp: state_of_def)
  have "F (started pid s1) q = F s q" if "q \<noteq> pid" for q
  proof -
    have "sched_inv {} (regs s) s" using ok(1) by (simp add: sched_ok_def)
    from dequeue_ok(3)[OF this d] have "F s1 q = F s q" by auto
    then show ?thesis using that by (simp add: started_def find_update)
  qed
  then have kept: "F t q = Some w" if "q \<noteq> pid" "F s q = Some w" for q w using sl(2) that by (simp add: others_kept_def)
  have self: "\<not> awaits pid p"
  proof
    assume "awaits pid p"
    moreover have "proc_ok (regs t) t p" using sl(1) p(1) by (simp add: in_slice_def sched_inv_def)
    ultimately show False using find_pid[OF p(1)] by (auto simp: proc_ok.simps blocked_ok_def awaits_def)
  qed
  have "distinct (map proc_pid (sched_procs ?t))" using sl(1) by (simp add: in_slice_def sched_inv_def table_ok_def)
  note z = find_zombify[OF this, of pid p, unfolded find_fields, OF p(1) self]
  have run: "sched_run_process host input pid s1 = (case status of
        USSR_VM_STATUS_ERROR \<Rightarrow> (pid = sched_main_pid ?t, sched_zombify pid (-1) ?t)
      | USSR_VM_STATUS_DONE \<Rightarrow> (False, sched_zombify pid (vm_exit_code (proc_vm p)) ?t)
      | USSR_VM_STATUS_SUSPENDED \<Rightarrow> (False, if proc_state p = USSR_PROC_RUNNING then sched_enqueue pid ?t else ?t))"
    unfolding sched_run_process_def started_def[symmetric] Let_def t prod.case by (simp add: p(1))
  have zombie: thesis if "s' = sched_zombify pid code ?t" for code
  proof (rule ends[of t "ended code p"])
    show "F s' pid = Some (ended code p)" "proc_state (ended code p) = USSR_PROC_ZOMBIE"
      unfolding that z by (simp_all add: ended_def)
    fix q w assume "q \<noteq> pid" "F t q = Some w"
    then show "F s' q = Some (if awaits pid w then woken (proc_result (ended code p)) w else w)"
      unfolding that z by auto
  qed (rule kept)
  show thesis
  proof (cases status)
    case USSR_VM_STATUS_SUSPENDED
    then have s': "s' = (if proc_state p = USSR_PROC_RUNNING then sched_enqueue pid ?t else ?t)"
      using r unfolding run by simp
    show thesis
    proof (rule goes_on[of t])
      show "F s' q = F t q" if "q \<noteq> pid" for q using s' that by (simp add: find_enqueue)
      show "proc_state z \<noteq> USSR_PROC_ZOMBIE" if "F s' pid = Some z" for z
        using that p unfolding s' by (auto simp: find_enqueue split: if_splits)
    qed (rule kept)
  next
    case USSR_VM_STATUS_DONE
    then show thesis using r unfolding run by (intro zombie[of "vm_exit_code (proc_vm p)"]) simp
  next
    case USSR_VM_STATUS_ERROR
    then show thesis using r unfolding run by (intro zombie[of "-1"]) simp
  qed
qed

lemma handle_event_cases:
  "F (sched_handle_event e s) q = F s q \<or>
   q = ev_owner e \<and> (\<exists>p. F s q = Some p \<and> proc_state p \<noteq> USSR_PROC_ZOMBIE \<and> proc_block_token p = ev_token e \<and>
     F (sched_handle_event e s) q = Some (woken (sched_integer (if ev_kind e = EQ_CHILD then ev_exit e else 0)) p))"
  by (auto simp: sched_handle_event_def find_wake split: option.split)

lemma handle_events_cases:
  "F (fold sched_handle_event es s) q = F s q \<or>
   (\<exists>p p'. F s q = Some p \<and> proc_state p \<noteq> USSR_PROC_ZOMBIE \<and> F (fold sched_handle_event es s) q = Some p' \<and>
      proc_state p' = USSR_PROC_RUNNABLE \<and> (\<exists>e\<in>set es. ev_owner e = q \<and> ev_token e = proc_block_token p))"
proof (induction es arbitrary: s)
  case (Cons e es)
  show ?case
    using Cons[of "sched_handle_event e s"] handle_event_cases[of q e s] by (force simp: woken_def)
qed simp

lemma turn_cases:
  assumes "sched_ok s" "sched_turn host background input s = Turn_next failed s'"
  obtains (run) pid s1 where "sched_dequeue s = Some (Some pid, s1)" "sched_run_process host input pid s1 = (failed, s')"
  | (events) "sched_dequeue s = Some (None, s)" "s' = sched_handle_events input s"
proof -
  have inv: "sched_inv {} (regs s) s" using assms(1) by (simp add: sched_ok_def)
  obtain r s1 where d: "sched_dequeue s = Some (r, s1)" using dequeue_ok(1)[OF inv] by force
  show ?thesis
  proof (cases r)
    case None
    then have "s1 = s" using d dequeue_ok(2)[OF inv] by blast
    then show ?thesis using d None assms(2) events by (auto simp: sched_turn_def split: if_splits)
  next
    case (Some pid)
    then show ?thesis using d assms(2) run by (auto simp: sched_turn_def split: prod.splits)
  qed
qed

text \<open>
  C10: \<open>await\<close> returns: in the turn in which a process ends, by whatever end, every process waiting
  for it becomes runnable, and what it will find in its register is the result of the process
  that ended.
\<close>

theorem await_gets_the_result:
  assumes "sched_reachable host s" "room s" "sched_turn host background input s = Turn_next failed s'"
    and "F s q = Some w" "awaits pid w" "F s' pid = Some z" "proc_state z = USSR_PROC_ZOMBIE"
  shows "\<exists>w'. F s' q = Some w' \<and> proc_state w' = USSR_PROC_RUNNABLE \<and> resume_pending (proc_vm w') \<and>
    resume_value (proc_vm w') = proc_result z \<and> resume_register (proc_vm w') = resume_register (proc_vm w)"
proof -
  have ok: "sched_ok s" by (rule reachable_ok[OF assms(1)])
  have "proc_ok (regs s) s w" using ok assms(4) by (auto simp: sched_ok_def sched_inv_def)
  then obtain x where x: "F s pid = Some x" "proc_state x \<noteq> USSR_PROC_ZOMBIE" "pid \<noteq> q"
    using assms(5) find_pid[OF assms(4)] by (auto simp: proc_ok.simps blocked_ok_def awaits_def)
  from ok assms(3) show ?thesis
  proof (cases rule: turn_cases)
    case (run r s1)
    from ok assms(2) run show ?thesis
    proof (cases rule: run_process_frame)
      case (goes_on t)
      have "F s' pid \<noteq> Some z"
        using goes_on x assms(7) by (cases "r = pid") auto
      then show ?thesis using assms(6) by simp
    next
      case (ends t y)
      have r: "r = pid"
      proof (rule ccontr)
        assume "r \<noteq> pid"
        then have "F s' pid = Some (if awaits r x then woken (proc_result y) x else x)"
          using ends(1,4)[of pid x] x(1) by simp
        then show False using assms(6,7) x(2) by (auto simp: woken_def split: if_splits)
      qed
      then have "F s' q = Some (woken (proc_result z) w)"
        using ends(1,4)[of q w] ends(2) assms(4-6) x(3) by simp
      then show ?thesis by (simp add: woken_def)
    qed
  next
    case events
    have "F s' pid \<noteq> Some z"
    proof
      assume z: "F s' pid = Some z"
      obtain es eq where "s' = fold sched_handle_event es (s\<lparr>sched_eq := eq\<rparr>)"
        using events(2) by (auto simp: sched_handle_events_def split: prod.splits)
      then show False using handle_events_cases[of pid es "s\<lparr>sched_eq := eq\<rparr>"] z x assms(7) by auto
    qed
    then show ?thesis using assms(6) by simp
  qed
qed

section \<open>Sleeping\<close>

lemma sleeping_timer:
  assumes "sched_inv {} R s" "F s q = Some p" "proc_state p = USSR_PROC_SLEEPING"
  shows "(USSR_BLOCK_TIMER, proc_block_token p, q) \<in> R"
proof -
  have "proc_ok R s p" using assms(1,2) by (simp add: sched_inv_def)
  then have "blocked_ok R s p" "proc_block_kind p = USSR_BLOCK_TIMER" using assms(3) by (auto simp: proc_ok.simps)
  then show ?thesis using find_pid[OF assms(2)] by (simp add: blocked_ok_def)
qed

text \<open>
  C12: \<open>sleep\<close> is neither too short nor forgotten: a sleeping process becomes runnable in a turn only
  when its own timer is registered and its deadline has passed; and after a turn that waits for
  events and collects fewer than 64, every process still asleep has a deadline in the future.
\<close>

theorem sleep_lasts_until_the_deadline:
  assumes "sched_reachable host s" "room s" "sched_turn host background input s = Turn_next failed s'"
  shows "(\<forall>q p p'. F s q = Some p \<and> proc_state p = USSR_PROC_SLEEPING \<and> F s' q = Some p' \<and>
      proc_state p' \<noteq> USSR_PROC_SLEEPING \<longrightarrow> proc_state p' = USSR_PROC_RUNNABLE \<and>
      (\<exists>t\<in>set (eq_timers (sched_eq s)). tm_token t = proc_block_token p \<and> tm_owner t = q \<and> tm_deadline t \<le> in_now input)) \<and>
    (sched_runq s 32 = [] \<and>
     length (fst (ussr_eq_dispatch (in_now input) (in_waitpid input) (in_poll input) USSR_EQ_MAX_FIRED (sched_eq s))) < USSR_EQ_MAX_FIRED \<longrightarrow>
     (\<forall>p\<in>set (sched_procs s'). proc_state p = USSR_PROC_SLEEPING \<longrightarrow>
       (\<exists>t\<in>set (eq_timers (sched_eq s')). tm_token t = proc_block_token p \<and> tm_owner t = proc_pid p \<and> in_now input < tm_deadline t)))"
proof -
  have ok: "sched_ok s" by (rule reachable_ok[OF assms(1)])
  have inv: "sched_inv {} (regs s) s" "eq_ok (sched_eq s)" using ok by (auto simp: sched_ok_def)
  obtain es eq where d: "ussr_eq_dispatch (in_now input) (in_waitpid input) (in_poll input) USSR_EQ_MAX_FIRED (sched_eq s) = (es, eq)"
    by fastforce
  note fired = timers_fire_on_time[OF d]
  from ok assms(3) show ?thesis
  proof (cases rule: turn_cases)
    case (run r s1)
    have "sched_runq s 32 \<noteq> []" using dequeue_ok(3)[OF inv(1) run(1)] by auto
    moreover have "F s' q = Some p" if p: "F s q = Some p" "proc_state p = USSR_PROC_SLEEPING" for q p
    proof -
      have "r \<noteq> q" using dequeue_ok(3)[OF inv(1) run(1)] p by auto
      have "\<not> awaits r p" using p(2) by (simp add: awaits_def)
      from ok assms(2) run show ?thesis
      proof (cases rule: run_process_frame)
        case (goes_on t)
        then show ?thesis using p(1) \<open>r \<noteq> q\<close> by simp
      next
        case (ends t z)
        then show ?thesis using p(1) \<open>r \<noteq> q\<close> \<open>\<not> awaits r p\<close> by simp
      qed
    qed
    ultimately show ?thesis by auto
  next
    case events
    have s': "s' = fold sched_handle_event es (s\<lparr>sched_eq := eq\<rparr>)" using events(2) by (simp add: sched_handle_events_def d)
    have eq: "sched_eq s' = eq" using fold_event_fields s' by simp
    have one: "proc_state p' = USSR_PROC_RUNNABLE \<and> (\<exists>t\<in>set (eq_timers (sched_eq s)).
        tm_token t = proc_block_token p \<and> tm_owner t = q \<and> tm_deadline t \<le> in_now input)"
      if p: "F s q = Some p" "proc_state p = USSR_PROC_SLEEPING" "F s' q = Some p'" "proc_state p' \<noteq> USSR_PROC_SLEEPING" for q p p'
    proof -
      from handle_events_cases[of q es "s\<lparr>sched_eq := eq\<rparr>"] p obtain e where
        e: "e \<in> set es" "ev_owner e = q" "ev_token e = proc_block_token p" "proc_state p' = USSR_PROC_RUNNABLE"
        unfolding s' by auto
      have "event_reg e \<in> regs s" using mset_eq_setD[OF dispatch_regs[OF d, folded mset_append]] e(1) by auto
      moreover note sleeping_timer[OF inv(1) p(1,2)]
      moreover have "k = k'" if "(k, t, ow) \<in> regs s" "(k', t, ow') \<in> regs s" for k k' t ow ow'
      proof -
        have "distinct (map (\<lambda>(k, t, ow). t) (eq_regs (sched_eq s)))" using inv(2) tokens_regs by (simp add: eq_ok_def)
        from eq_key_imp_eq_value[of "map (\<lambda>(k, t, ow). (t, k)) (eq_regs (sched_eq s))" t k k'] this that
        show ?thesis by (force simp: comp_def split_def)
      qed
      ultimately have "fst (event_reg e) = USSR_BLOCK_TIMER" using e(2,3) by (auto simp: event_reg_def)
      then have "ev_kind e = EQ_TIMER" by (cases "ev_kind e") (auto simp: event_reg_def)
      with fired e show ?thesis by metis
    qed
    have two: "\<exists>t\<in>set (eq_timers (sched_eq s')). tm_token t = proc_block_token p \<and> tm_owner t = proc_pid p \<and> in_now input < tm_deadline t"
      if p: "p \<in> set (sched_procs s')" "proc_state p = USSR_PROC_SLEEPING" "length es < USSR_EQ_MAX_FIRED" for p
    proof -
      have "sched_ok s'" using handle_events_ok(1)[OF ok] events(2) by simp
      then have inv': "sched_inv {} (regs s') s'" by (simp add: sched_ok_def)
      have "F s' (proc_pid p) = Some p" using inv' p(1) table_find by (auto simp: sched_inv_def table_ok_def)
      from sleeping_timer[OF inv' this p(2)] have "(USSR_BLOCK_TIMER, proc_block_token p, proc_pid p) \<in> regs s'" .
      then show ?thesis using fired p(3) by (auto simp: eq_regs_def eq)
    qed
    show ?thesis using one two unfolding d by auto
  qed
qed

section \<open>Time slices\<close>

text \<open>
  C13: A quantum never ends a slice: what a process does in a slice does not depend on the quantum,
  and a process that only computes is not interrupted before it halts, for any number of
  instructions below the limit of \<open>2 * 10^9\<close> steps of its whole life, which the model leaves out.
\<close>

theorem quantum_never_preempts:
  "vm_slice host now quantum es ending s = vm_slice host now quantum' es ending s \<and>
   (current_proc s = Some p \<and> \<not> yield_request (proc_vm p) \<longrightarrow>
    fst (vm_slice host now USSR_SCHED_QUANTUM (map Vm_instruction rs) (Vm_halt code) s) = USSR_VM_STATUS_DONE)"
proof
  have q: "fst (vm_quantum quantum) = False" for quantum by (simp add: vm_quantum_def)
  have b: "\<exists>r t. \<forall>quantum. \<exists>left. vm_boundary quantum s = (r, left, t)" for s
  proof (cases "current_proc s")
    case (Some p)
    then show ?thesis by (cases "yield_request (proc_vm p)") (auto simp: vm_boundary_def vm_quantum_def)
  qed (simp add: vm_boundary_def)
  show "vm_slice host now quantum es ending s = vm_slice host now quantum' es ending s"
  proof (induction es arbitrary: s quantum quantum')
    case Nil
    from b[of s] obtain r t where "\<forall>quantum. \<exists>left. vm_boundary quantum s = (r, left, t)" by blast
    then obtain l l' where "vm_boundary quantum s = (r, l, t)" "vm_boundary quantum' s = (r, l', t)" by metis
    then show ?case by (auto split: option.split vm_end.split)
  next
    case (Cons e es)
    from b[of s] obtain r t where "\<forall>quantum. \<exists>left. vm_boundary quantum s = (r, left, t)" by blast
    then obtain l l' where l: "vm_boundary quantum s = (r, l, t)" "vm_boundary quantum' s = (r, l', t)" by metis
    obtain x u where "vm_event_step host now e t = (x, u)" by fastforce
    then show ?case using l Cons[of l u l'] by (auto split: option.split)
  qed
  have "fst (vm_slice host now quantum (map Vm_instruction rs) (Vm_halt code) s) = USSR_VM_STATUS_DONE"
    if "sched_current s = Some pid" "F s pid \<noteq> None" "\<forall>p. F s pid = Some p \<longrightarrow> \<not> yield_request (proc_vm p)" for pid quantum s
    using that
  proof (induction rs arbitrary: s quantum)
    case Nil
    then obtain p where "current_proc s = Some p" "\<not> yield_request (proc_vm p)" by (auto simp: current_proc_def)
    then show ?case by (auto simp: vm_boundary_def vm_quantum_def)
  next
    case (Cons regs rs)
    then obtain p where p: "current_proc s = Some p" "\<not> yield_request (proc_vm p)" "F s pid = Some p"
      by (auto simp: current_proc_def)
    have "sched_current (update_vm f t) = sched_current t" for f t by (simp add: update_vm_def)
    moreover have "F (update_vm f t) pid = map_option (\<lambda>p. p\<lparr>proc_vm := f (proc_vm p)\<rparr>) (F t pid)"
      if "sched_current t = Some pid" for f t
      using that by (simp add: update_vm_def current_pid_def find_update keeps_pid_def)
    ultimately show ?case
      using Cons p by (auto simp: vm_boundary_def vm_quantum_def vm_resume_def)
  qed
  then show "current_proc s = Some p \<and> \<not> yield_request (proc_vm p) \<longrightarrow>
    fst (vm_slice host now USSR_SCHED_QUANTUM (map Vm_instruction rs) (Vm_halt code) s) = USSR_VM_STATUS_DONE"
    by (auto simp: current_proc_def bind_eq_Some_conv)
qed

end
