(* ===== verification/SchedulerExample.thy ===== *)
theory SchedulerExample
  imports SchedulerProps
begin

text \<open>
  A run of the scheduler: a main process that starts a worker and awaits it, and what happens when
  the worker ends, sleeps, or awaits the main process in turn.
\<close>

definition worker_program :: ussr_bc_program where
  "worker_program = \<lparr>bc_code = [\<lparr>ins_opcode = 0xf0, ins_a = 0, ins_b = 0, ins_c = 0, ins_immediate = 0\<rparr>], bc_constants = [],
     bc_strings = [], bc_functions = [\<lparr>fn_name = ''worker'', fn_return_name = None, fn_parameters = [], fn_entry = 0, fn_locals = []\<rparr>],
     bc_oop_sites = [], bc_scan_sites = []\<rparr>"

definition no_host :: sched_host where "no_host name vs = None"

definition first_register :: "ussr_value \<Rightarrow> ussr_value list" where
  "first_register v = v # replicate 31 USSR_NULL"

definition slice_input :: "64 word \<Rightarrow> vm_event list \<Rightarrow> vm_end \<Rightarrow> turn_input" where
  "slice_input now es ending = \<lparr>in_now = now, in_waitpid = (\<lambda>_. Running), in_poll = (\<lambda>_ _. (0, False)), in_events = es, in_end = ending\<rparr>"

definition start_and_await :: "vm_event list" where
  "start_and_await = [Vm_instruction (first_register (USSR_STRING ''worker'')), Vm_command ''async'' 1 None 0, Vm_command ''await'' 1 None 0]"

definition main_state :: sched where
  "main_state = snd (ussr_sched_spawn_main worker_program (-1) ''init'' ussr_sched_init)"

lemma dequeue_empty [simp]: "sched_bitmap s = 0 \<Longrightarrow> sched_dequeue s = Some (None, s)"
proof -
  assume "sched_bitmap s = 0"
  moreover have "find (\<lambda>level. bit (0 :: 64 word) level) [0..<USSR_SCHED_LEVELS] = None" by (simp add: find_None_iff)
  ultimately show ?thesis by (simp only: sched_dequeue_def option.case)
qed

lemma dequeue_first [simp]:
  assumes "sched_bitmap s = 0x100000000" "sched_runq s 32 = pid # rest"
  shows "sched_dequeue s = Some (Some pid, s\<lparr>sched_runq := (sched_runq s)(32 := rest),
    sched_bitmap := (if rest = [] then 0 else 0x100000000)\<rparr>)"
proof -
  have "find (\<lambda>level. bit (0x100000000 :: 64 word) level) [0..<USSR_SCHED_LEVELS] = Some 32" by code_simp
  then show ?thesis using assms by (simp add: sched_dequeue_def)
qed

lemma worker_fields [simp]: "bc_functions worker_program ! 0 = \<lparr>fn_name = ''worker'', fn_return_name = None, fn_parameters = [], fn_entry = 0, fn_locals = []\<rparr>"
  "length (bc_functions worker_program) = 1" "bc_code worker_program \<noteq> []"
  by (simp_all add: worker_program_def)

lemma registers [simp]: "length (first_register v) = 32" "take 1 (first_register v) = [v]" "take (Suc 0) (first_register v) = [v]"
  "take (Suc 0) ((first_register v)[0 := w]) = [w]" "(replicate 31 v @ [w]) ! 31 = w"
  by (simp_all add: first_register_def nth_append)

lemmas sched_eval = ussr_eq_init_def USSR_BC_MAX_REGS_def USSR_BC_RETURN_REG_def ussr_sched_spawn_main_def sched_proc_create_def Let_def
  ussr_sched_init_def sched_enqueue_def ussr_sched_find_def update_proc_def vm_init_def USSR_SCHED_DEFAULT_PRIORITY_def
  sched_turn_def sched_run_process_def vm_boundary_def vm_quantum_def current_proc_def
  update_vm_def current_pid_def vm_resume_def slice_input_def USSR_SCHED_QUANTUM_def
  ussr_sched_dispatch_def has_prefix_def sched_do_async_def sched_arg_name_def sched_find_function_def ussr_sched_spawn_func_def
  vm_spawn_ok_def set_register_def sched_do_await_def sched_arg_integer_def sched_integer_def sched_block_current_def
  sched_zombify_def awaits_def sched_wake_def

text \<open>The main process starts the worker and awaits it; the worker ends, or awaits the main process. Or the main process sleeps.\<close>

definition worker_ends :: turn_input where
  "worker_ends = slice_input 6 [Vm_instruction (replicate 31 USSR_NULL @ [USSR_INTEGER 7])] (Vm_halt 0)"

definition worker_awaits_main :: turn_input where
  "worker_awaits_main = slice_input 6 [Vm_instruction (first_register (USSR_INTEGER 1)), Vm_command ''await'' 1 None 0] Vm_fault"

definition main_sleeps :: turn_input where
  "main_sleeps = slice_input 5 [Vm_instruction (first_register (USSR_INTEGER 100)), Vm_command ''sleep'' 1 None 0] Vm_fault"

definition machine_with :: "ussr_value list \<Rightarrow> ussr_vm" where
  "machine_with rs = vm_init\<lparr>vm_registers := rs\<rparr>"

definition awaiting :: "int \<Rightarrow> int \<Rightarrow> string \<Rightarrow> ussr_vm \<Rightarrow> ussr_proc" where
  "awaiting other pid name vm = (new_proc pid worker_program name)\<lparr>proc_state := USSR_PROC_WAITING, proc_vm := vm,
     proc_block_kind := USSR_BLOCK_AWAIT, proc_wait_pid := other\<rparr>"

definition main_waiting :: ussr_proc where
  "main_waiting = awaiting 2 1 ''init'' (machine_with ((first_register (USSR_STRING ''worker''))[0 := USSR_INTEGER 2]))"

definition waiting_state :: sched where
  "waiting_state = ussr_sched_init\<lparr>sched_procs := [(new_proc 2 worker_program ''worker'')\<lparr>proc_state := USSR_PROC_RUNNABLE\<rparr>, main_waiting],
     sched_next_pid := 3, sched_main_pid := 1, sched_runq := (\<lambda>_. [])(32 := [2]), sched_bitmap := 0x100000000\<rparr>"

definition circle_state :: sched where
  "circle_state = ussr_sched_init\<lparr>sched_procs := [awaiting 1 2 ''worker'' (machine_with (first_register (USSR_INTEGER 1))), main_waiting],
     sched_next_pid := 3, sched_main_pid := 1, sched_runq := (\<lambda>_. [])(32 := []), sched_bitmap := 0\<rparr>"

definition worker_done :: ussr_proc where
  "worker_done = (new_proc 2 worker_program ''worker'')\<lparr>proc_state := USSR_PROC_ZOMBIE, proc_result := USSR_INTEGER 7,
     proc_vm := machine_with (replicate 31 USSR_NULL @ [USSR_INTEGER 7])\<rparr>"

definition answered_state :: sched where
  "answered_state = ussr_sched_init\<lparr>sched_procs := [worker_done, main_waiting\<lparr>proc_state := USSR_PROC_RUNNABLE, proc_block_kind := USSR_BLOCK_NONE,
        proc_vm := (proc_vm main_waiting)\<lparr>resume_pending := True, resume_value := USSR_INTEGER 7\<rparr>\<rparr>],
     sched_next_pid := 3, sched_main_pid := 1, sched_runq := (\<lambda>_. [])(32 := [1]), sched_bitmap := 0x100000000\<rparr>"

definition main_asleep :: ussr_proc where
  "main_asleep = (new_proc 1 worker_program ''init'')\<lparr>proc_state := USSR_PROC_SLEEPING, proc_vm := machine_with (first_register (USSR_INTEGER 100)),
     proc_block_kind := USSR_BLOCK_TIMER, proc_block_token := 1\<rparr>"

definition sleeping_state :: sched where
  "sleeping_state = ussr_sched_init\<lparr>sched_procs := [main_asleep], sched_next_pid := 2, sched_main_pid := 1, sched_runq := (\<lambda>_. [])(32 := []),
     sched_eq := ussr_eq_init\<lparr>eq_timers := [\<lparr>tm_owner = 1, tm_token = 1, tm_deadline = 105\<rparr>], eq_next_token := 2\<rparr>\<rparr>"

lemmas state_eval = main_state_def waiting_state_def main_waiting_def awaiting_def machine_with_def new_proc_def

lemma main_fields: "room main_state" "sched_runq main_state 32 = [1]" "eq_next_token (sched_eq main_state) = 1"
  by (simp_all add: main_state_def sched_eval room_def)

lemma reach_main: "sched_reachable no_host main_state"
  unfolding main_state_def by (rule sched_main[OF sched_first])

lemma await_turn: "sched_turn no_host False (slice_input 5 start_and_await Vm_fault) main_state = Turn_next False waiting_state"
  by (simp add: sched_eval start_and_await_def state_eval)

lemma reach_waiting: "sched_reachable no_host waiting_state" "room waiting_state"
  using sched_next[OF reach_main main_fields(1) await_turn] by (simp_all add: room_def waiting_state_def ussr_sched_init_def ussr_eq_init_def)

lemma end_turn: "sched_turn no_host False worker_ends waiting_state = Turn_next False answered_state"
  by (simp add: sched_eval worker_ends_def state_eval answered_state_def worker_done_def)

lemma circle_turn: "sched_turn no_host False worker_awaits_main waiting_state = Turn_next False circle_state"
  by (simp add: sched_eval worker_awaits_main_def state_eval circle_state_def)

lemma sleep_turn: "sched_turn no_host False main_sleeps main_state = Turn_next False sleeping_state"
  by (simp add: sched_eval main_sleeps_def state_eval sleeping_state_def sched_do_sleep_def block_on_def ussr_eq_add_timer_def main_asleep_def)

lemma reach_circle: "sched_reachable no_host circle_state" "room circle_state"
  using sched_next[OF reach_waiting circle_turn] by (simp_all add: room_def circle_state_def ussr_sched_init_def ussr_eq_init_def)

lemma reach_sleeping: "sched_reachable no_host sleeping_state" "room sleeping_state"
  using sched_next[OF reach_main main_fields(1) sleep_turn] by (simp_all add: room_def sleeping_state_def ussr_sched_init_def ussr_eq_init_def)

lemma circle_deadlock: "sched_turn no_host False worker_ends circle_state = Turn_deadlock circle_state"
  by (simp add: sched_eval state_eval circle_state_def sched_any_live_def ussr_eq_pending_def)

section \<open>The properties in the example\<close>

theorem scheduler_consistent_witness:
  "sched_reachable no_host waiting_state \<and>
   set (sched_runq waiting_state 32) = {pid. \<exists>p. F waiting_state pid = Some p \<and> proc_state p = USSR_PROC_RUNNABLE} \<and>
   main_waiting \<in> set (sched_procs waiting_state) \<and> will_wake waiting_state main_waiting"
proof -
  have w: "main_waiting \<in> set (sched_procs waiting_state)" "proc_state main_waiting = USSR_PROC_WAITING"
    by (simp_all add: waiting_state_def main_waiting_def awaiting_def)
  then show ?thesis using scheduler_consistent[OF reach_waiting(1)] reach_waiting(1) by blast
qed

theorem deadlock_is_real_witness:
  "sched_turn no_host False worker_ends circle_state = Turn_deadlock circle_state \<and>
   (\<exists>p\<in>set (sched_procs circle_state). \<exists>n>0. (waits_for circle_state ^^ n) (proc_pid p) = proc_pid p)"
  using deadlock_is_real[OF reach_circle circle_deadlock] circle_deadlock by blast

theorem runnable_gets_its_turn_witness:
  "\<exists>s' s''. sched_turns no_host False [] main_state = Some s' \<and> sched_dequeue s' = Some (Some 1, s'')"
  by (rule runnable_gets_its_turn[OF reach_main, of "[]" 1 "[]"]) (simp_all add: main_fields)

theorem await_gets_the_result_witness:
  "sched_turn no_host False worker_ends waiting_state = Turn_next False answered_state \<and>
   (\<exists>w. F answered_state 1 = Some w \<and> proc_state w = USSR_PROC_RUNNABLE \<and> resume_value (proc_vm w) = USSR_INTEGER 7)"
proof -
  have "F waiting_state 1 = Some main_waiting" "awaits 2 main_waiting" "F answered_state 2 = Some worker_done"
    "proc_state worker_done = USSR_PROC_ZOMBIE" "proc_result worker_done = USSR_INTEGER 7"
    by (simp_all add: waiting_state_def answered_state_def state_eval worker_done_def ussr_sched_find_def awaits_def)
  from await_gets_the_result[OF reach_waiting end_turn this(1-4)] this(5) end_turn show ?thesis by auto
qed

definition late :: turn_input where "late = slice_input 200 [] Vm_fault"

theorem sleep_lasts_until_the_deadline_witness:
  "\<exists>s' p'. sched_turn no_host False late sleeping_state = Turn_next False s' \<and> F s' 1 = Some p' \<and>
     proc_state p' = USSR_PROC_RUNNABLE \<and>
     (\<exists>t\<in>set (eq_timers (sched_eq sleeping_state)). tm_token t = 1 \<and> tm_owner t = 1 \<and> tm_deadline t \<le> 200)"
proof -
  obtain s' p' where t: "sched_turn no_host False late sleeping_state = Turn_next False s'" "F s' 1 = Some p'"
    "proc_state p' \<noteq> USSR_PROC_SLEEPING"
    by (simp add: sched_eval late_def sleeping_state_def main_asleep_def state_eval sched_any_live_def ussr_eq_pending_def
        sched_handle_events_def ussr_eq_dispatch_def USSR_EQ_MAX_FIRED_def sched_handle_event_def)
  have a: "F sleeping_state 1 = Some main_asleep" "proc_state main_asleep = USSR_PROC_SLEEPING" "proc_block_token main_asleep = 1"
    by (simp_all add: sleeping_state_def main_asleep_def new_proc_def ussr_sched_find_def)
  from sleep_lasts_until_the_deadline[OF reach_sleeping t(1), THEN conjunct1, rule_format, of 1, OF conjI, OF a(1) conjI, OF a(2) conjI, OF t(2,3)]
  have "proc_state p' = USSR_PROC_RUNNABLE" "\<exists>t\<in>set (eq_timers (sched_eq sleeping_state)). tm_token t = 1 \<and> tm_owner t = 1 \<and> tm_deadline t \<le> 200"
    using a(3) by (simp_all add: late_def slice_input_def)
  with t show ?thesis by blast
qed

theorem quantum_never_preempts_witness:
  "\<exists>s. fst (vm_slice no_host 5 USSR_SCHED_QUANTUM (map Vm_instruction (replicate 20000 (replicate 32 USSR_NULL))) (Vm_halt 0) s) = USSR_VM_STATUS_DONE"
proof -
  let ?s = "main_state\<lparr>sched_current := Some 1\<rparr>"
  obtain p where "current_proc ?s = Some p \<and> \<not> yield_request (proc_vm p)"
    by (simp add: main_state_def sched_eval)
  with quantum_never_preempts[of no_host 5 0 "[]" "Vm_halt 0" ?s 0 p "replicate 20000 (replicate 32 USSR_NULL)" 0]
  show ?thesis by blast
qed

end
