(* ===== verification/StructTypes.thy ===== *)
theory StructTypes
  imports Values
begin

text \<open>
  The registry of struct types of \<open>src/uno.c\<close>: declaration, inheritance, and where a field lies. A
  type is never changed or removed once registered, so a pointer to it is the type itself, with
  its parent inside. The list \<open>g_struct_types\<close> has the newest type first. Allocation failure is left
  out.
\<close>

datatype ussr_struct_type =
  Struct_type (st_name: string) (st_parent: "ussr_struct_type option") (st_fields: "(string \<times> string) list")

definition struct_type_lookup :: "string \<Rightarrow> ussr_struct_type list \<Rightarrow> ussr_struct_type option" where
  "struct_type_lookup name types = find (\<lambda>t. st_name t = name) types"

text \<open>\<open>name:type\<close>, cut at the first colon; both parts must be there.\<close>

definition uno_parse_field_spec :: "string \<Rightarrow> (string \<times> string) option" where
  "uno_parse_field_spec spec =
     (let name = takeWhile (\<lambda>c. c \<noteq> CHR '':'') spec; rest = dropWhile (\<lambda>c. c \<noteq> CHR '':'') spec
      in if rest = [] \<or> name = [] \<or> tl rest = [] then None else Some (name, tl rest))"

fun uno_parse_fields :: "string list \<Rightarrow> (string \<times> string) list option" where
  "uno_parse_fields [] = Some []"
| "uno_parse_fields (spec # specs) =
     Option.bind (uno_parse_field_spec spec) (\<lambda>f. map_option ((#) f) (uno_parse_fields specs))"

definition uno_builtin_fields :: "string \<Rightarrow> string list option" where
  "uno_builtin_fields name =
     (if name = ''Vec2'' then Some [''x:number'', ''y:number'']
      else if name = ''Vec3'' then Some [''x:number'', ''y:number'', ''z:number'']
      else None)"

text \<open>The end of the registration, with name and parent already looked up.\<close>

definition struct_type_add ::
  "string \<Rightarrow> ussr_struct_type option \<Rightarrow> string list \<Rightarrow> ussr_struct_type list \<Rightarrow> bool \<times> ussr_struct_type list" where
  "struct_type_add name parent specs types =
     (case uno_parse_fields specs of
        None \<Rightarrow> (False, types)
      | Some fields \<Rightarrow> (True, Struct_type name parent fields # types))"

text \<open>A built-in type is registered when it is first looked for.\<close>

definition ussr_struct_type_find ::
  "string \<Rightarrow> ussr_struct_type list \<Rightarrow> ussr_struct_type option \<times> ussr_struct_type list" where
  "ussr_struct_type_find name types =
     (case struct_type_lookup name types of
        Some t \<Rightarrow> (Some t, types)
      | None \<Rightarrow>
          (case uno_builtin_fields name of
             None \<Rightarrow> (None, types)
           | Some specs \<Rightarrow>
               let types = snd (struct_type_add name None specs types)
               in (struct_type_lookup name types, types)))"

definition uno_same_builtin_fields :: "string \<Rightarrow> string list \<Rightarrow> bool" where
  "uno_same_builtin_fields name specs = (uno_builtin_fields name = Some specs)"

definition ussr_struct_register ::
  "string \<Rightarrow> string option \<Rightarrow> string list \<Rightarrow> ussr_struct_type list \<Rightarrow> bool \<times> ussr_struct_type list" where
  "ussr_struct_register name parent_name specs types =
     (case ussr_struct_type_find name types of
        (Some _, types) \<Rightarrow>
          ((parent_name = None \<or> parent_name = Some []) \<and> uno_same_builtin_fields name specs, types)
      | (None, types) \<Rightarrow>
          (case parent_name of
             Some (c # cs) \<Rightarrow>
               (case ussr_struct_type_find (c # cs) types of
                  (None, types) \<Rightarrow> (False, types)
                | (Some parent, types) \<Rightarrow> struct_type_add name (Some parent) specs types)
           | _ \<Rightarrow> struct_type_add name None specs types))"

section \<open>Inheritance\<close>

fun ussr_struct_total_field_count :: "ussr_struct_type \<Rightarrow> nat" where
  "ussr_struct_total_field_count (Struct_type name None fields) = length fields"
| "ussr_struct_total_field_count (Struct_type name (Some parent) fields) =
     length fields + ussr_struct_total_field_count parent"

fun ussr_struct_type_is :: "ussr_struct_type \<Rightarrow> string \<Rightarrow> bool" where
  "ussr_struct_type_is (Struct_type name None fields) of_name = (name = of_name)"
| "ussr_struct_type_is (Struct_type name (Some parent) fields) of_name =
     (name = of_name \<or> ussr_struct_type_is parent of_name)"

fun own_field_locate :: "string \<Rightarrow> nat \<Rightarrow> (string \<times> string) list \<Rightarrow> (nat \<times> string) option" where
  "own_field_locate name index [] = None"
| "own_field_locate name index ((n, t) # fields) =
     (if n = name then Some (index, t) else own_field_locate name (index + 1) fields)"

text \<open>The parents' fields come first.\<close>

fun uno_field_locate :: "ussr_struct_type \<Rightarrow> string \<Rightarrow> (nat \<times> string) option" where
  "uno_field_locate (Struct_type n None fields) name = own_field_locate name 0 fields"
| "uno_field_locate (Struct_type n (Some parent) fields) name =
     (case uno_field_locate parent name of
        Some x \<Rightarrow> Some x
      | None \<Rightarrow> own_field_locate name (ussr_struct_total_field_count parent) fields)"

fun uno_collect_field_defs :: "ussr_struct_type \<Rightarrow> (string \<times> string) list" where
  "uno_collect_field_defs (Struct_type name None fields) = fields"
| "uno_collect_field_defs (Struct_type name (Some parent) fields) = uno_collect_field_defs parent @ fields"

section \<open>Methods\<close>

text \<open>
  The table of methods, newest first; a body, a list of commands, is only stored here. A call looks in the
  type of the receiver first and then in its parents.
\<close>

definition ussr_method_register ::
  "string \<Rightarrow> string \<Rightarrow> 'b \<Rightarrow> ussr_struct_type list \<times> ((string \<times> string) \<times> 'b) list \<Rightarrow>
   bool \<times> ussr_struct_type list \<times> ((string \<times> string) \<times> 'b) list" where
  "ussr_method_register type_name method_name body tm =
     (case ussr_struct_type_find type_name (fst tm) of
        (None, types) \<Rightarrow> (False, types, snd tm)
      | (Some _, types) \<Rightarrow> (True, types, ((type_name, method_name), body) # snd tm))"

definition uno_method_lookup_by_name :: "string \<Rightarrow> string \<Rightarrow> ((string \<times> string) \<times> 'b) list \<Rightarrow> 'b option" where
  "uno_method_lookup_by_name type_name method_name methods =
     map_option snd (find (\<lambda>m. fst m = (type_name, method_name)) methods)"

fun ussr_method_lookup :: "ussr_struct_type \<Rightarrow> string \<Rightarrow> ((string \<times> string) \<times> 'b) list \<Rightarrow> 'b option" where
  "ussr_method_lookup (Struct_type name parent fields) method_name methods =
     (case uno_method_lookup_by_name name method_name methods of
        Some body \<Rightarrow> Some body
      | None \<Rightarrow> (case parent of None \<Rightarrow> None | Some p \<Rightarrow> ussr_method_lookup p method_name methods))"

section \<open>Where a field lies\<close>

lemma collect_length: "length (uno_collect_field_defs t) = ussr_struct_total_field_count t"
  by (induction t rule: uno_collect_field_defs.induct) simp_all

lemma own_locate_nth:
  "own_field_locate name base fields = Some (index, t) \<Longrightarrow>
   base \<le> index \<and> index < base + length fields \<and> fields ! (index - base) = (name, t)"
proof (induction name base fields rule: own_field_locate.induct)
  case (2 name base n t' fields)
  then show ?case by (auto simp: nth_Cons' split: if_splits)
qed simp

text \<open>The field found is the one whose declaration stands at its index.\<close>

lemma field_locate_nth:
  "uno_field_locate type name = Some (index, t) \<Longrightarrow>
   index < ussr_struct_total_field_count type \<and> uno_collect_field_defs type ! index = (name, t)"
proof (induction type name arbitrary: index t rule: uno_field_locate.induct)
  case (1 n fields name)
  then show ?case using own_locate_nth[of name 0 fields index t] by simp
next
  case (2 n parent fields name)
  then show ?case
    using own_locate_nth[of name "ussr_struct_total_field_count parent" fields index t]
    by (auto simp: nth_append collect_length split: option.splits)
qed

text \<open>A method declared for a type is the one its instances answer with, and inherited where it is not overridden.\<close>

lemma method_register_lookup:
  assumes "ussr_method_register type_name method_name body (types, methods) = (True, types', methods')"
  shows "ussr_method_lookup (Struct_type type_name parent fields) method_name methods' = Some body"
    and "\<not> ussr_struct_type_is t type_name \<Longrightarrow>
      ussr_method_lookup t m methods' = ussr_method_lookup t m methods"
proof -
  have m: "methods' = ((type_name, method_name), body) # methods"
    using assms by (auto simp: ussr_method_register_def split: prod.splits option.splits)
  show "ussr_method_lookup (Struct_type type_name parent fields) method_name methods' = Some body"
    by (simp add: m uno_method_lookup_by_name_def)
  have "\<not> ussr_struct_type_is t n \<Longrightarrow> n = type_name \<Longrightarrow>
      ussr_method_lookup t m methods' = ussr_method_lookup t m methods" for t n
  proof (induction t n rule: ussr_struct_type_is.induct)
    case (1 name fields of_name)
    then show ?case using m by (auto simp: uno_method_lookup_by_name_def split: option.splits)
  next
    case (2 name parent fields of_name)
    then show ?case using m by (auto simp: uno_method_lookup_by_name_def split: option.splits)
  qed
  then show "\<not> ussr_struct_type_is t type_name \<Longrightarrow>
      ussr_method_lookup t m methods' = ussr_method_lookup t m methods"
    by blast
qed

end
