(* ===== verification/Heap.thy ===== *)
theory Heap
  imports StructTypes
begin

text \<open>
  The reference-counted objects of \<open>src/uno.c\<close>: vectors and struct instances, with the ordered maps
  of \<open>src/btree.c\<close> as far as the collector sees them (a map is the list of its values, which are what
  \<open>ussr_btree_each_value\<close> visits; keys are never references). The three intrusive registries
  are one list here, newest object first, and \<open>gc_list\<close> gives each. A value that refers to an object
  carries its address, so the value itself names the object; an address that is not registered
  stands for freed memory, and an operation that would touch it gives \<open>None\<close>. Addresses are not
  reused. Left out are allocation failure, and strings, which are owned by the value that holds them.
\<close>

section \<open>Objects\<close>

datatype gc_shape = Vector_of "string option" | Instance_of ussr_struct_type | Btree

record gc_object =
  obj_shape :: gc_shape
  obj_items :: "ussr_value list"
  obj_refcount :: nat
  obj_mark :: bool

record heap =
  gc_objects :: "(ussr_value \<times> gc_object) list"
  gc_next_address :: nat
  gc_types :: "ussr_struct_type list"
  gc_alloc_count :: nat
  gc_collected_total :: nat
  gc_pending :: bool

fun is_ref :: "ussr_value \<Rightarrow> bool" where
  "is_ref (USSR_VECTOR _) = True"
| "is_ref (USSR_STRUCT _) = True"
| "is_ref (USSR_BTREE _) = True"
| "is_ref _ = False"

definition lookup :: "heap \<Rightarrow> ussr_value \<Rightarrow> gc_object option" where
  "lookup h v = map_of (gc_objects h) v"

definition update_object :: "(gc_object \<Rightarrow> gc_object) \<Rightarrow> ussr_value \<Rightarrow> heap \<Rightarrow> heap" where
  "update_object f v h = h\<lparr>gc_objects := map (\<lambda>(k, ob). if k = v then (k, f ob) else (k, ob)) (gc_objects h)\<rparr>"

text \<open>\<open>ussr_uno_gc_register_vector\<close> and its fellows; a new object is its creator's, with one reference.\<close>

definition register :: "(nat \<Rightarrow> ussr_value) \<Rightarrow> gc_shape \<Rightarrow> ussr_value list \<Rightarrow> heap \<Rightarrow> ussr_value \<times> heap" where
  "register ref shape items h =
     (let v = ref (gc_next_address h)
      in (v, h\<lparr>gc_objects := (v, \<lparr>obj_shape = shape, obj_items = items, obj_refcount = 1, obj_mark = False\<rparr>) # gc_objects h,
             gc_next_address := gc_next_address h + 1\<rparr>))"

definition unregister :: "ussr_value \<Rightarrow> heap \<Rightarrow> heap" where
  "unregister v h = h\<lparr>gc_objects := filter (\<lambda>(k, ob). k \<noteq> v) (gc_objects h)\<rparr>"

definition ussr_vector_create :: "string option \<Rightarrow> heap \<Rightarrow> ussr_value \<times> heap" where
  "ussr_vector_create element_type h =
     register USSR_VECTOR (Vector_of (if element_type = Some [] then None else element_type)) [] h"

definition create_btree_object :: "heap \<Rightarrow> ussr_value \<times> heap" where
  "create_btree_object h = register USSR_BTREE Btree [] h"

definition uno_alloc_instance :: "ussr_struct_type \<Rightarrow> heap \<Rightarrow> ussr_value \<times> heap" where
  "uno_alloc_instance type h =
     register USSR_STRUCT (Instance_of type) (replicate (ussr_struct_total_field_count type) USSR_NULL) h"

section \<open>Reference counts\<close>

text \<open>\<open>ussr_value_copy\<close> and \<open>uno_store_value\<close>: the copy of a reference is counted.\<close>

definition uno_store_value :: "ussr_value \<Rightarrow> heap \<Rightarrow> heap option" where
  "uno_store_value v h =
     (if is_ref v then
        (case lookup h v of
           None \<Rightarrow> None
         | Some _ \<Rightarrow> Some (update_object (\<lambda>ob. ob\<lparr>obj_refcount := obj_refcount ob + 1\<rparr>) v h))
      else Some h)"

lemma lookup_mem: "lookup h v = Some ob \<Longrightarrow> (v, ob) \<in> set (gc_objects h)"
  unfolding lookup_def by (rule map_of_SomeD)

lemma unregister_length: "lookup h v = Some ob \<Longrightarrow> length (gc_objects (unregister v h)) < length (gc_objects h)"
  using lookup_mem[of h v ob] by (auto simp: unregister_def intro!: length_filter_less)

text \<open>
  Releasing values one after the other. The last reference to an object unregisters it and
  releases what it holds, depth first; then its memory goes. A count of 0 would wrap around, in
  the code's \<open>size_t\<close> of 64 bits.
\<close>

function uno_release_values :: "ussr_value list \<Rightarrow> heap \<Rightarrow> heap option" where
  "uno_release_values [] h = Some h"
| "uno_release_values (v # vs) h =
     (if \<not> is_ref v then uno_release_values vs h
      else case lookup h v of
        None \<Rightarrow> None
      | Some ob \<Rightarrow>
          if obj_refcount ob \<noteq> 1 then
            uno_release_values vs (update_object (\<lambda>ob. ob\<lparr>obj_refcount :=
              (if obj_refcount ob = 0 then 2 ^ 64 - 1 else obj_refcount ob - 1)\<rparr>) v h)
          else uno_release_values (obj_items ob @ vs) (unregister v h))"
  by pat_completeness auto

termination uno_release_values
  by (relation "measures [\<lambda>(vs, h). length (gc_objects h), \<lambda>(vs, h). length vs]")
    (auto simp: unregister_length, auto simp: update_object_def)

declare uno_release_values.simps [simp del]

definition uno_release_value :: "ussr_value \<Rightarrow> heap \<Rightarrow> heap option" where
  "uno_release_value v h = uno_release_values [v] h"

section \<open>Types of values\<close>

text \<open>Every field is nullable; a name that is no built-in one means a struct or what extends it.\<close>

definition uno_type_matches :: "string \<Rightarrow> ussr_value \<Rightarrow> heap \<Rightarrow> bool option" where
  "uno_type_matches type_name v h =
     (if v = USSR_NULL then Some True
      else if type_name = ''any'' then Some True
      else if type_name = ''number'' then Some (case v of USSR_INTEGER _ \<Rightarrow> True | USSR_REAL _ \<Rightarrow> True | _ \<Rightarrow> False)
      else if type_name = ''string'' then Some (case v of USSR_STRING _ \<Rightarrow> True | _ \<Rightarrow> False)
      else if type_name = ''boolean'' then Some (case v of USSR_BOOLEAN _ \<Rightarrow> True | _ \<Rightarrow> False)
      else if type_name = ''null'' then Some (v = USSR_NULL)
      else if type_name = ''vector'' then Some (case v of USSR_VECTOR _ \<Rightarrow> True | _ \<Rightarrow> False)
      else if type_name = ''btree'' then Some (case v of USSR_BTREE _ \<Rightarrow> True | _ \<Rightarrow> False)
      else
        (case v of
           USSR_STRUCT _ \<Rightarrow>
             (case lookup h v of
                Some ob \<Rightarrow> (case obj_shape ob of Instance_of t \<Rightarrow> Some (ussr_struct_type_is t type_name) | _ \<Rightarrow> None)
              | None \<Rightarrow> None)
         | _ \<Rightarrow> Some False))"

section \<open>Vectors\<close>

text \<open>
  The flag tells success. \<open>v\<close> must be a vector: its type is checked by the caller in the code,
  here an object of another shape counts as a wrong access.
\<close>

definition vector_of :: "heap \<Rightarrow> ussr_value \<Rightarrow> (string option \<times> ussr_value list) option" where
  "vector_of h v =
     (case lookup h v of
        Some ob \<Rightarrow> (case obj_shape ob of Vector_of et \<Rightarrow> Some (et, obj_items ob) | _ \<Rightarrow> None)
      | None \<Rightarrow> None)"

definition element_matches :: "string option \<Rightarrow> ussr_value \<Rightarrow> heap \<Rightarrow> bool option" where
  "element_matches element_type v h = (case element_type of None \<Rightarrow> Some True | Some t \<Rightarrow> uno_type_matches t v h)"

definition set_items :: "ussr_value \<Rightarrow> ussr_value list \<Rightarrow> heap \<Rightarrow> heap" where
  "set_items v items h = update_object (\<lambda>ob. ob\<lparr>obj_items := items\<rparr>) v h"

definition ussr_vector_push :: "ussr_value \<Rightarrow> ussr_value \<Rightarrow> heap \<Rightarrow> (bool \<times> heap) option" where
  "ussr_vector_push v item h =
     Option.bind (vector_of h v) (\<lambda>(et, items).
       Option.bind (element_matches et item h) (\<lambda>ok.
         if \<not> ok then Some (False, h)
         else map_option (\<lambda>h. (True, set_items v (items @ [item]) h)) (uno_store_value item h)))"

definition ussr_vector_pop :: "ussr_value \<Rightarrow> heap \<Rightarrow> (ussr_value option \<times> heap) option" where
  "ussr_vector_pop v h =
     map_option (\<lambda>(et, items).
       if items = [] then (None, h) else (Some (last items), set_items v (butlast items) h)) (vector_of h v)"

definition ussr_vector_get :: "ussr_value \<Rightarrow> nat \<Rightarrow> heap \<Rightarrow> (ussr_value option \<times> heap) option" where
  "ussr_vector_get v index h =
     Option.bind (vector_of h v) (\<lambda>(et, items).
       if index \<ge> length items then Some (None, h)
       else map_option (\<lambda>h. (Some (items ! index), h)) (uno_store_value (items ! index) h))"

definition ussr_vector_length :: "ussr_value \<Rightarrow> heap \<Rightarrow> nat option" where
  "ussr_vector_length v h = map_option (\<lambda>(et, items). length items) (vector_of h v)"

text \<open>The slot is released before it is written: while the old item goes, the slot still shows it.\<close>

definition replace_item :: "ussr_value \<Rightarrow> ussr_value list \<Rightarrow> nat \<Rightarrow> ussr_value \<Rightarrow> heap \<Rightarrow> (bool \<times> heap) option" where
  "replace_item v items index item h =
     Option.bind (uno_store_value item h) (\<lambda>h.
       Option.bind (uno_release_value (items ! index) h) (\<lambda>h.
         map_option (\<lambda>_. (True, set_items v (items[index := item]) h)) (lookup h v)))"

definition ussr_vector_set :: "ussr_value \<Rightarrow> nat \<Rightarrow> ussr_value \<Rightarrow> heap \<Rightarrow> (bool \<times> heap) option" where
  "ussr_vector_set v index item h =
     Option.bind (vector_of h v) (\<lambda>(et, items).
       if index \<ge> length items then Some (False, h)
       else Option.bind (element_matches et item h) (\<lambda>ok.
         if \<not> ok then Some (False, h) else replace_item v items index item h))"

section \<open>Struct instances\<close>

definition instance_of :: "heap \<Rightarrow> ussr_value \<Rightarrow> (ussr_struct_type \<times> ussr_value list) option" where
  "instance_of h v =
     (case lookup h v of
        Some ob \<Rightarrow> (case obj_shape ob of Instance_of t \<Rightarrow> Some (t, obj_items ob) | _ \<Rightarrow> None)
      | None \<Rightarrow> None)"

text \<open>One field is stored over whatever its slot holds.\<close>

definition store_field :: "ussr_value \<Rightarrow> nat \<Rightarrow> ussr_value \<Rightarrow> heap \<Rightarrow> heap option" where
  "store_field v index item h =
     Option.bind (uno_store_value item h) (\<lambda>h.
       map_option (\<lambda>(t, items). set_items v (items[index := item]) h) (instance_of h v))"

text \<open>Fields in the order of declaration, each checked against its type.\<close>

fun fill_fields :: "ussr_value \<Rightarrow> nat \<Rightarrow> (string \<times> string) list \<Rightarrow> ussr_value list \<Rightarrow> heap \<Rightarrow> (bool \<times> heap) option" where
  "fill_fields v i ((n, t) # defs) (arg # args) h =
     Option.bind (uno_type_matches t arg h) (\<lambda>ok.
       if \<not> ok then Some (False, h)
       else Option.bind (store_field v i arg h) (fill_fields v (i + 1) defs args))"
| "fill_fields v i defs args h = Some (True, h)"

text \<open>An instance whose construction fails is released again.\<close>

definition finish_instance :: "ussr_value \<Rightarrow> bool \<times> heap \<Rightarrow> (ussr_value option \<times> heap) option" where
  "finish_instance v r =
     (case r of
        (True, h) \<Rightarrow> Some (Some v, h)
      | (False, h) \<Rightarrow> map_option (Pair None) (uno_release_value v h))"

definition ussr_struct_instantiate :: "string \<Rightarrow> ussr_value list \<Rightarrow> heap \<Rightarrow> (ussr_value option \<times> heap) option" where
  "ussr_struct_instantiate type_name args h =
     (case ussr_struct_type_find type_name (gc_types h) of
        (None, types) \<Rightarrow> Some (None, h\<lparr>gc_types := types\<rparr>)
      | (Some type, types) \<Rightarrow>
          let h = h\<lparr>gc_types := types\<rparr> in
          if ussr_struct_total_field_count type \<noteq> length args then Some (None, h)
          else
            let (v, h) = uno_alloc_instance type h in
            Option.bind (fill_fields v 0 (uno_collect_field_defs type) args h) (finish_instance v))"

text \<open>Named fields, in any order; \<open>satisfied\<close> has the indices that were given.\<close>

fun fill_named ::
  "ussr_value \<Rightarrow> ussr_struct_type \<Rightarrow> (string \<times> ussr_value) list \<Rightarrow> nat set \<Rightarrow> heap \<Rightarrow> (bool \<times> heap) option" where
  "fill_named v type [] satisfied h = Some ({..<ussr_struct_total_field_count type} \<subseteq> satisfied, h)"
| "fill_named v type ((name, arg) # named) satisfied h =
     (case uno_field_locate type name of
        None \<Rightarrow> Some (False, h)
      | Some (index, t) \<Rightarrow>
          Option.bind (uno_type_matches t arg h) (\<lambda>ok.
            if \<not> ok then Some (False, h)
            else Option.bind (store_field v index arg h) (fill_named v type named (insert index satisfied))))"

definition ussr_struct_instantiate_named ::
  "string \<Rightarrow> (string \<times> ussr_value) list \<Rightarrow> heap \<Rightarrow> (ussr_value option \<times> heap) option" where
  "ussr_struct_instantiate_named type_name named h =
     (case ussr_struct_type_find type_name (gc_types h) of
        (None, types) \<Rightarrow> Some (None, h\<lparr>gc_types := types\<rparr>)
      | (Some type, types) \<Rightarrow>
          let (v, h) = uno_alloc_instance type (h\<lparr>gc_types := types\<rparr>) in
          Option.bind (fill_named v type named {} h) (finish_instance v))"

definition ussr_struct_get_field :: "ussr_value \<Rightarrow> string \<Rightarrow> heap \<Rightarrow> (ussr_value option \<times> heap) option" where
  "ussr_struct_get_field v name h =
     Option.bind (instance_of h v) (\<lambda>(type, items).
       case uno_field_locate type name of
         None \<Rightarrow> Some (None, h)
       | Some (index, t) \<Rightarrow> map_option (\<lambda>h. (Some (items ! index), h)) (uno_store_value (items ! index) h))"

definition ussr_struct_set_field :: "ussr_value \<Rightarrow> string \<Rightarrow> ussr_value \<Rightarrow> heap \<Rightarrow> (bool \<times> heap) option" where
  "ussr_struct_set_field v name item h =
     Option.bind (instance_of h v) (\<lambda>(type, items).
       case uno_field_locate type name of
         None \<Rightarrow> Some (False, h)
       | Some (index, t) \<Rightarrow>
           Option.bind (uno_type_matches t item h) (\<lambda>ok.
             if \<not> ok then Some (False, h) else replace_item v items index item h))"

section \<open>The collector\<close>

text \<open>\<open>src/gc.c\<close>: the three registries in the order it walks them.\<close>

definition gc_list :: "(ussr_value \<Rightarrow> bool) \<Rightarrow> heap \<Rightarrow> (ussr_value \<times> gc_object) list" where
  "gc_list kind h = filter (\<lambda>(v, ob). kind v) (gc_objects h)"

fun is_vector :: "ussr_value \<Rightarrow> bool" where "is_vector (USSR_VECTOR _) = True" | "is_vector _ = False"
fun is_struct :: "ussr_value \<Rightarrow> bool" where "is_struct (USSR_STRUCT _) = True" | "is_struct _ = False"
fun is_btree :: "ussr_value \<Rightarrow> bool" where "is_btree (USSR_BTREE _) = True" | "is_btree _ = False"

definition USSR_GC_ALLOC_THRESHOLD :: nat where "USSR_GC_ALLOC_THRESHOLD = 4096"

definition ussr_gc_note_alloc :: "heap \<Rightarrow> heap" where
  "ussr_gc_note_alloc h =
     (if gc_alloc_count h + 1 \<ge> USSR_GC_ALLOC_THRESHOLD then h\<lparr>gc_alloc_count := 0, gc_pending := True\<rparr>
      else h\<lparr>gc_alloc_count := gc_alloc_count h + 1\<rparr>)"

definition ussr_gc_request :: "heap \<Rightarrow> heap" where "ussr_gc_request h = h\<lparr>gc_pending := True\<rparr>"

definition ussr_gc_object_count :: "heap \<Rightarrow> nat" where
  "ussr_gc_object_count h = length (gc_list is_vector h) + length (gc_list is_struct h) + length (gc_list is_btree h)"

definition ussr_gc_begin :: "heap \<Rightarrow> heap" where
  "ussr_gc_begin h = h\<lparr>gc_objects := map (\<lambda>(v, ob). (v, ob\<lparr>obj_mark := False\<rparr>)) (gc_objects h)\<rparr>"

text \<open>
  Marking recurses through the items of an object that was not marked; the list holds the values
  that the loops of the calls under way have still to look at.
\<close>

definition without_mark :: "heap \<Rightarrow> nat" where
  "without_mark h = length (filter (\<lambda>(v, ob). \<not> obj_mark ob) (gc_objects h))"

lemma mark_unmarked:
  assumes "lookup h v = Some ob" "\<not> obj_mark ob"
  shows "without_mark (update_object (\<lambda>ob. ob\<lparr>obj_mark := True\<rparr>) v h) < without_mark h"
proof -
  have "length (filter (\<lambda>(k, ob). \<not> obj_mark ob) (map (\<lambda>(k, ob). if k = v then (k, ob\<lparr>obj_mark := True\<rparr>) else (k, ob)) xs)) +
      (if map_of xs v = Some ob then 1 else 0) \<le> length (filter (\<lambda>(k, ob). \<not> obj_mark ob) xs)" for xs
    using assms(2) by (induction xs) auto
  from this[of "gc_objects h"] show ?thesis using assms(1) by (simp add: without_mark_def update_object_def lookup_def)
qed

function gc_mark_values :: "ussr_value list \<Rightarrow> heap \<Rightarrow> heap option" where
  "gc_mark_values [] h = Some h"
| "gc_mark_values (v # vs) h =
     (if \<not> is_ref v then gc_mark_values vs h
      else case lookup h v of
        None \<Rightarrow> None
      | Some ob \<Rightarrow>
          if obj_mark ob then gc_mark_values vs h
          else gc_mark_values (obj_items ob @ vs) (update_object (\<lambda>ob. ob\<lparr>obj_mark := True\<rparr>) v h))"
  by pat_completeness auto

termination gc_mark_values
  by (relation "measures [\<lambda>(vs, h). without_mark h, \<lambda>(vs, h). length vs]") (auto simp: mark_unmarked)

declare gc_mark_values.simps [simp del]

definition ussr_gc_mark_value :: "ussr_value \<Rightarrow> heap \<Rightarrow> heap option" where
  "ussr_gc_mark_value v h = gc_mark_values [v] h"

text \<open>What garbage holds of garbage is uncounted, without following it.\<close>

definition gc_unref_garbage_child :: "ussr_value \<Rightarrow> heap \<Rightarrow> heap option" where
  "gc_unref_garbage_child v h =
     (if \<not> is_ref v then Some h
      else case lookup h v of
        None \<Rightarrow> None
      | Some ob \<Rightarrow>
          Some (if \<not> obj_mark ob \<and> obj_refcount ob > 0
            then update_object (\<lambda>ob. ob\<lparr>obj_refcount := obj_refcount ob - 1\<rparr>) v h else h))"

fun gc_unref_children :: "ussr_value list \<Rightarrow> heap \<Rightarrow> heap option" where
  "gc_unref_children [] h = Some h"
| "gc_unref_children (v # vs) h = Option.bind (gc_unref_garbage_child v h) (gc_unref_children vs)"

definition gc_garbage :: "(ussr_value \<Rightarrow> bool) \<Rightarrow> heap \<Rightarrow> (ussr_value \<times> gc_object) list" where
  "gc_garbage kind h = filter (\<lambda>(v, ob). \<not> obj_mark ob) (gc_list kind h)"

definition gc_detach :: "(ussr_value \<Rightarrow> bool) \<Rightarrow> heap \<Rightarrow> heap option" where
  "gc_detach kind h = gc_unref_children (concat (map (\<lambda>(v, ob). obj_items ob) (gc_garbage kind h))) h"

definition gc_reclaim :: "(ussr_value \<Rightarrow> bool) \<Rightarrow> nat \<times> heap \<Rightarrow> nat \<times> heap" where
  "gc_reclaim kind nh =
     (let (n, h) = nh
      in (n + length (gc_garbage kind h), fold (\<lambda>(v, ob). unregister v) (gc_garbage kind h) h))"

definition ussr_gc_sweep :: "heap \<Rightarrow> (nat \<times> heap) option" where
  "ussr_gc_sweep h =
     Option.bind (gc_detach is_vector h) (\<lambda>h. Option.bind (gc_detach is_struct h) (\<lambda>h.
       map_option (\<lambda>h.
         let (collected, h) = gc_reclaim is_btree (gc_reclaim is_struct (gc_reclaim is_vector (0, h)))
         in (collected, h\<lparr>gc_collected_total := gc_collected_total h + collected, gc_pending := False, gc_alloc_count := 0\<rparr>))
       (gc_detach is_btree h)))"

text \<open>\<open>sched_gc_collect\<close> of \<open>src/scheduler.c\<close>, over the values its root walks come to.\<close>

definition sched_gc_collect :: "ussr_value list \<Rightarrow> heap \<Rightarrow> (nat \<times> heap) option" where
  "sched_gc_collect roots h = Option.bind (gc_mark_values roots (ussr_gc_begin h)) ussr_gc_sweep"

end
