(* ===== verification/HeapRefs.thy ===== *)
theory HeapRefs
  imports Heap
begin

text \<open>
  Reference counting is sound: with the references that variables, registers and C locals hold
  counted outside the heap, every object's count covers all references to it, so releasing one
  frees nothing that is still referred to and touches no freed memory.
\<close>

section \<open>Counting references\<close>

definition refs_in :: "heap \<Rightarrow> ussr_value \<Rightarrow> nat" where
  "refs_in h r = (\<Sum>(v, ob)\<leftarrow>gc_objects h. count_list (obj_items ob) r)"

definition well_shaped :: "ussr_value \<Rightarrow> gc_object \<Rightarrow> bool" where
  "well_shaped v ob \<longleftrightarrow>
     (case obj_shape ob of
        Vector_of _ \<Rightarrow> is_vector v
      | Instance_of t \<Rightarrow> is_struct v \<and> length (obj_items ob) = ussr_struct_total_field_count t
      | Btree \<Rightarrow> is_btree v)"

fun address :: "ussr_value \<Rightarrow> nat" where
  "address (USSR_VECTOR a) = a"
| "address (USSR_STRUCT a) = a"
| "address (USSR_BTREE a) = a"
| "address _ = 0"

text \<open>\<open>ext r\<close> references to \<open>r\<close> are held outside the heap.\<close>

definition alive :: "heap \<Rightarrow> ussr_value \<Rightarrow> bool" where
  "alive h v \<longleftrightarrow> is_ref v \<longrightarrow> lookup h v \<noteq> None"

definition heap_ok :: "(ussr_value \<Rightarrow> nat) \<Rightarrow> heap \<Rightarrow> bool" where
  "heap_ok ext h \<longleftrightarrow> distinct (map fst (gc_objects h)) \<and>
     (\<forall>v ob. lookup h v = Some ob \<longrightarrow> is_ref v \<and> address v < gc_next_address h \<and> well_shaped v ob \<and>
        (\<forall>x\<in>set (obj_items ob). alive h x) \<and> 0 < obj_refcount ob \<and> refs_in h v + ext v \<le> obj_refcount ob) \<and>
     (\<forall>v. 0 < ext v \<longrightarrow> alive h v)"

definition held :: "(ussr_value \<Rightarrow> nat) \<Rightarrow> ussr_value \<Rightarrow> bool" where
  "held ext v \<longleftrightarrow> is_ref v \<longrightarrow> 0 < ext v"

definition plus_refs :: "(ussr_value \<Rightarrow> nat) \<Rightarrow> ussr_value list \<Rightarrow> ussr_value \<Rightarrow> nat" where
  "plus_refs ext vs r = ext r + count_list vs r"

lemma plus_refs_Nil [simp]: "plus_refs ext [] = ext" by (simp add: plus_refs_def fun_eq_iff)

lemma ok_object:
  assumes "heap_ok ext h" "lookup h v = Some ob"
  shows "is_ref v" "address v < gc_next_address h" "well_shaped v ob" "x \<in> set (obj_items ob) \<Longrightarrow> alive h x"
    "0 < obj_refcount ob" "refs_in h v + ext v \<le> obj_refcount ob"
  using assms by (auto simp: heap_ok_def)

lemma ok_alive: "heap_ok ext h \<Longrightarrow> 0 < ext v \<Longrightarrow> alive h v"
  by (auto simp: heap_ok_def)

lemma ok_held: "heap_ok ext h \<Longrightarrow> held ext v \<Longrightarrow> alive h v"
  by (auto simp: heap_ok_def held_def alive_def)

lemma ok_distinct: "heap_ok ext h \<Longrightarrow> distinct (map fst (gc_objects h))"
  by (simp add: heap_ok_def)

section \<open>Lookup after an update\<close>

lemma map_of_update:
  "map_of (map (\<lambda>(k, ob). if k = v then (k, f ob) else (k, ob)) xs) w = (if w = v then map_option f (map_of xs v) else map_of xs w)"
  by (induction xs) auto

lemma lookup_update: "lookup (update_object f v h) w = (if w = v then map_option f (lookup h v) else lookup h w)"
  by (simp add: lookup_def update_object_def map_of_update)

lemma lookup_unregister: "lookup (unregister v h) w = (if w = v then None else lookup h w)"
proof -
  have "map_of (filter (\<lambda>(k, ob). k \<noteq> v) xs) w = (if w = v then None else map_of xs w)" for xs :: "(ussr_value \<times> gc_object) list"
    by (induction xs) auto
  then show ?thesis by (simp add: lookup_def unregister_def)
qed

lemma update_keys: "map fst (gc_objects (update_object f v h)) = map fst (gc_objects h)"
  by (auto simp: update_object_def)

lemma unregister_distinct: "distinct (map fst (gc_objects h)) \<Longrightarrow> distinct (map fst (gc_objects (unregister v h)))"
  by (simp add: unregister_def distinct_map_filter)

lemma fields_update [simp]:
  "gc_next_address (update_object f v h) = gc_next_address h" "gc_types (update_object f v h) = gc_types h"
  "gc_next_address (unregister v h) = gc_next_address h" "gc_types (unregister v h) = gc_types h"
  by (simp_all add: update_object_def unregister_def)

lemma alive_update [simp]: "alive (update_object f v h) x = alive h x"
  by (simp add: alive_def lookup_update)

lemma refs_split:
  assumes "distinct (map fst (gc_objects h))" "lookup h v = Some ob"
  shows "refs_in h r = count_list (obj_items ob) r + refs_in (unregister v h) r"
proof -
  have "(\<Sum>(k, ob)\<leftarrow>xs. count_list (obj_items ob) r) =
      (case map_of xs v of None \<Rightarrow> 0 | Some ob \<Rightarrow> count_list (obj_items ob) r) +
      (\<Sum>(k, ob)\<leftarrow>filter (\<lambda>(k, ob). k \<noteq> v) xs. count_list (obj_items ob) r)" if "distinct (map fst xs)" for xs
    using that
  proof (induction xs)
    case (Cons x xs)
    obtain k ob where x: "x = (k, ob)" by fastforce
    show ?case
    proof (cases "k = v")
      case True
      then have "filter (\<lambda>(k, ob). k \<noteq> v) xs = xs" using Cons.prems x by (force simp: filter_id_conv)
      then show ?thesis using True x by simp
    next
      case False
      then show ?thesis using Cons x by (auto split: option.splits)
    qed
  qed simp
  from this[OF assms(1)] show ?thesis using assms(2) by (simp add: refs_in_def unregister_def lookup_def)
qed

lemma unregister_update: "unregister v (update_object f v h) = unregister v h"
proof -
  have "filter (\<lambda>(k, ob). k \<noteq> v) (map (\<lambda>(k, ob). if k = v then (k, f ob) else (k, ob)) xs) = filter (\<lambda>(k, ob). k \<noteq> v) xs"
    for xs :: "(ussr_value \<times> gc_object) list" by (induction xs) auto
  then show ?thesis by (simp add: unregister_def update_object_def)
qed

lemma refs_update:
  assumes "distinct (map fst (gc_objects h))" "lookup h v = Some ob"
  shows "refs_in (update_object f v h) r + count_list (obj_items ob) r = refs_in h r + count_list (obj_items (f ob)) r"
proof -
  have "lookup (update_object f v h) v = Some (f ob)" using assms(2) by (simp add: lookup_update)
  from refs_split[OF _ this] refs_split[OF assms] show ?thesis
    using assms(1) by (simp add: update_keys unregister_update)
qed

lemma refs_same:
  assumes "distinct (map fst (gc_objects h))" "\<And>ob. obj_items (f ob) = obj_items ob"
  shows "refs_in (update_object f v h) r = refs_in h r"
proof (cases "lookup h v")
  case None
  then have "\<forall>p\<in>set (gc_objects h). fst p \<noteq> v" by (auto simp: lookup_def map_of_eq_None_iff)
  then have "update_object f v h = h" by (force simp: update_object_def intro!: heap.equality map_idI)
  then show ?thesis by simp
next
  case (Some ob)
  from refs_update[OF assms(1) Some, of f r] assms(2) show ?thesis by simp
qed

lemma shape_count [simp]: "well_shaped v (ob\<lparr>obj_refcount := n\<rparr>) = well_shaped v ob"
  "well_shaped v (ob\<lparr>obj_mark := m\<rparr>) = well_shaped v ob"
  by (cases "obj_shape ob"; simp add: well_shaped_def)+

text \<open>Changing the count of one object.\<close>

lemma count_change:
  assumes ok: "heap_ok ext h" and v: "lookup h v = Some ob"
    and n: "0 < n (obj_refcount ob)" "refs_in h v + ext' v \<le> n (obj_refcount ob)"
    and ext: "\<And>r. r \<noteq> v \<Longrightarrow> ext' r = ext r"
  shows "heap_ok ext' (update_object (\<lambda>ob. ob\<lparr>obj_refcount := n (obj_refcount ob)\<rparr>) v h)"
proof -
  have d: "distinct (map fst (gc_objects h))" by (rule ok_distinct[OF ok])
  have "alive h v" using v by (simp add: alive_def)
  then have "alive h w" if "0 < ext' w" for w
    using that ok_alive[OF ok, of w] ext[of w] by (cases "w = v") auto
  then show ?thesis
    using ok v n ext d
    by (auto simp: heap_ok_def lookup_update update_keys refs_same split: if_splits)
qed

section \<open>Storing\<close>

lemma store_ok:
  assumes "heap_ok ext h" "alive h v"
  shows "\<exists>h'. uno_store_value v h = Some h' \<and> heap_ok (plus_refs ext [v]) h'"
proof (cases "is_ref v")
  case False
  then have "heap_ok (plus_refs ext [v]) h"
    using assms(1) unfolding heap_ok_def plus_refs_def by (auto simp: alive_def split: if_splits)
  then show ?thesis using False by (simp add: uno_store_value_def)
next
  case True
  then obtain ob where ob: "lookup h v = Some ob" using assms(2) by (auto simp: alive_def)
  have "heap_ok (plus_refs ext [v]) (update_object (\<lambda>ob. ob\<lparr>obj_refcount := obj_refcount ob + 1\<rparr>) v h)"
    using ok_object(6)[OF assms(1) ob]
    by (intro count_change[OF assms(1) ob, of "\<lambda>n. n + 1"]) (auto simp: plus_refs_def)
  then show ?thesis using True ob by (simp add: uno_store_value_def)
qed

section \<open>Releasing\<close>

text \<open>What releasing leaves: some objects, as they were but for their counts.\<close>

definition kept :: "heap \<Rightarrow> heap \<Rightarrow> bool" where
  "kept h h' \<longleftrightarrow> gc_types h' = gc_types h \<and> gc_next_address h' = gc_next_address h \<and>
     (\<forall>v ob'. lookup h' v = Some ob' \<longrightarrow>
        (\<exists>ob. lookup h v = Some ob \<and> obj_items ob' = obj_items ob \<and> obj_shape ob' = obj_shape ob))"

lemma kept_refl: "kept h h" by (simp add: kept_def)

lemma kept_trans: "kept h g \<Longrightarrow> kept g k \<Longrightarrow> kept h k"
  unfolding kept_def by metis

lemma kept_count: "kept h (update_object (\<lambda>ob. ob\<lparr>obj_refcount := n (obj_refcount ob)\<rparr>) v h)"
  by (auto simp: kept_def lookup_update)

lemma kept_unregister: "kept h (unregister v h)"
  by (auto simp: kept_def lookup_unregister split: if_splits)

lemma free_ok:
  assumes ok: "heap_ok (plus_refs ext (v # vs)) h" and v: "lookup h v = Some ob" "obj_refcount ob = 1"
  shows "heap_ok (plus_refs ext (obj_items ob @ vs)) (unregister v h)"
proof -
  have d: "distinct (map fst (gc_objects h))" by (rule ok_distinct[OF ok])
  have "refs_in h v + ext v + count_list (v # vs) v \<le> 1"
    using ok_object(6)[OF ok v(1)] v(2) by (simp add: plus_refs_def)
  then have z: "refs_in h v = 0" "ext v = 0" "count_list vs v = 0" by auto
  note split = refs_split[OF d v(1)]
  have "count_list (obj_items ob) v = 0" using split[of v] z(1) by simp
  then have own: "v \<notin> set (obj_items ob)" by (simp add: count_list_0_iff)
  have others: "v \<notin> set (obj_items ob')" if "lookup h w = Some ob'" for w ob'
  proof -
    have "count_list (obj_items ob') v = 0" using refs_split[OF d that, of v] z(1) by simp
    then show ?thesis by (simp add: count_list_0_iff)
  qed
  have alive: "alive (unregister v h) x" if "alive h x" "x \<noteq> v" for x
    using that by (simp add: alive_def lookup_unregister)
  have "alive (unregister v h) w" if "0 < plus_refs ext (obj_items ob @ vs) w" for w
  proof (rule alive)
    show "w \<noteq> v" using that z own by (auto simp: plus_refs_def count_list_0_iff)
    show "alive h w"
    proof (cases "w \<in> set (obj_items ob)")
      case True
      then show ?thesis by (rule ok_object(4)[OF ok v(1)])
    next
      case False
      then have "0 < plus_refs ext (v # vs) w" using that by (auto simp: plus_refs_def count_list_0_iff)
      then show ?thesis by (rule ok_alive[OF ok])
    qed
  qed
  moreover have "is_ref w \<and> address w < gc_next_address h \<and> well_shaped w ob' \<and> (\<forall>x\<in>set (obj_items ob'). alive (unregister v h) x) \<and>
      0 < obj_refcount ob' \<and> refs_in (unregister v h) w + plus_refs ext (obj_items ob @ vs) w \<le> obj_refcount ob'"
    if w: "lookup h w = Some ob'" "w \<noteq> v" for w ob'
  proof -
    have "refs_in h w + plus_refs ext (v # vs) w \<le> obj_refcount ob'" by (rule ok_object(6)[OF ok w(1)])
    then have "refs_in (unregister v h) w + plus_refs ext (obj_items ob @ vs) w \<le> obj_refcount ob'"
      using split[of w] w(2) by (simp add: plus_refs_def)
    then show ?thesis using ok_object(1-5)[OF ok w(1)] others[OF w(1)] alive by metis
  qed
  ultimately show ?thesis
    using unregister_distinct[OF d] by (auto simp: heap_ok_def lookup_unregister split: if_splits)
qed

lemma release_ok:
  "heap_ok (plus_refs ext vs) h \<Longrightarrow> \<exists>h'. uno_release_values vs h = Some h' \<and> heap_ok ext h' \<and> kept h h'"
proof (induction vs h rule: uno_release_values.induct)
  case (1 h)
  then show ?case by (simp add: uno_release_values.simps kept_refl)
next
  case (2 v vs h)
  show ?case
  proof (cases "is_ref v")
    case False
    have "heap_ok (plus_refs ext vs) h"
      using 2(4) False unfolding heap_ok_def plus_refs_def by (auto split: if_splits)
    then show ?thesis using 2(1) False by (simp add: uno_release_values.simps)
  next
    case True
    have pos: "0 < plus_refs ext (v # vs) v" by (simp add: plus_refs_def)
    then obtain ob where ob: "lookup h v = Some ob" using ok_alive[OF 2(4) pos] True by (auto simp: alive_def)
    show ?thesis
    proof (cases "obj_refcount ob = 1")
      case one: True
      from 2(3)[OF _ ob] free_ok[OF 2(4) ob one] True one obtain h' where
        h': "uno_release_values (obj_items ob @ vs) (unregister v h) = Some h'" "heap_ok ext h'" "kept (unregister v h) h'" by auto
      then show ?thesis using True ob one kept_trans[OF kept_unregister h'(3)]
        by (simp add: uno_release_values.simps)
    next
      case False
      let ?n = "\<lambda>n :: nat. if n = 0 then 2 ^ 64 - 1 else n - 1"
      let ?h = "update_object (\<lambda>ob. ob\<lparr>obj_refcount := ?n (obj_refcount ob)\<rparr>) v h"
      have "refs_in h v + plus_refs ext vs v + 1 \<le> obj_refcount ob"
        using ok_object(6)[OF 2(4) ob] by (simp add: plus_refs_def)
      then have "heap_ok (plus_refs ext vs) ?h"
        using False by (intro count_change[OF 2(4) ob, of ?n]) (auto simp: plus_refs_def)
      from 2(2)[OF _ ob _ this] True False obtain h' where
        h': "uno_release_values vs ?h = Some h'" "heap_ok ext h'" "kept ?h h'" by auto
      then show ?thesis using True ob False kept_trans[OF kept_count h'(3)]
        by (simp add: uno_release_values.simps)
    qed
  qed
qed

end
