(* ===== verification/HeapOps.thy ===== *)
theory HeapOps
  imports HeapRefs
begin

text \<open>
  Every operation on vectors and struct instances keeps the counts sound and the declared types
  of elements and fields true.
\<close>

section \<open>Typing\<close>

definition matches :: "heap \<Rightarrow> string \<Rightarrow> ussr_value \<Rightarrow> bool" where
  "matches h t x \<longleftrightarrow> uno_type_matches t x h = Some True"

definition slot_fits :: "heap \<Rightarrow> gc_object \<Rightarrow> bool" where
  "slot_fits h ob \<longleftrightarrow>
     (case obj_shape ob of
        Vector_of et \<Rightarrow> (\<forall>t. et = Some t \<longrightarrow> (\<forall>x\<in>set (obj_items ob). matches h t x))
      | Instance_of type \<Rightarrow> (\<forall>i<length (obj_items ob). matches h (snd (uno_collect_field_defs type ! i)) (obj_items ob ! i))
      | Btree \<Rightarrow> True)"

definition typed :: "heap \<Rightarrow> bool" where
  "typed h \<longleftrightarrow> (\<forall>v ob. lookup h v = Some ob \<longrightarrow> slot_fits h ob)"

text \<open>Types look at the shapes of objects only.\<close>

definition shape_at :: "heap \<Rightarrow> ussr_value \<Rightarrow> gc_shape option" where
  "shape_at h v = map_option obj_shape (lookup h v)"

lemma type_matches_shape:
  "shape_at h x = shape_at h' x \<Longrightarrow> uno_type_matches t x h = uno_type_matches t x h'"
  by (cases x) (auto simp: uno_type_matches_def shape_at_def split: option.splits)

lemma matches_null [simp]: "matches h t USSR_NULL"
  by (simp add: matches_def uno_type_matches_def)

lemma matches_scalar: "\<not> is_ref x \<Longrightarrow> uno_type_matches t x h = uno_type_matches t x h'"
  by (cases x) (simp_all add: uno_type_matches_def)

lemma kept_shape: "kept h h' \<Longrightarrow> lookup h' x \<noteq> None \<Longrightarrow> shape_at h x = shape_at h' x"
  by (force simp: kept_def shape_at_def)

lemma matches_kept:
  assumes "kept h h'" "alive h' x"
  shows "matches h t x = matches h' t x"
proof (cases "is_ref x")
  case True
  then have "shape_at h x = shape_at h' x" using assms by (intro kept_shape) (auto simp: alive_def)
  from type_matches_shape[OF this] show ?thesis by (simp add: matches_def)
next
  case False
  from matches_scalar[OF this, of t h h'] show ?thesis by (simp add: matches_def)
qed

lemma type_matches_defined:
  assumes "heap_ok ext h" "alive h x"
  shows "\<exists>b. uno_type_matches t x h = Some b"
proof -
  have "uno_type_matches t x h \<noteq> None"
  proof (cases x)
    case (USSR_STRUCT a)
    then obtain ob where ob: "lookup h x = Some ob" using assms(2) by (auto simp: alive_def)
    then have "well_shaped x ob" by (rule ok_object(3)[OF assms(1)])
    then obtain type where "obj_shape ob = Instance_of type"
      using USSR_STRUCT by (auto simp: well_shaped_def split: gc_shape.splits)
    then show ?thesis using USSR_STRUCT ob by (simp add: uno_type_matches_def ex_bool_eq)
  qed (simp_all add: uno_type_matches_def ex_bool_eq)
  then show ?thesis by blast
qed

definition heap_inv :: "(ussr_value \<Rightarrow> nat) \<Rightarrow> heap \<Rightarrow> bool" where
  "heap_inv ext h \<longleftrightarrow> heap_ok ext h \<and> typed h"

lemma typed_kept:
  assumes "typed h" "kept h h'" "heap_ok ext h'"
  shows "typed h'"
  unfolding typed_def
proof (intro allI impI)
  fix v ob' assume ob': "lookup h' v = Some ob'"
  then obtain ob where ob: "lookup h v = Some ob" "obj_items ob' = obj_items ob" "obj_shape ob' = obj_shape ob"
    using assms(2) by (auto simp: kept_def)
  have "slot_fits h ob" using assms(1) ob(1) by (simp add: typed_def)
  moreover have "matches h t x = matches h' t x" if "x \<in> set (obj_items ob')" for t x
    using ok_object(4)[OF assms(3) ob' that] by (rule matches_kept[OF assms(2)])
  ultimately show "slot_fits h' ob'" using ob(2,3) by (auto simp: slot_fits_def split: gc_shape.splits)
qed

lemma same_shapes_kept: "(\<And>v. shape_at h v = shape_at h' v) \<Longrightarrow> matches h t x = matches h' t x"
  using type_matches_shape[of h x h' t] by (simp add: matches_def)

lemma shape_update: "(\<And>ob. obj_shape (f ob) = obj_shape ob) \<Longrightarrow> shape_at (update_object f v h) w = shape_at h w"
  by (auto simp: shape_at_def lookup_update option.map_comp comp_def)

lemma inv_release:
  assumes "heap_inv (plus_refs ext vs) h"
  shows "\<exists>h'. uno_release_values vs h = Some h' \<and> heap_inv ext h' \<and> kept h h'"
  using release_ok[of ext vs h] typed_kept[of h] assms unfolding heap_inv_def by blast

lemma inv_store:
  assumes "heap_inv ext h" "alive h v"
  shows "\<exists>h'. uno_store_value v h = Some h' \<and> heap_inv (plus_refs ext [v]) h' \<and> kept h h' \<and> kept h' h"
proof -
  obtain h' where h': "uno_store_value v h = Some h'" "heap_ok (plus_refs ext [v]) h'"
    using store_ok[of ext h v] assms by (auto simp: heap_inv_def)
  have "kept h (update_object (\<lambda>ob. ob\<lparr>obj_refcount := obj_refcount ob + 1\<rparr>) v h) \<and>
      kept (update_object (\<lambda>ob. ob\<lparr>obj_refcount := obj_refcount ob + 1\<rparr>) v h) h"
    by (auto simp: kept_def lookup_update)
  then have k: "kept h h' \<and> kept h' h"
    using h'(1) by (auto simp: uno_store_value_def kept_refl split: if_splits option.splits)
  have "typed h" using assms(1) by (simp add: heap_inv_def)
  then have "typed h'" using typed_kept h'(2) k by blast
  then show ?thesis using h' k by (simp add: heap_inv_def)
qed

section \<open>Changing the items of an object\<close>

lemma lookup_set_items: "lookup (set_items v items h) w = (if w = v then map_option (\<lambda>ob. ob\<lparr>obj_items := items\<rparr>) (lookup h v) else lookup h w)"
  by (simp add: set_items_def lookup_update)

lemma set_items_fields [simp]:
  "map fst (gc_objects (set_items v items h)) = map fst (gc_objects h)"
  "gc_next_address (set_items v items h) = gc_next_address h" "gc_types (set_items v items h) = gc_types h"
  "alive (set_items v items h) x = alive h x"
  by (simp_all add: set_items_def update_keys)

lemma set_items_inv:
  assumes inv: "heap_inv ext h" and v: "lookup h v = Some ob"
    and items: "\<And>x. x \<in> set items \<Longrightarrow> alive h x" "\<And>r. count_list items r + ext' r \<le> count_list (obj_items ob) r + ext r"
      "length items = length (obj_items ob) \<or> is_vector v" "slot_fits h (ob\<lparr>obj_items := items\<rparr>)"
    and ext: "\<And>w. 0 < ext' w \<Longrightarrow> alive h w"
  shows "heap_inv ext' (set_items v items h)"
proof -
  have ok: "heap_ok ext h" and t: "typed h" using inv by (auto simp: heap_inv_def)
  let ?f = "\<lambda>ob. ob\<lparr>obj_items := items\<rparr>"
  have d: "distinct (map fst (gc_objects h))" by (rule ok_distinct[OF ok])
  have "refs_in (set_items v items h) w + ext' w \<le> refs_in h w + ext w" for w
    using refs_update[OF d v, of ?f w] items(2)[of w] by (simp add: set_items_def)
  then have refs: "refs_in (set_items v items h) w + ext' w \<le> obj_refcount ob'" if "lookup h w = Some ob'" for w ob'
    using ok_object(6)[OF ok that] le_trans by blast
  have "well_shaped v (?f ob)"
    using ok_object(3)[OF ok v] items(3) by (cases v; cases "obj_shape ob") (auto simp: well_shaped_def)
  moreover have "matches (set_items v items h) t x = matches h t x" for t x
    by (rule same_shapes_kept) (simp add: set_items_def shape_update)
  then have "slot_fits (set_items v items h) ob' = slot_fits h ob'" for ob'
    by (cases "obj_shape ob'") (simp_all add: slot_fits_def)
  ultimately show ?thesis
    using ok t v items(1,4) ext d refs
    by (simp add: heap_inv_def heap_ok_def typed_def lookup_set_items)
qed

lemma update_fuse: "update_object f v (update_object g v h) = update_object (f \<circ> g) v h"
proof -
  have "map (\<lambda>(k, ob). if k = v then (k, f ob) else (k, ob)) (map (\<lambda>(k, ob). if k = v then (k, g ob) else (k, ob)) xs) =
      map (\<lambda>(k, ob). if k = v then (k, (f \<circ> g) ob) else (k, ob)) xs" for xs :: "(ussr_value \<times> gc_object) list"
    by (induction xs) auto
  then show ?thesis by (simp only: update_object_def heap.simps heap.surjective) simp
qed

lemma update_commute:
  assumes "v = w \<Longrightarrow> f \<circ> g = g \<circ> f"
  shows "update_object f v (update_object g w h) = update_object g w (update_object f v h)"
proof -
  have "map (\<lambda>(k, ob). if k = v then (k, f ob) else (k, ob)) (map (\<lambda>(k, ob). if k = w then (k, g ob) else (k, ob)) xs) =
      map (\<lambda>(k, ob). if k = w then (k, g ob) else (k, ob)) (map (\<lambda>(k, ob). if k = v then (k, f ob) else (k, ob)) xs)"
    for xs :: "(ussr_value \<times> gc_object) list"
    using assms by (induction xs) (auto simp: fun_eq_iff)
  then show ?thesis by (simp add: update_object_def del: map_map)
qed

lemma set_items_twice: "set_items v xs (set_items v ys h) = set_items v xs h"
  unfolding set_items_def update_fuse by (rule arg_cong[where f="\<lambda>f. update_object f v h"]) (simp add: fun_eq_iff)

lemma set_items_same:
  assumes "distinct (map fst (gc_objects h))" "lookup h v = Some ob"
  shows "set_items v (obj_items ob) h = h"
proof -
  have "x = (v, ob)" if "x \<in> set (gc_objects h)" "fst x = v" for x
    using that assms map_of_is_SomeI[of "gc_objects h" v "snd x"] by (cases x) (auto simp: lookup_def)
  then have "map (\<lambda>(k, ob'). if k = v then (k, ob'\<lparr>obj_items := obj_items ob\<rparr>) else (k, ob')) (gc_objects h) = gc_objects h"
    by (intro map_idI) force
  then show ?thesis by (simp add: set_items_def update_object_def)
qed

section \<open>Overwriting a slot\<close>

text \<open>Releasing does not look at the items of an object that survives it.\<close>

lemma set_items_count:
  "set_items v items (update_object (\<lambda>ob. ob\<lparr>obj_refcount := n (obj_refcount ob)\<rparr>) w h) =
   update_object (\<lambda>ob. ob\<lparr>obj_refcount := n (obj_refcount ob)\<rparr>) w (set_items v items h)"
  unfolding set_items_def by (rule update_commute) (simp add: fun_eq_iff)

lemma set_items_unregister: "set_items v items (unregister w h) = unregister w (set_items v items h)"
proof -
  have "map (\<lambda>(k, ob). if k = v then (k, ob\<lparr>obj_items := items\<rparr>) else (k, ob)) (filter (\<lambda>(k, ob). k \<noteq> w) xs) =
      filter (\<lambda>(k, ob). k \<noteq> w) (map (\<lambda>(k, ob). if k = v then (k, ob\<lparr>obj_items := items\<rparr>) else (k, ob)) xs)"
    for xs :: "(ussr_value \<times> gc_object) list" by (induction xs) (auto split: if_splits)
  then show ?thesis by (simp add: set_items_def update_object_def unregister_def)
qed

lemma release_shrinks: "uno_release_values vs h = Some h' \<Longrightarrow> lookup h' v \<noteq> None \<Longrightarrow> lookup h v \<noteq> None"
proof (induction vs h rule: uno_release_values.induct)
  case (2 w vs h)
  show ?case
  proof (cases "is_ref w")
    case True
    then obtain ob where ob: "lookup h w = Some ob"
      using 2(4) by (auto simp: uno_release_values.simps split: option.splits)
    show ?thesis
      using 2(2)[OF _ ob] 2(3)[OF _ ob] 2(4,5) True ob
      by (auto simp: uno_release_values.simps lookup_update lookup_unregister split: if_splits)
  qed (use 2 in \<open>simp add: uno_release_values.simps\<close>)
qed (simp add: uno_release_values.simps)

lemma release_items_irrelevant:
  "uno_release_values vs (set_items v new h) = Some h' \<Longrightarrow> lookup h' v \<noteq> None \<Longrightarrow> lookup h v = Some ob \<Longrightarrow>
   set_items v (obj_items ob) h = h \<Longrightarrow> uno_release_values vs h = Some (set_items v (obj_items ob) h')"
proof (induction vs h arbitrary: ob rule: uno_release_values.induct)
  case (1 h)
  then show ?case by (auto simp: uno_release_values.simps set_items_twice)
next
  case (2 w vs h)
  show ?case
  proof (cases "is_ref w")
    case True
    then obtain ow where ow: "lookup h w = Some ow"
      using 2(4) by (auto simp: uno_release_values.simps lookup_set_items split: option.splits if_splits)
    let ?new = "\<lambda>ob. if w = v then ob\<lparr>obj_items := new\<rparr> else ob"
    have ow': "lookup (set_items v new h) w = Some (?new ow)" using ow by (auto simp: lookup_set_items)
    show ?thesis
    proof (cases "obj_refcount ow = 1")
      case one: True
      have "v \<noteq> w"
      proof
        assume "v = w"
        then have "uno_release_values (new @ vs) (unregister v (set_items v new h)) = Some h'"
          using 2(4) True one ow' by (simp add: uno_release_values.simps)
        then show False using release_shrinks 2(5) by (fastforce simp: lookup_unregister)
      qed
      then have "uno_release_values (obj_items ow @ vs) (set_items v new (unregister w h)) = Some h'"
        using 2(4) True one ow' by (simp add: uno_release_values.simps set_items_unregister)
      from 2(3)[OF _ ow _ this 2(5)] \<open>v \<noteq> w\<close> 2(6,7) True one ow show ?thesis
        by (simp add: uno_release_values.simps lookup_unregister set_items_unregister)
    next
      case False
      let ?n = "\<lambda>n :: nat. if n = 0 then 2 ^ 64 - 1 else n - 1"
      let ?u = "\<lambda>ob. ob\<lparr>obj_refcount := ?n (obj_refcount ob)\<rparr>"
      have "obj_refcount (?new ow) \<noteq> 1" using False by simp
      then have r: "uno_release_values vs (set_items v new (update_object ?u w h)) = Some h'"
        using 2(4) True ow' set_items_count[of v new ?n w h] by (simp add: uno_release_values.simps)
      let ?ob = "if w = v then ?u ob else ob"
      have l: "lookup (update_object ?u w h) v = Some ?ob" using 2(6) by (auto simp: lookup_update)
      have items: "obj_items ?ob = obj_items ob" by simp
      have same: "set_items v (obj_items ?ob) (update_object ?u w h) = update_object ?u w h"
        unfolding items set_items_count[of v "obj_items ob" ?n w h] 2(7) ..
      have "uno_release_values vs (update_object ?u w h) = Some (set_items v (obj_items ob) h')"
        using 2(2)[OF _ ow False r 2(5) l same] True unfolding items by simp
      then show ?thesis using True ow False by (simp add: uno_release_values.simps)
    qed
  qed (use 2 in \<open>simp add: uno_release_values.simps\<close>)
qed

lemma replace_ok:
  assumes inv: "heap_inv ext h" and v: "lookup h v = Some ob" "held ext v" "is_ref v"
    and index: "index < length (obj_items ob)" and item: "alive h item"
    and slot_fits: "slot_fits h (ob\<lparr>obj_items := (obj_items ob)[index := item]\<rparr>)"
  shows "\<exists>h'. replace_item v (obj_items ob) index item h = Some (True, h') \<and> heap_inv ext h'"
proof -
  let ?old = "obj_items ob ! index" and ?new = "(obj_items ob)[index := item]"
  obtain h1 where h1: "uno_store_value item h = Some h1" "heap_inv (plus_refs ext [item]) h1" "kept h h1" "kept h1 h"
    using inv_store[OF inv item] by blast
  then obtain ob1 where ob1: "lookup h1 v = Some ob1" "obj_items ob1 = obj_items ob" "obj_shape ob1 = obj_shape ob"
    using ok_alive[of "plus_refs ext [item]" h1 v] v
    by (fastforce simp: heap_inv_def held_def plus_refs_def alive_def kept_def)
  have ok1: "heap_ok (plus_refs ext [item]) h1" using h1(2) by (simp add: heap_inv_def)
  have alive1: "alive h1 x" if "alive h x" for x
  proof (cases "lookup h x")
    case None
    then show ?thesis using that by (simp add: alive_def)
  next
    case (Some a)
    then show ?thesis using h1(1) by (auto simp: uno_store_value_def alive_def lookup_update split: if_splits option.splits)
  qed
  have count: "count_list ?new r + count_list [?old] r \<le> count_list (obj_items ob) r + count_list [item] r" for r
    using index
  proof (induction "obj_items ob" arbitrary: ob index)
    case (Cons x xs)
    show ?case
    proof (cases index)
      case (Suc i)
      then show ?thesis using Cons.hyps(1)[of "ob\<lparr>obj_items := xs\<rparr>" i] Cons.prems
        by (auto simp flip: Cons.hyps(2) split: if_splits)
    qed (simp flip: Cons.hyps(2))
  qed simp
  have "heap_inv (plus_refs ext [?old]) (set_items v ?new h1)"
  proof (rule set_items_inv[OF h1(2) ob1(1)])
    fix x assume "x \<in> set ?new"
    then have "x = item \<or> x \<in> set (obj_items ob)" using set_update_subset_insert by fastforce
    then show "alive h1 x" using alive1[OF item] ok_object(4)[OF ok1 ob1(1), of x] ob1(2) by auto
  next
    show "count_list ?new r + plus_refs ext [?old] r \<le> count_list (obj_items ob1) r + plus_refs ext [item] r" for r
      using count[of r] ob1(2) by (simp add: plus_refs_def)
  next
    have "matches h1 t x = matches h t x" if "x \<in> set ?new" for t x
    proof (rule matches_kept[symmetric, OF h1(3)])
      from that have "x = item \<or> x \<in> set (obj_items ob)" using set_update_subset_insert by fastforce
      then show "alive h1 x" using alive1[OF item] ok_object(4)[OF ok1 ob1(1), of x] ob1(2) by auto
    qed
    then show "slot_fits h1 (ob1\<lparr>obj_items := ?new\<rparr>)"
      using slot_fits ob1(3) by (cases "obj_shape ob") (auto simp: slot_fits_def set_conv_nth)
  next
    fix w assume "0 < plus_refs ext [?old] w"
    then have "0 < plus_refs ext [item] w \<or> w = ?old" by (auto simp: plus_refs_def split: if_splits)
    then show "alive h1 w" using ok_alive[OF ok1] ok_object(4)[OF ok1 ob1(1), of w] index ob1(2) by auto
  qed (use ob1 in simp)
  from inv_release[OF this] obtain h' where
    h': "uno_release_values [?old] (set_items v ?new h1) = Some h'" "heap_inv ext h'" "kept (set_items v ?new h1) h'" by blast
  have "lookup h' v \<noteq> None" using ok_held[of ext h' v] h'(2) v by (auto simp: heap_inv_def alive_def)
  then obtain ob' where ob': "lookup h' v = Some ob'" by auto
  have d: "distinct (map fst (gc_objects h1))" by (rule ok_distinct[OF ok1])
  have r: "uno_release_values [?old] h1 = Some (set_items v (obj_items ob) h')"
    using release_items_irrelevant[OF h'(1) _ ob1(1)] ob' set_items_same[OF d ob1(1)] ob1(2) by simp
  obtain ob2 where "lookup (set_items v ?new h1) v = Some ob2" "obj_items ob' = obj_items ob2"
    using h'(3) ob' unfolding kept_def by blast
  then have "obj_items ob' = ?new" using ob1(1) by (auto simp: lookup_set_items)
  then have "set_items v ?new h' = h'"
    using set_items_same[OF _ ob'] ok_distinct[of ext h'] h'(2) by (simp add: heap_inv_def)
  then show ?thesis
    using h1(1) r h'(2) ob' by (simp add: replace_item_def uno_release_value_def lookup_set_items set_items_twice)
qed

section \<open>Vectors\<close>

lemma vector_object:
  assumes "heap_inv ext h" "vector_of h v = Some (et, items)"
  obtains ob where "lookup h v = Some ob" "obj_shape ob = Vector_of et" "obj_items ob = items" "is_vector v" "is_ref v"
proof -
  obtain ob where ob: "lookup h v = Some ob" "obj_shape ob = Vector_of et" "obj_items ob = items"
    using assms(2) by (auto simp: vector_of_def split: option.splits gc_shape.splits)
  have "well_shaped v ob" using ok_object(3)[OF _ ob(1)] assms(1) by (auto simp: heap_inv_def)
  with ob that show thesis by (cases v) (auto simp: well_shaped_def)
qed

lemma vector_held:
  assumes "heap_inv ext h" "held ext v" "is_vector v"
  shows "\<exists>et items. vector_of h v = Some (et, items)"
proof -
  have "is_ref v" using assms(3) by (cases v) auto
  then obtain ob where ob: "lookup h v = Some ob" using ok_held assms(1,2) by (fastforce simp: heap_inv_def alive_def)
  then have "well_shaped v ob" using ok_object(3) assms(1) by (auto simp: heap_inv_def)
  then show ?thesis using ob assms(3) by (cases v) (auto simp: well_shaped_def vector_of_def split: gc_shape.splits)
qed

lemma element_defined: "heap_inv ext h \<Longrightarrow> alive h x \<Longrightarrow> \<exists>b. element_matches et x h = Some b"
  using type_matches_defined by (auto simp: element_matches_def heap_inv_def split: option.splits)

lemma push_ok:
  assumes inv: "heap_inv ext h" and v: "held ext v" "is_vector v" and item: "held ext item"
  shows "\<exists>ok h'. ussr_vector_push v item h = Some (ok, h') \<and> heap_inv ext h'"
proof -
  obtain et items where vo: "vector_of h v = Some (et, items)" using vector_held[OF inv v] by blast
  obtain ob where ob: "lookup h v = Some ob" "obj_shape ob = Vector_of et" "obj_items ob = items" "is_ref v"
    using vector_object[OF inv vo] by blast
  have ali: "alive h item" using inv item ok_held by (auto simp: heap_inv_def)
  obtain b where b: "element_matches et item h = Some b" using element_defined[OF inv ali] by blast
  show ?thesis
  proof (cases b)
    case True
    obtain h1 where h1: "uno_store_value item h = Some h1" "heap_inv (plus_refs ext [item]) h1" "kept h h1" "kept h1 h"
      using inv_store[OF inv ali] by blast
    obtain ob1 where ob1: "lookup h1 v = Some ob1" "obj_items ob1 = items" "obj_shape ob1 = obj_shape ob"
      using h1(4) ob unfolding kept_def by metis
    have ok1: "heap_ok (plus_refs ext [item]) h1" using h1(2) by (simp add: heap_inv_def)
    have ali1: "alive h1 item" by (rule ok_alive[OF ok1]) (simp add: plus_refs_def)
    have ali_all: "alive h1 x" if "x \<in> set (items @ [item])" for x
      using that ali1 ok_object(4)[OF ok1 ob1(1), of x] ob1(2) by auto
    have "heap_inv ext (set_items v (items @ [item]) h1)"
    proof (rule set_items_inv[OF h1(2) ob1(1) ali_all])
      have "slot_fits h ob" using inv ob(1) by (auto simp: heap_inv_def typed_def)
      moreover have "matches h1 t x = matches h t x" if "x \<in> set (items @ [item])" for t x
        using matches_kept[OF h1(3) ali_all[OF that]] by simp
      moreover have "matches h t item" if "et = Some t" for t
        using b that True by (simp add: element_matches_def matches_def)
      ultimately show "slot_fits h1 (ob1\<lparr>obj_items := items @ [item]\<rparr>)"
        using ob(2,3) ob1(3) by (auto simp: slot_fits_def)
    next
      fix w assume "0 < ext w"
      then show "alive h1 w" by (intro ok_alive[OF ok1]) (simp add: plus_refs_def)
    qed (use ob1(2) v(2) in \<open>auto simp: plus_refs_def\<close>)
    then show ?thesis using vo b True h1(1) by (auto simp: ussr_vector_push_def)
  qed (use vo b inv in \<open>auto simp: ussr_vector_push_def\<close>)
qed

lemma pop_ok:
  assumes inv: "heap_inv ext h" and v: "held ext v" "is_vector v"
  shows "\<exists>r h'. ussr_vector_pop v h = Some (r, h') \<and>
    (case r of None \<Rightarrow> heap_inv ext h' | Some x \<Rightarrow> heap_inv (plus_refs ext [x]) h')"
proof -
  obtain et items where vo: "vector_of h v = Some (et, items)" using vector_held[OF inv v] by blast
  obtain ob where ob: "lookup h v = Some ob" "obj_shape ob = Vector_of et" "obj_items ob = items" "is_ref v"
    using vector_object[OF inv vo] by blast
  have ok: "heap_ok ext h" using inv by (simp add: heap_inv_def)
  show ?thesis
  proof (cases "items = []")
    case True
    then show ?thesis using vo inv by (simp add: ussr_vector_pop_def)
  next
    case False
    have al: "alive h x" if "x \<in> set items" for x using ok_object(4)[OF ok ob(1)] that ob(3) by simp
    have "heap_inv (plus_refs ext [last items]) (set_items v (butlast items) h)"
    proof (rule set_items_inv[OF inv ob(1)])
      show "count_list (butlast items) r + plus_refs ext [last items] r \<le> count_list (obj_items ob) r + ext r" for r
        using False ob(3) count_list_append[of "butlast items" "[last items]" r] by (simp add: plus_refs_def)
      have "slot_fits h ob" using inv ob(1) by (auto simp: heap_inv_def typed_def)
      then show "slot_fits h (ob\<lparr>obj_items := butlast items\<rparr>)" using ob(2,3) by (auto simp: slot_fits_def dest: in_set_butlastD)
    next
      fix w assume "0 < plus_refs ext [last items] w"
      then show "alive h w" using ok_alive[OF ok, of w] al[of "last items"] False by (auto simp: plus_refs_def split: if_splits)
    qed (use al v(2) in \<open>auto dest: in_set_butlastD\<close>)
    then show ?thesis using vo False by (simp add: ussr_vector_pop_def)
  qed
qed

lemma get_ok:
  assumes inv: "heap_inv ext h" and v: "held ext v" "is_vector v"
  shows "\<exists>r h'. ussr_vector_get v index h = Some (r, h') \<and>
    (case r of None \<Rightarrow> heap_inv ext h' | Some x \<Rightarrow> heap_inv (plus_refs ext [x]) h')"
proof -
  obtain et items where vo: "vector_of h v = Some (et, items)" using vector_held[OF inv v] by blast
  obtain ob where ob: "lookup h v = Some ob" "obj_items ob = items" using vector_object[OF inv vo] by blast
  show ?thesis
  proof (cases "index < length items")
    case True
    then have "alive h (items ! index)" using ok_object(4)[of ext h v ob "items ! index"] inv ob by (auto simp: heap_inv_def)
    from inv_store[OF inv this] show ?thesis using vo True by (auto simp: ussr_vector_get_def)
  qed (use vo inv in \<open>simp add: ussr_vector_get_def\<close>)
qed

lemma set_ok:
  assumes inv: "heap_inv ext h" and v: "held ext v" "is_vector v" and item: "held ext item"
  shows "\<exists>ok h'. ussr_vector_set v index item h = Some (ok, h') \<and> heap_inv ext h'"
proof -
  obtain et items where vo: "vector_of h v = Some (et, items)" using vector_held[OF inv v] by blast
  obtain ob where ob: "lookup h v = Some ob" "obj_shape ob = Vector_of et" "obj_items ob = items" "is_ref v"
    using vector_object[OF inv vo] by blast
  have ali: "alive h item" using inv item ok_held by (auto simp: heap_inv_def)
  obtain b where b: "element_matches et item h = Some b" using element_defined[OF inv ali] by blast
  show ?thesis
  proof (cases "index < length items \<and> b")
    case True
    have "slot_fits h ob" using inv ob(1) by (auto simp: heap_inv_def typed_def)
    moreover have "matches h t item" if "et = Some t" for t
      using b that True by (simp add: element_matches_def matches_def)
    ultimately have "slot_fits h (ob\<lparr>obj_items := (obj_items ob)[index := item]\<rparr>)"
      using ob(2) set_update_subset_insert[of "obj_items ob" index item] by (auto simp: slot_fits_def)
    from replace_ok[OF inv ob(1) v(1) ob(4) _ ali this] True ob(3) show ?thesis
      using vo b by (auto simp: ussr_vector_set_def)
  qed (use vo b inv in \<open>auto simp: ussr_vector_set_def\<close>)
qed

end
