(* ===== verification/HeapStructs.thy ===== *)
theory HeapStructs
  imports HeapOps
begin

text \<open>
  Creating objects and building struct instances keeps the counts sound and every field of its
  declared type.
\<close>

section \<open>New objects\<close>

lemma types_inv [simp]: "heap_inv ext (h\<lparr>gc_types := types\<rparr>) = heap_inv ext h"
proof -
  have l: "lookup (h\<lparr>gc_types := types\<rparr>) v = lookup h v" for v by (simp add: lookup_def)
  have "shape_at (h\<lparr>gc_types := types\<rparr>) v = shape_at h v" for v by (simp add: shape_at_def l)
  then have "matches (h\<lparr>gc_types := types\<rparr>) t x = matches h t x" for t x by (rule same_shapes_kept)
  then have "slot_fits (h\<lparr>gc_types := types\<rparr>) ob = slot_fits h ob" for ob by (cases "obj_shape ob") (simp_all add: slot_fits_def)
  then show ?thesis by (simp add: heap_inv_def heap_ok_def typed_def l alive_def refs_in_def)
qed

lemma types_ops [simp]:
  "lookup (h\<lparr>gc_types := types\<rparr>) v = lookup h v" "alive (h\<lparr>gc_types := types\<rparr>) v = alive h v"
  by (simp_all add: lookup_def alive_def)

lemma register_ok:
  assumes inv: "heap_inv ext h" and r: "register ref shape items h = (v, h')"
    and ref: "\<And>a. is_ref (ref a) \<and> address (ref a) = a"
    and items: "\<And>x. x \<in> set items \<Longrightarrow> \<not> is_ref x"
    and shape: "well_shaped v \<lparr>obj_shape = shape, obj_items = items, obj_refcount = 1, obj_mark = False\<rparr>"
    and fit: "slot_fits h \<lparr>obj_shape = shape, obj_items = items, obj_refcount = 1, obj_mark = False\<rparr>"
  shows "heap_inv (plus_refs ext [v]) h'" "lookup h' v = Some \<lparr>obj_shape = shape, obj_items = items, obj_refcount = 1, obj_mark = False\<rparr>"
    "\<And>x. alive h x \<Longrightarrow> alive h' x" "lookup h v = None" "is_ref v"
proof -
  let ?ob = "\<lparr>obj_shape = shape, obj_items = items, obj_refcount = 1, obj_mark = False\<rparr> :: gc_object"
  have ok: "heap_ok ext h" and t: "typed h" using inv by (auto simp: heap_inv_def)
  have h': "v = ref (gc_next_address h)" "gc_objects h' = (v, ?ob) # gc_objects h" "gc_next_address h' = gc_next_address h + 1"
    using r by (auto simp: register_def Let_def)
  then have a: "address v = gc_next_address h" "is_ref v" using ref by auto
  show fresh: "lookup h v = None"
  proof (rule ccontr)
    assume "lookup h v \<noteq> None"
    then obtain ob where "lookup h v = Some ob" by auto
    from ok_object(2)[OF ok this] a(1) show False by simp
  qed
  have l: "lookup h' w = (if w = v then Some ?ob else lookup h w)" for w by (simp add: lookup_def h'(2))
  then show "lookup h' v = Some ?ob" by simp
  show al: "alive h' x" if "alive h x" for x using that by (auto simp: alive_def l)
  have notin: "v \<notin> set (map fst (gc_objects h))" using fresh by (auto simp: lookup_def map_of_eq_None_iff)
  have no_item: "count_list (obj_items ob) v = 0" if "lookup h w = Some ob" for w ob
    using ok_object(4)[OF ok that, of v] fresh a(2) by (auto simp: alive_def count_list_0_iff)
  have "refs_in h v = 0"
  proof -
    have "count_list (obj_items ob) v = 0" if "(w, ob) \<in> set (gc_objects h)" for w ob
      using that ok_distinct[OF ok] by (intro no_item[of w]) (simp add: lookup_def)
    then have "map (\<lambda>(w, ob). count_list (obj_items ob) v) (gc_objects h) = map (\<lambda>_. 0) (gc_objects h)" by (auto simp: split_def)
    then show ?thesis by (simp add: refs_in_def)
  qed
  have "ext v = 0" using ok_alive[OF ok, of v] fresh a(2) by (auto simp: alive_def)
  have refs: "refs_in h' w = refs_in h w + count_list items w" for w by (simp add: refs_in_def h'(2))
  have zero: "count_list items w = 0" if "is_ref w" for w using items that by (auto simp: count_list_0_iff)
  have "heap_ok (plus_refs ext [v]) h'"
    unfolding heap_ok_def
  proof (intro conjI allI impI)
    show "distinct (map fst (gc_objects h'))" using ok_distinct[OF ok] notin by (simp add: h'(2))
  next
    fix w ob assume w: "lookup h' w = Some ob"
    show "is_ref w" "address w < gc_next_address h'" "well_shaped w ob" "0 < obj_refcount ob"
      using w l[of w] a shape ok_object[OF ok, of w ob] by (auto simp: h'(3) split: if_splits)
    then show "refs_in h' w + plus_refs ext [v] w \<le> obj_refcount ob"
      using w l[of w] zero[of w] \<open>refs_in h v = 0\<close> \<open>ext v = 0\<close> ok_object(6)[OF ok, of w ob]
      by (auto simp: refs plus_refs_def split: if_splits)
    show "\<forall>x\<in>set (obj_items ob). alive h' x"
      using w l[of w] items al ok_object(4)[OF ok, of w ob] by (auto simp: alive_def split: if_splits)
  next
    fix w assume "0 < plus_refs ext [v] w"
    then show "alive h' w" using ok_alive[OF ok, of w] al l[of v] by (auto simp: plus_refs_def alive_def split: if_splits)
  qed
  moreover have "typed h'"
    unfolding typed_def
  proof (intro allI impI)
    fix w ob assume w: "lookup h' w = Some ob"
    have same: "matches h' t x = matches h t x" if "alive h x" for t x
    proof (cases "is_ref x")
      case True
      then have "shape_at h' x = shape_at h x" using that fresh by (auto simp: alive_def shape_at_def l)
      from type_matches_shape[OF this] show ?thesis by (simp add: matches_def)
    qed (use matches_scalar[of x t h h'] in \<open>simp add: matches_def\<close>)
    have "slot_fits h ob" "\<forall>x\<in>set (obj_items ob). alive h x"
      using w l[of w] fit t items ok_object(4)[OF ok, of w ob] by (auto simp: typed_def alive_def split: if_splits)
    then show "slot_fits h' ob" using same by (auto simp: slot_fits_def split: gc_shape.splits)
  qed
  ultimately show "heap_inv (plus_refs ext [v]) h'" by (simp add: heap_inv_def)
  show "is_ref v" by (rule a(2))
qed

lemma vector_create_ok:
  assumes "heap_inv ext h" "ussr_vector_create et h = (v, h')"
  shows "heap_inv (plus_refs ext [v]) h'" "is_vector v"
proof -
  obtain e where r: "register USSR_VECTOR (Vector_of e) [] h = (v, h')" using assms(2) by (simp add: ussr_vector_create_def)
  then show v: "is_vector v" by (auto simp: register_def Let_def)
  show "heap_inv (plus_refs ext [v]) h'" by (rule register_ok(1)[OF assms(1) r]) (use v in \<open>auto simp: well_shaped_def slot_fits_def\<close>)
qed

lemma btree_create_ok:
  assumes "heap_inv ext h" "create_btree_object h = (v, h')"
  shows "heap_inv (plus_refs ext [v]) h'"
proof -
  have r: "register USSR_BTREE Btree [] h = (v, h')" using assms(2) by (simp add: create_btree_object_def)
  then have "is_btree v" by (auto simp: register_def Let_def)
  then show ?thesis by (intro register_ok(1)[OF assms(1) r]) (auto simp: well_shaped_def slot_fits_def)
qed

lemma alloc_instance_ok:
  assumes "heap_inv ext h" "uno_alloc_instance type h = (v, h')"
  shows "heap_inv (plus_refs ext [v]) h'" "is_struct v" "\<And>x. alive h x \<Longrightarrow> alive h' x" "is_ref v"
    "instance_of h' v = Some (type, replicate (ussr_struct_total_field_count type) USSR_NULL)"
proof -
  let ?items = "replicate (ussr_struct_total_field_count type) USSR_NULL"
  have r: "register USSR_STRUCT (Instance_of type) ?items h = (v, h')" using assms(2) by (simp add: uno_alloc_instance_def)
  then show v: "is_struct v" by (auto simp: register_def Let_def)
  note reg = register_ok[OF assms(1) r]
  show "heap_inv (plus_refs ext [v]) h'" "\<And>x. alive h x \<Longrightarrow> alive h' x" "is_ref v"
    "instance_of h' v = Some (type, replicate (ussr_struct_total_field_count type) USSR_NULL)"
    using reg(1-3,5) v by (auto simp: well_shaped_def slot_fits_def instance_of_def)
qed

section \<open>Storing fields\<close>

lemma instance_object:
  assumes "heap_inv ext h" "instance_of h v = Some (type, items)"
  obtains ob where "lookup h v = Some ob" "obj_shape ob = Instance_of type" "obj_items ob = items"
    "length items = ussr_struct_total_field_count type" "is_ref v"
proof -
  obtain ob where ob: "lookup h v = Some ob" "obj_shape ob = Instance_of type" "obj_items ob = items"
    using assms(2) by (auto simp: instance_of_def split: option.splits gc_shape.splits)
  have ok: "heap_ok ext h" using assms(1) by (simp add: heap_inv_def)
  have "well_shaped v ob" by (rule ok_object(3)[OF ok ob(1)])
  with ob that ok_object(1)[OF ok ob(1)] show thesis by (auto simp: well_shaped_def)
qed

lemma count_update: "count_list (xs[i := x]) r \<le> count_list xs r + count_list [x] r"
proof (induction xs arbitrary: i)
  case (Cons y xs)
  then show ?case using Cons[of "i - 1"] by (cases i) (auto split: if_splits)
qed simp

lemma fits_update:
  assumes "slot_fits h ob" "obj_shape ob = Instance_of type" "matches h (snd (uno_collect_field_defs type ! i)) item"
  shows "slot_fits h (ob\<lparr>obj_items := (obj_items ob)[i := item]\<rparr>)"
proof -
  have "matches h (snd (uno_collect_field_defs type ! j)) ((obj_items ob)[i := item] ! j)" if "j < length (obj_items ob)" for j
    using assms that by (cases "i = j") (auto simp: slot_fits_def)
  then show ?thesis using assms(2) by (simp add: slot_fits_def)
qed

lemma fits_cong:
  assumes "slot_fits h ob" "obj_shape ob' = obj_shape ob" "obj_items ob' = obj_items ob"
    "\<And>t x. x \<in> set (obj_items ob) \<Longrightarrow> matches h' t x = matches h t x"
  shows "slot_fits h' ob'"
  using assms by (cases "obj_shape ob") (auto simp: slot_fits_def)

lemma store_field_ok:
  assumes inv: "heap_inv ext h" and v: "instance_of h v = Some (type, items)"
    and item: "alive h item" and i: "i < length items" and m: "matches h (snd (uno_collect_field_defs type ! i)) item"
  shows "\<exists>h'. store_field v i item h = Some h' \<and> heap_inv ext h' \<and> (\<forall>x. alive h x \<longrightarrow> alive h' x) \<and>
    instance_of h' v = Some (type, items[i := item])"
proof -
  obtain ob where ob: "lookup h v = Some ob" "obj_shape ob = Instance_of type" "obj_items ob = items"
    using instance_object[OF inv v] by blast
  obtain h1 where h1: "uno_store_value item h = Some h1" "heap_inv (plus_refs ext [item]) h1" "kept h h1" "kept h1 h"
    using inv_store[OF inv item] by blast
  obtain ob1 where ob1: "lookup h1 v = Some ob1" "obj_items ob1 = items" "obj_shape ob1 = Instance_of type"
    using h1(4) ob unfolding kept_def by metis
  have ok1: "heap_ok (plus_refs ext [item]) h1" using h1(2) by (simp add: heap_inv_def)
  have al: "alive h1 x" if "alive h x" for x
    using that h1(4) unfolding alive_def kept_def by fastforce
  have al_all: "alive h1 x" if "x \<in> set (items[i := item])" for x
  proof -
    have "x = item \<or> x \<in> set items" using that set_update_subset_insert by fastforce
    then show ?thesis using al[OF item] ok_object(4)[OF ok1 ob1(1), of x] ob1(2) by auto
  qed
  have "heap_inv ext (set_items v (items[i := item]) h1)"
  proof (rule set_items_inv[OF h1(2) ob1(1) al_all])
    show "count_list (items[i := item]) r + ext r \<le> count_list (obj_items ob1) r + plus_refs ext [item] r" for r
      using count_update[of items i item r] ob1(2) by (simp add: plus_refs_def)
    have "slot_fits h ob" using inv ob(1) by (auto simp: heap_inv_def typed_def)
    from fits_update[OF this ob(2) m] show "slot_fits h1 (ob1\<lparr>obj_items := items[i := item]\<rparr>)"
      by (rule fits_cong) (use ob ob1 matches_kept[OF h1(3) al_all] in auto)
  next
    fix w assume "0 < ext w"
    then show "alive h1 w" by (intro ok_alive[OF ok1]) (simp add: plus_refs_def)
  qed (use ob1(2) in auto)
  moreover have "instance_of h1 v = Some (type, items)" using ob1 by (simp add: instance_of_def)
  ultimately show ?thesis
    using h1(1) al ob1 by (auto simp: store_field_def instance_of_def lookup_set_items)
qed

lemma fill_fields_ok:
  "heap_inv ext h \<Longrightarrow> instance_of h v = Some (type, items) \<Longrightarrow> (\<forall>x\<in>set args. alive h x) \<Longrightarrow>
   i + length defs = length items \<Longrightarrow> defs = drop i (uno_collect_field_defs type) \<Longrightarrow> length args = length defs \<Longrightarrow>
   \<exists>ok h'. fill_fields v i defs args h = Some (ok, h') \<and> heap_inv ext h'"
proof (induction v i defs args h arbitrary: items rule: fill_fields.induct)
  case (1 v i n t defs arg args h)
  obtain b where b: "uno_type_matches t arg h = Some b"
    using type_matches_defined[of ext h arg t] 1(2,4) by (auto simp: heap_inv_def)
  show ?case
  proof (cases b)
    case True
    have nth: "uno_collect_field_defs type ! i = (n, t)" "defs = drop (Suc i) (uno_collect_field_defs type)"
      using 1(6) by (auto simp: drop_Suc dest!: sym[of "_ # _"]) (metis list.sel(3) nth_via_drop drop_Suc tl_drop)+
    have "i < length items" using 1(5) by simp
    from store_field_ok[OF 1(2,3) _ this, of arg] 1(4) b True nth(1) obtain h1 where
      h1: "store_field v i arg h = Some h1" "heap_inv ext h1" "\<forall>x. alive h x \<longrightarrow> alive h1 x"
      "instance_of h1 v = Some (type, items[i := arg])" by (auto simp: matches_def)
    have "\<exists>ok h'. fill_fields v (i + 1) defs args h1 = Some (ok, h') \<and> heap_inv ext h'"
      by (rule 1(1)[OF b _ h1(1,2,4)]) (use 1(4-7) h1(3) nth(2) True in auto)
    then show ?thesis using b True h1(1) by simp
  qed (use b 1(2) in auto)
qed auto

lemma fill_named_ok:
  "heap_inv ext h \<Longrightarrow> instance_of h v = Some (type, items) \<Longrightarrow> (\<forall>x\<in>snd ` set named. alive h x) \<Longrightarrow>
   \<exists>ok h'. fill_named v type named satisfied h = Some (ok, h') \<and> heap_inv ext h'"
proof (induction v type named satisfied h arbitrary: items rule: fill_named.induct)
  case (2 v type name arg named satisfied h)
  show ?case
  proof (cases "uno_field_locate type name")
    case None
    then show ?thesis using 2(2) by auto
  next
    case (Some f)
    obtain index t where f: "f = (index, t)" by fastforce
    note loc = field_locate_nth[OF Some[unfolded f]]
    obtain b where b: "uno_type_matches t arg h = Some b"
      using type_matches_defined[of ext h arg t] 2(2,4) by (auto simp: heap_inv_def)
    show ?thesis
    proof (cases b)
      case True
      have "index < length items" using instance_object[OF 2(2,3)] loc by metis
      from store_field_ok[OF 2(2,3) _ this, of arg] 2(4) b True loc obtain h1 where
        h1: "store_field v index arg h = Some h1" "heap_inv ext h1" "\<forall>x. alive h x \<longrightarrow> alive h1 x"
        "instance_of h1 v = Some (type, items[index := arg])" by (auto simp: matches_def)
      have "\<exists>ok h'. fill_named v type named (insert index satisfied) h1 = Some (ok, h') \<and> heap_inv ext h'"
        by (rule 2(1)[OF Some f[symmetric] b _ h1(1,2,4)]) (use 2(4) h1(3) True in auto)
      then show ?thesis using b True h1(1) Some f by simp
    qed (use b 2(2) Some f in auto)
  qed
qed simp

lemma finish_ok:
  assumes "heap_inv (plus_refs ext [v]) h"
  shows "\<exists>r h'. finish_instance v (ok, h) = Some (r, h') \<and> (case r of None \<Rightarrow> heap_inv ext h' | Some x \<Rightarrow> heap_inv (plus_refs ext [x]) h')"
  using inv_release[OF assms] assms by (cases ok) (auto simp: finish_instance_def uno_release_value_def)

lemma instantiate_ok:
  assumes inv: "heap_inv ext h" and args: "\<forall>x\<in>set args. held ext x"
  shows "\<exists>r h'. ussr_struct_instantiate type_name args h = Some (r, h') \<and>
    (case r of None \<Rightarrow> heap_inv ext h' | Some x \<Rightarrow> heap_inv (plus_refs ext [x]) h')"
proof -
  obtain f types where find: "ussr_struct_type_find type_name (gc_types h) = (f, types)" by fastforce
  show ?thesis
  proof (cases f)
    case None
    then show ?thesis using find inv by (simp add: ussr_struct_instantiate_def)
  next
    case (Some type)
    show ?thesis
    proof (cases "ussr_struct_total_field_count type = length args")
      case True
      let ?h = "h\<lparr>gc_types := types\<rparr>"
      obtain v h1 where a: "uno_alloc_instance type ?h = (v, h1)" by fastforce
      have "heap_inv ext ?h" using inv by simp
      note al = alloc_instance_ok[OF this a]
      have "alive h x" if "x \<in> set args" for x using args that inv ok_held by (auto simp: heap_inv_def)
      then have "\<exists>ok h'. fill_fields v 0 (uno_collect_field_defs type) args h1 = Some (ok, h') \<and> heap_inv (plus_refs ext [v]) h'"
        by (intro fill_fields_ok[OF al(1,5)]) (use True al(3) in \<open>auto simp: collect_length\<close>)
      then obtain ok h2 where h2: "fill_fields v 0 (uno_collect_field_defs type) args h1 = Some (ok, h2)"
        "heap_inv (plus_refs ext [v]) h2" by blast
      from finish_ok[OF h2(2), of ok] show ?thesis
        using find Some True a h2(1) by (simp add: ussr_struct_instantiate_def)
    qed (use find Some inv in \<open>simp add: ussr_struct_instantiate_def\<close>)
  qed
qed

lemma instantiate_named_ok:
  assumes inv: "heap_inv ext h" and args: "\<forall>x\<in>snd ` set named. held ext x"
  shows "\<exists>r h'. ussr_struct_instantiate_named type_name named h = Some (r, h') \<and>
    (case r of None \<Rightarrow> heap_inv ext h' | Some x \<Rightarrow> heap_inv (plus_refs ext [x]) h')"
proof -
  obtain f types where find: "ussr_struct_type_find type_name (gc_types h) = (f, types)" by fastforce
  show ?thesis
  proof (cases f)
    case None
    then show ?thesis using find inv by (simp add: ussr_struct_instantiate_named_def)
  next
    case (Some type)
    let ?h = "h\<lparr>gc_types := types\<rparr>"
    obtain v h1 where a: "uno_alloc_instance type ?h = (v, h1)" by fastforce
    have "heap_inv ext ?h" using inv by simp
    note al = alloc_instance_ok[OF this a]
    have "alive h x" if "x \<in> snd ` set named" for x using args that inv ok_held by (auto simp: heap_inv_def)
    then have "\<exists>ok h'. fill_named v type named {} h1 = Some (ok, h') \<and> heap_inv (plus_refs ext [v]) h'"
      by (intro fill_named_ok[OF al(1,5)]) (use al(3) in auto)
    then obtain ok h2 where h2: "fill_named v type named {} h1 = Some (ok, h2)" "heap_inv (plus_refs ext [v]) h2" by blast
    from finish_ok[OF h2(2), of ok] show ?thesis
      using find Some a h2(1) by (simp add: ussr_struct_instantiate_named_def)
  qed
qed

lemma instance_held:
  assumes "heap_inv ext h" "held ext v" "is_struct v"
  shows "\<exists>type items. instance_of h v = Some (type, items)"
proof -
  have "is_ref v" using assms(3) by (cases v) auto
  then obtain ob where ob: "lookup h v = Some ob" using ok_held assms(1,2) by (fastforce simp: heap_inv_def alive_def)
  then have "well_shaped v ob" using ok_object(3) assms(1) by (auto simp: heap_inv_def)
  then show ?thesis using ob assms(3) by (cases v) (auto simp: well_shaped_def instance_of_def split: gc_shape.splits)
qed

lemma get_field_ok:
  assumes inv: "heap_inv ext h" and v: "held ext v" "is_struct v"
  shows "\<exists>r h'. ussr_struct_get_field v name h = Some (r, h') \<and>
    (case r of None \<Rightarrow> heap_inv ext h' | Some x \<Rightarrow> heap_inv (plus_refs ext [x]) h')"
proof -
  obtain type items where vo: "instance_of h v = Some (type, items)" using instance_held[OF inv v] by blast
  obtain ob where ob: "lookup h v = Some ob" "obj_items ob = items" "length items = ussr_struct_total_field_count type"
    using instance_object[OF inv vo] by blast
  show ?thesis
  proof (cases "uno_field_locate type name")
    case (Some f)
    obtain index t where f: "f = (index, t)" by fastforce
    have "index < length items" using field_locate_nth[OF Some[unfolded f]] ob(3) by simp
    then have "alive h (items ! index)" using ok_object(4)[of ext h v ob "items ! index"] inv ob by (auto simp: heap_inv_def)
    from inv_store[OF inv this] show ?thesis using vo Some f by (auto simp: ussr_struct_get_field_def)
  qed (use vo inv in \<open>simp add: ussr_struct_get_field_def\<close>)
qed

lemma set_field_ok:
  assumes inv: "heap_inv ext h" and v: "held ext v" "is_struct v" and item: "held ext item"
  shows "\<exists>ok h'. ussr_struct_set_field v name item h = Some (ok, h') \<and> heap_inv ext h'"
proof -
  obtain type items where vo: "instance_of h v = Some (type, items)" using instance_held[OF inv v] by blast
  obtain ob where ob: "lookup h v = Some ob" "obj_shape ob = Instance_of type" "obj_items ob = items"
    "length items = ussr_struct_total_field_count type" "is_ref v" using instance_object[OF inv vo] by blast
  have ali: "alive h item" using inv item ok_held by (auto simp: heap_inv_def)
  show ?thesis
  proof (cases "uno_field_locate type name")
    case (Some f)
    obtain index t where f: "f = (index, t)" by fastforce
    note loc = field_locate_nth[OF Some[unfolded f]]
    obtain b where b: "uno_type_matches t item h = Some b"
      using type_matches_defined[of ext h item t] inv ali by (auto simp: heap_inv_def)
    show ?thesis
    proof (cases b)
      case True
      have "slot_fits h ob" using inv ob(1) by (auto simp: heap_inv_def typed_def)
      then have "slot_fits h (ob\<lparr>obj_items := (obj_items ob)[index := item]\<rparr>)"
        using ob(2) b True loc by (intro fits_update) (auto simp: matches_def)
      from replace_ok[OF inv ob(1) v(1) ob(5) _ ali this] loc ob(3,4) show ?thesis
        using vo b True Some f by (auto simp: ussr_struct_set_field_def)
    qed (use vo b inv Some f in \<open>auto simp: ussr_struct_set_field_def\<close>)
  qed (use vo inv in \<open>auto simp: ussr_struct_set_field_def\<close>)
qed

end
