(* ===== verification/HeapGc.thy ===== *)
theory HeapGc
  imports HeapStructs
begin

text \<open>
  The collector: marking reaches exactly what the roots reach, and the sweep frees exactly the rest.
\<close>

section \<open>Reachability\<close>

inductive reach :: "heap \<Rightarrow> ussr_value set \<Rightarrow> ussr_value \<Rightarrow> bool" for h roots where
  reach_root: "v \<in> roots \<Longrightarrow> is_ref v \<Longrightarrow> reach h roots v"
| reach_item: "reach h roots u \<Longrightarrow> lookup h u = Some ob \<Longrightarrow> x \<in> set (obj_items ob) \<Longrightarrow> is_ref x \<Longrightarrow> reach h roots x"

lemma reach_ref: "reach h roots v \<Longrightarrow> is_ref v"
  by (cases rule: reach.cases) auto

lemma reach_mono: "reach h R v \<Longrightarrow> R \<subseteq> S \<Longrightarrow> reach h S v"
  by (induction rule: reach.induct) (auto intro: reach.intros)

lemma reach_alive:
  assumes "reach h R v" "\<And>r. r \<in> R \<Longrightarrow> alive h r" "\<And>u ob x. lookup h u = Some ob \<Longrightarrow> x \<in> set (obj_items ob) \<Longrightarrow> alive h x"
  shows "lookup h v \<noteq> None"
  using assms(1)
proof (cases rule: reach.cases)
  case reach_root
  then show ?thesis using assms(2)[of v] by (simp add: alive_def)
next
  case (reach_item u ob)
  then show ?thesis using assms(3)[of u ob v] by (simp add: alive_def)
qed

lemma reach_same_items:
  assumes "reach h R v" "\<And>u ob. lookup h u = Some ob \<Longrightarrow> \<exists>ob'. lookup h' u = Some ob' \<and> obj_items ob' = obj_items ob"
  shows "reach h' R v"
  using assms(1)
proof (induction rule: reach.induct)
  case (reach_item u ob x)
  then show ?case using assms(2)[of u ob] by (auto intro: reach.reach_item)
qed (rule reach.reach_root)

text \<open>What the references held outside reach survives a release.\<close>

lemma release_keeps_reachable:
  assumes inv: "heap_inv ext h'" and kept: "kept h h'" and r: "reach h {v. 0 < ext v} v"
  shows "lookup h' v \<noteq> None"
  using r
proof (induction rule: reach.induct)
  case (reach_root v)
  then show ?case using ok_alive[of ext h' v] inv by (auto simp: heap_inv_def alive_def)
next
  case (reach_item u ob x)
  then obtain ob' where ob': "lookup h' u = Some ob'" by auto
  then have "obj_items ob' = obj_items ob" using kept reach_item(2) unfolding kept_def by fastforce
  then show ?case using ok_object(4)[of ext h' u ob' x] inv ob' reach_item by (auto simp: heap_inv_def alive_def)
qed

section \<open>Marking\<close>

definition heap_marked :: "heap \<Rightarrow> ussr_value \<Rightarrow> bool" where
  "heap_marked h v \<longleftrightarrow> (\<exists>ob. lookup h v = Some ob \<and> obj_mark ob)"

definition set_mark :: "ussr_value \<Rightarrow> heap \<Rightarrow> heap" where
  "set_mark v h = update_object (\<lambda>ob. ob\<lparr>obj_mark := True\<rparr>) v h"

text \<open>Two heaps that differ in marks only.\<close>

definition unmark_all :: "heap \<Rightarrow> heap" where "unmark_all h = ussr_gc_begin h"

definition marks_only :: "heap \<Rightarrow> heap \<Rightarrow> bool" where
  "marks_only h h' \<longleftrightarrow> unmark_all h' = unmark_all h"

lemma lookup_begin: "lookup (ussr_gc_begin h) v = map_option (\<lambda>ob. ob\<lparr>obj_mark := False\<rparr>) (lookup h v)"
  by (simp add: lookup_def ussr_gc_begin_def map_of_map)

lemma marks_only_lookup:
  assumes "marks_only h h'" "lookup h v = Some ob"
  shows "\<exists>m. lookup h' v = Some (ob\<lparr>obj_mark := m\<rparr>)"
proof -
  have "map_option (\<lambda>ob. ob\<lparr>obj_mark := False\<rparr>) (lookup h' v) = map_option (\<lambda>ob. ob\<lparr>obj_mark := False\<rparr>) (lookup h v)"
    using assms(1) unfolding marks_only_def unmark_all_def by (simp flip: lookup_begin)
  then obtain ob' where "lookup h' v = Some ob'" "ob'\<lparr>obj_mark := False\<rparr> = ob\<lparr>obj_mark := False\<rparr>" using assms(2) by auto
  then have "ob' = ob\<lparr>obj_mark := obj_mark ob'\<rparr>" by (metis gc_object.surjective gc_object.update_convs(4))
  then show ?thesis using \<open>lookup h' v = Some ob'\<close> by metis
qed

lemma marks_only_sym: "marks_only h h' \<Longrightarrow> marks_only h' h"
  by (simp add: marks_only_def)

lemma marks_only_trans: "marks_only h g \<Longrightarrow> marks_only g k \<Longrightarrow> marks_only h k"
  by (simp add: marks_only_def)

lemma marks_only_set: "marks_only h (set_mark v h)"
proof -
  have "map (\<lambda>(v, ob). (v, ob\<lparr>obj_mark := False\<rparr>)) (map (\<lambda>(k, ob). if k = v then (k, ob\<lparr>obj_mark := True\<rparr>) else (k, ob)) xs) =
      map (\<lambda>(v, ob). (v, ob\<lparr>obj_mark := False\<rparr>)) xs" for xs :: "(ussr_value \<times> gc_object) list"
    by (induction xs) auto
  then show ?thesis by (simp add: marks_only_def unmark_all_def ussr_gc_begin_def set_mark_def update_object_def del: map_map)
qed

lemma marks_only_begin: "marks_only h (ussr_gc_begin h)"
  by (simp add: marks_only_def unmark_all_def ussr_gc_begin_def comp_def split_def)

lemma marks_only_none: "marks_only h h' \<Longrightarrow> lookup h v = None \<Longrightarrow> lookup h' v = None"
  using marks_only_lookup[OF marks_only_sym] by (cases "lookup h' v") fastforce+

lemma marks_only_alive: "marks_only h h' \<Longrightarrow> alive h' x = alive h x"
  using marks_only_none marks_only_none[OF marks_only_sym] unfolding alive_def by metis

lemma marks_only_items: "marks_only h h' \<Longrightarrow> lookup h u = Some ob \<Longrightarrow> \<exists>ob'. lookup h' u = Some ob' \<and> obj_items ob' = obj_items ob"
  using marks_only_lookup by fastforce

lemma marks_only_reach: "marks_only h h' \<Longrightarrow> reach h' R v = reach h R v"
  using reach_same_items[of h R v h'] reach_same_items[of h' R v h] marks_only_items marks_only_items[OF marks_only_sym] by blast

lemma marked_set: "lookup h v \<noteq> None \<Longrightarrow> heap_marked (set_mark v h) w \<longleftrightarrow> w = v \<or> heap_marked h w"
  by (auto simp: heap_marked_def set_mark_def lookup_update)

text \<open>
  What is still to be looked at is either in the list or hangs below something that is: the
  children of heap_marked objects are heap_marked or waiting.
\<close>

definition heap_closed :: "heap \<Rightarrow> bool" where
  "heap_closed h \<longleftrightarrow> (\<forall>u ob x. lookup h u = Some ob \<longrightarrow> x \<in> set (obj_items ob) \<longrightarrow> alive h x)"

definition waiting :: "heap \<Rightarrow> ussr_value list \<Rightarrow> bool" where
  "waiting h vs \<longleftrightarrow> (\<forall>u ob x. lookup h u = Some ob \<and> obj_mark ob \<and> x \<in> set (obj_items ob) \<and> is_ref x \<longrightarrow> heap_marked h x \<or> x \<in> set vs)"

lemma mark_ok:
  "heap_closed h \<Longrightarrow> \<forall>v\<in>set vs. alive h v \<Longrightarrow> waiting h vs \<Longrightarrow>
   \<exists>h'. gc_mark_values vs h = Some h' \<and> marks_only h h' \<and> waiting h' [] \<and>
     (\<forall>v. heap_marked h v \<longrightarrow> heap_marked h' v) \<and> (\<forall>v\<in>set vs. is_ref v \<longrightarrow> heap_marked h' v) \<and>
     (\<forall>v. heap_marked h' v \<longrightarrow> heap_marked h v \<or> reach h (set vs) v)"
proof (induction vs h rule: gc_mark_values.induct)
  case (1 h)
  then show ?case by (simp add: gc_mark_values.simps marks_only_def)
next
  case (2 v vs h)
  show ?case
  proof (cases "is_ref v")
    case False
    have "waiting h vs" using 2(6) False unfolding waiting_def by auto
    with 2(1)[OF _ 2(4)] False 2(5) obtain h' where h': "gc_mark_values vs h = Some h'" "marks_only h h'" "waiting h' []"
      "\<forall>v. heap_marked h v \<longrightarrow> heap_marked h' v" "\<forall>v\<in>set vs. is_ref v \<longrightarrow> heap_marked h' v" "\<forall>v. heap_marked h' v \<longrightarrow> heap_marked h v \<or> reach h (set vs) v"
      by auto
    moreover have "reach h (set (v # vs)) w" if "reach h (set vs) w" for w by (rule reach_mono[OF that]) auto
    ultimately show ?thesis using False by (auto simp: gc_mark_values.simps)
  next
    case True
    then obtain ob where ob: "lookup h v = Some ob" using 2(5) by (auto simp: alive_def)
    show ?thesis
    proof (cases "obj_mark ob")
      case m: True
      then have "heap_marked h v" using ob by (simp add: heap_marked_def)
      then have "waiting h vs" using 2(6) unfolding waiting_def by auto
      with 2(2)[OF _ ob m 2(4)] True 2(5) obtain h' where h': "gc_mark_values vs h = Some h'" "marks_only h h'" "waiting h' []"
        "\<forall>v. heap_marked h v \<longrightarrow> heap_marked h' v" "\<forall>v\<in>set vs. is_ref v \<longrightarrow> heap_marked h' v" "\<forall>v. heap_marked h' v \<longrightarrow> heap_marked h v \<or> reach h (set vs) v"
        by auto
      moreover have "reach h (set (v # vs)) w" if "reach h (set vs) w" for w by (rule reach_mono[OF that]) auto
      ultimately show ?thesis using True m ob \<open>heap_marked h v\<close> by (auto simp: gc_mark_values.simps)
    next
      case m: False
      let ?h = "set_mark v h" and ?vs = "obj_items ob @ vs"
      note mo = marks_only_set[of h v]
      have ali: "alive ?h x = alive h x" for x by (rule marks_only_alive[OF mo])
      have ms: "heap_marked ?h w \<longleftrightarrow> w = v \<or> heap_marked h w" for w using ob by (simp add: marked_set)
      have c: "heap_closed ?h"
        using 2(4) unfolding heap_closed_def ali using marks_only_items[OF marks_only_sym[OF mo]] by metis
      have a: "\<forall>x\<in>set ?vs. alive ?h x" using 2(4,5) ob unfolding ali heap_closed_def by auto
      have w: "waiting ?h ?vs"
        unfolding waiting_def
      proof (intro allI impI, elim conjE)
        fix u ou x assume u: "lookup ?h u = Some ou" "obj_mark ou" "x \<in> set (obj_items ou)" "is_ref x"
        show "heap_marked ?h x \<or> x \<in> set ?vs"
        proof (cases "u = v")
          case True
          then show ?thesis using u ob by (auto simp: set_mark_def lookup_update)
        next
          case False
          then have "lookup h u = Some ou" using u(1) by (simp add: set_mark_def lookup_update)
          then have "heap_marked h x \<or> x \<in> set (v # vs)" using 2(6) u unfolding waiting_def by blast
          then show ?thesis using ms by auto
        qed
      qed
      from 2(3)[OF _ ob m c[unfolded set_mark_def] a[unfolded set_mark_def] w[unfolded set_mark_def], folded set_mark_def] True
      obtain h' where h': "gc_mark_values ?vs ?h = Some h'" "marks_only ?h h'" "waiting h' []"
        "\<forall>v. heap_marked ?h v \<longrightarrow> heap_marked h' v" "\<forall>v\<in>set ?vs. is_ref v \<longrightarrow> heap_marked h' v" "\<forall>v. heap_marked h' v \<longrightarrow> heap_marked ?h v \<or> reach ?h (set ?vs) v"
        by auto
      have r: "reach h (set (v # vs)) w" if "reach ?h (set ?vs) w" for w
      proof -
        have "reach h (set ?vs) w" using that by (simp only: marks_only_reach[OF mo])
        then show ?thesis
        proof (induction rule: reach.induct)
          case (reach_root x)
          show ?case
          proof (cases "x \<in> set vs")
            case True
            then show ?thesis using reach_root by (intro reach.reach_root) auto
          next
            case False
            then have "x \<in> set (obj_items ob)" using reach_root by auto
            moreover have "reach h (set (v # vs)) v" using True by (intro reach.reach_root) auto
            ultimately show ?thesis using reach.reach_item[OF _ ob _ reach_root(2)] by blast
          qed
        qed (rule reach.reach_item)
      qed
      have "reach h (set (v # vs)) v" using True by (intro reach.reach_root) auto
      note top = this
      have "heap_marked h w \<or> reach h (set (v # vs)) w" if "heap_marked h' w" for w
      proof -
        have "heap_marked ?h w \<or> reach ?h (set ?vs) w" using h'(6) that by blast
        then show ?thesis using ms[of w] r[of w] top by auto
      qed
      moreover have "gc_mark_values (v # vs) h = Some h'"
        using h'(1) True m ob by (simp add: gc_mark_values.simps set_mark_def)
      moreover have "\<forall>w. heap_marked h w \<longrightarrow> heap_marked h' w" "\<forall>w\<in>set (v # vs). is_ref w \<longrightarrow> heap_marked h' w"
        using h'(4,5) ms by auto
      ultimately show ?thesis using h'(3) marks_only_trans[OF mo h'(2)] by blast
    qed
  qed
qed

text \<open>A mark phase from clear marks marks exactly what the roots reach.\<close>

lemma mark_phase:
  assumes c: "heap_closed h" and roots: "\<forall>v\<in>set roots. alive h v"
  shows "\<exists>h'. gc_mark_values roots (ussr_gc_begin h) = Some h' \<and> marks_only h h' \<and> (\<forall>v. heap_marked h' v \<longleftrightarrow> reach h (set roots) v)"
proof -
  let ?h = "ussr_gc_begin h"
  note mo = marks_only_begin[of h]
  have nm: "\<not> heap_marked ?h v" for v by (auto simp: heap_marked_def lookup_begin)
  have c': "heap_closed ?h"
    using c unfolding heap_closed_def marks_only_alive[OF mo] using marks_only_items[OF marks_only_sym[OF mo]] by metis
  have w: "waiting ?h roots" using nm unfolding waiting_def heap_marked_def by blast
  from mark_ok[OF c' _ w] roots obtain h' where h': "gc_mark_values roots ?h = Some h'" "marks_only ?h h'" "waiting h' []"
    "\<forall>v\<in>set roots. is_ref v \<longrightarrow> heap_marked h' v" "\<forall>v. heap_marked h' v \<longrightarrow> reach ?h (set roots) v"
    using nm by (auto simp: marks_only_alive[OF mo])
  have mo': "marks_only h h'" by (rule marks_only_trans[OF mo h'(2)])
  have "heap_marked h' v" if "reach h (set roots) v" for v
    using that
  proof (induction rule: reach.induct)
    case (reach_item u ob x)
    obtain m where m: "lookup h' u = Some (ob\<lparr>obj_mark := m\<rparr>)" using marks_only_lookup[OF mo' reach_item(2)] by blast
    then have "m" using reach_item(5) by (simp add: heap_marked_def)
    then show ?case using h'(3) m reach_item(3,4) unfolding waiting_def by fastforce
  qed (use h'(4) in simp)
  moreover have "reach h (set roots) v" if "heap_marked h' v" for v
    using h'(5) that by (simp add: marks_only_reach[OF mo])
  ultimately show ?thesis using h'(1) mo' by blast
qed

section \<open>Detaching\<close>

text \<open>The first pass of the sweep changes the counts of garbage only.\<close>

definition same_object :: "ussr_value \<times> gc_object \<Rightarrow> ussr_value \<times> gc_object \<Rightarrow> bool" where
  "same_object = (\<lambda>(v, ob) (v', ob'). v' = v \<and> obj_items ob' = obj_items ob \<and> obj_shape ob' = obj_shape ob \<and>
     obj_mark ob' = obj_mark ob \<and> (obj_mark ob \<longrightarrow> ob' = ob))"

definition garbage_counts :: "heap \<Rightarrow> heap \<Rightarrow> bool" where
  "garbage_counts h h' \<longleftrightarrow> list_all2 same_object (gc_objects h) (gc_objects h') \<and>
     gc_types h' = gc_types h \<and> gc_next_address h' = gc_next_address h \<and> gc_collected_total h' = gc_collected_total h"

lemma same_object_refl [simp]: "same_object x x"
  by (simp add: same_object_def split_def)

lemma garbage_counts_refl: "garbage_counts h h"
  by (simp add: garbage_counts_def list.rel_refl)

lemma same_object_trans: "same_object a b \<Longrightarrow> same_object b c \<Longrightarrow> same_object a c"
  by (auto simp: same_object_def)

lemma garbage_counts_trans:
  assumes "garbage_counts h g" "garbage_counts g k"
  shows "garbage_counts h k"
proof -
  have "list_all2 same_object (gc_objects h) (gc_objects g)" "list_all2 same_object (gc_objects g) (gc_objects k)"
    using assms by (simp_all add: garbage_counts_def)
  then have "list_all2 same_object (gc_objects h) (gc_objects k)" 
    using transpD[OF list.rel_transp[OF transpI[of same_object]]] same_object_trans by blast
  with assms show ?thesis by (simp add: garbage_counts_def)
qed

lemma same_lists:
  assumes "list_all2 same_object xs ys"
  shows "map fst ys = map fst xs" "filter (\<lambda>(v, ob). obj_mark ob) ys = filter (\<lambda>(v, ob). obj_mark ob) xs"
    "map fst (filter (\<lambda>(v, ob). kind v \<and> \<not> obj_mark ob) ys) = map fst (filter (\<lambda>(v, ob). kind v \<and> \<not> obj_mark ob) xs)"
    "map_of xs v = Some ob \<Longrightarrow> \<exists>ob'. map_of ys v = Some ob' \<and> obj_items ob' = obj_items ob \<and> obj_mark ob' = obj_mark ob"
  using assms by (induction rule: list_all2_induct) (auto simp: same_object_def)

lemma unref_child_ok:
  assumes "distinct (map fst (gc_objects h))" "alive h v"
  shows "\<exists>h'. gc_unref_garbage_child v h = Some h' \<and> garbage_counts h h'"
proof (cases "is_ref v")
  case True
  then obtain ob where ob: "lookup h v = Some ob" using assms(2) by (auto simp: alive_def)
  have "garbage_counts h (update_object (\<lambda>ob. ob\<lparr>obj_refcount := obj_refcount ob - 1\<rparr>) v h)" if "\<not> obj_mark ob"
  proof -
    have "same_object x (case x of (k, ob) \<Rightarrow> if k = v then (k, ob\<lparr>obj_refcount := obj_refcount ob - 1\<rparr>) else (k, ob))"
      if "x \<in> set (gc_objects h)" for x
    proof (cases "fst x = v")
      case True
      then have "snd x = ob" using that ob assms(1) by (cases x) (auto simp: lookup_def)
      then show ?thesis using \<open>\<not> obj_mark ob\<close> by (cases x) (auto simp: same_object_def)
    qed (cases x, auto)
    then show ?thesis by (auto simp: garbage_counts_def update_object_def list.rel_map simp del: One_nat_def intro!: list.rel_refl_strong)
  qed
  then show ?thesis using True ob garbage_counts_refl by (auto simp: gc_unref_garbage_child_def)
qed (use garbage_counts_refl in \<open>simp add: gc_unref_garbage_child_def\<close>)

lemma garbage_counts_keys:
  assumes "garbage_counts h h'"
  shows "map fst (gc_objects h') = map fst (gc_objects h)" "alive h x \<Longrightarrow> alive h' x"
  using assms same_lists(1,4) by (fastforce simp: garbage_counts_def alive_def lookup_def)+

lemma unref_children_ok:
  "distinct (map fst (gc_objects h)) \<Longrightarrow> \<forall>v\<in>set vs. alive h v \<Longrightarrow>
   \<exists>h'. gc_unref_children vs h = Some h' \<and> garbage_counts h h'"
proof (induction vs arbitrary: h)
  case (Cons v vs)
  obtain h1 where h1: "gc_unref_garbage_child v h = Some h1" "garbage_counts h h1" using unref_child_ok[of h v] Cons.prems by auto
  note k = garbage_counts_keys[OF h1(2)]
  from Cons.IH[of h1] k Cons.prems obtain h2 where "gc_unref_children vs h1 = Some h2" "garbage_counts h1 h2" by auto
  then show ?case using h1(1) garbage_counts_trans[OF h1(2)] by auto
qed (simp add: garbage_counts_refl)

lemma detach_ok:
  assumes "distinct (map fst (gc_objects h))" "heap_closed h"
  shows "\<exists>h'. gc_detach kind h = Some h' \<and> garbage_counts h h' \<and> heap_closed h'"
proof -
  have "alive h x" if "x \<in> set (concat (map (\<lambda>(v, ob). obj_items ob) (gc_garbage kind h)))" for x
    using that assms unfolding heap_closed_def gc_garbage_def gc_list_def lookup_def by fastforce
  then obtain h' where h': "gc_detach kind h = Some h'" "garbage_counts h h'"
    using unref_children_ok[OF assms(1)] unfolding gc_detach_def by blast
  have "heap_closed h'"
    unfolding heap_closed_def
  proof (intro allI impI)
    fix u ob' x assume u: "lookup h' u = Some ob'" "x \<in> set (obj_items ob')"
    have "map fst (gc_objects h') = map fst (gc_objects h)" by (rule garbage_counts_keys(1)[OF h'(2)])
    then have "u \<in> fst ` set (gc_objects h)" using u(1) by (metis lookup_def map_of_eq_None_iff option.distinct(1) set_map)
    then obtain ob where ob: "lookup h u = Some ob" by (cases "lookup h u") (auto simp: lookup_def map_of_eq_None_iff)
    then have "obj_items ob' = obj_items ob"
      using h'(2) u(1) same_lists(4)[of "gc_objects h" "gc_objects h'" u ob] by (auto simp: garbage_counts_def lookup_def)
    then have "alive h x" using assms(2) ob u(2) unfolding heap_closed_def by auto
    then show "alive h' x" by (rule garbage_counts_keys(2)[OF h'(2)])
  qed
  with h' show ?thesis by blast
qed

section \<open>Reclaiming\<close>

lemma fold_unregister:
  "fold (\<lambda>(v, ob). unregister v) xs h = h\<lparr>gc_objects := filter (\<lambda>(k, ob). k \<notin> fst ` set xs) (gc_objects h)\<rparr>"
proof (induction xs arbitrary: h)
  case (Cons x xs)
  obtain v ob where x: "x = (v, ob)" by fastforce
  have "fold (\<lambda>(v, ob). unregister v) (x # xs) h = fold (\<lambda>(v, ob). unregister v) xs (unregister v h)" by (simp add: x)
  also have "\<dots> = h\<lparr>gc_objects := filter (\<lambda>(k, ob). k \<notin> fst ` set xs) (filter (\<lambda>(k, ob). k \<noteq> v) (gc_objects h))\<rparr>"
    by (simp add: Cons.IH[of "unregister v h"]) (simp add: unregister_def)
  also have "filter (\<lambda>(k, ob). k \<notin> fst ` set xs) (filter (\<lambda>(k, ob). k \<noteq> v) (gc_objects h)) =
      filter (\<lambda>(k, ob). k \<notin> fst ` set (x # xs)) (gc_objects h)"
    by (auto simp: x intro!: filter_cong)
  finally show ?case .
qed simp

lemma fst_image: "v \<in> fst ` A \<longleftrightarrow> (\<exists>b. (v, b) \<in> A)"
  by force

lemma reclaim_one:
  assumes "distinct (map fst (gc_objects h))"
  shows "gc_reclaim kind (n, h) = (n + length (filter (\<lambda>(v, ob). kind v \<and> \<not> obj_mark ob) (gc_objects h)),
    h\<lparr>gc_objects := filter (\<lambda>(v, ob). \<not> (kind v \<and> \<not> obj_mark ob)) (gc_objects h)\<rparr>)"
proof -
  have g: "gc_garbage kind h = filter (\<lambda>(v, ob). kind v \<and> \<not> obj_mark ob) (gc_objects h)"
    by (simp add: gc_garbage_def gc_list_def split_def conj_commute)
  have "filter (\<lambda>(k, ob). k \<notin> fst ` set (gc_garbage kind h)) (gc_objects h) =
      filter (\<lambda>(v, ob). \<not> (kind v \<and> \<not> obj_mark ob)) (gc_objects h)"
  proof (rule filter_cong[OF refl])
    fix x assume x: "x \<in> set (gc_objects h)"
    obtain v ob where v: "x = (v, ob)" by fastforce
    have "ob' = ob" if "(v, ob') \<in> set (gc_objects h)" for ob' using that x v assms by (auto dest: eq_key_imp_eq_value)
    note one = this
    have "(\<exists>ob'. (v, ob') \<in> set (gc_garbage kind h)) \<longleftrightarrow> kind v \<and> \<not> obj_mark ob"
    proof
      assume "\<exists>ob'. (v, ob') \<in> set (gc_garbage kind h)"
      then obtain ob' where "(v, ob') \<in> set (gc_objects h)" "kind v" "\<not> obj_mark ob'" by (auto simp: g)
      then show "kind v \<and> \<not> obj_mark ob" using one by blast
    qed (use x v in \<open>auto simp: g\<close>)
    then have "v \<in> fst ` set (gc_garbage kind h) \<longleftrightarrow> kind v \<and> \<not> obj_mark ob"
      by (simp only: fst_image)
    then show "(case x of (k, ob) \<Rightarrow> k \<notin> fst ` set (gc_garbage kind h)) = (case x of (v, ob) \<Rightarrow> \<not> (kind v \<and> \<not> obj_mark ob))"
      by (simp add: v)
  qed
  then show ?thesis by (simp add: gc_reclaim_def fold_unregister) (simp add: g)
qed

lemma kinds: "is_ref v = (is_vector v \<or> is_struct v \<or> is_btree v)"
  by (cases v) auto

lemma reclaim_all:
  assumes d: "distinct (map fst (gc_objects h))" and refs: "\<forall>x\<in>set (gc_objects h). is_ref (fst x)"
  shows "gc_reclaim is_btree (gc_reclaim is_struct (gc_reclaim is_vector (0, h))) =
    (length (filter (\<lambda>(v, ob). \<not> obj_mark ob) (gc_objects h)), h\<lparr>gc_objects := filter (\<lambda>(v, ob). obj_mark ob) (gc_objects h)\<rparr>)"
proof -
  let ?keep = "\<lambda>kind. filter (\<lambda>(v, ob). \<not> (kind v \<and> \<not> obj_mark ob))"
  let ?xs = "gc_objects h"
  have dk: "distinct (map fst (?keep kind xs))" if "distinct (map fst xs)" for kind and xs :: "(ussr_value \<times> gc_object) list"
    using that by (simp add: distinct_map_filter)
  have "?keep is_btree (?keep is_struct (?keep is_vector xs)) = filter (\<lambda>(v, ob). obj_mark ob) xs \<and>
      length (filter (\<lambda>(v, ob). is_vector v \<and> \<not> obj_mark ob) xs) +
      length (filter (\<lambda>(v, ob). is_struct v \<and> \<not> obj_mark ob) (?keep is_vector xs)) +
      length (filter (\<lambda>(v, ob). is_btree v \<and> \<not> obj_mark ob) (?keep is_struct (?keep is_vector xs))) =
      length (filter (\<lambda>(v, ob). \<not> obj_mark ob) xs)" if "\<forall>x\<in>set xs. is_ref (fst x)" for xs
    using that
  proof (induction xs)
    case (Cons x xs)
    obtain v ob where x: "x = (v, ob)" by fastforce
    show ?case using Cons by (cases v) (auto simp: x)
  qed simp
  note filtered = this[OF refs]
  have r: "gc_reclaim kind (n, h\<lparr>gc_objects := xs\<rparr>) =
      (n + length (filter (\<lambda>(v, ob). kind v \<and> \<not> obj_mark ob) xs), h\<lparr>gc_objects := ?keep kind xs\<rparr>)"
    if "distinct (map fst xs)" for kind n xs
    using reclaim_one[of "h\<lparr>gc_objects := xs\<rparr>" kind n] that by simp
  have "gc_reclaim is_btree (gc_reclaim is_struct (gc_reclaim is_vector (0, h\<lparr>gc_objects := ?xs\<rparr>))) =
      (length (filter (\<lambda>(v, ob). \<not> obj_mark ob) ?xs), h\<lparr>gc_objects := filter (\<lambda>(v, ob). obj_mark ob) ?xs\<rparr>)"
    unfolding r[OF d] r[OF dk[OF d]] r[OF dk[OF dk[OF d]]] using filtered by (simp only: add_0)
  then show ?thesis by simp
qed

end
