(* ===== verification/HeapProps.thy ===== *)
theory HeapProps
  imports HeapGc
begin

text \<open>
  What holds of every heap that the operations of \<open>src/uno.c\<close> and the collector of \<open>src/gc.c\<close> can
  bring about, as long as callers pass references they hold and give back those they took.
\<close>

section \<open>Collections\<close>

lemma inv_closed: "heap_inv ext h \<Longrightarrow> heap_closed h"
  by (auto simp: heap_inv_def heap_ok_def heap_closed_def)

lemma inv_begin:
  assumes "heap_inv ext h" "marks_only h h'"
  shows "heap_inv ext h'"
proof -
  have keys: "map fst (gc_objects h') = map fst (gc_objects h)"
    using arg_cong[where f="\<lambda>h. map fst (gc_objects h)", OF assms(2)[unfolded marks_only_def]]
    by (simp add: unmark_all_def ussr_gc_begin_def comp_def split_def)
  have fields: "gc_next_address h' = gc_next_address h"
    using arg_cong[where f=gc_next_address, OF assms(2)[unfolded marks_only_def]]
    by (simp add: unmark_all_def ussr_gc_begin_def)
  have refs_begin: "refs_in (ussr_gc_begin h) r = refs_in h r" for h r
    by (simp add: refs_in_def ussr_gc_begin_def comp_def split_def)
  have refs: "refs_in h' r = refs_in h r" for r
    using assms(2) refs_begin unfolding marks_only_def unmark_all_def by metis
  have "shape_at h' x = shape_at h x" for x
    using marks_only_lookup[OF assms(2), of x] marks_only_none[OF assms(2), of x]
    by (cases "lookup h x") (auto simp: shape_at_def)
  then have m: "matches h' t x = matches h t x" for t x by (rule same_shapes_kept)
  have l: "\<exists>ob m. lookup h v = Some ob \<and> ob' = ob\<lparr>obj_mark := m\<rparr>" if "lookup h' v = Some ob'" for v ob'
  proof -
    have "\<exists>n. lookup h v = Some (ob'\<lparr>obj_mark := n\<rparr>)" by (rule marks_only_lookup[OF marks_only_sym[OF assms(2)] that])
    then obtain n where "lookup h v = Some (ob'\<lparr>obj_mark := n\<rparr>)" by blast
    moreover have "ob' = (ob'\<lparr>obj_mark := n\<rparr>)\<lparr>obj_mark := obj_mark ob'\<rparr>" by simp
    ultimately show ?thesis by blast
  qed
  have f: "slot_fits h' (ob\<lparr>obj_mark := n\<rparr>) = slot_fits h ob" for ob n using m by (cases "obj_shape ob") (auto simp: slot_fits_def)
  have ok: "heap_ok ext h" and t: "typed h" using assms(1) by (auto simp: heap_inv_def)
  have "heap_ok ext h'"
    unfolding heap_ok_def
  proof (intro conjI allI impI)
    show "distinct (map fst (gc_objects h'))" using ok_distinct[OF ok] keys by simp
  next
    fix v ob' assume "lookup h' v = Some ob'"
    then obtain ob n where ob: "lookup h v = Some ob" "ob' = ob\<lparr>obj_mark := n\<rparr>" using l by blast
    show "is_ref v" "address v < gc_next_address h'" "well_shaped v ob'" "0 < obj_refcount ob'"
      "refs_in h' v + ext v \<le> obj_refcount ob'" "\<forall>x\<in>set (obj_items ob'). alive h' x"
      using ok_object[OF ok ob(1)] ob(2) fields refs marks_only_alive[OF assms(2)] by auto
  next
    fix v assume "0 < ext v"
    then show "alive h' v" using ok_alive[OF ok] marks_only_alive[OF assms(2)] by simp
  qed
  moreover have "typed h'"
    unfolding typed_def
  proof (intro allI impI)
    fix v ob' assume "lookup h' v = Some ob'"
    then obtain ob n where "lookup h v = Some ob" "ob' = ob\<lparr>obj_mark := n\<rparr>" using l by blast
    then show "slot_fits h' ob'" using t f by (simp add: typed_def)
  qed
  ultimately show ?thesis by (simp add: heap_inv_def)
qed

lemma filter_lookup:
  assumes "distinct (map fst (gc_objects h))"
  shows "lookup (h\<lparr>gc_objects := filter (\<lambda>(v, ob). obj_mark ob) (gc_objects h)\<rparr>) v =
    (case lookup h v of Some ob \<Rightarrow> if obj_mark ob then Some ob else None | None \<Rightarrow> None)"
proof -
  have "map_of (filter (\<lambda>(v, ob). obj_mark ob) xs) v =
      (case map_of xs v of Some ob \<Rightarrow> if obj_mark ob then Some ob else None | None \<Rightarrow> None)"
    if "distinct (map fst xs)" for xs
    using that
  proof (induction xs)
    case (Cons x xs)
    obtain k ob where x: "x = (k, ob)" by fastforce
    show ?case
    proof (cases "k = v")
      case True
      then have "map_of xs v = None" using Cons.prems x by (auto simp: map_of_eq_None_iff)
      then show ?thesis using Cons True x by auto
    qed (use Cons x in auto)
  qed simp
  then show ?thesis using assms by (simp add: lookup_def)
qed

lemma collect_ok:
  assumes inv: "heap_inv ext h" and roots: "\<forall>v. 0 < ext v \<and> is_ref v \<longrightarrow> v \<in> set roots" "\<forall>v\<in>set roots. held ext v"
  shows "\<exists>n h'. sched_gc_collect roots h = Some (n, h') \<and> heap_inv ext h' \<and> n + length (gc_objects h') = length (gc_objects h) \<and>
    (\<forall>v. lookup h' v = (case lookup h v of
        Some ob \<Rightarrow> if reach h (set roots) v then Some (ob\<lparr>obj_mark := True\<rparr>) else None | None \<Rightarrow> None)) \<and>
    (\<forall>v. refs_in h' v \<le> refs_in h v) \<and>
    (\<forall>v g og. lookup h g = Some og \<and> \<not> reach h (set roots) g \<and> v \<in> set (obj_items og) \<longrightarrow> refs_in h' v < refs_in h v)"
proof -
  have ok: "heap_ok ext h" using inv by (simp add: heap_inv_def)
  have "\<forall>v\<in>set roots. alive h v" using roots(2) ok_held[OF ok] by blast
  from mark_phase[OF inv_closed[OF inv] this] obtain m where
    m: "gc_mark_values roots (ussr_gc_begin h) = Some m" "marks_only h m" "\<forall>v. heap_marked m v \<longleftrightarrow> reach h (set roots) v" by blast
  have invm: "heap_inv ext m" by (rule inv_begin[OF inv m(2)])
  have okm: "heap_ok ext m" using invm by (simp add: heap_inv_def)
  note dm = ok_distinct[OF okm]
  obtain d1 where d1: "gc_detach is_vector m = Some d1" "garbage_counts m d1" "heap_closed d1" using detach_ok[OF dm inv_closed[OF invm]] by blast
  have dd1: "distinct (map fst (gc_objects d1))" using garbage_counts_keys(1)[OF d1(2)] dm by simp
  obtain d2 where d2: "gc_detach is_struct d1 = Some d2" "garbage_counts d1 d2" "heap_closed d2" using detach_ok[OF dd1 d1(3)] by blast
  have dd2: "distinct (map fst (gc_objects d2))" using garbage_counts_keys(1)[OF d2(2)] dd1 by simp
  obtain d3 where d3: "gc_detach is_btree d2 = Some d3" "garbage_counts d2 d3" "heap_closed d3" using detach_ok[OF dd2 d2(3)] by blast
  have g: "garbage_counts m d3" by (rule garbage_counts_trans[OF d1(2) garbage_counts_trans[OF d2(2) d3(2)]])
  have keys: "map fst (gc_objects d3) = map fst (gc_objects m)" by (rule garbage_counts_keys(1)[OF g])
  have dd3: "distinct (map fst (gc_objects d3))" using keys dm by simp
  have refs: "\<forall>x\<in>set (gc_objects d3). is_ref (fst x)"
  proof
    fix x assume "x \<in> set (gc_objects d3)"
    then have "fst x \<in> set (map fst (gc_objects m))" unfolding keys[symmetric] by simp
    then obtain ob where "lookup m (fst x) = Some ob" by (cases "lookup m (fst x)") (auto simp: lookup_def map_of_eq_None_iff)
    then show "is_ref (fst x)" by (rule ok_object(1)[OF okm])
  qed
  let ?keep = "filter (\<lambda>(v, ob). obj_mark ob)"
  have kept: "?keep (gc_objects d3) = ?keep (gc_objects m)" using g same_lists(2) by (auto simp: garbage_counts_def)
  let ?n = "length (filter (\<lambda>(v, ob). \<not> obj_mark ob) (gc_objects d3))"
  let ?h' = "d3\<lparr>gc_objects := ?keep (gc_objects d3), gc_collected_total := gc_collected_total d3 + ?n, gc_pending := False, gc_alloc_count := 0\<rparr>"
  have run: "sched_gc_collect roots h = Some (?n, ?h')"
    unfolding sched_gc_collect_def m(1) ussr_gc_sweep_def d1(1) d2(1) d3(1) Let_def
    using reclaim_all[OF dd3 refs] d1(1) d2(1) d3(1) by simp
  have lookup': "lookup ?h' v = (case lookup m v of Some ob \<Rightarrow> if obj_mark ob then Some ob else None | None \<Rightarrow> None)" for v
    using filter_lookup[OF dm, of v] by (simp add: lookup_def kept)
  have look: "lookup ?h' v = (case lookup h v of
      Some ob \<Rightarrow> if reach h (set roots) v then Some (ob\<lparr>obj_mark := True\<rparr>) else None | None \<Rightarrow> None)" for v
  proof (cases "lookup h v")
    case None
    then show ?thesis using marks_only_none[OF m(2)] lookup'[of v] by simp
  next
    case (Some ob)
    then obtain k where k: "lookup m v = Some (ob\<lparr>obj_mark := k\<rparr>)" using marks_only_lookup[OF m(2)] by blast
    then have "heap_marked m v \<longleftrightarrow> k" by (simp add: heap_marked_def)
    then have "k \<longleftrightarrow> reach h (set roots) v" using m(3) by simp
    then show ?thesis using Some k lookup'[of v] by auto
  qed
  have len: "?n + length (gc_objects ?h') = length (gc_objects h)"
  proof -
    have "length (gc_objects d3) = length (gc_objects h)"
      using arg_cong[OF keys, of length] arg_cong[where f="\<lambda>h. length (gc_objects h)", OF m(2)[unfolded marks_only_def]]
      by (simp add: unmark_all_def ussr_gc_begin_def)
    then show ?thesis using sum_length_filter_compl[of "\<lambda>(v, ob). obj_mark ob" "gc_objects d3"] by (simp add: split_def)
  qed
  have refs_m: "refs_in m v = refs_in h v" for v
  proof -
    have "refs_in (ussr_gc_begin k) v = refs_in k v" for k by (simp add: refs_in_def ussr_gc_begin_def comp_def split_def)
    then show ?thesis using m(2) unfolding marks_only_def unmark_all_def by metis
  qed
  have sum_keep: "(\<Sum>(k, ob)\<leftarrow>?keep xs. f ob) \<le> (\<Sum>(k, ob)\<leftarrow>xs. f ob)" for xs and f :: "gc_object \<Rightarrow> nat"
    by (induction xs) auto
  have refs_le: "refs_in ?h' v \<le> refs_in h v" for v
    using sum_keep[of "\<lambda>ob. count_list (obj_items ob) v" "gc_objects m"] refs_m[of v] by (simp add: refs_in_def kept)
  have refs_less: "refs_in ?h' v < refs_in h v"
    if g: "lookup h gv = Some og" "\<not> reach h (set roots) gv" "v \<in> set (obj_items og)" for v gv og
  proof -
    obtain k where k: "lookup m gv = Some (og\<lparr>obj_mark := k\<rparr>)" using marks_only_lookup[OF m(2) g(1)] by blast
    then have "\<not> k" using m(3) g(2) by (auto simp: heap_marked_def)
    have "0 < count_list (obj_items og) v" using g(3) by (metis count_list_0_iff gr0I)
    moreover have "(\<Sum>(k, ob)\<leftarrow>?keep xs. f ob) + f o' \<le> (\<Sum>(k, ob)\<leftarrow>xs. f ob)"
      if "(w, o') \<in> set xs" "\<not> obj_mark o'" for xs w o' and f :: "gc_object \<Rightarrow> nat"
      using that
    proof (induction xs)
      case (Cons x xs)
      then show ?case using sum_keep[of f xs] by (cases x) (auto split: if_splits)
    qed simp
    from this[OF lookup_mem[OF k], of "\<lambda>ob. count_list (obj_items ob) v"] \<open>\<not> k\<close>
    have "refs_in ?h' v + count_list (obj_items og) v \<le> refs_in m v" by (simp add: refs_in_def kept)
    ultimately show ?thesis using refs_m[of v] by simp
  qed
  have live: "alive ?h' x" if "alive h x" "is_ref x \<Longrightarrow> reach h (set roots) x" for x
    using that look[of x] by (auto simp: alive_def split: option.splits)
  have ok': "heap_ok ext ?h'"
    unfolding heap_ok_def
  proof (intro conjI allI impI)
    show "distinct (map fst (gc_objects ?h'))" using dm by (simp add: kept distinct_map_filter)
  next
    fix v ob' assume v: "lookup ?h' v = Some ob'"
    then obtain ob where ob: "lookup h v = Some ob" "reach h (set roots) v" "ob' = ob\<lparr>obj_mark := True\<rparr>"
      using look[of v] by (auto split: option.splits if_splits)
    have next_eq: "gc_next_address ?h' = gc_next_address h"
      using g arg_cong[where f=gc_next_address, OF m(2)[unfolded marks_only_def]]
      by (simp add: garbage_counts_def unmark_all_def ussr_gc_begin_def)
    show "is_ref v" "address v < gc_next_address ?h'" "well_shaped v ob'" "0 < obj_refcount ob'"
      using ok_object[OF ok ob(1)] ob(3) next_eq by auto
    show "refs_in ?h' v + ext v \<le> obj_refcount ob'"
      using ok_object(6)[OF ok ob(1)] ob(3) refs_le[of v] by simp
    show "\<forall>x\<in>set (obj_items ob'). alive ?h' x"
    proof
      fix x assume "x \<in> set (obj_items ob')"
      then have x: "x \<in> set (obj_items ob)" using ob(3) by simp
      show "alive ?h' x"
        by (rule live[OF ok_object(4)[OF ok ob(1) x]]) (rule reach_item[OF ob(2,1) x])
    qed
  next
    fix v assume "0 < ext v"
    then show "alive ?h' v" using roots(1) by (intro live ok_alive[OF ok] reach_root) auto
  qed
  have "kept h ?h'"
  proof -
    have "gc_types ?h' = gc_types h" "gc_next_address ?h' = gc_next_address h"
      using g arg_cong[where f=gc_types, OF m(2)[unfolded marks_only_def]] arg_cong[where f=gc_next_address, OF m(2)[unfolded marks_only_def]]
      by (simp_all add: garbage_counts_def unmark_all_def ussr_gc_begin_def)
    then show ?thesis using look by (auto simp: kept_def split: option.splits if_splits)
  qed
  then have "heap_inv ext ?h'" using typed_kept ok' inv by (auto simp: heap_inv_def)
  then show ?thesis using run len look refs_le refs_less by blast
qed

section \<open>Reachable heaps\<close>

text \<open>
  \<open>ext v\<close> counts the references to \<open>v\<close> that variables, registers and locals hold: what an operation
  returns is theirs, what they pass they hold, and they release only what they hold.
\<close>

definition gains :: "(ussr_value \<Rightarrow> nat) \<Rightarrow> ussr_value option \<Rightarrow> ussr_value \<Rightarrow> nat" where
  "gains ext r = (case r of None \<Rightarrow> ext | Some x \<Rightarrow> plus_refs ext [x])"

definition start_heap :: heap where
  "start_heap = \<lparr>gc_objects = [], gc_next_address = 0, gc_types = [], gc_alloc_count = 0, gc_collected_total = 0, gc_pending = False\<rparr>"

definition root_set :: "(ussr_value \<Rightarrow> nat) \<Rightarrow> ussr_value list \<Rightarrow> bool" where
  "root_set ext roots \<longleftrightarrow> (\<forall>v. 0 < ext v \<and> is_ref v \<longrightarrow> v \<in> set roots) \<and> (\<forall>v\<in>set roots. held ext v)"

inductive heap_reachable :: "(ussr_value \<Rightarrow> nat) \<Rightarrow> heap \<Rightarrow> bool" where
  heap_start: "heap_reachable (\<lambda>_. 0) start_heap"
| heap_declare: "heap_reachable ext h \<Longrightarrow>
    heap_reachable ext (h\<lparr>gc_types := snd (ussr_struct_register name parent specs (gc_types h))\<rparr>)"
| heap_vector: "heap_reachable ext h \<Longrightarrow> ussr_vector_create et h = (v, h') \<Longrightarrow> heap_reachable (plus_refs ext [v]) h'"
| heap_btree: "heap_reachable ext h \<Longrightarrow> create_btree_object h = (v, h') \<Longrightarrow> heap_reachable (plus_refs ext [v]) h'"
| heap_instance: "heap_reachable ext h \<Longrightarrow> \<forall>x\<in>set args. held ext x \<Longrightarrow> ussr_struct_instantiate name args h = Some (r, h') \<Longrightarrow>
    heap_reachable (gains ext r) h'"
| heap_named: "heap_reachable ext h \<Longrightarrow> \<forall>x\<in>snd ` set named. held ext x \<Longrightarrow>
    ussr_struct_instantiate_named name named h = Some (r, h') \<Longrightarrow> heap_reachable (gains ext r) h'"
| heap_copy: "heap_reachable ext h \<Longrightarrow> held ext v \<Longrightarrow> uno_store_value v h = Some h' \<Longrightarrow> heap_reachable (plus_refs ext [v]) h'"
| heap_release: "heap_reachable (plus_refs ext [v]) h \<Longrightarrow> uno_release_value v h = Some h' \<Longrightarrow> heap_reachable ext h'"
| heap_push: "heap_reachable ext h \<Longrightarrow> held ext v \<Longrightarrow> is_vector v \<Longrightarrow> held ext x \<Longrightarrow>
    ussr_vector_push v x h = Some (ok, h') \<Longrightarrow> heap_reachable ext h'"
| heap_pop: "heap_reachable ext h \<Longrightarrow> held ext v \<Longrightarrow> is_vector v \<Longrightarrow> ussr_vector_pop v h = Some (r, h') \<Longrightarrow> heap_reachable (gains ext r) h'"
| heap_get: "heap_reachable ext h \<Longrightarrow> held ext v \<Longrightarrow> is_vector v \<Longrightarrow> ussr_vector_get v i h = Some (r, h') \<Longrightarrow> heap_reachable (gains ext r) h'"
| heap_set: "heap_reachable ext h \<Longrightarrow> held ext v \<Longrightarrow> is_vector v \<Longrightarrow> held ext x \<Longrightarrow>
    ussr_vector_set v i x h = Some (ok, h') \<Longrightarrow> heap_reachable ext h'"
| heap_get_field: "heap_reachable ext h \<Longrightarrow> held ext v \<Longrightarrow> is_struct v \<Longrightarrow> ussr_struct_get_field v name h = Some (r, h') \<Longrightarrow>
    heap_reachable (gains ext r) h'"
| heap_set_field: "heap_reachable ext h \<Longrightarrow> held ext v \<Longrightarrow> is_struct v \<Longrightarrow> held ext x \<Longrightarrow>
    ussr_struct_set_field v name x h = Some (ok, h') \<Longrightarrow> heap_reachable ext h'"
| heap_collect: "heap_reachable ext h \<Longrightarrow> root_set ext roots \<Longrightarrow> sched_gc_collect roots h = Some (n, h') \<Longrightarrow> heap_reachable ext h'"

lemma start_inv: "heap_inv (\<lambda>_. 0) start_heap"
  by (simp add: heap_inv_def heap_ok_def typed_def start_heap_def lookup_def)

lemma gains_case: "(case r of None \<Rightarrow> heap_inv ext h | Some x \<Rightarrow> heap_inv (plus_refs ext [x]) h) = heap_inv (gains ext r) h"
  by (simp add: gains_def split: option.split)

lemmas returning_ok = instantiate_ok[unfolded gains_case] instantiate_named_ok[unfolded gains_case] pop_ok[unfolded gains_case]
  get_ok[unfolded gains_case] get_field_ok[unfolded gains_case]

lemma reachable_inv: "heap_reachable ext h \<Longrightarrow> heap_inv ext h"
proof (induction rule: heap_reachable.induct)
  case (heap_vector ext h et v h')
  then show ?case using vector_create_ok(1) by blast
next
  case (heap_instance ext h args name r h')
  then show ?case using returning_ok(1)[of ext h args name] by auto
next
  case (heap_named ext h named name r h')
  then show ?case using returning_ok(2)[of ext h named name] by auto
next
  case (heap_copy ext h v h')
  then have "alive h v" using ok_held by (auto simp: heap_inv_def)
  then show ?case using inv_store[of ext h v] heap_copy by auto
next
  case (heap_release ext v h h')
  then show ?case using inv_release[of ext "[v]" h] by (auto simp: uno_release_value_def)
next
  case (heap_push ext h v x ok h')
  then show ?case using push_ok[of ext h v x] by auto
next
  case (heap_pop ext h v r h')
  then show ?case using returning_ok(3)[of ext h v] by auto
next
  case (heap_get ext h v i r h')
  then show ?case using returning_ok(4)[of ext h v i] by auto
next
  case (heap_set ext h v x i ok h')
  then show ?case using set_ok[of ext h v x i] by auto
next
  case (heap_get_field ext h v name r h')
  then show ?case using returning_ok(5)[of ext h v name] by auto
next
  case (heap_set_field ext h v x name ok h')
  then show ?case using set_field_ok[of ext h v x name] by auto
next
  case (heap_collect ext h roots n h')
  then show ?case using collect_ok[of ext h roots] by (auto simp: root_set_def)
qed (use start_inv btree_create_ok in simp_all)

section \<open>The properties\<close>

text \<open>
  C16: Whoever holds a reference can use it: no operation on a held vector or instance, with held
  arguments, touches freed memory, and neither does releasing a held reference, whatever it frees.
\<close>

theorem references_are_safe:
  assumes "heap_reachable ext h" "\<forall>x\<in>set args. held ext x" "held ext item" "0 < ext v"
  shows "(is_vector v \<longrightarrow> ussr_vector_push v item h \<noteq> None \<and> ussr_vector_pop v h \<noteq> None \<and>
      ussr_vector_get v i h \<noteq> None \<and> ussr_vector_set v i item h \<noteq> None) \<and>
    (is_struct v \<longrightarrow> ussr_struct_get_field v name h \<noteq> None \<and> ussr_struct_set_field v name item h \<noteq> None) \<and>
    ussr_struct_instantiate name args h \<noteq> None \<and> uno_store_value v h \<noteq> None \<and> uno_release_value v h \<noteq> None"
proof -
  have inv: "heap_inv ext h" by (rule reachable_inv[OF assms(1)])
  have v: "held ext v" using assms(4) by (simp add: held_def)
  have "alive h v" using inv v ok_held by (auto simp: heap_inv_def)
  then have "uno_store_value v h \<noteq> None" using inv_store[OF inv] by auto
  moreover have "uno_release_value v h \<noteq> None"
  proof -
    let ?ext = "ext(v := ext v - 1)"
    have "plus_refs ?ext [v] = ext" using assms(4) by (auto simp: plus_refs_def fun_eq_iff)
    then show ?thesis using inv_release[of ?ext "[v]" h] inv by (auto simp: uno_release_value_def)
  qed
  moreover have "ussr_struct_instantiate name args h \<noteq> None" using instantiate_ok[OF inv assms(2), of name] by auto
  moreover have "is_vector v \<longrightarrow> ussr_vector_push v item h \<noteq> None \<and> ussr_vector_pop v h \<noteq> None \<and>
      ussr_vector_get v i h \<noteq> None \<and> ussr_vector_set v i item h \<noteq> None"
    using push_ok[OF inv v _ assms(3)] pop_ok[OF inv v] get_ok[OF inv v, of i] set_ok[OF inv v _ assms(3), of i] by fastforce
  moreover have "is_struct v \<longrightarrow> ussr_struct_get_field v name h \<noteq> None \<and> ussr_struct_set_field v name item h \<noteq> None"
    using get_field_ok[OF inv v, of name] set_field_ok[OF inv v _ assms(3), of name] by fastforce
  ultimately show ?thesis by blast
qed

text \<open>
  C19: Giving back a reference frees nothing that the remaining references reach: each such object
  is still there with the same items, and so are all it refers to.
\<close>

theorem release_keeps_what_is_reachable:
  assumes "heap_reachable (plus_refs ext [v]) h" "uno_release_value v h = Some h'" "reach h {u. 0 < ext u} u"
  shows "\<exists>ob ob'. lookup h u = Some ob \<and> lookup h' u = Some ob' \<and> obj_items ob' = obj_items ob \<and>
    (\<forall>x\<in>set (obj_items ob'). alive h' x)"
proof -
  obtain k: "heap_inv ext h'" "kept h h'"
    using inv_release[OF reachable_inv[OF assms(1)]] assms(2) by (auto simp: uno_release_value_def)
  from release_keeps_reachable[OF k assms(3)] obtain ob' where ob': "lookup h' u = Some ob'" by auto
  then have "\<exists>ob. lookup h u = Some ob \<and> obj_items ob' = obj_items ob" using k(2) unfolding kept_def by blast
  moreover have "\<forall>x\<in>set (obj_items ob'). alive h' x" using ok_object(4)[OF _ ob'] k(1) by (auto simp: heap_inv_def)
  ultimately show ?thesis using ob' by auto
qed

text \<open>
  C17: A collection frees exactly the garbage: it never touches freed memory, an object is there
  afterwards if and only if the roots reach it, with its items and its count unchanged, and the
  number it returns is how many objects it freed, cycles included.
\<close>

theorem gc_collects_exactly_the_garbage:
  assumes "heap_reachable ext h" "root_set ext roots"
  shows "\<exists>n h'. sched_gc_collect roots h = Some (n, h') \<and> n + length (gc_objects h') = length (gc_objects h) \<and>
    (\<forall>v. lookup h' v = (case lookup h v of
        Some ob \<Rightarrow> if reach h (set roots) v then Some (ob\<lparr>obj_mark := True\<rparr>) else None | None \<Rightarrow> None))"
  using collect_ok[OF reachable_inv[OF assms(1)]] assms(2) unfolding root_set_def by blast

text \<open>
  C38: What garbage referred to keeps a count too high: after a collection the count of a
  surviving object that a freed one referred to is larger than the number of references to it,
  so reference counting alone will not free it any more.
\<close>

theorem gc_leaves_counts_too_high:
  assumes "heap_reachable ext h" "root_set ext roots" "sched_gc_collect roots h = Some (n, h')"
    "lookup h g = Some og" "lookup h' g = None" "v \<in> set (obj_items og)" "lookup h' v = Some ob"
  shows "refs_in h' v + ext v < obj_refcount ob"
proof -
  have inv: "heap_inv ext h" by (rule reachable_inv[OF assms(1)])
  obtain n2 h2 where c: "sched_gc_collect roots h = Some (n2, h2)"
    "\<forall>v. lookup h2 v = (case lookup h v of
        Some ob \<Rightarrow> if reach h (set roots) v then Some (ob\<lparr>obj_mark := True\<rparr>) else None | None \<Rightarrow> None)"
    "\<forall>v g og. lookup h g = Some og \<and> \<not> reach h (set roots) g \<and> v \<in> set (obj_items og) \<longrightarrow> refs_in h2 v < refs_in h v"
    using collect_ok[OF inv, of roots] assms(2) unfolding root_set_def by blast
  have h2: "h2 = h'" using c(1) assms(3) by simp
  have "\<not> reach h (set roots) g" using c(2)[rule_format, of g] assms(4,5) by (auto simp: h2 split: if_splits)
  then have less: "refs_in h' v < refs_in h v" using c(3) assms(4,6) h2 by blast
  obtain ob0 where "lookup h v = Some ob0" "ob = ob0\<lparr>obj_mark := True\<rparr>"
    using c(2)[rule_format, of v] assms(7) by (auto simp: h2 split: option.splits if_splits)
  then have "refs_in h v + ext v \<le> obj_refcount ob" using ok_object(6)[of ext h v ob0] inv by (auto simp: heap_inv_def)
  with less show ?thesis by simp
qed

text \<open>
  C18: Types are kept: whatever the program does, a field that a struct type or one of its parents
  declares holds a value of the declared type, and an element-typed vector holds only values of
  its type. A value of a struct type \<open>t\<close> is null or an instance of \<open>t\<close> or of a type that extends it.
\<close>

theorem values_have_their_declared_types:
  assumes "heap_reachable ext h"
  shows "(\<forall>v type items name i t. instance_of h v = Some (type, items) \<and> uno_field_locate type name = Some (i, t) \<longrightarrow>
      i < length items \<and> uno_type_matches t (items ! i) h = Some True) \<and>
    (\<forall>v t items x. vector_of h v = Some (Some t, items) \<and> x \<in> set items \<longrightarrow> uno_type_matches t x h = Some True)"
proof (intro conjI allI impI; elim conjE)
  have inv: "heap_inv ext h" by (rule reachable_inv[OF assms])
  then have t: "typed h" by (simp add: heap_inv_def)
  fix v type items name i t assume a: "instance_of h v = Some (type, items)" "uno_field_locate type name = Some (i, t)"
  obtain ob where ob: "lookup h v = Some ob" "obj_shape ob = Instance_of type" "obj_items ob = items"
    "length items = ussr_struct_total_field_count type" using instance_object[OF inv a(1)] by blast
  note loc = field_locate_nth[OF a(2)]
  show i: "i < length items" using loc ob(4) by simp
  have "slot_fits h ob" using t ob(1) by (auto simp: typed_def)
  then show "uno_type_matches t (items ! i) h = Some True" using ob(2,3) i loc by (auto simp: slot_fits_def matches_def)
next
  have inv: "heap_inv ext h" by (rule reachable_inv[OF assms])
  then have t: "typed h" by (simp add: heap_inv_def)
  fix v t items x assume a: "vector_of h v = Some (Some t, items)" "x \<in> set items"
  obtain ob where ob: "lookup h v = Some ob" "obj_shape ob = Vector_of (Some t)" "obj_items ob = items"
    using vector_object[OF inv a(1)] by blast
  have "slot_fits h ob" using t ob(1) by (auto simp: typed_def)
  then show "uno_type_matches t x h = Some True" using ob(2,3) a(2) by (auto simp: slot_fits_def matches_def)
qed

end
