(* ===== verification/HeapExample.thy ===== *)
theory HeapExample
  imports HeapProps
begin

text \<open>
  A vector that holds itself and another vector: given back, it is garbage that reference counting
  cannot see. And a built-in struct.
\<close>

abbreviation "v0 \<equiv> USSR_VECTOR 0"
abbreviation "v1 \<equiv> USSR_VECTOR 1"

definition a_vector :: "ussr_value list \<Rightarrow> nat \<Rightarrow> gc_object" where
  "a_vector items count = \<lparr>obj_shape = Vector_of None, obj_items = items, obj_refcount = count, obj_mark = False\<rparr>"

definition two_vectors :: "gc_object \<Rightarrow> gc_object \<Rightarrow> heap" where
  "two_vectors ob0 ob1 = start_heap\<lparr>gc_objects := [(v1, ob1), (v0, ob0)], gc_next_address := 2\<rparr>"

definition ext_both :: "ussr_value \<Rightarrow> nat" where "ext_both = plus_refs (plus_refs (\<lambda>_. 0) [v1]) [v0]"
definition ext_v1 :: "ussr_value \<Rightarrow> nat" where "ext_v1 = plus_refs (\<lambda>_. 0) [v1]"
definition ext_v0 :: "ussr_value \<Rightarrow> nat" where "ext_v0 = plus_refs (\<lambda>_. 0) [v0]"

lemmas heap_eval = two_vectors_def a_vector_def start_heap_def lookup_def update_object_def unregister_def set_items_def
  ussr_vector_push_def vector_of_def element_matches_def uno_store_value_def uno_release_value_def uno_release_values.simps

lemma plus_refs_commute: "plus_refs (plus_refs ext xs) ys = plus_refs (plus_refs ext ys) xs"
  by (simp add: plus_refs_def fun_eq_iff)

lemma held_both: "held ext_both v0" "held ext_both v1" "ext_both v0 = 1" "ext_both v1 = 1" "ext_v1 v1 = 1"
  by (simp_all add: ext_both_def ext_v1_def plus_refs_def held_def)

lemma reach_two: "heap_reachable ext_both (two_vectors (a_vector [] 1) (a_vector [] 1))"
proof -
  let ?h = "start_heap\<lparr>gc_objects := [(v0, a_vector [] 1)], gc_next_address := 1\<rparr>"
  have "ussr_vector_create None start_heap = (v0, ?h)"
    by (simp add: Let_def ussr_vector_create_def register_def start_heap_def a_vector_def)
  from heap_vector[OF heap_start this] have "heap_reachable (plus_refs (\<lambda>_. 0) [v0]) ?h" .
  moreover have "ussr_vector_create None ?h = (v1, two_vectors (a_vector [] 1) (a_vector [] 1))"
    by (simp add: Let_def ussr_vector_create_def register_def start_heap_def a_vector_def two_vectors_def)
  ultimately show ?thesis unfolding ext_both_def plus_refs_commute[of _ "[v1]"] by (rule heap_vector)
qed

text \<open>\<open>v0\<close> holds \<open>v1\<close>; then also itself.\<close>

lemma reach_nested: "heap_reachable ext_both (two_vectors (a_vector [v1] 1) (a_vector [] 2))"
proof -
  have "ussr_vector_push v0 v1 (two_vectors (a_vector [] 1) (a_vector [] 1)) = Some (True, two_vectors (a_vector [v1] 1) (a_vector [] 2))"
    by (simp add: heap_eval)
  from heap_push[OF reach_two _ _ _ this] show ?thesis using held_both by simp
qed

lemma reach_cycle: "heap_reachable ext_v1 (two_vectors (a_vector [v1, v0] 1) (a_vector [] 2))"
proof -
  have "ussr_vector_push v0 v0 (two_vectors (a_vector [v1] 1) (a_vector [] 2)) = Some (True, two_vectors (a_vector [v1, v0] 2) (a_vector [] 2))"
    by (simp add: heap_eval)
  from heap_push[OF reach_nested _ _ _ this] have "heap_reachable ext_both (two_vectors (a_vector [v1, v0] 2) (a_vector [] 2))"
    using held_both by simp
  moreover have "uno_release_value v0 (two_vectors (a_vector [v1, v0] 2) (a_vector [] 2)) = Some (two_vectors (a_vector [v1, v0] 1) (a_vector [] 2))"
    by (simp add: heap_eval)
  ultimately show ?thesis unfolding ext_both_def ext_v1_def by (rule heap_release)
qed

lemma cycle_roots: "root_set ext_v1 [v1]"
  by (auto simp: root_set_def ext_v1_def plus_refs_def held_def split: if_splits)

theorem references_are_safe_witness:
  "ussr_vector_set v0 0 v0 (two_vectors (a_vector [v1] 1) (a_vector [] 2)) \<noteq> None \<and>
   uno_release_value v0 (two_vectors (a_vector [v1] 1) (a_vector [] 2)) \<noteq> None"
  using references_are_safe[OF reach_nested, of "[]" v0 v0 0] held_both by simp

theorem release_keeps_what_is_reachable_witness:
  "\<exists>h' ob'. uno_release_value v1 (two_vectors (a_vector [v1] 1) (a_vector [] 2)) = Some h' \<and> lookup h' v1 = Some ob'"
proof -
  have r: "heap_reachable (plus_refs ext_v0 [v1]) (two_vectors (a_vector [v1] 1) (a_vector [] 2))"
    using reach_nested unfolding ext_both_def ext_v0_def by (simp only: plus_refs_commute)
  have s: "uno_release_value v1 (two_vectors (a_vector [v1] 1) (a_vector [] 2)) = Some (two_vectors (a_vector [v1] 1) (a_vector [] 1))"
    by (simp add: heap_eval)
  let ?R = "reach (two_vectors (a_vector [v1] 1) (a_vector [] 2)) {u. 0 < ext_v0 u}"
  have "?R v0" by (rule reach_root) (simp_all add: ext_v0_def plus_refs_def)
  then have "?R v1" by (rule reach_item[where ob="a_vector [v1] 1"]) (simp_all add: heap_eval)
  from release_keeps_what_is_reachable[OF r s this] s show ?thesis by blast
qed

theorem gc_collects_exactly_the_garbage_witness:
  "\<exists>h'. sched_gc_collect [v1] (two_vectors (a_vector [v1, v0] 1) (a_vector [] 2)) = Some (1, h') \<and> lookup h' v0 = None \<and> lookup h' v1 \<noteq> None"
proof -
  let ?h = "two_vectors (a_vector [v1, v0] 1) (a_vector [] 2)"
  obtain n h' where c: "sched_gc_collect [v1] ?h = Some (n, h')" "n + length (gc_objects h') = length (gc_objects ?h)"
    "\<forall>v. lookup h' v = (case lookup ?h v of
        Some ob \<Rightarrow> if reach ?h (set [v1]) v then Some (ob\<lparr>obj_mark := True\<rparr>) else None | None \<Rightarrow> None)"
    using gc_collects_exactly_the_garbage[OF reach_cycle cycle_roots] by blast
  have "sched_gc_collect [v1] ?h = Some (1, start_heap\<lparr>gc_objects := [(v1, (a_vector [] 2)\<lparr>obj_mark := True\<rparr>)], gc_next_address := 2, gc_collected_total := 1\<rparr>)"
    by (simp add: sched_gc_collect_def ussr_gc_begin_def gc_mark_values.simps ussr_gc_sweep_def gc_detach_def gc_garbage_def gc_list_def
        gc_unref_garbage_child_def gc_reclaim_def heap_eval)
  with c(1) show ?thesis using c(3) by (auto simp: lookup_def)
qed

theorem gc_leaves_counts_too_high_witness:
  "\<exists>h' ob. sched_gc_collect [v1] (two_vectors (a_vector [v1, v0] 1) (a_vector [] 2)) = Some (1, h') \<and> lookup h' v1 = Some ob \<and>
     refs_in h' v1 + ext_v1 v1 < obj_refcount ob"
proof -
  let ?h = "two_vectors (a_vector [v1, v0] 1) (a_vector [] 2)"
  let ?ob = "(a_vector [] 2)\<lparr>obj_mark := True\<rparr>"
  let ?h' = "start_heap\<lparr>gc_objects := [(v1, ?ob)], gc_next_address := 2, gc_collected_total := 1\<rparr>"
  have c: "sched_gc_collect [v1] ?h = Some (1, ?h')"
    by (simp add: sched_gc_collect_def ussr_gc_begin_def gc_mark_values.simps ussr_gc_sweep_def gc_detach_def gc_garbage_def gc_list_def
        gc_unref_garbage_child_def gc_reclaim_def heap_eval)
  have l: "lookup ?h v0 = Some (a_vector [v1, v0] 1)" "lookup ?h' v0 = None" "v1 \<in> set (obj_items (a_vector [v1, v0] 1))" "lookup ?h' v1 = Some ?ob"
    by (simp_all add: heap_eval)
  from gc_leaves_counts_too_high[OF reach_cycle cycle_roots c l] c l(4) show ?thesis by blast
qed

theorem values_have_their_declared_types_witness:
  "\<exists>v h items. ussr_struct_instantiate ''Vec2'' [USSR_INTEGER 1, USSR_NULL] start_heap = Some (Some v, h) \<and>
     (\<exists>type. instance_of h v = Some (type, items) \<and> uno_type_matches ''number'' (items ! 0) h = Some True)"
proof -
  let ?t = "Struct_type ''Vec2'' None [(''x'', ''number''), (''y'', ''number'')]"
  let ?items = "[USSR_INTEGER 1, USSR_NULL]"
  let ?h = "start_heap\<lparr>gc_objects := [(USSR_STRUCT 0, \<lparr>obj_shape = Instance_of ?t, obj_items = ?items, obj_refcount = 1, obj_mark = False\<rparr>)],
    gc_next_address := 1, gc_types := [?t]\<rparr>"
  have i: "ussr_struct_instantiate ''Vec2'' ?items start_heap = Some (Some (USSR_STRUCT 0), ?h)"
    by (simp add: Let_def ussr_struct_instantiate_def ussr_struct_type_find_def struct_type_lookup_def uno_builtin_fields_def struct_type_add_def
        uno_parse_field_spec_def uno_alloc_instance_def register_def uno_type_matches_def store_field_def instance_of_def finish_instance_def
        heap_eval)
  have "heap_reachable (gains (\<lambda>_. 0) (Some (USSR_STRUCT 0))) ?h"
    by (rule heap_instance[OF heap_start _ i]) (simp add: held_def)
  from values_have_their_declared_types[OF this, THEN conjunct1, rule_format, of "USSR_STRUCT 0" ?t ?items "''x''" 0 "''number''"]
  have "uno_type_matches ''number'' (?items ! 0) ?h = Some True" by (simp add: instance_of_def lookup_def)
  moreover have "instance_of ?h (USSR_STRUCT 0) = Some (?t, ?items)" by (simp add: instance_of_def lookup_def)
  ultimately show ?thesis using i by blast
qed

end
