(* ===== verification/DoubleOps.thy ===== *)
theory DoubleOps
  imports Doubles
begin

text \<open>
  The operators \<open>+ - * /\<close> and negation of the C type \<open>double\<close>, IEEE-754 binary64, rounding to
  nearest with ties to even. A finite number is an integer number of units of 2^-1074, so the exact
  result of an operation is a fraction of such integers, which \<open>dbl_round\<close> turns into the pattern
  of the nearest number. Which NaN an operation yields C does not say; here it is always the same.
\<close>

section \<open>Numbers\<close>

definition dbl_infinite :: "64 word \<Rightarrow> bool" where
  "dbl_infinite w \<longleftrightarrow> dbl_magnitude w = 0x7ff0000000000000"

definition dbl_zero :: "64 word \<Rightarrow> bool" where
  "dbl_zero w \<longleftrightarrow> dbl_magnitude w = 0"

definition DBL_NAN :: "64 word" where "DBL_NAN = 0x7ff8000000000000"

text \<open>The units of a magnitude: subnormal below 2^52, otherwise exponent field and significand.\<close>

definition magnitude_units :: "nat \<Rightarrow> nat" where
  "magnitude_units m =
     (if m < 2 ^ 52 then m else (2 ^ 52 + m mod 2 ^ 52) * 2 ^ (m div 2 ^ 52 - 1))"

definition dbl_units :: "64 word \<Rightarrow> int" where
  "dbl_units w = (if dbl_negative w then - int (magnitude_units (dbl_magnitude w))
                  else int (magnitude_units (dbl_magnitude w)))"

section \<open>Rounding\<close>

text \<open>\<open>a / b\<close> rounded to an integer.\<close>

definition nearest_even :: "nat \<Rightarrow> nat \<Rightarrow> nat" where
  "nearest_even a b =
     (let q = a div b; r = a mod b
      in if 2 * r > b \<or> 2 * r = b \<and> odd q then q + 1 else q)"

text \<open>
  The magnitude nearest to \<open>a / b\<close> units: a significand of 53 bits and the exponent above it. A carry
  out of the significand reaches the exponent field by itself, and past the largest exponent comes
  the pattern of infinity.
\<close>

definition round_exponent :: "nat \<Rightarrow> nat" where
  "round_exponent q = (if q < 2 ^ 53 then 0 else ilog2 q - 52)"

definition dbl_round :: "nat \<Rightarrow> nat \<Rightarrow> nat" where
  "dbl_round a b =
     (let e = round_exponent (a div b)
      in min (e * 2 ^ 52 + nearest_even a (b * 2 ^ e)) 0x7ff0000000000000)"

definition dbl_make :: "bool \<Rightarrow> nat \<Rightarrow> 64 word" where
  "dbl_make negative m = word_of_nat (m + (if negative then 2 ^ 63 else 0))"

section \<open>Operators\<close>

definition dbl_neg :: "64 word \<Rightarrow> 64 word" where
  "dbl_neg w = w XOR 0x8000000000000000"

definition dbl_add :: "64 word \<Rightarrow> 64 word \<Rightarrow> 64 word" where
  "dbl_add x y =
     (if dbl_nan x \<or> dbl_nan y \<or> dbl_infinite x \<and> dbl_infinite y \<and> dbl_negative x \<noteq> dbl_negative y then DBL_NAN
      else if dbl_infinite x then x
      else if dbl_infinite y then y
      else let s = dbl_units x + dbl_units y in
        if s = 0 then dbl_make (dbl_negative x \<and> dbl_negative y) 0
        else dbl_make (s < 0) (dbl_round (nat \<bar>s\<bar>) 1))"

definition dbl_sub :: "64 word \<Rightarrow> 64 word \<Rightarrow> 64 word" where
  "dbl_sub x y = dbl_add x (dbl_neg y)"

definition dbl_mul :: "64 word \<Rightarrow> 64 word \<Rightarrow> 64 word" where
  "dbl_mul x y =
     (let negative = (dbl_negative x \<noteq> dbl_negative y) in
      if dbl_nan x \<or> dbl_nan y \<or> dbl_infinite x \<and> dbl_zero y \<or> dbl_zero x \<and> dbl_infinite y then DBL_NAN
      else if dbl_infinite x \<or> dbl_infinite y then dbl_make negative 0x7ff0000000000000
      else dbl_make negative (dbl_round (nat \<bar>dbl_units x * dbl_units y\<bar>) (2 ^ 1074)))"

definition dbl_div :: "64 word \<Rightarrow> 64 word \<Rightarrow> 64 word" where
  "dbl_div x y =
     (let negative = (dbl_negative x \<noteq> dbl_negative y) in
      if dbl_nan x \<or> dbl_nan y \<or> dbl_infinite x \<and> dbl_infinite y \<or> dbl_zero x \<and> dbl_zero y then DBL_NAN
      else if dbl_infinite x \<or> dbl_zero y then dbl_make negative 0x7ff0000000000000
      else if dbl_infinite y then dbl_make negative 0
      else dbl_make negative (dbl_round (nat \<bar>dbl_units x\<bar> * 2 ^ 1074) (nat \<bar>dbl_units y\<bar>)))"

section \<open>Rounding is exact on what can be represented, and nearest otherwise\<close>

lemma nearest_even_one [simp]: "nearest_even a (Suc 0) = a"
  by (simp add: nearest_even_def)

lemma nearest_even_multiple: "0 < b \<Longrightarrow> nearest_even (q * b) b = q"
  by (simp add: nearest_even_def)

lemma magnitude_units_round:
  assumes "m < 0x7ff0000000000000"
  shows "dbl_round (magnitude_units m) 1 = m"
proof (cases "m < 2 ^ 52")
  case True
  then show ?thesis using assms by (simp add: dbl_round_def magnitude_units_def round_exponent_def)
next
  case False
  let ?f = "m mod 2 ^ 52" and ?e = "m div 2 ^ 52 - 1"
  have m: "m = (?e + 1) * 2 ^ 52 + ?f"
  proof -
    have "m div 2 ^ 52 \<noteq> 0" using False by (simp add: div_eq_0_iff)
    then have "?e + 1 = m div 2 ^ 52" by simp
    then show ?thesis by (metis div_mult_mod_eq)
  qed
  have f: "?f < 2 ^ 52" by simp
  let ?u = "(2 ^ 52 + ?f) * 2 ^ ?e"
  have u: "magnitude_units m = ?u" using False by (simp add: magnitude_units_def)
  have x: "round_exponent ?u = ?e"
  proof (cases "?e = 0")
    case True
    then show ?thesis using f by (simp add: round_exponent_def)
  next
    case E: False
    have "2 ^ (52 + ?e) \<le> ?u" "?u < 2 ^ Suc (52 + ?e)" using f by (simp_all add: power_add)
    moreover have "0 < ?u" by simp
    ultimately have "ilog2 ?u = 52 + ?e"
      using ilog2_le[of ?u "52 + ?e"] ilog2_mono[of "2 ^ (52 + ?e)" ?u] ilog2_power[of "52 + ?e"] by fastforce
    moreover have "\<not> ?u < 2 ^ 53"
    proof -
      have "(2 :: nat) ^ 53 \<le> 2 ^ (52 + ?e)" using E by (intro power_increasing) auto
      then show ?thesis using \<open>2 ^ (52 + ?e) \<le> ?u\<close> by linarith
    qed
    ultimately show ?thesis by (simp add: round_exponent_def)
  qed
  have n: "nearest_even ?u (1 * 2 ^ ?e) = 2 ^ 52 + ?f" using nearest_even_multiple[of "2 ^ ?e" "2 ^ 52 + ?f"] by simp
  have "dbl_round ?u 1 = min (?e * 2 ^ 52 + (2 ^ 52 + ?f)) 0x7ff0000000000000"
    unfolding dbl_round_def Let_def div_by_1 x n by (rule refl)
  also have "\<dots> = min m 0x7ff0000000000000" using m by simp
  finally show ?thesis using assms u by simp
qed

lemma nearest_even_error:
  assumes "0 < b"
  shows "2 * \<bar>int (nearest_even a b) * int b - int a\<bar> \<le> int b"
proof -
  have d: "int a = int (a div b) * int b + int (a mod b)" by (metis div_mult_mod_eq of_nat_add of_nat_mult)
  have r: "int (a mod b) < int b" using assms by simp
  show ?thesis unfolding nearest_even_def Let_def using d r by (auto simp: algebra_simps)
qed

end
