(* ===== verification/Operators.thy ===== *)
theory Operators
  imports Heap DoubleOps Bytecode "HOL-Library.Signed_Division"
begin

text \<open>
  The operators of the virtual machine, \<open>src/main.c\<close>, and the integer arithmetic of \<open>src/ussr.h\<close>.
  \<open>None\<close> is the status -1, which stops the machine. The result of an operator on a math vector is
  a new struct instance, so the heap goes through. Reference counts of operands do not change:
  what a component is copied for is released again. A reference to a freed object, which the theorems on
  \<open>Heap\<close> exclude, counts as empty. Negating the least integer, undefined in C, is taken to wrap
  around like the other operators. The messages on stderr are left out.
\<close>

section \<open>Integers\<close>

definition ussr_int_add :: "64 word \<Rightarrow> 64 word \<Rightarrow> 64 word" where "ussr_int_add a b = a + b"
definition ussr_int_sub :: "64 word \<Rightarrow> 64 word \<Rightarrow> 64 word" where "ussr_int_sub a b = a - b"
definition ussr_int_mul :: "64 word \<Rightarrow> 64 word \<Rightarrow> 64 word" where "ussr_int_mul a b = a * b"

definition ussr_int_mod :: "64 word \<Rightarrow> 64 word \<Rightarrow> 64 word" where
  "ussr_int_mod a b = (if b = -1 then 0 else word_of_int (sint a smod sint b))"

section \<open>Values\<close>

definition vm_truthy :: "heap \<Rightarrow> ussr_value \<Rightarrow> bool" where
  "vm_truthy h v =
     (case v of
        USSR_NULL \<Rightarrow> False
      | USSR_BOOLEAN b \<Rightarrow> b
      | USSR_INTEGER i \<Rightarrow> i \<noteq> 0
      | USSR_REAL r \<Rightarrow> \<not> dbl_eq r 0
      | USSR_STRING s \<Rightarrow> s \<noteq> []
      | USSR_VECTOR _ \<Rightarrow> (case lookup h v of Some ob \<Rightarrow> obj_items ob \<noteq> [] | None \<Rightarrow> False)
      | USSR_STRUCT _ \<Rightarrow> True
      | USSR_BTREE _ \<Rightarrow> (case lookup h v of Some ob \<Rightarrow> obj_items ob \<noteq> [] | None \<Rightarrow> False))"

fun vm_numeric :: "ussr_value \<Rightarrow> bool" where
  "vm_numeric (USSR_INTEGER _) = True"
| "vm_numeric (USSR_REAL _) = True"
| "vm_numeric _ = False"

fun vm_real :: "ussr_value \<Rightarrow> 64 word" where
  "vm_real (USSR_REAL r) = r"
| "vm_real (USSR_INTEGER i) = int_to_dbl i"
| "vm_real _ = 0"

fun vm_equal :: "ussr_value \<Rightarrow> ussr_value \<Rightarrow> bool" where
  "vm_equal (USSR_INTEGER a) (USSR_INTEGER b) = (a = b)"
| "vm_equal (USSR_NULL) (USSR_NULL) = True"
| "vm_equal (USSR_BOOLEAN a) (USSR_BOOLEAN b) = (a = b)"
| "vm_equal (USSR_STRING a) (USSR_STRING b) = (a = b)"
| "vm_equal (USSR_VECTOR a) (USSR_VECTOR b) = (a = b)"
| "vm_equal (USSR_STRUCT a) (USSR_STRUCT b) = (a = b)"
| "vm_equal (USSR_BTREE a) (USSR_BTREE b) = (a = b)"
| "vm_equal a b = (vm_numeric a \<and> vm_numeric b \<and> dbl_eq (vm_real a) (vm_real b))"

section \<open>Scalar operators\<close>

definition int_arith :: "ussr_bc_opcode \<Rightarrow> 64 word \<Rightarrow> 64 word \<Rightarrow> 64 word" where
  "int_arith opcode a b =
     (if opcode = USSR_BC_ADD then ussr_int_add a b
      else if opcode = USSR_BC_SUB then ussr_int_sub a b
      else if opcode = USSR_BC_MUL then ussr_int_mul a b
      else ussr_int_mod a b)"

definition real_arith :: "ussr_bc_opcode \<Rightarrow> 64 word \<Rightarrow> 64 word \<Rightarrow> 64 word" where
  "real_arith opcode a b =
     (if opcode = USSR_BC_ADD then dbl_add a b
      else if opcode = USSR_BC_SUB then dbl_sub a b
      else if opcode = USSR_BC_MUL then dbl_mul a b
      else dbl_div a b)"

definition vm_arith :: "ussr_bc_opcode \<Rightarrow> ussr_value \<Rightarrow> ussr_value \<Rightarrow> ussr_value option" where
  "vm_arith opcode left right =
     (if \<not> vm_numeric left \<or> \<not> vm_numeric right then None
      else if opcode = USSR_BC_DIV \<and> dbl_eq (vm_real right) 0 then None
      else if opcode = USSR_BC_MOD \<and>
        \<not> (case (left, right) of (USSR_INTEGER a, USSR_INTEGER b) \<Rightarrow> b \<noteq> 0 | _ \<Rightarrow> False) then None
      else case (left, right) of
        (USSR_INTEGER a, USSR_INTEGER b) \<Rightarrow>
          if opcode \<noteq> USSR_BC_DIV then Some (USSR_INTEGER (int_arith opcode a b))
          else Some (USSR_REAL (real_arith opcode (vm_real left) (vm_real right)))
      | _ \<Rightarrow> Some (USSR_REAL (real_arith opcode (vm_real left) (vm_real right))))"

definition vm_order :: "ussr_bc_opcode \<Rightarrow> ussr_value \<Rightarrow> ussr_value \<Rightarrow> ussr_value option" where
  "vm_order opcode left right =
     (if \<not> vm_numeric left \<or> \<not> vm_numeric right then None
      else case (left, right) of
        (USSR_INTEGER a, USSR_INTEGER b) \<Rightarrow>
          Some (USSR_BOOLEAN
            (if opcode = USSR_BC_LT then a <s b
             else if opcode = USSR_BC_LE then a \<le>s b
             else if opcode = USSR_BC_GT then b <s a
             else b \<le>s a))
      | _ \<Rightarrow>
          Some (USSR_BOOLEAN
            (if opcode = USSR_BC_LT then dbl_lt (vm_real left) (vm_real right)
             else if opcode = USSR_BC_LE then dbl_le (vm_real left) (vm_real right)
             else if opcode = USSR_BC_GT then dbl_lt (vm_real right) (vm_real left)
             else dbl_le (vm_real right) (vm_real left))))"

definition shift_outside :: "ussr_bc_opcode \<Rightarrow> ussr_value \<Rightarrow> bool" where
  "shift_outside opcode right =
     ((opcode = USSR_BC_SHL \<or> opcode = USSR_BC_SHR) \<and>
      (case right of USSR_INTEGER b \<Rightarrow> sint b < 0 \<or> sint b > 63 | _ \<Rightarrow> False))"

text \<open>\<open>>>\<close> keeps the sign.\<close>

definition vm_bits :: "ussr_bc_opcode \<Rightarrow> ussr_value \<Rightarrow> ussr_value \<Rightarrow> ussr_value option" where
  "vm_bits opcode left right =
     (case (left, right) of
        (USSR_INTEGER a, USSR_INTEGER b) \<Rightarrow>
          if shift_outside opcode right then None
          else Some (USSR_INTEGER
            (if opcode = USSR_BC_XOR then a XOR b
             else if opcode = USSR_BC_BAND then a AND b
             else if opcode = USSR_BC_BOR then a OR b
             else if opcode = USSR_BC_SHL then push_bit (unat b) a
             else signed_drop_bit (unat b) a))
      | _ \<Rightarrow> None)"

text \<open>The switch of \<open>vm_binary\<close>; other opcodes give -1.\<close>

definition vm_switch :: "heap \<Rightarrow> ussr_bc_opcode \<Rightarrow> ussr_value \<Rightarrow> ussr_value \<Rightarrow> ussr_value option" where
  "vm_switch h opcode left right =
     (if opcode \<in> {USSR_BC_ADD, USSR_BC_SUB, USSR_BC_MUL, USSR_BC_DIV, USSR_BC_MOD} then vm_arith opcode left right
      else if opcode = USSR_BC_EQ then Some (USSR_BOOLEAN (vm_equal left right))
      else if opcode = USSR_BC_NE then Some (USSR_BOOLEAN (\<not> vm_equal left right))
      else if opcode \<in> {USSR_BC_LT, USSR_BC_LE, USSR_BC_GT, USSR_BC_GE} then vm_order opcode left right
      else if opcode = USSR_BC_LAND then Some (USSR_BOOLEAN (vm_truthy h left \<and> vm_truthy h right))
      else if opcode = USSR_BC_LOR then Some (USSR_BOOLEAN (vm_truthy h left \<or> vm_truthy h right))
      else if opcode \<in> {USSR_BC_XOR, USSR_BC_BAND, USSR_BC_BOR, USSR_BC_SHL, USSR_BC_SHR} then vm_bits opcode left right
      else None)"

section \<open>Math vectors\<close>

definition vm_vector_dim :: "heap \<Rightarrow> ussr_value \<Rightarrow> nat" where
  "vm_vector_dim h v =
     (case v of
        USSR_STRUCT _ \<Rightarrow>
          (case instance_of h v of
             Some (t, _) \<Rightarrow> if st_name t = ''Vec2'' then 2 else if st_name t = ''Vec3'' then 3 else 0
           | None \<Rightarrow> 0)
      | _ \<Rightarrow> 0)"

definition vm_vector_field :: "string list" where "vm_vector_field = [''x'', ''y'', ''z'']"

definition vm_vector_component :: "heap \<Rightarrow> ussr_value \<Rightarrow> nat \<Rightarrow> ussr_value option" where
  "vm_vector_component h v i =
     (case instance_of h v of
        Some (t, items) \<Rightarrow>
          (case uno_field_locate t (vm_vector_field ! i) of
             Some (index, _) \<Rightarrow> if vm_numeric (items ! index) then Some (items ! index) else None
           | None \<Rightarrow> None)
      | None \<Rightarrow> None)"

text \<open>Components are compared up to the first that differs.\<close>

fun same_components :: "heap \<Rightarrow> ussr_value \<Rightarrow> ussr_value \<Rightarrow> nat list \<Rightarrow> bool option" where
  "same_components h left right [] = Some True"
| "same_components h left right (i # is) =
     Option.bind (vm_vector_component h left i) (\<lambda>a. Option.bind (vm_vector_component h right i) (\<lambda>b.
       if vm_equal a b then same_components h left right is else Some False))"

fun vector_parts ::
  "heap \<Rightarrow> ussr_bc_opcode \<Rightarrow> ussr_value \<Rightarrow> ussr_value \<Rightarrow> nat list \<Rightarrow> ussr_value list option" where
  "vector_parts h opcode vector other [] = Some []"
| "vector_parts h opcode vector other (i # is) =
     Option.bind (vm_vector_component h vector i) (\<lambda>a.
       Option.bind (if opcode = USSR_BC_ADD \<or> opcode = USSR_BC_SUB then vm_vector_component h other i else Some other) (\<lambda>b.
         Option.bind (vm_switch h opcode a b) (\<lambda>part.
           map_option ((#) part) (vector_parts h opcode vector other is))))"

definition vector_operands_ok :: "heap \<Rightarrow> ussr_bc_opcode \<Rightarrow> ussr_value \<Rightarrow> ussr_value \<Rightarrow> bool" where
  "vector_operands_ok h opcode left right =
     (let dl = vm_vector_dim h left; dr = vm_vector_dim h right in
      (if opcode = USSR_BC_ADD \<or> opcode = USSR_BC_SUB then dl \<noteq> 0 \<and> dr \<noteq> 0 \<and> dl = dr
       else (dl \<noteq> 0 \<and> dr = 0 \<and> vm_numeric right) \<or>
            (opcode = USSR_BC_MUL \<and> dl = 0 \<and> dr \<noteq> 0 \<and> vm_numeric left)) \<and>
      \<not> (opcode = USSR_BC_DIV \<and>
         (case right of USSR_INTEGER b \<Rightarrow> b = 0 | USSR_REAL r \<Rightarrow> dbl_eq r 0 | _ \<Rightarrow> False)))"

text \<open>
  The outer \<open>None\<close> is the status 1: neither operand is a math vector. The components are numbers, for
  which \<open>vm_binary\<close> goes straight to its switch.
\<close>

definition vm_vector_binary ::
  "heap \<Rightarrow> ussr_bc_opcode \<Rightarrow> ussr_value \<Rightarrow> ussr_value \<Rightarrow> (ussr_value \<times> heap) option option" where
  "vm_vector_binary h opcode left right =
     (let dl = vm_vector_dim h left; dr = vm_vector_dim h right;
          dim = (if dl \<noteq> 0 then dl else dr);
          vector = (if dl \<noteq> 0 then left else right);
          other = (if dl \<noteq> 0 then right else left)
      in if dl = 0 \<and> dr = 0 then None
         else Some
           (if opcode = USSR_BC_EQ \<or> opcode = USSR_BC_NE then
              map_option (\<lambda>same. (USSR_BOOLEAN (if opcode = USSR_BC_EQ then same else \<not> same), h))
                (if dl = dr then same_components h left right [0..<dim] else Some False)
            else if opcode \<notin> {USSR_BC_ADD, USSR_BC_SUB, USSR_BC_MUL, USSR_BC_DIV} then None
            else if \<not> vector_operands_ok h opcode left right then None
            else Option.bind (vector_parts h opcode vector other [0..<dim]) (\<lambda>parts.
              case ussr_struct_instantiate (st_name (fst (the (instance_of h vector)))) parts h of
                Some (Some v, h) \<Rightarrow> Some (v, h)
              | _ \<Rightarrow> None)))"

fun is_struct_value :: "ussr_value \<Rightarrow> bool" where
  "is_struct_value (USSR_STRUCT _) = True"
| "is_struct_value _ = False"

definition vm_binary ::
  "heap \<Rightarrow> ussr_bc_opcode \<Rightarrow> ussr_value \<Rightarrow> ussr_value \<Rightarrow> (ussr_value \<times> heap) option" where
  "vm_binary h opcode left right =
     (case (if is_struct_value left \<or> is_struct_value right then vm_vector_binary h opcode left right else None) of
        Some result \<Rightarrow> result
      | None \<Rightarrow> map_option (\<lambda>v. (v, h)) (vm_switch h opcode left right))"

text \<open>The heap at compile time does not matter, since no operand is a reference.\<close>

definition no_heap :: heap where
  "no_heap = \<lparr>gc_objects = [], gc_next_address = 0, gc_types = [], gc_alloc_count = 0, gc_collected_total = 0, gc_pending = False\<rparr>"

definition vm_fold_binary :: "ussr_bc_opcode \<Rightarrow> ussr_value \<Rightarrow> ussr_value \<Rightarrow> ussr_value option" where
  "vm_fold_binary opcode left right =
     (if is_ref left \<or> is_ref right then None
      else if shift_outside opcode right then None
      else map_option fst (vm_binary no_heap opcode left right))"

lemma vm_binary_scalar:
  assumes "\<not> is_ref left" "\<not> is_ref right"
  shows "vm_binary h opcode left right = map_option (\<lambda>v. (v, h)) (vm_switch no_heap opcode left right)"
proof -
  have "vm_truthy h left = vm_truthy no_heap left" "vm_truthy h right = vm_truthy no_heap right"
    using assms by (cases left; simp add: vm_truthy_def; fail) (use assms in \<open>cases right; simp add: vm_truthy_def\<close>)
  then have "vm_switch h opcode left right = vm_switch no_heap opcode left right" by (simp add: vm_switch_def)
  moreover have "\<not> is_struct_value left" "\<not> is_struct_value right" using assms by (cases left; cases right; simp)+
  ultimately show ?thesis by (simp add: vm_binary_def)
qed

lemma vm_fold_binary_sound:
  "vm_fold_binary opcode left right = Some v \<Longrightarrow> vm_binary h opcode left right = Some (v, h)"
  by (auto simp: vm_fold_binary_def vm_binary_scalar split: if_splits)


end
