(* ===== verification/CompileExpr.thy ===== *)
theory CompileExpr
  imports Operators "HOL-Library.Monad_Syntax"
begin

text \<open>
  The compiler of expressions, \<open>src/ussr_bytecode.c\<close>. A program grows at its end only, apart from
  \<open>bc_patch\<close>. \<open>None\<close> is the status -1, which ends the compilation; the messages, the table of the
  command each instruction comes from, and allocation failure are left out. A pool whose next index does not
  fit the C type int is full.
\<close>

section \<open>Emitting\<close>

definition no_program :: ussr_bc_program where
  "no_program = \<lparr>bc_code = [], bc_constants = [], bc_strings = [], bc_functions = [], bc_oop_sites = [], bc_scan_sites = []\<rparr>"

definition instruction :: "ussr_bc_opcode \<Rightarrow> nat \<Rightarrow> nat \<Rightarrow> nat \<Rightarrow> nat \<Rightarrow> ussr_bc_instruction" where
  "instruction opcode a b c immediate =
     \<lparr>ins_opcode = opcode_byte opcode, ins_a = word_of_nat a, ins_b = word_of_nat b, ins_c = word_of_nat c,
      ins_immediate = word_of_nat immediate\<rparr>"

definition bc_emit ::
  "ussr_bc_opcode \<Rightarrow> nat \<Rightarrow> nat \<Rightarrow> nat \<Rightarrow> nat \<Rightarrow> ussr_bc_program \<Rightarrow> (nat \<times> ussr_bc_program) option" where
  "bc_emit opcode a b c immediate p =
     (if length (bc_code p) \<ge> USSR_BC_MAX_CODE then None
      else Some (length (bc_code p), p\<lparr>bc_code := bc_code p @ [instruction opcode a b c immediate]\<rparr>))"

definition pool_limit :: nat where "pool_limit = 2 ^ 31"

definition bc_add_constant :: "ussr_value \<Rightarrow> ussr_bc_program \<Rightarrow> (nat \<times> ussr_bc_program) option" where
  "bc_add_constant v p =
     (if length (bc_constants p) \<ge> pool_limit then None
      else Some (length (bc_constants p), p\<lparr>bc_constants := bc_constants p @ [v]\<rparr>))"

definition bc_add_string :: "string \<Rightarrow> ussr_bc_program \<Rightarrow> (nat \<times> ussr_bc_program) option" where
  "bc_add_string s p =
     (if length (bc_strings p) \<ge> pool_limit then None
      else Some (length (bc_strings p), p\<lparr>bc_strings := bc_strings p @ [Some s]\<rparr>))"

definition bc_patch :: "nat \<Rightarrow> nat \<Rightarrow> ussr_bc_program \<Rightarrow> ussr_bc_program option" where
  "bc_patch at target p =
     (if at \<ge> length (bc_code p) \<or> target \<ge> 2 ^ 32 then None
      else Some (p\<lparr>bc_code := (bc_code p)[at := (bc_code p ! at)\<lparr>ins_immediate := word_of_nat target\<rparr>]\<rparr>))"

definition emit_constant :: "ussr_value \<Rightarrow> nat \<Rightarrow> ussr_bc_program \<Rightarrow> ussr_bc_program option" where
  "emit_constant v dst p =
     do { (index, p) \<leftarrow> bc_add_constant v p; (_, p) \<leftarrow> bc_emit USSR_BC_LOAD_CONST dst 0 0 index p; Some p }"

text \<open>A string of the pool and one instruction that names it.\<close>

definition emit_named :: "ussr_bc_opcode \<Rightarrow> nat \<Rightarrow> string \<Rightarrow> ussr_bc_program \<Rightarrow> ussr_bc_program option" where
  "emit_named opcode reg name p =
     do { (index, p) \<leftarrow> bc_add_string name p; (_, p) \<leftarrow> bc_emit opcode reg 0 0 index p; Some p }"

section \<open>Constant folding\<close>

fun bc_binary_opcode :: "ussr_operator \<Rightarrow> ussr_bc_opcode" where
  "bc_binary_opcode USSR_OP_ADD = USSR_BC_ADD"
| "bc_binary_opcode USSR_OP_SUB = USSR_BC_SUB"
| "bc_binary_opcode USSR_OP_MUL = USSR_BC_MUL"
| "bc_binary_opcode USSR_OP_DIV = USSR_BC_DIV"
| "bc_binary_opcode USSR_OP_MOD = USSR_BC_MOD"
| "bc_binary_opcode USSR_OP_EQ = USSR_BC_EQ"
| "bc_binary_opcode USSR_OP_NE = USSR_BC_NE"
| "bc_binary_opcode USSR_OP_LT = USSR_BC_LT"
| "bc_binary_opcode USSR_OP_LE = USSR_BC_LE"
| "bc_binary_opcode USSR_OP_GT = USSR_BC_GT"
| "bc_binary_opcode USSR_OP_GE = USSR_BC_GE"
| "bc_binary_opcode USSR_OP_LOGICAL_AND = USSR_BC_LAND"
| "bc_binary_opcode USSR_OP_LOGICAL_OR = USSR_BC_LOR"
| "bc_binary_opcode USSR_OP_SHIFT_LEFT = USSR_BC_SHL"
| "bc_binary_opcode USSR_OP_SHIFT_RIGHT = USSR_BC_SHR"
| "bc_binary_opcode USSR_OP_BITWISE_XOR = USSR_BC_XOR"
| "bc_binary_opcode USSR_OP_BITWISE_AND = USSR_BC_BAND"
| "bc_binary_opcode USSR_OP_BITWISE_OR = USSR_BC_BOR"

definition logical :: "ussr_operator \<Rightarrow> bool" where
  "logical op \<longleftrightarrow> op = USSR_OP_LOGICAL_AND \<or> op = USSR_OP_LOGICAL_OR"

fun foldable :: "ussr_value \<Rightarrow> bool" where
  "foldable (USSR_INTEGER _) = True"
| "foldable (USSR_REAL _) = True"
| "foldable (USSR_BOOLEAN _) = True"
| "foldable (USSR_STRING _) = True"
| "foldable _ = False"

definition fold_negation :: "ussr_value \<Rightarrow> ussr_value option" where
  "fold_negation v =
     (case v of USSR_INTEGER i \<Rightarrow> Some (USSR_INTEGER (- i)) | USSR_REAL r \<Rightarrow> Some (USSR_REAL (dbl_neg r)) | _ \<Rightarrow> None)"

fun bc_fold :: "ussr_expression \<Rightarrow> ussr_value option" where
  "bc_fold (USSR_EXPR_VALUE v) = (if foldable v then Some v else None)"
| "bc_fold (USSR_EXPR_UNARY op operand) =
     (if op \<noteq> USSR_OP_SUB then None else Option.bind (bc_fold operand) fold_negation)"
| "bc_fold (USSR_EXPR_BINARY op left right) =
     (if logical op then None
      else do { l \<leftarrow> bc_fold left; r \<leftarrow> bc_fold right; vm_fold_binary (bc_binary_opcode op) l r })"
| "bc_fold (USSR_EXPR_VARIABLE _) = None"

section \<open>Expressions\<close>

definition bc_emit_binary ::
  "ussr_operator \<Rightarrow> nat \<Rightarrow> nat \<Rightarrow> nat \<Rightarrow> ussr_bc_program \<Rightarrow> ussr_bc_program option" where
  "bc_emit_binary op dst left right p = map_option snd (bc_emit (bc_binary_opcode op) dst left right 0 p)"

fun is_operation :: "ussr_expression \<Rightarrow> bool" where
  "is_operation (USSR_EXPR_BINARY _ _ _) = True"
| "is_operation (USSR_EXPR_UNARY _ _) = True"
| "is_operation _ = False"

fun is_logical :: "ussr_expression \<Rightarrow> bool" where
  "is_logical (USSR_EXPR_BINARY op _ _) = logical op"
| "is_logical _ = False"

text \<open>
  \<open>&&\<close> and \<open>||\<close> leave the value of an operand in \<open>dst\<close>; the jump between their two parts is
  patched to lead behind both. Operands of the other operators go to the next two registers.
\<close>

function (sequential)
  bc_compile_expression_short :: "ussr_expression \<Rightarrow> nat \<Rightarrow> ussr_bc_program \<Rightarrow> ussr_bc_program option" and
  bc_compile_expression :: "ussr_expression \<Rightarrow> nat \<Rightarrow> ussr_bc_program \<Rightarrow> ussr_bc_program option" where
  "bc_compile_expression_short (USSR_EXPR_BINARY op left right) dst p =
     (if logical op then do {
        p \<leftarrow> bc_compile_expression_short left dst p;
        (jump, p) \<leftarrow> bc_emit (if op = USSR_OP_LOGICAL_AND then USSR_BC_JMP_FALSE else USSR_BC_JMP_TRUE) dst 0 0 0 p;
        p \<leftarrow> bc_compile_expression_short right dst p;
        bc_patch jump (length (bc_code p)) p }
      else bc_compile_expression (USSR_EXPR_BINARY op left right) dst p)"
| "bc_compile_expression_short e dst p = bc_compile_expression e dst p"
| "bc_compile_expression e dst p =
     (if dst \<ge> USSR_BC_RETURN_REG then None
      else case (if is_operation e then bc_fold e else None) of
        Some v \<Rightarrow> emit_constant v dst p
      | None \<Rightarrow>
          (case e of
             USSR_EXPR_VALUE v \<Rightarrow> emit_constant v dst p
           | USSR_EXPR_VARIABLE name \<Rightarrow> emit_named USSR_BC_LOAD_VAR dst name p
           | USSR_EXPR_UNARY op operand \<Rightarrow> do {
               p \<leftarrow> bc_compile_expression operand dst p;
               if op = USSR_OP_SUB then map_option snd (bc_emit USSR_BC_NEG dst dst 0 0 p) else None }
           | USSR_EXPR_BINARY op left right \<Rightarrow>
               if dst + 2 \<ge> USSR_BC_RETURN_REG then None
               else if logical op then bc_compile_expression_short (USSR_EXPR_BINARY op left right) dst p
               else do {
                 p \<leftarrow> bc_compile_expression left (dst + 1) p;
                 p \<leftarrow> bc_compile_expression right (dst + 2) p;
                 bc_emit_binary op dst (dst + 1) (dst + 2) p }))"
  by pat_completeness auto

termination bc_compile_expression_short
  by (relation "measures [case_sum (\<lambda>(e, dst, p). size e) (\<lambda>(e, dst, p). size e),
      case_sum (\<lambda>(e, dst, p). if is_logical e then 0 else 1) (\<lambda>(e, dst, p). if is_logical e then 1 else 0 :: nat)]") auto

declare bc_compile_expression.simps [simp del] bc_compile_expression_short.simps [simp del]

end
