(* ===== verification/CompileCmd.thy ===== *)
theory CompileCmd
  imports CompileExpr
begin

text \<open>
  The compiler of the commands without blocks, \<open>src/ussr_bytecode.c\<close>. The parser gives every command
  a name. Messages are left out: every error is \<open>None\<close>.
\<close>

section \<open>Commands and arguments\<close>

definition named :: "ussr_command \<Rightarrow> string \<Rightarrow> bool" where
  "named c name \<longleftrightarrow> cmd_name c = Some name"

fun is_block :: "ussr_argument \<Rightarrow> bool" where
  "is_block (USSR_ARGUMENT_COMMAND_LIST _ _) = True"
| "is_block _ = False"

fun block_of :: "ussr_argument \<Rightarrow> ussr_command list" where
  "block_of (USSR_ARGUMENT_COMMAND_LIST _ cs) = cs"
| "block_of _ = []"

fun assignment :: "ussr_argument \<Rightarrow> bool" where
  "assignment (USSR_ARGUMENT_VALUE b _) = b"
| "assignment (USSR_ARGUMENT_EXPRESSION b _) = b"
| "assignment (USSR_ARGUMENT_COMMAND_LIST b _) = b"
| "assignment (USSR_ARGUMENT_ADVANCED_LIST b _) = b"
| "assignment (USSR_ARGUMENT_LOOKUP b _) = b"
| "assignment (USSR_ARGUMENT_UNO_LITERAL b _) = b"

text \<open>The name of an argument that is just a variable, \<open>bc_is_variable_argument\<close>.\<close>

fun variable_argument :: "ussr_argument \<Rightarrow> string option" where
  "variable_argument (USSR_ARGUMENT_EXPRESSION _ (USSR_EXPR_VARIABLE x)) = Some x"
| "variable_argument _ = None"

fun string_argument :: "ussr_argument \<Rightarrow> string option" where
  "string_argument (USSR_ARGUMENT_VALUE _ (USSR_STRING s)) = Some s"
| "string_argument _ = None"

definition bc_is_definition :: "ussr_command \<Rightarrow> bool" where
  "bc_is_definition c \<longleftrightarrow> cmd_arguments c \<noteq> [] \<and> is_block (last (cmd_arguments c)) \<and>
     cmd_name c \<notin> Some ` set [''@'', ''if'', ''elif'', ''else'', ''choose'', ''option'', ''default'', ''for'', ''while'', ''break'',
       ''continue'', ''return'', ''do'', ''loop'', ''method'', ''each'', ''map'', ''filter'']"

fun function_from :: "nat \<Rightarrow> string option \<Rightarrow> ussr_bc_function list \<Rightarrow> nat option" where
  "function_from i name [] = None"
| "function_from i name (f # fs) = (if Some (fn_name f) = name then Some i else function_from (i + 1) name fs)"

definition bc_find_function :: "string option \<Rightarrow> ussr_bc_program \<Rightarrow> nat option" where
  "bc_find_function name p = function_from 0 name (bc_functions p)"

section \<open>Arguments and results\<close>

definition bc_compile_argument :: "ussr_argument \<Rightarrow> nat \<Rightarrow> ussr_bc_program \<Rightarrow> ussr_bc_program option" where
  "bc_compile_argument a dst p =
     (if dst > USSR_BC_RETURN_REG then None
      else case a of
        USSR_ARGUMENT_VALUE _ v \<Rightarrow> emit_constant v dst p
      | USSR_ARGUMENT_EXPRESSION _ e \<Rightarrow> bc_compile_expression_short e dst p
      | USSR_ARGUMENT_LOOKUP _ e \<Rightarrow>
          (case e of USSR_EXPR_VARIABLE name \<Rightarrow> emit_named USSR_BC_LOAD_HASH dst name p | _ \<Rightarrow> None)
      | USSR_ARGUMENT_UNO_LITERAL _ t \<Rightarrow> emit_named USSR_BC_DECODE_UNO dst t p
      | _ \<Rightarrow> None)"

text \<open>The arguments go to consecutive registers.\<close>

fun compile_arguments :: "ussr_argument list \<Rightarrow> nat \<Rightarrow> ussr_bc_program \<Rightarrow> ussr_bc_program option" where
  "compile_arguments [] dst p = Some p"
| "compile_arguments (a # as) dst p = Option.bind (bc_compile_argument a dst p) (compile_arguments as (dst + 1))"

definition bc_store_result :: "string option \<Rightarrow> nat \<Rightarrow> bool \<Rightarrow> ussr_bc_program \<Rightarrow> ussr_bc_program option" where
  "bc_store_result name reg hash p =
     Option.bind name (\<lambda>name. emit_named (if hash then USSR_BC_STORE_HASH else USSR_BC_STORE_VAR) reg name p)"

definition bc_store_boolean :: "string \<Rightarrow> bool \<Rightarrow> ussr_bc_program \<Rightarrow> ussr_bc_program option" where
  "bc_store_boolean name b p =
     Option.bind (emit_constant (USSR_BOOLEAN b) 0 p) (bc_store_result (Some name) 0 False)"

text \<open>Only if the command has a name for its result.\<close>

definition store_status :: "string option \<Rightarrow> bool \<Rightarrow> ussr_bc_program \<Rightarrow> ussr_bc_program option" where
  "store_status name b p = (case name of None \<Rightarrow> Some p | Some name \<Rightarrow> bc_store_boolean name b p)"

definition emit_only :: "ussr_bc_opcode \<Rightarrow> nat \<Rightarrow> nat \<Rightarrow> nat \<Rightarrow> nat \<Rightarrow> ussr_bc_program \<Rightarrow> ussr_bc_program option" where
  "emit_only opcode a b c imm p = map_option snd (bc_emit opcode a b c imm p)"

definition bc_add_oop_site :: "nat \<Rightarrow> ussr_command \<Rightarrow> ussr_bc_program \<Rightarrow> ussr_bc_program" where
  "bc_add_oop_site i c p = p\<lparr>bc_oop_sites := bc_oop_sites p @ [\<lparr>site_instruction = word_of_nat i, site_command = c\<rparr>]\<rparr>"

definition bc_add_scan_site :: "nat \<Rightarrow> ussr_command \<Rightarrow> ussr_bc_program \<Rightarrow> ussr_bc_program" where
  "bc_add_scan_site i c p = p\<lparr>bc_scan_sites := bc_scan_sites p @ [\<lparr>site_instruction = word_of_nat i, site_command = c\<rparr>]\<rparr>"

section \<open>Commands\<close>

type_synonym compile = "ussr_command \<Rightarrow> ussr_bc_program \<Rightarrow> ussr_bc_program option"

text \<open>\<open>result\<close> is the name of the return variable of the function being compiled, if any.\<close>

definition compile_return :: "string option option \<Rightarrow> compile" where
  "compile_return result c p =
     (case (result, cmd_arguments c) of
        (Some name, [a]) \<Rightarrow> do {
          p \<leftarrow> bc_compile_argument a 0 p;
          p \<leftarrow> bc_store_result name 0 (assignment a) p;
          emit_only USSR_BC_RET 0 0 0 0 p }
      | _ \<Rightarrow> None)"

definition compile_call :: "nat \<Rightarrow> compile" where
  "compile_call f c p =
     (if length (cmd_arguments c) \<noteq> length (fn_parameters (bc_functions p ! f)) \<or> length (cmd_arguments c) \<ge> USSR_BC_RETURN_REG
      then None
      else do {
        p \<leftarrow> compile_arguments (cmd_arguments c) 0 p;
        p \<leftarrow> emit_only USSR_BC_CALL 0 (length (cmd_arguments c)) USSR_BC_RETURN_REG f p;
        bc_store_result (cmd_return_name c) USSR_BC_RETURN_REG False p })"

definition compile_set :: compile where
  "compile_set c p =
     (case (cmd_return_name c, cmd_arguments c) of
        (Some name, [index, item]) \<Rightarrow> do {
          p \<leftarrow> emit_named USSR_BC_LOAD_VAR 0 name p;
          p \<leftarrow> bc_compile_argument index 1 p;
          p \<leftarrow> bc_compile_argument item 2 p;
          emit_only USSR_BC_VECTOR_SET 0 1 2 0 p }
      | (Some name, [a]) \<Rightarrow> do {
          p \<leftarrow> bc_compile_argument a 0 p;
          bc_store_result (Some name) 0 (assignment a) p }
      | _ \<Rightarrow> None)"

text \<open>\<open>print\<close>, \<open>cd\<close> and \<open>file\<close>: one value, an instruction on register 0, and the value is the result.\<close>

definition compile_unary :: "ussr_bc_opcode \<Rightarrow> compile" where
  "compile_unary opcode c p =
     (case (cmd_return_name c, cmd_arguments c) of
        (Some name, [a]) \<Rightarrow> do {
          p \<leftarrow> bc_compile_argument a 0 p;
          p \<leftarrow> emit_only opcode 0 0 0 0 p;
          bc_store_result (Some name) 0 (assignment a) p }
      | _ \<Rightarrow> None)"

definition arithmetic_opcode :: "ussr_command \<Rightarrow> ussr_bc_opcode option" where
  "arithmetic_opcode c =
     (if named c ''add'' then Some USSR_BC_ADD else if named c ''sub'' then Some USSR_BC_SUB
      else if named c ''mul'' then Some USSR_BC_MUL else if named c ''div'' then Some USSR_BC_DIV
      else if named c ''mod'' then Some USSR_BC_MOD else None)"

definition compile_arithmetic :: "ussr_bc_opcode \<Rightarrow> compile" where
  "compile_arithmetic opcode c p =
     (case (cmd_return_name c, cmd_arguments c) of
        (Some name, [a, b]) \<Rightarrow> do {
          p \<leftarrow> bc_compile_argument a 0 p;
          p \<leftarrow> bc_compile_argument b 1 p;
          p \<leftarrow> emit_only opcode 2 0 1 0 p;
          bc_store_result (Some name) 2 (assignment a \<or> assignment b) p }
      | _ \<Rightarrow> None)"

definition compile_concat :: compile where
  "compile_concat c p =
     (if length (cmd_arguments c) < 2 \<or> cmd_return_name c = None \<or> length (cmd_arguments c) \<ge> USSR_BC_RETURN_REG then None
      else do {
        p \<leftarrow> compile_arguments (cmd_arguments c) 0 p;
        p \<leftarrow> emit_only USSR_BC_CONCAT (USSR_BC_RETURN_REG - 1) 0 (length (cmd_arguments c)) 0 p;
        bc_store_result (cmd_return_name c) (USSR_BC_RETURN_REG - 1) (list_ex assignment (cmd_arguments c)) p })"

text \<open>The names enter the pool before the code.\<close>

definition compile_get :: compile where
  "compile_get c p =
     (case (cmd_return_name c, cmd_arguments c) of
        (Some name, [index, dest]) \<Rightarrow> do {
          x \<leftarrow> variable_argument dest;
          (vector, p) \<leftarrow> bc_add_string name p;
          (dest, p) \<leftarrow> bc_add_string x p;
          p \<leftarrow> emit_only USSR_BC_LOAD_VAR 0 0 0 vector p;
          p \<leftarrow> bc_compile_argument index 1 p;
          p \<leftarrow> emit_only USSR_BC_VECTOR_GET 2 0 1 0 p;
          emit_only USSR_BC_STORE_VAR 2 0 0 dest p }
      | (Some name, [dest]) \<Rightarrow> do {
          x \<leftarrow> variable_argument dest;
          (source, p) \<leftarrow> bc_add_string name p;
          (dest, p) \<leftarrow> bc_add_string x p;
          p \<leftarrow> emit_only USSR_BC_LOAD_VAR 0 0 0 source p;
          emit_only USSR_BC_STORE_VAR 0 0 0 dest p }
      | _ \<Rightarrow> None)"

text \<open>\<open>random64\<close>, \<open>time\<close> and \<open>chain\<close> take nothing; their result is in \<open>reg\<close>.\<close>

definition compile_nullary :: "ussr_bc_opcode \<Rightarrow> nat \<Rightarrow> compile" where
  "compile_nullary opcode reg c p =
     (if cmd_arguments c \<noteq> [] \<or> cmd_return_name c = None then None
      else do { p \<leftarrow> emit_only opcode reg 0 0 0 p; bc_store_result (cmd_return_name c) reg False p })"

definition compile_seed :: compile where
  "compile_seed c p =
     (case (cmd_return_name c, cmd_arguments c) of
        (Some name, [a]) \<Rightarrow> do {
          p \<leftarrow> bc_compile_argument a 0 p;
          p \<leftarrow> emit_only USSR_BC_SEED64 USSR_BC_RETURN_REG 0 0 0 p;
          bc_store_result (Some name) USSR_BC_RETURN_REG False p }
      | _ \<Rightarrow> None)"

definition compile_scan :: compile where
  "compile_scan c p =
     (case cmd_arguments c of
        a # dests \<Rightarrow>
          if dests = [] \<or> cmd_return_name c = None \<or> string_argument a = None \<or> length dests > 255 \<or>
            list_ex (\<lambda>d. variable_argument d = None) dests then None
          else do {
            format \<leftarrow> string_argument a;
            (index, p) \<leftarrow> bc_add_string format p;
            (i, p) \<leftarrow> bc_emit USSR_BC_SCAN USSR_BC_RETURN_REG (length dests) 0 index p;
            bc_store_result (cmd_return_name c) USSR_BC_RETURN_REG False (bc_add_scan_site i c p) }
      | [] \<Rightarrow> None)"

definition compile_template :: compile where
  "compile_template c p =
     (case cmd_arguments c of
        a # args \<Rightarrow>
          if args = [] \<or> cmd_return_name c = None \<or> string_argument a = None \<or> length args > 255 then None
          else do {
            format \<leftarrow> string_argument a;
            p \<leftarrow> compile_arguments args 0 p;
            (index, p) \<leftarrow> bc_add_string format p;
            p \<leftarrow> emit_only USSR_BC_TEMPLATE USSR_BC_RETURN_REG (length args) 0 index p;
            bc_store_result (cmd_return_name c) USSR_BC_RETURN_REG False p }
      | [] \<Rightarrow> None)"

definition compile_eval_command :: compile where
  "compile_eval_command c p =
     (case (cmd_return_name c, cmd_arguments c) of
        (Some name, [a]) \<Rightarrow> do {
          p \<leftarrow> bc_compile_argument a 0 p;
          p \<leftarrow> emit_named USSR_BC_EVAL USSR_BC_RETURN_REG name p;
          bc_store_result (Some name) USSR_BC_RETURN_REG False p }
      | _ \<Rightarrow> None)"

text \<open>Blocks stay with the command, which the instruction's site refers to.\<close>

fun compile_values :: "ussr_argument list \<Rightarrow> nat \<Rightarrow> ussr_bc_program \<Rightarrow> ussr_bc_program option" where
  "compile_values [] dst p = Some p"
| "compile_values (a # as) dst p =
     (if is_block a then compile_values as (dst + 1) p
      else Option.bind (bc_compile_argument a dst p) (compile_values as (dst + 1)))"

definition compile_oop :: "bool \<Rightarrow> compile" where
  "compile_oop before_chain c p =
     (if cmd_return_name c = None \<or> length (cmd_arguments c) \<ge> USSR_BC_RETURN_REG then None
      else do {
        p \<leftarrow> compile_values (cmd_arguments c) 0 p;
        name \<leftarrow> cmd_name c;
        (index, p) \<leftarrow> bc_add_string name p;
        (i, p) \<leftarrow> bc_emit USSR_BC_OOP (USSR_BC_RETURN_REG - 1) (length (cmd_arguments c)) (if before_chain then 1 else 0) index p;
        bc_store_result (cmd_return_name c) (USSR_BC_RETURN_REG - 1) (list_ex assignment (cmd_arguments c))
          (bc_add_oop_site i c p) })"

text \<open>The commands after \<open>return\<close>, in the order of their tests. A function of the program goes first.\<close>

definition compile_plain :: "bool \<Rightarrow> compile" where
  "compile_plain before_chain c p =
     (case bc_find_function (cmd_name c) p of
        Some f \<Rightarrow> compile_call f c p
      | None \<Rightarrow>
          if named c ''set'' then compile_set c p
          else if named c ''print'' then compile_unary USSR_BC_PRINT c p
          else case arithmetic_opcode c of
            Some opcode \<Rightarrow> compile_arithmetic opcode c p
          | None \<Rightarrow>
              if named c ''concat'' then compile_concat c p
              else if named c ''get'' then compile_get c p
              else if named c ''random64'' then compile_nullary USSR_BC_RANDOM64 USSR_BC_RETURN_REG c p
              else if named c ''seed_random64'' then compile_seed c p
              else if named c ''time'' then compile_nullary USSR_BC_TIME USSR_BC_RETURN_REG c p
              else if named c ''scan'' then compile_scan c p
              else if named c ''template'' then compile_template c p
              else if named c ''cd'' then compile_unary USSR_BC_CD c p
              else if named c ''chain'' then compile_nullary USSR_BC_CHAIN 0 c p
              else if named c ''file'' then compile_unary USSR_BC_FILE c p
              else if named c ''eval'' then compile_eval_command c p
              else compile_oop before_chain c p)"

end
