(* ===== verification/CompileList.thy ===== *)
theory CompileList
  imports CompileCmd
begin

text \<open>
  The compiler of lists of commands, with their blocks, loops and branches, \<open>src/ussr_bytecode.c\<close>. A
  pointer to a command of a list is the rest of the list from there; two such pointers are equal when as
  many commands are left, and NULL is the end of the list. A loop has the jumps of its \<open>break\<close> and
  \<open>continue\<close> commands, to be patched. Errors are \<open>None\<close>.
\<close>

type_synonym bc_loop = "nat list \<times> nat list"
type_synonym compiling = "ussr_bc_program \<times> bc_loop option"

fun bc_patch_all :: "nat list \<Rightarrow> nat \<Rightarrow> ussr_bc_program \<Rightarrow> ussr_bc_program option" where
  "bc_patch_all [] target p = Some p"
| "bc_patch_all (i # is) target p = Option.bind (bc_patch i target p) (bc_patch_all is target)"

definition bc_is_conditional_label :: "ussr_command \<Rightarrow> bool" where
  "bc_is_conditional_label c \<longleftrightarrow> named c ''elif'' \<or> named c ''else''"

definition bc_is_choose_label :: "ussr_command \<Rightarrow> bool" where
  "bc_is_choose_label c \<longleftrightarrow> named c ''option'' \<or> named c ''default''"

definition next_label :: "(ussr_command \<Rightarrow> bool) \<Rightarrow> ussr_command list \<Rightarrow> ussr_command list" where
  "next_label is_label cs = dropWhile (\<lambda>c. \<not> is_label c) cs"

definition starts_with :: "(ussr_command \<Rightarrow> bool) \<Rightarrow> ussr_command list \<Rightarrow> bool" where
  "starts_with test cs \<longleftrightarrow> cs \<noteq> [] \<and> test (hd cs)"

section \<open>The dispatch of choose\<close>

text \<open>The cases, each from its label on; at most one default.\<close>

fun choose_cases :: "ussr_command list \<Rightarrow> bool \<Rightarrow> ussr_command list list option" where
  "choose_cases [] has_default = Some []"
| "choose_cases (c # cs) has_default =
     (if \<not> bc_is_choose_label c then choose_cases cs has_default
      else if named c ''default'' then
        if cmd_arguments c \<noteq> [] \<or> has_default then None
        else map_option ((#) (c # cs)) (choose_cases cs True)
      else if length (cmd_arguments c) \<noteq> 1 then None
      else map_option ((#) (c # cs)) (choose_cases cs has_default))"

text \<open>The tests of the options; for each case its jump, or \<open>None\<close> for the default.\<close>

fun choose_dispatch :: "ussr_command list list \<Rightarrow> ussr_bc_program \<Rightarrow> (nat option list \<times> ussr_bc_program) option" where
  "choose_dispatch [] p = Some ([], p)"
| "choose_dispatch (label # labels) p =
     (if named (hd label) ''option'' then do {
        p \<leftarrow> bc_compile_argument (hd (cmd_arguments (hd label))) 1 p;
        p \<leftarrow> emit_only USSR_BC_EQ 2 0 1 0 p;
        (jump, p) \<leftarrow> bc_emit USSR_BC_JMP_TRUE 2 0 0 0 p;
        (jumps, p) \<leftarrow> choose_dispatch labels p;
        Some (Some jump # jumps, p) }
      else do { (jumps, p) \<leftarrow> choose_dispatch labels p; Some (None # jumps, p) })"

definition has_default :: "ussr_command list list \<Rightarrow> bool" where
  "has_default labels \<longleftrightarrow> list_ex (\<lambda>label. named (hd label) ''default'') labels"

text \<open>A \<open>continue\<close> in a case belongs to the loop around.\<close>

definition hand_over :: "nat list \<Rightarrow> bc_loop option \<Rightarrow> bc_loop option option" where
  "hand_over continues loop =
     (case loop of
        Some (b, c) \<Rightarrow> Some (Some (b, c @ continues))
      | None \<Rightarrow> if continues = [] then Some None else None)"

section \<open>Break and continue\<close>

definition compile_break :: "ussr_command \<Rightarrow> compiling \<Rightarrow> compiling option" where
  "compile_break c s =
     (case (s, cmd_arguments c) of
        ((p, Some (breaks, continues)), args) \<Rightarrow>
          if length args > 1 then None
          else do {
            p \<leftarrow> (case args of
                [] \<Rightarrow> store_status (cmd_return_name c) True p
              | a # _ \<Rightarrow> do {
                  p \<leftarrow> bc_compile_argument a 0 p;
                  if cmd_return_name c = None then Some p else bc_store_result (cmd_return_name c) 0 (assignment a) p });
            (jump, p) \<leftarrow> bc_emit USSR_BC_JMP 0 0 0 0 p;
            Some (p, Some (if named c ''break'' then (breaks @ [jump], continues) else (breaks, continues @ [jump]))) }
      | _ \<Rightarrow> None)"

section \<open>Lists of commands\<close>

definition one_argument :: "string \<Rightarrow> ussr_command \<Rightarrow> bool" where
  "one_argument name c \<longleftrightarrow> named c name \<and> length (cmd_arguments c) = 1"

definition starts_block_chain :: "ussr_command list \<Rightarrow> bool" where
  "starts_block_chain cs \<longleftrightarrow> named (hd cs) ''if'' \<and> length (cmd_arguments (hd cs)) = 2 \<and> is_block (cmd_arguments (hd cs) ! 1) \<and>
     starts_with bc_is_conditional_label (tl cs)"

text \<open>What is left behind a \<open>do\<close> is behind its \<open>loop\<close>.\<close>

definition after_command :: "ussr_command list \<Rightarrow> ussr_command list option" where
  "after_command cs =
     (if named (hd cs) ''do'' then
        if starts_with (\<lambda>c. named c ''loop'') (tl cs) then Some (tl (tl cs)) else None
      else if named (hd cs) ''loop'' then None
      else Some (tl cs))"

text \<open>The condition of a branch, with the jump past the branch; \<open>else\<close> has none.\<close>

definition branch_condition :: "ussr_command \<Rightarrow> ussr_argument list \<Rightarrow> ussr_bc_program \<Rightarrow> (nat option \<times> ussr_bc_program) option" where
  "branch_condition c args p =
     (if named c ''else'' then if args \<noteq> [] then None else Some (None, p)
      else case args of
        [a] \<Rightarrow> do {
          p \<leftarrow> bc_compile_argument a 0 p;
          (jump, p) \<leftarrow> bc_emit USSR_BC_JMP_FALSE 0 0 0 0 p;
          Some (Some jump, p) }
      | _ \<Rightarrow> None)"

text \<open>The end of a branch: a jump to the end of the chain, and the next branch begins.\<close>

definition close_branch :: "nat option \<Rightarrow> ussr_bc_program \<Rightarrow> (nat \<times> ussr_bc_program) option" where
  "close_branch pending p = do {
     (jump, p) \<leftarrow> bc_emit USSR_BC_JMP 0 0 0 0 p;
     p \<leftarrow> (case pending of None \<Rightarrow> Some p | Some i \<Rightarrow> bc_patch i (length (bc_code p)) p);
     Some (jump, p) }"

definition block_chain_end :: "ussr_command list \<Rightarrow> ussr_command list" where
  "block_chain_end cs = dropWhile bc_is_conditional_label (tl cs)"

definition has_block :: "ussr_command \<Rightarrow> nat \<Rightarrow> bool" where
  "has_block c n \<longleftrightarrow> length (cmd_arguments c) = n \<and> n > 0 \<and> is_block (last (cmd_arguments c))"

abbreviation body_of :: "ussr_command \<Rightarrow> ussr_command list" where
  "body_of c \<equiv> block_of (last (cmd_arguments c))"

abbreviation first_argument :: "ussr_command \<Rightarrow> ussr_argument" where
  "first_argument c \<equiv> hd (cmd_arguments c)"

lemma size_body: "has_block c n \<Longrightarrow> size_list size (body_of c) < size c"
proof -
  assume "has_block c n"
  then have b: "is_block (last (cmd_arguments c))" "last (cmd_arguments c) \<in> set (cmd_arguments c)" by (auto simp: has_block_def)
  have "size_list size (body_of c) < size (last (cmd_arguments c))" using b(1) by (cases "last (cmd_arguments c)") simp_all
  also have "\<dots> \<le> size_list size (cmd_arguments c)" using size_list_estimation'[OF b(2) order_refl] by simp
  also have "\<dots> < size c" by (cases c) simp
  finally show ?thesis .
qed

lemma size_dropWhile: "size_list f (dropWhile P xs) \<le> size_list f xs"
  by (induction xs) auto

lemma size_tl: "cs \<noteq> [] \<Longrightarrow> size_list size (tl cs) < size_list size cs"
  by (cases cs) auto

lemma size_hd: "cs \<noteq> [] \<Longrightarrow> size (hd cs) \<le> size_list size cs"
  by (cases cs) auto

lemma size_tl_le: "size_list size (tl cs) \<le> size_list size cs"
  by (cases cs) auto

lemma size_next_label: "cs \<noteq> [] \<Longrightarrow> size_list size (next_label l (tl cs)) < size_list size cs"
  using size_tl size_dropWhile[of size _ "tl cs"] le_less_trans unfolding next_label_def by blast

lemma size_after: "cs \<noteq> [] \<Longrightarrow> after_command cs = Some rest \<Longrightarrow> size_list size rest < size_list size cs"
  using size_tl[of cs] size_tl_le[of "tl cs"] by (auto simp: after_command_def split: if_splits)

lemma size_block_chain_end: "cs \<noteq> [] \<Longrightarrow> size_list size (block_chain_end cs) < size_list size cs"
  using size_tl size_dropWhile[of size _ "tl cs"] le_less_trans unfolding block_chain_end_def by blast

lemma size_block: "cs \<noteq> [] \<Longrightarrow> has_block (hd cs) n \<Longrightarrow> size_list size (body_of (hd cs)) < size_list size cs"
  using size_body size_hd less_le_trans by blast

lemma size_block_tl: "cs \<noteq> [] \<Longrightarrow> has_block (hd cs) n \<Longrightarrow> size_list size (tl (body_of (hd cs))) < size_list size cs"
  using size_block size_tl_le le_less_trans by blast

lemma size_block_tl_tl: "cs \<noteq> [] \<Longrightarrow> has_block (hd cs) n \<Longrightarrow> size_list size (tl (tl (body_of (hd cs)))) < size_list size cs"
  using size_block_tl size_tl_le le_less_trans by blast

lemma size_argument: "cs \<noteq> [] \<Longrightarrow> USSR_ARGUMENT_COMMAND_LIST b body \<in> set (cmd_arguments (hd cs)) \<Longrightarrow> size_list size body < size_list size cs"
proof -
  assume cs: "cs \<noteq> []" and b: "USSR_ARGUMENT_COMMAND_LIST b body \<in> set (cmd_arguments (hd cs))"
  have "size_list size body < size (USSR_ARGUMENT_COMMAND_LIST b body)" by simp
  also have "\<dots> \<le> size_list size (cmd_arguments (hd cs))" by (rule size_list_estimation'[OF b order_refl])
  also have "\<dots> < size (hd cs)" by (cases "hd cs") simp
  also have "\<dots> \<le> size_list size cs" by (rule size_hd[OF cs])
  finally show ?thesis .
qed

lemma size_arguments:
  "cs \<noteq> [] \<Longrightarrow> cmd_arguments (hd cs) = [a, USSR_ARGUMENT_COMMAND_LIST b body] \<Longrightarrow> size_list size body < size_list size cs"
  "cs \<noteq> [] \<Longrightarrow> cmd_arguments (hd cs) = [a, USSR_ARGUMENT_COMMAND_LIST b body, a'] \<Longrightarrow> size_list size body < size_list size cs"
  "cs \<noteq> [] \<Longrightarrow> cmd_arguments (hd cs) = [a, a'', USSR_ARGUMENT_COMMAND_LIST b' other] \<Longrightarrow> size_list size other < size_list size cs"
  using size_argument[of cs b body] size_argument[of cs b' other] by auto

lemma size_tl_some: "tl cs \<noteq> [] \<Longrightarrow> size_list size (tl cs) < size_list size cs"
  by (cases cs) auto

lemmas size_shrinks = size_arguments size_tl_some size_tl size_next_label size_after size_block_chain_end size_block size_block_tl size_block_tl_tl

function (sequential)
  bc_compile_until :: "ussr_command list \<Rightarrow> nat \<Rightarrow> string option option \<Rightarrow> compiling \<Rightarrow> compiling option" and
  conditional_branches :: "ussr_command list \<Rightarrow> string option \<Rightarrow> nat list \<Rightarrow> string option option \<Rightarrow> compiling \<Rightarrow> compiling option" and
  block_branches :: "ussr_command list \<Rightarrow> string option \<Rightarrow> nat list \<Rightarrow> string option option \<Rightarrow> compiling \<Rightarrow> compiling option" and
  bc_compile_choose :: "ussr_command list \<Rightarrow> string option option \<Rightarrow> compiling \<Rightarrow> compiling option" and
  choose_bodies :: "ussr_command list \<Rightarrow> string option \<Rightarrow> nat option list \<Rightarrow> nat \<Rightarrow> string option option \<Rightarrow> compiling \<Rightarrow> compiling option" and
  bc_compile_command :: "ussr_command list \<Rightarrow> string option option \<Rightarrow> compiling \<Rightarrow> compiling option" and
  compile_if :: "ussr_command list \<Rightarrow> string option option \<Rightarrow> compiling \<Rightarrow> compiling option" and
  compile_do :: "ussr_command list \<Rightarrow> string option option \<Rightarrow> compiling \<Rightarrow> compiling option" and
  compile_for :: "ussr_command list \<Rightarrow> string option option \<Rightarrow> compiling \<Rightarrow> compiling option" and
  for_body :: "ussr_command list \<Rightarrow> string option option \<Rightarrow> compiling \<Rightarrow> compiling option" and
  compile_while :: "ussr_command list \<Rightarrow> string option option \<Rightarrow> compiling \<Rightarrow> compiling option" where
  "bc_compile_until cs stop result s =
     (if cs = [] \<or> length cs = stop then Some s
      else if one_argument ''if'' (hd cs) then do {
        p \<leftarrow> store_status (cmd_return_name (hd cs)) False (fst s);
        conditional_branches cs (cmd_return_name (hd cs)) [] result (p, snd s) }
      else if starts_block_chain cs then do {
        p \<leftarrow> store_status (cmd_return_name (hd cs)) False (fst s);
        s \<leftarrow> block_branches cs (cmd_return_name (hd cs)) [] result (p, snd s);
        bc_compile_until (block_chain_end cs) stop result s }
      else if one_argument ''choose'' (hd cs) then bc_compile_choose cs result s
      else if bc_is_conditional_label (hd cs) \<or> bc_is_choose_label (hd cs) then None
      else do {
        s \<leftarrow> bc_compile_command cs result s;
        rest \<leftarrow> after_command cs;
        bc_compile_until rest stop result s })"
| "conditional_branches branch status ends result s =
     (if branch = [] then map_option (\<lambda>p. (p, snd s)) (bc_patch_all ends (length (bc_code (fst s))) (fst s))
      else do {
        (pending, p) \<leftarrow> branch_condition (hd branch) (cmd_arguments (hd branch)) (fst s);
        p \<leftarrow> store_status status True p;
        (p, loop) \<leftarrow> bc_compile_until (tl branch) (length (next_label bc_is_conditional_label (tl branch))) result (p, snd s);
        (jump, p) \<leftarrow> close_branch pending p;
        conditional_branches (next_label bc_is_conditional_label (tl branch)) status (ends @ [jump]) result (p, loop) })"
| "block_branches branch status ends result s =
     (if branch = [] \<or> \<not> has_block (hd branch) (length (cmd_arguments (hd branch))) then None
      else do {
        (pending, p) \<leftarrow> branch_condition (hd branch) (butlast (cmd_arguments (hd branch))) (fst s);
        p \<leftarrow> store_status status True p;
        (p, loop) \<leftarrow> bc_compile_until (body_of (hd branch)) 0 result (p, snd s);
        (jump, p) \<leftarrow> close_branch pending p;
        if \<not> starts_with bc_is_conditional_label (tl branch) then
          map_option (\<lambda>p. (p, loop)) (bc_patch_all (ends @ [jump]) (length (bc_code p)) p)
        else if named (hd branch) ''else'' then None
        else block_branches (tl branch) status (ends @ [jump]) result (p, loop) })"
| "bc_compile_choose cs result s =
     (if \<not> starts_with bc_is_choose_label (tl cs) then None
      else do {
        p \<leftarrow> store_status (cmd_return_name (hd cs)) False (fst s);
        p \<leftarrow> bc_compile_argument (first_argument (hd cs)) 0 p;
        labels \<leftarrow> choose_cases (tl cs) False;
        (jumps, p) \<leftarrow> choose_dispatch labels p;
        (no_match, p) \<leftarrow> bc_emit USSR_BC_JMP 0 0 0 0 p;
        (p, child) \<leftarrow> choose_bodies (tl cs) (cmd_return_name (hd cs)) jumps no_match result (p, Some ([], []));
        p \<leftarrow> (if has_default labels then Some p else bc_patch no_match (length (bc_code p)) p);
        (breaks, continues) \<leftarrow> child;
        loop \<leftarrow> hand_over continues (snd s);
        map_option (\<lambda>p. (p, loop)) (bc_patch_all breaks (length (bc_code p)) p) })"
| "choose_bodies label status jumps no_match result s =
     (if \<not> starts_with bc_is_choose_label label \<or> jumps = [] then Some s
      else do {
        p \<leftarrow> (case hd jumps of None \<Rightarrow> Some (fst s) | Some i \<Rightarrow> bc_patch i (length (bc_code (fst s))) (fst s));
        p \<leftarrow> (if named (hd label) ''default'' then bc_patch no_match (length (bc_code p)) p else Some p);
        p \<leftarrow> store_status status True p;
        s \<leftarrow> bc_compile_until (tl label) (length (next_label bc_is_choose_label (tl label))) result (p, snd s);
        choose_bodies (next_label bc_is_choose_label (tl label)) status (tl jumps) no_match result s })"
| "bc_compile_command cs result s =
     (if cs = [] then None
      else if bc_is_definition (hd cs) \<or> named (hd cs) ''global'' then Some s
      else if named (hd cs) ''if'' then compile_if cs result s
      else if named (hd cs) ''do'' then compile_do cs result s
      else if named (hd cs) ''for'' then compile_for cs result s
      else if named (hd cs) ''while'' then compile_while cs result s
      else if named (hd cs) ''break'' \<or> named (hd cs) ''continue'' then compile_break (hd cs) s
      else if named (hd cs) ''return'' then map_option (\<lambda>p. (p, snd s)) (compile_return result (hd cs) (fst s))
      else map_option (\<lambda>p. (p, snd s)) (compile_plain (starts_with (\<lambda>c. named c ''chain'') (tl cs)) (hd cs) (fst s)))"
| "compile_if cs result s =
     (if cs = [] then None
      else case cmd_arguments (hd cs) of
        [condition, USSR_ARGUMENT_COMMAND_LIST _ body] \<Rightarrow> do {
          p \<leftarrow> bc_compile_argument condition 0 (fst s);
          (jump, p) \<leftarrow> bc_emit USSR_BC_JMP_FALSE 0 0 0 0 p;
          (p, loop) \<leftarrow> bc_compile_until body 0 result (p, snd s);
          p \<leftarrow> bc_patch jump (length (bc_code p)) p;
          map_option (\<lambda>p. (p, loop)) (store_status (cmd_return_name (hd cs)) True p) }
      | [condition, USSR_ARGUMENT_COMMAND_LIST _ body, USSR_ARGUMENT_COMMAND_LIST _ other] \<Rightarrow> do {
          p \<leftarrow> bc_compile_argument condition 0 (fst s);
          (jump, p) \<leftarrow> bc_emit USSR_BC_JMP_FALSE 0 0 0 0 p;
          (p, loop) \<leftarrow> bc_compile_until body 0 result (p, snd s);
          (jump_end, p) \<leftarrow> bc_emit USSR_BC_JMP 0 0 0 0 p;
          p \<leftarrow> bc_patch jump (length (bc_code p)) p;
          (p, loop) \<leftarrow> bc_compile_until other 0 result (p, loop);
          p \<leftarrow> bc_patch jump_end (length (bc_code p)) p;
          map_option (\<lambda>p. (p, loop)) (store_status (cmd_return_name (hd cs)) True p) }
      | _ \<Rightarrow> None)"
| "compile_do cs result s =
     (if cs = [] \<or> \<not> has_block (hd cs) 2 \<or>
         \<not> starts_with (\<lambda>c. named c ''loop'' \<and> length (cmd_arguments c) = 1) (tl cs) then None
      else do {
        (p, child) \<leftarrow> bc_compile_until (body_of (hd cs)) 0 result (fst s, Some ([], []));
        (breaks, continues) \<leftarrow> child;
        let condition = length (bc_code p);
        p \<leftarrow> bc_compile_argument (first_argument (hd (tl cs))) 0 p;
        (jump, p) \<leftarrow> bc_emit USSR_BC_JMP_FALSE 0 0 0 0 p;
        p \<leftarrow> emit_only USSR_BC_JMP 0 0 0 (length (bc_code (fst s))) p;
        p \<leftarrow> bc_patch_all continues condition p;
        p \<leftarrow> bc_patch jump (length (bc_code p)) p;
        p \<leftarrow> bc_patch_all breaks (length (bc_code p)) p;
        map_option (\<lambda>p. (p, snd s)) (store_status (cmd_return_name (hd cs)) True p) })"
| "compile_for cs result s =
     (if cs = [] \<or> \<not> has_block (hd cs) 2 \<or> length (body_of (hd cs)) < 2 then None
      else do {
        (p, loop) \<leftarrow> bc_compile_command (body_of (hd cs)) result s;
        let condition = length (bc_code p);
        p \<leftarrow> bc_compile_argument (first_argument (hd cs)) 0 p;
        (jump, p) \<leftarrow> bc_emit USSR_BC_JMP_FALSE 0 0 0 0 p;
        (p, child) \<leftarrow> for_body (tl (tl (body_of (hd cs)))) result (p, Some ([], []));
        let iterator = length (bc_code p);
        (p, child) \<leftarrow> bc_compile_command (tl (body_of (hd cs))) result (p, child);
        (breaks, continues) \<leftarrow> child;
        p \<leftarrow> emit_only USSR_BC_JMP 0 0 0 condition p;
        p \<leftarrow> bc_patch_all continues iterator p;
        p \<leftarrow> bc_patch jump (length (bc_code p)) p;
        p \<leftarrow> bc_patch_all breaks (length (bc_code p)) p;
        map_option (\<lambda>p. (p, loop)) (store_status (cmd_return_name (hd cs)) True p) })"
| "for_body cs result s =
     (if cs = [] then Some s
      else do { s \<leftarrow> bc_compile_command cs result s; rest \<leftarrow> after_command cs; for_body rest result s })"
| "compile_while cs result s =
     (if cs = [] \<or> \<not> has_block (hd cs) 2 then None
      else do {
        p \<leftarrow> bc_compile_argument (first_argument (hd cs)) 0 (fst s);
        (jump, p) \<leftarrow> bc_emit USSR_BC_JMP_FALSE 0 0 0 0 p;
        (p, child) \<leftarrow> bc_compile_until (body_of (hd cs)) 0 result (p, Some ([], []));
        (breaks, continues) \<leftarrow> child;
        p \<leftarrow> bc_patch_all continues (length (bc_code (fst s))) p;
        p \<leftarrow> emit_only USSR_BC_JMP 0 0 0 (length (bc_code (fst s))) p;
        p \<leftarrow> bc_patch jump (length (bc_code p)) p;
        p \<leftarrow> bc_patch_all breaks (length (bc_code p)) p;
        map_option (\<lambda>p. (p, snd s)) (store_status (cmd_return_name (hd cs)) True p) })"
  by pat_completeness auto

termination bc_compile_until
  by (relation "measures [(case_sum (case_sum (case_sum (\<lambda>(cs, _). size_list size cs) (\<lambda>(cs, _). size_list size cs)) (case_sum (\<lambda>(cs, _). size_list size cs) (case_sum (\<lambda>(cs, _). size_list size cs) (\<lambda>(cs, _). size_list size cs)))) (case_sum (case_sum (\<lambda>(cs, _). size_list size cs) (case_sum (\<lambda>(cs, _). size_list size cs) (\<lambda>(cs, _). size_list size cs))) (case_sum (\<lambda>(cs, _). size_list size cs) (case_sum (\<lambda>(cs, _). size_list size cs) (\<lambda>(cs, _). size_list size cs))))),
      (case_sum (case_sum (case_sum (\<lambda>_. 3) (\<lambda>_. 1)) (case_sum (\<lambda>_. 1) (case_sum (\<lambda>_. 1) (\<lambda>_. 1)))) (case_sum (case_sum (\<lambda>_. 2) (case_sum (\<lambda>_. 1) (\<lambda>_. 1))) (case_sum (\<lambda>_. 1) (case_sum (\<lambda>_. 3) (\<lambda>_. 1)))))]")
    (auto simp: starts_with_def size_shrinks starts_block_chain_def one_argument_def)

end
