(* ===== verification/Scopes.thy ===== *)
theory Scopes
  imports Values
begin

text \<open>
  Variables, \<open>src/ussr.c\<close>: a scope holds the global variables of a process in the order in which
  they were first set, with a hash index over them (open addressing, linear probing, FNV-1a
  hashes, dropped when a variable is removed and rebuilt on demand), and the local variables of
  the calls under way. The innermost call is the head of \<open>sc_locals\<close>; the slot of a local that is
  not assigned is \<open>None\<close>. The index has one entry per slot, 0 for an empty slot and otherwise a
  position plus one; the empty list stands for NULL. A calloc that fails leaves a scope without an
  index, so whether it succeeds is an argument; the other allocations succeed. What a copy or a
  release does to reference counts is the subject of \<open>Heap\<close>.
\<close>

section \<open>State\<close>

record ussr_locals =
  loc_names :: "string list"
  loc_values :: "ussr_value option list"

record ussr_scope =
  sc_vars :: "(string \<times> ussr_value) list"
  sc_index :: "nat list"
  sc_locals :: "ussr_locals list"

definition ussr_scope_create :: ussr_scope where
  "ussr_scope_create = \<lparr>sc_vars = [], sc_index = [], sc_locals = []\<rparr>"

section \<open>Calls\<close>

definition ussr_locals_push :: "string list \<Rightarrow> ussr_scope \<Rightarrow> ussr_scope" where
  "ussr_locals_push names s =
     s\<lparr>sc_locals := \<lparr>loc_names = names, loc_values = replicate (length names) None\<rparr> # sc_locals s\<rparr>"

definition ussr_locals_pop :: "ussr_scope \<Rightarrow> ussr_scope" where
  "ussr_locals_pop s = s\<lparr>sc_locals := tl (sc_locals s)\<rparr>"

definition ussr_locals_reset :: "ussr_scope \<Rightarrow> ussr_scope" where
  "ussr_locals_reset s = s\<lparr>sc_locals := []\<rparr>"

definition ussr_locals_depth :: "ussr_scope \<Rightarrow> nat" where
  "ussr_locals_depth s = length (sc_locals s)"

fun name_position :: "string \<Rightarrow> string list \<Rightarrow> nat \<Rightarrow> nat option" where
  "name_position name [] i = None"
| "name_position name (n # ns) i = (if n = name then Some i else name_position name ns (i + 1))"

text \<open>The slot of a name that is local in the innermost call.\<close>

definition ussr_locals_for :: "string \<Rightarrow> ussr_scope \<Rightarrow> nat option" where
  "ussr_locals_for name s =
     (case sc_locals s of [] \<Rightarrow> None | inner # _ \<Rightarrow> name_position name (loc_names inner) 0)"

definition ussr_locals_store :: "nat \<Rightarrow> ussr_value option \<Rightarrow> ussr_scope \<Rightarrow> ussr_scope" where
  "ussr_locals_store slot v s =
     (case sc_locals s of
        [] \<Rightarrow> s
      | inner # rest \<Rightarrow> s\<lparr>sc_locals := inner\<lparr>loc_values := (loc_values inner)[slot := v]\<rparr> # rest\<rparr>)"

definition local_value :: "nat \<Rightarrow> ussr_scope \<Rightarrow> ussr_value option" where
  "local_value slot s = loc_values (hd (sc_locals s)) ! slot"

section \<open>The name index\<close>

definition ussr_scope_name_hash :: "string \<Rightarrow> 64 word" where
  "ussr_scope_name_hash name =
     foldl (\<lambda>hash c. (hash XOR ucast (byte_of_char c)) * 16777619) 2166136261 name"

text \<open>The probing loops: from \<open>at\<close>, around the table, to the first slot where \<open>stop\<close> holds.\<close>

partial_function (option) index_probe :: "(nat \<Rightarrow> bool) \<Rightarrow> nat \<Rightarrow> nat \<Rightarrow> nat option" where
  "index_probe stop last_slot at = (if stop at then Some at else index_probe stop last_slot ((at + 1) AND last_slot))"

definition index_home :: "string \<Rightarrow> nat list \<Rightarrow> nat" where
  "index_home name index = unat (ussr_scope_name_hash name) AND (length index - 1)"

definition ussr_scope_index_put ::
  "(string \<times> ussr_value) list \<Rightarrow> nat \<Rightarrow> nat list \<Rightarrow> nat list option" where
  "ussr_scope_index_put vars position index =
     map_option (\<lambda>at. index[at := position + 1])
       (index_probe (\<lambda>at. index ! at = 0) (length index - 1) (index_home (fst (vars ! position)) index))"

fun put_all_positions ::
  "(string \<times> ussr_value) list \<Rightarrow> nat list \<Rightarrow> nat list \<Rightarrow> nat list option" where
  "put_all_positions vars [] index = Some index"
| "put_all_positions vars (i # is) index =
     Option.bind (ussr_scope_index_put vars i index) (put_all_positions vars is)"

function index_size_for :: "nat \<Rightarrow> nat \<Rightarrow> nat" where
  "index_size_for count sz =
     (if sz > 0 \<and> count * 2 \<ge> sz then index_size_for count (sz * 2) else sz)"
  by pat_completeness auto
termination index_size_for
  by (relation "measure (\<lambda>(count, sz). count * 2 + 1 - sz)") auto

declare index_size_for.simps [simp del]

definition ussr_scope_index_ready :: "bool \<Rightarrow> ussr_scope \<Rightarrow> (bool \<times> ussr_scope) option" where
  "ussr_scope_index_ready calloc_ok s =
     (let count = length (sc_vars s); index_size = length (sc_index s) in
      if sc_index s \<noteq> [] \<and> count * 2 < index_size then Some (True, s)
      else if \<not> calloc_ok then Some (False, s\<lparr>sc_index := []\<rparr>)
      else map_option (\<lambda>index. (True, s\<lparr>sc_index := index\<rparr>))
        (put_all_positions (sc_vars s) [0..<count]
          (replicate (index_size_for count (if index_size = 0 then 64 else index_size)) 0)))"

definition position_stop :: "string \<Rightarrow> ussr_scope \<Rightarrow> nat \<Rightarrow> bool" where
  "position_stop name s at =
     (sc_index s ! at = 0 \<or> fst (sc_vars s ! (sc_index s ! at - 1)) = name)"

definition ussr_scope_position :: "bool \<Rightarrow> string \<Rightarrow> ussr_scope \<Rightarrow> (nat option \<times> ussr_scope) option" where
  "ussr_scope_position calloc_ok name s =
     Option.bind (ussr_scope_index_ready calloc_ok s) (\<lambda>(ready, s).
       if ready then
         map_option (\<lambda>at. (if sc_index s ! at = 0 then None else Some (sc_index s ! at - 1), s))
           (index_probe (position_stop name s) (length (sc_index s) - 1) (index_home name (sc_index s)))
       else Some (name_position name (map fst (sc_vars s)) 0, s))"

section \<open>Variables\<close>

definition ussr_scope_lookup :: "bool \<Rightarrow> string \<Rightarrow> ussr_scope \<Rightarrow> (ussr_value option \<times> ussr_scope) option" where
  "ussr_scope_lookup calloc_ok name s =
     map_option (\<lambda>(position, s). (map_option (\<lambda>i. snd (sc_vars s ! i)) position, s))
       (ussr_scope_position calloc_ok name s)"

definition ussr_vars_set :: "string \<Rightarrow> ussr_value \<Rightarrow> (string \<times> ussr_value) list \<Rightarrow> (string \<times> ussr_value) list" where
  "ussr_vars_set name v vars =
     (case name_position name (map fst vars) 0 of
        Some i \<Rightarrow> vars[i := (name, v)]
      | None \<Rightarrow> vars @ [(name, v)])"

definition ussr_scope_set :: "bool \<Rightarrow> string \<Rightarrow> ussr_value \<Rightarrow> ussr_scope \<Rightarrow> ussr_scope option" where
  "ussr_scope_set calloc_ok name v s =
     Option.bind (ussr_scope_position calloc_ok name s) (\<lambda>(position, s).
       case position of
         Some i \<Rightarrow> Some (s\<lparr>sc_vars := (sc_vars s)[i := (fst (sc_vars s ! i), v)]\<rparr>)
       | None \<Rightarrow>
           let s = s\<lparr>sc_vars := ussr_vars_set name v (sc_vars s)\<rparr>; count = length (sc_vars s)
           in if sc_index s \<noteq> [] \<and> count * 2 < length (sc_index s)
              then map_option (\<lambda>index. s\<lparr>sc_index := index\<rparr>)
                     (ussr_scope_index_put (sc_vars s) (count - 1) (sc_index s))
              else Some (s\<lparr>sc_index := []\<rparr>))"

definition ussr_set_variable :: "bool \<Rightarrow> string \<Rightarrow> ussr_value \<Rightarrow> ussr_scope \<Rightarrow> ussr_scope option" where
  "ussr_set_variable calloc_ok name v s =
     (case ussr_locals_for name s of
        Some slot \<Rightarrow> Some (ussr_locals_store slot (Some v) s)
      | None \<Rightarrow> ussr_scope_set calloc_ok name v s)"

definition ussr_get_variable :: "bool \<Rightarrow> string \<Rightarrow> ussr_scope \<Rightarrow> (ussr_value option \<times> ussr_scope) option" where
  "ussr_get_variable calloc_ok name s =
     (case ussr_locals_for name s of
        Some slot \<Rightarrow> Some (local_value slot s, s)
      | None \<Rightarrow> ussr_scope_lookup calloc_ok name s)"

text \<open>The place an instruction names: 1 is \<open>USSR_VAR_LOCAL\<close>, 2 is \<open>USSR_VAR_GLOBAL\<close>.\<close>

definition slot_in_call :: "nat \<Rightarrow> ussr_scope \<Rightarrow> bool" where
  "slot_in_call slot s \<longleftrightarrow> sc_locals s \<noteq> [] \<and> slot < length (loc_names (hd (sc_locals s)))"

definition ussr_get_variable_at ::
  "bool \<Rightarrow> string \<Rightarrow> byte \<Rightarrow> nat \<Rightarrow> ussr_scope \<Rightarrow> (ussr_value option \<times> ussr_scope) option" where
  "ussr_get_variable_at calloc_ok name place slot s =
     (if place = 1 \<and> slot_in_call slot s then Some (local_value slot s, s)
      else if place = 2 then ussr_scope_lookup calloc_ok name s
      else ussr_get_variable calloc_ok name s)"

definition ussr_set_variable_at ::
  "bool \<Rightarrow> string \<Rightarrow> ussr_value \<Rightarrow> byte \<Rightarrow> nat \<Rightarrow> ussr_scope \<Rightarrow> ussr_scope option" where
  "ussr_set_variable_at calloc_ok name v place slot s =
     (if place = 1 \<and> slot_in_call slot s then Some (ussr_locals_store slot (Some v) s)
      else if place = 2 then ussr_scope_set calloc_ok name v s
      else ussr_set_variable calloc_ok name v s)"

definition ussr_remove_variable :: "string \<Rightarrow> ussr_scope \<Rightarrow> ussr_scope" where
  "ussr_remove_variable name s =
     (case ussr_locals_for name s of
        Some slot \<Rightarrow> ussr_locals_store slot None s
      | None \<Rightarrow>
          (case name_position name (map fst (sc_vars s)) 0 of
             None \<Rightarrow> s
           | Some i \<Rightarrow> s\<lparr>sc_vars := take i (sc_vars s) @ drop (i + 1) (sc_vars s), sc_index := []\<rparr>))"

end
