(* ===== verification/CompileProgram.thy ===== *)
theory CompileProgram
  imports CompileList Scopes
begin

text \<open>
  The compiler of whole programs, \<open>src/ussr_bytecode.c\<close>: declarations of globals, the table of
  functions, the body of each function with the places of its variables, and the main part. The
  warnings about scopes and the line table are left out.
\<close>

section \<open>Declarations\<close>

definition bc_names_add :: "string \<Rightarrow> string list \<Rightarrow> string list" where
  "bc_names_add name names = (if name \<in> set names then names else names @ [name])"

text \<open>Names declared global, and whether all are.\<close>

type_synonym globals = "string list \<times> bool"

fun bc_declare_globals :: "ussr_argument list \<Rightarrow> globals \<Rightarrow> globals option" where
  "bc_declare_globals [] g = Some g"
| "bc_declare_globals (a # as) g =
     (case variable_argument a of
        Some name \<Rightarrow> bc_declare_globals as (bc_names_add name (fst g), snd g)
      | None \<Rightarrow> if string_argument a = Some ''*'' then bc_declare_globals as (fst g, True) else None)"

fun bc_collect_globals :: "ussr_command list \<Rightarrow> globals \<Rightarrow> globals option"
  and globals_in_blocks :: "ussr_argument list \<Rightarrow> globals \<Rightarrow> globals option" where
  "bc_collect_globals [] g = Some g"
| "bc_collect_globals (Command path name ret args # cs) g =
     (if bc_is_definition (Command path name ret args) then bc_collect_globals cs g
      else if name = Some ''global'' then Option.bind (bc_declare_globals args g) (bc_collect_globals cs)
      else Option.bind (globals_in_blocks args g) (bc_collect_globals cs))"
| "globals_in_blocks [] g = Some g"
| "globals_in_blocks (USSR_ARGUMENT_COMMAND_LIST b body # as) g = Option.bind (bc_collect_globals body g) (globals_in_blocks as)"
| "globals_in_blocks (_ # as) g = globals_in_blocks as g"

text \<open>A function of the table, before its body is compiled.\<close>

fun parameter_names :: "ussr_argument list \<Rightarrow> string list option" where
  "parameter_names [] = Some []"
| "parameter_names (a # as) = do { name \<leftarrow> variable_argument a; names \<leftarrow> parameter_names as; Some (name # names) }"

definition declare_function :: "ussr_command \<Rightarrow> ussr_bc_program \<Rightarrow> ussr_bc_program option" where
  "declare_function c p =
     (if bc_find_function (cmd_name c) p \<noteq> None then None
      else do {
        name \<leftarrow> cmd_name c;
        ret \<leftarrow> cmd_return_name c;
        parameters \<leftarrow> parameter_names (butlast (cmd_arguments c));
        Some (p\<lparr>bc_functions := bc_functions p @ [\<lparr>fn_name = name, fn_return_name = Some ret, fn_parameters = parameters,
          fn_entry = 0, fn_locals = []\<rparr>]\<rparr>) })"

lemma size_drop_le [termination_simp]: "size_list f xs \<le> k \<Longrightarrow> size_list f (drop n xs) \<le> k"
proof -
  have "size_list f (drop n xs) \<le> size_list f xs" by (metis append_take_drop_id le_add2 size_list_append)
  then show "size_list f xs \<le> k \<Longrightarrow> ?thesis" by simp
qed

fun bc_collect_functions :: "ussr_command list \<Rightarrow> ussr_bc_program \<Rightarrow> ussr_bc_program option"
  and functions_in_blocks :: "ussr_argument list \<Rightarrow> ussr_bc_program \<Rightarrow> ussr_bc_program option" where
  "bc_collect_functions [] p = Some p"
| "bc_collect_functions (Command path name ret args # cs) p =
     (if bc_is_definition (Command path name ret args) then
        do { p \<leftarrow> declare_function (Command path name ret args) p;
             p \<leftarrow> functions_in_blocks (drop (length args - 1) args) p;
             bc_collect_functions cs p }
      else Option.bind (functions_in_blocks args p) (bc_collect_functions cs))"
| "functions_in_blocks [] p = Some p"
| "functions_in_blocks (USSR_ARGUMENT_COMMAND_LIST b body # as) p =
     Option.bind (bc_collect_functions body p) (functions_in_blocks as)"
| "functions_in_blocks (_ # as) p = functions_in_blocks as p"

section \<open>The variables of a function\<close>

definition function_code :: "nat \<Rightarrow> nat \<Rightarrow> ussr_bc_program \<Rightarrow> ussr_bc_instruction list" where
  "function_code entry code_end p = drop entry (take code_end (bc_code p))"

definition string_at :: "ussr_bc_program \<Rightarrow> ussr_bc_instruction \<Rightarrow> string option" where
  "string_at p ins = (if unat (ins_immediate ins) < length (bc_strings p) then bc_strings p ! unat (ins_immediate ins) else None)"

definition stored_names :: "nat \<Rightarrow> nat \<Rightarrow> ussr_bc_program \<Rightarrow> string list" where
  "stored_names entry code_end p =
     List.map_filter (\<lambda>ins. if ins_opcode ins = opcode_byte USSR_BC_STORE_VAR then string_at p ins else None)
       (function_code entry code_end p)"

definition scanned_names :: "nat \<Rightarrow> nat \<Rightarrow> ussr_bc_program \<Rightarrow> string list" where
  "scanned_names entry code_end p =
     concat (map (\<lambda>site. if entry \<le> unat (site_instruction site) \<and> unat (site_instruction site) < code_end
         then List.map_filter variable_argument (tl (cmd_arguments (site_command site))) else []) (bc_scan_sites p))"

definition local_names :: "globals \<Rightarrow> globals \<Rightarrow> ussr_bc_function \<Rightarrow> nat \<Rightarrow> ussr_bc_program \<Rightarrow> string list" where
  "local_names program own f code_end p =
     (let names = fold bc_names_add (fn_parameters f @ (case fn_return_name f of None \<Rightarrow> [] | Some name \<Rightarrow> [name])) [];
          is_own = (\<lambda>name. name \<notin> set (fst own) \<and> name \<notin> set (fst program))
      in if snd own \<or> snd program then names
         else fold bc_names_add (filter is_own (stored_names (unat (fn_entry f)) code_end p @
           scanned_names (unat (fn_entry f)) code_end p)) names)"

text \<open>The place of a variable: 1 is \<open>USSR_VAR_LOCAL\<close>, 2 \<open>USSR_VAR_GLOBAL\<close>, 0 \<open>USSR_VAR_BY_NAME\<close>.\<close>

definition variable_place :: "string option \<Rightarrow> string list \<Rightarrow> nat \<times> nat" where
  "variable_place name names =
     (case name of
        None \<Rightarrow> (2, 0)
      | Some name \<Rightarrow>
          (case name_position name names 0 of
             None \<Rightarrow> (2, 0)
           | Some slot \<Rightarrow> if slot \<le> 255 then (1, slot) else (0, 0)))"

definition resolve_variable :: "ussr_bc_program \<Rightarrow> string list \<Rightarrow> ussr_bc_instruction \<Rightarrow> ussr_bc_instruction" where
  "resolve_variable p names ins =
     (if ins_opcode ins \<noteq> opcode_byte USSR_BC_LOAD_VAR \<and> ins_opcode ins \<noteq> opcode_byte USSR_BC_STORE_VAR then ins
      else let (place, slot) = variable_place (string_at p ins) names
        in ins\<lparr>ins_b := word_of_nat place, ins_c := word_of_nat slot\<rparr>)"

definition bc_function_locals :: "globals \<Rightarrow> nat \<Rightarrow> nat \<Rightarrow> ussr_command list \<Rightarrow> ussr_bc_program \<Rightarrow> ussr_bc_program option" where
  "bc_function_locals program f code_end body p = do {
     own \<leftarrow> bc_collect_globals body ([], False);
     let function = bc_functions p ! f;
     if list_ex (\<lambda>name. fn_return_name function = Some name \<or> name \<in> set (fn_parameters function)) (fst own) then None
     else let names = local_names program own function code_end p; entry = unat (fn_entry function) in
       Some (p\<lparr>bc_code := take entry (bc_code p) @ map (resolve_variable p names) (function_code entry code_end p) @
                 drop code_end (bc_code p),
               bc_functions := (bc_functions p)[f := function\<lparr>fn_locals := names\<rparr>]\<rparr>) }"

section \<open>Programs\<close>

text \<open>No loop is around.\<close>

definition bc_compile_list :: "ussr_command list \<Rightarrow> string option option \<Rightarrow> ussr_bc_program \<Rightarrow> ussr_bc_program option" where
  "bc_compile_list cs result p = map_option fst (bc_compile_until cs 0 result (p, None))"

definition compile_function :: "globals \<Rightarrow> ussr_command \<Rightarrow> ussr_command list \<Rightarrow> ussr_bc_program \<Rightarrow> ussr_bc_program option" where
  "compile_function program c body p = do {
     f \<leftarrow> bc_find_function (cmd_name c) p;
     let p = p\<lparr>bc_functions := (bc_functions p)[f := (bc_functions p ! f)\<lparr>fn_entry := word_of_nat (length (bc_code p))\<rparr>]\<rparr>;
     p \<leftarrow> bc_compile_list body (Some (fn_return_name (bc_functions p ! f))) p;
     p \<leftarrow> emit_constant USSR_NULL USSR_BC_RETURN_REG p;
     p \<leftarrow> emit_only USSR_BC_RET 0 0 0 0 p;
     bc_function_locals program f (length (bc_code p)) body p }"

fun bc_compile_functions :: "globals \<Rightarrow> ussr_command list \<Rightarrow> ussr_bc_program \<Rightarrow> ussr_bc_program option"
  and compile_blocks :: "globals \<Rightarrow> ussr_argument list \<Rightarrow> ussr_bc_program \<Rightarrow> ussr_bc_program option" where
  "bc_compile_functions program [] p = Some p"
| "bc_compile_functions program (Command path name ret args # cs) p =
     (if bc_is_definition (Command path name ret args) then
        do { p \<leftarrow> compile_function program (Command path name ret args) (block_of (last args)) p;
             p \<leftarrow> compile_blocks program (drop (length args - 1) args) p;
             bc_compile_functions program cs p }
      else Option.bind (compile_blocks program args p) (bc_compile_functions program cs))"
| "compile_blocks program [] p = Some p"
| "compile_blocks program (USSR_ARGUMENT_COMMAND_LIST b body # as) p =
     Option.bind (bc_compile_functions program body p) (compile_blocks program as)"
| "compile_blocks program (_ # as) p = compile_blocks program as p"

definition uuasm_compile_source :: "ussr_command list \<Rightarrow> ussr_bc_program option" where
  "uuasm_compile_source source = do {
     program \<leftarrow> bc_collect_globals source ([], False);
     p \<leftarrow> bc_collect_functions source no_program;
     (skip, p) \<leftarrow> bc_emit USSR_BC_JMP 0 0 0 0 p;
     p \<leftarrow> bc_compile_functions program source p;
     p \<leftarrow> bc_patch skip (length (bc_code p)) p;
     p \<leftarrow> bc_compile_list source None p;
     emit_only USSR_BC_HALT 0 0 0 0 p }"

text \<open>The numbers of the assembler and of the machine are the same; an unknown one is refused.\<close>

definition ussr_uuasm_to_vm_opcode :: "byte \<Rightarrow> byte option" where
  "ussr_uuasm_to_vm_opcode b = (if opcode_of_byte b = None then None else Some b)"

definition ussr_uuasm_compile_to_bytecode :: "ussr_command list \<Rightarrow> ussr_bc_program option" where
  "ussr_uuasm_compile_to_bytecode source =
     Option.bind (uuasm_compile_source source) (\<lambda>p.
       if list_ex (\<lambda>ins. ussr_uuasm_to_vm_opcode (ins_opcode ins) = None) (bc_code p) then None else Some p)"

end
