(* ===== verification/Vm.thy ===== *)
theory Vm
  imports Operators Scopes Prng
begin

text \<open>
  The virtual machine, \<open>vm_execute\<close> of \<open>src/main.c\<close>: registers, instruction pointer, frames, and the
  state its instructions work on (the variables of the process, the shared table of \<open>!\<close> and \<open>?\<close>
  names, the heap, the generator of \<open>random64\<close>, and the values printed). \<open>None\<close> is the status of
  an error, which ends the program. Instructions that ask a service of the host (UNO text, files,
  chains, clocks, native operations, eval) are an argument. The machine does not count references:
  \<open>Heap\<close> shows that counting frees nothing a register, a variable or a frame still refers to, so
  an object here just stays. Suspension and resumption are the subject of \<open>Scheduler\<close>.
\<close>

definition USSR_VM_MAX_STEPS :: nat where "USSR_VM_MAX_STEPS = 2000000000"
definition USSR_VM_MAX_CALLS :: nat where "USSR_VM_MAX_CALLS = 1024"

record ussr_vm_frame =
  return_ip :: nat
  return_register :: nat
  function_index :: nat
  saved_registers :: "ussr_value list"

record machine =
  m_registers :: "ussr_value list"
  m_ip :: nat
  m_running :: bool
  m_steps :: nat
  m_frames :: "ussr_vm_frame list"
  m_scope :: ussr_scope
  m_hash :: "string \<rightharpoonup> ussr_value"
  m_heap :: heap
  m_random :: xrp_state
  m_printed :: "ussr_value list"

type_synonym host = "ussr_bc_program \<Rightarrow> ussr_bc_instruction \<Rightarrow> machine \<Rightarrow> machine option"

definition put_register :: "nat \<Rightarrow> ussr_value \<Rightarrow> machine \<Rightarrow> machine" where
  "put_register r v m = m\<lparr>m_registers := (m_registers m)[r := v]\<rparr>"

definition no_registers :: "ussr_value list" where
  "no_registers = replicate USSR_BC_MAX_REGS USSR_NULL"

section \<open>Calls\<close>

definition vm_push_frame :: "ussr_bc_function \<Rightarrow> nat \<Rightarrow> nat \<Rightarrow> machine \<Rightarrow> machine option" where
  "vm_push_frame f return_reg index m =
     (if length (m_frames m) \<ge> USSR_VM_MAX_CALLS then None
      else Some (m\<lparr>m_frames := \<lparr>return_ip = m_ip m, return_register = return_reg, function_index = index,
                                 saved_registers = m_registers m\<rparr> # m_frames m,
                   m_registers := no_registers,
                   m_scope := ussr_locals_push (fn_locals f) (m_scope m)\<rparr>))"

fun vm_bind :: "(string \<times> ussr_value) list \<Rightarrow> ussr_scope \<Rightarrow> ussr_scope option" where
  "vm_bind [] s = Some s"
| "vm_bind ((name, v) # bs) s = Option.bind (ussr_set_variable True name v s) (vm_bind bs)"

definition vm_call :: "ussr_bc_program \<Rightarrow> nat \<Rightarrow> nat \<Rightarrow> nat \<Rightarrow> nat \<Rightarrow> machine \<Rightarrow> machine option" where
  "vm_call p a b c index m =
     (if index \<ge> length (bc_functions p) \<or> b \<noteq> length (fn_parameters (bc_functions p ! index)) then None
      else if a + b > USSR_BC_RETURN_REG then None
      else let f = bc_functions p ! index in
        Option.bind (vm_push_frame f c index m) (\<lambda>m1.
          map_option (\<lambda>s. m1\<lparr>m_scope := s, m_ip := unat (fn_entry f)\<rparr>)
            (vm_bind (zip (fn_parameters f) (take b (drop a (m_registers m)))) (m_scope m1))))"

definition null_if_absent :: "ussr_value option \<Rightarrow> ussr_value" where
  "null_if_absent v = (case v of Some v \<Rightarrow> v | None \<Rightarrow> USSR_NULL)"

definition vm_read :: "string option \<Rightarrow> byte \<Rightarrow> nat \<Rightarrow> ussr_scope \<Rightarrow> (ussr_value option \<times> ussr_scope) option" where
  "vm_read name place slot s =
     (case name of None \<Rightarrow> Some (None, s) | Some name \<Rightarrow> ussr_get_variable_at True name place slot s)"

text \<open>
  The code writes to the return register without looking at it; outside the registers, where it writes past the
  array, the model gives \<open>None\<close>.
\<close>

definition vm_return :: "ussr_bc_program \<Rightarrow> machine \<Rightarrow> machine option" where
  "vm_return p m =
     (case m_frames m of
        [] \<Rightarrow> None
      | frame # frames \<Rightarrow>
          if function_index frame \<ge> length (bc_functions p) \<or> return_register frame \<ge> USSR_BC_MAX_REGS then None
          else map_option (\<lambda>(v, s).
            m\<lparr>m_frames := frames, m_ip := return_ip frame, m_scope := ussr_locals_pop s,
              m_registers := (saved_registers frame)[return_register frame := null_if_absent v]\<rparr>)
            (vm_read (fn_return_name (bc_functions p ! function_index frame)) 0 0 (m_scope m)))"

section \<open>Instructions\<close>

definition int_fast_path :: "ussr_bc_opcode \<Rightarrow> ussr_value \<Rightarrow> ussr_value \<Rightarrow> ussr_value option" where
  "int_fast_path opcode left right =
     (case (left, right) of
        (USSR_INTEGER x, USSR_INTEGER y) \<Rightarrow>
          (if opcode = USSR_BC_ADD then Some (USSR_INTEGER (ussr_int_add x y))
           else if opcode = USSR_BC_SUB then Some (USSR_INTEGER (ussr_int_sub x y))
           else if opcode = USSR_BC_MUL then Some (USSR_INTEGER (ussr_int_mul x y))
           else if opcode = USSR_BC_EQ then Some (USSR_BOOLEAN (x = y))
           else if opcode = USSR_BC_NE then Some (USSR_BOOLEAN (x \<noteq> y))
           else if opcode = USSR_BC_LT then Some (USSR_BOOLEAN (x <s y))
           else if opcode = USSR_BC_LE then Some (USSR_BOOLEAN (x \<le>s y))
           else if opcode = USSR_BC_GT then Some (USSR_BOOLEAN (y <s x))
           else if opcode = USSR_BC_GE then Some (USSR_BOOLEAN (y \<le>s x))
           else None)
      | _ \<Rightarrow> None)"

definition vm_operate :: "ussr_bc_opcode \<Rightarrow> nat \<Rightarrow> nat \<Rightarrow> nat \<Rightarrow> machine \<Rightarrow> machine option" where
  "vm_operate opcode a b c m =
     (if a \<ge> USSR_BC_MAX_REGS \<or> b \<ge> USSR_BC_MAX_REGS \<or> c \<ge> USSR_BC_MAX_REGS then None
      else case int_fast_path opcode (m_registers m ! b) (m_registers m ! c) of
        Some v \<Rightarrow> Some (put_register a v m)
      | None \<Rightarrow>
          map_option (\<lambda>(v, h). put_register a v (m\<lparr>m_heap := h\<rparr>))
            (vm_binary (m_heap m) opcode (m_registers m ! b) (m_registers m ! c)))"

definition vm_negate :: "ussr_value \<Rightarrow> ussr_value option" where
  "vm_negate v =
     (case v of USSR_INTEGER i \<Rightarrow> Some (USSR_INTEGER (- i)) | USSR_REAL r \<Rightarrow> Some (USSR_REAL (dbl_neg r)) | _ \<Rightarrow> None)"

definition vm_vector_get :: "nat \<Rightarrow> nat \<Rightarrow> nat \<Rightarrow> machine \<Rightarrow> machine option" where
  "vm_vector_get a b c m =
     (if a \<ge> USSR_BC_MAX_REGS \<or> b \<ge> USSR_BC_MAX_REGS \<or> c \<ge> USSR_BC_MAX_REGS then None
      else case (m_registers m ! b, m_registers m ! c) of
        (USSR_VECTOR v, USSR_INTEGER i) \<Rightarrow>
          Option.bind (vector_of (m_heap m) (USSR_VECTOR v)) (\<lambda>(et, items).
            if sint i < 0 \<or> nat (sint i) \<ge> length items then None
            else Some (put_register a (items ! nat (sint i)) m))
      | _ \<Rightarrow> None)"

definition vm_vector_set :: "nat \<Rightarrow> nat \<Rightarrow> nat \<Rightarrow> machine \<Rightarrow> machine option" where
  "vm_vector_set a b c m =
     (if a \<ge> USSR_BC_MAX_REGS \<or> b \<ge> USSR_BC_MAX_REGS \<or> c \<ge> USSR_BC_MAX_REGS then None
      else case (m_registers m ! a, m_registers m ! b) of
        (USSR_VECTOR v, USSR_INTEGER i) \<Rightarrow>
          Option.bind (vector_of (m_heap m) (USSR_VECTOR v)) (\<lambda>(et, items).
            if sint i < 0 \<or> nat (sint i) \<ge> length items then None
            else if element_matches et (m_registers m ! c) (m_heap m) \<noteq> Some True then None
            else Some (m\<lparr>m_heap := set_items (USSR_VECTOR v) (items[nat (sint i) := m_registers m ! c]) (m_heap m)\<rparr>))
      | _ \<Rightarrow> None)"

fun string_values :: "ussr_value list \<Rightarrow> string list option" where
  "string_values [] = Some []"
| "string_values (USSR_STRING s # vs) = map_option ((#) s) (string_values vs)"
| "string_values (_ # vs) = None"

definition vm_concat :: "nat \<Rightarrow> nat \<Rightarrow> machine \<Rightarrow> machine option" where
  "vm_concat a c m =
     (if a \<ge> USSR_BC_RETURN_REG \<or> c > a then None
      else map_option (\<lambda>ss. put_register a (USSR_STRING (concat ss)) m) (string_values (take c (m_registers m))))"

definition vm_jump :: "ussr_bc_program \<Rightarrow> ussr_bc_opcode \<Rightarrow> nat \<Rightarrow> nat \<Rightarrow> machine \<Rightarrow> machine option" where
  "vm_jump p opcode a target m =
     (if target \<ge> length (bc_code p) \<or> opcode \<noteq> USSR_BC_JMP \<and> a \<ge> USSR_BC_MAX_REGS then None
      else if opcode = USSR_BC_JMP \<or>
          opcode = USSR_BC_JMP_TRUE \<and> vm_truthy (m_heap m) (m_registers m ! a) \<or>
          opcode = USSR_BC_JMP_FALSE \<and> \<not> vm_truthy (m_heap m) (m_registers m ! a)
        then Some (m\<lparr>m_ip := target\<rparr>) else Some m)"

text \<open>The loads and stores; the register and the name are checked first.\<close>

definition vm_load_const :: "ussr_bc_program \<Rightarrow> nat \<Rightarrow> nat \<Rightarrow> machine \<Rightarrow> machine option" where
  "vm_load_const p a imm m =
     (if a \<ge> USSR_BC_MAX_REGS \<or> imm \<ge> length (bc_constants p) then None
      else Some (put_register a (bc_constants p ! imm) m))"

definition vm_load_var :: "ussr_bc_program \<Rightarrow> nat \<Rightarrow> byte \<Rightarrow> nat \<Rightarrow> nat \<Rightarrow> machine \<Rightarrow> machine option" where
  "vm_load_var p a place slot imm m =
     (if a \<ge> USSR_BC_MAX_REGS \<or> imm \<ge> length (bc_strings p) then None
      else map_option (\<lambda>(v, s). put_register a (null_if_absent v) (m\<lparr>m_scope := s\<rparr>))
        (vm_read (bc_strings p ! imm) place slot (m_scope m)))"

definition vm_store_var :: "ussr_bc_program \<Rightarrow> nat \<Rightarrow> byte \<Rightarrow> nat \<Rightarrow> nat \<Rightarrow> machine \<Rightarrow> machine option" where
  "vm_store_var p a place slot imm m =
     (if a \<ge> USSR_BC_MAX_REGS \<or> imm \<ge> length (bc_strings p) then None
      else case bc_strings p ! imm of
        None \<Rightarrow> None
      | Some name \<Rightarrow>
          map_option (\<lambda>s. m\<lparr>m_scope := s\<rparr>) (ussr_set_variable_at True name (m_registers m ! a) place slot (m_scope m)))"

definition vm_load_hash :: "ussr_bc_program \<Rightarrow> nat \<Rightarrow> nat \<Rightarrow> machine \<Rightarrow> machine option" where
  "vm_load_hash p a imm m =
     (if a \<ge> USSR_BC_MAX_REGS \<or> imm \<ge> length (bc_strings p) then None
      else Option.bind (bc_strings p ! imm) (\<lambda>name. map_option (\<lambda>v. put_register a v m) (m_hash m name)))"

definition vm_store_hash :: "ussr_bc_program \<Rightarrow> nat \<Rightarrow> nat \<Rightarrow> machine \<Rightarrow> machine option" where
  "vm_store_hash p a imm m =
     (if a \<ge> USSR_BC_MAX_REGS \<or> imm \<ge> length (bc_strings p) then None
      else map_option (\<lambda>name. m\<lparr>m_hash := (m_hash m)(name \<mapsto> m_registers m ! a)\<rparr>) (bc_strings p ! imm))"

text \<open>\<open>GET\<close> refuses a name without a value.\<close>

definition vm_get :: "ussr_bc_program \<Rightarrow> nat \<Rightarrow> nat \<Rightarrow> machine \<Rightarrow> machine option" where
  "vm_get p a imm m =
     (if a \<ge> USSR_BC_MAX_REGS \<or> imm \<ge> length (bc_strings p) then None
      else Option.bind (vm_read (bc_strings p ! imm) 0 0 (m_scope m)) (\<lambda>(v, s).
        map_option (\<lambda>v. put_register a v (m\<lparr>m_scope := s\<rparr>)) v))"

definition vm_random :: "64 word \<Rightarrow> nat \<Rightarrow> machine \<Rightarrow> machine option" where
  "vm_random xrp_max a m =
     (if a \<ge> USSR_BC_MAX_REGS then None
      else let (v, g) = prng64_xrp32 xrp_max (m_random m) in Some (put_register a (USSR_INTEGER v) (m\<lparr>m_random := g\<rparr>)))"

definition vm_seed :: "nat \<Rightarrow> machine \<Rightarrow> machine option" where
  "vm_seed a m =
     (if a \<ge> USSR_BC_MAX_REGS then None
      else case m_registers m ! 0 of
        USSR_INTEGER i \<Rightarrow> Some (put_register a (USSR_INTEGER i) (m\<lparr>m_random := seed_xrp32 i\<rparr>))
      | _ \<Rightarrow> None)"


section \<open>One instruction\<close>

text \<open>
  \<open>xrp_max\<close> is the \<open>XRP_MAX\<close> of \<open>Prng\<close>. The instruction pointer is already past the instruction.
\<close>

definition vm_instruction ::
  "64 word \<Rightarrow> host \<Rightarrow> ussr_bc_program \<Rightarrow> ussr_bc_instruction \<Rightarrow> machine \<Rightarrow> machine option" where
  "vm_instruction xrp_max host p ins m =
     (let a = unat (ins_a ins); b = unat (ins_b ins); c = unat (ins_c ins); imm = unat (ins_immediate ins)
      in case opcode_of_byte (ins_opcode ins) of
        None \<Rightarrow> None
      | Some opcode \<Rightarrow>
          (case opcode of
             USSR_BC_NOP \<Rightarrow> Some m
           | USSR_BC_LOAD_CONST \<Rightarrow> vm_load_const p a imm m
           | USSR_BC_LOAD_VAR \<Rightarrow> vm_load_var p a (ins_b ins) c imm m
           | USSR_BC_STORE_VAR \<Rightarrow> vm_store_var p a (ins_b ins) c imm m
           | USSR_BC_LOAD_HASH \<Rightarrow> vm_load_hash p a imm m
           | USSR_BC_STORE_HASH \<Rightarrow> vm_store_hash p a imm m
           | USSR_BC_GET \<Rightarrow> vm_get p a imm m
           | USSR_BC_VECTOR_GET \<Rightarrow> vm_vector_get a b c m
           | USSR_BC_VECTOR_SET \<Rightarrow> vm_vector_set a b c m
           | USSR_BC_NEG \<Rightarrow>
               if a \<ge> USSR_BC_MAX_REGS \<or> b \<ge> USSR_BC_MAX_REGS then None
               else map_option (\<lambda>v. put_register a v m) (vm_negate (m_registers m ! b))
           | USSR_BC_JMP \<Rightarrow> vm_jump p opcode a imm m
           | USSR_BC_JMP_TRUE \<Rightarrow> vm_jump p opcode a imm m
           | USSR_BC_JMP_FALSE \<Rightarrow> vm_jump p opcode a imm m
           | USSR_BC_RANDOM64 \<Rightarrow> vm_random xrp_max a m
           | USSR_BC_SEED64 \<Rightarrow> vm_seed a m
           | USSR_BC_SET \<Rightarrow> vm_store_var p a 0 0 imm m
           | USSR_BC_PRINT \<Rightarrow>
               if a \<ge> USSR_BC_MAX_REGS then None else Some (m\<lparr>m_printed := m_printed m @ [m_registers m ! a]\<rparr>)
           | USSR_BC_CONCAT \<Rightarrow> vm_concat a c m
           | USSR_BC_CALL \<Rightarrow> vm_call p a b c imm m
           | USSR_BC_RET \<Rightarrow> vm_return p m
           | USSR_BC_RETURN \<Rightarrow> vm_return p m
           | USSR_BC_HALT \<Rightarrow> Some (m\<lparr>m_running := False\<rparr>)
           | _ \<Rightarrow>
               if opcode \<in> {USSR_BC_DECODE_UNO, USSR_BC_TIME, USSR_BC_CHAIN, USSR_BC_FILE, USSR_BC_CD, USSR_BC_SCAN,
                   USSR_BC_TEMPLATE, USSR_BC_EXTERNAL, USSR_BC_OOP, USSR_BC_EVAL}
               then host p ins m
               else vm_operate opcode a b c m))"

definition vm_step :: "64 word \<Rightarrow> host \<Rightarrow> ussr_bc_program \<Rightarrow> machine \<Rightarrow> machine option" where
  "vm_step xrp_max host p m =
     (if m_ip m \<ge> length (bc_code p) then None
      else if m_steps m + 1 > USSR_VM_MAX_STEPS then None
      else vm_instruction xrp_max host p (bc_code p ! m_ip m) (m\<lparr>m_ip := m_ip m + 1, m_steps := m_steps m + 1\<rparr>))"

text \<open>The loop runs while the machine does; \<open>k\<close> bounds the number of instructions.\<close>

fun vm_steps :: "64 word \<Rightarrow> host \<Rightarrow> ussr_bc_program \<Rightarrow> nat \<Rightarrow> machine \<Rightarrow> machine option" where
  "vm_steps xrp_max host p 0 m = Some m"
| "vm_steps xrp_max host p (Suc k) m =
     (if m_running m then Option.bind (vm_step xrp_max host p m) (vm_steps xrp_max host p k) else Some m)"

lemma vm_steps_add:
  "vm_steps x host p (j + k) m = Option.bind (vm_steps x host p j m) (vm_steps x host p k)"
proof (induction j arbitrary: m)
  case (Suc j)
  show ?case
  proof (cases "m_running m")
    case True
    then show ?thesis by (cases "vm_step x host p m") (simp_all add: Suc.IH)
  next
    case False
    have "vm_steps x host p k m = Some m" using False by (cases k) simp_all
    then show ?thesis using False by simp
  qed
qed simp

end
