(* ===== verification/ScopesIndex.thy ===== *)
theory ScopesIndex
  imports Scopes
begin

text \<open>
  The name index finds the variable of a name, and only that. \<open>chained\<close>: the slots from the home
  of a position up to its own are all in use. At most half of the slots are in use, so every
  probe comes to an end.
\<close>

section \<open>Probing\<close>

lemma and_power_mask: "(n :: nat) AND (2 ^ k - 1) = n mod 2 ^ k"
  by (metis mask_eq_exp_minus_1 take_bit_eq_mask take_bit_eq_mod)

definition power_size :: "nat \<Rightarrow> bool" where
  "power_size sz \<longleftrightarrow> (\<exists>k. sz = 2 ^ k)"

lemma power_size_mask: "power_size sz \<Longrightarrow> n AND (sz - 1) = n mod sz"
  unfolding power_size_def using and_power_mask by blast

lemma power_size_pos: "power_size sz \<Longrightarrow> 0 < sz"
  by (auto simp: power_size_def)

lemma probe_at: "stop at \<Longrightarrow> index_probe stop m at = Some at"
  by (simp add: index_probe.simps)

lemma probe_next: "\<not> stop at \<Longrightarrow> index_probe stop m at = index_probe stop m ((at + 1) AND m)"
  by (subst index_probe.simps) simp

text \<open>The probe takes the first slot, counted from where it begins, that stops it.\<close>

lemma probe_first:
  assumes "power_size sz" "stop ((at + d) mod sz)" "\<forall>e<d. \<not> stop ((at + e) mod sz)" "at < sz"
  shows "index_probe stop (sz - 1) at = Some ((at + d) mod sz)"
  using assms(2-4)
proof (induction d arbitrary: at)
  case 0
  then show ?case by (simp add: probe_at)
next
  case (Suc d)
  have "\<not> stop at" using Suc.prems(2,3) by (auto dest: spec[of _ 0])
  moreover have n: "(at + 1) AND (sz - 1) = (at + 1) mod sz" by (rule power_size_mask[OF assms(1)])
  moreover have "index_probe stop (sz - 1) ((at + 1) mod sz) = Some (((at + 1) mod sz + d) mod sz)"
  proof (rule Suc.IH)
    show "stop (((at + 1) mod sz + d) mod sz)" using Suc.prems(1) by (simp add: mod_add_left_eq)
    have "\<not> stop ((at + Suc e) mod sz)" if "e < d" for e using Suc.prems(2) that by auto
    then show "\<forall>e<d. \<not> stop (((at + 1) mod sz + e) mod sz)" by (simp add: mod_add_left_eq)
    show "(at + 1) mod sz < sz" using power_size_pos[OF assms(1)] by simp
  qed
  ultimately show ?case using probe_next[of stop at "sz - 1"] by (simp only: n mod_add_left_eq) simp
qed

lemma probe_found:
  assumes "power_size sz" "at < sz" "z < sz" "stop z"
  obtains d where "d < sz" "index_probe stop (sz - 1) at = Some ((at + d) mod sz)"
    "stop ((at + d) mod sz)" "\<forall>e<d. \<not> stop ((at + e) mod sz)"
proof -
  let ?c = "if at \<le> z then z - at else sz - at + z"
  have c: "?c < sz" "(at + ?c) mod sz = z" using assms(2,3) by auto
  let ?d = "LEAST d. stop ((at + d) mod sz)"
  have "stop ((at + ?c) mod sz)" unfolding c(2) by (rule assms(4))
  from LeastI[of "\<lambda>d. stop ((at + d) mod sz)", OF this] Least_le[of "\<lambda>d. stop ((at + d) mod sz)", OF this]
  have d: "stop ((at + ?d) mod sz)" "?d \<le> ?c" by auto
  have n: "\<forall>e<?d. \<not> stop ((at + e) mod sz)" using not_less_Least by blast
  from that[of ?d] probe_first[OF assms(1) d(1) n assms(2)] d n c(1) show ?thesis by simp
qed

section \<open>The invariant of the index\<close>

definition chained :: "(string \<times> ussr_value) list \<Rightarrow> nat list \<Rightarrow> nat \<Rightarrow> bool" where
  "chained vars index i \<longleftrightarrow>
     (let home = index_home (fst (vars ! i)) index; sz = length index
      in \<exists>d < sz. index ! ((home + d) mod sz) = i + 1 \<and> (\<forall>e<d. index ! ((home + e) mod sz) \<noteq> 0))"

definition used_slots :: "nat list \<Rightarrow> nat" where
  "used_slots index = length (filter (\<lambda>p. p \<noteq> 0) index)"

text \<open>The index covers the first \<open>n\<close> variables.\<close>

definition index_covers :: "(string \<times> ussr_value) list \<Rightarrow> nat \<Rightarrow> nat list \<Rightarrow> bool" where
  "index_covers vars n index \<longleftrightarrow>
     power_size (length index) \<and> used_slots index = n \<and> (\<forall>p\<in>set index. p \<le> n) \<and> (\<forall>i<n. chained vars index i)"

lemma home_less: "power_size (length index) \<Longrightarrow> index_home name index < length index"
  unfolding index_home_def power_size_mask using power_size_pos by (rule mod_less_divisor)

lemma free_slot:
  assumes "used_slots index < length index"
  obtains z where "z < length index" "index ! z = 0"
proof -
  have "\<exists>p\<in>set index. p = 0"
  proof (rule ccontr)
    assume "\<not> ?thesis"
    then have "filter (\<lambda>p. p \<noteq> 0) index = index" by (metis (mono_tags, lifting) filter_id_conv)
    with assms show False by (simp add: used_slots_def)
  qed
  with that show ?thesis by (auto simp: in_set_conv_nth)
qed

lemma used_update: "i < length index \<Longrightarrow> index ! i = 0 \<Longrightarrow> p \<noteq> 0 \<Longrightarrow> used_slots (index[i := p]) = used_slots index + 1"
proof (induction index arbitrary: i)
  case (Cons a index)
  then show ?case by (cases i) (auto simp: used_slots_def)
qed simp

lemma put_covers:
  assumes c: "index_covers vars n index" and n: "n < length index"
  obtains index' where "ussr_scope_index_put vars n index = Some index'" "index_covers vars (n + 1) index'"
    "length index' = length index"
proof -
  let ?sz = "length index" and ?home = "index_home (fst (vars ! n)) index"
  have p: "power_size ?sz" and u: "used_slots index = n" and le: "\<forall>p\<in>set index. p \<le> n"
    and ch: "\<forall>i<n. chained vars index i" using c by (auto simp: index_covers_def)
  obtain z where z: "z < ?sz" "index ! z = 0" using free_slot[of index] u n by auto
  obtain d where d: "d < ?sz" "index_probe (\<lambda>at. index ! at = 0) (?sz - 1) ?home = Some ((?home + d) mod ?sz)"
      "index ! ((?home + d) mod ?sz) = 0" "\<forall>e<d. index ! ((?home + e) mod ?sz) \<noteq> 0"
    using probe_found[OF p home_less[OF p] z(1), where stop="\<lambda>at. index ! at = 0"] z(2) by blast
  let ?at = "(?home + d) mod ?sz"
  let ?index = "index[?at := n + 1]"
  have at: "?at < ?sz" using power_size_pos[OF p] by (rule mod_less_divisor)
  have home: "index_home name (index[k := q]) = index_home name index" for name k q by (simp add: index_home_def)
  have keep: "index ! k \<noteq> 0 \<Longrightarrow> ?index ! k = index ! k" for k using d(3) by (cases "k = ?at") auto
  have keep0: "index ! k \<noteq> 0 \<Longrightarrow> ?index ! k \<noteq> 0" for k using keep[of k] by simp
  have "chained vars ?index i" if "i < n + 1" for i
  proof (cases "i = n")
    case True
    have "?index ! ?at = n + 1" using at by simp
    moreover have "\<forall>e<d. ?index ! ((?home + e) mod ?sz) \<noteq> 0" using d(4) keep0 by blast
    ultimately show ?thesis using d(1) True by (auto simp: chained_def home Let_def)
  next
    case False
    with that ch have "chained vars index i" by simp
    then obtain f where f: "f < ?sz" "index ! ((index_home (fst (vars ! i)) index + f) mod ?sz) = i + 1"
        "\<forall>e<f. index ! ((index_home (fst (vars ! i)) index + e) mod ?sz) \<noteq> 0"
      by (auto simp: chained_def Let_def)
    have "?index ! ((index_home (fst (vars ! i)) index + f) mod ?sz) = i + 1"
      using f(2) keep[of "(index_home (fst (vars ! i)) index + f) mod ?sz"] by linarith
    moreover have "\<forall>e<f. ?index ! ((index_home (fst (vars ! i)) index + e) mod ?sz) \<noteq> 0" using f(3) keep0 by blast
    ultimately show ?thesis using f(1) by (auto simp: chained_def home Let_def)
  qed
  moreover have "used_slots ?index = n + 1" using used_update[OF at d(3), of "n + 1"] u by simp
  moreover have "\<forall>p\<in>set ?index. p \<le> n + 1" using le set_update_subset_insert[of index ?at "n + 1"] by fastforce
  ultimately have "index_covers vars (n + 1) ?index" using p by (auto simp: index_covers_def)
  moreover have "ussr_scope_index_put vars n index = Some ?index"
    unfolding ussr_scope_index_put_def d(2) by simp
  ultimately show ?thesis using that by simp
qed

lemma put_all_covers:
  "index_covers vars m index \<Longrightarrow> m + k \<le> length index \<Longrightarrow>
   \<exists>index'. put_all_positions vars [m..<m + k] index = Some index' \<and> index_covers vars (m + k) index' \<and>
     length index' = length index"
proof (induction k arbitrary: m index)
  case (Suc k)
  have "m < length index" using Suc.prems(2) by simp
  then obtain index1 where i: "ussr_scope_index_put vars m index = Some index1" "index_covers vars (m + 1) index1"
      "length index1 = length index" using put_covers[OF Suc.prems(1)] by blast
  have "[m..<m + Suc k] = m # [m + 1..<m + 1 + k]" by (simp add: upt_conv_Cons)
  with Suc.IH[OF i(2)] Suc.prems(2) i show ?case by (simp del: upt_Suc)
qed simp

lemma covers_empty: "power_size sz \<Longrightarrow> index_covers vars 0 (replicate sz 0)"
  by (simp add: index_covers_def used_slots_def)

lemma power_size_double: "power_size sz \<Longrightarrow> power_size (sz * 2)"
  unfolding power_size_def by (metis power_Suc2)

lemma index_size_ok: "power_size sz \<Longrightarrow> power_size (index_size_for count sz) \<and> count * 2 < index_size_for count sz"
proof (induction count sz rule: index_size_for.induct)
  case (1 count sz)
  then show ?case using power_size_pos[of sz] power_size_double[of sz]
    by (cases "count * 2 \<ge> sz") (simp_all add: index_size_for.simps[of count sz])
qed

end
