(* ===== verification/ScopesProps.thy ===== *)
theory ScopesProps
  imports ScopesIndex
begin

text \<open>
  What the variables promise, whatever the index does: \<open>env\<close> is a map of globals and, for
  each call, a map from its local names to their values, not assigned at first.
\<close>

type_synonym env = "(string \<rightharpoonup> ussr_value) \<times> (string \<rightharpoonup> ussr_value option) list"

fun env_get :: "string \<Rightarrow> env \<Rightarrow> ussr_value option" where
  "env_get name (globals, []) = globals name"
| "env_get name (globals, call # calls) = (case call name of Some v \<Rightarrow> v | None \<Rightarrow> globals name)"

fun env_put :: "string \<Rightarrow> ussr_value option \<Rightarrow> env \<Rightarrow> env" where
  "env_put name v (globals, []) = (globals(name := v), [])"
| "env_put name v (globals, call # calls) =
     (if call name \<noteq> None then (globals, call(name \<mapsto> v) # calls) else (globals(name := v), call # calls))"

definition env_push :: "string list \<Rightarrow> env \<Rightarrow> env" where
  "env_push names e = (fst e, (\<lambda>n. if n \<in> set names then Some None else None) # snd e)"

definition env_pop :: "env \<Rightarrow> env" where
  "env_pop e = (fst e, tl (snd e))"

definition call_map :: "ussr_locals \<Rightarrow> string \<rightharpoonup> ussr_value option" where
  "call_map l = map_of (zip (loc_names l) (loc_values l))"

definition env_of :: "ussr_scope \<Rightarrow> env" where
  "env_of s = (map_of (sc_vars s), map call_map (sc_locals s))"

definition scope_ok :: "ussr_scope \<Rightarrow> bool" where
  "scope_ok s \<longleftrightarrow> distinct (map fst (sc_vars s)) \<and>
     (sc_index s = [] \<or> length (sc_vars s) * 2 < length (sc_index s) \<and>
        index_covers (sc_vars s) (length (sc_vars s)) (sc_index s)) \<and>
     (\<forall>l\<in>set (sc_locals s). length (loc_values l) = length (loc_names l))"

section \<open>Positions\<close>

lemma name_position_Some:
  "name_position name names k = Some i \<Longrightarrow> k \<le> i \<and> i - k < length names \<and> names ! (i - k) = name \<and> (\<forall>j<i - k. names ! j \<noteq> name)"
proof (induction name names k rule: name_position.induct)
  case (2 name n ns k)
  then show ?case by (auto simp: nth_Cons' split: if_splits)
qed simp

lemma name_position_None: "name_position name names k = None \<longleftrightarrow> name \<notin> set names"
  by (induction name names k rule: name_position.induct) auto

lemma name_position_at:
  "name_position name names 0 = Some i \<Longrightarrow> i < length names \<and> names ! i = name \<and> (\<forall>j<i. names ! j \<noteq> name)"
  using name_position_Some[of name names 0 i] by simp

lemma position_map_of:
  assumes "distinct (map fst vars)" "i < length vars" "fst (vars ! i) = name"
  shows "map_of vars name = Some (snd (vars ! i))"
  using assms by (metis map_of_is_SomeI nth_mem prod.collapse)

lemma position_update:
  assumes "distinct (map fst vars)" "i < length vars" "fst (vars ! i) = name"
  shows "map_of (vars[i := (name, v)]) = (map_of vars)(name \<mapsto> v)"
proof -
  have f: "map fst (vars[i := (name, v)]) = map fst vars" using assms(2,3) by (simp add: map_update list_update_same_conv)
  then have d: "distinct (map fst (vars[i := (name, v)]))" using assms(1) by simp
  show ?thesis
  proof
    fix n
    show "map_of (vars[i := (name, v)]) n = ((map_of vars)(name \<mapsto> v)) n"
    proof (cases "n = name")
      case True
      then show ?thesis using position_map_of[OF d, of i name] assms(2) by simp
    next
      case False
      show ?thesis
      proof (cases "map_of vars n")
        case None
        then have "n \<notin> fst ` set vars" by (simp add: map_of_eq_None_iff)
        then have "n \<notin> set (map fst (vars[i := (name, v)]))" unfolding f by simp
        then have "map_of (vars[i := (name, v)]) n = None" by (simp add: map_of_eq_None_iff)
        then show ?thesis using False None by simp
      next
        case (Some x)
        then have "(n, x) \<in> set vars" by (rule map_of_SomeD)
        then obtain j where j: "j < length vars" "vars ! j = (n, x)" by (auto simp: in_set_conv_nth)
        then have "j \<noteq> i" using False assms(3) by auto
        then have "map_of (vars[i := (name, v)]) n = Some x"
          using position_map_of[OF d, of j n] j by simp
        then show ?thesis using False Some by simp
      qed
    qed
  qed
qed

section \<open>The index finds the variable\<close>

lemma ready_ok:
  assumes "scope_ok s"
  obtains r s' where "ussr_scope_index_ready ok s = Some (r, s')" "scope_ok s'" "env_of s' = env_of s"
    "sc_vars s' = sc_vars s" "sc_locals s' = sc_locals s" "r \<longrightarrow> sc_index s' \<noteq> []"
proof -
  let ?n = "length (sc_vars s)"
  consider "sc_index s \<noteq> [] \<and> ?n * 2 < length (sc_index s)"
    | "\<not> (sc_index s \<noteq> [] \<and> ?n * 2 < length (sc_index s))" "\<not> ok"
    | "\<not> (sc_index s \<noteq> [] \<and> ?n * 2 < length (sc_index s))" "ok" by blast
  then show ?thesis
  proof cases
    case 1
    then show ?thesis using that[of True s] assms by (simp add: ussr_scope_index_ready_def Let_def)
  next
    case 2
    then show ?thesis using that[of False "s\<lparr>sc_index := []\<rparr>"] assms
      by (auto simp: ussr_scope_index_ready_def Let_def scope_ok_def env_of_def)
  next
    case 3
    let ?sz = "index_size_for ?n (if length (sc_index s) = 0 then 64 else length (sc_index s))"
    have "power_size (64 :: nat)" unfolding power_size_def by (rule exI[of _ 6]) simp
    then have "power_size (if length (sc_index s) = 0 then 64 else length (sc_index s))"
      using assms by (auto simp: scope_ok_def index_covers_def)
    from index_size_ok[OF this, of ?n] have sz: "power_size ?sz" "?n * 2 < ?sz" by auto
    obtain index where i: "put_all_positions (sc_vars s) [0..<?n] (replicate ?sz 0) = Some index"
        "index_covers (sc_vars s) ?n index" "length index = ?sz"
      using put_all_covers[OF covers_empty[OF sz(1)], of ?n "sc_vars s"] sz(2) by auto
    have "ussr_scope_index_ready ok s = Some (True, s\<lparr>sc_index := index\<rparr>)"
      using 3 i(1) by (auto simp: ussr_scope_index_ready_def Let_def)
    moreover have "index \<noteq> []" using i(3) sz(2) by auto
    ultimately show ?thesis using that[of True "s\<lparr>sc_index := index\<rparr>"] assms i(2,3) sz(2)
      by (auto simp: scope_ok_def env_of_def)
  qed
qed

lemma covers_position:
  assumes "index_covers vars (length vars) index" "p \<in> set index" "p \<noteq> 0"
  shows "p - 1 < length vars"
proof -
  have "p \<le> length vars" using assms(1,2) by (auto simp: index_covers_def)
  with assms(3) show ?thesis by simp
qed

lemma indexed_position:
  assumes c: "index_covers (sc_vars s) (length (sc_vars s)) (sc_index s)" and h: "length (sc_vars s) < length (sc_index s)"
  obtains at where "index_probe (position_stop name s) (length (sc_index s) - 1) (index_home name (sc_index s)) = Some at"
    "if sc_index s ! at = 0 then name \<notin> set (map fst (sc_vars s))
     else sc_index s ! at - 1 < length (sc_vars s) \<and> fst (sc_vars s ! (sc_index s ! at - 1)) = name"
proof -
  let ?vars = "sc_vars s" and ?index = "sc_index s" and ?sz = "length (sc_index s)"
  let ?home = "index_home name ?index" and ?stop = "position_stop name s"
  have p: "power_size ?sz" and u: "used_slots ?index = length ?vars"
    and ch: "\<forall>i<length ?vars. chained ?vars ?index i" using c by (auto simp: index_covers_def)
  obtain z where z: "z < ?sz" "?index ! z = 0" using free_slot[of ?index] u h by auto
  then have "?stop z" by (simp add: position_stop_def)
  from probe_found[OF p home_less[OF p] z(1), where stop="position_stop name s", OF this] obtain d where
    d: "d < ?sz" "index_probe ?stop (?sz - 1) ?home = Some ((?home + d) mod ?sz)"
      "?stop ((?home + d) mod ?sz)" "\<forall>e<d. \<not> ?stop ((?home + e) mod ?sz)" by metis
  let ?at = "(?home + d) mod ?sz"
  have at: "?at < ?sz" using power_size_pos[OF p] by (rule mod_less_divisor)
  have "if ?index ! ?at = 0 then name \<notin> set (map fst ?vars)
     else ?index ! ?at - 1 < length ?vars \<and> fst (?vars ! (?index ! ?at - 1)) = name"
  proof (cases "?index ! ?at = 0")
    case True
    have "name \<notin> set (map fst ?vars)"
    proof
      assume "name \<in> set (map fst ?vars)"
      then obtain i where i: "i < length ?vars" "fst (?vars ! i) = name" by (auto simp: in_set_conv_nth)
      with ch have "chained ?vars ?index i" by simp
      then obtain f where f: "f < ?sz" "?index ! ((?home + f) mod ?sz) = i + 1" "\<forall>e<f. ?index ! ((?home + e) mod ?sz) \<noteq> 0"
        using i(2) by (auto simp: chained_def Let_def)
      have "?stop ((?home + f) mod ?sz)" using f(2) i(2) by (simp add: position_stop_def)
      then have "\<not> f < d" using d(4) by blast
      moreover have "\<not> d < f" using f(3) True by blast
      ultimately have "f = d" by simp
      then show False using f(2) True by simp
    qed
    with True show ?thesis by simp
  next
    case False
    then show ?thesis using d(3) covers_position[OF c nth_mem[OF at] False] by (simp add: position_stop_def)
  qed
  with that d(2) show ?thesis by blast
qed

lemma position_ok:
  assumes "scope_ok s"
  obtains r s' where "ussr_scope_position ok name s = Some (r, s')" "scope_ok s'" "env_of s' = env_of s"
    "sc_locals s' = sc_locals s" "sc_vars s' = sc_vars s"
    "case r of None \<Rightarrow> name \<notin> set (map fst (sc_vars s)) | Some i \<Rightarrow> i < length (sc_vars s) \<and> fst (sc_vars s ! i) = name"
proof -
  obtain rd s' where s': "ussr_scope_index_ready ok s = Some (rd, s')" "scope_ok s'" "env_of s' = env_of s"
    "sc_vars s' = sc_vars s" "sc_locals s' = sc_locals s" "rd \<longrightarrow> sc_index s' \<noteq> []" by (rule ready_ok[OF assms])
  show ?thesis
  proof (cases rd)
    case True
    with s' have "index_covers (sc_vars s') (length (sc_vars s')) (sc_index s')" "length (sc_vars s') < length (sc_index s')"
      by (auto simp: scope_ok_def)
    then obtain at where "index_probe (position_stop name s') (length (sc_index s') - 1) (index_home name (sc_index s')) = Some at"
      "if sc_index s' ! at = 0 then name \<notin> set (map fst (sc_vars s'))
       else sc_index s' ! at - 1 < length (sc_vars s') \<and> fst (sc_vars s' ! (sc_index s' ! at - 1)) = name"
      by (rule indexed_position)
    then show ?thesis using that s' True by (auto simp: ussr_scope_position_def split: if_splits)
  next
    case False
    show ?thesis
    proof (cases "name_position name (map fst (sc_vars s)) 0")
      case None
      then show ?thesis using that[of None s'] s' False by (simp add: ussr_scope_position_def name_position_None)
    next
      case (Some i)
      then show ?thesis using that[of "Some i" s'] s' False name_position_at[OF Some] by (auto simp: ussr_scope_position_def)
    qed
  qed
qed

section \<open>Operations\<close>

lemma lookup_ok:
  assumes "scope_ok s"
  obtains s' where "ussr_scope_lookup ok name s = Some (fst (env_of s) name, s')" "scope_ok s'" "env_of s' = env_of s"
    "sc_locals s' = sc_locals s"
proof -
  obtain r s' where s': "ussr_scope_position ok name s = Some (r, s')" "scope_ok s'" "env_of s' = env_of s"
    "sc_locals s' = sc_locals s" "sc_vars s' = sc_vars s"
    "case r of None \<Rightarrow> name \<notin> set (map fst (sc_vars s)) | Some i \<Rightarrow> i < length (sc_vars s) \<and> fst (sc_vars s ! i) = name"
    by (rule position_ok[OF assms])
  have d: "distinct (map fst (sc_vars s))" using assms by (simp add: scope_ok_def)
  have "map_option (\<lambda>i. snd (sc_vars s' ! i)) r = map_of (sc_vars s) name"
  proof (cases r)
    case None
    then have "map_of (sc_vars s) name = None" using s'(6) by (simp add: map_of_eq_None_iff)
    with None show ?thesis by simp
  next
    case (Some i)
    then show ?thesis using s'(5,6) position_map_of[OF d, of i name] by simp
  qed
  then show ?thesis using that[of s'] s' by (simp add: ussr_scope_lookup_def env_of_def)
qed

lemma chained_append: "chained vars index i \<Longrightarrow> i < length vars \<Longrightarrow> chained (vars @ xs) index i"
  by (simp add: chained_def nth_append)

lemma covers_append: "index_covers vars (length vars) index \<Longrightarrow> index_covers (vars @ xs) (length vars) index"
  by (auto simp: index_covers_def intro: chained_append)

lemma chained_update: "k < length vars \<Longrightarrow> fst x = fst (vars ! k) \<Longrightarrow> chained (vars[k := x]) index i = chained vars index i"
  by (cases "i = k") (simp_all add: chained_def)

lemma covers_update: "k < length vars \<Longrightarrow> fst x = fst (vars ! k) \<Longrightarrow> index_covers (vars[k := x]) n index = index_covers vars n index"
  by (simp add: index_covers_def chained_update)

lemma names_update: "k < length vars \<Longrightarrow> fst x = fst (vars ! k) \<Longrightarrow> map fst (vars[k := x]) = map fst vars"
  by (simp add: map_update list_update_same_conv)

lemma scope_set_ok:
  assumes "scope_ok s"
  obtains s' where "ussr_scope_set ok name v s = Some s'" "scope_ok s'"
    "env_of s' = ((fst (env_of s))(name \<mapsto> v), snd (env_of s))"
proof -
  obtain r s1 where s1: "ussr_scope_position ok name s = Some (r, s1)" "scope_ok s1" "env_of s1 = env_of s"
    "sc_locals s1 = sc_locals s" "sc_vars s1 = sc_vars s"
    "case r of None \<Rightarrow> name \<notin> set (map fst (sc_vars s)) | Some i \<Rightarrow> i < length (sc_vars s) \<and> fst (sc_vars s ! i) = name"
    by (rule position_ok[OF assms])
  have d: "distinct (map fst (sc_vars s1))" using s1(2) by (simp add: scope_ok_def)
  show ?thesis
  proof (cases r)
    case (Some i)
    let ?s = "s1\<lparr>sc_vars := (sc_vars s1)[i := (fst (sc_vars s1 ! i), v)]\<rparr>"
    have i: "i < length (sc_vars s1)" "fst (sc_vars s1 ! i) = name" using s1(5,6) Some by simp_all
    have "scope_ok ?s" using s1(2) i
      by (simp add: scope_ok_def names_update covers_update)
    moreover have "env_of ?s = ((fst (env_of s))(name \<mapsto> v), snd (env_of s))"
      using s1(3,5) i position_update[OF d i, of v] by (simp add: env_of_def)
    moreover have "ussr_scope_set ok name v s = Some ?s" using s1(1) Some by (simp add: ussr_scope_set_def)
    ultimately show ?thesis using that by blast
  next
    case None
    then have n: "name \<notin> set (map fst (sc_vars s1))" using s1(5,6) by simp
    then have "name_position name (map fst (sc_vars s1)) 0 = None" by (simp add: name_position_None)
    then have vs: "ussr_vars_set name v (sc_vars s1) = sc_vars s1 @ [(name, v)]" by (simp add: ussr_vars_set_def)
    let ?vars = "sc_vars s1 @ [(name, v)]"
    have dv: "distinct (map fst ?vars)" using d n by simp
    have mv: "map_of ?vars = (map_of (sc_vars s1))(name \<mapsto> v)"
    proof
      fix x
      have "map_of (sc_vars s1) name = None" using n by (simp add: map_of_eq_None_iff)
      then show "map_of ?vars x = ((map_of (sc_vars s1))(name \<mapsto> v)) x"
        by (cases "map_of (sc_vars s1) x") (auto simp: map_add_def)
    qed
    have e: "env_of (s1\<lparr>sc_vars := ?vars, sc_index := index\<rparr>) = ((fst (env_of s))(name \<mapsto> v), snd (env_of s))" for index
      using s1(3) mv by (simp add: env_of_def)
    have l: "\<forall>l\<in>set (sc_locals s1). length (loc_values l) = length (loc_names l)" using s1(2) by (simp add: scope_ok_def)
    show ?thesis
    proof (cases "sc_index s1 \<noteq> [] \<and> (length (sc_vars s1) + 1) * 2 < length (sc_index s1)")
      case True
      then have "index_covers (sc_vars s1) (length (sc_vars s1)) (sc_index s1)" using s1(2) by (simp add: scope_ok_def)
      then have "index_covers ?vars (length (sc_vars s1)) (sc_index s1)" by (rule covers_append)
      moreover have "length (sc_vars s1) < length (sc_index s1)" using True by simp
      ultimately obtain index where index: "ussr_scope_index_put ?vars (length (sc_vars s1)) (sc_index s1) = Some index"
        "index_covers ?vars (length (sc_vars s1) + 1) index" "length index = length (sc_index s1)" by (rule put_covers)
      have "scope_ok (s1\<lparr>sc_vars := ?vars, sc_index := index\<rparr>)" using dv index(2,3) True l by (simp add: scope_ok_def)
      moreover have "ussr_scope_set ok name v s = Some (s1\<lparr>sc_vars := ?vars, sc_index := index\<rparr>)"
        using s1(1) None vs True index(1) by (simp add: ussr_scope_set_def Let_def)
      ultimately show ?thesis using that e by blast
    next
      case False
      have "scope_ok (s1\<lparr>sc_vars := ?vars, sc_index := []\<rparr>)" using dv l by (simp add: scope_ok_def)
      moreover have "ussr_scope_set ok name v s = Some (s1\<lparr>sc_vars := ?vars, sc_index := []\<rparr>)"
        using s1(1) None vs False by (auto simp: ussr_scope_set_def Let_def)
      ultimately show ?thesis using that e by blast
    qed
  qed
qed


lemma call_store:
  assumes "name_position name (loc_names l) 0 = Some i" "length (loc_values l) = length (loc_names l)"
  shows "call_map (l\<lparr>loc_values := (loc_values l)[i := v]\<rparr>) = (call_map l)(name \<mapsto> v)"
    "call_map l name = Some (loc_values l ! i)"
proof -
  have p: "name_position name names k = Some i \<Longrightarrow> length vals = length names \<Longrightarrow>
      map_of (zip names (vals[i - k := v])) = (map_of (zip names vals))(name \<mapsto> v) \<and>
      map_of (zip names vals) name = Some (vals ! (i - k))" for names vals k
  proof (induction name names k arbitrary: vals rule: name_position.induct)
    case (2 name n ns k)
    obtain x xs where vals: "vals = x # xs" using 2(3) by (cases vals) simp_all
    show ?case
    proof (cases "n = name")
      case True
      then show ?thesis using 2(2) vals by (simp add: fun_eq_iff)
    next
      case False
      with 2(2) have q: "name_position name ns (k + 1) = Some i" by simp
      then have "k + 1 \<le> i" using name_position_Some by blast
      then have "i - k = Suc (i - (k + 1))" by simp
      then show ?thesis using 2(1)[OF False q, of xs] 2(3) False vals by (auto simp: fun_eq_iff)
    qed
  qed simp
  from p[OF assms(1,2)] show "call_map (l\<lparr>loc_values := (loc_values l)[i := v]\<rparr>) = (call_map l)(name \<mapsto> v)"
    "call_map l name = Some (loc_values l ! i)" by (simp_all add: call_map_def)
qed

lemma call_None: "name_position name (loc_names l) 0 = None \<Longrightarrow> call_map l name = None"
  by (auto simp: name_position_None call_map_def map_of_eq_None_iff dest: set_zip_leftD)

lemma locals_for_Some:
  assumes "scope_ok s" "ussr_locals_for name s = Some slot"
  obtains l ls where "sc_locals s = l # ls" "slot < length (loc_names l)" "loc_names l ! slot = name"
    "call_map l name = Some (local_value slot s)"
    "\<And>v. scope_ok (ussr_locals_store slot v s)"
    "\<And>v. env_of (ussr_locals_store slot v s) = env_put name v (env_of s)"
    "env_get name (env_of s) = local_value slot s"
proof -
  obtain l ls where l: "sc_locals s = l # ls" "name_position name (loc_names l) 0 = Some slot"
    using assms(2) by (auto simp: ussr_locals_for_def split: list.splits)
  have len: "length (loc_values l) = length (loc_names l)" using assms(1) l(1) by (simp add: scope_ok_def)
  note c = call_store[OF l(2) len]
  have "call_map l name = Some (local_value slot s)" using c(2) l(1) by (simp add: local_value_def)
  moreover have "scope_ok (ussr_locals_store slot v s)" for v
    using assms(1) l(1) by (auto simp: scope_ok_def ussr_locals_store_def)
  moreover have "env_of (ussr_locals_store slot v s) = env_put name v (env_of s)" for v
    using c l(1) by (simp add: ussr_locals_store_def env_of_def)
  ultimately show ?thesis using that[OF l(1)] name_position_at[OF l(2)] l(1) by (simp add: env_of_def)
qed

lemma locals_for_None:
  assumes "ussr_locals_for name s = None"
  shows "env_get name (env_of s) = fst (env_of s) name"
    "env_put name v (env_of s) = ((fst (env_of s))(name := v), snd (env_of s))"
proof -
  have "case sc_locals s of [] \<Rightarrow> True | l # ls \<Rightarrow> call_map l name = None"
    using assms call_None by (auto simp: ussr_locals_for_def split: list.splits)
  then show "env_get name (env_of s) = fst (env_of s) name"
    "env_put name v (env_of s) = ((fst (env_of s))(name := v), snd (env_of s))"
    by (auto simp: env_of_def split: list.splits)
qed

lemma scope_get_ok:
  assumes "scope_ok s"
  obtains s' where "ussr_get_variable ok name s = Some (env_get name (env_of s), s')" "scope_ok s'" "env_of s' = env_of s"
    "sc_locals s' = sc_locals s"
proof (cases "ussr_locals_for name s")
  case None
  obtain s' where "ussr_scope_lookup ok name s = Some (fst (env_of s) name, s')" "scope_ok s'" "env_of s' = env_of s"
    "sc_locals s' = sc_locals s" by (rule lookup_ok[OF assms])
  then show ?thesis using that[of s'] None locals_for_None(1)[OF None] by (simp add: ussr_get_variable_def)
next
  case (Some slot)
  show ?thesis by (rule locals_for_Some[OF assms Some]) (rule that[of s], simp_all add: ussr_get_variable_def Some assms)
qed

lemma set_variable_ok:
  assumes "scope_ok s"
  obtains s' where "ussr_set_variable ok name v s = Some s'" "scope_ok s'" "env_of s' = env_put name (Some v) (env_of s)"
proof (cases "ussr_locals_for name s")
  case None
  obtain s' where "ussr_scope_set ok name v s = Some s'" "scope_ok s'"
    "env_of s' = ((fst (env_of s))(name \<mapsto> v), snd (env_of s))" by (rule scope_set_ok[OF assms])
  then show ?thesis using that[of s'] None locals_for_None(2)[OF None] by (simp add: ussr_set_variable_def)
next
  case (Some slot)
  show ?thesis by (rule locals_for_Some[OF assms Some]) (rule that[of "ussr_locals_store slot (Some v) s"], simp_all add: ussr_set_variable_def Some)
qed

lemma delete_position:
  assumes "distinct (map fst vars)" "i < length vars" "fst (vars ! i) = name"
  shows "map_of (take i vars @ drop (i + 1) vars) = (map_of vars)(name := None)"
    "distinct (map fst (take i vars @ drop (i + 1) vars))"
proof -
  have v: "vars = take i vars @ vars ! i # drop (i + 1) vars" using assms(2) by (simp add: id_take_nth_drop)
  then have d: "distinct (map fst (take i vars) @ name # map fst (drop (i + 1) vars))"
    using assms(1,3) by (metis list.simps(9) map_append)
  then have n: "name \<notin> set (map fst (take i vars))" "name \<notin> set (map fst (drop (i + 1) vars))" by auto
  then have m: "map_of (take i vars) name = None" "map_of (drop (i + 1) vars) name = None" by (auto simp: map_of_eq_None_iff)
  have "map_of vars = map_of (take i vars @ vars ! i # drop (i + 1) vars)" using v by simp
  also have "\<dots> = map_of (drop (i + 1) vars) ++ [name \<mapsto> snd (vars ! i)] ++ map_of (take i vars)"
    using assms(3) by (cases "vars ! i") (auto simp: map_add_def fun_eq_iff split: option.splits)
  finally show "map_of (take i vars @ drop (i + 1) vars) = (map_of vars)(name := None)"
    using m by (auto simp: map_add_def fun_eq_iff split: option.splits)
  show "distinct (map fst (take i vars @ drop (i + 1) vars))" using d by simp
qed

lemma remove_ok:
  assumes "scope_ok s"
  shows "scope_ok (ussr_remove_variable name s) \<and> env_of (ussr_remove_variable name s) = env_put name None (env_of s)"
proof (cases "ussr_locals_for name s")
  case None
  note l = locals_for_None(2)[OF None, of None]
  have d: "distinct (map fst (sc_vars s))" using assms by (simp add: scope_ok_def)
  show ?thesis
  proof (cases "name_position name (map fst (sc_vars s)) 0")
    case N: None
    then have "map_of (sc_vars s) name = None" by (simp add: name_position_None map_of_eq_None_iff)
    then have "(map_of (sc_vars s))(name := None) = map_of (sc_vars s)" by (simp add: fun_upd_idem)
    then show ?thesis using assms None N l by (simp add: ussr_remove_variable_def env_of_def)
  next
    case (Some i)
    then have "i < length (sc_vars s)" "fst (sc_vars s ! i) = name" using name_position_at[OF Some] by auto
    note del = delete_position[OF d this]
    show ?thesis using assms None Some l del by (simp add: ussr_remove_variable_def env_of_def scope_ok_def)
  qed
next
  case (Some slot)
  show ?thesis by (rule locals_for_Some[OF assms Some]) (simp add: ussr_remove_variable_def Some)
qed

lemma scope_push_ok:
  assumes "scope_ok s"
  shows "scope_ok (ussr_locals_push names s) \<and> env_of (ussr_locals_push names s) = env_push names (env_of s)"
proof -
  have "map_of (zip names (replicate (length names) (None :: ussr_value option))) =
      (\<lambda>n. if n \<in> set names then Some None else None)" by (induction names) (auto simp: fun_eq_iff)
  then show ?thesis using assms by (auto simp: ussr_locals_push_def scope_ok_def env_of_def env_push_def call_map_def)
qed

lemma scope_pop_ok: "scope_ok s \<Longrightarrow> scope_ok (ussr_locals_pop s) \<and> env_of (ussr_locals_pop s) = env_pop (env_of s)"
  by (cases "sc_locals s") (auto simp: ussr_locals_pop_def scope_ok_def env_of_def env_pop_def)

section \<open>Scopes are environments\<close>

inductive scope_reachable :: "ussr_scope \<Rightarrow> bool" where
  created: "scope_reachable ussr_scope_create"
| got: "scope_reachable s \<Longrightarrow> ussr_get_variable ok name s = Some (v, s') \<Longrightarrow> scope_reachable s'"
| assigned: "scope_reachable s \<Longrightarrow> ussr_set_variable ok name v s = Some s' \<Longrightarrow> scope_reachable s'"
| removed: "scope_reachable s \<Longrightarrow> scope_reachable (ussr_remove_variable name s)"
| pushed: "scope_reachable s \<Longrightarrow> scope_reachable (ussr_locals_push names s)"
| popped: "scope_reachable s \<Longrightarrow> scope_reachable (ussr_locals_pop s)"
| looked_up: "scope_reachable s \<Longrightarrow> ussr_scope_lookup ok name s = Some (v, s') \<Longrightarrow> scope_reachable s'"
| global_set: "scope_reachable s \<Longrightarrow> ussr_scope_set ok name v s = Some s' \<Longrightarrow> scope_reachable s'"

lemma reachable_scope_ok: "scope_reachable s \<Longrightarrow> scope_ok s"
proof (induction rule: scope_reachable.induct)
  case created
  then show ?case by (simp add: scope_ok_def ussr_scope_create_def)
next
  case (got s ok name v s')
  then show ?case by (auto elim!: scope_get_ok[of s ok name])
next
  case (assigned s ok name v s')
  then show ?case by (auto elim!: set_variable_ok[of s ok name v])
next
  case (looked_up s ok name v s')
  then show ?case by (auto elim!: lookup_ok[of s ok name])
next
  case (global_set s ok name v s')
  then show ?case by (auto elim!: scope_set_ok[of s ok name v])
qed (simp_all add: remove_ok scope_push_ok scope_pop_ok)

text \<open>
  C14: Variables behave as an environment. After any operations, with the hash index present,
  outgrown, dropped or impossible to allocate, reading a variable always comes to an end and gives
  the value of the innermost call's local of that name, or else the global; writing and removing
  change that variable only, and calls nest.
\<close>

theorem scopes_are_environments:
  assumes "scope_reachable s"
  shows "(\<exists>s'. ussr_get_variable ok name s = Some (env_get name (env_of s), s') \<and> env_of s' = env_of s) \<and>
    (\<exists>s'. ussr_set_variable ok name v s = Some s' \<and> env_of s' = env_put name (Some v) (env_of s)) \<and>
    env_of (ussr_remove_variable name s) = env_put name None (env_of s) \<and>
    env_of (ussr_locals_push names s) = env_push names (env_of s) \<and>
    env_of (ussr_locals_pop s) = env_pop (env_of s)"
proof -
  have ok: "scope_ok s" by (rule reachable_scope_ok[OF assms])
  obtain s1 where s1: "ussr_get_variable ok name s = Some (env_get name (env_of s), s1)" "env_of s1 = env_of s"
    by (rule scope_get_ok[OF ok])
  obtain s2 where s2: "ussr_set_variable ok name v s = Some s2" "env_of s2 = env_put name (Some v) (env_of s)"
    by (rule set_variable_ok[OF ok])
  show ?thesis using s1 s2 remove_ok[OF ok] scope_push_ok[OF ok] scope_pop_ok[OF ok] by blast
qed

theorem scopes_are_environments_witness:
  "\<exists>s1 s2. ussr_set_variable True ''x'' (USSR_INTEGER 7) (ussr_locals_push [''x''] ussr_scope_create) = Some s1 \<and>
     ussr_get_variable True ''x'' s1 = Some (Some (USSR_INTEGER 7), s2)"
proof -
  have r: "scope_reachable (ussr_locals_push [''x''] ussr_scope_create)" by (rule pushed[OF created])
  from scopes_are_environments[OF r] obtain s1 where
    s1: "ussr_set_variable True ''x'' (USSR_INTEGER 7) (ussr_locals_push [''x''] ussr_scope_create) = Some s1"
      "env_of s1 = env_put ''x'' (Some (USSR_INTEGER 7)) (env_of (ussr_locals_push [''x''] ussr_scope_create))" by blast
  from scopes_are_environments[OF assigned[OF r s1(1)]] obtain s2 where
    "ussr_get_variable True ''x'' s1 = Some (env_get ''x'' (env_of s1), s2)" by blast
  moreover have "env_get ''x'' (env_of s1) = Some (USSR_INTEGER 7)"
    unfolding s1(2) by (simp add: env_of_def ussr_locals_push_def ussr_scope_create_def call_map_def)
  ultimately show ?thesis using s1(1) by auto
qed

end
