(* ===== verification/CompileExprProps.thy ===== *)
theory CompileExprProps
  imports Vm CompileExpr ScopesProps
begin

text \<open>
  Compiled expressions compute what the expression means. The meaning \<open>expr_value\<close> is by the
  operators of the virtual machine; constant folding, the fast path for integers, the allocation of
  registers and the jumps of \<open>&&\<close> and \<open>||\<close> do not show.
\<close>

section \<open>The meaning of an expression\<close>

fun expr_value :: "(string \<Rightarrow> ussr_value) \<Rightarrow> ussr_expression \<Rightarrow> heap \<Rightarrow> (ussr_value \<times> heap) option" where
  "expr_value vars (USSR_EXPR_VALUE v) h = Some (v, h)"
| "expr_value vars (USSR_EXPR_VARIABLE x) h = Some (vars x, h)"
| "expr_value vars (USSR_EXPR_UNARY op e) h =
     do { (v, h) \<leftarrow> expr_value vars e h; map_option (\<lambda>v. (v, h)) (vm_negate v) }"
| "expr_value vars (USSR_EXPR_BINARY op left right) h =
     do { (l, h) \<leftarrow> expr_value vars left h;
          if logical op then
            if vm_truthy h l = (op = USSR_OP_LOGICAL_AND) then expr_value vars right h else Some (l, h)
          else do { (r, h) \<leftarrow> expr_value vars right h; vm_binary h (bc_binary_opcode op) l r } }"

lemma fold_negation_vm: "fold_negation v = vm_negate v"
  by (simp add: fold_negation_def vm_negate_def)

text \<open>Folding gives the value the expression has at run time, whatever the variables and the heap.\<close>

lemma fold_value: "bc_fold e = Some v \<Longrightarrow> expr_value vars e h = Some (v, h)"
proof (induction e arbitrary: v)
  case (USSR_EXPR_BINARY op left right)
  then obtain l r where f: "\<not> logical op" "bc_fold left = Some l" "bc_fold right = Some r"
    "vm_fold_binary (bc_binary_opcode op) l r = Some v" by (auto simp: bind_eq_Some_conv split: if_splits)
  then show ?case using USSR_EXPR_BINARY.IH(1)[OF f(2)] USSR_EXPR_BINARY.IH(2)[OF f(3)] vm_fold_binary_sound[OF f(4)] by simp
qed (auto simp: bind_eq_Some_conv fold_negation_vm split: if_splits)

lemma fast_path: "int_fast_path opcode a b = Some v \<Longrightarrow> vm_binary h opcode a b = Some (v, h)"
proof -
  assume f: "int_fast_path opcode a b = Some v"
  then obtain x y where "a = USSR_INTEGER x" "b = USSR_INTEGER y" by (auto simp: int_fast_path_def split: ussr_value.splits)
  with f show "vm_binary h opcode a b = Some (v, h)"
    by (cases opcode) (simp_all add: int_fast_path_def vm_binary_def vm_switch_def vm_arith_def int_arith_def vm_order_def)
qed

lemma operate_binary:
  assumes "a < 32" "b < 32" "c < 32"
  shows "vm_operate opcode a b c m =
    map_option (\<lambda>(v, h). put_register a v (m\<lparr>m_heap := h\<rparr>)) (vm_binary (m_heap m) opcode (m_registers m ! b) (m_registers m ! c))"
proof (cases "int_fast_path opcode (m_registers m ! b) (m_registers m ! c)")
  case None
  then show ?thesis using assms by (simp add: vm_operate_def USSR_BC_MAX_REGS_def)
next
  case (Some v)
  have "m\<lparr>m_heap := m_heap m\<rparr> = m" by simp
  then show ?thesis using assms Some fast_path[OF Some, of "m_heap m"] by (simp add: vm_operate_def USSR_BC_MAX_REGS_def)
qed

section \<open>Code inside a program\<close>

text \<open>\<open>p\<close> grew to \<open>p'\<close>; and the final program has the code of \<open>p\<close> from \<open>n\<close> on, and its pools.\<close>

definition code_grown :: "ussr_bc_program \<Rightarrow> ussr_bc_program \<Rightarrow> bool" where
  "code_grown p p' \<longleftrightarrow> (\<exists>cs. bc_code p' = bc_code p @ cs) \<and> (\<exists>ks. bc_constants p' = bc_constants p @ ks) \<and>
     (\<exists>ss. bc_strings p' = bc_strings p @ ss) \<and> bc_functions p' = bc_functions p"

definition holds_from :: "ussr_bc_program \<Rightarrow> nat \<Rightarrow> ussr_bc_program \<Rightarrow> bool" where
  "holds_from P n p \<longleftrightarrow> length (bc_code p) < length (bc_code P) \<and>
     (\<forall>i. n \<le> i \<and> i < length (bc_code p) \<longrightarrow> bc_code P ! i = bc_code p ! i) \<and>
     (\<exists>ks. bc_constants P = bc_constants p @ ks) \<and> (\<exists>ss. bc_strings P = bc_strings p @ ss) \<and>
     length (bc_code P) \<le> USSR_BC_MAX_CODE"

lemma code_grown_refl [simp]: "code_grown p p"
  by (simp add: code_grown_def)

lemma code_grown_trans: "code_grown p q \<Longrightarrow> code_grown q r \<Longrightarrow> code_grown p r"
  unfolding code_grown_def by (metis append_assoc)

lemma bc_emit_grown: "bc_emit opcode a b c imm p = Some (i, p') \<Longrightarrow> code_grown p p' \<and> i = length (bc_code p) \<and>
    bc_code p' = bc_code p @ [instruction opcode a b c imm] \<and> bc_constants p' = bc_constants p \<and> bc_strings p' = bc_strings p \<and>
    length (bc_code p) < USSR_BC_MAX_CODE"
  by (auto simp: bc_emit_def code_grown_def split: if_splits)

lemma constant_grown: "emit_constant v dst p = Some p' \<Longrightarrow> code_grown p p' \<and>
    bc_code p' = bc_code p @ [instruction USSR_BC_LOAD_CONST dst 0 0 (length (bc_constants p))] \<and>
    bc_constants p' = bc_constants p @ [v] \<and> length (bc_constants p) < 2 ^ 31"
  by (auto simp: pool_limit_def emit_constant_def bc_add_constant_def bc_emit_def code_grown_def bind_eq_Some_conv split: if_splits)

lemma named_grown: "emit_named opcode reg name p = Some p' \<Longrightarrow> code_grown p p' \<and>
    bc_code p' = bc_code p @ [instruction opcode reg 0 0 (length (bc_strings p))] \<and>
    bc_strings p' = bc_strings p @ [Some name] \<and> length (bc_strings p) < 2 ^ 31"
  by (auto simp: pool_limit_def emit_named_def bc_add_string_def bc_emit_def code_grown_def bind_eq_Some_conv split: if_splits)

lemma patch_grown:
  "bc_patch i target p = Some p' \<Longrightarrow> code_grown q p \<Longrightarrow> length (bc_code q) \<le> i \<Longrightarrow> code_grown q p'"
  by (auto simp: bc_patch_def code_grown_def list_update_append split: if_splits)


section \<open>Successful compilations\<close>

inductive compiled :: "ussr_expression \<Rightarrow> nat \<Rightarrow> ussr_bc_program \<Rightarrow> ussr_bc_program \<Rightarrow> bool" where
  folded: "dst < 31 \<Longrightarrow> bc_fold e = Some v \<Longrightarrow> emit_constant v dst p = Some p' \<Longrightarrow> compiled e dst p p'"
| literal: "dst < 31 \<Longrightarrow> emit_constant v dst p = Some p' \<Longrightarrow> compiled (USSR_EXPR_VALUE v) dst p p'"
| variable: "dst < 31 \<Longrightarrow> emit_named USSR_BC_LOAD_VAR dst x p = Some p' \<Longrightarrow> compiled (USSR_EXPR_VARIABLE x) dst p p'"
| negated: "dst < 31 \<Longrightarrow> compiled e dst p p1 \<Longrightarrow> bc_emit USSR_BC_NEG dst dst 0 0 p1 = Some (i, p') \<Longrightarrow>
    compiled (USSR_EXPR_UNARY op e) dst p p'"
| short_circuit: "logical op \<Longrightarrow> compiled left dst p p1 \<Longrightarrow>
    bc_emit (if op = USSR_OP_LOGICAL_AND then USSR_BC_JMP_FALSE else USSR_BC_JMP_TRUE) dst 0 0 0 p1 = Some (jump, p2) \<Longrightarrow>
    compiled right dst p2 p3 \<Longrightarrow> bc_patch jump (length (bc_code p3)) p3 = Some p' \<Longrightarrow>
    compiled (USSR_EXPR_BINARY op left right) dst p p'"
| operated: "\<not> logical op \<Longrightarrow> dst + 2 < 31 \<Longrightarrow> compiled left (dst + 1) p p1 \<Longrightarrow> compiled right (dst + 2) p1 p2 \<Longrightarrow>
    bc_emit (bc_binary_opcode op) dst (dst + 1) (dst + 2) 0 p2 = Some (i, p') \<Longrightarrow>
    compiled (USSR_EXPR_BINARY op left right) dst p p'"

lemma compile_compiled:
  "bc_compile_expression_short e dst p = Some p' \<Longrightarrow> compiled e dst p p'"
  "bc_compile_expression e dst p = Some p' \<Longrightarrow> compiled e dst p p'"
proof (induction e dst p and e dst p arbitrary: p' and p' rule: bc_compile_expression_short_bc_compile_expression.induct)
  case (1 op left right dst p)
  show ?case
  proof (cases "logical op")
    case True
    then obtain p1 jump p2 p3 where
      c: "bc_compile_expression_short left dst p = Some p1"
        "bc_emit (if op = USSR_OP_LOGICAL_AND then USSR_BC_JMP_FALSE else USSR_BC_JMP_TRUE) dst 0 0 0 p1 = Some (jump, p2)"
        "bc_compile_expression_short right dst p2 = Some p3" "bc_patch jump (length (bc_code p3)) p3 = Some p'"
      using 1(4) True by (auto simp: bc_compile_expression_short.simps bind_eq_Some_conv split: prod.splits)
    show ?thesis by (rule short_circuit[OF True 1(1)[OF True c(1)] c(2) 1(2)[OF True c(1,2) refl c(3)] c(4)])
  next
    case False
    then show ?thesis using 1(3,4) by (simp add: bc_compile_expression_short.simps)
  qed
next
  case (3 e dst p)
  note c = 3(5)[unfolded bc_compile_expression.simps[of e dst p]]
  have d: "\<not> dst \<ge> USSR_BC_RETURN_REG" "dst < 31" using c by (auto simp: USSR_BC_RETURN_REG_def split: if_splits)
  show ?case
  proof (cases "if is_operation e then bc_fold e else None")
    case (Some v)
    then show ?thesis using c d folded[of dst e v p p'] by (auto split: if_splits)
  next
    case None
    note IH = 3(1-4)[OF d(1) None]
    from c d None have c: "(case e of USSR_EXPR_VALUE v \<Rightarrow> emit_constant v dst p
         | USSR_EXPR_VARIABLE name \<Rightarrow> emit_named USSR_BC_LOAD_VAR dst name p
         | USSR_EXPR_BINARY op left right \<Rightarrow>
             if dst + 2 \<ge> USSR_BC_RETURN_REG then None
             else if logical op then bc_compile_expression_short (USSR_EXPR_BINARY op left right) dst p
             else do { p \<leftarrow> bc_compile_expression left (dst + 1) p; p \<leftarrow> bc_compile_expression right (dst + 2) p;
               bc_emit_binary op dst (dst + 1) (dst + 2) p }
         | USSR_EXPR_UNARY op operand \<Rightarrow> do { p \<leftarrow> bc_compile_expression operand dst p;
             if op = USSR_OP_SUB then map_option snd (bc_emit USSR_BC_NEG dst dst 0 0 p) else None }) = Some p'"
      by (simp only: if_False option.case)
    show ?thesis
    proof (cases e)
      case (USSR_EXPR_UNARY op operand)
      from c obtain p1 i where p1: "bc_compile_expression operand dst p = Some p1"
        "bc_emit USSR_BC_NEG dst dst 0 0 p1 = Some (i, p')"
        unfolding USSR_EXPR_UNARY by (auto simp: bind_eq_Some_conv split: if_splits)
      show ?thesis unfolding USSR_EXPR_UNARY by (rule negated[OF d(2) IH(4)[OF USSR_EXPR_UNARY p1(1)] p1(2)])
    next
      case (USSR_EXPR_BINARY op left right)
      have r: "\<not> dst + 2 \<ge> USSR_BC_RETURN_REG" using c unfolding USSR_EXPR_BINARY by (auto split: if_splits)
      show ?thesis
      proof (cases "logical op")
        case True
        have "bc_compile_expression_short (USSR_EXPR_BINARY op left right) dst p = Some p'"
          using c r True unfolding USSR_EXPR_BINARY by simp
        then show ?thesis unfolding USSR_EXPR_BINARY by (rule IH(1)[OF USSR_EXPR_BINARY r True])
      next
        case False
        then obtain p1 p2 i where p1: "bc_compile_expression left (dst + 1) p = Some p1"
          "bc_compile_expression right (dst + 2) p1 = Some p2"
          "bc_emit (bc_binary_opcode op) dst (dst + 1) (dst + 2) 0 p2 = Some (i, p')"
          using c r unfolding USSR_EXPR_BINARY by (auto simp: bind_eq_Some_conv bc_emit_binary_def)
        have "dst + 2 < 31" using r by (simp add: USSR_BC_RETURN_REG_def)
        then show ?thesis unfolding USSR_EXPR_BINARY
          by (rule operated[OF False _ IH(2)[OF USSR_EXPR_BINARY r False p1(1)] IH(3)[OF USSR_EXPR_BINARY r False p1(1,2)] p1(3)])
      qed
    qed (use c d literal variable in auto)
  qed
qed (simp_all add: bc_compile_expression_short.simps)

lemma emit_grown1: "bc_emit opcode a b c imm p = Some (i, p') \<Longrightarrow> code_grown p p'"
  using bc_emit_grown by blast

lemma compiled_grown: "compiled e dst p p' \<Longrightarrow> code_grown p p'"
proof (induction rule: compiled.induct)
  case (folded dst e v p p')
  then show ?case using constant_grown by blast
next
  case (literal dst v p p')
  then show ?case using constant_grown by blast
next
  case (variable dst x p p')
  then show ?case using named_grown by blast
next
  case (negated dst e p p1 i p' op)
  show ?case by (rule code_grown_trans[OF negated(4) emit_grown1[OF negated(3)]])
next
  case (short_circuit op left dst p p1 jump p2 right p3 p')
  have "code_grown p p3" by (rule code_grown_trans[OF code_grown_trans[OF short_circuit(6) emit_grown1[OF short_circuit(3)]] short_circuit(7)])
  moreover have "length (bc_code p) \<le> jump" using short_circuit(6) bc_emit_grown[OF short_circuit(3)] by (auto simp: code_grown_def)
  ultimately show ?case by (rule patch_grown[OF short_circuit(5)])
next
  case (operated op dst left p p1 right p2 i p')
  show ?case by (rule code_grown_trans[OF code_grown_trans[OF operated(6,7)] emit_grown1[OF operated(5)]])
qed


section \<open>Running a piece of code\<close>

definition ready :: "ussr_bc_program \<Rightarrow> machine \<Rightarrow> bool" where
  "ready P m \<longleftrightarrow> m_running m \<and> length (m_registers m) = 32 \<and> scope_ok (m_scope m) \<and>
     m_steps m + length (bc_code P) \<le> USSR_VM_MAX_STEPS + m_ip m"

text \<open>Nothing is lost but the registers from \<open>dst\<close> on.\<close>

definition keeps :: "nat \<Rightarrow> machine \<Rightarrow> machine \<Rightarrow> bool" where
  "keeps dst m m' \<longleftrightarrow> (\<forall>r<dst. m_registers m' ! r = m_registers m ! r) \<and> env_of (m_scope m') = env_of (m_scope m) \<and>
     m_frames m' = m_frames m \<and> m_hash m' = m_hash m \<and> m_random m' = m_random m \<and> m_printed m' = m_printed m"

definition computes ::
  "64 word \<Rightarrow> host \<Rightarrow> ussr_bc_program \<Rightarrow> machine \<Rightarrow> nat \<Rightarrow> nat \<Rightarrow> (ussr_value \<times> heap) option \<Rightarrow> bool" where
  "computes x host P m n dst R \<longleftrightarrow>
     (case R of
        None \<Rightarrow> (\<exists>k. vm_steps x host P k m = None)
      | Some (v, h) \<Rightarrow> (\<exists>k m'. vm_steps x host P k m = Some m' \<and> ready P m' \<and> keeps dst m m' \<and> m_ip m' = n \<and>
          m_registers m' ! dst = v \<and> m_heap m' = h))"

declare vm_steps.simps [simp del]

lemma computesI_fail: "vm_steps x host P k m = None \<Longrightarrow> computes x host P m n d None"
  by (auto simp: computes_def)

lemma computesI: "vm_steps x host P k m = Some m' \<Longrightarrow> ready P m' \<Longrightarrow> keeps d m m' \<Longrightarrow> m_ip m' = n \<Longrightarrow>
    m_registers m' ! d = v \<Longrightarrow> m_heap m' = h \<Longrightarrow> computes x host P m n d (Some (v, h))"
  by (auto simp: computes_def)

abbreviation "advanced m \<equiv> m\<lparr>m_ip := m_ip m + 1, m_steps := m_steps m + 1\<rparr>"

lemma keeps_refl: "keeps d m m"
  by (simp add: keeps_def)

lemma keeps_trans: "keeps d m m1 \<Longrightarrow> keeps d1 m1 m2 \<Longrightarrow> d2 \<le> d \<Longrightarrow> d2 \<le> d1 \<Longrightarrow> keeps d2 m m2"
  by (simp add: keeps_def)

lemma ready_step:
  assumes "ready P m" "m_ip m < length (bc_code P)"
  shows "vm_steps x host P (Suc k) m =
    Option.bind (vm_instruction x host P (bc_code P ! m_ip m) (advanced m)) (vm_steps x host P k)"
  using assms by (simp add: ready_def vm_step_def vm_steps.simps)

lemma computes_step:
  assumes "ready P m" "m_ip m < length (bc_code P)"
    "vm_instruction x host P (bc_code P ! m_ip m) (advanced m) = Some m1" "keeps d m m1" "computes x host P m1 n d R"
  shows "computes x host P m n d R"
proof -
  have s: "vm_steps x host P (Suc k) m = vm_steps x host P k m1" for k using ready_step[OF assms(1,2)] assms(3) by simp
  show ?thesis
  proof (cases R)
    case None
    with assms(5) obtain k where "vm_steps x host P k m1 = None" by (auto simp: computes_def)
    with s[of k] None show ?thesis by (auto intro: computesI_fail)
  next
    case (Some vh)
    obtain v h where vh: "vh = (v, h)" by (cases vh)
    from assms(5) obtain k m' where "vm_steps x host P k m1 = Some m'" "ready P m'" "keeps d m1 m'" "m_ip m' = n"
      "m_registers m' ! d = v" "m_heap m' = h" by (auto simp: computes_def Some vh)
    then have "vm_steps x host P (Suc k) m = Some m'" "ready P m'" "keeps d m m'" "m_ip m' = n"
      "m_registers m' ! d = v" "m_heap m' = h" using s[of k] keeps_trans[OF assms(4)] by auto
    then show ?thesis unfolding Some vh by (rule computesI)
  qed
qed

lemma computes_bind:
  assumes "computes x host P m n d R"
    "\<And>m' v h. R = Some (v, h) \<Longrightarrow> ready P m' \<Longrightarrow> keeps d m m' \<Longrightarrow> m_ip m' = n \<Longrightarrow> m_registers m' ! d = v \<Longrightarrow> m_heap m' = h \<Longrightarrow>
      computes x host P m' n' d' (f v h)"
    "d' \<le> d"
  shows "computes x host P m n' d' (Option.bind R (\<lambda>(v, h). f v h))"
proof (cases R)
  case None
  then show ?thesis using assms(1) by (simp add: computes_def)
next
  case (Some vh)
  obtain v h where vh: "vh = (v, h)" by (cases vh)
  from assms(1) obtain k m1 where m1: "vm_steps x host P k m = Some m1" "ready P m1" "keeps d m m1" "m_ip m1 = n"
    "m_registers m1 ! d = v" "m_heap m1 = h" by (auto simp: computes_def Some vh)
  have c: "computes x host P m1 n' d' (f v h)" by (rule assms(2)[OF _ m1(2-)]) (simp add: Some vh)
  show ?thesis
  proof (cases "f v h")
    case None
    with c obtain j where "vm_steps x host P j m1 = None" by (auto simp: computes_def)
    then have "vm_steps x host P (k + j) m = None" by (simp add: vm_steps_add m1(1))
    then show ?thesis unfolding Some vh using None by (simp add: computesI_fail)
  next
    case (Some wh)
    obtain w h' where wh: "wh = (w, h')" by (cases wh)
    from c obtain j m2 where m2: "vm_steps x host P j m1 = Some m2" "ready P m2" "keeps d' m1 m2" "m_ip m2 = n'"
      "m_registers m2 ! d' = w" "m_heap m2 = h'" by (auto simp: computes_def Some wh)
    have "vm_steps x host P (k + j) m = Some m2" by (simp add: vm_steps_add m1(1) m2(1))
    moreover have "keeps d' m m2" by (rule keeps_trans[OF m1(3) m2(3) assms(3)]) simp
    ultimately have "computes x host P m n' d' (Some (w, h'))" by (rule computesI[OF _ m2(2) _ m2(4-6)])
    then show ?thesis unfolding \<open>R = Some vh\<close> vh using Some wh by simp
  qed
qed

lemma computes_done:
  "ready P m \<Longrightarrow> m_ip m = n \<Longrightarrow> m_registers m ! d = v \<Longrightarrow> m_heap m = h \<Longrightarrow> computes x host P m n d (Some (v, h))"
  by (rule computesI[of _ _ _ 0]) (simp_all add: keeps_refl vm_steps.simps)

lemma computes_one:
  assumes "ready P m" "m_ip m < length (bc_code P)" "d < 32" "scope_ok s" "env_of s = env_of (m_scope m)"
    "vm_instruction x host P (bc_code P ! m_ip m) (advanced m) =
       map_option (\<lambda>(v, h). put_register d v ((advanced m)\<lparr>m_scope := s, m_heap := h\<rparr>)) R"
  shows "computes x host P m (m_ip m + 1) d R"
proof (cases R)
  case None
  then have "vm_steps x host P (Suc 0) m = None" unfolding ready_step[OF assms(1,2)] assms(6) by simp
  then show ?thesis unfolding None by (rule computesI_fail)
next
  case (Some vh)
  obtain v h where vh: "vh = (v, h)" by (cases vh)
  let ?m = "put_register d v ((advanced m)\<lparr>m_scope := s, m_heap := h\<rparr>)"
  have "computes x host P ?m (m_ip m + 1) d (Some (v, h))"
    by (rule computes_done) (use assms in \<open>auto simp: ready_def put_register_def\<close>)
  moreover have "vm_instruction x host P (bc_code P ! m_ip m) (advanced m) = Some ?m" using assms(6) Some vh by simp
  moreover have "keeps d m ?m" using assms by (simp add: keeps_def put_register_def)
  ultimately show ?thesis unfolding Some vh by (metis computes_step[OF assms(1,2)])
qed

section \<open>The instructions of expressions\<close>

declare opcode_byte.simps [simp del]

lemma unat_byte: "a < 32 \<Longrightarrow> unat (word_of_nat a :: byte) = a"
  by (simp add: unat_of_nat)

lemma unat_index: "a < 2 ^ 32 \<Longrightarrow> unat (word_of_nat a :: 32 word) = a"
  by (simp add: unat_of_nat)

lemma binary_opcode_operates:
  assumes "a < 32" "b < 32" "c < 32"
  shows "vm_instruction x host P (instruction (bc_binary_opcode op) a b c 0) m = vm_operate (bc_binary_opcode op) a b c m"
  using assms by (cases op) (simp_all add: vm_instruction_def instruction_def unat_byte)

lemma load_const_runs:
  assumes "a < 32" "i < length (bc_constants P)" "i < 2 ^ 31"
  shows "vm_instruction x host P (instruction USSR_BC_LOAD_CONST a 0 0 i) m = Some (put_register a (bc_constants P ! i) m)"
  using assms by (simp add: vm_instruction_def instruction_def unat_byte unat_index vm_load_const_def USSR_BC_MAX_REGS_def)

lemma load_var_runs:
  assumes "a < 32" "i < length (bc_strings P)" "i < 2 ^ 31" "bc_strings P ! i = Some name" "scope_ok (m_scope m)"
  obtains s where "scope_ok s" "env_of s = env_of (m_scope m)"
    "vm_instruction x host P (instruction USSR_BC_LOAD_VAR a 0 0 i) m =
       Some (put_register a (null_if_absent (env_get name (env_of (m_scope m)))) (m\<lparr>m_scope := s\<rparr>))"
proof -
  obtain s where s: "ussr_get_variable True name (m_scope m) = Some (env_get name (env_of (m_scope m)), s)" "scope_ok s"
    "env_of s = env_of (m_scope m)" by (rule scope_get_ok[OF assms(5)])
  show ?thesis
    by (rule that[OF s(2,3)])
      (use assms s in \<open>simp add: vm_instruction_def instruction_def unat_byte unat_index vm_load_var_def USSR_BC_MAX_REGS_def
        vm_read_def ussr_get_variable_at_def\<close>)
qed

lemma negate_runs:
  assumes "a < 32"
  shows "vm_instruction x host P (instruction USSR_BC_NEG a a 0 0) m =
    map_option (\<lambda>v. put_register a v m) (vm_negate (m_registers m ! a))"
  using assms by (simp add: vm_instruction_def instruction_def unat_byte USSR_BC_MAX_REGS_def)

lemma jump_runs:
  assumes "a < 32" "target < length (bc_code P)" "target < 2 ^ 32" "opcode \<in> {USSR_BC_JMP_TRUE, USSR_BC_JMP_FALSE}"
  shows "vm_instruction x host P (instruction opcode a 0 0 target) m =
    Some (if vm_truthy (m_heap m) (m_registers m ! a) = (opcode = USSR_BC_JMP_TRUE) then m\<lparr>m_ip := target\<rparr> else m)"
  using assms by (auto simp: vm_instruction_def instruction_def unat_byte unat_index vm_jump_def USSR_BC_MAX_REGS_def)

section \<open>Compiled expressions\<close>

lemma holds_grown: "holds_from P n p' \<Longrightarrow> code_grown p p' \<Longrightarrow> n \<le> n' \<Longrightarrow> holds_from P n' p"
  unfolding holds_from_def code_grown_def by (fastforce simp: nth_append)

lemma holds_patched: "holds_from P n p' \<Longrightarrow> bc_patch j target p = Some p' \<Longrightarrow> j < n' \<Longrightarrow> n \<le> n' \<Longrightarrow> holds_from P n' p"
  by (auto simp: holds_from_def bc_patch_def split: if_splits)

lemma holds_last: "holds_from P n p' \<Longrightarrow> bc_code p' = bc_code p @ [ins] \<Longrightarrow> n \<le> length (bc_code p) \<Longrightarrow>
    bc_code P ! length (bc_code p) = ins \<and> length (bc_code p) < length (bc_code P)"
  by (auto simp: holds_from_def nth_append)

lemma constant_computes:
  assumes "emit_constant v dst p = Some p'" "holds_from P (length (bc_code p)) p'" "dst < 31" "ready P m" "m_ip m = length (bc_code p)"
  shows "computes x host P m (length (bc_code p')) dst (Some (v, m_heap m))"
proof -
  note c = conjunct2[OF constant_grown[OF assms(1)]]
  have i: "bc_code P ! m_ip m = instruction USSR_BC_LOAD_CONST dst 0 0 (length (bc_constants p))" "m_ip m < length (bc_code P)"
    using holds_last[OF assms(2) conjunct1[OF c]] assms(5) by auto
  have k: "length (bc_constants p) < length (bc_constants P)" "bc_constants P ! length (bc_constants p) = v"
    using c assms(2) by (auto simp: holds_from_def nth_append)
  have "vm_instruction x host P (bc_code P ! m_ip m) (advanced m) = Some (put_register dst v (advanced m))"
    unfolding i(1) using load_const_runs[OF _ k(1), of dst x host "advanced m"] assms(3) c k by simp
  then have "computes x host P m (m_ip m + 1) dst (Some (v, m_heap m))"
    by (intro computes_one[OF assms(4) i(2), of dst "m_scope m"]) (use assms(3,4) in \<open>simp_all add: ready_def\<close>)
  then show ?thesis using c assms(5) by simp
qed

lemma variable_computes:
  assumes "emit_named USSR_BC_LOAD_VAR dst name p = Some p'" "holds_from P (length (bc_code p)) p'" "dst < 31" "ready P m"
    "m_ip m = length (bc_code p)"
  shows "computes x host P m (length (bc_code p')) dst (Some (null_if_absent (env_get name (env_of (m_scope m))), m_heap m))"
proof -
  note c = conjunct2[OF named_grown[OF assms(1)]]
  have i: "bc_code P ! m_ip m = instruction USSR_BC_LOAD_VAR dst 0 0 (length (bc_strings p))" "m_ip m < length (bc_code P)"
    using holds_last[OF assms(2) conjunct1[OF c]] assms(5) by auto
  have k: "length (bc_strings p) < length (bc_strings P)" "bc_strings P ! length (bc_strings p) = Some name"
    using c assms(2) by (auto simp: holds_from_def nth_append)
  obtain s where s: "scope_ok s" "env_of s = env_of (m_scope m)"
    "vm_instruction x host P (bc_code P ! m_ip m) (advanced m) =
       Some (put_register dst (null_if_absent (env_get name (env_of (m_scope m)))) ((advanced m)\<lparr>m_scope := s\<rparr>))"
    unfolding i(1) by (rule load_var_runs[of dst _ P name "advanced m" x host]) (use assms k c in \<open>auto simp: ready_def\<close>)
  have "computes x host P m (m_ip m + 1) dst (Some (null_if_absent (env_get name (env_of (m_scope m))), m_heap m))"
    by (rule computes_one[OF assms(4) i(2) _ s(1,2)]) (use assms(3) s(3) in simp_all)
  then show ?thesis using c assms(5) by simp
qed

definition variables_of :: "machine \<Rightarrow> string \<Rightarrow> ussr_value" where
  "variables_of m name = null_if_absent (env_get name (env_of (m_scope m)))"

lemma keeps_variables: "keeps d m m' \<Longrightarrow> variables_of m' = variables_of m"
  by (simp add: keeps_def variables_of_def fun_eq_iff)

lemma ready_jump: "ready P m \<Longrightarrow> m_ip m < target \<Longrightarrow> ready P ((advanced m)\<lparr>m_ip := target\<rparr>)"
  by (auto simp: ready_def)

lemma jump_computes:
  assumes "ready P m" "m_ip m < target" "target < length (bc_code P)" "length (bc_code P) \<le> USSR_BC_MAX_CODE" "dst < 32"
    "opcode \<in> {USSR_BC_JMP_TRUE, USSR_BC_JMP_FALSE}" "bc_code P ! m_ip m = instruction opcode dst 0 0 target"
    "vm_truthy (m_heap m) (m_registers m ! dst) = (opcode = USSR_BC_JMP_TRUE) \<Longrightarrow>
       n = target \<and> R = Some (m_registers m ! dst, m_heap m)"
    "vm_truthy (m_heap m) (m_registers m ! dst) \<noteq> (opcode = USSR_BC_JMP_TRUE) \<Longrightarrow>
       computes x host P (advanced m) n dst R"
  shows "computes x host P m n dst R"
proof -
  have i: "vm_instruction x host P (bc_code P ! m_ip m) (advanced m) =
    Some (if vm_truthy (m_heap m) (m_registers m ! dst) = (opcode = USSR_BC_JMP_TRUE) then (advanced m)\<lparr>m_ip := target\<rparr> else advanced m)"
    unfolding assms(7) using jump_runs[OF assms(5,3) _ assms(6), of x host "advanced m"] assms(3,4)
    by (simp add: USSR_BC_MAX_CODE_def)
  show ?thesis
  proof (cases "vm_truthy (m_heap m) (m_registers m ! dst) = (opcode = USSR_BC_JMP_TRUE)")
    case True
    show ?thesis
      by (rule computes_step[OF assms(1) _ i]) (use True assms ready_jump[OF assms(1,2)] in \<open>auto simp: keeps_def intro!: computes_done\<close>)
  next
    case False
    show ?thesis by (rule computes_step[OF assms(1) _ i]) (use False assms in \<open>auto simp: keeps_def\<close>)
  qed
qed

lemma binary_computes:
  assumes "ready P m" "m_ip m < length (bc_code P)" "dst + 2 < 31"
    "bc_code P ! m_ip m = instruction (bc_binary_opcode op) dst (dst + 1) (dst + 2) 0"
  shows "computes x host P m (m_ip m + 1) dst
    (vm_binary (m_heap m) (bc_binary_opcode op) (m_registers m ! (dst + 1)) (m_registers m ! (dst + 2)))"
proof (rule computes_one[OF assms(1,2)])
  show "vm_instruction x host P (bc_code P ! m_ip m) (advanced m) = map_option
     (\<lambda>(v, h). put_register dst v ((advanced m)\<lparr>m_scope := m_scope m, m_heap := h\<rparr>))
     (vm_binary (m_heap m) (bc_binary_opcode op) (m_registers m ! (dst + 1)) (m_registers m ! (dst + 2)))"
    unfolding assms(4) using assms(3) by (subst binary_opcode_operates) (auto simp: operate_binary intro!: option.map_cong)
qed (use assms in \<open>auto simp: ready_def\<close>)

lemma emit_at: "holds_from P n p' \<Longrightarrow> bc_emit opcode a b c imm p = Some (i, p') \<Longrightarrow> n \<le> length (bc_code p) \<Longrightarrow>
    bc_code P ! length (bc_code p) = instruction opcode a b c imm \<and> length (bc_code p) < length (bc_code P) \<and>
    length (bc_code p') = length (bc_code p) + 1"
  using holds_last bc_emit_grown by (metis length_append_singleton Suc_eq_plus1)

lemma code_grown_longer: "code_grown p p' \<Longrightarrow> length (bc_code p) \<le> length (bc_code p')"
  by (auto simp: code_grown_def)

lemma compiled_computes:
  "compiled e dst p p' \<Longrightarrow> holds_from P (length (bc_code p)) p' \<Longrightarrow> ready P m \<Longrightarrow> m_ip m = length (bc_code p) \<Longrightarrow>
   computes x host P m (length (bc_code p')) dst (expr_value (variables_of m) e (m_heap m))"
proof (induction arbitrary: m rule: compiled.induct)
  case (folded dst e v p p')
  then show ?case by (simp add: fold_value[OF folded(2)] constant_computes)
next
  case (literal dst v p p')
  then show ?case by (simp add: constant_computes)
next
  case (variable dst name p p')
  then show ?case using variable_computes[OF variable(2,3,1,4,5)] by (simp add: variables_of_def)
next
  case (negated dst e p p1 i p' op)
  note e = emit_at[OF negated(5,3) code_grown_longer[OF compiled_grown[OF negated(2)]]]
  show ?case unfolding expr_value.simps
  proof (rule computes_bind[OF negated(4)[OF holds_grown[OF negated(5) emit_grown1[OF negated(3)] order_refl] negated(6,7)]])
    fix m1 v h
    assume m1: "ready P m1" "m_ip m1 = length (bc_code p1)" "m_registers m1 ! dst = v" "m_heap m1 = h"
    have "computes x host P m1 (m_ip m1 + 1) dst (map_option (\<lambda>v. (v, h)) (vm_negate v))"
      by (rule computes_one[of _ _ _ "m_scope m1"])
        (use m1 e negated(1) in \<open>auto simp: negate_runs ready_def option.map_comp comp_def intro!: option.map_cong\<close>)
    then show "computes x host P m1 (length (bc_code p')) dst (map_option (\<lambda>v. (v, h)) (vm_negate v))" using m1 e by simp
  qed simp
next
  case (short_circuit op left dst p p1 jump p2 right p3 p')
  let ?op = "if op = USSR_OP_LOGICAL_AND then USSR_BC_JMP_FALSE else USSR_BC_JMP_TRUE"
  let ?target = "length (bc_code p3)"
  note em = bc_emit_grown[OF short_circuit(3)]
  have j: "jump = length (bc_code p1)" "length (bc_code p2) = length (bc_code p1) + 1" using em by auto
  have g: "code_grown p1 p3" by (rule code_grown_trans[OF emit_grown1[OF short_circuit(3)] compiled_grown[OF short_circuit(4)]])
  have gp: "code_grown p1 p'" by (rule patch_grown[OF short_circuit(5) g]) (simp add: j)
  have len: "length (bc_code p') = ?target" "length (bc_code p2) \<le> ?target" "length (bc_code p) \<le> length (bc_code p1)"
    using short_circuit(5) code_grown_longer[OF compiled_grown[OF short_circuit(4)]] code_grown_longer[OF compiled_grown[OF short_circuit(2)]]
    by (auto simp: bc_patch_def split: if_splits)
  note hf = short_circuit(8)
  have h2: "holds_from P (length (bc_code p2)) p3" by (rule holds_patched[OF hf short_circuit(5)]) (use j len in simp_all)
  have "bc_code p3 ! jump = bc_code p2 ! jump" "jump < ?target" using compiled_grown[OF short_circuit(4)] j len by (auto simp: code_grown_def nth_append)
  then have c3: "bc_code p3 ! jump = instruction ?op dst 0 0 0" using em by (auto simp: nth_append)
  have cP: "bc_code P ! jump = instruction ?op dst 0 0 ?target"
  proof -
    have "bc_code P ! jump = bc_code p' ! jump" using hf j len by (simp add: holds_from_def)
    also have "\<dots> = (bc_code p3 ! jump)\<lparr>ins_immediate := word_of_nat ?target\<rparr>"
      using short_circuit(5) by (auto simp: bc_patch_def split: if_splits)
    finally show ?thesis by (simp add: c3 instruction_def)
  qed
  have lP: "?target < length (bc_code P)" "length (bc_code P) \<le> USSR_BC_MAX_CODE" using hf len by (auto simp: holds_from_def)
  have R: "expr_value (variables_of m) (USSR_EXPR_BINARY op left right) (m_heap m) =
      Option.bind (expr_value (variables_of m) left (m_heap m)) (\<lambda>(l, h).
        if vm_truthy h l = (op = USSR_OP_LOGICAL_AND) then expr_value (variables_of m) right h else Some (l, h))"
    using short_circuit(1) by simp
  show ?case unfolding R len(1)
  proof (rule computes_bind[OF short_circuit(6)[OF holds_grown[OF hf gp order_refl] short_circuit(9,10)]])
    fix m1 l h
    assume m1: "ready P m1" "keeps dst m m1" "m_ip m1 = length (bc_code p1)" "m_registers m1 ! dst = l" "m_heap m1 = h"
    have d: "dst < 32" using short_circuit(4) by (induction rule: compiled.induct) auto
    have step: "computes x host P (advanced m1) ?target dst (expr_value (variables_of (advanced m1)) right (m_heap (advanced m1)))"
      by (rule short_circuit(7)[OF h2]) (use m1 j in \<open>auto simp: ready_def\<close>)
    have "variables_of (advanced m1) = variables_of m" using keeps_variables[OF m1(2)] by (simp add: variables_of_def fun_eq_iff)
    with step m1 have step: "computes x host P (advanced m1) ?target dst (expr_value (variables_of m) right h)" by simp
    show "computes x host P m1 ?target dst
        (if vm_truthy h l = (op = USSR_OP_LOGICAL_AND) then expr_value (variables_of m) right h else Some (l, h))"
      by (rule jump_computes[OF m1(1) _ lP d _ cP[unfolded j(1) m1(3)[symmetric]]])
        (use m1 step j len short_circuit(1) in \<open>auto simp: logical_def split: if_splits\<close>)
  qed simp
next
  case (operated op dst left p p1 right p2 i p')
  note hf = operated(8)
  note len = code_grown_longer[OF compiled_grown[OF operated(3)]] code_grown_longer[OF compiled_grown[OF operated(4)]]
  note e = emit_at[OF hf operated(5) le_trans[OF len]]
  note g = emit_grown1[OF operated(5)] code_grown_trans[OF compiled_grown[OF operated(4)] emit_grown1[OF operated(5)]]
  have R: "expr_value (variables_of m) (USSR_EXPR_BINARY op left right) (m_heap m) =
      Option.bind (expr_value (variables_of m) left (m_heap m)) (\<lambda>(l, h).
        Option.bind (expr_value (variables_of m) right h) (\<lambda>(r, h). vm_binary h (bc_binary_opcode op) l r))"
    using operated(1) by simp
  show ?case unfolding R
  proof (rule computes_bind[OF operated(6)[OF holds_grown[OF hf g(2) order_refl] operated(9,10)]])
    fix m1 l h
    assume m1: "ready P m1" "keeps (dst + 1) m m1" "m_ip m1 = length (bc_code p1)" "m_registers m1 ! (dst + 1) = l" "m_heap m1 = h"
    have v: "variables_of m = variables_of m1" using keeps_variables[OF m1(2)] by simp
    have h1: "holds_from P (length (bc_code p1)) p2" by (rule holds_grown[OF hf g(1)]) (use len in simp)
    show "computes x host P m1 (length (bc_code p')) dst
        (Option.bind (expr_value (variables_of m) right h) (\<lambda>(r, h). vm_binary h (bc_binary_opcode op) l r))"
      unfolding v m1(5)[symmetric]
    proof (rule computes_bind[OF operated(7)[OF h1 m1(1,3)]])
      fix m2 r h'
      assume m2: "ready P m2" "keeps (dst + 2) m1 m2" "m_ip m2 = length (bc_code p2)" "m_registers m2 ! (dst + 2) = r" "m_heap m2 = h'"
      have "m_registers m2 ! (dst + 1) = l" using m2(2) m1(4) by (simp add: keeps_def)
      then show "computes x host P m2 (length (bc_code p')) dst (vm_binary h' (bc_binary_opcode op) l r)"
        using binary_computes[OF m2(1) _ operated(2), of op x host] e m2 by simp
    qed simp
  qed simp
qed

text \<open>
  C2: The code compiled for an expression computes the value of the expression. In a program that goes
  on behind it, the machine arrives behind this code with the value in the register asked for, and
  stops with an error exactly where the evaluation of the expression, left to right with the operators
  of the machine and short circuits of \<open>&&\<close> and \<open>||\<close>, is undefined. Registers below, the variables,
  the frames, the shared table, the generator and the output are as before. The short circuits are the code's
  (\<open>bc_compile_expression_short\<close>) and those of \<open>OPTIMIZATIONS.md\<close>; the user manual, \<open>USSR_VM_SPEC.md\<close> and
  \<open>USSR_BYTECODE_ARCHITECTURE.md\<close> still say that both operands are always evaluated.
\<close>

theorem compiled_expressions_mean:
  assumes "bc_compile_expression e dst p = Some p'" "rest \<noteq> []"
    "P = p'\<lparr>bc_code := bc_code p' @ rest\<rparr>" "length (bc_code P) \<le> USSR_BC_MAX_CODE"
    "m_running m" "length (m_registers m) = USSR_BC_MAX_REGS" "scope_reachable (m_scope m)"
    "m_ip m = length (bc_code p)" "m_steps m + length (bc_code P) \<le> USSR_VM_MAX_STEPS"
  shows "case expr_value (variables_of m) e (m_heap m) of
      None \<Rightarrow> (\<exists>k. vm_steps x host P k m = None)
    | Some (v, h) \<Rightarrow> (\<exists>k m'. vm_steps x host P k m = Some m' \<and> m_running m' \<and> m_ip m' = length (bc_code p') \<and>
        m_registers m' ! dst = v \<and> m_heap m' = h \<and> keeps dst m m')"
proof -
  have "holds_from P (length (bc_code p)) p'" using assms(2-4) by (auto simp: holds_from_def nth_append)
  moreover have "ready P m"
    using assms(5-) reachable_scope_ok by (simp add: ready_def USSR_BC_MAX_REGS_def)
  ultimately have "computes x host P m (length (bc_code p')) dst (expr_value (variables_of m) e (m_heap m))"
    using compiled_computes[OF compile_compiled(2)[OF assms(1)]] assms(8) by blast
  then show ?thesis by (auto simp: computes_def ready_def split: option.splits prod.splits)
qed

definition fresh_machine :: machine where
  "fresh_machine = \<lparr>m_registers = no_registers, m_ip = 0, m_running = True, m_steps = 0, m_frames = [], m_scope = ussr_scope_create,
     m_hash = Map.empty, m_heap = no_heap, m_random = seed_xrp32 0, m_printed = []\<rparr>"

text \<open>\<open>a || 2 * 3\<close>, with \<open>a\<close> not set.\<close>

definition sample_expression :: ussr_expression where
  "sample_expression = USSR_EXPR_BINARY USSR_OP_LOGICAL_OR (USSR_EXPR_VARIABLE ''a'')
     (USSR_EXPR_BINARY USSR_OP_MUL (USSR_EXPR_VALUE (USSR_INTEGER 2)) (USSR_EXPR_VALUE (USSR_INTEGER 3)))"

definition sample_code :: "ussr_bc_instruction list" where
  "sample_code = [instruction USSR_BC_LOAD_VAR 0 0 0 0, instruction USSR_BC_JMP_TRUE 0 0 0 3, instruction USSR_BC_LOAD_CONST 0 0 0 0]"

lemma sample_compiles: "bc_compile_expression sample_expression 0 no_program =
    Some (no_program\<lparr>bc_code := sample_code, bc_strings := [Some ''a''], bc_constants := [USSR_INTEGER 6]\<rparr>)"
  by (simp add: sample_expression_def sample_code_def no_program_def instruction_def bc_compile_expression.simps
    bc_compile_expression_short.simps USSR_BC_RETURN_REG_def logical_def emit_named_def emit_constant_def bc_add_string_def
    bc_add_constant_def pool_limit_def bc_emit_def USSR_BC_MAX_CODE_def bc_patch_def vm_fold_binary_def vm_switch_def vm_arith_def
    int_arith_def ussr_int_mul_def shift_outside_def vm_binary_def)

theorem compiled_expressions_mean_witness:
  "\<exists>k m'. vm_steps 0 (\<lambda>_ _ _. None)
      (no_program\<lparr>bc_code := sample_code @ [instruction USSR_BC_HALT 0 0 0 0], bc_strings := [Some ''a''], bc_constants := [USSR_INTEGER 6]\<rparr>)
      k fresh_machine = Some m' \<and> m_ip m' = length sample_code \<and> m_registers m' ! 0 = USSR_INTEGER 6"
proof -
  let ?P = "no_program\<lparr>bc_code := sample_code @ [instruction USSR_BC_HALT 0 0 0 0], bc_strings := [Some ''a''],
    bc_constants := [USSR_INTEGER 6]\<rparr>"
  have v: "expr_value (variables_of fresh_machine) sample_expression (m_heap fresh_machine) = Some (USSR_INTEGER 6, no_heap)"
    by (simp add: sample_expression_def fresh_machine_def variables_of_def env_of_def ussr_scope_create_def null_if_absent_def
      logical_def vm_truthy_def vm_binary_def vm_switch_def vm_arith_def int_arith_def ussr_int_mul_def)
  show ?thesis
    using compiled_expressions_mean[OF sample_compiles, of "[instruction USSR_BC_HALT 0 0 0 0]" ?P fresh_machine 0 "\<lambda>_ _ _. None",
      unfolded v]
    by (auto simp: sample_code_def no_program_def fresh_machine_def no_registers_def USSR_BC_MAX_REGS_def USSR_BC_MAX_CODE_def
      USSR_VM_MAX_STEPS_def created)
qed

end
