(* ===== verification/CompileSound.thy ===== *)
theory CompileSound
  imports CompileProgram CompileExprProps RuRead
begin

text \<open>
  Whatever the source, the instructions the compiler emits have valid operands: known opcodes, jumps
  to instructions of the program, constants, strings and functions that exist, sites at their
  instructions. These are the checks of the \<open>.ru\<close> loader, \<open>operand_error\<close>.
\<close>

declare opcode_byte.simps [simp del]

section \<open>Programs under construction\<close>

text \<open>A jump may lead right behind the last instruction as long as the program grows.\<close>

definition sound_at :: "nat \<Rightarrow> nat \<Rightarrow> string option list \<Rightarrow> nat \<Rightarrow> ussr_bc_instruction \<Rightarrow> bool" where
  "sound_at n k strings fns ins \<longleftrightarrow>
     opcode_of_byte (ins_opcode ins) \<noteq> None \<and> operand_error (Suc n) k strings fns ins = None"

definition is_jump :: "ussr_bc_program \<Rightarrow> nat \<Rightarrow> bool" where
  "is_jump p i \<longleftrightarrow> i < length (bc_code p) \<and>
     opcode_of_byte (ins_opcode (bc_code p ! i)) \<in> {Some USSR_BC_JMP, Some USSR_BC_JMP_TRUE, Some USSR_BC_JMP_FALSE}"

definition sites_fit :: "ussr_bc_program \<Rightarrow> bool" where
  "sites_fit p \<longleftrightarrow> list_all (site_fits (bc_code p) USSR_BC_OOP) (bc_oop_sites p) \<and>
     list_all (site_fits (bc_code p) USSR_BC_SCAN) (bc_scan_sites p)"

text \<open>\<open>J\<close> are jumps still to be patched, \<open>T\<close> places to jump to.\<close>

definition ok :: "nat set \<Rightarrow> nat set \<Rightarrow> ussr_bc_function list \<Rightarrow> ussr_bc_program \<Rightarrow> bool" where
  "ok J T F p \<longleftrightarrow>
     (\<forall>ins\<in>set (bc_code p). sound_at (length (bc_code p)) (length (bc_constants p)) (bc_strings p) (length F) ins) \<and>
     (\<forall>i\<in>J. is_jump p i) \<and> (\<forall>t\<in>T. t \<le> length (bc_code p)) \<and> bc_functions p = F \<and>
     length (bc_code p) \<le> USSR_BC_MAX_CODE \<and> sites_fit p"

lemma ok_mono: "ok J T F p \<Longrightarrow> J' \<subseteq> J \<Longrightarrow> T' \<subseteq> T \<Longrightarrow> ok J' T' F p"
  by (auto simp: ok_def)

lemma ok_here: "ok J T F p \<Longrightarrow> ok J (insert (length (bc_code p)) T) F p"
  by (simp add: ok_def)

lemma sound_at_mono:
  "sound_at n k strings fns ins \<Longrightarrow> n \<le> n' \<Longrightarrow> k \<le> k' \<Longrightarrow> sound_at n' k' (strings @ ss) fns ins"
  by (auto simp: sound_at_def operand_error_def Let_def nth_append split: option.splits ussr_bc_opcode.splits if_splits)

lemma sound_jump:
  "opcode \<in> {USSR_BC_JMP, USSR_BC_JMP_TRUE, USSR_BC_JMP_FALSE} \<Longrightarrow> imm \<le> n \<Longrightarrow> imm < 2 ^ 32 \<Longrightarrow>
   sound_at n k strings fns (instruction opcode a b c imm)"
  by (auto simp: sound_at_def operand_error_def Let_def instruction_def unat_index)

lemma sound_constant: "i < k \<Longrightarrow> i < 2 ^ 32 \<Longrightarrow> sound_at n k strings fns (instruction USSR_BC_LOAD_CONST a b c i)"
  by (simp add: sound_at_def operand_error_def Let_def instruction_def unat_index)

text \<open>An index that does not fit the immediate is cut off, and names a function all the same.\<close>

lemma sound_call: "i < fns \<Longrightarrow> sound_at n k strings fns (instruction USSR_BC_CALL a b c i)"
  by (simp add: sound_at_def operand_error_def Let_def instruction_def unat_of_nat le_less_trans[OF mod_less_eq_dividend])

text \<open>The instructions that name a string, and those without a checked operand.\<close>

lemma sound_named:
  "i < length strings \<Longrightarrow> i < 2 ^ 32 \<Longrightarrow> strings ! i \<noteq> None \<Longrightarrow> opcode \<notin> {USSR_BC_JMP, USSR_BC_JMP_TRUE, USSR_BC_JMP_FALSE,
     USSR_BC_LOAD_CONST, USSR_BC_CALL, USSR_BC_LOAD_VAR, USSR_BC_STORE_VAR} \<or> b = 0 \<and> opcode \<in> {USSR_BC_LOAD_VAR, USSR_BC_STORE_VAR} \<Longrightarrow>
   sound_at n k strings fns (instruction opcode a b c i)"
  by (cases opcode) (auto simp: sound_at_def operand_error_def Let_def instruction_def unat_index)

definition free_operand :: "ussr_bc_opcode \<Rightarrow> bool" where
  "free_operand opcode \<longleftrightarrow> opcode \<notin> {USSR_BC_JMP, USSR_BC_JMP_TRUE, USSR_BC_JMP_FALSE, USSR_BC_LOAD_CONST, USSR_BC_CALL,
     USSR_BC_LOAD_VAR, USSR_BC_STORE_VAR, USSR_BC_LOAD_HASH, USSR_BC_STORE_HASH, USSR_BC_DECODE_UNO, USSR_BC_OOP, USSR_BC_SCAN,
     USSR_BC_EXTERNAL}"

lemma sound_free: "free_operand opcode \<Longrightarrow> sound_at n k strings fns (instruction opcode a b c i)"
  by (cases opcode) (auto simp: sound_at_def operand_error_def Let_def instruction_def free_operand_def)

section \<open>Emitting\<close>

lemma ok_emit:
  assumes "ok J T F p" "bc_emit opcode a b c imm p = Some (i, p')"
    "sound_at (length (bc_code p)) (length (bc_constants p)) (bc_strings p) (length F) (instruction opcode a b c imm)"
  shows "ok J T F p'"
proof -
  have p': "p' = p\<lparr>bc_code := bc_code p @ [instruction opcode a b c imm]\<rparr>" "length (bc_code p) < USSR_BC_MAX_CODE"
    using assms(2) by (auto simp: bc_emit_def split: if_splits)
  have s: "sound_at (Suc (length (bc_code p))) (length (bc_constants p)) (bc_strings p) (length F) ins"
    if "sound_at (length (bc_code p)) (length (bc_constants p)) (bc_strings p) (length F) ins" for ins
    using sound_at_mono[OF that, of "Suc (length (bc_code p))" "length (bc_constants p)" "[]"] by simp
  have "site_fits (bc_code p @ xs) q x" if "site_fits (bc_code p) q x" for xs q x
    using that by (auto simp: site_fits_def nth_append)
  then have "sites_fit p'" using assms(1) by (auto simp: ok_def sites_fit_def p' list_all_iff)
  then show ?thesis using assms(1,3) s p'(2) by (auto simp: ok_def p'(1) is_jump_def nth_append)
qed

lemma ok_emit_jump:
  assumes "ok J T F p" "bc_emit opcode a b c imm p = Some (i, p')" "imm \<in> insert 0 T"
    "opcode \<in> {USSR_BC_JMP, USSR_BC_JMP_TRUE, USSR_BC_JMP_FALSE}"
  shows "ok (insert i J) T F p'"
proof -
  have "imm \<le> length (bc_code p)" "length (bc_code p) \<le> USSR_BC_MAX_CODE" using assms(1,3) by (auto simp: ok_def)
  then have "ok J T F p'" by (intro ok_emit[OF assms(1,2)] sound_jump[OF assms(4)]) (auto simp: USSR_BC_MAX_CODE_def)
  moreover have "is_jump p' i" using assms(2,4) by (auto simp: bc_emit_def is_jump_def instruction_def nth_append split: if_splits)
  ultimately show ?thesis by (simp add: ok_def)
qed

lemma ok_emit_only: "ok J T F p \<Longrightarrow> emit_only opcode a b c imm p = Some p' \<Longrightarrow> free_operand opcode \<Longrightarrow> ok J T F p'"
  by (auto simp: emit_only_def intro: ok_emit sound_free)

lemma ok_loop_back: "ok J T F p \<Longrightarrow> emit_only USSR_BC_JMP 0 0 0 t p = Some p' \<Longrightarrow> t \<in> T \<Longrightarrow> ok J T F p'"
  unfolding emit_only_def by (auto dest: ok_emit_jump intro: ok_mono)

lemma ok_patch:
  assumes "ok J T F p" "bc_patch i t p = Some p'" "i \<in> J" "t \<in> T"
  shows "ok J T F p'"
proof -
  have p': "p' = p\<lparr>bc_code := (bc_code p)[i := (bc_code p ! i)\<lparr>ins_immediate := word_of_nat t\<rparr>]\<rparr>" "i < length (bc_code p)" "t < 2 ^ 32"
    using assms(2) by (auto simp: bc_patch_def split: if_splits)
  have j: "is_jump p i" "t \<le> length (bc_code p)" using assms by (auto simp: ok_def)
  then have "sound_at (length (bc_code p)) (length (bc_constants p)) (bc_strings p) (length F) ((bc_code p ! i)\<lparr>ins_immediate := word_of_nat t\<rparr>)"
    using p'(3) by (auto simp: sound_at_def operand_error_def Let_def is_jump_def unat_index)
  moreover have "site_fits ((bc_code p)[i := (bc_code p ! i)\<lparr>ins_immediate := word_of_nat t\<rparr>]) q x" if "site_fits (bc_code p) q x" for q x
    using that by (cases "unat (site_instruction x) = i") (auto simp: site_fits_def)
  ultimately show ?thesis using assms(1)
    by (auto simp: ok_def p' is_jump_def nth_list_update sites_fit_def list_all_iff dest!: set_update_subset_insert[THEN subsetD])
qed

lemma ok_patch_here: "ok J T F p \<Longrightarrow> bc_patch i (length (bc_code p)) p = Some p' \<Longrightarrow> i \<in> J \<Longrightarrow> ok J T F p'"
  using ok_patch[OF ok_here] ok_mono by blast

lemma ok_patch_all: "ok J T F p \<Longrightarrow> bc_patch_all is t p = Some p' \<Longrightarrow> set is \<subseteq> J \<Longrightarrow> t \<in> T \<Longrightarrow> ok J T F p'"
  by (induction "is" arbitrary: p) (auto simp: bind_eq_Some_conv dest: ok_patch)

lemma ok_patch_all_here: "ok J T F p \<Longrightarrow> bc_patch_all is (length (bc_code p)) p = Some p' \<Longrightarrow> set is \<subseteq> J \<Longrightarrow> ok J T F p'"
  using ok_patch_all[OF ok_here] ok_mono by blast

section \<open>Pools\<close>

lemma ok_add_constant:
  assumes "ok J T F p" "bc_add_constant v p = Some (i, p')"
  shows "ok J T F p' \<and> i < length (bc_constants p') \<and> i < 2 ^ 31"
proof -
  have p': "p' = p\<lparr>bc_constants := bc_constants p @ [v]\<rparr>" "i = length (bc_constants p)" "i < 2 ^ 31"
    using assms(2) by (auto simp: bc_add_constant_def pool_limit_def split: if_splits)
  have "sound_at n (Suc k) s f ins" if "sound_at n k s f ins" for n k s f ins
    using sound_at_mono[OF that, of n "Suc k" "[]"] by simp
  then show ?thesis using assms(1) p' by (auto simp: ok_def is_jump_def sites_fit_def)
qed

lemma ok_add_string:
  assumes "ok J T F p" "bc_add_string s p = Some (i, p')"
  shows "ok J T F p' \<and> i < length (bc_strings p') \<and> i < 2 ^ 31 \<and> bc_strings p' ! i \<noteq> None \<and> bc_code p' = bc_code p \<and>
    (\<exists>ss. bc_strings p' = bc_strings p @ ss)"
proof -
  have p': "p' = p\<lparr>bc_strings := bc_strings p @ [Some s]\<rparr>" "i = length (bc_strings p)" "i < 2 ^ 31"
    using assms(2) by (auto simp: bc_add_string_def pool_limit_def split: if_splits)
  have "sound_at n k (strings @ [Some s]) f ins" if "sound_at n k strings f ins" for n k strings f ins
    by (rule sound_at_mono[OF that]) simp_all
  then show ?thesis using assms(1) p' by (auto simp: ok_def is_jump_def sites_fit_def)
qed

lemma ok_emit_constant:
  assumes "ok J T F p" "emit_constant v dst p = Some p'"
  shows "ok J T F p'"
proof -
  from assms(2) obtain i p1 j where c: "bc_add_constant v p = Some (i, p1)" "bc_emit USSR_BC_LOAD_CONST dst 0 0 i p1 = Some (j, p')"
    by (auto simp: emit_constant_def bind_eq_Some_conv)
  show ?thesis using ok_add_constant[OF assms(1) c(1)] by (auto intro!: ok_emit[OF _ c(2)] sound_constant)
qed

text \<open>An instruction may name any string that has been in the pool since.\<close>

definition naming :: "ussr_bc_opcode \<Rightarrow> bool" where
  "naming opcode \<longleftrightarrow> free_operand opcode \<or> opcode \<in> {USSR_BC_LOAD_VAR, USSR_BC_STORE_VAR, USSR_BC_LOAD_HASH, USSR_BC_STORE_HASH,
     USSR_BC_DECODE_UNO, USSR_BC_OOP, USSR_BC_SCAN}"

definition named_string :: "nat \<Rightarrow> ussr_bc_program \<Rightarrow> bool" where
  "named_string i p \<longleftrightarrow> i < length (bc_strings p) \<and> i < 2 ^ 31 \<and> bc_strings p ! i \<noteq> None"

lemma ok_emit_naming:
  assumes "ok J T F p" "bc_emit opcode a b c i p = Some (j, p')" "named_string i p" "naming opcode"
    "b = 0 \<or> opcode \<notin> {USSR_BC_LOAD_VAR, USSR_BC_STORE_VAR}"
  shows "ok J T F p'"
proof (rule ok_emit[OF assms(1,2)], cases "free_operand opcode")
  case False
  with assms(3-) show "sound_at (length (bc_code p)) (length (bc_constants p)) (bc_strings p) (length F) (instruction opcode a b c i)"
    by (intro sound_named) (auto simp: naming_def named_string_def)
qed (rule sound_free)

lemma ok_named:
  assumes "ok J T F p" "emit_named opcode reg name p = Some p'" "naming opcode"
  shows "ok J T F p'"
proof -
  from assms(2) obtain i p1 j where c: "bc_add_string name p = Some (i, p1)" "bc_emit opcode reg 0 0 i p1 = Some (j, p')"
    by (auto simp: emit_named_def bind_eq_Some_conv)
  show ?thesis by (rule ok_emit_naming[OF _ c(2)]) (use ok_add_string[OF assms(1) c(1)] assms(3) in \<open>auto simp: named_string_def\<close>)
qed

section \<open>Expressions and arguments\<close>

lemma ok_compiled: "compiled e dst p p' \<Longrightarrow> ok J T F p \<Longrightarrow> ok J T F p'"
proof (induction arbitrary: J T rule: compiled.induct)
  case (negated dst e p p1 i p' op)
  show ?case by (rule ok_emit[OF negated(4)[OF negated(5)] negated(3)]) (simp add: sound_free free_operand_def)
next
  case (short_circuit op left dst p p1 jump p2 right p3 p')
  have "ok (insert jump J) T F p2"
    by (rule ok_emit_jump[OF short_circuit(6)[OF short_circuit(8)] short_circuit(3)]) simp_all
  from ok_patch_here[OF short_circuit(7)[OF this] short_circuit(5)] show ?case by (auto elim: ok_mono)
next
  case (operated op dst left p p1 right p2 i p')
  show ?case by (rule ok_emit[OF operated(7)[OF operated(6)[OF operated(8)]] operated(5)]) (cases op; simp add: sound_free free_operand_def)
qed (auto intro: ok_emit_constant ok_named simp: naming_def)

lemma ok_compile_argument: "ok J T F p \<Longrightarrow> bc_compile_argument a dst p = Some p' \<Longrightarrow> ok J T F p'"
  by (auto simp: bc_compile_argument_def naming_def split: if_splits ussr_argument.splits ussr_expression.splits
    intro: ok_emit_constant ok_named ok_compiled[OF compile_compiled(1)])

lemma ok_arguments: "ok J T F p \<Longrightarrow> compile_arguments as dst p = Some p' \<Longrightarrow> ok J T F p'"
  by (induction as arbitrary: dst p) (auto simp: bind_eq_Some_conv dest: ok_compile_argument)

lemma ok_values: "ok J T F p \<Longrightarrow> compile_values as dst p = Some p' \<Longrightarrow> ok J T F p'"
  by (induction as arbitrary: dst p) (auto simp: bind_eq_Some_conv split: if_splits dest: ok_compile_argument)

lemma ok_store_result: "ok J T F p \<Longrightarrow> bc_store_result name reg hash p = Some p' \<Longrightarrow> ok J T F p'"
  by (auto simp: bc_store_result_def bind_eq_Some_conv naming_def intro: ok_named)

lemma ok_store_status: "ok J T F p \<Longrightarrow> store_status name b p = Some p' \<Longrightarrow> ok J T F p'"
  by (auto simp: store_status_def bc_store_boolean_def bind_eq_Some_conv split: option.splits dest: ok_emit_constant ok_store_result)

text \<open>The same for a step that may fail.\<close>

definition gives :: "nat set \<Rightarrow> nat set \<Rightarrow> ussr_bc_function list \<Rightarrow> ussr_bc_program option \<Rightarrow> bool" where
  "gives J T F r \<longleftrightarrow> (\<forall>p. r = Some p \<longrightarrow> ok J T F p)"

lemma gives_bind: "gives J T F r \<Longrightarrow> (\<And>p. ok J T F p \<Longrightarrow> gives J T F (f p)) \<Longrightarrow> gives J T F (Option.bind r f)"
  by (cases r) (simp_all add: gives_def)

lemma gives_None: "gives J T F None"
  by (simp add: gives_def)

lemma gives_Some: "ok J T F p \<Longrightarrow> gives J T F (Some p)"
  by (simp add: gives_def)

lemma givesI: "(\<And>p. r = Some p \<Longrightarrow> ok J T F p) \<Longrightarrow> gives J T F r"
  by (simp add: gives_def)

lemma givesD: "gives J T F r \<Longrightarrow> r = Some p \<Longrightarrow> ok J T F p"
  by (simp add: gives_def)

lemma gives_argument: "ok J T F p \<Longrightarrow> gives J T F (bc_compile_argument a dst p)"
  by (rule givesI) (rule ok_compile_argument)

lemma gives_arguments: "ok J T F p \<Longrightarrow> gives J T F (compile_arguments as dst p)"
  by (rule givesI) (rule ok_arguments)

lemma gives_values: "ok J T F p \<Longrightarrow> gives J T F (compile_values as dst p)"
  by (rule givesI) (rule ok_values)

lemma gives_store: "ok J T F p \<Longrightarrow> gives J T F (bc_store_result name reg hash p)"
  by (rule givesI) (rule ok_store_result)

lemma gives_emit: "ok J T F p \<Longrightarrow> free_operand opcode \<Longrightarrow> gives J T F (emit_only opcode a b c imm p)"
  by (rule givesI) (rule ok_emit_only)

lemma gives_named: "ok J T F p \<Longrightarrow> naming opcode \<Longrightarrow> gives J T F (emit_named opcode reg name p)"
  by (rule givesI) (rule ok_named)

lemmas gives_rules = gives_bind gives_None gives_Some gives_argument gives_arguments gives_values gives_store gives_emit gives_named

section \<open>Commands\<close>

lemma named_string_kept: "named_string i p \<Longrightarrow> \<exists>ss. bc_strings p' = bc_strings p @ ss \<Longrightarrow> named_string i p'"
  by (auto simp: named_string_def nth_append)

lemma compiled_strings: "compiled e dst p p' \<Longrightarrow> \<exists>ss. bc_strings p' = bc_strings p @ ss"
  using compiled_grown by (auto simp: code_grown_def)

lemma argument_strings:
  assumes "bc_compile_argument a dst p = Some p'"
  shows "\<exists>ss. bc_strings p' = bc_strings p @ ss"
proof -
  have "code_grown p p'" using assms constant_grown named_grown compiled_grown[OF compile_compiled(1)]
    by (fastforce simp: bc_compile_argument_def split: if_splits ussr_argument.splits ussr_expression.splits)
  then show ?thesis by (auto simp: code_grown_def)
qed

lemma emit_only_strings: "emit_only opcode a b c imm p = Some p' \<Longrightarrow> bc_strings p' = bc_strings p"
  by (auto simp: emit_only_def bc_emit_def split: if_splits)

lemma ok_emit_name:
  "ok J T F p \<Longrightarrow> emit_only opcode a 0 c i p = Some p' \<Longrightarrow> named_string i p \<Longrightarrow> naming opcode \<Longrightarrow> ok J T F p'"
  unfolding emit_only_def by (auto dest: ok_emit_naming)

lemma gives_return: "ok J T F p \<Longrightarrow> gives J T F (compile_return result c p)"
  by (auto simp: compile_return_def free_operand_def intro!: gives_rules split: option.split list.split)

lemma function_from_bound: "function_from i name fs = Some k \<Longrightarrow> i \<le> k \<and> k < i + length fs \<and> Some (fn_name (fs ! (k - i))) = name"
proof (induction i name fs rule: function_from.induct)
  case (2 i name f fs)
  show ?case
  proof (cases "Some (fn_name f) = name")
    case False
    then have "i + 1 \<le> k \<and> k < i + 1 + length fs \<and> Some (fn_name (fs ! (k - (i + 1)))) = name" using 2 by simp
    then show ?thesis by (auto simp: nth_Cons split: nat.splits) (metis Suc_diff_Suc Suc_le_eq diff_Suc_1)
  qed (use 2 in auto)
qed simp

lemma find_function_bound: "bc_find_function name p = Some f \<Longrightarrow> f < length (bc_functions p)"
  unfolding bc_find_function_def using function_from_bound by fastforce

lemma ok_call:
  assumes "ok J T F p" "compile_call f c p = Some p'" "f < length F"
  shows "ok J T F p'"
proof -
  let ?as = "cmd_arguments c"
  from assms(2) obtain p1 p2 where c: "compile_arguments ?as 0 p = Some p1"
    "emit_only USSR_BC_CALL 0 (length ?as) USSR_BC_RETURN_REG f p1 = Some p2"
    "bc_store_result (cmd_return_name c) USSR_BC_RETURN_REG False p2 = Some p'"
    by (auto simp: compile_call_def bind_eq_Some_conv split: if_splits)
  from c(2) obtain i where e: "bc_emit USSR_BC_CALL 0 (length ?as) USSR_BC_RETURN_REG f p1 = Some (i, p2)" by (auto simp: emit_only_def)
  have "ok J T F p2" by (rule ok_emit[OF ok_arguments[OF assms(1) c(1)] e]) (use assms(3) in \<open>auto intro: sound_call\<close>)
  then show ?thesis by (rule ok_store_result[OF _ c(3)])
qed

lemma gives_unary: "ok J T F p \<Longrightarrow> free_operand opcode \<Longrightarrow> gives J T F (compile_unary opcode c p)"
  by (auto simp: compile_unary_def free_operand_def naming_def intro!: gives_rules split: option.split list.split)

lemma gives_arithmetic: "ok J T F p \<Longrightarrow> free_operand opcode \<Longrightarrow> gives J T F (compile_arithmetic opcode c p)"
  by (auto simp: compile_arithmetic_def free_operand_def naming_def intro!: gives_rules split: option.split list.split)

lemma gives_concat: "ok J T F p \<Longrightarrow> gives J T F (compile_concat c p)"
  by (auto simp: compile_concat_def free_operand_def naming_def intro!: gives_rules split: option.split list.split)

lemma gives_nullary: "ok J T F p \<Longrightarrow> free_operand opcode \<Longrightarrow> gives J T F (compile_nullary opcode reg c p)"
  by (auto simp: compile_nullary_def free_operand_def naming_def intro!: gives_rules split: option.split list.split)

lemma gives_seed: "ok J T F p \<Longrightarrow> gives J T F (compile_seed c p)"
  by (auto simp: compile_seed_def free_operand_def naming_def intro!: gives_rules split: option.split list.split)

lemma gives_set: "ok J T F p \<Longrightarrow> gives J T F (compile_set c p)"
  by (auto simp: compile_set_def free_operand_def naming_def intro!: gives_rules split: option.split list.split)

lemma gives_eval: "ok J T F p \<Longrightarrow> gives J T F (compile_eval_command c p)"
  by (auto simp: compile_eval_command_def free_operand_def naming_def intro!: gives_rules split: option.split list.split)

lemma added_string: "ok J T F p \<Longrightarrow> bc_add_string s p = Some (i, p') \<Longrightarrow> ok J T F p' \<and> named_string i p' \<and> (\<exists>ss. bc_strings p' = bc_strings p @ ss)"
  using ok_add_string by (auto simp: named_string_def)

lemma gives_emit_name: "ok J T F p \<Longrightarrow> named_string i p \<Longrightarrow> naming opcode \<Longrightarrow> gives J T F (emit_only opcode a 0 c i p)"
  by (rule givesI) (rule ok_emit_name)

lemma gives_get:
  assumes "ok J T F p"
  shows "gives J T F (compile_get c p)"
proof -
  have two: "gives J T F (do { p \<leftarrow> emit_only USSR_BC_LOAD_VAR 0 0 0 v p2; p \<leftarrow> bc_compile_argument index 1 p;
      p \<leftarrow> emit_only USSR_BC_VECTOR_GET 2 0 1 0 p; emit_only USSR_BC_STORE_VAR 2 0 0 d p })"
    if ok2: "ok J T F p2" and n: "named_string v p2" "named_string d p2" for v d p2 index
  proof (rule givesI)
    fix p'
    assume "do { p \<leftarrow> emit_only USSR_BC_LOAD_VAR 0 0 0 v p2; p \<leftarrow> bc_compile_argument index 1 p;
      p \<leftarrow> emit_only USSR_BC_VECTOR_GET 2 0 1 0 p; emit_only USSR_BC_STORE_VAR 2 0 0 d p } = Some p'"
    then obtain p3 p4 p5 where s: "emit_only USSR_BC_LOAD_VAR 0 0 0 v p2 = Some p3" "bc_compile_argument index 1 p3 = Some p4"
      "emit_only USSR_BC_VECTOR_GET 2 0 1 0 p4 = Some p5" "emit_only USSR_BC_STORE_VAR 2 0 0 d p5 = Some p'"
      by (auto simp: bind_eq_Some_conv)
    have "ok J T F p3" by (rule ok_emit_name[OF ok2 s(1) n(1)]) (simp add: naming_def)
    then have "ok J T F p5" by (intro ok_emit_only[OF ok_compile_argument[OF _ s(2)] s(3)]) (simp_all add: free_operand_def)
    moreover have "named_string d p5" using named_string_kept[OF n(2), of p5] argument_strings[OF s(2)] emit_only_strings[OF s(1)] emit_only_strings[OF s(3)]
      by simp
    ultimately show "ok J T F p'" by (rule ok_emit_name[OF _ s(4)]) (simp add: naming_def)
  qed
  have one: "gives J T F (do { p \<leftarrow> emit_only USSR_BC_LOAD_VAR 0 0 0 v p2; emit_only USSR_BC_STORE_VAR 0 0 0 d p })"
    if ok2: "ok J T F p2" and n: "named_string v p2" "named_string d p2" for v d p2
  proof (rule givesI)
    fix p'
    assume "do { p \<leftarrow> emit_only USSR_BC_LOAD_VAR 0 0 0 v p2; emit_only USSR_BC_STORE_VAR 0 0 0 d p } = Some p'"
    then obtain p3 where s: "emit_only USSR_BC_LOAD_VAR 0 0 0 v p2 = Some p3" "emit_only USSR_BC_STORE_VAR 0 0 0 d p3 = Some p'"
      by (auto simp: bind_eq_Some_conv)
    have "ok J T F p3" by (rule ok_emit_name[OF ok2 s(1) n(1)]) (simp add: naming_def)
    moreover have "named_string d p3" using named_string_kept[OF n(2), of p3] emit_only_strings[OF s(1)] by simp
    ultimately show "ok J T F p'" by (rule ok_emit_name[OF _ s(2)]) (simp add: naming_def)
  qed
  have names: "gives J T F (Option.bind (variable_argument dest) (\<lambda>x. do { (v, p) \<leftarrow> bc_add_string name p; (d, p) \<leftarrow> bc_add_string x p; f v d p }))"
    if f: "\<And>v d p2. ok J T F p2 \<Longrightarrow> named_string v p2 \<Longrightarrow> named_string d p2 \<Longrightarrow> gives J T F (f v d p2)" for name dest f
  proof (rule givesI)
    fix p'
    assume "Option.bind (variable_argument dest) (\<lambda>x. do { (v, p) \<leftarrow> bc_add_string name p; (d, p) \<leftarrow> bc_add_string x p; f v d p }) = Some p'"
    then obtain x v d p1 p2 where s: "bc_add_string name p = Some (v, p1)" "bc_add_string x p1 = Some (d, p2)" "f v d p2 = Some p'"
      by (auto simp: bind_eq_Some_conv)
    note 1 = added_string[OF assms s(1)]
    note 2 = added_string[OF conjunct1[OF 1] s(2)]
    have "named_string v p2" using 1 2 named_string_kept[of v p1 p2] by blast
    then show "ok J T F p'" using givesD[OF f s(3)] 2 by blast
  qed
  show ?thesis
    unfolding compile_get_def
    by (auto simp del: One_nat_def split: option.split list.split intro!: gives_None names[OF one] names[OF two])
qed

lemma emitted: "bc_emit opcode a b c imm p = Some (i, p') \<Longrightarrow> i < length (bc_code p') \<and> ins_opcode (bc_code p' ! i) = opcode_byte opcode \<and>
    i < USSR_BC_MAX_CODE"
  by (auto simp: bc_emit_def instruction_def nth_append split: if_splits)

lemma ok_add_site:
  assumes "ok J T F p" "i < length (bc_code p)" "i < USSR_BC_MAX_CODE"
  shows "ins_opcode (bc_code p ! i) = opcode_byte USSR_BC_OOP \<Longrightarrow> ok J T F (bc_add_oop_site i c p)"
    "ins_opcode (bc_code p ! i) = opcode_byte USSR_BC_SCAN \<Longrightarrow> ok J T F (bc_add_scan_site i c p)"
  using assms by (auto simp: ok_def sites_fit_def bc_add_oop_site_def bc_add_scan_site_def site_fits_def is_jump_def unat_index USSR_BC_MAX_CODE_def)

lemma gives_scan:
  assumes "ok J T F p"
  shows "gives J T F (compile_scan c p)"
proof (rule givesI)
  fix p'
  assume "compile_scan c p = Some p'"
  then obtain n format index p1 i p2 ret where s: "bc_add_string format p = Some (index, p1)"
    "bc_emit USSR_BC_SCAN USSR_BC_RETURN_REG n 0 index p1 = Some (i, p2)"
    "bc_store_result ret USSR_BC_RETURN_REG False (bc_add_scan_site i c p2) = Some p'"
    by (auto simp: compile_scan_def bind_eq_Some_conv split: list.splits if_splits)
  note 1 = added_string[OF assms s(1)]
  have "ok J T F p2" by (rule ok_emit_naming[OF _ s(2)]) (use 1 in \<open>simp_all add: naming_def\<close>)
  then have "ok J T F (bc_add_scan_site i c p2)" using emitted[OF s(2)] by (auto intro: ok_add_site)
  then show "ok J T F p'" by (rule ok_store_result[OF _ s(3)])
qed

lemma gives_template:
  assumes "ok J T F p"
  shows "gives J T F (compile_template c p)"
proof (rule givesI)
  fix p'
  assume "compile_template c p = Some p'"
  then obtain args format p1 index p2 p3 where s: "compile_arguments args 0 p = Some p1" "bc_add_string format p1 = Some (index, p2)"
    "emit_only USSR_BC_TEMPLATE USSR_BC_RETURN_REG (length args) 0 index p2 = Some p3"
    "bc_store_result (cmd_return_name c) USSR_BC_RETURN_REG False p3 = Some p'"
    by (auto simp: compile_template_def bind_eq_Some_conv split: list.splits if_splits)
  note 1 = added_string[OF ok_arguments[OF assms s(1)] s(2)]
  have "ok J T F p3" by (rule ok_emit_only[OF conjunct1[OF 1] s(3)]) (simp add: free_operand_def)
  then show "ok J T F p'" by (rule ok_store_result[OF _ s(4)])
qed

lemma gives_oop:
  assumes "ok J T F p"
  shows "gives J T F (compile_oop before_chain c p)"
proof (rule givesI)
  fix p'
  assume "compile_oop before_chain c p = Some p'"
  then obtain p1 name index p2 i p3 x y where s: "compile_values (cmd_arguments c) 0 p = Some p1" "bc_add_string name p1 = Some (index, p2)"
    "bc_emit USSR_BC_OOP (USSR_BC_RETURN_REG - 1) (length (cmd_arguments c)) x index p2 = Some (i, p3)"
    "bc_store_result (cmd_return_name c) (USSR_BC_RETURN_REG - 1) y (bc_add_oop_site i c p3) = Some p'"
    by (auto simp: compile_oop_def bind_eq_Some_conv split: if_splits)
  note 1 = added_string[OF ok_values[OF assms s(1)] s(2)]
  have "ok J T F p3" by (rule ok_emit_naming[OF _ s(3)]) (use 1 in \<open>simp_all add: naming_def\<close>)
  then have "ok J T F (bc_add_oop_site i c p3)" using emitted[OF s(3)] by (auto intro: ok_add_site)
  then show "ok J T F p'" by (rule ok_store_result[OF _ s(4)])
qed

lemma gives_if: "gives J T F r \<Longrightarrow> gives J T F r' \<Longrightarrow> gives J T F (if b then r else r')"
  by simp

lemma gives_arithmetic_or:
  "ok J T F p \<Longrightarrow> gives J T F r \<Longrightarrow>
   gives J T F (case arithmetic_opcode c of Some opcode \<Rightarrow> compile_arithmetic opcode c p | None \<Rightarrow> r)"
  by (auto simp: arithmetic_opcode_def free_operand_def split: option.split if_splits intro: gives_arithmetic)

lemma ok_plain:
  assumes "ok J T F p" "compile_plain before_chain c p = Some p'"
  shows "ok J T F p'"
proof (cases "bc_find_function (cmd_name c) p")
  case (Some f)
  have "f < length F" using find_function_bound[OF Some] assms(1) by (simp add: ok_def)
  then show ?thesis using ok_call[OF assms(1)] assms(2) Some by (simp add: compile_plain_def)
next
  case None
  have "gives J T F (compile_plain before_chain c p)"
    unfolding compile_plain_def None option.case
    by (intro gives_if gives_arithmetic_or assms(1) gives_unary gives_concat gives_nullary gives_seed gives_set gives_eval gives_get gives_scan
        gives_template gives_oop) (simp_all add: free_operand_def)
  then show ?thesis using assms(2) by (rule givesD)
qed

end
