(* ===== verification/ListSound.thy ===== *)
theory ListSound
  imports CompileSound
begin

text \<open>Lists of commands keep the program sound: every jump that waits is patched in the end.\<close>

declare bc_compile_until.simps [simp del] conditional_branches.simps [simp del] block_branches.simps [simp del]
  bc_compile_choose.simps [simp del] choose_bodies.simps [simp del] bc_compile_command.simps [simp del] compile_if.simps [simp del]
  compile_do.simps [simp del] compile_for.simps [simp del] for_body.simps [simp del] compile_while.simps [simp del]

section \<open>Steps of loops and branches\<close>

fun jumps_of :: "bc_loop option \<Rightarrow> nat set" where
  "jumps_of None = {}"
| "jumps_of (Some (breaks, continues)) = set breaks \<union> set continues"

definition state_ok :: "nat set \<Rightarrow> nat set \<Rightarrow> ussr_bc_function list \<Rightarrow> compiling \<Rightarrow> bool" where
  "state_ok J T F s \<longleftrightarrow> ok (J \<union> jumps_of (snd s)) T F (fst s)"

lemma ok_branch_condition:
  assumes "ok J T F p" "branch_condition c args p = Some (pending, p')"
  shows "ok (set_option pending \<union> J) T F p'"
  using assms
  by (auto simp: branch_condition_def bind_eq_Some_conv split: if_splits list.splits intro!: ok_emit_jump[of J T F _ USSR_BC_JMP_FALSE 0 0 0 0]
    elim: ok_compile_argument)

lemma ok_close_branch:
  assumes "ok J T F p" "close_branch pending p = Some (j, p')" "set_option pending \<subseteq> J"
  shows "ok (insert j J) T F p'"
proof -
  from assms(2) obtain p1 where c: "bc_emit USSR_BC_JMP 0 0 0 0 p = Some (j, p1)"
    "(case pending of None \<Rightarrow> Some p1 | Some i \<Rightarrow> bc_patch i (length (bc_code p1)) p1) = Some p'"
    by (auto simp: close_branch_def bind_eq_Some_conv)
  have "ok (insert j J) T F p1" by (rule ok_emit_jump[OF assms(1) c(1)]) simp_all
  then show ?thesis using c(2) assms(3) by (auto split: option.splits intro: ok_patch_here)
qed

lemma ok_dispatch: "ok J T F p \<Longrightarrow> choose_dispatch labels p = Some (js, p') \<Longrightarrow> ok (J \<union> \<Union> (set_option ` set js)) T F p'"
proof (induction labels arbitrary: J p js)
  case (Cons label labels)
  show ?case
  proof (cases "named (hd label) ''option''")
    case True
    with Cons.prems(2) obtain p1 p2 j p3 js' where c: "bc_compile_argument (first_argument (hd label)) 1 p = Some p1"
      "emit_only USSR_BC_EQ 2 0 1 0 p1 = Some p2" "bc_emit USSR_BC_JMP_TRUE 2 0 0 0 p2 = Some (j, p3)"
      "choose_dispatch labels p3 = Some (js', p')" "js = Some j # js'" by (auto simp: bind_eq_Some_conv)
    have "ok J T F p2" by (rule ok_emit_only[OF ok_compile_argument[OF Cons.prems(1) c(1)] c(2)]) (simp add: free_operand_def)
    then have "ok (insert j J) T F p3" by (rule ok_emit_jump[OF _ c(3)]) simp_all
    from Cons.IH[OF this c(4)] show ?thesis by (auto simp: c(5) elim: ok_mono)
  next
    case False
    with Cons show ?thesis by (auto simp: bind_eq_Some_conv)
  qed
qed simp

lemma jumps_hand_over: "hand_over continues loop = Some loop' \<Longrightarrow> jumps_of loop' = jumps_of loop \<union> set continues"
  by (cases loop) (auto simp: hand_over_def split: if_splits)

lemma state_break:
  assumes "state_ok J T F s" "compile_break c s = Some s'"
  shows "state_ok J T F s'"
proof -
  obtain p loop where s: "s = (p, loop)" by (cases s)
  from assms(2) obtain breaks continues where l: "loop = Some (breaks, continues)" by (auto simp: compile_break_def s split: option.splits)
  from assms(2) obtain p1 j p2 where c:
    "(case cmd_arguments c of [] \<Rightarrow> store_status (cmd_return_name c) True p
       | a # _ \<Rightarrow> do { p \<leftarrow> bc_compile_argument a 0 p;
           if cmd_return_name c = None then Some p else bc_store_result (cmd_return_name c) 0 (assignment a) p }) = Some p1"
    "bc_emit USSR_BC_JMP 0 0 0 0 p1 = Some (j, p2)"
    "s' = (p2, Some (if named c ''break'' then (breaks @ [j], continues) else (breaks, continues @ [j])))"
    by (auto simp: compile_break_def s l bind_eq_Some_conv split: if_splits)
  have "ok (J \<union> (set breaks \<union> set continues)) T F p1"
    using c(1) assms(1) by (auto simp: state_ok_def s l bind_eq_Some_conv split: list.splits if_splits dest: ok_compile_argument ok_store_status ok_store_result)
  from ok_emit_jump[OF this c(2)] show ?thesis by (auto simp: state_ok_def c(3) elim!: ok_mono)
qed

definition fine :: "ussr_bc_function list \<Rightarrow> nat set \<Rightarrow> compiling \<Rightarrow> compiling option \<Rightarrow> bool" where
  "fine F K s r \<longleftrightarrow> (\<forall>J T s'. K \<subseteq> J \<longrightarrow> state_ok J T F s \<longrightarrow> r = Some s' \<longrightarrow> state_ok J T F s')"

lemma fineI: "(\<And>J T p loop. K \<subseteq> J \<Longrightarrow> ok (J \<union> jumps_of (snd s)) T F (fst s) \<Longrightarrow> r = Some (p, loop) \<Longrightarrow> ok (J \<union> jumps_of loop) T F p) \<Longrightarrow> fine F K s r"
  by (auto simp: fine_def state_ok_def)

lemma fineD: "fine F K s r \<Longrightarrow> ok (J \<union> jumps_of (snd s)) T F (fst s) \<Longrightarrow> r = Some (p, loop) \<Longrightarrow> K \<subseteq> J \<Longrightarrow> ok (J \<union> jumps_of loop) T F p"
  by (fastforce simp: fine_def state_ok_def)

lemma fineD_in: "fine F {} (p, loop) r \<Longrightarrow> ok J T F p \<Longrightarrow> jumps_of loop \<subseteq> J \<Longrightarrow> r = Some (p', loop') \<Longrightarrow> ok (J \<union> jumps_of loop') T F p'"
  using fineD[of F "{}" "(p, loop)" r J T p' loop'] by (simp add: Un_absorb2)

section \<open>Lists\<close>

lemma lists_fine:
  shows "fine F {} s (bc_compile_until cs stop result s)"
    and "fine F (set ends) s (conditional_branches branch status ends result s)"
    and "fine F (set ends) s (block_branches branch status ends result s)"
    and "fine F {} s (bc_compile_choose cs result s)"
    and "fine F (insert no_match (\<Union> (set_option ` set jumps))) s (choose_bodies branch status jumps no_match result s)"
    and "fine F {} s (bc_compile_command cs result s)"
    and "fine F {} s (compile_if cs result s)"
    and "fine F {} s (compile_do cs result s)"
    and "fine F {} s (compile_for cs result s)"
    and "fine F {} s (for_body cs result s)"
    and "fine F {} s (compile_while cs result s)"
proof (induction cs stop result s and branch status ends result s and branch status ends result s and cs result s
    and branch status jumps no_match result s and cs result s and cs result s and cs result s and cs result s and cs result s
    and cs result s
    rule: bc_compile_until_conditional_branches_block_branches_bc_compile_choose_choose_bodies_bc_compile_command_compile_if_compile_do_compile_for_for_body_compile_while.induct)
  case (1 cs stop result s)
  show ?case
  proof (rule fineI)
    fix J T p loop
    assume ok: "ok (J \<union> jumps_of (snd s)) T F (fst s)" and e: "bc_compile_until cs stop result s = Some (p, loop)"
    note e = e[unfolded bc_compile_until.simps[of cs stop result s]]
    show "ok (J \<union> jumps_of loop) T F p"
    proof (cases "cs = [] \<or> length cs = stop")
      case False
      note n = False
      show ?thesis
      proof (cases "one_argument ''if'' (hd cs)")
        case True
        with e n obtain p1 where c: "store_status (cmd_return_name (hd cs)) False (fst s) = Some p1"
          "conditional_branches cs (cmd_return_name (hd cs)) [] result (p1, snd s) = Some (p, loop)" by (auto simp: bind_eq_Some_conv)
        show ?thesis by (rule fineD[OF 1(1)[OF n True c(1)] _ c(2)]) (use ok_store_status[OF ok c(1)] in auto)
      next
        case f1: False
        show ?thesis
        proof (cases "starts_block_chain cs")
          case True
          with e n f1 obtain p1 s1 where c: "store_status (cmd_return_name (hd cs)) False (fst s) = Some p1"
            "block_branches cs (cmd_return_name (hd cs)) [] result (p1, snd s) = Some s1"
            "bc_compile_until (block_chain_end cs) stop result s1 = Some (p, loop)" by (auto simp: bind_eq_Some_conv)
          have "ok (J \<union> jumps_of (snd s1)) T F (fst s1)"
            by (rule fineD[OF 1(2)[OF n f1 True c(1)], of _ _ _ "snd s1"]) (use ok_store_status[OF ok c(1)] c(2) in auto)
          then show ?thesis by (rule fineD[OF 1(3)[OF n f1 True c(1,2)] _ c(3)]) simp
        next
          case f2: False
          show ?thesis
          proof (cases "one_argument ''choose'' (hd cs)")
            case True
            with e n f1 f2 have "bc_compile_choose cs result s = Some (p, loop)" by simp
            then show ?thesis by (rule fineD[OF 1(4)[OF n f1 f2 True] ok]) simp
          next
            case f3: False
            have f4: "\<not> (bc_is_conditional_label (hd cs) \<or> bc_is_choose_label (hd cs))" using e n f1 f2 f3 by (auto split: if_splits)
            with e n f1 f2 f3 obtain s1 rest where c: "bc_compile_command cs result s = Some s1" "after_command cs = Some rest"
              "bc_compile_until rest stop result s1 = Some (p, loop)" by (auto simp: bind_eq_Some_conv)
            have "ok (J \<union> jumps_of (snd s1)) T F (fst s1)"
              by (rule fineD[OF 1(5)[OF n f1 f2 f3 f4] ok, of _ "snd s1"]) (use c(1) in auto)
            then show ?thesis by (rule fineD[OF 1(6)[OF n f1 f2 f3 f4 c(1,2)] _ c(3)]) simp
          qed
        qed
      qed
    qed (use e ok in auto)
  qed
next
  case (2 branch status ends result s)
  show ?case
  proof (rule fineI)
    fix J T p loop
    assume K: "set ends \<subseteq> J" and ok: "ok (J \<union> jumps_of (snd s)) T F (fst s)"
      and e: "conditional_branches branch status ends result s = Some (p, loop)"
    note e = e[unfolded conditional_branches.simps[of branch status ends result s]]
    show "ok (J \<union> jumps_of loop) T F p"
    proof (cases "branch = []")
      case True
      with e K ok_patch_all_here[OF ok, of ends] show ?thesis by auto
    next
      case False
      with e obtain pending p1 p2 p3 loop3 j p4 where c: "branch_condition (hd branch) (cmd_arguments (hd branch)) (fst s) = Some (pending, p1)"
        "store_status status True p1 = Some p2"
        "bc_compile_until (tl branch) (length (next_label bc_is_conditional_label (tl branch))) result (p2, snd s) = Some (p3, loop3)"
        "close_branch pending p3 = Some (j, p4)"
        "conditional_branches (next_label bc_is_conditional_label (tl branch)) status (ends @ [j]) result (p4, loop3) = Some (p, loop)"
        by (auto simp: bind_eq_Some_conv)
      let ?J = "set_option pending \<union> J"
      have "ok (?J \<union> jumps_of (snd s)) T F p2" using ok_store_status[OF ok_branch_condition[OF ok c(1)] c(2)] by (simp add: Un_assoc)
      then have "ok (?J \<union> jumps_of loop3) T F p3" using fineD[OF 2(1)[OF False c(1) refl c(2)] _ c(3)] by simp
      from ok_close_branch[OF this c(4)] have "ok (insert j ?J \<union> jumps_of loop3) T F p4" by auto
      from fineD[OF 2(2)[OF False c(1) refl c(2,3) refl c(4) refl] _ c(5), of "insert j ?J"] this K
      have "ok (insert j ?J \<union> jumps_of loop) T F p" by auto
      then show ?thesis by (rule ok_mono) auto
    qed
  qed
next
  case (3 branch status ends result s)
  show ?case
  proof (rule fineI)
    fix J T p loop
    assume K: "set ends \<subseteq> J" and ok: "ok (J \<union> jumps_of (snd s)) T F (fst s)"
      and e: "block_branches branch status ends result s = Some (p, loop)"
    note e = e[unfolded block_branches.simps[of branch status ends result s]]
    have n: "\<not> (branch = [] \<or> \<not> has_block (hd branch) (length (cmd_arguments (hd branch))))" using e by (auto split: if_splits)
    with e obtain pending p1 p2 p3 loop3 j p4 where c:
      "branch_condition (hd branch) (butlast (cmd_arguments (hd branch))) (fst s) = Some (pending, p1)"
      "store_status status True p1 = Some p2"
      "bc_compile_until (body_of (hd branch)) 0 result (p2, snd s) = Some (p3, loop3)"
      "close_branch pending p3 = Some (j, p4)"
      "(if \<not> starts_with bc_is_conditional_label (tl branch) then
          map_option (\<lambda>p. (p, loop3)) (bc_patch_all (ends @ [j]) (length (bc_code p4)) p4)
        else if named (hd branch) ''else'' then None
        else block_branches (tl branch) status (ends @ [j]) result (p4, loop3)) = Some (p, loop)"
      by (auto simp: bind_eq_Some_conv)
    let ?J = "set_option pending \<union> J"
    have "ok (?J \<union> jumps_of (snd s)) T F p2" using ok_store_status[OF ok_branch_condition[OF ok c(1)] c(2)] by (simp add: Un_assoc)
    then have "ok (?J \<union> jumps_of loop3) T F p3" using fineD[OF 3(1)[OF n c(1) refl c(2)] _ c(3)] by simp
    from ok_close_branch[OF this c(4)] have ok4: "ok (insert j ?J \<union> jumps_of loop3) T F p4" by auto
    have "ok (insert j ?J \<union> jumps_of loop) T F p"
    proof (cases "starts_with bc_is_conditional_label (tl branch)")
      case True
      then have l: "\<not> \<not> starts_with bc_is_conditional_label (tl branch)" "\<not> named (hd branch) ''else''" using c(5) by (auto split: if_splits)
      have "block_branches (tl branch) status (ends @ [j]) result (p4, loop3) = Some (p, loop)" using c(5) l by simp
      from fineD[OF 3(2)[OF n c(1) refl c(2,3) refl c(4) refl l] _ this, of "insert j ?J"] ok4 K show ?thesis by auto
    next
      case False
      with c(5) obtain p5 where "bc_patch_all (ends @ [j]) (length (bc_code p4)) p4 = Some p5" "p = p5" "loop = loop3" by auto
      with ok_patch_all_here[OF ok4, of "ends @ [j]"] K show ?thesis by auto
    qed
    then show "ok (J \<union> jumps_of loop) T F p" by (rule ok_mono) auto
  qed
next
  case (4 cs result s)
  show ?case
  proof (rule fineI)
    fix J T p loop
    assume ok: "ok (J \<union> jumps_of (snd s)) T F (fst s)" and e: "bc_compile_choose cs result s = Some (p, loop)"
    note e = e[unfolded bc_compile_choose.simps[of cs result s]]
    have n: "\<not> \<not> starts_with bc_is_choose_label (tl cs)" using e by (auto split: if_splits)
    with e obtain p1 p2 labels jumps p3 no_match p4 p5 breaks continues p6 where c:
      "store_status (cmd_return_name (hd cs)) False (fst s) = Some p1"
      "bc_compile_argument (first_argument (hd cs)) 0 p1 = Some p2" "choose_cases (tl cs) False = Some labels"
      "choose_dispatch labels p2 = Some (jumps, p3)" "bc_emit USSR_BC_JMP 0 0 0 0 p3 = Some (no_match, p4)"
      "choose_bodies (tl cs) (cmd_return_name (hd cs)) jumps no_match result (p4, Some ([], [])) = Some (p5, Some (breaks, continues))"
      "(if has_default labels then Some p5 else bc_patch no_match (length (bc_code p5)) p5) = Some p6"
      "hand_over continues (snd s) = Some loop" "bc_patch_all breaks (length (bc_code p6)) p6 = Some p"
      by (auto simp: bind_eq_Some_conv)
    let ?J = "insert no_match (J \<union> jumps_of (snd s) \<union> \<Union> (set_option ` set jumps))"
    note ok3 = ok_dispatch[OF ok_compile_argument[OF ok_store_status[OF ok c(1)] c(2)] c(4)]
    have ok4: "ok ?J T F p4" by (rule ok_emit_jump[OF ok3 c(5)]) simp_all
    have "ok (?J \<union> jumps_of (Some (breaks, continues))) T F p5"
      by (rule fineD[OF 4[OF n c(1-4) refl c(5) refl] _ c(6)]) (use ok4 in auto)
    then have ok6: "ok (?J \<union> jumps_of (Some (breaks, continues))) T F p6" using c(7) by (auto split: if_splits intro: ok_patch_here)
    have "ok (?J \<union> jumps_of (Some (breaks, continues))) T F p" by (rule ok_patch_all_here[OF ok6 c(9)]) auto
    then show "ok (J \<union> jumps_of loop) T F p" by (rule ok_mono) (auto simp: jumps_hand_over[OF c(8)])
  qed
next
  case (5 label status jumps no_match result s)
  show ?case
  proof (rule fineI)
    fix J T p loop
    assume K: "insert no_match (\<Union> (set_option ` set jumps)) \<subseteq> J" and ok: "ok (J \<union> jumps_of (snd s)) T F (fst s)"
      and e: "choose_bodies label status jumps no_match result s = Some (p, loop)"
    note e = e[unfolded choose_bodies.simps[of label status jumps no_match result s]]
    show "ok (J \<union> jumps_of loop) T F p"
    proof (cases "\<not> starts_with bc_is_choose_label label \<or> jumps = []")
      case n: False
      with e obtain p1 p2 p3 s4 where c: "(case hd jumps of None \<Rightarrow> Some (fst s) | Some i \<Rightarrow> bc_patch i (length (bc_code (fst s))) (fst s)) = Some p1"
        "(if named (hd label) ''default'' then bc_patch no_match (length (bc_code p1)) p1 else Some p1) = Some p2"
        "store_status status True p2 = Some p3"
        "bc_compile_until (tl label) (length (next_label bc_is_choose_label (tl label))) result (p3, snd s) = Some s4"
        "choose_bodies (next_label bc_is_choose_label (tl label)) status (tl jumps) no_match result s4 = Some (p, loop)"
        by (auto simp: bind_eq_Some_conv)
      have h: "set_option (hd jumps) \<subseteq> J" "\<Union> (set_option ` set (tl jumps)) \<subseteq> J" "no_match \<in> J" using K n by (cases jumps; auto)+
      have "ok (J \<union> jumps_of (snd s)) T F p1" using c(1) ok h(1) by (auto split: option.splits intro: ok_patch_here)
      then have "ok (J \<union> jumps_of (snd s)) T F p2" using c(2) h(3) by (auto split: if_splits intro: ok_patch_here)
      then have "ok (J \<union> jumps_of (snd s)) T F p3" by (rule ok_store_status[OF _ c(3)])
      then have "ok (J \<union> jumps_of (snd s4)) T F (fst s4)" using fineD[OF 5(1)[OF n c(1-3)], of J T "fst s4" "snd s4"] c(4) by simp
      then show ?thesis by (rule fineD[OF 5(2)[OF n c(1-4)] _ c(5)]) (use h in simp)
    qed (use e ok in auto)
  qed
next
  case (6 cs result s)
  show ?case
  proof (cases "cs = [] \<or> bc_is_definition (hd cs) \<or> named (hd cs) ''global''")
    case True
    then show ?thesis by (auto simp: bc_compile_command.simps[of cs result s] fine_def)
  next
    case n: False
    have plain: "fine F {} s (map_option (\<lambda>p. (p, snd s)) r)"
      if "\<And>J T p. ok J T F (fst s) \<Longrightarrow> r = Some p \<Longrightarrow> ok J T F p" for r
      using that by (intro fineI) auto
    have break: "fine F {} s (compile_break (hd cs) s)" using state_break by (auto simp: fine_def)
    have return: "fine F {} s (map_option (\<lambda>p. (p, snd s)) (compile_return result (hd cs) (fst s)))"
      by (rule plain) (rule givesD[OF gives_return])
    have "fine F {} s (map_option (\<lambda>p. (p, snd s)) (compile_plain (starts_with (\<lambda>c. named c ''chain'') (tl cs)) (hd cs) (fst s)))"
      by (rule plain) (rule ok_plain)
    then show ?thesis
      unfolding bc_compile_command.simps[of cs result s] using n 6 break return by simp
  qed
next
  case (7 cs result s)
  show ?case
  proof (rule fineI)
    fix J T p loop
    assume ok: "ok (J \<union> jumps_of (snd s)) T F (fst s)" and e: "compile_if cs result s = Some (p, loop)"
    note e = e[unfolded compile_if.simps[of cs result s]]
    have n: "cs \<noteq> []" using e by auto
    show "ok (J \<union> jumps_of loop) T F p"
    proof (cases "length (cmd_arguments (hd cs)) = 2")
      case True
      with e n obtain a b body p1 j p2 p3 p4 where ab: "cmd_arguments (hd cs) = [a, USSR_ARGUMENT_COMMAND_LIST b body]" and c:
        "bc_compile_argument a 0 (fst s) = Some p1" "bc_emit USSR_BC_JMP_FALSE 0 0 0 0 p1 = Some (j, p2)"
        "bc_compile_until body 0 result (p2, snd s) = Some (p3, loop)" "bc_patch j (length (bc_code p3)) p3 = Some p4"
        "store_status (cmd_return_name (hd cs)) True p4 = Some p"
        by (auto simp: bind_eq_Some_conv split: list.splits ussr_argument.splits)
      have "ok (insert j (J \<union> jumps_of (snd s))) T F p2" by (rule ok_emit_jump[OF ok_compile_argument[OF ok c(1)] c(2)]) simp_all
      then have "ok (insert j J \<union> jumps_of loop) T F p3" using fineD[OF 7(1)[OF n ab refl refl refl c(1,2) refl] _ c(3), of "insert j J"] by simp
      then have "ok (insert j J \<union> jumps_of loop) T F p" by (intro ok_store_status[OF ok_patch_here[OF _ c(4)] c(5)]) simp_all
      then show ?thesis by (rule ok_mono) auto
    next
      case False
      with e n obtain a b body b' other p1 j p2 p3 loop3 je p4 p5 p6 p7 where
        ab: "cmd_arguments (hd cs) = [a, USSR_ARGUMENT_COMMAND_LIST b body, USSR_ARGUMENT_COMMAND_LIST b' other]" and c:
        "bc_compile_argument a 0 (fst s) = Some p1" "bc_emit USSR_BC_JMP_FALSE 0 0 0 0 p1 = Some (j, p2)"
        "bc_compile_until body 0 result (p2, snd s) = Some (p3, loop3)" "bc_emit USSR_BC_JMP 0 0 0 0 p3 = Some (je, p4)"
        "bc_patch j (length (bc_code p4)) p4 = Some p5" "bc_compile_until other 0 result (p5, loop3) = Some (p6, loop)"
        "bc_patch je (length (bc_code p6)) p6 = Some p7" "store_status (cmd_return_name (hd cs)) True p7 = Some p"
        by (auto simp: bind_eq_Some_conv split: list.splits ussr_argument.splits)
      have "ok (insert j (J \<union> jumps_of (snd s))) T F p2" by (rule ok_emit_jump[OF ok_compile_argument[OF ok c(1)] c(2)]) simp_all
      then have "ok (insert j J \<union> jumps_of loop3) T F p3" using fineD[OF 7(2)[OF n ab refl refl refl refl refl c(1,2) refl] _ c(3), of "insert j J"] by simp
      from ok_emit_jump[OF this c(4)] have "ok (insert je (insert j J \<union> jumps_of loop3)) T F p4" by simp
      from ok_patch_here[OF this c(5)] have "ok (insert je (insert j J) \<union> jumps_of loop3) T F p5" by simp
      then have "ok (insert je (insert j J) \<union> jumps_of loop) T F p6"
        using fineD[OF 7(3)[OF n ab refl refl refl refl refl c(1,2) refl c(3) refl c(4) refl c(5)] _ c(6), of "insert je (insert j J)"] by simp
      then have "ok (insert je (insert j J) \<union> jumps_of loop) T F p" by (intro ok_store_status[OF ok_patch_here[OF _ c(7)] c(8)]) simp_all
      then show ?thesis by (rule ok_mono) auto
    qed
  qed
next
  case (8 cs result s)
  show ?case
  proof (rule fineI)
    fix J T p loop
    assume ok: "ok (J \<union> jumps_of (snd s)) T F (fst s)" and e: "compile_do cs result s = Some (p, loop)"
    note e = e[unfolded compile_do.simps[of cs result s]]
    let ?start = "length (bc_code (fst s))"
    have n: "\<not> (cs = [] \<or> \<not> has_block (hd cs) 2 \<or>
         \<not> starts_with (\<lambda>c. named c ''loop'' \<and> length (cmd_arguments c) = 1) (tl cs))" using e by (auto split: if_splits)
    with e obtain p1 breaks continues p2 j p3 p4 p5 p6 p7 where c:
      "bc_compile_until (body_of (hd cs)) 0 result (fst s, Some ([], [])) = Some (p1, Some (breaks, continues))"
      "bc_compile_argument (first_argument (hd (tl cs))) 0 p1 = Some p2" "bc_emit USSR_BC_JMP_FALSE 0 0 0 0 p2 = Some (j, p3)"
      "emit_only USSR_BC_JMP 0 0 0 ?start p3 = Some p4" "bc_patch_all continues (length (bc_code p1)) p4 = Some p5"
      "bc_patch j (length (bc_code p5)) p5 = Some p6" "bc_patch_all breaks (length (bc_code p6)) p6 = Some p7"
      "store_status (cmd_return_name (hd cs)) True p7 = Some p" "loop = snd s"
      by (auto simp: bind_eq_Some_conv Let_def)
    let ?J = "J \<union> jumps_of (snd s) \<union> (set breaks \<union> set continues)"
    let ?T = "insert (length (bc_code p1)) (insert ?start T)"
    have "ok ?J (insert ?start T) F p1" using fineD_in[OF 8[OF n] ok_here[OF ok] _ c(1)] by simp
    from ok_compile_argument[OF ok_here[OF this] c(2)] have "ok ?J ?T F p2" .
    then have "ok (insert j ?J) ?T F p3" by (rule ok_emit_jump[OF _ c(3)]) simp_all
    then have "ok (insert j ?J) ?T F p4" by (rule ok_loop_back[OF _ c(4)]) simp
    then have "ok (insert j ?J) ?T F p5" by (rule ok_patch_all[OF _ c(5)]) auto
    then have "ok (insert j ?J) ?T F p6" by (rule ok_patch_here[OF _ c(6)]) simp
    then have "ok (insert j ?J) ?T F p7" by (rule ok_patch_all_here[OF _ c(7)]) auto
    from ok_store_status[OF this c(8)] show "ok (J \<union> jumps_of loop) T F p" by (rule ok_mono) (auto simp: c(9))
  qed
next
  case (9 cs result s)
  show ?case
  proof (rule fineI)
    fix J T p loop
    assume ok: "ok (J \<union> jumps_of (snd s)) T F (fst s)" and e: "compile_for cs result s = Some (p, loop)"
    note e = e[unfolded compile_for.simps[of cs result s]]
    have n: "\<not> (cs = [] \<or> \<not> has_block (hd cs) 2 \<or> length (body_of (hd cs)) < 2)" using e by (auto split: if_splits)
    with e obtain p1 p2 j p3 p4 child p5 breaks continues p6 p7 p8 p9 where c:
      "bc_compile_command (body_of (hd cs)) result s = Some (p1, loop)"
      "bc_compile_argument (first_argument (hd cs)) 0 p1 = Some p2" "bc_emit USSR_BC_JMP_FALSE 0 0 0 0 p2 = Some (j, p3)"
      "for_body (tl (tl (body_of (hd cs)))) result (p3, Some ([], [])) = Some (p4, child)"
      "bc_compile_command (tl (body_of (hd cs))) result (p4, child) = Some (p5, Some (breaks, continues))"
      "emit_only USSR_BC_JMP 0 0 0 (length (bc_code p1)) p5 = Some p6" "bc_patch_all continues (length (bc_code p4)) p6 = Some p7"
      "bc_patch j (length (bc_code p7)) p7 = Some p8" "bc_patch_all breaks (length (bc_code p8)) p8 = Some p9"
      "store_status (cmd_return_name (hd cs)) True p9 = Some p"
      by (auto simp: bind_eq_Some_conv Let_def)
    let ?J = "insert j (J \<union> jumps_of loop)"
    let ?T = "insert (length (bc_code p1)) T"
    have "ok (J \<union> jumps_of loop) T F p1" by (rule fineD[OF 9(1)[OF n] ok c(1)]) simp
    from ok_compile_argument[OF ok_here[OF this] c(2)] have "ok (J \<union> jumps_of loop) ?T F p2" .
    then have "ok ?J ?T F p3" by (rule ok_emit_jump[OF _ c(3)]) simp_all
    then have "ok (?J \<union> jumps_of child) ?T F p4"
      using fineD[OF 9(2)[OF n c(1) refl refl c(2,3) refl] _ c(4), of ?J] by simp
    then have "ok (?J \<union> (set breaks \<union> set continues)) (insert (length (bc_code p4)) ?T) F p5"
      using fineD[OF 9(3)[OF n c(1) refl refl c(2,3) refl c(4) refl refl] _ c(5), of ?J] ok_here by simp
    then have "ok (?J \<union> (set breaks \<union> set continues)) (insert (length (bc_code p4)) ?T) F p6" by (rule ok_loop_back[OF _ c(6)]) simp
    then have "ok (?J \<union> (set breaks \<union> set continues)) (insert (length (bc_code p4)) ?T) F p7" by (rule ok_patch_all[OF _ c(7)]) auto
    then have "ok (?J \<union> (set breaks \<union> set continues)) (insert (length (bc_code p4)) ?T) F p8" by (rule ok_patch_here[OF _ c(8)]) simp
    then have "ok (?J \<union> (set breaks \<union> set continues)) (insert (length (bc_code p4)) ?T) F p9" by (rule ok_patch_all_here[OF _ c(9)]) auto
    from ok_store_status[OF this c(10)] show "ok (J \<union> jumps_of loop) T F p" by (rule ok_mono) auto
  qed
next
  case (10 cs result s)
  show ?case
  proof (rule fineI)
    fix J T p loop
    assume ok: "ok (J \<union> jumps_of (snd s)) T F (fst s)" and e: "for_body cs result s = Some (p, loop)"
    note e = e[unfolded for_body.simps[of cs result s]]
    show "ok (J \<union> jumps_of loop) T F p"
    proof (cases "cs = []")
      case n: False
      with e obtain s1 rest where c: "bc_compile_command cs result s = Some s1" "after_command cs = Some rest"
        "for_body rest result s1 = Some (p, loop)" by (auto simp: bind_eq_Some_conv)
      have "ok (J \<union> jumps_of (snd s1)) T F (fst s1)" by (rule fineD[OF 10(1)[OF n] ok, of _ "snd s1"]) (use c(1) in auto)
      then show ?thesis by (rule fineD[OF 10(2)[OF n c(1,2)] _ c(3)]) simp
    qed (use e ok in auto)
  qed
next
  case (11 cs result s)
  show ?case
  proof (rule fineI)
    fix J T p loop
    assume ok: "ok (J \<union> jumps_of (snd s)) T F (fst s)" and e: "compile_while cs result s = Some (p, loop)"
    note e = e[unfolded compile_while.simps[of cs result s]]
    let ?start = "length (bc_code (fst s))"
    have n: "\<not> (cs = [] \<or> \<not> has_block (hd cs) 2)" using e by (auto split: if_splits)
    with e obtain p1 j p2 p3 breaks continues p4 p5 p6 p7 where c:
      "bc_compile_argument (first_argument (hd cs)) 0 (fst s) = Some p1" "bc_emit USSR_BC_JMP_FALSE 0 0 0 0 p1 = Some (j, p2)"
      "bc_compile_until (body_of (hd cs)) 0 result (p2, Some ([], [])) = Some (p3, Some (breaks, continues))"
      "bc_patch_all continues ?start p3 = Some p4" "emit_only USSR_BC_JMP 0 0 0 ?start p4 = Some p5"
      "bc_patch j (length (bc_code p5)) p5 = Some p6" "bc_patch_all breaks (length (bc_code p6)) p6 = Some p7"
      "store_status (cmd_return_name (hd cs)) True p7 = Some p" "loop = snd s"
      by (auto simp: bind_eq_Some_conv)
    let ?J = "insert j (J \<union> jumps_of (snd s))"
    have "ok ?J (insert ?start T) F p2" by (rule ok_emit_jump[OF ok_compile_argument[OF ok_here[OF ok] c(1)] c(2)]) simp_all
    then have "ok (?J \<union> (set breaks \<union> set continues)) (insert ?start T) F p3"
      using fineD[OF 11[OF n c(1,2) refl] _ c(3), of ?J] by simp
    then have "ok (?J \<union> (set breaks \<union> set continues)) (insert ?start T) F p4" by (rule ok_patch_all[OF _ c(4)]) auto
    then have "ok (?J \<union> (set breaks \<union> set continues)) (insert ?start T) F p5" by (rule ok_loop_back[OF _ c(5)]) simp
    then have "ok (?J \<union> (set breaks \<union> set continues)) (insert ?start T) F p6" by (rule ok_patch_here[OF _ c(6)]) simp
    then have "ok (?J \<union> (set breaks \<union> set continues)) (insert ?start T) F p7" by (rule ok_patch_all_here[OF _ c(7)]) auto
    from ok_store_status[OF this c(8)] show "ok (J \<union> jumps_of loop) T F p" by (rule ok_mono) (auto simp: c(9))
  qed
qed

lemma ok_list:
  assumes "ok J T F p" "bc_compile_list cs result p = Some p'"
  shows "ok J T F p'"
proof -
  from assms(2) obtain loop where "bc_compile_until cs 0 result (p, None) = Some (p', loop)" by (auto simp: bc_compile_list_def)
  from fineD_in[OF lists_fine(1) assms(1) _ this] show ?thesis by (auto elim: ok_mono)
qed

end
