(* ===== verification/ProgramSound.thy ===== *)
theory ProgramSound
  imports ListSound RuFile
begin

text \<open>Whole programs: the table of functions, the places of their variables, and the final program.\<close>

declare opcode_byte.simps [simp del]

section \<open>The table of functions\<close>

lemma declared_function:
  "declare_function c p = Some p' \<Longrightarrow> \<exists>f. p' = p\<lparr>bc_functions := bc_functions p @ [f]\<rparr> \<and> fn_entry f = 0"
  by (auto simp: declare_function_def bind_eq_Some_conv split: if_splits)

definition more_functions :: "ussr_bc_program \<Rightarrow> ussr_bc_program \<Rightarrow> bool" where
  "more_functions p p' \<longleftrightarrow> (\<exists>fs. p' = p\<lparr>bc_functions := bc_functions p @ fs\<rparr> \<and> (\<forall>f\<in>set fs. fn_entry f = 0))"

lemma more_functions_refl [simp]: "more_functions p p"
  unfolding more_functions_def by (rule exI[of _ "[]"]) simp

lemma more_functions_trans:
  assumes "more_functions p q" "more_functions q r"
  shows "more_functions p r"
proof -
  from assms obtain fs gs where "q = p\<lparr>bc_functions := bc_functions p @ fs\<rparr>" "\<forall>f\<in>set fs. fn_entry f = 0"
    "r = q\<lparr>bc_functions := bc_functions q @ gs\<rparr>" "\<forall>f\<in>set gs. fn_entry f = 0" by (auto simp: more_functions_def)
  then show ?thesis unfolding more_functions_def by (intro exI[of _ "fs @ gs"]) auto
qed

lemma declare_more: "declare_function c p = Some p' \<Longrightarrow> more_functions p p'"
  using declared_function unfolding more_functions_def by fastforce

lemma collected_functions:
  "bc_collect_functions cs p = Some p' \<Longrightarrow> more_functions p p'"
  "functions_in_blocks as p = Some p' \<Longrightarrow> more_functions p p'"
proof (induction cs p and as p arbitrary: p' and p' rule: bc_collect_functions_functions_in_blocks.induct)
  case (2 path name ret args cs p)
  show ?case
  proof (cases "bc_is_definition (Command path name ret args)")
    case True
    with 2(5) obtain p1 p2 where c: "declare_function (Command path name ret args) p = Some p1"
      "functions_in_blocks (drop (length args - 1) args) p1 = Some p2" "bc_collect_functions cs p2 = Some p'"
      by (auto simp: bind_eq_Some_conv)
    show ?thesis by (rule more_functions_trans[OF more_functions_trans[OF declare_more[OF c(1)] 2(1)[OF True c(1,2)]] 2(2)[OF True c]])
  next
    case False
    with 2(5) obtain p1 where c: "functions_in_blocks args p = Some p1" "bc_collect_functions cs p1 = Some p'"
      by (auto simp: bind_eq_Some_conv)
    show ?thesis by (rule more_functions_trans[OF 2(3)[OF False c(1)] 2(4)[OF False c]])
  qed
next
  case (4 b body as p)
  then show ?case by (auto simp: bind_eq_Some_conv) (blast intro: more_functions_trans)
qed auto

section \<open>The places of variables\<close>

lemma resolve_opcode [simp]: "ins_opcode (resolve_variable p names ins) = ins_opcode ins"
  by (auto simp: resolve_variable_def split: prod.split)

lemma variable_place_bound: "fst (variable_place name names) \<le> 2 \<and> snd (variable_place name names) \<le> 255"
  by (auto simp: variable_place_def split: option.split)

lemma sound_resolve:
  assumes "sound_at n k strings fns ins"
  shows "sound_at n k strings fns (resolve_variable p names ins)"
proof (cases "ins_opcode ins \<noteq> opcode_byte USSR_BC_LOAD_VAR \<and> ins_opcode ins \<noteq> opcode_byte USSR_BC_STORE_VAR")
  case True
  then show ?thesis using assms by (simp add: resolve_variable_def)
next
  case False
  obtain place slot where v: "variable_place (string_at p ins) names = (place, slot)" by (cases "variable_place (string_at p ins) names")
  have "place \<le> 2" using variable_place_bound[of "string_at p ins" names] v by simp
  then have "unat (word_of_nat place :: byte) \<le> 2" by (simp add: unat_of_nat)
  then show ?thesis using assms False
    by (auto simp: resolve_variable_def v sound_at_def operand_error_def Let_def split: if_splits)
qed

lemma function_locals_ok:
  assumes "ok J T (bc_functions p) p" "bc_function_locals program f (length (bc_code p)) body p = Some p'"
    "unat (fn_entry (bc_functions p ! f)) \<le> length (bc_code p)"
  shows "ok J T (bc_functions p') p' \<and> length (bc_functions p') = length (bc_functions p) \<and>
    map fn_entry (bc_functions p') = map fn_entry (bc_functions p)"
proof -
  let ?F = "bc_functions p" and ?e = "unat (fn_entry (bc_functions p ! f))" and ?n = "length (bc_code p)"
  from assms(2) obtain names where p': "p' = p\<lparr>bc_code := take ?e (bc_code p) @ map (resolve_variable p names) (drop ?e (bc_code p)),
      bc_functions := ?F[f := (?F ! f)\<lparr>fn_locals := names\<rparr>]\<rparr>"
    by (auto simp: bc_function_locals_def bind_eq_Some_conv Let_def function_code_def split: if_splits)
  have len: "length (bc_code p') = ?n" using assms(3) by (simp add: p')
  have nth: "bc_code p' ! i = (if i < ?e then bc_code p ! i else resolve_variable p names (bc_code p ! i))" if "i < ?n" for i
    using that assms(3) by (auto simp: p' nth_append min_def)
  have op: "ins_opcode (bc_code p' ! i) = ins_opcode (bc_code p ! i)" if "i < ?n" for i using nth[OF that] by simp
  have s: "sound_at ?n (length (bc_constants p)) (bc_strings p) (length ?F) (bc_code p' ! i)" if "i < ?n" for i
    using assms(1) nth[OF that] that sound_resolve by (simp add: ok_def)
  have "site_fits (bc_code p') q x" if "site_fits (bc_code p) q x" for q x using that op len by (auto simp: site_fits_def)
  then have "sites_fit p'" using assms(1) by (auto simp: ok_def sites_fit_def list_all_iff p')
  moreover have "\<forall>ins\<in>set (bc_code p'). sound_at (length (bc_code p')) (length (bc_constants p')) (bc_strings p') (length (bc_functions p')) ins"
    using s by (auto simp: in_set_conv_nth len) (simp add: p')
  moreover have "\<forall>i\<in>J. is_jump p' i" using assms(1) op len by (auto simp: ok_def is_jump_def)
  ultimately have "ok J T (bc_functions p') p'" using assms(1) len by (simp add: ok_def)
  moreover have "(map fn_entry ?F)[f := fn_entry (?F ! f)] = map fn_entry ?F" by (metis list_update_id map_update)
  ultimately show ?thesis by (simp add: p' map_update)
qed

section \<open>Functions\<close>

definition entries :: "ussr_bc_function list \<Rightarrow> nat set" where
  "entries F = (\<lambda>f. unat (fn_entry f)) ` set F"

text \<open>\<open>k\<close> functions, each with its entry inside the code.\<close>

definition program_sound :: "nat set \<Rightarrow> nat \<Rightarrow> ussr_bc_program \<Rightarrow> bool" where
  "program_sound J k p \<longleftrightarrow> ok J (entries (bc_functions p)) (bc_functions p) p \<and> length (bc_functions p) = k"

lemma entries_map: "entries F = (\<lambda>e. unat e) ` set (map fn_entry F)"
  by (auto simp: entries_def)

lemma ok_functions: "ok J T F p \<Longrightarrow> length F' = length F \<Longrightarrow> ok J T F' (p\<lparr>bc_functions := F'\<rparr>)"
  by (simp add: ok_def is_jump_def sites_fit_def)

lemma compile_function_ok:
  assumes ok: "program_sound J k p" and e: "compile_function program c body p = Some p'"
  shows "program_sound J k p'"
proof -
  from e obtain f where f: "bc_find_function (cmd_name c) p = Some f" by (auto simp: compile_function_def bind_eq_Some_conv)
  let ?F = "(bc_functions p)[f := (bc_functions p ! f)\<lparr>fn_entry := word_of_nat (length (bc_code p))\<rparr>]"
  from e f obtain p1 p2 p3 where c: "bc_compile_list body (Some (fn_return_name (?F ! f))) (p\<lparr>bc_functions := ?F\<rparr>) = Some p1"
    "emit_constant USSR_NULL USSR_BC_RETURN_REG p1 = Some p2" "emit_only USSR_BC_RET 0 0 0 0 p2 = Some p3"
    "bc_function_locals program f (length (bc_code p3)) body p3 = Some p'"
    by (auto simp: compile_function_def bind_eq_Some_conv Let_def)
  have fb: "f < length (bc_functions p)" by (rule find_function_bound[OF f])
  have m: "length (bc_code p) \<le> USSR_BC_MAX_CODE" using ok by (simp add: program_sound_def ok_def)
  have "entries ?F \<subseteq> insert (length (bc_code p)) (entries (bc_functions p))"
  proof
    fix x assume "x \<in> entries ?F"
    then obtain g where g: "g \<in> set ?F" "x = unat (fn_entry g)" by (auto simp: entries_def)
    show "x \<in> insert (length (bc_code p)) (entries (bc_functions p))"
      using subsetD[OF set_update_subset_insert g(1)] m g(2) by (auto simp: entries_def USSR_BC_MAX_CODE_def unat_index)
  qed
  then have "ok J (entries ?F) (bc_functions p) p" using ok_mono[OF ok_here] ok by (auto simp: program_sound_def)
  then have "ok J (entries ?F) ?F (p\<lparr>bc_functions := ?F\<rparr>)" by (rule ok_functions) simp
  then have "ok J (entries ?F) ?F p1" by (rule ok_list[OF _ c(1)])
  then have ok3: "ok J (entries ?F) ?F p3" by (intro ok_emit_only[OF ok_emit_constant[OF _ c(2)] c(3)]) (simp_all add: free_operand_def)
  then have F3: "bc_functions p3 = ?F" by (simp add: ok_def)
  have "?F ! f \<in> set ?F" using fb set_update_memI[OF fb] by simp
  then have "unat (fn_entry (bc_functions p3 ! f)) \<le> length (bc_code p3)"
    using ok3 unfolding F3 ok_def entries_def by blast
  from function_locals_ok[OF _ c(4) this] ok3 F3
  have "ok J (entries ?F) (bc_functions p') p'" "length (bc_functions p') = length ?F" "map fn_entry (bc_functions p') = map fn_entry ?F" by auto
  then show ?thesis using ok by (simp add: program_sound_def entries_map)
qed

lemma functions_ok:
  shows "bc_compile_functions program cs p = Some p' \<Longrightarrow> program_sound J k p \<Longrightarrow> program_sound J k p'"
    "compile_blocks program as p = Some p' \<Longrightarrow> program_sound J k p \<Longrightarrow> program_sound J k p'"
  by (induction program cs p and program as p arbitrary: p' and p' rule: bc_compile_functions_compile_blocks.induct)
    (auto simp: bind_eq_Some_conv split: if_splits dest: compile_function_ok)

section \<open>The locals of functions\<close>

text \<open>The names of the functions a program defines.\<close>

fun defined_names :: "ussr_command list \<Rightarrow> string set" and defined_in :: "ussr_argument list \<Rightarrow> string set" where
  "defined_names [] = {}"
| "defined_names (Command path name ret args # cs) =
     (if bc_is_definition (Command path name ret args) then insert (the name) (defined_in (drop (length args - 1) args))
      else defined_in args) \<union> defined_names cs"
| "defined_in [] = {}"
| "defined_in (USSR_ARGUMENT_COMMAND_LIST b body # as) = defined_names body \<union> defined_in as"
| "defined_in (_ # as) = defined_in as"

definition has_locals :: "ussr_bc_function \<Rightarrow> bool" where
  "has_locals f \<longleftrightarrow> (\<exists>r. fn_return_name f = Some r \<and> set (fn_parameters f @ [r]) \<subseteq> set (fn_locals f) \<and>
     (distinct (fn_parameters f @ [r]) \<longrightarrow> length (fn_parameters f) < length (fn_locals f)))"

text \<open>Every function has a name of its own and a return variable, and those of \<open>S\<close> have their locals.\<close>

definition declared :: "string set \<Rightarrow> ussr_bc_program \<Rightarrow> bool" where
  "declared S p \<longleftrightarrow> distinct (map fn_name (bc_functions p)) \<and>
     (\<forall>f\<in>set (bc_functions p). fn_return_name f \<noteq> None \<and> (fn_name f \<in> S \<longrightarrow> has_locals f))"

lemma fold_names_add: "set (fold bc_names_add xs names) = set xs \<union> set names"
  by (induction xs arbitrary: names) (auto simp: bc_names_add_def)

lemma local_names_has: "set (fn_parameters f) \<union> set_option (fn_return_name f) \<subseteq> set (local_names program own f n p)"
  by (auto simp: local_names_def Let_def fold_names_add split: option.splits)

lemma subset_length: "set xs \<subseteq> set ys \<Longrightarrow> distinct xs \<Longrightarrow> length xs \<le> length ys"
  by (metis card_length card_mono distinct_card finite_set order_trans)

lemma locals_computed:
  assumes "fn_return_name f \<noteq> None" "fn_parameters g = fn_parameters f" "fn_return_name g = fn_return_name f"
  shows "has_locals (f\<lparr>fn_locals := local_names program own g n p\<rparr>)"
proof -
  let ?ls = "local_names program own g n p"
  from assms(1) obtain r where r: "fn_return_name f = Some r" by auto
  have s: "set (fn_parameters f @ [r]) \<subseteq> set ?ls" using local_names_has[of g program own n p] assms(2,3) r by auto
  then have "length (fn_parameters f) < length ?ls" if "distinct (fn_parameters f @ [r])" using subset_length[OF s that] by simp
  with s r show ?thesis by (auto simp: has_locals_def)
qed

lemma find_function_at: "bc_find_function (Some name) p = Some f \<Longrightarrow> f < length (bc_functions p) \<and> fn_name (bc_functions p ! f) = name"
proof -
  have "function_from i (Some name) fs = Some f \<Longrightarrow> i \<le> f \<and> f < i + length fs \<and> fn_name (fs ! (f - i)) = name" for i fs
    by (induction i "Some name" fs rule: function_from.induct) (auto simp: nth_Cons' split: if_splits)
  from this[of 0 "bc_functions p"] show "bc_find_function (Some name) p = Some f \<Longrightarrow> ?thesis" by (simp add: bc_find_function_def)
qed

lemma find_function_none: "bc_find_function (Some name) p = None \<Longrightarrow> name \<notin> fn_name ` set (bc_functions p)"
proof -
  have "function_from i (Some name) fs = None \<Longrightarrow> name \<notin> fn_name ` set fs" for i fs
    by (induction i "Some name" fs rule: function_from.induct) (auto split: if_splits)
  from this[of 0 "bc_functions p"] show "bc_find_function (Some name) p = None \<Longrightarrow> ?thesis" by (simp add: bc_find_function_def)
qed

lemma find_function_named: "bc_find_function name p = Some f \<Longrightarrow> name \<noteq> None"
proof -
  have "function_from i None fs = None" for i fs by (induction fs arbitrary: i) auto
  then show "bc_find_function name p = Some f \<Longrightarrow> ?thesis" by (cases name) (auto simp: bc_find_function_def)
qed

text \<open>The table has the defined functions.\<close>

lemma declare_names:
  "declare_function c p = Some p' \<Longrightarrow> declared {} p \<Longrightarrow>
   declared {} p' \<and> fn_name ` set (bc_functions p') = insert (the (cmd_name c)) (fn_name ` set (bc_functions p))"
  by (auto simp: declare_function_def bind_eq_Some_conv declared_def dest!: find_function_none split: if_splits)

lemma collected_names:
  "bc_collect_functions cs p = Some p' \<Longrightarrow> declared {} p \<Longrightarrow>
     declared {} p' \<and> fn_name ` set (bc_functions p') = defined_names cs \<union> fn_name ` set (bc_functions p)"
  "functions_in_blocks as p = Some p' \<Longrightarrow> declared {} p \<Longrightarrow>
     declared {} p' \<and> fn_name ` set (bc_functions p') = defined_in as \<union> fn_name ` set (bc_functions p)"
proof (induction cs p and as p arbitrary: p' and p' rule: bc_collect_functions_functions_in_blocks.induct)
  case (2 path name ret args cs p)
  show ?case
  proof (cases "bc_is_definition (Command path name ret args)")
    case True
    with 2(5) obtain p1 p2 where c: "declare_function (Command path name ret args) p = Some p1"
      "functions_in_blocks (drop (length args - 1) args) p1 = Some p2" "bc_collect_functions cs p2 = Some p'"
      by (auto simp: bind_eq_Some_conv)
    note d = declare_names[OF c(1) 2(6)]
    note b = 2(1)[OF True c(1,2) conjunct1[OF d]]
    from d b 2(2)[OF True c conjunct1[OF b]] True show ?thesis by auto
  next
    case False
    with 2(5) obtain p1 where c: "functions_in_blocks args p = Some p1" "bc_collect_functions cs p1 = Some p'"
      by (auto simp: bind_eq_Some_conv)
    note b = 2(3)[OF False c(1) 2(6)]
    from b 2(4)[OF False c conjunct1[OF b]] False show ?thesis by auto
  qed
next
  case (4 b body as p)
  from 4(3) obtain p1 where c: "bc_collect_functions body p = Some p1" "functions_in_blocks as p1 = Some p'"
    by (auto simp: bind_eq_Some_conv)
  note d = 4(1)[OF c(1) 4(4)]
  from d 4(2)[OF c conjunct1[OF d]] show ?case by auto
qed auto

text \<open>Compiling the functions fills in the locals of each.\<close>

lemma compiled_function:
  assumes ok: "program_sound J k p" and e: "compile_function program c body p = Some p'"
  shows "\<exists>f own n e code. bc_find_function (cmd_name c) p = Some f \<and>
    bc_functions p' = (bc_functions p)[f := (bc_functions p ! f)\<lparr>fn_entry := e,
      fn_locals := local_names program own ((bc_functions p ! f)\<lparr>fn_entry := e\<rparr>) n code\<rparr>]"
proof -
  from e obtain f where f: "bc_find_function (cmd_name c) p = Some f" by (auto simp: compile_function_def bind_eq_Some_conv)
  let ?n = "length (bc_code p)"
  let ?F = "(bc_functions p)[f := (bc_functions p ! f)\<lparr>fn_entry := word_of_nat ?n\<rparr>]"
  from e f obtain p1 p2 p3 where c: "bc_compile_list body (Some (fn_return_name (?F ! f))) (p\<lparr>bc_functions := ?F\<rparr>) = Some p1"
    "emit_constant USSR_NULL USSR_BC_RETURN_REG p1 = Some p2" "emit_only USSR_BC_RET 0 0 0 0 p2 = Some p3"
    "bc_function_locals program f (length (bc_code p3)) body p3 = Some p'"
    by (auto simp: compile_function_def bind_eq_Some_conv Let_def)
  have fb: "f < length (bc_functions p)" by (rule find_function_bound[OF f])
  have "ok {} {} (bc_functions p) p" using ok by (auto simp: program_sound_def elim: ok_mono)
  then have "ok {} {} ?F (p\<lparr>bc_functions := ?F\<rparr>)" by (rule ok_functions) simp
  then have "ok {} {} ?F p1" by (rule ok_list[OF _ c(1)])
  then have "ok {} {} ?F p3" by (intro ok_emit_only[OF ok_emit_constant[OF _ c(2)] c(3)]) (simp_all add: free_operand_def)
  then have F3: "bc_functions p3 = ?F" by (simp add: ok_def)
  from c(4) obtain own where own: "bc_functions p' = ?F[f := (?F ! f)\<lparr>fn_locals := local_names program own (?F ! f) (length (bc_code p3)) p3\<rparr>]"
    by (auto simp: bc_function_locals_def bind_eq_Some_conv Let_def F3 split: if_splits)
  show ?thesis using f own fb by (intro exI[of _ f] conjI exI) simp_all
qed

lemma compile_function_declared:
  assumes "program_sound J k p" "declared S p" "compile_function program c body p = Some p'"
  shows "declared (insert (the (cmd_name c)) S) p'"
proof -
  obtain f own n e code where f: "bc_find_function (cmd_name c) p = Some f" "bc_functions p' = (bc_functions p)[f :=
      (bc_functions p ! f)\<lparr>fn_entry := e, fn_locals := local_names program own ((bc_functions p ! f)\<lparr>fn_entry := e\<rparr>) n code\<rparr>]"
    using compiled_function[OF assms(1,3)] by blast
  let ?F = "bc_functions p" and ?name = "the (cmd_name c)"
  define g where "g = (?F ! f)\<lparr>fn_entry := e, fn_locals := local_names program own ((?F ! f)\<lparr>fn_entry := e\<rparr>) n code\<rparr>"
  have F: "bc_functions p' = ?F[f := g]" using f(2) by (simp add: g_def)
  obtain name where name: "cmd_name c = Some name" using find_function_named[OF f(1)] by auto
  have at: "f < length ?F" "fn_name (?F ! f) = name" using find_function_at f(1) name by auto
  have d: "distinct (map fn_name ?F)" "\<And>x. x \<in> set ?F \<Longrightarrow> fn_return_name x \<noteq> None" "\<And>x. x \<in> set ?F \<Longrightarrow> fn_name x \<in> S \<Longrightarrow> has_locals x"
    using assms(2) by (auto simp: declared_def)
  have ret: "fn_return_name (?F ! f) \<noteq> None" using d(2) at(1) nth_mem by blast
  then have g: "has_locals g" "fn_name g = name" "fn_return_name g \<noteq> None"
    using locals_computed[of "(?F ! f)\<lparr>fn_entry := e\<rparr>"] at(2) by (simp_all add: g_def)
  have names: "map fn_name (bc_functions p') = map fn_name ?F" using at g(2) by (metis F list_update_id map_update)
  have "has_locals x" if x: "x \<in> set (bc_functions p')" "fn_name x \<in> insert name S" for x
  proof -
    from x(1) obtain i where i: "i < length ?F" "x = ?F[f := g] ! i" unfolding F by (auto simp: in_set_conv_nth)
    show ?thesis
    proof (cases "i = f")
      case True
      then show ?thesis using i g(1) by simp
    next
      case False
      then have "fn_name x \<noteq> name" using i at d(1) nth_eq_iff_index_eq[OF d(1), of i f] by auto
      then show ?thesis using x(2) i False d(3)[of x] nth_mem[OF i(1)] by simp
    qed
  qed
  moreover have "fn_return_name x \<noteq> None" if "x \<in> set (bc_functions p')" for x
    using that g(3) d(2) set_update_subset_insert[of ?F f g] unfolding F by blast
  ultimately show ?thesis using names d(1) name by (simp add: declared_def)
qed

lemma functions_declared:
  shows "bc_compile_functions program cs p = Some p' \<Longrightarrow> program_sound J k p \<Longrightarrow> declared S p \<Longrightarrow> declared (defined_names cs \<union> S) p'"
    "compile_blocks program as p = Some p' \<Longrightarrow> program_sound J k p \<Longrightarrow> declared S p \<Longrightarrow> declared (defined_in as \<union> S) p'"
proof (induction program cs p and program as p arbitrary: p' S and p' S rule: bc_compile_functions_compile_blocks.induct)
  case (2 program path name ret args cs p)
  let ?c = "Command path name ret args"
  show ?case
  proof (cases "bc_is_definition ?c")
    case True
    with 2(5) obtain p1 p2 where c: "compile_function program ?c (block_of (last args)) p = Some p1"
      "compile_blocks program (drop (length args - 1) args) p1 = Some p2" "bc_compile_functions program cs p2 = Some p'"
      by (auto simp: bind_eq_Some_conv)
    note s1 = compile_function_ok[OF 2(6) c(1)]
    note s2 = functions_ok(2)[OF c(2) s1]
    note d = 2(1)[OF True c(1,2) s1 compile_function_declared[OF 2(6,7) c(1)]]
    from 2(2)[OF True c s2 d] True show ?thesis by (simp add: Un_commute Un_left_commute Un_assoc insert_commute)
  next
    case False
    with 2(5) obtain p1 where c: "compile_blocks program args p = Some p1" "bc_compile_functions program cs p1 = Some p'"
      by (auto simp: bind_eq_Some_conv)
    from 2(4)[OF False c functions_ok(2)[OF c(1) 2(6)] 2(3)[OF False c(1) 2(6,7)]] False
    show ?thesis by (simp add: Un_commute Un_left_commute)
  qed
next
  case (4 program b body as p)
  from 4(3) obtain p1 where c: "bc_compile_functions program body p = Some p1" "compile_blocks program as p1 = Some p'"
    by (auto simp: bind_eq_Some_conv)
  from 4(2)[OF c functions_ok(1)[OF c(1) 4(4)] 4(1)[OF c(1) 4(4,5)]] show ?case by (simp add: Un_commute Un_left_commute)
qed simp_all

lemma function_names:
  shows "bc_compile_functions program cs p = Some p' \<Longrightarrow> program_sound J k p \<Longrightarrow> map fn_name (bc_functions p') = map fn_name (bc_functions p)"
    "compile_blocks program as p = Some p' \<Longrightarrow> program_sound J k p \<Longrightarrow> map fn_name (bc_functions p') = map fn_name (bc_functions p)"
proof (induction program cs p and program as p arbitrary: p' and p' rule: bc_compile_functions_compile_blocks.induct)
  case (2 program path name ret args cs p)
  let ?c = "Command path name ret args"
  show ?case
  proof (cases "bc_is_definition ?c")
    case True
    with 2(5) obtain p1 p2 where c: "compile_function program ?c (block_of (last args)) p = Some p1"
      "compile_blocks program (drop (length args - 1) args) p1 = Some p2" "bc_compile_functions program cs p2 = Some p'"
      by (auto simp: bind_eq_Some_conv)
    note s1 = compile_function_ok[OF 2(6) c(1)]
    have "map fn_name (bc_functions p1) = map fn_name (bc_functions p)"
      using compiled_function[OF 2(6) c(1)] by (auto simp: map_update list_update_same_conv dest: find_function_bound)
    with 2(1)[OF True c(1,2) s1] 2(2)[OF True c functions_ok(2)[OF c(2) s1]] show ?thesis by simp
  next
    case False
    with 2(5) obtain p1 where c: "compile_blocks program args p = Some p1" "bc_compile_functions program cs p1 = Some p'"
      by (auto simp: bind_eq_Some_conv)
    from 2(4)[OF False c functions_ok(2)[OF c(1) 2(6)]] 2(3)[OF False c(1) 2(6)] show ?thesis by simp
  qed
next
  case (4 program b body as p)
  from 4(3) obtain p1 where c: "bc_compile_functions program body p = Some p1" "compile_blocks program as p1 = Some p'"
    by (auto simp: bind_eq_Some_conv)
  from 4(2)[OF c functions_ok(1)[OF c(1) 4(4)]] 4(1)[OF c(1) 4(4)] show ?case by simp
qed simp_all

section \<open>Compiled programs\<close>

lemma ok_no_program: "bc_functions p = F \<Longrightarrow> bc_code p = [] \<Longrightarrow> bc_oop_sites p = [] \<Longrightarrow> bc_scan_sites p = [] \<Longrightarrow> T \<subseteq> {0} \<Longrightarrow> ok {} T F p"
  by (auto simp: ok_def sites_fit_def USSR_BC_MAX_CODE_def)

lemma compiled_source_ok:
  assumes "uuasm_compile_source source = Some p"
  obtains p0 i where "bc_emit USSR_BC_HALT 0 0 0 0 p0 = Some (i, p)" "program_sound {} (length (bc_functions p)) p0"
    "list_all has_locals (bc_functions p)"
proof -
  from assms obtain program p1 skip p2 p3 p4 p0 i where c: "bc_collect_functions source no_program = Some p1"
    "bc_emit USSR_BC_JMP 0 0 0 0 p1 = Some (skip, p2)" "bc_compile_functions program source p2 = Some p3"
    "bc_patch skip (length (bc_code p3)) p3 = Some p4" "bc_compile_list source None p4 = Some p0"
    "bc_emit USSR_BC_HALT 0 0 0 0 p0 = Some (i, p)"
    by (auto simp: uuasm_compile_source_def bind_eq_Some_conv emit_only_def)
  let ?k = "length (bc_functions p1)"
  from collected_functions(1)[OF c(1)] obtain fs where p1: "p1 = no_program\<lparr>bc_functions := fs\<rparr>" "\<forall>f\<in>set fs. fn_entry f = 0"
    by (auto simp: more_functions_def no_program_def)
  have "ok {} (entries fs) fs p1" by (rule ok_no_program) (use p1 in \<open>auto simp: no_program_def entries_def\<close>)
  then have "ok {skip} (entries fs) fs p2" by (rule ok_emit_jump[OF _ c(2)]) simp_all
  then have ok2: "program_sound {skip} ?k p2" using p1 by (simp add: program_sound_def ok_def no_program_def)
  have F: "bc_functions p = bc_functions p0" using c(6) by (auto simp: bc_emit_def split: if_splits)
  have ok3: "program_sound {skip} ?k p3" by (rule functions_ok(1)[OF c(3) ok2])
  have "program_sound {skip} ?k p4"
    using ok_patch_here[OF _ c(4), of "{skip}"] ok3 c(4) by (auto simp: program_sound_def bc_patch_def split: if_splits)
  then have "ok {} (entries (bc_functions p4)) (bc_functions p4) p4" by (auto simp: program_sound_def elim: ok_mono)
  from ok_list[OF this c(5)] have sound: "program_sound {} (length (bc_functions p)) p0" and F0: "bc_functions p0 = bc_functions p4"
    by (auto simp: program_sound_def F ok_def)
  have "declared {} no_program" by (simp add: declared_def no_program_def)
  note names = collected_names(1)[OF c(1) this]
  have "bc_functions p2 = bc_functions p1" using c(2) by (auto simp: bc_emit_def split: if_splits)
  then have "declared {} p2" using names by (simp add: declared_def)
  from functions_declared(1)[OF c(3) ok2 this] have d: "declared (defined_names source) p3" by simp
  have "fn_name ` set (bc_functions p3) \<subseteq> defined_names source"
    using arg_cong[OF function_names(1)[OF c(3) ok2], of set] names \<open>bc_functions p2 = bc_functions p1\<close> by (simp add: no_program_def)
  then have "list_all has_locals (bc_functions p3)" using d by (auto simp: declared_def list_all_iff)
  moreover have "bc_functions p4 = bc_functions p3" using c(4) by (auto simp: bc_patch_def split: if_splits)
  ultimately have "list_all has_locals (bc_functions p)" using F F0 by simp
  then show ?thesis using that c(6) sound by blast
qed

lemma compiled_structure:
  assumes "ussr_uuasm_compile_to_bytecode source = Some p"
  shows "bc_code p \<noteq> []" "length (bc_code p) \<le> USSR_BC_MAX_CODE" "ins_opcode (last (bc_code p)) = opcode_byte USSR_BC_HALT"
    "list_all (\<lambda>ins. ru_known_opcode (ins_opcode ins) \<and>
      operand_error (length (bc_code p)) (length (bc_constants p)) (bc_strings p) (length (bc_functions p)) ins = None) (bc_code p)"
    "list_all (\<lambda>f. unat (fn_entry f) < length (bc_code p)) (bc_functions p)"
    "list_all (site_fits (bc_code p) USSR_BC_OOP) (bc_oop_sites p)" "list_all (site_fits (bc_code p) USSR_BC_SCAN) (bc_scan_sites p)"
    "list_all has_locals (bc_functions p)"
proof -
  from assms have "uuasm_compile_source source = Some p" by (auto simp: ussr_uuasm_compile_to_bytecode_def bind_eq_Some_conv split: if_splits)
  then obtain p0 i where c: "bc_emit USSR_BC_HALT 0 0 0 0 p0 = Some (i, p)" "program_sound {} (length (bc_functions p)) p0"
    "list_all has_locals (bc_functions p)"
    by (rule compiled_source_ok)
  have p: "p = p0\<lparr>bc_code := bc_code p0 @ [instruction USSR_BC_HALT 0 0 0 0]\<rparr>" "length (bc_code p0) < USSR_BC_MAX_CODE"
    using c(1) by (auto simp: bc_emit_def split: if_splits)
  have ok0: "ok {} (entries (bc_functions p0)) (bc_functions p0) p0" using c(2) by (simp add: program_sound_def)
  have halt: "sound_at (length (bc_code p0)) (length (bc_constants p0)) (bc_strings p0) (length (bc_functions p0))
      (instruction USSR_BC_HALT 0 0 0 0)" by (rule sound_free) (simp add: free_operand_def)
  from ok_emit[OF ok0 c(1) halt] have fit: "sites_fit p" by (simp add: ok_def)
  have all: "list_all (\<lambda>ins. sound_at (length (bc_code p0)) (length (bc_constants p)) (bc_strings p) (length (bc_functions p)) ins) (bc_code p)"
    using ok0 halt by (simp add: ok_def p list_all_iff)
  show "bc_code p \<noteq> []" "length (bc_code p) \<le> USSR_BC_MAX_CODE" "ins_opcode (last (bc_code p)) = opcode_byte USSR_BC_HALT"
    using p by (simp_all add: instruction_def)
  show "list_all (\<lambda>ins. ru_known_opcode (ins_opcode ins) \<and>
      operand_error (length (bc_code p)) (length (bc_constants p)) (bc_strings p) (length (bc_functions p)) ins = None) (bc_code p)"
    "list_all (\<lambda>f. unat (fn_entry f) < length (bc_code p)) (bc_functions p)"
    using all ok0 p by (auto simp: sound_at_def instruction_def ok_def entries_def list_all_iff ru_known_opcode_def less_Suc_eq_le)
  show "list_all (site_fits (bc_code p) USSR_BC_OOP) (bc_oop_sites p)" "list_all (site_fits (bc_code p) USSR_BC_SCAN) (bc_scan_sites p)"
    using fit by (simp_all add: sites_fit_def)
  show "list_all has_locals (bc_functions p)" by (fact c(3))
qed

text \<open>
  C1: What the compiler guarantees of every program it accepts. The code is not
  empty, within its limit, and ends with \<open>HALT\<close>; every opcode is known; every jump, of loops, branches,
  \<open>break\<close>, \<open>continue\<close>, \<open>choose\<close> and short circuits, leads to an instruction of the program; every constant, string
  and function an instruction names exists, variable accesses have a known kind; every function
  begins inside the code; and the sites of OOP and scan commands lie at such instructions. Every
  function has its parameters and its return variable among its locals, and more locals than
  parameters when those names are all different. These are the structural checks of the loader but for two, on
  functions, that a compiled program can fail: the limit on parameters, and the number of
  locals when a name is used twice (see \<open>CompileLoad\<close>).
\<close>

theorem compiled_programs_are_sound:
  assumes "ussr_uuasm_compile_to_bytecode source = Some p"
  shows "bc_code p \<noteq> [] \<and> length (bc_code p) \<le> USSR_BC_MAX_CODE \<and> ins_opcode (last (bc_code p)) = opcode_byte USSR_BC_HALT \<and>
    list_all (\<lambda>ins. ru_known_opcode (ins_opcode ins) \<and>
      operand_error (length (bc_code p)) (length (bc_constants p)) (bc_strings p) (length (bc_functions p)) ins = None) (bc_code p) \<and>
    list_all (\<lambda>f. unat (fn_entry f) < length (bc_code p)) (bc_functions p) \<and>
    list_all (site_fits (bc_code p) USSR_BC_OOP) (bc_oop_sites p) \<and> list_all (site_fits (bc_code p) USSR_BC_SCAN) (bc_scan_sites p) \<and>
    list_all (\<lambda>f. \<exists>r. fn_return_name f = Some r \<and> set (fn_parameters f @ [r]) \<subseteq> set (fn_locals f) \<and>
      (distinct (fn_parameters f @ [r]) \<longrightarrow> length (fn_parameters f) < length (fn_locals f))) (bc_functions p)"
  using compiled_structure[OF assms] by (simp add: has_locals_def[abs_def])

end
