(* ===== verification/CompileLoad.thy ===== *)
theory CompileLoad
  imports ProgramSound
begin

text \<open>
  From a source to a \<open>.ru\<close> file and back: \<open>ussr_uuasm_compile_to_bytecode\<close>,
  \<open>ussr_ru_write_file\<close> and \<open>ussr_ru_read_file\<close> one after the other.
\<close>

section \<open>What can be stored\<close>

text \<open>
  The texts of a program are C strings, without a NUL inside, and the blocks kept with its call sites are as the
  parser makes them (a command has a name, a lookup names a variable).
\<close>

definition program_texts :: "ussr_bc_program \<Rightarrow> bool" where
  "program_texts p \<longleftrightarrow>
     (\<forall>s. USSR_STRING s \<in> set (bc_constants p) \<or> Some s \<in> set (bc_strings p) \<longrightarrow> cstring s) \<and>
     (\<forall>f\<in>set (bc_functions p). \<forall>s\<in>insert (fn_name f) (set_option (fn_return_name f) \<union> set (fn_parameters f) \<union> set (fn_locals f)). cstring s) \<and>
     list_all (\<lambda>s. ok_site (reduced_site s)) (bc_oop_sites p @ bc_scan_sites p)"

lemma put_text_ok: "ru_put_string (Some s) = Some bs \<Longrightarrow> cstring s \<Longrightarrow> ok_text s"
  by (simp add: ok_text_def split: if_splits)

lemma put_constant_ok: "ru_put_constant v = Some bs \<Longrightarrow> (\<And>s. v = USSR_STRING s \<Longrightarrow> cstring s) \<Longrightarrow> ok_constant v"
  by (cases v) (auto simp: put_seq_Some put_text_ok simp del: ru_put_string.simps)

lemma put_all_each: "put_all f xs = Some bs \<Longrightarrow> x \<in> set xs \<Longrightarrow> \<exists>b. f x = Some b"
  by (induction xs arbitrary: bs) (auto simp: put_seq_Some)

lemma put_counted_each: "put_counted f xs = Some bs \<Longrightarrow> x \<in> set xs \<Longrightarrow> \<exists>b. f x = Some b"
  using put_all_each by (fastforce simp: put_counted_def put_seq_Some)

lemma put_all_length: "put_all f xs = Some bs \<Longrightarrow> (\<And>x b. f x = Some b \<Longrightarrow> b \<noteq> []) \<Longrightarrow> length xs \<le> length bs"
proof (induction xs arbitrary: bs)
  case (Cons x xs)
  then obtain a b where b: "f x = Some a" "put_all f xs = Some b" "bs = a @ b" by (auto simp: put_seq_Some)
  have "length xs \<le> length b" using Cons.IH b(2) Cons.prems(2) by blast
  with Cons.prems(2)[OF b(1)] show ?case by (cases a) (auto simp: b(3))
qed simp

lemma put_counted_length:
  assumes "put_counted f xs = Some bs" "\<And>x b. f x = Some b \<Longrightarrow> b \<noteq> []"
  shows "length xs \<le> length bs"
proof -
  from assms(1) obtain b where "put_all f xs = Some b" "length b \<le> length bs" by (auto simp: put_counted_def put_seq_Some)
  with put_all_length[OF _ assms(2)] show ?thesis by fastforce
qed

lemma put_string_some: "ru_put_string s = Some b \<Longrightarrow> b \<noteq> []"
  using ru_put_string_length by fastforce

lemma put_some:
  "ru_put_constant v = Some b \<Longrightarrow> b \<noteq> []" "ru_put_function f = Some b \<Longrightarrow> b \<noteq> []" "ru_put_site s = Some b \<Longrightarrow> b \<noteq> []"
proof -
  have "put_tag t = Some b \<Longrightarrow> b \<noteq> []" for t b by (auto simp: put_tag_def ru_put_u8_def)
  then show "ru_put_constant v = Some b \<Longrightarrow> b \<noteq> []" by (cases v) (auto simp: put_seq_Some simp del: ru_put_string.simps)
  show "ru_put_function f = Some b \<Longrightarrow> b \<noteq> []" by (auto simp: ru_put_function_def put_seq_Some simp del: ru_put_string.simps dest!: put_string_some)
  show "ru_put_site s = Some b \<Longrightarrow> b \<noteq> []"
    by (cases "site_command s") (auto simp: put_seq_Some simp del: ru_put_string.simps split: if_splits dest!: put_string_some)
qed

text \<open>The parts of a function that was written are as the loader wants them, its counts apart.\<close>

lemma put_function_texts:
  assumes "ru_put_function f = Some bs" "length bs < 2 ^ 32" "has_locals f"
    "\<forall>s\<in>insert (fn_name f) (set_option (fn_return_name f) \<union> set (fn_parameters f) \<union> set (fn_locals f)). cstring s"
  shows "ok_text (fn_name f)" "ok_string (fn_return_name f)" "list_all ok_text (fn_parameters f)" "list_all ok_text (fn_locals f)"
    "length (fn_parameters f) < 2 ^ 32" "length (fn_locals f) < 2 ^ 32"
proof -
  let ?put = "\<lambda>s. ru_put_string (Some s)"
  from assms(1) obtain b1 b2 b4 b5 where b: "?put (fn_name f) = Some b1" "ru_put_string (fn_return_name f) = Some b2"
    "put_counted ?put (fn_parameters f) = Some b4" "put_counted ?put (fn_locals f) = Some b5"
    "length b4 \<le> length bs" "length b5 \<le> length bs"
    by (auto simp: ru_put_function_def put_seq_Some simp del: ru_put_string.simps)
  have "length (fn_parameters f) \<le> length b4" "length (fn_locals f) \<le> length b5"
    by (rule put_counted_length[OF b(3)], erule put_string_some) (rule put_counted_length[OF b(4)], erule put_string_some)
  then show "length (fn_parameters f) < 2 ^ 32" "length (fn_locals f) < 2 ^ 32" using b(5,6) assms(2) by simp_all
  have "ok_text s" if "s \<in> set (fn_parameters f) \<union> set (fn_locals f)" for s
    using that put_counted_each[OF b(3)] put_counted_each[OF b(4)] put_text_ok assms(4) by blast
  then show "list_all ok_text (fn_parameters f)" "list_all ok_text (fn_locals f)" by (simp_all add: list_all_iff)
  show "ok_string (fn_return_name f)"
    using b(2) put_text_ok assms(3,4) by (auto simp: ok_string_def has_locals_def simp del: ru_put_string.simps)
  show "ok_text (fn_name f)" using put_text_ok[OF b(1)] assms(4) by simp
qed

section \<open>What the loader says of a function\<close>

text \<open>What the loader asks of a function and the compiler does not guarantee, and the error it gives.\<close>

definition function_fits :: "ussr_bc_function \<Rightarrow> bool" where
  "function_fits f \<longleftrightarrow> length (fn_parameters f) \<le> USSR_BC_MAX_REGS \<and> length (fn_parameters f) < length (fn_locals f)"

definition function_error :: "ussr_bc_function \<Rightarrow> ru_error" where
  "function_error f = (if length (fn_parameters f) > USSR_BC_MAX_REGS then TooManyParameters else TooFewLocals)"

lemma read_function:
  assumes "ru_put_function f = Some bs" "length bs < 2 ^ 32" "has_locals f" "unat (fn_entry f) < n"
    "\<forall>s\<in>insert (fn_name f) (set_option (fn_return_name f) \<union> set (fn_parameters f) \<union> set (fn_locals f)). cstring s"
  shows "ru_get_function n (bs @ r) = (if function_fits f then Inr (f, r) else Inl (function_error f))"
proof -
  note o = put_function_texts[OF assms(1-3,5)]
  show ?thesis
  proof (cases "function_fits f")
    case True
    then have "ok_function n f" using o assms(4) by (simp add: ok_function_def function_fits_def)
    with True assms(1) show ?thesis by (simp add: function_codec.get_put)
  next
    case False
    from assms(1) obtain b1 b2 b3 b4 where b: "ru_put_string (Some (fn_name f)) = Some b1"
        "ru_put_string (fn_return_name f) = Some b2"
        "put_all (\<lambda>s. ru_put_string (Some s)) (fn_parameters f) = Some b3"
        "put_all (\<lambda>s. ru_put_string (Some s)) (fn_locals f) = Some b4"
      and bs: "bs = b1 @ b2 @ ru_put_u32 (fn_entry f) @ ru_put_u32 (word_of_nat (length (fn_parameters f)))
        @ b3 @ ru_put_u32 (word_of_nat (length (fn_locals f))) @ b4"
      by (auto simp: ru_put_function_def put_counted_def put_Some simp del: ru_put_string.simps)
    have "ru_get_count 4 (ru_put_u32 (word_of_nat (length (fn_parameters f))) @ b3 @ r')
        = Inr (length (fn_parameters f), b3 @ r')" for r'
      using text_codec.size_put_all[OF b(3)] o(5) by (intro get_put_count) auto
    moreover have "ru_get_count 4 (ru_put_u32 (word_of_nat (length (fn_locals f))) @ b4 @ r)
        = Inr (length (fn_locals f), b4 @ r)"
      using text_codec.size_put_all[OF b(4)] o(6) by (intro get_put_count) auto
    ultimately show ?thesis
      using False assms(4) by (auto simp: bs ru_get_function_def ru_then_def ru_fail_def function_fits_def function_error_def
        get_put_text'[OF o(1) b(1)] get_put_string[OF o(2) b(2)] text_codec.repeat_put[OF o(3) b(3)]
        simp del: ru_put_string.simps)
  qed
qed

lemma read_functions:
  assumes "put_all ru_put_function fs = Some bs"
    and "\<And>f b s. f \<in> set fs \<Longrightarrow> ru_put_function f = Some b \<Longrightarrow> length b \<le> length bs \<Longrightarrow>
      ru_get_function n (b @ s) = (if function_fits f then Inr (f, s) else Inl (function_error f))"
  shows "ru_repeat (length fs) (ru_get_function n) (bs @ r) =
    (case find (\<lambda>f. \<not> function_fits f) fs of None \<Rightarrow> Inr (fs, r) | Some f \<Rightarrow> Inl (function_error f))"
  using assms
proof (induction fs arbitrary: bs)
  case (Cons f fs)
  from Cons.prems(1) obtain b1 b2 where b: "ru_put_function f = Some b1" "put_all ru_put_function fs = Some b2" "bs = b1 @ b2"
    by (auto simp: put_seq_Some)
  have "ru_repeat (length fs) (ru_get_function n) (b2 @ r) =
    (case find (\<lambda>f. \<not> function_fits f) fs of None \<Rightarrow> Inr (fs, r) | Some f \<Rightarrow> Inl (function_error f))"
    by (rule Cons.IH[OF b(2)]) (rule Cons.prems(2), auto simp: b(3))
  moreover have "ru_get_function n (b1 @ b2 @ r) = (if function_fits f then Inr (f, b2 @ r) else Inl (function_error f))"
    using Cons.prems(2)[OF _ b(1)] b(3) by simp
  ultimately show ?case by (auto simp: ru_then_def ru_return_def b(3) split: option.split)
qed (simp add: ru_return_def)

section \<open>The whole way\<close>

lemma compiled_read:
  assumes c: "ussr_uuasm_compile_to_bytecode source = Some p" and t: "program_texts p"
    and w: "ru_payload p = Some payload" "length payload < 2 ^ 32"
  shows "ru_get_program payload = (case find (\<lambda>f. \<not> function_fits f) (bc_functions p) of
      None \<Rightarrow> Inr (reduced_program p, []) | Some f \<Rightarrow> Inl (function_error f))"
proof -
  from w(1) obtain b1 b2 b3 b4 b5 b6 where b:
    "put_counted ru_put_instruction (bc_code p) = Some b1"
    "put_counted ru_put_constant (bc_constants p) = Some b2"
    "put_counted ru_put_string (bc_strings p) = Some b3"
    "put_counted ru_put_function (bc_functions p) = Some b4"
    "put_counted ru_put_site (bc_oop_sites p) = Some b5"
    "put_counted ru_put_site (bc_scan_sites p) = Some b6"
    and bs: "payload = b1 @ b2 @ b3 @ b4 @ b5 @ b6"
    by (auto simp: ru_payload_def put_seq_Some simp del: ru_put_site.simps)
  note s = compiled_structure[OF c]
  have k: "list_all ok_constant (bc_constants p)"
    using put_counted_each[OF b(2)] put_constant_ok t unfolding list_all_iff program_texts_def by metis
  have "ok_string x" if "x \<in> set (bc_strings p)" for x
    using put_counted_each[OF b(3) that] put_text_ok t that unfolding program_texts_def
    by (cases x) (auto simp: ok_string_def simp del: ru_put_string.simps)
  then have st: "list_all ok_string (bc_strings p)" by (simp add: list_all_iff)
  have n: "length (bc_constants p) \<le> length b2" "length (bc_strings p) \<le> length b3" "length (bc_functions p) \<le> length b4"
    "length (bc_oop_sites p) \<le> length b5" "length (bc_scan_sites p) \<le> length b6"
    by (rule put_counted_length[OF b(2)], erule put_some) (rule put_counted_length[OF b(3)], erule put_string_some,
      rule put_counted_length[OF b(4)], erule put_some, rule put_counted_length[OF b(5)], erule put_some,
      rule put_counted_length[OF b(6)], erule put_some)
  have fits: "site_fits code q (reduced_site x) = site_fits code q x" for code q x by (simp add: site_fits_def reduced_site_def)
  let ?n = "length (bc_code p)"
  let ?bad = "find (\<lambda>f. \<not> function_fits f) (bc_functions p)"
  from b(4) obtain b4' where b4: "put_all ru_put_function (bc_functions p) = Some b4'"
    "b4 = ru_put_u32 (word_of_nat (length (bc_functions p))) @ b4'" by (auto simp: put_counted_def put_seq_Some)
  have one: "ru_get_function ?n (y @ r) = (if function_fits f then Inr (f, r) else Inl (function_error f))"
    if "f \<in> set (bc_functions p)" "ru_put_function f = Some y" "length y \<le> length b4'" for f y r
    using that s(5,8) t w(2) by (intro read_function) (auto simp: list_all_iff program_texts_def bs b4(2))
  have "length b4 \<le> length payload" by (simp add: bs)
  then have count: "ru_get_count 16 (b4 @ r) = Inr (length (bc_functions p), b4' @ r)" for r
    using function_codec.size_put_all[OF b4(1)] n(3) w(2) by (simp add: b4(2))
  have 4: "ru_then (ru_get_count 16) (\<lambda>m. ru_repeat m (ru_get_function ?n)) (b4 @ r) =
      (case ?bad of None \<Rightarrow> Inr (bc_functions p, r) | Some f \<Rightarrow> Inl (function_error f))" for r
    using read_functions[OF b4(1) one] by (simp add: ru_then_def count)
  have 1: "ru_get_code (b1 @ r) = Inr (bc_code p, r)" for r
    using s by (intro get_put_code b) (auto simp: list_all_iff ok_instruction_def)
  have 2: "ru_then (ru_get_count 1) (\<lambda>m. ru_repeat m ru_get_constant) (b2 @ r) = Inr (bc_constants p, r)" for r
    using k n(1) w(2) by (intro constant_codec.counted_put b) (auto simp: bs)
  have 3: "ru_then (ru_get_count 4) (\<lambda>m. ru_repeat m (ru_get_string True)) (b3 @ r) = Inr (bc_strings p, r)" for r
    using st n(2) w(2) by (intro string_codec.counted_put b) (auto simp: bs)
  show ?thesis
  proof (cases ?bad)
    case (Some f)
    have "ru_get_program payload = Inl (function_error f)"
      unfolding ru_get_program_def bs
      by (subst ru_then_Inr, rule 1, subst ru_then_Inr, rule 2, subst ru_then_Inr, rule 3)
        (subst ru_then_def, simp only: 4, simp add: Some)
    with Some show ?thesis by simp
  next
    case None
    then have "\<forall>f\<in>set (bc_functions p). function_fits f" by (simp add: find_None_iff)
    have "ok_function ?n f" if f: "f \<in> set (bc_functions p)" for f
    proof -
      obtain y where y: "ru_put_function f = Some y" using put_counted_each[OF b(4) f] by blast
      have "put_all ru_put_function xs = Some z \<Longrightarrow> f \<in> set xs \<Longrightarrow> length y \<le> length z" for xs z
        using y by (induction xs arbitrary: z) (auto simp: put_seq_Some intro: trans_le_add2)
      with b4(1) f have "length y \<le> length b4'" by blast
      from one[OF f y this, of "[]"] \<open>\<forall>f\<in>_. _\<close> f function_codec.put_get[of ?n "y @ []" f "[]"] show ?thesis by simp
    qed
    then have "list_all (ok_function ?n) (bc_functions p)" by (simp add: list_all_iff)
    then have "ru_valid (reduced_program p)" using s k st n w(2) t
      by (simp add: ru_valid_def reduced_program_def list_all_iff ok_instruction_def program_texts_def fits bs)
    from get_put_program[OF this, of payload "[]"] w(1) None show ?thesis by simp
  qed
qed

text \<open>A written file is its payload to the loader.\<close>

lemma parse_payload:
  assumes "length payload < 2 ^ 32"
  shows "ru_parse (ru_header producer payload @ payload @ ru_put_u32 (ru_crc32 (ru_header producer payload @ payload))) =
    (case ru_get_program payload of Inl e \<Rightarrow> Inl e | Inr (p, r) \<Rightarrow> if r \<noteq> [] then Inl DataAfterLastSection else Inr p)"
proof -
  let ?h = "ru_header producer payload" and ?c = "ru_put_u32 (ru_crc32 (ru_header producer payload @ payload))"
  let ?d = "?h @ payload @ ?c"
  note h = header_fields[OF refl[of ?d]]
  have l: "length ?d = 28 + length payload" by simp
  have t: "take (length ?d - 4) ?d = ?h @ payload" by simp
  have c: "(field ?d (length ?d - 4) 4 :: 32 word) = ru_crc32 (?h @ payload)"
    using field_at[of "?h @ payload" "24 + length payload" 4 "ru_crc32 (?h @ payload)" "[]"]
    by (simp add: ru_put_u32_def)
  have g: "drop RU_HEADER_SIZE (?h @ payload) = payload" by (simp add: RU_HEADER_SIZE_def)
  show ?thesis
    unfolding ru_parse_def c t h g using payload_small[OF assms] l
    by (simp add: RU_HEADER_SIZE_def)
qed

text \<open>
  C36: From source to file and back. When a program compiles and is written to a file within the size limit,
  the loader gives that program back, its call sites reduced to what a file keeps of them, if each of its
  functions has at most \<open>USSR_BC_MAX_REGS\<close> parameters and more locals than parameters; otherwise it refuses the file
  with the error of the first function that does not. So these are the only checks of the loader that a compiled
  program can fail, and it does fail them: the compiler limits the number of parameters nowhere, and adds a name to
  the locals only once.
\<close>

theorem compiled_files_load:
  assumes "ussr_uuasm_compile_to_bytecode source = Some p" "program_texts p"
    and "ussr_ru_write_file producer p = Some bytes" "length bytes \<le> RU_MAX_FILE_SIZE"
  shows "ussr_ru_read_file bytes = (case find (\<lambda>f. \<not> function_fits f) (bc_functions p) of
      None \<Rightarrow> Inr (reduced_program p) | Some f \<Rightarrow> Inl (function_error f))"
proof -
  from assms(3) obtain payload where pl: "ru_payload p = Some payload"
    and b: "bytes = ru_header producer payload @ payload @ ru_put_u32 (ru_crc32 (ru_header producer payload @ payload))"
    by (auto simp: ussr_ru_write_file_def Let_def)
  have small: "length payload < 2 ^ 32" using assms(4) by (simp add: b RU_MAX_FILE_SIZE_def)
  have "ussr_ru_read_file bytes = ru_parse bytes" using assms(4) by (simp add: ussr_ru_read_file_def)
  then show ?thesis unfolding b parse_payload[OF small] compiled_read[OF assms(1,2) pl small] by (simp split: option.split)
qed

end
