(* ===== verification/CompileExample.thy ===== *)
theory CompileExample
  imports CompileLoad
begin

text \<open>Small programs through the compiler.\<close>

lemmas compile_simps = bc_compile_until.simps conditional_branches.simps block_branches.simps bc_compile_choose.simps choose_bodies.simps
  bc_compile_command.simps compile_if.simps compile_do.simps compile_for.simps for_body.simps compile_while.simps
  bc_compile_expression.simps bc_compile_expression_short.simps

lemmas compile_defs = bc_compile_argument_def bc_store_result_def bc_store_boolean_def store_status_def emit_only_def emit_constant_def
  emit_named_def bc_add_constant_def bc_add_string_def pool_limit_def bc_emit_def bc_patch_def USSR_BC_MAX_CODE_def USSR_BC_RETURN_REG_def
  named_def bc_is_definition_def one_argument_def starts_block_chain_def starts_with_def after_command_def bc_is_conditional_label_def
  bc_is_choose_label_def has_block_def compile_break_def compile_plain_def bc_find_function_def arithmetic_opcode_def

definition loop_source :: "ussr_command list" where
  "loop_source = [Command None (Some ''while'') None
     [USSR_ARGUMENT_VALUE False (USSR_INTEGER 1), USSR_ARGUMENT_COMMAND_LIST False [Command None (Some ''break'') None []]]]"

definition loop_code :: "ussr_bc_instruction list" where
  "loop_code = [instruction USSR_BC_JMP 0 0 0 1, instruction USSR_BC_LOAD_CONST 0 0 0 0, instruction USSR_BC_JMP_FALSE 0 0 0 5,
     instruction USSR_BC_JMP 0 0 0 5, instruction USSR_BC_JMP 0 0 0 1, instruction USSR_BC_HALT 0 0 0 0]"

definition loop_program :: ussr_bc_program where
  "loop_program = no_program\<lparr>bc_code := loop_code, bc_constants := [USSR_INTEGER 1]\<rparr>"

lemma loop_compiles: "uuasm_compile_source loop_source = Some loop_program"
  by (simp add: loop_program_def uuasm_compile_source_def loop_source_def loop_code_def no_program_def bc_compile_list_def compile_simps compile_defs instruction_def)

lemma loop_to_bytecode: "ussr_uuasm_compile_to_bytecode loop_source = Some loop_program"
  by (simp add: ussr_uuasm_compile_to_bytecode_def loop_compiles loop_program_def loop_code_def instruction_def ussr_uuasm_to_vm_opcode_def)

theorem compiled_programs_are_sound_witness: "list_all (\<lambda>ins. operand_error (length loop_code) 1 [] 0 ins = None) loop_code"
  using compiled_programs_are_sound[OF loop_to_bytecode] by (simp add: loop_program_def no_program_def list_all_iff)

text \<open>\<open>inc(x): x [ add(x): x 1 ]\<close>, where the parameter is the return variable.\<close>

definition inc_source :: "ussr_command list" where
  "inc_source = [Command None (Some ''inc'') (Some ''x'')
     [USSR_ARGUMENT_EXPRESSION False (USSR_EXPR_VARIABLE ''x''),
      USSR_ARGUMENT_COMMAND_LIST False [Command None (Some ''add'') (Some ''x'')
        [USSR_ARGUMENT_EXPRESSION False (USSR_EXPR_VARIABLE ''x''), USSR_ARGUMENT_VALUE False (USSR_INTEGER 1)]]]]"

definition inc_program :: ussr_bc_program where
  "inc_program = \<lparr>bc_code = [instruction USSR_BC_JMP 0 0 0 7, instruction USSR_BC_LOAD_VAR 0 1 0 0, instruction USSR_BC_LOAD_CONST 1 0 0 0,
      instruction USSR_BC_ADD 2 0 1 0, instruction USSR_BC_STORE_VAR 2 1 0 1, instruction USSR_BC_LOAD_CONST 31 0 0 1,
      instruction USSR_BC_RET 0 0 0 0, instruction USSR_BC_HALT 0 0 0 0],
    bc_constants = [USSR_INTEGER 1, USSR_NULL], bc_strings = [Some ''x'', Some ''x''],
    bc_functions = [\<lparr>fn_name = ''inc'', fn_return_name = Some ''x'', fn_parameters = [''x''], fn_entry = 1, fn_locals = [''x'']\<rparr>],
    bc_oop_sites = [], bc_scan_sites = []\<rparr>"

lemmas function_defs = compile_function_def bc_function_locals_def local_names_def stored_names_def scanned_names_def function_code_def
  string_at_def resolve_variable_def variable_place_def declare_function_def bc_names_add_def compile_arithmetic_def

lemma inc_compiles: "uuasm_compile_source inc_source = Some inc_program"
  by (simp add: uuasm_compile_source_def inc_source_def inc_program_def no_program_def bc_compile_list_def compile_simps compile_defs
    instruction_def function_defs Let_def map_filter_simps)

lemma inc_to_bytecode: "ussr_uuasm_compile_to_bytecode inc_source = Some inc_program"
  by (simp add: ussr_uuasm_compile_to_bytecode_def inc_compiles) (simp add: inc_program_def instruction_def ussr_uuasm_to_vm_opcode_def)

text \<open>The loop can be stored and loaded; a function that returns its parameter can be stored, but not loaded.\<close>

lemma written_file:
  "ru_payload p = Some payload \<Longrightarrow> length payload \<le> 1000 \<Longrightarrow>
   \<exists>bytes. ussr_ru_write_file producer p = Some bytes \<and> length bytes \<le> RU_MAX_FILE_SIZE"
  by (simp add: ussr_ru_write_file_def Let_def RU_MAX_FILE_SIZE_def)

theorem compiled_files_load_witness:
  "(\<exists>bytes. ussr_ru_write_file 0 loop_program = Some bytes \<and> ussr_ru_read_file bytes = Inr loop_program) \<and>
   (\<exists>bytes. ussr_ru_write_file 0 inc_program = Some bytes \<and> ussr_ru_read_file bytes = Inl TooFewLocals)"
proof
  have r: "reduced_program loop_program = loop_program" "reduced_program inc_program = inc_program"
    by (simp_all add: reduced_program_def loop_program_def no_program_def inc_program_def)
  have "\<exists>payload. ru_payload loop_program = Some payload \<and> length payload \<le> 1000"
    by (simp add: ru_payload_def put_counted_def loop_program_def loop_code_def no_program_def ru_put_instruction_def put_tag_def)
  then obtain b where b: "ussr_ru_write_file 0 loop_program = Some b" "length b \<le> RU_MAX_FILE_SIZE" using written_file by blast
  have t: "program_texts loop_program" by (simp add: program_texts_def loop_program_def no_program_def)
  have "bc_functions loop_program = []" by (simp add: loop_program_def no_program_def)
  with compiled_files_load[OF loop_to_bytecode t b] b
  show "\<exists>bytes. ussr_ru_write_file 0 loop_program = Some bytes \<and> ussr_ru_read_file bytes = Inr loop_program"
    by (simp add: r)
  have "\<exists>payload. ru_payload inc_program = Some payload \<and> length payload \<le> 1000"
    by (simp add: ru_payload_def put_counted_def inc_program_def ru_put_instruction_def put_tag_def ru_put_function_def RU_NULL_STRING_def)
  then obtain b where b: "ussr_ru_write_file 0 inc_program = Some b" "length b \<le> RU_MAX_FILE_SIZE" using written_file by blast
  have t: "program_texts inc_program" by (auto simp: program_texts_def inc_program_def cstring_def)
  have "find (\<lambda>f. \<not> function_fits f) (bc_functions inc_program) = Some (hd (bc_functions inc_program))" "function_error (hd (bc_functions inc_program)) = TooFewLocals"
    by (simp_all add: inc_program_def function_fits_def function_error_def USSR_BC_MAX_REGS_def)
  with compiled_files_load[OF inc_to_bytecode t b] b
  show "\<exists>bytes. ussr_ru_write_file 0 inc_program = Some bytes \<and> ussr_ru_read_file bytes = Inl TooFewLocals"
    by simp
qed

section \<open>Places\<close>

lemma place_get:
  assumes "sc_locals s = inner # rest" "variable_place (Some name) (loc_names inner) = (place, slot)"
  shows "ussr_get_variable_at r name (word_of_nat place) slot s = ussr_get_variable_at r name 0 0 s"
    "ussr_set_variable_at r name v (word_of_nat place) slot s = ussr_set_variable_at r name v 0 0 s"
proof -
  have l: "ussr_locals_for name s = name_position name (loc_names inner) 0" by (simp add: ussr_locals_for_def assms(1))
  have "name_position name names i = Some k \<Longrightarrow> i \<le> k \<and> k < i + length names" for names i k
    by (induction name names i rule: name_position.induct) (auto split: if_splits)
  then have b: "name_position name (loc_names inner) 0 = Some k \<Longrightarrow> slot_in_call k s" for k
    by (fastforce simp: slot_in_call_def assms(1))
  show "ussr_get_variable_at r name (word_of_nat place) slot s = ussr_get_variable_at r name 0 0 s"
    "ussr_set_variable_at r name v (word_of_nat place) slot s = ussr_set_variable_at r name v 0 0 s"
    using assms(2) b by (auto simp: variable_place_def ussr_get_variable_at_def ussr_set_variable_at_def ussr_get_variable_def
      ussr_set_variable_def l split: option.splits if_splits)
qed

text \<open>
  C15: Resolving the variables of a function ahead changes nothing. While a call of the function is the
  innermost one, an instruction with the place the compiler wrote into it, a slot of the call or
  global, does exactly what the instruction does that looks the name up at run time: same value or
  assignment, same error.
\<close>

theorem resolved_places_agree:
  assumes "sc_locals (m_scope m) = inner # rest" "loc_names inner = names" "ins_b ins = 0"
  shows "vm_instruction x host P (resolve_variable P names ins) m = vm_instruction x host P ins m"
proof (cases "ins_opcode ins \<noteq> opcode_byte USSR_BC_LOAD_VAR \<and> ins_opcode ins \<noteq> opcode_byte USSR_BC_STORE_VAR")
  case True
  then show ?thesis by (simp add: resolve_variable_def)
next
  case False
  obtain place slot where v: "variable_place (string_at P ins) names = (place, slot)" by (cases "variable_place (string_at P ins) names")
  have slot: "unat (word_of_nat slot :: byte) = slot" using variable_place_bound[of "string_at P ins" names] v by (simp add: unat_of_nat)
  have r: "resolve_variable P names ins = ins\<lparr>ins_b := word_of_nat place, ins_c := word_of_nat slot\<rparr>"
    using False v by (auto simp: resolve_variable_def)
  have at0: "ussr_get_variable_at True name 0 k (m_scope m) = ussr_get_variable_at True name 0 0 (m_scope m)"
    "ussr_set_variable_at True name w 0 k (m_scope m) = ussr_set_variable_at True name w 0 0 (m_scope m)" for name k w
    by (simp_all add: ussr_get_variable_at_def ussr_set_variable_at_def)
  show ?thesis
  proof (cases "string_at P ins")
    case None
    then show ?thesis using False slot
      by (auto simp: r vm_instruction_def vm_load_var_def vm_store_var_def vm_read_def string_at_def Let_def
        split: option.splits if_splits)
  next
    case (Some name)
    from place_get[OF assms(1), of name place slot True] v assms(2) Some
    have "ussr_get_variable_at True name (word_of_nat place) slot (m_scope m) = ussr_get_variable_at True name 0 0 (m_scope m)"
      "ussr_set_variable_at True name w (word_of_nat place) slot (m_scope m) = ussr_set_variable_at True name w 0 0 (m_scope m)" for w
      by auto
    then show ?thesis using False Some slot assms(3) at0(1)[of name "unat (ins_c ins)"] at0(2)[of name _ "unat (ins_c ins)"]
      by (auto simp: r vm_instruction_def vm_load_var_def vm_store_var_def vm_read_def string_at_def Let_def split: if_splits)
  qed
qed

theorem resolved_places_agree_witness:
  "vm_instruction 0 (\<lambda>_ _ _. None) inc_program (resolve_variable inc_program [''x''] (instruction USSR_BC_LOAD_VAR 0 0 0 0))
     (fresh_machine\<lparr>m_scope := ussr_locals_push [''x''] ussr_scope_create\<rparr>) =
   vm_instruction 0 (\<lambda>_ _ _. None) inc_program (instruction USSR_BC_LOAD_VAR 0 0 0 0)
     (fresh_machine\<lparr>m_scope := ussr_locals_push [''x''] ussr_scope_create\<rparr>)"
  by (rule resolved_places_agree[of _ "\<lparr>loc_names = [''x''], loc_values = [None]\<rparr>" "[]"])
    (simp_all add: ussr_locals_push_def ussr_scope_create_def instruction_def)

end
