(* ===== verification/Spec2Isabelle.thy ===== *)
theory Spec2Isabelle
  imports Prng XrpTable ChaCha RuExample BTreeProps RegexText SchedulerExample HeapExample CompileExample
begin

text \<open>
  A verification library of USSR, a shell whose scripts are interpreted, compiled to bytecode,
  stored in \<open>.ru\<close> files and run by cooperating processes on a register machine.

  \<^bold>\<open>The program and its parts.\<close> A script is parsed (\<open>parser.y\<close>, \<open>lexer.l\<close>) to the commands and
  expressions of \<open>ussr.h\<close>. The compiler (\<open>ussr_bytecode.c\<close>) turns them into instructions with pools
  of constants and names, functions and sites; \<open>ussr_ru.c\<close> writes such a program to a file and
  loads it back. The virtual machine (\<open>vm_execute\<close> of \<open>main.c\<close>) runs it over variable scopes
  (\<open>ussr.c\<close>) and a heap of counted objects with a mark and sweep collector (\<open>uno.c\<close>, \<open>gc.c\<close>), whose
  maps are B+ trees (\<open>btree.c\<close>) and whose patterns are searched by \<open>regex.c\<close>. The scheduler
  (\<open>scheduler.c\<close>) gives each process a turn, suspends it at a blocking instruction and wakes it on
  the events of \<open>eventq.c\<close>. Random numbers and the stream cipher are in \<open>prng64_xrp32.c\<close>.

  \<^bold>\<open>The theories and the code.\<close>
  \<^item> \<open>Prelude\<close>: bytes, C strings, words in memory order, generic lemmas; the collection
    \<open>bytes_simps\<close> of conversions. \<open>Values\<close>, \<open>Bytecode\<close>: \<open>ussr_value\<close>, syntax trees,
    instructions and programs of \<open>ussr.h\<close> and \<open>ussr_bytecode.h\<close>. \<open>Doubles\<close>, \<open>DoubleOps\<close>: the
    \<open>double\<close> of C as IEEE-754 binary64, by their 64-bit patterns: comparison, conversions, and the
    four operations rounded to nearest even.
  \<^item> \<open>Prng\<close>, \<open>XrpTable\<close>, \<open>ChaCha\<close>: the three builds of \<open>prng64_xrp32.c\<close>, one theory each. Every
    step of the generator is injective; the cipher implements the locale of a byte-wise stream
    cipher, and is compared with the published matrix form of ChaCha20 in counter mode.
  \<^item> \<open>EventQ\<close>: \<open>eventq.c\<close>. A step relation over the operations, its invariant, and what a dispatch
    reports for the timers and waits that are pending.
  \<^item> \<open>BTree\<close> to \<open>BTreeProps\<close>: \<open>btree.c\<close>. \<open>BTree\<close> has insertion, splitting, deletion, borrowing and
    merging; \<open>BTreeMap\<close> proves balance and the refinement to sorted association lists inside the
    locale \<open>key_order\<close>; \<open>BTreeLinks\<close> and \<open>BTreeSeek\<close> treat the linked leaves, positions, ranges and
    traversals; \<open>BTreeKeys\<close> interprets the locale on sets of keys on which \<open>ussr_btree_key_compare\<close>
    is an order.
  \<^item> \<open>RuWrite\<close>, \<open>RuRead\<close>: the writer and the loader of \<open>ussr_ru.c\<close>, with every error message.
    \<open>RuCodec\<close> states the contract of one kind of record as the locale \<open>codec\<close> and gives it for
    counted lists; \<open>RuBlocks\<close> and \<open>RuFile\<close> interpret it on every record up to the whole file;
    \<open>RuCrc\<close> treats the checksum, \<open>RuExample\<close> a program with every kind of record.
  \<^item> \<open>Regex\<close>, \<open>RegexRun\<close>: compiler and search of \<open>regex.c\<close>, where \<open>None\<close> is an access out of bounds.
    \<open>RegexChars\<close>: UTF-8; \<open>RegexCode\<close>: compiled code is well formed; \<open>RegexThreads\<close>, \<open>RegexSearch\<close>:
    the lockstep machine against a nondeterministic one; \<open>RegexLanguage\<close>: what repeats and
    alternatives mean as relations; \<open>RegexText\<close>: compiler and search together, for plain text.
  \<^item> \<open>Scheduler\<close> to \<open>SchedulerExample\<close>: \<open>scheduler.c\<close> and the suspension protocol of \<open>main.c\<close>.
    \<open>SchedulerInv\<close> is the invariant, \<open>SchedulerOps\<close> and \<open>SchedulerTurn\<close> its preservation by
    every operation and by a turn of the loop, \<open>SchedulerProps\<close> what follows for reachable
    states. What a process computes in its time slice is left open there.
  \<^item> \<open>StructTypes\<close>, \<open>Heap\<close> to \<open>HeapExample\<close>: struct types, vectors and instances of \<open>uno.c\<close>, their
    reference counts, and the collector of \<open>gc.c\<close>. \<open>HeapRefs\<close> and \<open>HeapOps\<close>: counts cover the
    references held; \<open>HeapStructs\<close>: fields keep their declared types; \<open>HeapGc\<close>: marking and
    sweeping.
  \<^item> \<open>Scopes\<close> to \<open>ScopesProps\<close>: the variables of \<open>ussr.c\<close>, with the open-addressing index of
    names, and the environment they refine.
  \<^item> \<open>Operators\<close>, \<open>Vm\<close>: the operators of \<open>main.c\<close> and the machine: one step (\<open>vm_step\<close>), and
    \<open>vm_execute\<close> as the loop of steps. \<open>CompileExpr\<close>, \<open>CompileCmd\<close>, \<open>CompileList\<close>,
    \<open>CompileProgram\<close>: the compiler. \<open>CompileExprProps\<close>: compiled expressions compute their
    value; \<open>CompileSound\<close>, \<open>ListSound\<close>, \<open>ProgramSound\<close>: what the compiler makes passes the
    structural checks of the loader but for two; \<open>CompileLoad\<close>: from a source through a \<open>.ru\<close> file
    back to a program, and when the loader refuses it; \<open>CompileExample\<close>: small programs through compiler,
    file and machine.

  \<^bold>\<open>Interfaces.\<close> Where one component relies on another the contract is a locale interpreted on the
  model of the provider: a stream cipher (\<open>stream_cipher\<close>), a source of events that are reported
  once (\<open>one_shot_source\<close>), the order of keys (\<open>key_order\<close>), the codec of a record (\<open>codec\<close>). The machine
  uses the operations of \<open>Scopes\<close>, \<open>Heap\<close>, \<open>Prng\<close> and \<open>Operators\<close> directly; the scheduler those of
  \<open>EventQ\<close>; the properties of the compiler are stated over the checks of \<open>RuRead\<close> and the steps
  of \<open>Vm\<close>.

  \<^bold>\<open>Bounds and fuel.\<close> Loops over links between B+ tree leaves and the loop of the machine are partial
  functions whose \<open>None\<close> is "does not return"; returning is proved, of traversals in \<open>BTreeProps\<close> and of
  compiled expressions in \<open>CompileExprProps\<close>. \<open>vm_steps\<close> counts steps and is only ever used with the number
  a fragment needs. The recursion bounds of the regex compiler are the length of the pattern,
  and its theorems say they are never reached. Limits of the code are kept as constants: 4096
  instructions and 4096 class ranges of a pattern in \<open>Regex\<close>, the section limits of the file
  format in \<open>RuRead\<close>, the capacities of registers, code and pools in \<open>CompileExpr\<close>, the pool
  counts below \<open>2 ^ 31\<close> that \<open>int\<close> arithmetic allows.

  \<^bold>\<open>Parameters.\<close> The clock, \<open>waitpid\<close> and the poll of sockets (\<open>EventQ\<close>, \<open>Scheduler\<close>), what a
  process does with its registers in a slice (\<open>Scheduler\<close>), the roots of a collection (\<open>HeapGc\<close>),
  the services of the host that an instruction may ask for (\<open>Vm\<close>), the order in which the
  arguments of a call are evaluated (\<open>XrpTable\<close>).

  \<^bold>\<open>Not modelled.\<close> Running out of memory, except where the code carries on without the memory (the
  index of a scope); text of messages, except the errors of the loader; files, terminals,
  sockets and processes of the operating system. The parser and lexer are inputs of Bison and
  Flex. Assets, the C library of \<open>usa/\<close>, the GUI and TLS bindings of \<open>moscow/\<close>, the HTTP client
  \<open>ryazan*.c\<close>, the line editor \<open>bestline.c\<close>, and platform layers are bindings or third-party code
  or pure input and output. The text assembler of \<open>ussr_uuasm.c\<close>, the UNO text format of
  \<open>uno.c\<close>, the OOP built-ins and the package manager \<open>ural/\<close> are left out for their size.
\<close>

end
